(* ===== verification/JS_Core.thy ===== *)
theory JS_Core
  imports Complex_Main "HOL-Library.Word" "HOL-Library.AList"
begin

text \<open>
  Prelude of the development: the part of the JavaScript standard library that the modelled
  TypeScript uses, and the generic facts about lists, association lists and folds that the
  component theories share.

  \<^item> A JavaScript string is a list of UTF-16 code units (\<open>jstr\<close>); \<open>js\<close> turns an
    Isabelle string literal into one.  \<open>length\<close>, \<open>slice\<close>, \<open>split\<close>, \<open>join\<close>,
    \<open>trim\<close> count and cut code units, as the source's do.
  \<^item> A \<open>Map\<close> is an association list kept in insertion order: \<open>set\<close> of a present key keeps
    its place (\<open>AList.update\<close>), \<open>delete\<close> removes it (\<open>AList.delete\<close>).
  \<^item> A \<open>Set\<close> is a duplicate-free list in insertion order.
  \<^item> A number is an \<open>int\<close> where the source only stores integers in it.
\<close>

named_theorems js_simps \<open>evaluation of the JavaScript library functions\<close>

subsection \<open>Strings\<close>

type_synonym code_unit = "16 word"
type_synonym jstr = "code_unit list"

definition js :: "string \<Rightarrow> jstr" where
  "js s = map of_char s"

lemma length_js [simp]: "length (js s) = length s"
  by (simp add: js_def)

lemma of_char_word_inj: "(of_char c :: code_unit) = of_char d \<longleftrightarrow> c = d"
proof
  assume eq: "(of_char c :: code_unit) = of_char d"
  have lt: "of_char x < (2 ^ 16 :: nat)" for x :: char
    using nat_of_char_less_256 [of x] by (rule less_trans) simp
  have un: "unat (of_char x :: code_unit) = of_char x" for x :: char
  proof -
    have "(of_char x :: code_unit) = word_of_nat (of_char x)"
      by (simp add: of_nat_of_char)
    then show ?thesis using lt [of x] by (simp add: unat_of_nat)
  qed
  have "(of_char c :: nat) = of_char d"
    using eq un by metis
  then show "c = d" by simp
qed simp

lemma js_eq_iff [simp]: "js s = js t \<longleftrightarrow> s = t"
  unfolding js_def by (rule inj_map_eq_map) (simp add: inj_def of_char_word_inj)

lemma js_Nil [simp]: "js [] = []"
  by (simp add: js_def)

lemma js_append: "js (s @ t) = js s @ js t"
  by (simp add: js_def)

text \<open>The white space and line terminators that \<open>trim\<close> removes (ECMA-262 \<open>WhiteSpace\<close> and
  \<open>LineTerminator\<close>).\<close>

definition js_ws :: "code_unit \<Rightarrow> bool" where
  "js_ws c \<longleftrightarrow> c \<in> set [9, 10, 11, 12, 13, 32, 0xA0, 0x1680, 0x2000, 0x2001, 0x2002, 0x2003,
     0x2004, 0x2005, 0x2006, 0x2007, 0x2008, 0x2009, 0x200A, 0x2028, 0x2029, 0x202F, 0x205F,
     0x3000, 0xFEFF]"

abbreviation js_LF :: code_unit where "js_LF \<equiv> 10"
abbreviation js_CR :: code_unit where "js_CR \<equiv> 13"
abbreviation js_space :: code_unit where "js_space \<equiv> 32"
abbreviation js_ellipsis :: code_unit where "js_ellipsis \<equiv> 0x2026"
abbreviation js_middot :: code_unit where "js_middot \<equiv> 0xB7"
abbreviation js_emdash :: code_unit where "js_emdash \<equiv> 0x2014"

definition js_trimStart :: "jstr \<Rightarrow> jstr" where
  "js_trimStart s = dropWhile js_ws s"

definition js_trimEnd :: "jstr \<Rightarrow> jstr" where
  "js_trimEnd s = rev (dropWhile js_ws (rev s))"

definition js_trim :: "jstr \<Rightarrow> jstr" where
  "js_trim s = js_trimEnd (js_trimStart s)"

text \<open>\<open>s.startsWith(p)\<close>, and \<open>s.split(c)\<close> for a one-unit separator.\<close>

definition js_startsWith :: "jstr \<Rightarrow> jstr \<Rightarrow> bool" where
  "js_startsWith s p \<longleftrightarrow> take (length p) s = p"

fun js_split :: "'a \<Rightarrow> 'a list \<Rightarrow> 'a list list" where
  "js_split c [] = [[]]"
| "js_split c (x # xs) =
     (if x = c then [] # js_split c xs
      else (case js_split c xs of [] \<Rightarrow> [[x]] | y # ys \<Rightarrow> (x # y) # ys))"

fun js_join :: "'a list \<Rightarrow> 'a list list \<Rightarrow> 'a list" where
  "js_join sep [] = []"
| "js_join sep [x] = x"
| "js_join sep (x # y # ys) = x @ sep @ js_join sep (y # ys)"

text \<open>Halves of a surrogate pair.\<close>

definition is_high_surrogate :: "code_unit \<Rightarrow> bool" where
  "is_high_surrogate c \<longleftrightarrow> 0xD800 \<le> unat c \<and> unat c < 0xDC00"

definition is_low_surrogate :: "code_unit \<Rightarrow> bool" where
  "is_low_surrogate c \<longleftrightarrow> 0xDC00 \<le> unat c \<and> unat c < 0xE000"

text \<open>\<open>String(n)\<close> for an integer.\<close>

fun js_nat :: "nat \<Rightarrow> jstr" where
  "js_nat n = (if n < 10 then [of_nat (48 + n)] else js_nat (n div 10) @ [of_nat (48 + n mod 10)])"

declare js_nat.simps [simp del]

definition js_int :: "int \<Rightarrow> jstr" where
  "js_int i = (if i < 0 then js ''-'' @ js_nat (nat (- i)) else js_nat (nat i))"

text \<open>\<open>Number(s)\<close> for a non-empty string of ASCII digits.\<close>

definition js_digit :: "code_unit \<Rightarrow> bool" where
  "js_digit c \<longleftrightarrow> 48 \<le> c \<and> c \<le> 57"

definition js_number :: "jstr \<Rightarrow> nat" where
  "js_number s = foldl (\<lambda>a c. 10 * a + (unat c - 48)) 0 s"

subsubsection \<open>Facts about strings\<close>

lemma length_js_trimEnd_le: "length (js_trimEnd s) \<le> length s"
  by (simp add: js_trimEnd_def) (metis length_dropWhile_le length_rev)

lemma js_trimEnd_prefix: "\<exists>t. s = js_trimEnd s @ t"
proof
  have "s = rev (dropWhile js_ws (rev s)) @ rev (takeWhile js_ws (rev s))"
    by (metis rev_append rev_rev_ident takeWhile_dropWhile_id)
  then show "s = js_trimEnd s @ rev (takeWhile js_ws (rev s))"
    by (simp add: js_trimEnd_def)
qed

lemma set_js_trimEnd: "set (js_trimEnd s) \<subseteq> set s"
  using js_trimEnd_prefix [of s] by (metis Un_upper1 set_append)

lemma js_split_not_Nil [simp]: "js_split c s \<noteq> []"
  by (induction s) (auto split: list.splits)

lemma js_join_split [simp]: "js_join [c] (js_split c s) = s"
proof (induction s)
  case (Cons x xs)
  then show ?case by (cases "js_split c xs") (auto, (metis js_join.simps(2,3) append_Cons list.exhaust)+)
qed simp

lemma js_split_no_sep: "c \<notin> set s \<Longrightarrow> js_split c s = [s]"
  by (induction s) auto

lemma js_split_append: "c \<notin> set s \<Longrightarrow> js_split c (s @ c # t) = s # js_split c t"
  by (induction s) auto

lemma js_split_members: "l \<in> set (js_split c s) \<Longrightarrow> c \<notin> set l"
proof (induction s arbitrary: l)
  case (Cons x xs)
  show ?case
  proof (cases "js_split c xs")
    case (Cons y ys)
    with Cons.prems Cons.IH show ?thesis by (auto split: if_splits)
  qed simp
qed simp

lemma js_split_join:
  assumes "ls \<noteq> []" and "\<forall>l \<in> set ls. c \<notin> set l"
  shows "js_split c (js_join [c] ls) = ls"
  using assms
proof (induction ls rule: induct_list012)
  case (2 x)
  then show ?case by (simp add: js_split_no_sep)
next
  case (3 x y zs)
  then show ?case by (simp add: js_split_append)
qed simp

lemma split_at_sep: "js_split c (a @ c # b) = js_split c a @ js_split c b"
proof (induction a)
  case (Cons x a)
  then show ?case by (cases "js_split c a") (simp_all add: js_split_not_Nil)
qed simp

lemma js_split_snoc_sep: "js_split c (s @ [c]) = js_split c s @ [[]]"
  using split_at_sep [of c s "[]"] by simp

lemma length_js_join:
  "length (js_join sep ls) = sum_list (map length ls) + length sep * (length ls - 1)"
  by (induction sep ls rule: js_join.induct) auto

lemma js_join_append:
  "xs \<noteq> [] \<Longrightarrow> ys \<noteq> [] \<Longrightarrow> js_join sep (xs @ ys) = js_join sep xs @ sep @ js_join sep ys"
proof (induction xs rule: induct_list012)
  case (2 x)
  then show ?case by (cases ys) auto
qed auto

lemma js_nat_not_Nil [simp]: "js_nat n \<noteq> []"
  by (subst js_nat.simps) simp

lemma js_number_snoc: "js_number (s @ [c]) = 10 * js_number s + (unat c - 48)"
  by (simp add: js_number_def)

lemma unat_digit: "d < 10 \<Longrightarrow> unat (of_nat (48 + d) :: code_unit) = 48 + d"
  by (simp only: unat_of_nat) simp

lemma js_number_js_nat [simp]: "js_number (js_nat n) = n"
proof (induction n rule: js_nat.induct)
  case (1 n)
  show ?case
  proof (cases "n < 10")
    case True
    then show ?thesis
      by (subst js_nat.simps) (simp add: js_number_def unat_digit del: of_nat_add)
  next
    case False
    with 1 show ?thesis
      by (subst js_nat.simps) (simp add: js_number_snoc unat_digit del: of_nat_add)
  qed
qed

lemma js_nat_inject [simp]: "js_nat m = js_nat n \<longleftrightarrow> m = n"
  by (metis js_number_js_nat)

lemma js_digit_of_nat: "d < 10 \<Longrightarrow> js_digit (of_nat (48 + d))"
  by (simp add: js_digit_def word_le_nat_alt unat_digit del: of_nat_add)

lemma js_nat_digits: "c \<in> set (js_nat n) \<Longrightarrow> js_digit c"
proof (induction n rule: js_nat.induct)
  case (1 n)
  then show ?case
    by (subst (asm) js_nat.simps)
      (auto simp: js_digit_of_nat simp del: of_nat_add split: if_splits)
qed

lemma js_nat_leading: "n \<noteq> 0 \<Longrightarrow> hd (js_nat n) \<noteq> 48"
proof (induction n rule: js_nat.induct)
  case (1 n)
  show ?case
  proof (cases "n < 10")
    case True
    have "unat (of_nat (48 + n) :: code_unit) \<noteq> unat (48 :: code_unit)"
      using True 1(2) by (simp only: unat_digit) simp
    then have "(of_nat (48 + n) :: code_unit) \<noteq> 48" by metis
    with True show ?thesis by (subst js_nat.simps) simp
  next
    case False
    with 1 show ?thesis by (subst js_nat.simps) simp
  qed
qed

subsection \<open>Maps and sets in insertion order\<close>

type_synonym ('k, 'v) jmap = "('k \<times> 'v) list"

abbreviation jm_get :: "('k, 'v) jmap \<Rightarrow> 'k \<Rightarrow> 'v option" where
  "jm_get m k \<equiv> map_of m k"

abbreviation jm_set :: "'k \<Rightarrow> 'v \<Rightarrow> ('k, 'v) jmap \<Rightarrow> ('k, 'v) jmap" where
  "jm_set k v m \<equiv> AList.update k v m"

abbreviation jm_delete :: "'k \<Rightarrow> ('k, 'v) jmap \<Rightarrow> ('k, 'v) jmap" where
  "jm_delete k m \<equiv> AList.delete k m"

abbreviation jm_keys :: "('k, 'v) jmap \<Rightarrow> 'k list" where
  "jm_keys m \<equiv> map fst m"

abbreviation jm_values :: "('k, 'v) jmap \<Rightarrow> 'v list" where
  "jm_values m \<equiv> map snd m"

abbreviation jm_wf :: "('k, 'v) jmap \<Rightarrow> bool" where
  "jm_wf m \<equiv> distinct (map fst m)"

declare map_of_eq_Some_iff [simp del] Some_eq_map_of_iff [simp del]

text \<open>\<open>m.get(k) ?? d\<close>.\<close>

definition jm_get_or :: "'v \<Rightarrow> ('k, 'v) jmap \<Rightarrow> 'k \<Rightarrow> 'v" where
  "jm_get_or d m k = (case jm_get m k of None \<Rightarrow> d | Some v \<Rightarrow> v)"

definition js_set_add :: "'a \<Rightarrow> 'a list \<Rightarrow> 'a list" where
  "js_set_add x xs = (if x \<in> set xs then xs else xs @ [x])"

definition js_set_delete :: "'a \<Rightarrow> 'a list \<Rightarrow> 'a list" where
  "js_set_delete x xs = filter (\<lambda>y. y \<noteq> x) xs"

lemma jm_get_set [simp]: "jm_get (jm_set k v m) k' = (if k' = k then Some v else jm_get m k')"
  by (simp add: update_conv')

lemma jm_get_delete [simp]: "jm_get (jm_delete k m) k' = (if k' = k then None else jm_get m k')"
  by (simp add: delete_conv')

lemma jm_wf_set [intro, simp]: "jm_wf m \<Longrightarrow> jm_wf (jm_set k v m)"
  by (rule distinct_update)

lemma jm_wf_delete [intro, simp]: "jm_wf m \<Longrightarrow> jm_wf (jm_delete k m)"
  by (rule distinct_delete)

lemma jm_keys_set: "jm_keys (jm_set k v m) = (if k \<in> set (jm_keys m) then jm_keys m else jm_keys m @ [k])"
  by (simp add: update_keys)

lemma jm_set_fresh: "k \<notin> set (jm_keys m) \<Longrightarrow> jm_set k v m = m @ [(k, v)]"
  by (induction m) auto

lemma jm_delete_fresh: "k \<notin> set (jm_keys m) \<Longrightarrow> jm_delete k m = m"
  by (induction m) auto

lemma jm_delete_append: "jm_delete k (m @ n) = jm_delete k m @ jm_delete k n"
  by (simp add: AList.delete_eq)

lemma jm_in_set:
  assumes "jm_wf m"
  shows "(k', v') \<in> set (jm_set k v m) \<longleftrightarrow> (if k' = k then v' = v else (k', v') \<in> set m)"
proof -
  have "(k', v') \<in> set (jm_set k v m) \<longleftrightarrow> jm_get (jm_set k v m) k' = Some v'"
    by (rule map_of_eq_Some_iff [OF jm_wf_set [OF assms], symmetric])
  also have "\<dots> \<longleftrightarrow> (if k' = k then v' = v else jm_get m k' = Some v')" by auto
  also have "\<dots> \<longleftrightarrow> (if k' = k then v' = v else (k', v') \<in> set m)"
    by (simp add: map_of_eq_Some_iff [OF assms])
  finally show ?thesis .
qed

lemma jm_in_delete:
  "(k', v') \<in> set (jm_delete k m) \<longleftrightarrow> k' \<noteq> k \<and> (k', v') \<in> set m"
  by (auto simp: AList.delete_eq)

lemma jm_keys_delete: "set (jm_keys (jm_delete k m)) = set (jm_keys m) - {k}"
  by (auto simp: delete_keys)

lemma jm_get_or_simps [simp]:
  "jm_get m k = None \<Longrightarrow> jm_get_or d m k = d"
  "jm_get m k = Some v \<Longrightarrow> jm_get_or d m k = v"
  by (simp_all add: jm_get_or_def)

lemma find_Some: "List.find P xs = Some x \<Longrightarrow> x \<in> set xs \<and> P x"
  by (auto simp: find_Some_iff)

lemma jm_get_or_set: "jm_get_or d (jm_set k v m) k' = (if k' = k then v else jm_get_or d m k')"
  by (simp add: jm_get_or_def)

lemma set_js_set_add [simp]: "set (js_set_add x xs) = insert x (set xs)"
  by (auto simp: js_set_add_def)

lemma set_js_set_delete [simp]: "set (js_set_delete x xs) = set xs - {x}"
  by (auto simp: js_set_delete_def)

lemma distinct_js_set_add [simp]: "distinct xs \<Longrightarrow> distinct (js_set_add x xs)"
  by (simp add: js_set_add_def)

lemma distinct_js_set_delete [simp]: "distinct xs \<Longrightarrow> distinct (js_set_delete x xs)"
  by (simp add: js_set_delete_def)

subsection \<open>Numbers\<close>

text \<open>A JavaScript number is a finite double (an exact rational) or not finite.\<close>

datatype js_num = JFinite rat | JNonFinite

text \<open>The double nearest to a natural number: 53 significant bits, ties to even, infinity from
  \<open>2 ^ 1024\<close> on.\<close>

fun bit_len :: "nat \<Rightarrow> nat" where
  "bit_len n = (if n = 0 then 0 else Suc (bit_len (n div 2)))"

declare bit_len.simps [simp del]

definition js_double :: "nat \<Rightarrow> js_num" where
  "js_double n =
     (if n < 2 ^ 53 then JFinite (of_nat n)
      else (let e = bit_len n - 53;
                q = n div 2 ^ e;
                r = n mod 2 ^ e;
                half = 2 ^ (e - 1);
                up = (half < r \<or> (r = half \<and> odd q));
                v = (if up then q + 1 else q) * 2 ^ e
            in if v < 2 ^ 1024 then JFinite (of_nat v) else JNonFinite))"

text \<open>\<open>Math.trunc\<close>, \<open>Math.ceil\<close> and \<open>Math.round\<close> of a finite number.\<close>

definition js_trunc :: "rat \<Rightarrow> int" where
  "js_trunc x = (if x < 0 then - \<lfloor>- x\<rfloor> else \<lfloor>x\<rfloor>)"

definition js_ceil_div :: "nat \<Rightarrow> nat \<Rightarrow> nat" where
  "js_ceil_div a b = (a + b - 1) div b"

definition js_round :: "rat \<Rightarrow> int" where
  "js_round x = \<lfloor>x + 1 / 2\<rfloor>"

text \<open>\<open>indexOf\<close> and \<open>lastIndexOf\<close> of one code unit.\<close>

definition js_indexOf :: "'a \<Rightarrow> 'a list \<Rightarrow> nat option" where
  "js_indexOf c s =
     (let n = length (takeWhile (\<lambda>x. x \<noteq> c) s) in if n = length s then None else Some n)"

definition js_lastIndexOf :: "'a \<Rightarrow> 'a list \<Rightarrow> nat option" where
  "js_lastIndexOf c s = map_option (\<lambda>n. length s - 1 - n) (js_indexOf c (rev s))"

lemma js_double_small [simp]: "n < 2 ^ 53 \<Longrightarrow> js_double n = JFinite (of_nat n)"
  by (simp add: js_double_def)

lemma js_trunc_of_nat [simp]: "js_trunc (of_nat n) = int n"
  by (simp add: js_trunc_def)

lemma takeWhile_not_in: "c \<notin> set s \<Longrightarrow> takeWhile (\<lambda>x. x \<noteq> c) s = s"
  by (induction s) auto

lemma takeWhile_until: "c \<notin> set s \<Longrightarrow> takeWhile (\<lambda>x. x \<noteq> c) (s @ c # t) = s"
  by (induction s) auto

lemma js_indexOf_None: "c \<notin> set s \<Longrightarrow> js_indexOf c s = None"
  by (simp add: js_indexOf_def takeWhile_not_in)

lemma js_indexOf_append: "c \<notin> set s \<Longrightarrow> js_indexOf c (s @ c # t) = Some (length s)"
  by (simp add: js_indexOf_def Let_def takeWhile_until)

lemma js_lastIndexOf_append: "c \<notin> set t \<Longrightarrow> js_lastIndexOf c (s @ c # t) = Some (length s)"
  using js_indexOf_append [of c "rev t" "rev s"] by (simp add: js_lastIndexOf_def)

lemma js_lastIndexOf_None: "c \<notin> set s \<Longrightarrow> js_lastIndexOf c s = None"
  by (simp add: js_lastIndexOf_def js_indexOf_None)

end
