(* ===== verification/Bounded_Render.thy ===== *)
theory Bounded_Render
  imports JS_Core
begin

text \<open>
  The tiering core of every bounded rendering
  (\<open>packages/roundtable/bounded-render.ts\<close>): items in priority order, a character budget,
  three tiers (verbatim, headline, collapsed).  The model keeps the loop of
  \<open>boundedRender\<close> with its five local variables; \<open>greedy_fit\<close> is the reference
  description that the loop is proved equal to, and the size bound follows from it.
\<close>

subsection \<open>Formatters, options, result\<close>

text \<open>The four functions a caller supplies.  They are arbitrary: the guarantees hold for
  every choice of them.\<close>

record 'a render_format =
  fmt_text :: "'a \<Rightarrow> jstr"
  fmt_verbatim :: "'a \<Rightarrow> jstr \<Rightarrow> nat \<Rightarrow> jstr"
  fmt_headline :: "'a \<Rightarrow> jstr \<Rightarrow> bool \<Rightarrow> jstr"
  fmt_collapsed :: "nat \<Rightarrow> jstr"

record 'a render_options =
  opt_budget :: "int option"
  opt_perItemCap :: "int option"
  opt_headlineCap :: "int option"
  opt_preserveOrder :: bool
  opt_format :: "'a render_format"

record render_result =
  rr_text :: jstr
  rr_total :: nat
  rr_verbatim :: nat
  rr_headlines :: nat
  rr_collapsed :: nat
  rr_chars :: nat

definition DEFAULT_BUDGET :: int where "DEFAULT_BUDGET = 2000"
definition DEFAULT_PER_ITEM_CAP :: int where "DEFAULT_PER_ITEM_CAP = 600"
definition DEFAULT_HEADLINE_CAP :: int where "DEFAULT_HEADLINE_CAP = 100"
definition MIN_BUDGET :: int where "MIN_BUDGET = 200"
definition MIN_PER_ITEM_CAP :: int where "MIN_PER_ITEM_CAP = 80"
definition MIN_HEADLINE_CAP :: int where "MIN_HEADLINE_CAP = 40"
definition MAX_MARKER_CHARS :: nat where "MAX_MARKER_CHARS = 200"

lemmas render_constants = DEFAULT_BUDGET_def DEFAULT_PER_ITEM_CAP_def DEFAULT_HEADLINE_CAP_def
  MIN_BUDGET_def MIN_PER_ITEM_CAP_def MIN_HEADLINE_CAP_def MAX_MARKER_CHARS_def

text \<open>\<open>options.x ?? DEFAULT\<close> floored at the minimum.\<close>

definition resolve_cap :: "int option \<Rightarrow> int \<Rightarrow> int \<Rightarrow> int" where
  "resolve_cap given dflt lo =
     max (case given of None \<Rightarrow> dflt | Some n \<Rightarrow> n) lo"

definition eff_budget :: "'a render_options \<Rightarrow> int" where
  "eff_budget opts = resolve_cap (opt_budget opts) DEFAULT_BUDGET MIN_BUDGET"

definition eff_perItemCap :: "'a render_options \<Rightarrow> int" where
  "eff_perItemCap opts = resolve_cap (opt_perItemCap opts) DEFAULT_PER_ITEM_CAP MIN_PER_ITEM_CAP"

definition eff_headlineCap :: "'a render_options \<Rightarrow> int" where
  "eff_headlineCap opts = resolve_cap (opt_headlineCap opts) DEFAULT_HEADLINE_CAP MIN_HEADLINE_CAP"

subsection \<open>normalizeMarker and capText\<close>

text \<open>\<open>marker.replace(/[\r\n]+/g, " ")\<close>: every maximal run of line breaks becomes one space.\<close>

definition js_break :: "code_unit \<Rightarrow> bool" where
  "js_break c \<longleftrightarrow> c = js_CR \<or> c = js_LF"

fun replace_breaks :: "jstr \<Rightarrow> jstr" where
  "replace_breaks [] = []"
| "replace_breaks [c] = (if js_break c then [js_space] else [c])"
| "replace_breaks (c # d # s) =
     (if js_break c
      then (if js_break d then replace_breaks (d # s) else js_space # replace_breaks (d # s))
      else c # replace_breaks (d # s))"

definition normalizeMarker :: "jstr \<Rightarrow> jstr" where
  "normalizeMarker marker =
     (let oneLine = js_trimEnd (replace_breaks marker)
      in if length oneLine \<le> MAX_MARKER_CHARS then oneLine
         else take (MAX_MARKER_CHARS - 1) oneLine @ [js_ellipsis])"

text \<open>\<open>capText\<close> returns the capped text and the number of characters dropped.\<close>

definition capText :: "jstr \<Rightarrow> int \<Rightarrow> jstr \<times> nat" where
  "capText s cap =
     (let t = js_trimEnd s
      in if int (length t) \<le> cap then (t, 0)
         else (take (nat cap) t, length t - nat cap))"

subsection \<open>The rendering loop\<close>

datatype tier = TierVerbatim | TierHeadline

record render_state =
  rs_verbatimLines :: "jstr list"
  rs_headlineLines :: "jstr list"
  rs_collapsed :: nat
  rs_spent :: int
  rs_tier :: tier

definition render_init :: render_state where
  "render_init = \<lparr>rs_verbatimLines = [], rs_headlineLines = [], rs_collapsed = 0, rs_spent = 0,
     rs_tier = TierVerbatim\<rparr>"

text \<open>The two lines an item can become.\<close>

definition verbatim_line :: "'a render_format \<Rightarrow> int \<Rightarrow> 'a \<Rightarrow> jstr" where
  "verbatim_line f perItemCap item =
     (let (cappedText, truncated) = capText (fmt_text f item) perItemCap
      in fmt_verbatim f item cappedText truncated)"

definition headline_line :: "'a render_format \<Rightarrow> int \<Rightarrow> 'a \<Rightarrow> jstr" where
  "headline_line f headlineCap item =
     (let body = fmt_text f item;
          firstLine = hd (js_split js_LF body);
          (cappedText, truncated) = capText firstLine headlineCap;
          hasMore = (0 < truncated \<or> length firstLine < length body)
      in fmt_headline f item cappedText hasMore)"

text \<open>The body of the \<open>for\<close> loop over \<open>items.entries()\<close>; \<open>len\<close> is \<open>items.length\<close>.
  The equation ends the loop (the source's \<open>break\<close>) where a headline does not fit.\<close>

fun render_loop ::
  "'a render_format \<Rightarrow> int \<Rightarrow> int \<Rightarrow> int \<Rightarrow> nat \<Rightarrow> nat \<Rightarrow> 'a list \<Rightarrow> render_state \<Rightarrow> render_state" where
  "render_loop f budget pic hc len index [] st = st"
| "render_loop f budget pic hc len index (item # rest) st =
     (let line = verbatim_line f pic item;
          headline = headline_line f hc item
      in if rs_tier st = TierVerbatim \<and> rs_spent st + int (length line) + 1 \<le> budget
         then render_loop f budget pic hc len (index + 1) rest
                (st\<lparr>rs_verbatimLines := rs_verbatimLines st @ [line],
                    rs_spent := rs_spent st + int (length line) + 1\<rparr>)
         else if rs_spent st + int (length headline) + 1 \<le> budget
         then render_loop f budget pic hc len (index + 1) rest
                (st\<lparr>rs_tier := TierHeadline,
                    rs_headlineLines := rs_headlineLines st @ [headline],
                    rs_spent := rs_spent st + int (length headline) + 1\<rparr>)
         else st\<lparr>rs_tier := TierHeadline, rs_collapsed := len - index\<rparr>)"

definition render_parts :: "'a render_options \<Rightarrow> render_state \<Rightarrow> jstr list" where
  "render_parts opts st =
     (if 0 < rs_collapsed st
      then [normalizeMarker (fmt_collapsed (opt_format opts) (rs_collapsed st))] else [])
     @ (if opt_preserveOrder opts then rs_verbatimLines st @ rs_headlineLines st
        else rev (rs_headlineLines st) @ rev (rs_verbatimLines st))"

definition render_run :: "'a list \<Rightarrow> 'a render_options \<Rightarrow> render_state" where
  "render_run items opts =
     render_loop (opt_format opts) (eff_budget opts) (eff_perItemCap opts) (eff_headlineCap opts)
       (length items) 0 items render_init"

definition boundedRender :: "'a list \<Rightarrow> 'a render_options \<Rightarrow> render_result" where
  "boundedRender items opts =
     (let st = render_run items opts;
          out = js_join [js_LF] (render_parts opts st)
      in \<lparr>rr_text = out, rr_total = length items,
          rr_verbatim = length (rs_verbatimLines st),
          rr_headlines = length (rs_headlineLines st),
          rr_collapsed = rs_collapsed st, rr_chars = length out\<rparr>)"

subsection \<open>Reference description: greedy prefixes\<close>

text \<open>How many leading lines fit when each costs its length plus one separator.\<close>

fun greedy_fit :: "int \<Rightarrow> jstr list \<Rightarrow> nat" where
  "greedy_fit b [] = 0"
| "greedy_fit b (l # ls) =
     (if int (length l) + 1 \<le> b then Suc (greedy_fit (b - int (length l) - 1) ls) else 0)"

definition lines_cost :: "jstr list \<Rightarrow> int" where
  "lines_cost ls = (\<Sum>l\<leftarrow>ls. int (length l) + 1)"

lemma lines_cost_simps [simp]:
  "lines_cost [] = 0"
  "lines_cost (l # ls) = int (length l) + 1 + lines_cost ls"
  "lines_cost (ls @ ms) = lines_cost ls + lines_cost ms"
  "lines_cost (rev ls) = lines_cost ls"
  by (simp_all add: lines_cost_def rev_map [symmetric] sum_list_rev)

lemma lines_cost_nonneg: "0 \<le> lines_cost ls"
  by (induction ls) auto

lemma lines_cost_ge_length: "int (length ls) \<le> lines_cost ls"
  by (induction ls) auto

lemma greedy_fit_le: "greedy_fit b ls \<le> length ls"
  by (induction b ls rule: greedy_fit.induct) auto

lemma greedy_fit_cost: "0 \<le> b \<Longrightarrow> lines_cost (take (greedy_fit b ls) ls) \<le> b"
  by (induction b ls rule: greedy_fit.induct) auto

text \<open>The greedy prefix is the longest prefix within the budget.\<close>

lemma greedy_fit_maximal:
  assumes "k \<le> length ls" and "lines_cost (take k ls) \<le> b"
  shows "k \<le> greedy_fit b ls"
  using assms
proof (induction b ls arbitrary: k rule: greedy_fit.induct)
  case (2 b l ls)
  show ?case
  proof (cases k)
    case (Suc k')
    with 2(3) have "int (length l) + 1 + lines_cost (take k' ls) \<le> b" by simp
    moreover from this lines_cost_nonneg [of "take k' ls"] have fits: "int (length l) + 1 \<le> b"
      by linarith
    ultimately have "k' \<le> greedy_fit (b - int (length l) - 1) ls"
      using 2(1) [OF fits] 2(2) Suc by simp
    with fits Suc show ?thesis by simp
  qed simp
qed simp

lemma js_join_length_cost:
  "int (length (js_join [js_LF] ls)) = (if ls = [] then 0 else lines_cost ls - 1)"
  by (induction "[js_LF]" ls rule: js_join.induct) auto

subsection \<open>The loop computes the greedy prefixes\<close>

definition render_spec :: "'a list \<Rightarrow> 'a render_options \<Rightarrow> jstr list \<times> jstr list \<times> nat" where
  "render_spec items opts =
     (let vs = map (verbatim_line (opt_format opts) (eff_perItemCap opts)) items;
          k = greedy_fit (eff_budget opts) vs;
          hs = map (headline_line (opt_format opts) (eff_headlineCap opts)) (drop k items);
          m = greedy_fit (eff_budget opts - lines_cost (take k vs)) hs
      in (take k vs, take m hs, length items - k - m))"

declare render_loop.simps(2) [simp del]

lemma render_loop_step_verbatim:
  assumes "rs_tier st = TierVerbatim"
    and "rs_spent st + int (length (verbatim_line f pic item)) + 1 \<le> budget"
  shows "render_loop f budget pic hc len index (item # rest) st =
    render_loop f budget pic hc len (index + 1) rest
      (st\<lparr>rs_verbatimLines := rs_verbatimLines st @ [verbatim_line f pic item],
          rs_spent := rs_spent st + int (length (verbatim_line f pic item)) + 1\<rparr>)"
  using assms by (simp add: render_loop.simps(2) Let_def)

lemma render_loop_step_headline:
  assumes "rs_tier st = TierHeadline"
    and "rs_spent st + int (length (headline_line f hc item)) + 1 \<le> budget"
  shows "render_loop f budget pic hc len index (item # rest) st =
    render_loop f budget pic hc len (index + 1) rest
      (st\<lparr>rs_headlineLines := rs_headlineLines st @ [headline_line f hc item],
          rs_spent := rs_spent st + int (length (headline_line f hc item)) + 1\<rparr>)"
  using assms by (cases st) (simp add: render_loop.simps(2) Let_def)

lemma render_loop_stop:
  assumes "rs_tier st = TierHeadline"
    and "\<not> rs_spent st + int (length (headline_line f hc item)) + 1 \<le> budget"
  shows "render_loop f budget pic hc len index (item # rest) st = st\<lparr>rs_collapsed := len - index\<rparr>"
  using assms by (cases st) (simp add: render_loop.simps(2) Let_def)

lemma render_loop_demote:
  assumes "rs_tier st = TierVerbatim"
    and "\<not> rs_spent st + int (length (verbatim_line f pic item)) + 1 \<le> budget"
  shows "render_loop f budget pic hc len index (item # rest) st =
    render_loop f budget pic hc len index (item # rest) (st\<lparr>rs_tier := TierHeadline\<rparr>)"
  using assms by (simp add: render_loop.simps(2) Let_def)

lemma render_loop_headline:
  assumes "rs_tier st = TierHeadline" and "index + length items = len"
  shows "render_loop f budget pic hc len index items st =
    (let hs = map (headline_line f hc) items; m = greedy_fit (budget - rs_spent st) hs
     in st\<lparr>rs_headlineLines := rs_headlineLines st @ take m hs,
           rs_spent := rs_spent st + lines_cost (take m hs),
           rs_collapsed := (if m = length items then rs_collapsed st else length items - m)\<rparr>)"
  using assms
proof (induction items arbitrary: index st)
  case (Cons item rest)
  define h where "h = headline_line f hc item"
  show ?case
  proof (cases "rs_spent st + int (length h) + 1 \<le> budget")
    case True
    let ?st = "st\<lparr>rs_headlineLines := rs_headlineLines st @ [h],
                   rs_spent := rs_spent st + int (length h) + 1\<rparr>"
    from True Cons.prems
    have "render_loop f budget pic hc len index (item # rest) st =
        render_loop f budget pic hc len (index + 1) rest ?st"
      unfolding h_def by (intro render_loop_step_headline) simp_all
    then show ?thesis
      using True Cons.prems Cons.IH [of ?st "index + 1"]
      by (simp add: Let_def h_def algebra_simps)
  next
    case False
    then have "render_loop f budget pic hc len index (item # rest) st =
        st\<lparr>rs_collapsed := len - index\<rparr>"
      using Cons.prems unfolding h_def by (intro render_loop_stop) simp_all
    with False Cons.prems show ?thesis by (simp add: h_def Let_def)
  qed
qed simp

lemma render_loop_verbatim:
  assumes "rs_tier st = TierVerbatim" and "index + length items = len"
  shows "let vs = map (verbatim_line f pic) items;
             k = greedy_fit (budget - rs_spent st) vs;
             hs = map (headline_line f hc) (drop k items);
             m = greedy_fit (budget - rs_spent st - lines_cost (take k vs)) hs;
             st' = render_loop f budget pic hc len index items st
    in rs_verbatimLines st' = rs_verbatimLines st @ take k vs
     \<and> rs_headlineLines st' = rs_headlineLines st @ take m hs
     \<and> rs_collapsed st' =
         (if k + m = length items then rs_collapsed st else length items - k - m)"
  using assms
proof (induction items arbitrary: index st)
  case (Cons item rest)
  define v where "v = verbatim_line f pic item"
  show ?case
  proof (cases "rs_spent st + int (length v) + 1 \<le> budget")
    case True
    let ?st = "st\<lparr>rs_verbatimLines := rs_verbatimLines st @ [v],
                   rs_spent := rs_spent st + int (length v) + 1\<rparr>"
    from True Cons.prems
    have "render_loop f budget pic hc len index (item # rest) st =
        render_loop f budget pic hc len (index + 1) rest ?st"
      unfolding v_def by (intro render_loop_step_verbatim) simp_all
    then show ?thesis
      using True Cons.prems Cons.IH [of ?st "index + 1"]
      by (simp add: Let_def v_def algebra_simps)
  next
    case False
    then have eq: "render_loop f budget pic hc len index (item # rest) st =
        render_loop f budget pic hc len index (item # rest) (st\<lparr>rs_tier := TierHeadline\<rparr>)"
      using Cons.prems unfolding v_def by (intro render_loop_demote) simp_all
    have "greedy_fit (budget - rs_spent st) (map (verbatim_line f pic) (item # rest)) = 0"
      using False by (simp add: v_def)
    moreover note render_loop_headline [of "st\<lparr>rs_tier := TierHeadline\<rparr>" index "item # rest" len
        f budget pic hc, simplified Let_def]
    ultimately show ?thesis
      using Cons.prems unfolding Let_def eq by (simp del: list.map greedy_fit.simps)
  qed
qed simp

lemma render_run_spec:
  "(rs_verbatimLines (render_run items opts), rs_headlineLines (render_run items opts),
    rs_collapsed (render_run items opts)) = render_spec items opts"
  using render_loop_verbatim [of render_init 0 items "length items" "opt_format opts"
      "eff_perItemCap opts" "eff_budget opts" "eff_headlineCap opts"]
  by (auto simp: render_run_def render_spec_def render_init_def Let_def)

lemma render_spec_counts:
  assumes "render_spec items opts = (vs, hs, c)"
  shows "length vs + length hs + c = length items"
proof -
  define ws where "ws = map (verbatim_line (opt_format opts) (eff_perItemCap opts)) items"
  define k where "k = greedy_fit (eff_budget opts) ws"
  define gs where "gs = map (headline_line (opt_format opts) (eff_headlineCap opts)) (drop k items)"
  define m where "m = greedy_fit (eff_budget opts - lines_cost (take k ws)) gs"
  have "k \<le> length items"
    using greedy_fit_le [of "eff_budget opts" ws] by (simp add: k_def ws_def)
  moreover have "m \<le> length items - k"
    using greedy_fit_le [of "eff_budget opts - lines_cost (take k ws)" gs] by (simp add: m_def gs_def)
  moreover have "vs = take k ws" "hs = take m gs" "c = length items - k - m"
    using assms by (auto simp: render_spec_def Let_def ws_def k_def gs_def m_def)
  ultimately show ?thesis by (simp add: ws_def gs_def)
qed

lemma eff_budget_ge: "200 \<le> eff_budget opts"
  by (simp add: eff_budget_def resolve_cap_def render_constants)

lemma render_spec_cost:
  assumes "render_spec items opts = (vs, hs, c)"
  shows "lines_cost vs + lines_cost hs \<le> eff_budget opts"
proof -
  define ws where "ws = map (verbatim_line (opt_format opts) (eff_perItemCap opts)) items"
  define k where "k = greedy_fit (eff_budget opts) ws"
  define gs where "gs = map (headline_line (opt_format opts) (eff_headlineCap opts)) (drop k items)"
  define m where "m = greedy_fit (eff_budget opts - lines_cost (take k ws)) gs"
  have a: "lines_cost (take k ws) \<le> eff_budget opts"
    unfolding k_def using eff_budget_ge [of opts] by (intro greedy_fit_cost) simp
  then have "lines_cost (take m gs) \<le> eff_budget opts - lines_cost (take k ws)"
    unfolding m_def by (intro greedy_fit_cost) simp
  moreover have "vs = take k ws" "hs = take m gs"
    using assms by (auto simp: render_spec_def Let_def ws_def k_def gs_def m_def)
  ultimately show ?thesis by simp
qed

subsection \<open>The marker is one bounded line\<close>

lemma replace_breaks_no_break: "c \<in> set (replace_breaks s) \<Longrightarrow> \<not> js_break c"
  by (induction s rule: replace_breaks.induct) (auto simp: js_break_def split: if_splits)

lemma length_normalizeMarker: "length (normalizeMarker s) \<le> 200"
  by (auto simp: normalizeMarker_def Let_def render_constants)

lemma normalizeMarker_no_break: "c \<in> set (normalizeMarker s) \<Longrightarrow> \<not> js_break c"
  using set_js_trimEnd [of "replace_breaks s"] replace_breaks_no_break
  by (auto simp: normalizeMarker_def Let_def js_break_def split: if_splits dest!: in_set_takeD)

lemma render_parts_length:
  assumes "render_spec items opts = (vs, hs, c)" and "st = render_run items opts"
  shows "int (length (js_join [js_LF] (render_parts opts st)))
    \<le> (if c = 0 then eff_budget opts else eff_budget opts + 200)"
proof -
  have st: "rs_verbatimLines st = vs" "rs_headlineLines st = hs" "rs_collapsed st = c"
    using render_run_spec [of items opts] assms by auto
  have cost: "lines_cost (render_parts opts st) =
      lines_cost vs + lines_cost hs +
      (if c = 0 then 0 else int (length (normalizeMarker (fmt_collapsed (opt_format opts) c))) + 1)"
    by (simp add: render_parts_def st)
  have "lines_cost vs + lines_cost hs \<le> eff_budget opts"
    using assms(1) by (rule render_spec_cost)
  then show ?thesis
    using cost length_normalizeMarker [of "fmt_collapsed (opt_format opts) c"] eff_budget_ge [of opts]
    by (auto simp: js_join_length_cost)
qed

lemma boundedRender_size:
  "rr_chars (boundedRender items opts) = length (rr_text (boundedRender items opts)) \<and>
   int (rr_chars (boundedRender items opts)) \<le>
     (if rr_collapsed (boundedRender items opts) = 0 then eff_budget opts
      else eff_budget opts + int MAX_MARKER_CHARS)"
proof -
  obtain vs hs c where spec: "render_spec items opts = (vs, hs, c)" by (metis prod_cases3)
  have "rs_collapsed (render_run items opts) = c"
    using render_run_spec [of items opts] spec by simp
  with render_parts_length [OF spec refl] show ?thesis
    by (simp add: boundedRender_def Let_def MAX_MARKER_CHARS_def split: if_splits)
qed

lemma boundedRender_counts:
  "rr_verbatim (boundedRender items opts) + rr_headlines (boundedRender items opts)
     + rr_collapsed (boundedRender items opts) = length items
   \<and> rr_total (boundedRender items opts) = length items"
proof -
  obtain vs hs c where spec: "render_spec items opts = (vs, hs, c)" by (metis prod_cases3)
  from render_spec_counts [OF spec] render_run_spec [of items opts] show ?thesis
    unfolding spec by (simp add: boundedRender_def Let_def)
qed

subsection \<open>Properties\<close>

lemma greedy_fit_stop:
  "greedy_fit b ls = length ls \<or> b < lines_cost (take (Suc (greedy_fit b ls)) ls)"
  by (induction b ls rule: greedy_fit.induct) auto

text \<open>C18: the size bound.  For every list of items, every option and every choice of the four
  formatters, the rendered text has at most \<open>budget\<close> characters (the effective budget, floored
  at 200), plus at most 200 for the one marker line when something was collapsed; \<open>chars\<close> is the
  length of the text.\<close>

theorem boundedRender_bound:
  "rr_chars (boundedRender items opts) = length (rr_text (boundedRender items opts)) \<and>
   int (rr_chars (boundedRender items opts)) \<le>
     (if rr_collapsed (boundedRender items opts) = 0 then eff_budget opts
      else eff_budget opts + int MAX_MARKER_CHARS)"
  by (rule boundedRender_size)

text \<open>the budget is spent in priority order.  There are numbers \<open>k\<close> and \<open>m\<close> such that the
  first \<open>k\<close> items appear verbatim, the next \<open>m\<close> as headlines, the rest is counted by the
  marker; \<open>k\<close> is the longest prefix whose verbatim lines fit the budget and \<open>m\<close> the longest
  continuation whose headlines fit what is left; the text is exactly those lines (reversed unless
  the order is to be kept) below the marker.\<close>

theorem boundedRender_priority:
  "let R = boundedRender items opts;
       v = verbatim_line (opt_format opts) (eff_perItemCap opts);
       h = headline_line (opt_format opts) (eff_headlineCap opts);
       k = rr_verbatim R; m = rr_headlines R; rest = length items - (k + m);
       vs = map v (take k items); hs = map h (take m (drop k items));
       left = eff_budget opts - lines_cost vs
   in k + m + rr_collapsed R = length items \<and> rr_total R = length items \<and>
      lines_cost vs \<le> eff_budget opts \<and>
      (k = length items \<or> eff_budget opts < lines_cost (map v (take (Suc k) items))) \<and>
      lines_cost hs \<le> left \<and>
      (k + m = length items \<or> left < lines_cost (map h (take (Suc m) (drop k items)))) \<and>
      rr_text R = js_join [js_LF]
        ((if rest = 0 then [] else [normalizeMarker (fmt_collapsed (opt_format opts) rest)])
         @ (if opt_preserveOrder opts then vs @ hs else rev (vs @ hs)))"
proof -
  define v where "v = verbatim_line (opt_format opts) (eff_perItemCap opts)"
  define h where "h = headline_line (opt_format opts) (eff_headlineCap opts)"
  define k where "k = greedy_fit (eff_budget opts) (map v items)"
  define left where "left = eff_budget opts - lines_cost (map v (take k items))"
  define m where "m = greedy_fit left (map h (drop k items))"
  have spec: "render_spec items opts =
      (map v (take k items), map h (take m (drop k items)), length items - k - m)"
    by (simp add: render_spec_def Let_def v_def h_def k_def left_def m_def take_map)
  have k: "k \<le> length items" and m: "m \<le> length items - k"
    using greedy_fit_le [of "eff_budget opts" "map v items"] greedy_fit_le [of left "map h (drop k items)"]
    by (simp_all add: k_def m_def)
  have run: "rs_verbatimLines (render_run items opts) = map v (take k items)"
    "rs_headlineLines (render_run items opts) = map h (take m (drop k items))"
    "rs_collapsed (render_run items opts) = length items - k - m"
    using render_run_spec [of items opts] unfolding spec by simp_all
  have fit: "lines_cost (map v (take k items)) \<le> eff_budget opts"
    using greedy_fit_cost [of "eff_budget opts" "map v items"] eff_budget_ge [of opts]
    by (simp add: k_def take_map)
  have "lines_cost (map h (take m (drop k items))) \<le> left"
    using greedy_fit_cost [of left "map h (drop k items)"] fit by (simp add: m_def left_def take_map)
  moreover have "k = length items \<or> eff_budget opts < lines_cost (map v (take (Suc k) items))"
    using greedy_fit_stop [of "eff_budget opts" "map v items"] by (simp add: k_def take_map)
  moreover have "k + m = length items \<or> left < lines_cost (map h (take (Suc m) (drop k items)))"
    using greedy_fit_stop [of left "map h (drop k items)"] k by (auto simp: m_def take_map)
  ultimately show ?thesis
    using k m fit
    by (simp add: boundedRender_def run Let_def render_parts_def v_def [symmetric] h_def [symmetric]
        left_def min_absorb2)
qed

end
