(* ===== verification/Room_Store.thy ===== *)
theory Room_Store
  imports JS_Core
begin

text \<open>
  The in-memory room store of the roundtable broker
  (\<open>packages/roundtable/broker/room-store.ts\<close>, data types of \<open>packages/roundtable/types.ts\<close>):
  rooms keyed by name, members keyed by session, a ring buffer of messages with consecutive
  sequence numbers, and read cursors keyed by member name.

  Each method of \<open>RoomStore\<close> is one function that takes the store and returns the new one;
  \<open>Date.now()\<close> and \<open>randomUUID()\<close> are arguments.  A thrown error is an \<open>Inl\<close>.
\<close>

subsection \<open>Data\<close>

record room_from =
  from_sessionId :: jstr
  from_name :: jstr

record room_message =
  rm_id :: jstr
  rm_seq :: int
  rm_timestamp :: int
  rm_room :: jstr
  rm_from :: room_from
  rm_text :: jstr
  rm_replyTo :: "jstr option"

record room_member =
  mem_sessionId :: jstr
  mem_name :: jstr
  mem_joinedAt :: int

record room_info =
  ri_name :: jstr
  ri_topic :: "jstr option"
  ri_members :: "room_member list"
  ri_messageCount :: nat
  ri_lastSeq :: int
  ri_lastActivity :: int
  ri_unread :: "int option"

record room_state =
  st_name :: jstr
  st_topic :: "jstr option"
  st_members :: "(jstr, room_member) jmap"
  st_messages :: "room_message list"
  st_nextSeq :: int
  st_lastActivity :: int
  st_cursors :: "(jstr, int) jmap"

record room_store =
  rs_rooms :: "(jstr, room_state) jmap"
  rs_capacity :: nat

datatype store_error =
    RoomMissingJoinFirst jstr
  | RoomMissing jstr
  | NotAMember jstr

definition store_error_message :: "store_error \<Rightarrow> jstr" where
  "store_error_message e =
     (case e of
        RoomMissingJoinFirst room \<Rightarrow>
          js ''Room \"'' @ room @ js ''\" does not exist; join it first''
      | RoomMissing room \<Rightarrow> js ''Room \"'' @ room @ js ''\" does not exist''
      | NotAMember room \<Rightarrow> js ''Not a member of room \"'' @ room @ js ''\"; join it first'')"

definition DEFAULT_ROOM_CAPACITY :: nat where "DEFAULT_ROOM_CAPACITY = 500"

definition store_init :: "nat option \<Rightarrow> room_store" where
  "store_init capacity =
     \<lparr>rs_rooms = [],
      rs_capacity = (case capacity of None \<Rightarrow> DEFAULT_ROOM_CAPACITY | Some c \<Rightarrow> c)\<rparr>"

subsection \<open>Operations\<close>

definition roomInfo :: "room_state \<Rightarrow> jstr option \<Rightarrow> room_info" where
  "roomInfo st viewer =
     (let lastSeq = st_nextSeq st - 1
      in \<lparr>ri_name = st_name st, ri_topic = st_topic st, ri_members = jm_values (st_members st),
          ri_messageCount = length (st_messages st), ri_lastSeq = lastSeq,
          ri_lastActivity = st_lastActivity st,
          ri_unread = (case viewer of None \<Rightarrow> None
                       | Some v \<Rightarrow> Some (max 0 (lastSeq - jm_get_or 0 (st_cursors st) v)))\<rparr>)"

definition listRooms :: "room_store \<Rightarrow> jstr option \<Rightarrow> room_info list" where
  "listRooms s viewer = map (\<lambda>st. roomInfo st viewer) (jm_values (rs_rooms s))"

definition getRoom :: "room_store \<Rightarrow> jstr \<Rightarrow> room_info option" where
  "getRoom s room = map_option (\<lambda>st. roomInfo st None) (jm_get (rs_rooms s) room)"

definition memberSessionIds :: "room_store \<Rightarrow> jstr \<Rightarrow> jstr list" where
  "memberSessionIds s room =
     (case jm_get (rs_rooms s) room of None \<Rightarrow> [] | Some st \<Rightarrow> jm_keys (st_members st))"

definition put_room :: "jstr \<Rightarrow> room_state \<Rightarrow> room_store \<Rightarrow> room_store" where
  "put_room room st s = s\<lparr>rs_rooms := jm_set room st (rs_rooms s)\<rparr>"

text \<open>The room a \<open>join\<close> works on: a fresh one, or the present one with a topic filled in.\<close>

definition room_for_join :: "room_store \<Rightarrow> jstr \<Rightarrow> jstr option \<Rightarrow> int \<Rightarrow> room_state" where
  "room_for_join s room topic now =
     (case jm_get (rs_rooms s) room of
        None \<Rightarrow> \<lparr>st_name = room, st_topic = topic, st_members = [], st_messages = [],
                 st_nextSeq = 1, st_lastActivity = now, st_cursors = []\<rparr>
      | Some st \<Rightarrow> (if topic \<noteq> None \<and> st_topic st = None then st\<lparr>st_topic := topic\<rparr> else st))"

definition join ::
  "room_store \<Rightarrow> jstr \<Rightarrow> room_from \<Rightarrow> jstr option \<Rightarrow> int \<Rightarrow> room_store \<times> room_info \<times> int" where
  "join s room member topic now =
     (let st = room_for_join s room topic now;
          sid = from_sessionId member;
          st' = (if jm_get (st_members st) sid = None
                 then st\<lparr>st_members := jm_set sid
                        \<lparr>mem_sessionId = sid, mem_name = from_name member, mem_joinedAt = now\<rparr>
                        (st_members st)\<rparr>
                 else st);
          cursor = jm_get_or 0 (st_cursors st') (from_name member)
      in (put_room room st' s, roomInfo st' None, cursor))"

definition leave :: "room_store \<Rightarrow> jstr \<Rightarrow> jstr \<Rightarrow> room_store \<times> bool" where
  "leave s room sessionId =
     (case jm_get (rs_rooms s) room of
        None \<Rightarrow> (s, False)
      | Some st \<Rightarrow>
          (let removed = (jm_get (st_members st) sessionId \<noteq> None);
               st' = st\<lparr>st_members := jm_delete sessionId (st_members st)\<rparr>;
               s' = (if st_members st' = [] \<and> st_messages st' = []
                     then s\<lparr>rs_rooms := jm_delete room (rs_rooms s)\<rparr>
                     else put_room room st' s)
           in (s', removed)))"

text \<open>\<open>evictSession\<close> deletes the session from every room; it reports the rooms it was in.\<close>

definition evict_room :: "jstr \<Rightarrow> room_state \<Rightarrow> room_state" where
  "evict_room sessionId st = st\<lparr>st_members := jm_delete sessionId (st_members st)\<rparr>"

definition evictSession :: "room_store \<Rightarrow> jstr \<Rightarrow> room_store \<times> jstr list" where
  "evictSession s sessionId =
     (s\<lparr>rs_rooms := map (\<lambda>(name, st). (name, evict_room sessionId st)) (rs_rooms s)\<rparr>,
      map fst (filter (\<lambda>(name, st). jm_get (st_members st) sessionId \<noteq> None) (rs_rooms s)))"

text \<open>The state change of a successful \<open>post\<close>: append, drop what exceeds the capacity,
  stamp the activity, and mark the author's own message as read.\<close>

definition post_room :: "nat \<Rightarrow> room_message \<Rightarrow> room_state \<Rightarrow> room_state" where
  "post_room capacity m st =
     (let msgs = st_messages st @ [m];
          kept = (if length msgs > capacity then drop (length msgs - capacity) msgs else msgs);
          author = from_name (rm_from m);
          authorCursor = jm_get_or 0 (st_cursors st) author
      in st\<lparr>st_messages := kept, st_nextSeq := st_nextSeq st + 1,
            st_lastActivity := rm_timestamp m,
            st_cursors := (if rm_seq m > authorCursor then jm_set author (rm_seq m) (st_cursors st)
                           else st_cursors st)\<rparr>)"

definition post ::
  "room_store \<Rightarrow> jstr \<Rightarrow> room_from \<Rightarrow> jstr \<Rightarrow> jstr option \<Rightarrow> jstr \<Rightarrow> int
     \<Rightarrow> store_error + (room_store \<times> room_message)" where
  "post s room author body replyTo uuid now =
     (case jm_get (rs_rooms s) room of
        None \<Rightarrow> Inl (RoomMissingJoinFirst room)
      | Some st \<Rightarrow>
          (if jm_get (st_members st) (from_sessionId author) = None then Inl (NotAMember room)
           else (let m = \<lparr>rm_id = uuid, rm_seq = st_nextSeq st, rm_timestamp = now, rm_room = room,
                          rm_from = author, rm_text = body, rm_replyTo = replyTo\<rparr>
                 in Inr (put_room room (post_room (rs_capacity s) m st) s, m))))"

definition fetch ::
  "room_store \<Rightarrow> jstr \<Rightarrow> int \<Rightarrow> int option \<Rightarrow> store_error + (room_message list \<times> int)" where
  "fetch s room afterSeq limit =
     (case jm_get (rs_rooms s) room of
        None \<Rightarrow> Inl (RoomMissing room)
      | Some st \<Rightarrow>
          Inr (take (nat (max 1 (case limit of None \<Rightarrow> 200 | Some l \<Rightarrow> l)))
                 (filter (\<lambda>m. rm_seq m > afterSeq) (st_messages st)),
               st_nextSeq st - 1))"

definition getCursor :: "room_store \<Rightarrow> jstr \<Rightarrow> jstr \<Rightarrow> int" where
  "getCursor s room memberName =
     (case jm_get (rs_rooms s) room of None \<Rightarrow> 0 | Some st \<Rightarrow> jm_get_or 0 (st_cursors st) memberName)"

definition setCursor ::
  "room_store \<Rightarrow> jstr \<Rightarrow> jstr \<Rightarrow> int \<Rightarrow> store_error + (room_store \<times> int)" where
  "setCursor s room memberName seq =
     (case jm_get (rs_rooms s) room of
        None \<Rightarrow> Inl (RoomMissing room)
      | Some st \<Rightarrow>
          (let current = jm_get_or 0 (st_cursors st) memberName;
               next = max current (min seq (st_nextSeq st - 1))
           in Inr (put_room room (st\<lparr>st_cursors := jm_set memberName next (st_cursors st)\<rparr>) s, next)))"

lemmas store_defs = join_def leave_def evictSession_def post_def fetch_def getCursor_def
  setCursor_def room_for_join_def put_room_def

subsection \<open>Consecutive sequence numbers\<close>

fun consecutive :: "int \<Rightarrow> room_message list \<Rightarrow> bool" where
  "consecutive lo [] = True"
| "consecutive lo (m # ms) = (rm_seq m = lo \<and> consecutive (lo + 1) ms)"

lemma consecutive_append:
  "consecutive lo (xs @ ys) \<longleftrightarrow> consecutive lo xs \<and> consecutive (lo + int (length xs)) ys"
  by (induction xs arbitrary: lo) (auto simp: algebra_simps)

lemma consecutive_drop:
  "consecutive lo xs \<Longrightarrow> n \<le> length xs \<Longrightarrow> consecutive (lo + int n) (drop n xs)"
  by (metis append_take_drop_id consecutive_append length_take min.absorb2)

lemma consecutive_take: "consecutive lo xs \<Longrightarrow> consecutive lo (take n xs)"
  by (metis append_take_drop_id consecutive_append)

lemma consecutive_bounds:
  "consecutive lo xs \<Longrightarrow> m \<in> set xs \<Longrightarrow> lo \<le> rm_seq m \<and> rm_seq m < lo + int (length xs)"
  by (induction xs arbitrary: lo) force+

lemma consecutive_nth: "consecutive lo xs \<Longrightarrow> i < length xs \<Longrightarrow> rm_seq (xs ! i) = lo + int i"
  by (induction xs arbitrary: lo i) (auto simp: nth_Cons split: nat.splits)

lemma consecutive_filter:
  "consecutive lo xs \<Longrightarrow> filter (\<lambda>m. rm_seq m > a) xs = drop (nat (a + 1 - lo)) xs"
proof (induction xs arbitrary: lo)
  case (Cons m ms)
  then have IH: "filter (\<lambda>m. rm_seq m > a) ms = drop (nat (a - lo)) ms"
    and m: "rm_seq m = lo" by (auto simp: algebra_simps)
  show ?case
  proof (cases "a < lo")
    case True
    with IH m show ?thesis by simp
  next
    case False
    then have "nat (a + 1 - lo) = Suc (nat (a - lo))" by simp
    with False IH m show ?thesis by simp
  qed
qed simp

lemma consecutive_distinct: "consecutive lo xs \<Longrightarrow> distinct (map rm_seq xs)"
proof (induction xs arbitrary: lo)
  case (Cons m ms)
  then show ?case using consecutive_bounds [of "lo + 1" ms] by fastforce
qed simp

lemma consecutive_sorted: "consecutive lo xs \<Longrightarrow> sorted_wrt (<) (map rm_seq xs)"
proof (induction xs arbitrary: lo)
  case (Cons m ms)
  then show ?case using consecutive_bounds [of "lo + 1" ms] by fastforce
qed simp

subsection \<open>The store invariant\<close>

definition room_inv :: "nat \<Rightarrow> jstr \<Rightarrow> room_state \<Rightarrow> bool" where
  "room_inv capacity name st \<longleftrightarrow>
     st_name st = name \<and>
     1 \<le> st_nextSeq st \<and>
     jm_wf (st_members st) \<and>
     (\<forall>(sid, m) \<in> set (st_members st). mem_sessionId m = sid) \<and>
     int (length (st_messages st)) = min (int capacity) (st_nextSeq st - 1) \<and>
     consecutive (st_nextSeq st - int (length (st_messages st))) (st_messages st) \<and>
     (\<forall>m \<in> set (st_messages st). rm_room m = name) \<and>
     jm_wf (st_cursors st) \<and>
     (\<forall>(n, c) \<in> set (st_cursors st). 0 \<le> c \<and> c \<le> st_nextSeq st - 1)"

definition store_inv :: "room_store \<Rightarrow> bool" where
  "store_inv s \<longleftrightarrow> jm_wf (rs_rooms s) \<and>
     (\<forall>(name, st) \<in> set (rs_rooms s). room_inv (rs_capacity s) name st)"

lemma store_inv_room: "store_inv s \<Longrightarrow> jm_get (rs_rooms s) room = Some st \<Longrightarrow> room_inv (rs_capacity s) room st"
  by (auto simp: store_inv_def dest: map_of_SomeD)

lemma store_inv_put_room:
  "store_inv s \<Longrightarrow> room_inv (rs_capacity s) room st \<Longrightarrow> store_inv (put_room room st s)"
  by (auto simp: store_inv_def put_room_def jm_in_set split: if_splits)

lemma get_put_room [simp]:
  "jm_get (rs_rooms (put_room room st s)) r = (if r = room then Some st else jm_get (rs_rooms s) r)"
  by (simp add: put_room_def)

lemma capacity_put_room [simp]: "rs_capacity (put_room room st s) = rs_capacity s"
  by (simp add: put_room_def)

lemma jm_get_or_bounds:
  assumes "\<forall>(n, c) \<in> set cs. 0 \<le> c \<and> c \<le> (hi :: int)" and "0 \<le> hi"
  shows "0 \<le> jm_get_or 0 cs n \<and> jm_get_or 0 cs n \<le> hi"
  using assms by (cases "jm_get cs n") (auto dest: map_of_SomeD)

lemma room_inv_cursor:
  "room_inv capacity name st \<Longrightarrow>
     0 \<le> jm_get_or 0 (st_cursors st) n \<and> jm_get_or 0 (st_cursors st) n \<le> st_nextSeq st - 1"
  unfolding room_inv_def by (intro jm_get_or_bounds) auto

lemma room_inv_consecutive:
  "room_inv c n st \<Longrightarrow> consecutive (st_nextSeq st - int (length (st_messages st))) (st_messages st)"
  unfolding room_inv_def by blast

lemma room_inv_members:
  "room_inv c n st \<Longrightarrow> jm_wf ms \<Longrightarrow> \<forall>(sid, m) \<in> set ms. mem_sessionId m = sid
     \<Longrightarrow> room_inv c n (st\<lparr>st_members := ms\<rparr>)"
  unfolding room_inv_def by (elim conjE, intro conjI) (simp only: room_state.simps | simp)+

lemma store_inv_init: "store_inv (store_init c)"
  by (simp add: store_inv_def store_init_def)

lemma room_for_join_inv: "store_inv s \<Longrightarrow> room_inv (rs_capacity s) room (room_for_join s room topic now)"
  using store_inv_room [of s room]
  by (auto simp: room_for_join_def room_inv_def split: option.splits)

lemma room_inv_add_member:
  "room_inv c n st \<Longrightarrow> mem_sessionId m = sid \<Longrightarrow>
     room_inv c n (st\<lparr>st_members := jm_set sid m (st_members st)\<rparr>)"
  by (rule room_inv_members) (auto simp: room_inv_def jm_in_set split: if_splits)

lemma join_inv: "store_inv s \<Longrightarrow> store_inv (fst (join s room member topic now))"
  using room_for_join_inv [of s room topic now]
  by (auto simp: join_def Let_def intro!: store_inv_put_room room_inv_add_member)

lemma leave_inv: "store_inv s \<Longrightarrow> store_inv (fst (leave s room sid))"
proof (cases "jm_get (rs_rooms s) room")
  case (Some st)
  assume inv: "store_inv s"
  have "store_inv (s\<lparr>rs_rooms := jm_delete room (rs_rooms s)\<rparr>)"
    using inv by (auto simp: store_inv_def jm_in_delete)
  moreover have "room_inv (rs_capacity s) room (st\<lparr>st_members := jm_delete sid (st_members st)\<rparr>)"
    using store_inv_room [OF inv Some] by (auto simp: room_inv_def jm_in_delete)
  ultimately show ?thesis
    using inv Some by (simp add: leave_def Let_def store_inv_put_room)
qed (simp add: leave_def)

lemma evict_room_inv: "room_inv c n st \<Longrightarrow> room_inv c n (evict_room sid st)"
  by (auto simp: room_inv_def evict_room_def jm_in_delete)

lemma evictSession_inv: "store_inv s \<Longrightarrow> store_inv (fst (evictSession s sid))"
  by (auto simp: store_inv_def evictSession_def comp_def case_prod_unfold
      dest: bspec intro!: evict_room_inv)

lemma post_room_messages:
  assumes "room_inv capacity name st" and "rm_seq m = st_nextSeq st"
  defines "st' \<equiv> post_room capacity m st"
  shows "st_messages st' = drop (length (st_messages st) + 1 - capacity) (st_messages st @ [m])"
    and "int (length (st_messages st')) = min (int capacity) (st_nextSeq st' - 1)"
    and "consecutive (st_nextSeq st' - int (length (st_messages st'))) (st_messages st')"
proof -
  let ?msgs = "st_messages st @ [m]" and ?n = "length (st_messages st) + 1 - capacity"
  show msgs: "st_messages st' = drop ?n ?msgs"
    by (simp add: st'_def post_room_def Let_def)
  have seq: "st_nextSeq st' = st_nextSeq st + 1"
    by (simp add: st'_def post_room_def Let_def)
  have len: "int (length (st_messages st)) = min (int capacity) (st_nextSeq st - 1)"
    and con: "consecutive (st_nextSeq st - int (length (st_messages st))) (st_messages st)"
    using assms(1) by (auto simp: room_inv_def)
  show "int (length (st_messages st')) = min (int capacity) (st_nextSeq st' - 1)"
    unfolding msgs seq using len by auto
  have "consecutive (st_nextSeq st - int (length (st_messages st))) ?msgs"
    using con assms(2) by (simp add: consecutive_append)
  then have "consecutive (st_nextSeq st - int (length (st_messages st)) + int ?n) (drop ?n ?msgs)"
    by (rule consecutive_drop) simp
  moreover have "st_nextSeq st - int (length (st_messages st)) + int ?n
      = st_nextSeq st' - int (length (st_messages st'))"
    unfolding msgs seq by auto
  ultimately show "consecutive (st_nextSeq st' - int (length (st_messages st'))) (st_messages st')"
    by (simp add: msgs)
qed

lemma post_room_inv:
  assumes "room_inv capacity name st" and "rm_seq m = st_nextSeq st" and "rm_room m = name"
  shows "room_inv capacity name (post_room capacity m st)"
proof -
  have room: "\<forall>k \<in> set (st_messages (post_room capacity m st)). rm_room k = name"
    using assms post_room_messages(1) [OF assms(1,2)]
    by (auto simp: room_inv_def dest!: in_set_dropD)
  have cursors: "jm_wf (st_cursors (post_room capacity m st))"
    "\<forall>(n, c) \<in> set (st_cursors (post_room capacity m st)). 0 \<le> c \<and> c \<le> st_nextSeq st"
    using assms(1,2)
    by (auto simp: post_room_def Let_def room_inv_def jm_in_set split: if_splits
        intro: less_imp_le dest: bspec)
  have rest: "st_name (post_room capacity m st) = st_name st"
    "st_members (post_room capacity m st) = st_members st"
    "st_nextSeq (post_room capacity m st) = st_nextSeq st + 1"
    by (simp_all add: post_room_def Let_def)
  show ?thesis
    using assms(1) room cursors post_room_messages(2,3) [OF assms(1,2)]
    unfolding room_inv_def rest by auto
qed

lemma post_inv: "store_inv s \<Longrightarrow> post s room author body replyTo uuid now = Inr (s', m) \<Longrightarrow> store_inv s'"
  by (auto simp: post_def Let_def split: option.splits if_splits
      intro!: store_inv_put_room post_room_inv dest: store_inv_room)

lemma setCursor_inv:
  "store_inv s \<Longrightarrow> setCursor s room memberName seq = Inr (s', n) \<Longrightarrow> store_inv s'"
  using room_inv_cursor [OF store_inv_room, of s room _ memberName]
  by (auto simp: setCursor_def Let_def split: option.splits intro!: store_inv_put_room)
    (auto simp: room_inv_def jm_in_set dest!: store_inv_room split: if_splits)

subsection \<open>Runs of the store\<close>

text \<open>The six operations that change the store, as data, and their effect; a thrown error leaves
  the store as it was.\<close>

datatype store_op =
    OpJoin jstr room_from "jstr option" int
  | OpLeave jstr jstr
  | OpEvict jstr
  | OpPost jstr room_from jstr "jstr option" jstr int
  | OpSetCursor jstr jstr int

fun store_apply :: "room_store \<Rightarrow> store_op \<Rightarrow> room_store" where
  "store_apply s (OpJoin room member topic now) = fst (join s room member topic now)"
| "store_apply s (OpLeave room sid) = fst (leave s room sid)"
| "store_apply s (OpEvict sid) = fst (evictSession s sid)"
| "store_apply s (OpPost room author body replyTo uuid now) =
     (case post s room author body replyTo uuid now of Inl e \<Rightarrow> s | Inr (s', m) \<Rightarrow> s')"
| "store_apply s (OpSetCursor room name seq) =
     (case setCursor s room name seq of Inl e \<Rightarrow> s | Inr (s', n) \<Rightarrow> s')"

definition store_run :: "room_store \<Rightarrow> store_op list \<Rightarrow> room_store" where
  "store_run s ops = foldl store_apply s ops"

lemma store_apply_inv: "store_inv s \<Longrightarrow> store_inv (store_apply s opn)"
  by (cases opn)
    (auto simp: join_inv leave_inv evictSession_inv split: sum.splits dest: post_inv setCursor_inv)

lemma store_run_inv_gen: "store_inv s \<Longrightarrow> store_inv (store_run s ops)"
  by (induction ops arbitrary: s) (simp_all add: store_run_def store_apply_inv)

subsection \<open>Reading: fetch and cursors\<close>

lemma fetch_drop:
  assumes "store_inv s" and "jm_get (rs_rooms s) room = Some st"
  shows "fetch s room a limit =
    Inr (take (nat (max 1 (case limit of None \<Rightarrow> 200 | Some l \<Rightarrow> l)))
           (drop (nat (a + 1 - (st_nextSeq st - int (length (st_messages st))))) (st_messages st)),
         st_nextSeq st - 1)"
proof -
  have "consecutive (st_nextSeq st - int (length (st_messages st))) (st_messages st)"
    using store_inv_room [OF assms] by (rule room_inv_consecutive)
  from consecutive_filter [OF this, of a] show ?thesis
    by (simp add: fetch_def assms(2))
qed

text \<open>The client's reading loop: fetch pages of \<open>limit\<close> messages, each after the last one of
  the page before, until a page comes back empty.\<close>

fun fetch_pages :: "nat \<Rightarrow> room_store \<Rightarrow> jstr \<Rightarrow> int \<Rightarrow> int \<Rightarrow> room_message list" where
  "fetch_pages 0 s room a limit = []"
| "fetch_pages (Suc n) s room a limit =
     (case fetch s room a (Some limit) of
        Inl e \<Rightarrow> []
      | Inr (page, lastSeq) \<Rightarrow>
          (if page = [] then [] else page @ fetch_pages n s room (rm_seq (last page)) limit))"

lemma consecutive_last: "consecutive lo xs \<Longrightarrow> xs \<noteq> [] \<Longrightarrow> rm_seq (last xs) = lo + int (length xs) - 1"
  by (simp add: last_conv_nth consecutive_nth of_nat_diff Suc_leI)

lemma fetch_pages_complete_aux:
  assumes inv: "store_inv s" and st: "jm_get (rs_rooms s) room = Some st"
  shows "length (filter (\<lambda>m. rm_seq m > a) (st_messages st)) \<le> n \<Longrightarrow>
    fetch_pages n s room a limit = filter (\<lambda>m. rm_seq m > a) (st_messages st)"
proof (induction n arbitrary: a)
  case (Suc n)
  let ?ms = "st_messages st"
  let ?lo = "st_nextSeq st - int (length ?ms)"
  define k where "k = nat (a + 1 - ?lo)"
  define l where "l = nat (max 1 limit)"
  have con: "consecutive ?lo ?ms"
    using store_inv_room [OF inv st] by (rule room_inv_consecutive)
  have un: "filter (\<lambda>m. rm_seq m > b) ?ms = drop (nat (b + 1 - ?lo)) ?ms" for b
    using con by (rule consecutive_filter)
  let ?page = "take l (drop k ?ms)"
  have page: "fetch s room a (Some limit) = Inr (?page, st_nextSeq st - 1)"
    by (simp add: fetch_drop [OF inv st] k_def l_def)
  have l: "1 \<le> l" by (simp add: l_def)
  show ?case
  proof (cases "drop k ?ms = []")
    case True
    then show ?thesis by (simp add: page un [of a] k_def [symmetric])
  next
    case False
    then have kl: "k < length ?ms" by simp
    have "consecutive (?lo + int k) ?page"
      using con kl by (intro consecutive_take consecutive_drop) simp_all
    moreover have ne: "?page \<noteq> []" using False l by simp
    ultimately have "rm_seq (last ?page) = ?lo + int k + int (length ?page) - 1"
      by (rule consecutive_last)
    then have seq: "nat (rm_seq (last ?page) + 1 - ?lo) = k + length ?page" by simp
    have rest: "drop (k + length ?page) ?ms = drop l (drop k ?ms)"
      using kl by (auto simp: min_def add.commute)
    have "length (filter (\<lambda>m. rm_seq m > rm_seq (last ?page)) ?ms) \<le> n"
      using Suc.prems l kl unfolding un seq rest k_def [symmetric] by simp
    from Suc.IH [OF this] show ?thesis
      using ne page unfolding un [of a] k_def [symmetric] un seq rest
      by (simp del: drop_drop)
  qed
qed simp

subsection \<open>Membership as an interface\<close>

text \<open>What the broker relies on: four operations whose effect on \<open>who is in which room\<close> is
  exactly the named one.  The client's lemma is that a session that has been evicted is in no
  room until it is added again.\<close>

datatype ('r, 'i, 'x, 'n) mem_act =
    MemAdd 'x 'r 'i
  | MemRemove 'r 'i
  | MemEvict 'i
  | MemOther 'n

locale membership_store =
  fixes ok :: "'s \<Rightarrow> bool"
    and mem :: "'s \<Rightarrow> 'r \<Rightarrow> 'i \<Rightarrow> bool"
    and add :: "'x \<Rightarrow> 'r \<Rightarrow> 'i \<Rightarrow> 's \<Rightarrow> 's"
    and remove :: "'r \<Rightarrow> 'i \<Rightarrow> 's \<Rightarrow> 's"
    and evict :: "'i \<Rightarrow> 's \<Rightarrow> 's"
    and other :: "'n \<Rightarrow> 's \<Rightarrow> 's"
  assumes ok_add: "ok s \<Longrightarrow> ok (add x r i s)"
    and ok_remove: "ok s \<Longrightarrow> ok (remove r i s)"
    and ok_evict: "ok s \<Longrightarrow> ok (evict i s)"
    and ok_other: "ok s \<Longrightarrow> ok (other n s)"
    and mem_add: "ok s \<Longrightarrow> mem (add x r i s) r' j \<longleftrightarrow> mem s r' j \<or> (r' = r \<and> j = i)"
    and mem_remove: "ok s \<Longrightarrow> mem (remove r i s) r' j \<longleftrightarrow> mem s r' j \<and> \<not> (r' = r \<and> j = i)"
    and mem_evict: "ok s \<Longrightarrow> mem (evict i s) r' j \<longleftrightarrow> mem s r' j \<and> j \<noteq> i"
    and mem_other: "ok s \<Longrightarrow> mem (other n s) r' j \<longleftrightarrow> mem s r' j"
begin

fun act :: "'s \<Rightarrow> ('r, 'i, 'x, 'n) mem_act \<Rightarrow> 's" where
  "act s (MemAdd x r i) = add x r i s"
| "act s (MemRemove r i) = remove r i s"
| "act s (MemEvict i) = evict i s"
| "act s (MemOther n) = other n s"

lemmas mem_laws = mem_add mem_remove mem_evict mem_other

lemma ok_act: "ok s \<Longrightarrow> ok (act s a)"
  by (cases a) (simp_all add: ok_add ok_remove ok_evict ok_other)

lemma ok_run: "ok s \<Longrightarrow> ok (foldl act s acts)"
  by (induction acts arbitrary: s) (simp_all add: ok_act)

lemma mem_act_new: "ok s \<Longrightarrow> mem (act s a) r i \<Longrightarrow> mem s r i \<or> (\<exists>x. a = MemAdd x r i)"
  by (cases a) (auto simp: mem_laws)

lemma mem_run_added:
  "ok s \<Longrightarrow> mem (foldl act s acts) r i \<Longrightarrow> mem s r i \<or> (\<exists>x. MemAdd x r i \<in> set acts)"
proof (induction acts arbitrary: s)
  case (Cons a acts)
  then show ?case using ok_act [of s a] mem_act_new [of s a r i] by fastforce
qed simp

lemma no_ghost:
  assumes "ok s" and "\<And>x. MemAdd x r i \<notin> set acts"
  shows "\<not> mem (foldl act s (pre @ MemEvict i # acts)) r i"
proof
  assume "mem (foldl act s (pre @ MemEvict i # acts)) r i"
  then have m: "mem (foldl act (evict i (foldl act s pre)) acts) r i" by simp
  have "ok (foldl act s pre)" using assms(1) by (rule ok_run)
  then have "ok (evict i (foldl act s pre))" "\<not> mem (evict i (foldl act s pre)) r i"
    by (simp_all add: ok_evict mem_evict)
  with mem_run_added [OF _ m] assms(2) show False by blast
qed

end

text \<open>The interface on the store: \<open>MemOther\<close> carries the two operations that leave membership
  alone.\<close>

definition member_of :: "room_store \<Rightarrow> jstr \<Rightarrow> jstr \<Rightarrow> bool" where
  "member_of s room sid \<longleftrightarrow> sid \<in> set (memberSessionIds s room)"

lemma member_of_room:
  "member_of s room sid \<longleftrightarrow> (\<exists>st. jm_get (rs_rooms s) room = Some st \<and> jm_get (st_members st) sid \<noteq> None)"
  by (cases "jm_get (rs_rooms s) room")
    (auto simp: member_of_def memberSessionIds_def dom_map_of_conv_image_fst [symmetric])

lemma member_of_join:
  "member_of (fst (join s room member topic now)) r j \<longleftrightarrow>
     member_of s r j \<or> (r = room \<and> j = from_sessionId member)"
  by (auto simp: member_of_room join_def Let_def room_for_join_def split: option.splits)

lemma member_of_leave:
  "member_of (fst (leave s room sid)) r j \<longleftrightarrow> member_of s r j \<and> \<not> (r = room \<and> j = sid)"
proof (cases "jm_get (rs_rooms s) room")
  case (Some st)
  have empty: "jm_get (st_members st) j = None" if "jm_delete sid (st_members st) = []" "j \<noteq> sid" for j
    using jm_get_delete [of sid "st_members st" j] that by simp
  show ?thesis
    using Some empty by (auto simp: member_of_room leave_def Let_def)
qed (auto simp: member_of_room leave_def)

lemma map_of_map_values: "map_of (map (\<lambda>(k, v). (k, f v)) m) k = map_option f (map_of m k)"
  by (induction m) auto

lemma member_of_evictSession:
  "member_of (fst (evictSession s sid)) r j \<longleftrightarrow> member_of s r j \<and> j \<noteq> sid"
  by (auto simp: member_of_room evictSession_def map_of_map_values evict_room_def split: if_splits)

lemma member_of_post:
  "post s room author body replyTo uuid now = Inr (s', m) \<Longrightarrow> member_of s' r j \<longleftrightarrow> member_of s r j"
  by (auto simp: member_of_room post_def Let_def split: option.splits if_splits)
    (auto simp: post_room_def Let_def)

lemma member_of_setCursor:
  "setCursor s room name seq = Inr (s', n) \<Longrightarrow> member_of s' r j \<longleftrightarrow> member_of s r j"
  by (auto simp: member_of_room setCursor_def Let_def split: option.splits if_splits)

fun store_touch :: "store_op \<Rightarrow> room_store \<Rightarrow> room_store" where
  "store_touch (OpPost r a b c d e) s = store_apply s (OpPost r a b c d e)"
| "store_touch (OpSetCursor r n q) s = store_apply s (OpSetCursor r n q)"
| "store_touch _ s = s"

interpretation rooms: membership_store store_inv member_of
    "\<lambda>(name, topic, now) room sid s. fst (join s room \<lparr>from_sessionId = sid, from_name = name\<rparr> topic now)"
    "\<lambda>room sid s. fst (leave s room sid)" "\<lambda>sid s. fst (evictSession s sid)" store_touch
proof unfold_locales
  fix s :: room_store and n :: store_op and r j :: jstr
  assume "store_inv s"
  then show "store_inv (store_touch n s)"
    by (cases n) (simp_all only: store_touch.simps store_apply_inv)
  show "member_of (store_touch n s) r j \<longleftrightarrow> member_of s r j"
    by (cases n) (auto split: sum.splits simp: member_of_post member_of_setCursor)
qed (auto simp: join_inv leave_inv evictSession_inv member_of_join member_of_leave member_of_evictSession)

subsection \<open>History: what was posted, what is retained, what was read\<close>

text \<open>The messages that a run accepts into a room, oldest first.\<close>

fun posted_log :: "jstr \<Rightarrow> room_store \<Rightarrow> store_op list \<Rightarrow> room_message list" where
  "posted_log room s [] = []"
| "posted_log room s (opn # ops) =
     (case opn of
        OpPost r author body replyTo uuid now \<Rightarrow>
          (case post s r author body replyTo uuid now of
             Inl e \<Rightarrow> [] | Inr (s', m) \<Rightarrow> (if r = room then [m] else []))
      | _ \<Rightarrow> []) @ posted_log room (store_apply s opn) ops"

text \<open>The room holds the end of the log \<open>h\<close>; an unknown room has an empty log.\<close>

definition holds_log :: "room_store \<Rightarrow> jstr \<Rightarrow> room_message list \<Rightarrow> bool" where
  "holds_log s room h \<longleftrightarrow>
     (case jm_get (rs_rooms s) room of
        None \<Rightarrow> h = []
      | Some st \<Rightarrow> st_messages st = drop (length h - rs_capacity s) h \<and> st_nextSeq st = int (length h) + 1)"

lemma capacity_apply [simp]: "rs_capacity (store_apply s opn) = rs_capacity s"
  by (cases opn) (auto simp: store_defs Let_def split: option.splits sum.splits prod.splits)

lemma holds_log_join: "holds_log s room h \<Longrightarrow> holds_log (fst (join s r member topic now)) room h"
  by (auto simp: holds_log_def join_def Let_def room_for_join_def split: option.splits)

lemma length_le_minusD: "length xs \<le> length xs - c \<Longrightarrow> Suc 0 \<le> c \<Longrightarrow> xs = []"
  by (cases xs) auto

lemma holds_log_leave:
  assumes "holds_log s room h" and "1 \<le> rs_capacity s"
  shows "holds_log (fst (leave s r sid)) room h"
  using assms
  by (auto simp: holds_log_def leave_def Let_def put_room_def split: option.splits
      dest: length_le_minusD)

lemma holds_log_evict: "holds_log s room h \<Longrightarrow> holds_log (fst (evictSession s sid)) room h"
  by (auto simp: holds_log_def evictSession_def map_of_map_values evict_room_def split: option.splits)

lemma holds_log_setCursor:
  "holds_log s room h \<Longrightarrow> setCursor s r n q = Inr (s', k) \<Longrightarrow> holds_log s' room h"
  by (auto simp: holds_log_def setCursor_def Let_def split: option.splits if_splits)

lemma drop_log_snoc:
  "1 \<le> c \<Longrightarrow> drop (Suc (length (drop (length h - c) h)) - c) (drop (length h - c) h @ [m])
     = drop (Suc (length h) - c) (h @ [m])"
  by (cases "length h \<le> c") (auto simp: Suc_diff_le)

lemma holds_log_post:
  assumes "holds_log s room h" and "1 \<le> rs_capacity s"
    and "post s r author body replyTo uuid now = Inr (s', m)"
  shows "holds_log s' room (if r = room then h @ [m] else h)"
    and "r = room \<Longrightarrow> rm_seq m = int (length h) + 1"
proof -
  obtain st where st: "jm_get (rs_rooms s) r = Some st"
    and m: "rm_seq m = st_nextSeq st" and s': "s' = put_room r (post_room (rs_capacity s) m st) s"
    using assms(3) by (auto simp: post_def Let_def split: option.splits if_splits)
  show "rm_seq m = int (length h) + 1" if "r = room"
    using assms(1) st m that by (simp add: holds_log_def)
  have msgs: "st_messages (post_room (rs_capacity s) m st) =
      drop (Suc (length (st_messages st)) - rs_capacity s) (st_messages st @ [m])"
    "st_nextSeq (post_room (rs_capacity s) m st) = st_nextSeq st + 1"
    by (auto simp: post_room_def Let_def)
  show "holds_log s' room (if r = room then h @ [m] else h)"
  proof (cases "r = room")
    case True
    with assms(1) st have h: "st_messages st = drop (length h - rs_capacity s) h"
      "st_nextSeq st = int (length h) + 1" by (simp_all add: holds_log_def)
    have "st_messages (post_room (rs_capacity s) m st) = drop (Suc (length h) - rs_capacity s) (h @ [m])"
      unfolding msgs(1) h(1) by (rule drop_log_snoc [OF assms(2)])
    moreover have "st_nextSeq (post_room (rs_capacity s) m st) = int (Suc (length h)) + 1"
      unfolding msgs(2) h(2) by simp
    ultimately show ?thesis
      using True by (simp add: holds_log_def s')
  next
    case False
    then have "jm_get (rs_rooms s') room = jm_get (rs_rooms s) room" "rs_capacity s' = rs_capacity s"
      by (simp_all add: s')
    with False assms(1) show ?thesis by (simp add: holds_log_def split: option.splits)
  qed
qed

lemma holds_log_step:
  assumes "holds_log s room h" and "1 \<le> rs_capacity s" and "consecutive 1 h"
  shows "holds_log (store_apply s opn) room (h @ posted_log room s [opn])
    \<and> consecutive 1 (h @ posted_log room s [opn])"
proof (cases opn)
  case (OpPost r author body replyTo uuid now)
  then show ?thesis
    using assms holds_log_post [OF assms(1,2), of r author body replyTo uuid now]
    by (auto simp: consecutive_append split: sum.splits if_splits)
next
  case (OpSetCursor r n q)
  then show ?thesis using assms by (auto split: sum.splits intro: holds_log_setCursor)
qed (use assms in \<open>auto simp: holds_log_join holds_log_leave holds_log_evict\<close>)

lemma posted_log_Cons: "posted_log room s (opn # ops) = posted_log room s [opn] @ posted_log room (store_apply s opn) ops"
  by simp

lemma holds_log_run:
  assumes "holds_log s room h" and "1 \<le> rs_capacity s" and "consecutive 1 h"
  shows "holds_log (store_run s ops) room (h @ posted_log room s ops)
    \<and> consecutive 1 (h @ posted_log room s ops)"
  using assms
proof (induction ops arbitrary: s h)
  case (Cons opn ops)
  from holds_log_step [OF Cons.prems, of opn]
  have "holds_log (store_apply s opn) room (h @ posted_log room s [opn])"
    and "consecutive 1 (h @ posted_log room s [opn])" by blast+
  from Cons.IH [OF this(1) _ this(2)] Cons.prems(2)
  show ?case unfolding posted_log_Cons [of room s opn ops] by (simp add: store_run_def)
qed (simp add: store_run_def)

lemma holds_log_init: "holds_log (store_init c) room []"
  by (simp add: holds_log_def store_init_def)

subsubsection \<open>Cursors only advance\<close>

lemma getCursor_zero:
  assumes "store_inv s" and "1 \<le> rs_capacity s" and "jm_get (rs_rooms s) room = Some st"
    and "st_messages st = []"
  shows "getCursor s room name = 0"
proof -
  have inv: "room_inv (rs_capacity s) room st" by (rule store_inv_room [OF assms(1,3)])
  have "min (int (rs_capacity s)) (st_nextSeq st - 1) = 0"
    using inv assms(4) by (simp add: room_inv_def)
  with assms(2) have "st_nextSeq st = 1" by auto
  with room_inv_cursor [OF inv, of name] show ?thesis by (simp add: getCursor_def assms(3))
qed

lemma getCursor_nonneg: "store_inv s \<Longrightarrow> 0 \<le> getCursor s room name"
  by (auto simp: getCursor_def split: option.splits dest: room_inv_cursor [OF store_inv_room])

lemma getCursor_join: "getCursor (fst (join s r member topic now)) room name = getCursor s room name"
  by (auto simp: getCursor_def join_def Let_def room_for_join_def split: option.splits)

lemma getCursor_evict: "getCursor (fst (evictSession s sid)) room name = getCursor s room name"
  by (auto simp: getCursor_def evictSession_def map_of_map_values evict_room_def split: option.splits)

lemma getCursor_leave:
  assumes "store_inv s" and "1 \<le> rs_capacity s"
  shows "getCursor (fst (leave s r sid)) room name = getCursor s room name"
proof (cases "jm_get (rs_rooms s) r")
  case (Some st)
  show ?thesis
  proof (cases "st_messages st = []")
    case True
    from getCursor_zero [OF assms Some True, of name] Some show ?thesis
      by (auto simp: leave_def Let_def getCursor_def put_room_def split: option.splits)
  next
    case False
    with Some show ?thesis by (auto simp: leave_def Let_def getCursor_def split: option.splits)
  qed
qed (simp add: leave_def)

lemma getCursor_put_room:
  "getCursor (put_room r st s) room name =
     (if room = r then jm_get_or 0 (st_cursors st) name else getCursor s room name)"
  by (simp add: getCursor_def)

lemma getCursor_post:
  "post s r author body replyTo uuid now = Inr (s', m) \<Longrightarrow> getCursor s room name \<le> getCursor s' room name"
  by (auto simp: post_def post_room_def Let_def getCursor_put_room jm_get_or_set split: option.splits if_splits)
    (auto simp: getCursor_def)

lemma getCursor_setCursor:
  "setCursor s r n q = Inr (s', k) \<Longrightarrow> getCursor s room name \<le> getCursor s' room name"
  by (auto simp: setCursor_def Let_def getCursor_put_room jm_get_or_set split: option.splits)
    (auto simp: getCursor_def)

lemma getCursor_apply:
  "store_inv s \<Longrightarrow> 1 \<le> rs_capacity s \<Longrightarrow> getCursor s room name \<le> getCursor (store_apply s opn) room name"
  by (cases opn)
    (auto simp: getCursor_join getCursor_evict getCursor_leave getCursor_post getCursor_setCursor
      split: sum.splits)

lemma capacity_run [simp]: "rs_capacity (store_run s ops) = rs_capacity s"
  by (induction ops arbitrary: s) (simp_all add: store_run_def)

lemma getCursor_run:
  "store_inv s \<Longrightarrow> 1 \<le> rs_capacity s \<Longrightarrow> getCursor s room name \<le> getCursor (store_run s ops) room name"
proof (induction ops arbitrary: s)
  case (Cons opn ops)
  have "getCursor s room name \<le> getCursor (store_apply s opn) room name"
    using Cons.prems by (rule getCursor_apply)
  also have "\<dots> \<le> getCursor (store_run (store_apply s opn) ops) room name"
    using Cons.prems by (intro Cons.IH) (simp_all add: store_apply_inv)
  finally show ?case by (simp add: store_run_def)
qed (simp add: store_run_def)

lemma store_run_append: "store_run s (ops @ ops') = store_run (store_run s ops) ops'"
  by (simp add: store_run_def)

subsection \<open>Properties\<close>

text \<open>whatever operations are applied to a fresh store, in whatever order and with whatever
  arguments, the store is well formed: room keys are distinct and name their rooms, members are
  keyed by their own session, a room retains exactly the last \<open>min capacity posted\<close>
  messages with consecutive sequence numbers ending at \<open>nextSeq - 1\<close>, and every read cursor
  lies between 0 and the last sequence number.\<close>

theorem store_always_well_formed: "store_inv (store_run (store_init c) ops)"
  by (intro store_run_inv_gen store_inv_init)

text \<open>C17: sequence numbers are never skipped, reused or reordered, and the ring buffer loses only
  the oldest messages.  For every run of a store with room for at least one message, the messages
  the run accepted into a room are numbered 1, 2, 3, ... in order, and what the room holds at the
  end is exactly the newest \<open>capacity\<close> of them.\<close>

theorem room_retains_newest:
  "let s = store_run (store_init (Some (Suc n))) ops;
       h = posted_log room (store_init (Some (Suc n))) ops
   in map rm_seq h = map int [1..<length h + 1] \<and>
      (case jm_get (rs_rooms s) room of
         None \<Rightarrow> h = []
       | Some st \<Rightarrow> st_messages st = drop (length h - Suc n) h \<and> st_nextSeq st = int (length h) + 1)"
proof -
  let ?s = "store_init (Some (Suc n))"
  let ?h = "posted_log room ?s ops"
  have "holds_log (store_run ?s ops) room ?h \<and> consecutive 1 ?h"
    using holds_log_run [of ?s room "[]" ops] holds_log_init [of "Some (Suc n)" room]
    by (simp add: store_init_def)
  moreover have "map rm_seq ?h = map int [1..<length ?h + 1]" if "consecutive 1 ?h"
    using consecutive_nth [OF that] by (intro nth_equalityI) (simp_all del: upt_Suc)
  ultimately show ?thesis
    by (simp add: holds_log_def store_init_def Let_def split: option.splits)
qed

text \<open>reading by pages is complete.  In every reachable store, a reader that keeps calling
  \<open>fetch\<close> after the last sequence number it saw, with any page limit (zero and negative ones
  included), receives exactly the retained messages after its starting point, each once and in
  order; for an unknown room \<open>fetch\<close> reports the error.\<close>

theorem fetch_paging_complete:
  "let s = store_run (store_init c) ops
   in case jm_get (rs_rooms s) room of
        None \<Rightarrow> fetch s room a (Some limit) = Inl (RoomMissing room)
      | Some st \<Rightarrow> fetch_pages (length (st_messages st)) s room a limit
                     = filter (\<lambda>m. a < rm_seq m) (st_messages st)"
  using fetch_pages_complete_aux [OF store_run_inv_gen [OF store_inv_init]]
  by (auto simp: Let_def fetch_def split: option.splits)

text \<open>a read cursor never moves backwards, whatever happens in the room (posts, leaves that
  delete an empty room and its cursors, evictions, cursor updates with any number), and it never
  passes the last sequence number of the room.\<close>

theorem cursor_never_moves_back:
  "let s = store_run (store_init (Some (Suc n))) ops;
       s' = store_run (store_init (Some (Suc n))) (ops @ ops')
   in getCursor s room name \<le> getCursor s' room name \<and>
      (case jm_get (rs_rooms s') room of
         None \<Rightarrow> getCursor s' room name = 0
       | Some st \<Rightarrow> getCursor s' room name \<le> st_nextSeq st - 1)"
proof -
  let ?s = "store_run (store_init (Some (Suc n))) ops"
  have inv: "store_inv ?s" by (intro store_run_inv_gen store_inv_init)
  have "getCursor ?s room name \<le> getCursor (store_run ?s ops') room name"
    using inv by (rule getCursor_run) (simp add: store_init_def)
  moreover have "getCursor (store_run ?s ops') room name \<le> st_nextSeq st - 1"
    if "jm_get (rs_rooms (store_run ?s ops')) room = Some st" for st
    using room_inv_cursor [OF store_inv_room [OF store_run_inv_gen [OF inv] that], of name]
    by (simp add: getCursor_def that)
  ultimately show ?thesis
    by (auto simp: Let_def store_run_append split: option.splits) (simp add: getCursor_def)
qed

end
