(* ===== verification/Digest.thy ===== *)
theory Digest
  imports Bounded_Render Room_Store
begin

text \<open>
  The room digest (\<open>packages/roundtable/digest.ts\<close>): unread messages, newest first, through
  \<open>boundedRender\<close>.  The local time of day that \<open>Date\<close> computes depends on the host's time
  zone, so \<open>clock\<close> takes it as the function \<open>hm\<close> from a timestamp to hours and minutes.
\<close>

record digest_options =
  dg_budget :: "int option"
  dg_perMessageCap :: "int option"
  dg_headlineCap :: "int option"

record digest =
  dg_text :: jstr
  dg_consumedSeq :: int
  dg_total :: nat
  dg_verbatim :: nat
  dg_headlines :: nat
  dg_collapsed :: nat
  dg_chars :: nat

text \<open>\<open>String(n).padStart(2, "0")\<close>.\<close>

definition pad2 :: "nat \<Rightarrow> jstr" where
  "pad2 n = replicate (2 - length (js_nat n)) 48 @ js_nat n"

definition clock :: "(int \<Rightarrow> nat \<times> nat) \<Rightarrow> int \<Rightarrow> jstr" where
  "clock hm timestamp = (case hm timestamp of (h, m) \<Rightarrow> pad2 h @ js '':'' @ pad2 m)"

text \<open>\<open>message.replyTo ? ... : ""\<close>: an absent or empty id prints nothing.\<close>

definition reply_note :: "jstr option \<Rightarrow> jstr" where
  "reply_note r =
     (case r of None \<Rightarrow> []
      | Some i \<Rightarrow> (if i = [] then [] else js '' (reply to '' @ i @ js '')''))"

definition digest_verbatim :: "(int \<Rightarrow> nat \<times> nat) \<Rightarrow> room_message \<Rightarrow> jstr \<Rightarrow> nat \<Rightarrow> jstr" where
  "digest_verbatim hm m cappedText truncated =
     (let marker = (if 0 < truncated
                    then js '' '' @ [js_ellipsis] @ js ''(+'' @ js_nat truncated @ js '' chars)''
                    else [])
      in js ''['' @ clock hm (rm_timestamp m) @ js ''] '' @ from_name (rm_from m) @ js ''#''
         @ js_int (rm_seq m) @ reply_note (rm_replyTo m) @ js '': '' @ cappedText @ marker)"

definition digest_headline :: "room_message \<Rightarrow> jstr \<Rightarrow> bool \<Rightarrow> jstr" where
  "digest_headline m cappedFirstLine hasMore =
     [js_middot] @ js '' '' @ from_name (rm_from m) @ js ''#'' @ js_int (rm_seq m) @ js '': ''
     @ cappedFirstLine @ (if hasMore then js '' '' @ [js_ellipsis] else [])"

definition digest_collapsed :: "room_message list \<Rightarrow> nat \<Rightarrow> jstr" where
  "digest_collapsed newestFirst count =
     (let oldest = (if newestFirst = [] then 1 else rm_seq (last newestFirst))
      in js ''('' @ js_nat count @ js '' older message'' @ (if count = 1 then [] else js ''s'')
         @ js '' collapsed '' @ [js_emdash] @ js '' fetch with after_seq '' @ js_int (oldest - 1)
         @ js '' to read them)'')"

text \<open>\<open>[...messages].sort((a, b) => b.seq - a.seq)\<close>: a stable sort, largest number first.\<close>

definition newest_first :: "room_message list \<Rightarrow> room_message list" where
  "newest_first messages = sort_key (\<lambda>m. - rm_seq m) messages"

definition digest_render_options ::
  "(int \<Rightarrow> nat \<times> nat) \<Rightarrow> room_message list \<Rightarrow> digest_options \<Rightarrow> room_message render_options" where
  "digest_render_options hm nf opts =
     \<lparr>opt_budget = dg_budget opts, opt_perItemCap = dg_perMessageCap opts,
      opt_headlineCap = dg_headlineCap opts, opt_preserveOrder = False,
      opt_format = \<lparr>fmt_text = rm_text, fmt_verbatim = digest_verbatim hm,
        fmt_headline = digest_headline, fmt_collapsed = digest_collapsed nf\<rparr>\<rparr>"

definition buildDigest ::
  "(int \<Rightarrow> nat \<times> nat) \<Rightarrow> room_message list \<Rightarrow> digest_options \<Rightarrow> digest" where
  "buildDigest hm messages opts =
     (if messages = [] then
        \<lparr>dg_text = js ''No new messages.'', dg_consumedSeq = 0, dg_total = 0, dg_verbatim = 0,
         dg_headlines = 0, dg_collapsed = 0, dg_chars = 0\<rparr>
      else
        (let nf = newest_first messages;
             consumed = rm_seq (hd nf);
             r = boundedRender nf (digest_render_options hm nf opts)
         in \<lparr>dg_text = rr_text r, dg_consumedSeq = consumed, dg_total = rr_total r,
             dg_verbatim = rr_verbatim r, dg_headlines = rr_headlines r,
             dg_collapsed = rr_collapsed r, dg_chars = rr_chars r\<rparr>))"

subsection \<open>Facts\<close>

lemma set_newest_first [simp]: "set (newest_first ms) = set ms"
  by (simp add: newest_first_def)

lemma length_newest_first [simp]: "length (newest_first ms) = length ms"
  by (simp add: newest_first_def)

lemma newest_first_Nil [simp]: "newest_first ms = [] \<longleftrightarrow> ms = []"
  by (metis length_0_conv length_newest_first)

lemma newest_first_sorted: "sorted_wrt (\<lambda>a b. rm_seq b \<le> rm_seq a) (newest_first ms)"
proof -
  have "sorted (map (\<lambda>m. - rm_seq m) (newest_first ms))"
    by (simp add: newest_first_def)
  then show ?thesis by (simp add: sorted_wrt_map)
qed

lemma newest_first_consecutive:
  assumes "consecutive lo ms"
  shows "newest_first ms = rev ms"
proof -
  have "sorted_wrt (<) (map rm_seq ms)" using assms by (rule consecutive_sorted)
  then have "sorted (map (\<lambda>m. - rm_seq m) (rev ms))"
    by (auto simp: sorted_wrt_map sorted_wrt_rev elim!: sorted_wrt_mono_rel [rotated])
  moreover have "inj_on (\<lambda>m. - rm_seq m) (set ms)"
    using consecutive_distinct [OF assms] by (auto simp: distinct_map inj_on_def)
  moreover have "distinct ms" using consecutive_distinct [OF assms] by (simp add: distinct_map)
  ultimately show ?thesis
    unfolding newest_first_def
    by (intro map_sorted_distinct_set_unique [where f = "\<lambda>m. - rm_seq m"]) (auto simp: distinct_map)
qed

lemma consumedSeq_is_max:
  assumes "messages \<noteq> []"
  shows "dg_consumedSeq (buildDigest hm messages opts) = Max (rm_seq ` set messages)"
proof -
  obtain a as where nf: "newest_first messages = a # as"
    using assms by (metis newest_first_Nil list.exhaust)
  have "set messages = set (a # as)" by (metis nf set_newest_first)
  moreover have "Max (rm_seq ` set (a # as)) = rm_seq a"
    using newest_first_sorted [of messages] unfolding nf by (intro Max_eqI) auto
  ultimately show ?thesis using assms by (simp add: buildDigest_def Let_def nf)
qed

lemma eff_budget_digest:
  "eff_budget (digest_render_options hm nf opts) = resolve_cap (dg_budget opts) DEFAULT_BUDGET MIN_BUDGET"
  by (simp add: eff_budget_def digest_render_options_def)

subsection \<open>Properties\<close>

text \<open>a digest of messages is bounded and complete whatever peers posted.  Its text has at
  most \<open>budget\<close> characters (floored at 200) plus one marker line of at most 200; every message
  is verbatim, a headline or counted as collapsed; and \<open>consumedSeq\<close> is the largest sequence
  number, so advancing the cursor to it marks exactly these messages read.\<close>

theorem digest_bounded_and_complete:
  assumes "messages \<noteq> []"
  shows "let d = buildDigest hm messages opts;
             b = resolve_cap (dg_budget opts) DEFAULT_BUDGET MIN_BUDGET
    in dg_chars d = length (dg_text d) \<and>
       int (dg_chars d) \<le> (if dg_collapsed d = 0 then b else b + int MAX_MARKER_CHARS) \<and>
       dg_verbatim d + dg_headlines d + dg_collapsed d = length messages \<and>
       dg_consumedSeq d = Max (rm_seq ` set messages)"
  using boundedRender_size [of "newest_first messages" "digest_render_options hm (newest_first messages) opts"]
    boundedRender_counts [of "newest_first messages" "digest_render_options hm (newest_first messages) opts"]
    consumedSeq_is_max [OF assms, of hm opts] assms
  by (simp add: buildDigest_def Let_def eff_budget_digest split: if_splits)

theorem digest_bounded_and_complete_witness:
  "let m = \<lparr>rm_id = js ''a'', rm_seq = 3, rm_timestamp = 0, rm_room = js ''r'',
            rm_from = \<lparr>from_sessionId = js ''s'', from_name = js ''n''\<rparr>, rm_text = js ''hi'',
            rm_replyTo = None\<rparr>;
       o' = \<lparr>dg_budget = None, dg_perMessageCap = None, dg_headlineCap = None\<rparr>
   in dg_consumedSeq (buildDigest (\<lambda>_. (9, 5)) [m] o') = 3"
  using digest_bounded_and_complete [of
      "[\<lparr>rm_id = js ''a'', rm_seq = 3, rm_timestamp = 0, rm_room = js ''r'',
         rm_from = \<lparr>from_sessionId = js ''s'', from_name = js ''n''\<rparr>, rm_text = js ''hi'',
         rm_replyTo = None\<rparr>]" "\<lambda>_. (9, 5)"
      "\<lparr>dg_budget = None, dg_perMessageCap = None, dg_headlineCap = None\<rparr>"]
  by (simp add: Let_def)

end
