(* ===== verification/Framing.thy ===== *)
theory Framing
  imports JS_Core
begin

text \<open>
  The wire format of the roundtable broker (\<open>packages/roundtable/broker/framing.ts\<close>; the
  intercom's \<open>broker/framing.ts\<close> has the same code with another word in its error texts): a
  4-byte big-endian length and a JSON payload.

  \<open>JSON.stringify\<close> with the UTF-8 encoder is the parameter \<open>enc\<close>, the decoder with
  \<open>JSON.parse\<close> the parameter \<open>parse\<close> (\<open>None\<close> when it throws); \<open>onMessage\<close> is a state
  transformer that may report a thrown error, \<open>onError\<close> another.
\<close>

type_synonym byte = "8 word"

text \<open>\<open>header.writeUInt32BE(n, 0)\<close> throws for \<open>n \<ge> 2 ^ 32\<close>.\<close>

definition writeUInt32BE :: "nat \<Rightarrow> byte list option" where
  "writeUInt32BE n =
     (if n < 2 ^ 32
      then Some [of_nat (n div 2 ^ 24), of_nat (n div 2 ^ 16), of_nat (n div 2 ^ 8), of_nat n]
      else None)"

definition readUInt32BE :: "byte list \<Rightarrow> nat" where
  "readUInt32BE b = unat (b ! 0) * 2 ^ 24 + unat (b ! 1) * 2 ^ 16 + unat (b ! 2) * 2 ^ 8 + unat (b ! 3)"

definition writeMessage :: "('m \<Rightarrow> byte list) \<Rightarrow> 'm \<Rightarrow> byte list option" where
  "writeMessage enc msg =
     (let payload = enc msg
      in map_option (\<lambda>header. header @ payload) (writeUInt32BE (length payload)))"

datatype 'e reader_error = ParseFailed | HandleFailed 'e

text \<open>The \<open>while\<close> loop of the reader on its buffer; \<open>return\<close> after an error leaves the rest
  of the buffer for the next chunk.\<close>

function read_loop ::
  "(byte list \<Rightarrow> 'm option) \<Rightarrow> ('s \<Rightarrow> 'm \<Rightarrow> 's \<times> 'e option) \<Rightarrow> ('e reader_error \<Rightarrow> 's \<Rightarrow> 's)
     \<Rightarrow> byte list \<Rightarrow> 's \<Rightarrow> byte list \<times> 's" where
  "read_loop parse onMessage onError buffer s =
     (if length buffer < 4 then (buffer, s)
      else
        (let len = readUInt32BE buffer
         in if length buffer < 4 + len then (buffer, s)
            else
              (let payload = take len (drop 4 buffer);
                   rest = drop (4 + len) buffer
               in case parse payload of
                    None \<Rightarrow> (rest, onError ParseFailed s)
                  | Some msg \<Rightarrow>
                      (case onMessage s msg of
                         (s', None) \<Rightarrow> read_loop parse onMessage onError rest s'
                       | (s', Some e) \<Rightarrow> (rest, onError (HandleFailed e) s')))))"
  by pat_completeness auto

termination
  by (relation "measure (\<lambda>(_, _, _, buffer, _). length buffer)") auto

declare read_loop.simps [simp del]

text \<open>One call of the reader, and the calls for a sequence of chunks.\<close>

definition read_chunk ::
  "(byte list \<Rightarrow> 'm option) \<Rightarrow> ('s \<Rightarrow> 'm \<Rightarrow> 's \<times> 'e option) \<Rightarrow> ('e reader_error \<Rightarrow> 's \<Rightarrow> 's)
     \<Rightarrow> byte list \<times> 's \<Rightarrow> byte list \<Rightarrow> byte list \<times> 's" where
  "read_chunk parse onMessage onError st data =
     (case st of (buffer, s) \<Rightarrow> read_loop parse onMessage onError (buffer @ data) s)"

definition read_chunks ::
  "(byte list \<Rightarrow> 'm option) \<Rightarrow> ('s \<Rightarrow> 'm \<Rightarrow> 's \<times> 'e option) \<Rightarrow> ('e reader_error \<Rightarrow> 's \<Rightarrow> 's)
     \<Rightarrow> byte list list \<Rightarrow> byte list \<times> 's \<Rightarrow> byte list \<times> 's" where
  "read_chunks parse onMessage onError chunks st = foldl (read_chunk parse onMessage onError) st chunks"

subsection \<open>The length header\<close>

lemma unat_byte: "unat (of_nat n :: byte) = n mod 256"
  by (simp add: unat_of_nat)

lemma writeUInt32BE_length: "writeUInt32BE n = Some h \<Longrightarrow> length h = 4"
  by (auto simp: writeUInt32BE_def split: if_splits)

lemma bytes_of_nat:
  assumes "n < 2 ^ 32"
  shows "(n div 2 ^ 24) mod 256 * 2 ^ 24 + (n div 2 ^ 16) mod 256 * 2 ^ 16
    + (n div 2 ^ 8) mod 256 * 2 ^ 8 + n mod 256 = (n :: nat)"
proof -
  define a where "a = n div 256"
  define b where "b = a div 256"
  define c where "c = b div 256"
  have a: "n div 2 ^ 8 = a" and b: "n div 2 ^ 16 = b" and c: "n div 2 ^ 24 = c"
    by (simp_all add: a_def b_def c_def div_mult2_eq [symmetric])
  have "c < 256" using assms by (simp add: c [symmetric])
  then have c256: "c mod 256 = c" by simp
  have "n = a * 256 + n mod 256" "a = b * 256 + a mod 256" "b = c * 256 + b mod 256"
    unfolding a_def b_def c_def by simp_all
  then show ?thesis unfolding a b c c256 by simp
qed

lemma read_writeUInt32BE: "writeUInt32BE n = Some h \<Longrightarrow> readUInt32BE (h @ rest) = n"
  using bytes_of_nat [of n]
  by (auto simp: writeUInt32BE_def readUInt32BE_def unat_byte split: if_splits)

lemma readUInt32BE_append: "4 \<le> length b \<Longrightarrow> readUInt32BE (b @ c) = readUInt32BE b"
  by (auto simp: readUInt32BE_def nth_append)

subsection \<open>Reading one frame\<close>

lemma read_loop_wait:
  "length buffer < 4 \<or> length buffer < 4 + readUInt32BE buffer \<Longrightarrow>
     read_loop parse onMessage onError buffer s = (buffer, s)"
  by (subst read_loop.simps) (auto simp: Let_def)

lemma read_loop_frame:
  assumes "writeMessage enc m = Some f" and "parse (enc m) = Some m"
  shows "read_loop parse onMessage onError (f @ rest) s =
    (case onMessage s m of
       (s', None) \<Rightarrow> read_loop parse onMessage onError rest s'
     | (s', Some e) \<Rightarrow> (rest, onError (HandleFailed e) s'))"
proof -
  obtain h where h: "writeUInt32BE (length (enc m)) = Some h" and f: "f = h @ enc m"
    using assms(1) by (auto simp: writeMessage_def Let_def)
  have "length h = 4" using h by (rule writeUInt32BE_length)
  moreover have "readUInt32BE (h @ enc m @ rest) = length (enc m)"
    using h by (rule read_writeUInt32BE)
  ultimately show ?thesis
    by (subst read_loop.simps) (simp add: f assms(2) Let_def)
qed

lemma read_loop_partial:
  assumes "writeMessage enc m = Some f" and "j < length f"
  shows "read_loop parse onMessage onError (take j f) s = (take j f, s)"
proof (rule read_loop_wait)
  obtain h where h: "writeUInt32BE (length (enc m)) = Some h" and f: "f = h @ enc m"
    using assms(1) by (auto simp: writeMessage_def Let_def)
  have 4: "length h = 4" using h by (rule writeUInt32BE_length)
  show "length (take j f) < 4 \<or> length (take j f) < 4 + readUInt32BE (take j f)"
  proof (cases "j < 4")
    case False
    then have "take j f = h @ take (j - 4) (enc m)" using 4 by (simp add: f)
    then have "readUInt32BE (take j f) = length (enc m)"
      using read_writeUInt32BE [OF h] by simp
    then show ?thesis using assms(2) 4 by (simp add: f del: take_append)
  qed (auto simp: min_def)
qed

subsection \<open>Splitting the input does not matter\<close>

definition frame :: "('m \<Rightarrow> byte list) \<Rightarrow> 'm \<Rightarrow> byte list" where
  "frame enc m = the (writeMessage enc m)"

text \<open>What the codec owes the reader: a message that is sent fits the header and parses back.\<close>

definition sendable :: "('m \<Rightarrow> byte list) \<Rightarrow> (byte list \<Rightarrow> 'm option) \<Rightarrow> 'm \<Rightarrow> bool" where
  "sendable enc parse m \<longleftrightarrow> length (enc m) < 2 ^ 32 \<and> parse (enc m) = Some m"

lemma writeMessage_frame: "sendable enc parse m \<Longrightarrow> writeMessage enc m = Some (frame enc m)"
  by (simp add: frame_def sendable_def writeMessage_def writeUInt32BE_def Let_def)

lemma frame_not_Nil: "sendable enc parse m \<Longrightarrow> 4 \<le> length (frame enc m)"
  by (simp add: frame_def sendable_def writeMessage_def writeUInt32BE_def Let_def)

lemma read_loop_sendable:
  assumes "sendable enc parse m" and "snd (onMessage s m) = None"
  shows "read_loop parse onMessage onError (frame enc m @ rest) s =
    read_loop parse onMessage onError rest (fst (onMessage s m))"
  using read_loop_frame [OF writeMessage_frame [OF assms(1)], of parse onMessage onError rest s] assms
  by (cases "onMessage s m") (simp add: sendable_def)

lemma read_loop_append:
  assumes "\<forall>m \<in> set ms. sendable enc parse m" and "\<And>s m. snd (onMessage s m) = None"
    and "concat (map (frame enc) ms) = a @ b"
  shows "read_loop parse onMessage onError (a @ c) s =
    (case read_loop parse onMessage onError a s of
       (a', s') \<Rightarrow> read_loop parse onMessage onError (a' @ c) s')"
  using assms(1,3)
proof (induction ms arbitrary: a s)
  case Nil
  then show ?case by (simp add: read_loop_wait)
next
  case (Cons m ms)
  have m: "sendable enc parse m" using Cons.prems(1) by simp
  show ?case
  proof (cases "length a < length (frame enc m)")
    case True
    have "take (length a) (frame enc m @ concat (map (frame enc) ms)) = a"
      using Cons.prems(2) by simp
    with True have "a = take (length a) (frame enc m)" by simp
    then have "read_loop parse onMessage onError a s = (a, s)"
      using read_loop_partial [OF writeMessage_frame [OF m] True, of parse onMessage onError s] by simp
    then show ?thesis by simp
  next
    case False
    have "take (length (frame enc m)) (a @ b) = frame enc m"
      using Cons.prems(2) [symmetric] by simp
    with False have "take (length (frame enc m)) a = frame enc m" by simp
    then obtain a2 where a2: "a = frame enc m @ a2" by (metis append_take_drop_id)
    with Cons.prems(2) have "concat (map (frame enc) ms) = a2 @ b" by simp
    with Cons show ?thesis
      unfolding a2 append_assoc read_loop_sendable [OF m assms(2)] by simp
  qed
qed

lemma read_chunks_concat:
  assumes "\<forall>m \<in> set ms. sendable enc parse m" and "\<And>s m. snd (onMessage s m) = None"
    and "concat (map (frame enc) ms) = concat chunks @ b"
  shows "read_chunks parse onMessage onError chunks ([], s) = read_loop parse onMessage onError (concat chunks) s"
  using assms(3)
proof (induction chunks arbitrary: b rule: rev_induct)
  case Nil
  then show ?case by (simp add: read_chunks_def read_loop_wait)
next
  case (snoc c chunks)
  have "concat (map (frame enc) ms) = concat chunks @ (c @ b)" using snoc.prems by simp
  from snoc.IH [OF this] read_loop_append [OF assms(1,2) this] show ?case
    by (simp add: read_chunks_def read_chunk_def)
qed

lemma read_loop_all:
  assumes "\<forall>m \<in> set ms. sendable enc parse m" and "\<And>s m. snd (onMessage s m) = None"
  shows "read_loop parse onMessage onError (concat (map (frame enc) ms) @ rest) s =
    read_loop parse onMessage onError rest (foldl (\<lambda>s m. fst (onMessage s m)) s ms)"
  using assms(1)
proof (induction ms arbitrary: s)
  case (Cons m ms)
  then show ?case using read_loop_sendable [of enc parse m onMessage s] assms(2) by simp
qed simp

subsection \<open>Properties\<close>

text \<open>C33: framing is a round trip however the network cuts the stream.  If a peer writes the
  messages \<open>ms\<close> and the beginning of one more, and the bytes arrive in any chunks, then the
  handler has run on exactly \<open>ms\<close>, in order, and the buffer holds exactly the unfinished frame.
  The codec is any encoder whose messages fit the header and parse back.\<close>

theorem framing_roundtrip:
  assumes "\<forall>m \<in> set (ms @ [next_m]). sendable enc parse m"
    and "\<And>s m. snd (onMessage s m) = None"
    and "concat chunks = concat (map (frame enc) ms) @ take j (frame enc next_m)"
    and "j < length (frame enc next_m)"
  shows "read_chunks parse onMessage onError chunks ([], s) =
    (take j (frame enc next_m), foldl (\<lambda>s m. fst (onMessage s m)) s ms)"
proof -
  have next_m: "sendable enc parse next_m" using assms(1) by simp
  have "concat (map (frame enc) (ms @ [next_m])) = concat chunks @ drop j (frame enc next_m)"
    using assms(3) by simp
  from read_chunks_concat [OF assms(1,2) this] show ?thesis
    using assms(1) read_loop_partial [OF writeMessage_frame [OF next_m] assms(4)]
    by (simp add: assms(3) read_loop_all assms(2))
qed

theorem framing_roundtrip_witness:
  "read_chunks Some (\<lambda>s m. (s @ [m], None :: unit option)) (\<lambda>e s. s)
     [[0, 0], [0, 1, 7, 0, 0], [0, 2, 5]] ([], [[9]]) = ([0, 0, 0, 2, 5], [[9], [7 :: byte]])"
  using framing_roundtrip [of "[[7]]" "[5, 6]" id Some "\<lambda>s m. (s @ [m], None :: unit option)"
      "[[0, 0], [0, 1, 7, 0, 0], [0, 2, 5]]" 5 "\<lambda>e s. s" "[[9]]"]
  by (simp add: sendable_def frame_def writeMessage_def writeUInt32BE_def Let_def)

text \<open>A frame that does not parse is reported once and nothing after it in the same chunk is
  handled: the messages before it have been, the bytes after it stay in the buffer.\<close>

theorem framing_parse_error:
  assumes "\<forall>m \<in> set ms. sendable enc parse m" and "\<And>s m. snd (onMessage s m) = None"
    and "writeUInt32BE (length bad) = Some header" and "parse bad = None"
  shows "read_chunk parse onMessage onError ([], s) (concat (map (frame enc) ms) @ header @ bad @ rest) =
    (rest, onError ParseFailed (foldl (\<lambda>s m. fst (onMessage s m)) s ms))"
proof -
  have "length header = 4" using assms(3) by (rule writeUInt32BE_length)
  moreover have "readUInt32BE (header @ bad @ rest) = length bad"
    using assms(3) by (rule read_writeUInt32BE)
  ultimately have "read_loop parse onMessage onError (header @ bad @ rest) t = (rest, onError ParseFailed t)"
    for t by (subst read_loop.simps) (simp add: assms(4) Let_def)
  then show ?thesis by (simp add: read_chunk_def read_loop_all assms(1,2))
qed

theorem framing_parse_error_witness:
  "read_chunk (\<lambda>b. if b = [1] then None else Some b) (\<lambda>s m. (s @ [m], None :: unit option))
     (\<lambda>e s. s @ [[0]]) ([], []) [0, 0, 0, 1, 7, 0, 0, 0, 1, 1, 4] = ([4], [[7], [0 :: byte]])"
  using framing_parse_error [of "[[7]]" id "\<lambda>b. if b = [1] then None else Some b"
      "\<lambda>s m. (s @ [m], None :: unit option)" "[1]" "[0, 0, 0, 1]" "\<lambda>e s. s @ [[0]]" "[]" "[4]"]
  by (simp add: sendable_def frame_def writeMessage_def writeUInt32BE_def Let_def)

end
