(* ===== verification/Broker.thy ===== *)
theory Broker
  imports Room_Store
begin

text \<open>
  The roundtable broker (\<open>packages/roundtable/broker/broker.ts\<close>): sessions, the message handler,
  the close handler, notification, the idle check and \<open>shutdown\<close>.

  Sockets are numbers.  A method is a function from the broker to the broker and the list of its
  effects, in order (messages written, sockets destroyed, files unlinked, exit).  The variable
  \<open>sessionId\<close> that each connection's closure holds is the connection table \<open>sys_conns\<close> of the
  system at the end of the theory, whose steps are what the event loop can run.  Messages have the
  types of \<open>types.ts\<close>; one of an unknown type is \<open>CM_Other\<close>.
\<close>

subsection \<open>The protocol\<close>

datatype client_message =
    CM_Register jstr int jstr
  | CM_Rooms jstr
  | CM_Join jstr jstr "jstr option"
  | CM_Leave jstr jstr
  | CM_Post jstr jstr jstr "jstr option"
  | CM_Fetch jstr jstr int "int option"
  | CM_SetCursor jstr jstr int
  | CM_Other "jstr option"

datatype broker_message =
    BM_Registered jstr
  | BM_Rooms jstr "room_info list"
  | BM_Joined jstr room_info int
  | BM_Left jstr jstr
  | BM_Posted jstr room_message
  | BM_Messages jstr jstr "room_message list" int int
  | BM_CursorSet jstr jstr int
  | BM_Activity jstr jstr int
  | BM_Error "jstr option" jstr

record session =
  se_id :: jstr
  se_name :: jstr
  se_pid :: int
  se_cwd :: jstr
  se_socket :: nat

record broker =
  br_sessions :: "(jstr, session) jmap"
  br_store :: room_store
  br_shutdownTimer :: bool
  br_listening :: bool
  br_ownsSocket :: bool
  br_signalHandlers :: bool
  br_exitWhenIdle :: bool

datatype broker_effect =
    Send nat broker_message
  | Destroy nat
  | ServerClose
  | UnlinkSocketPath
  | UnlinkPidPath
  | SignalsOff
  | ProcessExit

text \<open>The object after the constructor and a successful \<open>listen\<close>: the socket is bound, the
  signal handlers are installed if the broker owns its process.\<close>

definition broker_started :: "bool \<Rightarrow> broker" where
  "broker_started exitWhenIdle =
     \<lparr>br_sessions = [], br_store = store_init None, br_shutdownTimer = False, br_listening = True,
      br_ownsSocket = True, br_signalHandlers = exitWhenIdle, br_exitWhenIdle = exitWhenIdle\<rparr>"

subsection \<open>Notification\<close>

definition notifyRoom :: "broker \<Rightarrow> jstr \<Rightarrow> broker_message \<Rightarrow> jstr \<Rightarrow> broker_effect list" where
  "notifyRoom b room msg exceptSessionId =
     concat (map (\<lambda>memberId.
       if memberId = exceptSessionId then []
       else (case jm_get (br_sessions b) memberId of
               None \<Rightarrow> []
             | Some member \<Rightarrow> [Send (se_socket member) msg]))
       (memberSessionIds (br_store b) room))"

subsection \<open>The message handler\<close>

text \<open>The \<open>try\<close> block's \<open>switch\<close>, for a registered session.  \<open>Inl\<close> is a thrown error.\<close>

definition handle_request ::
  "broker \<Rightarrow> nat \<Rightarrow> client_message \<Rightarrow> jstr \<Rightarrow> session \<Rightarrow> jstr \<Rightarrow> int
     \<Rightarrow> store_error + (broker \<times> broker_effect list)" where
  "handle_request b socket msg sessionId session uuid now =
     (case msg of
        CM_Rooms req \<Rightarrow>
          Inr (b, [Send socket (BM_Rooms req (listRooms (br_store b) (Some (se_name session))))])
      | CM_Join req room topic \<Rightarrow>
          (case join (br_store b) room \<lparr>from_sessionId = sessionId, from_name = se_name session\<rparr> topic now of
             (store', info, cursor) \<Rightarrow>
               (let b' = b\<lparr>br_store := store'\<rparr>
                in Inr (b', Send socket (BM_Joined req info cursor)
                          # notifyRoom b' room (BM_Activity room (se_name session) 0) sessionId)))
      | CM_Leave req room \<Rightarrow>
          (let b' = b\<lparr>br_store := fst (leave (br_store b) room sessionId)\<rparr>
           in Inr (b', Send socket (BM_Left req room)
                     # notifyRoom b' room (BM_Activity room (js ''(left)'') 0) sessionId))
      | CM_Post req room body replyTo \<Rightarrow>
          (case post (br_store b) room \<lparr>from_sessionId = sessionId, from_name = se_name session\<rparr>
                  body replyTo uuid now of
             Inl e \<Rightarrow> Inl e
           | Inr (store', m) \<Rightarrow>
               (let b' = b\<lparr>br_store := store'\<rparr>
                in Inr (b', Send socket (BM_Posted req m)
                          # notifyRoom b' room (BM_Activity room (se_name session) (rm_seq m)) sessionId)))
      | CM_Fetch req room afterSeq limit \<Rightarrow>
          (case fetch (br_store b) room afterSeq limit of
             Inl e \<Rightarrow> Inl e
           | Inr (messages, lastSeq) \<Rightarrow>
               Inr (b, [Send socket (BM_Messages req room messages lastSeq
                                       (getCursor (br_store b) room (se_name session)))]))
      | CM_SetCursor req room seq \<Rightarrow>
          (case setCursor (br_store b) room (se_name session) seq of
             Inl e \<Rightarrow> Inl e
           | Inr (store', n) \<Rightarrow> Inr (b\<lparr>br_store := store'\<rparr>, [Send socket (BM_CursorSet req room n)]))
      | CM_Other t \<Rightarrow>
          Inr (b, [Send socket (BM_Error None
            (js ''Unknown message type: '' @ (case t of None \<Rightarrow> js ''?'' | Some t \<Rightarrow> t)))])
      | CM_Register _ _ _ \<Rightarrow> Inr (b, []))"

fun request_id :: "client_message \<Rightarrow> jstr option" where
  "request_id (CM_Register _ _ _) = None"
| "request_id (CM_Rooms r) = Some r"
| "request_id (CM_Join r _ _) = Some r"
| "request_id (CM_Leave r _) = Some r"
| "request_id (CM_Post r _ _ _) = Some r"
| "request_id (CM_Fetch r _ _ _) = Some r"
| "request_id (CM_SetCursor r _ _) = Some r"
| "request_id (CM_Other _) = None"

definition is_register :: "client_message \<Rightarrow> bool" where
  "is_register msg = (case msg of CM_Register _ _ _ \<Rightarrow> True | _ \<Rightarrow> False)"

text \<open>The result's last component is the connection's new \<open>sessionId\<close>.\<close>

definition handleMessage ::
  "broker \<Rightarrow> nat \<Rightarrow> client_message \<Rightarrow> jstr option \<Rightarrow> jstr \<Rightarrow> int
     \<Rightarrow> broker \<times> broker_effect list \<times> jstr option" where
  "handleMessage b socket msg sessionId uuid now =
     (case msg of
        CM_Register name pid cwd \<Rightarrow>
          (case sessionId of
             Some sid \<Rightarrow>
               (b, [Send socket (BM_Error None (js ''This connection is already registered''))], sessionId)
           | None \<Rightarrow>
               (b\<lparr>br_sessions := jm_set uuid \<lparr>se_id = uuid, se_name = name, se_pid = pid, se_cwd = cwd,
                   se_socket = socket\<rparr> (br_sessions b)\<rparr>,
                [Send socket (BM_Registered uuid)], Some uuid))
      | _ \<Rightarrow>
          (case sessionId of
             None \<Rightarrow>
               (b, [Send socket (BM_Error None (js ''Register before sending requests''))], None)
           | Some sid \<Rightarrow>
               (case jm_get (br_sessions b) sid of
                  None \<Rightarrow> (b, [Send socket (BM_Error None (js ''Unknown session''))], sessionId)
                | Some session \<Rightarrow>
                    (case handle_request b socket msg sid session uuid now of
                       Inr (b', effs) \<Rightarrow> (b', effs, sessionId)
                     | Inl e \<Rightarrow>
                         (b, [Send socket (BM_Error (request_id msg) (store_error_message e))], sessionId)))))"

subsection \<open>Disconnect, idle check, shutdown\<close>

definition scheduleShutdownCheck :: "broker \<Rightarrow> broker" where
  "scheduleShutdownCheck b = (if br_shutdownTimer b then b else b\<lparr>br_shutdownTimer := True\<rparr>)"

definition handleClose :: "broker \<Rightarrow> jstr option \<Rightarrow> broker \<times> broker_effect list" where
  "handleClose b sessionId =
     (case sessionId of
        None \<Rightarrow> (b, [])
      | Some sid \<Rightarrow>
          (case evictSession (br_store b) sid of
             (store', left) \<Rightarrow>
               (let b' = b\<lparr>br_sessions := jm_delete sid (br_sessions b), br_store := store'\<rparr>
                in (scheduleShutdownCheck b',
                    concat (map (\<lambda>room. notifyRoom b' room (BM_Activity room (js ''(left)'') 0) sid)
                      left)))))"

definition shutdown :: "broker \<Rightarrow> broker \<times> broker_effect list" where
  "shutdown b =
     (b\<lparr>br_signalHandlers := False, br_shutdownTimer := False, br_sessions := [],
        br_listening := False, br_ownsSocket := False\<rparr>,
      (if br_signalHandlers b then [SignalsOff] else [])
      @ map (\<lambda>session. Destroy (se_socket session)) (jm_values (br_sessions b))
      @ (if br_listening b then [ServerClose] else [])
      @ (if br_ownsSocket b then [UnlinkSocketPath, UnlinkPidPath] else []))"

text \<open>The callback of the idle timer.\<close>

definition idle_check :: "broker \<Rightarrow> broker \<times> broker_effect list" where
  "idle_check b =
     (let b' = b\<lparr>br_shutdownTimer := False\<rparr>
      in if br_sessions b' \<noteq> [] then (b', [])
         else (case shutdown b' of
                 (b'', effs) \<Rightarrow> (b'', effs @ (if br_exitWhenIdle b then [ProcessExit] else []))))"

subsection \<open>The system: connections and events\<close>

record system =
  sys_broker :: broker
  sys_conns :: "(nat, jstr option) jmap"
  sys_issued :: "jstr list"

definition system_started :: "bool \<Rightarrow> system" where
  "system_started exitWhenIdle =
     \<lparr>sys_broker = broker_started exitWhenIdle, sys_conns = [], sys_issued = []\<rparr>"

text \<open>What the event loop can run next: a connection arrives, a complete message arrives on an open
  connection, an open connection closes, the idle timer fires, \<open>shutdown\<close> is called (a signal).
  \<open>randomUUID()\<close> returns an id that has not been given to a session before.\<close>

inductive broker_step :: "system \<Rightarrow> broker_effect list \<Rightarrow> system \<Rightarrow> bool" where
  step_accept:
    "br_listening (sys_broker sys) \<Longrightarrow> socket \<notin> set (jm_keys (sys_conns sys)) \<Longrightarrow>
     broker_step sys [] (sys\<lparr>sys_conns := jm_set socket None (sys_conns sys)\<rparr>)"
| step_message:
    "jm_get (sys_conns sys) socket = Some sid \<Longrightarrow> uuid \<notin> set (sys_issued sys) \<Longrightarrow>
     handleMessage (sys_broker sys) socket msg sid uuid now = (b', effs, sid') \<Longrightarrow>
     broker_step sys effs
       (sys\<lparr>sys_broker := b', sys_conns := jm_set socket sid' (sys_conns sys),
            sys_issued := (if is_register msg \<and> sid = None then uuid # sys_issued sys
                           else sys_issued sys)\<rparr>)"
| step_close:
    "jm_get (sys_conns sys) socket = Some sid \<Longrightarrow>
     handleClose (sys_broker sys) sid = (b', effs) \<Longrightarrow>
     broker_step sys effs
       (sys\<lparr>sys_broker := b', sys_conns := jm_delete socket (sys_conns sys)\<rparr>)"
| step_idle:
    "br_shutdownTimer (sys_broker sys) \<Longrightarrow> idle_check (sys_broker sys) = (b', effs) \<Longrightarrow>
     broker_step sys effs (sys\<lparr>sys_broker := b'\<rparr>)"
| step_shutdown:
    "shutdown (sys_broker sys) = (b', effs) \<Longrightarrow>
     broker_step sys effs (sys\<lparr>sys_broker := b'\<rparr>)"

inductive broker_reachable :: "system \<Rightarrow> bool" where
  reach_start: "broker_reachable (system_started exitWhenIdle)"
| reach_step: "broker_reachable sys \<Longrightarrow> broker_step sys effs sys' \<Longrightarrow> broker_reachable sys'"

inductive_cases broker_stepE: "broker_step sys effs sys'"

text \<open>The invariant.  Sessions belong to open connections; every room member does too; while the
  server listens, every registered connection has its session; and once somebody has registered,
  an empty broker has its idle check armed.\<close>

definition conn_of :: "(nat, jstr option) jmap \<Rightarrow> jstr \<Rightarrow> nat \<Rightarrow> bool" where
  "conn_of conns sid socket \<longleftrightarrow> jm_get conns socket = Some (Some sid)"

definition broker_inv :: "broker \<Rightarrow> (jstr \<Rightarrow> nat \<Rightarrow> bool) \<Rightarrow> jstr list \<Rightarrow> bool" where
  "broker_inv b conn issued \<longleftrightarrow>
     store_inv (br_store b) \<and>
     jm_wf (br_sessions b) \<and>
     (\<forall>sid se. jm_get (br_sessions b) sid = Some se \<longrightarrow> se_id se = sid \<and> conn sid (se_socket se)) \<and>
     (\<forall>sid k. conn sid k \<longrightarrow> sid \<in> set issued) \<and>
     (\<forall>sid k k'. conn sid k \<longrightarrow> conn sid k' \<longrightarrow> k = k') \<and>
     (\<forall>room sid. member_of (br_store b) room sid \<longrightarrow> (\<exists>k. conn sid k)) \<and>
     (br_listening b \<longrightarrow> (\<forall>sid k. conn sid k \<longrightarrow> jm_get (br_sessions b) sid \<noteq> None)) \<and>
     (br_listening b \<longrightarrow> br_sessions b = [] \<longrightarrow> issued \<noteq> [] \<longrightarrow> br_shutdownTimer b)"

definition sys_inv :: "system \<Rightarrow> bool" where
  "sys_inv sys \<longleftrightarrow> broker_inv (sys_broker sys) (conn_of (sys_conns sys)) (sys_issued sys)"

lemma conn_of_set:
  "conn_of (jm_set socket sid conns) = (\<lambda>j k. if k = socket then sid = Some j else conn_of conns j k)"
  by (intro ext) (auto simp: conn_of_def)

lemma conn_of_delete: "conn_of (jm_delete socket conns) = (\<lambda>j k. conn_of conns j k \<and> k \<noteq> socket)"
  by (intro ext) (auto simp: conn_of_def)

lemma conn_of_same: "jm_get conns socket = Some sid \<Longrightarrow> conn_of (jm_set socket sid conns) = conn_of conns"
  unfolding conn_of_set by (intro ext) (auto simp: conn_of_def)

lemma conn_of_Nil: "conn_of [] = (\<lambda>j k. False)"
  by (intro ext) (simp add: conn_of_def)

lemma broker_invD:
  assumes "broker_inv b conn issued"
  shows "store_inv (br_store b)" and "jm_wf (br_sessions b)"
    and "jm_get (br_sessions b) sid = Some se \<Longrightarrow> se_id se = sid \<and> conn sid (se_socket se)"
    and "conn sid k \<Longrightarrow> sid \<in> set issued"
    and "conn sid k \<Longrightarrow> conn sid k' \<Longrightarrow> k = k'"
    and "member_of (br_store b) room sid \<Longrightarrow> \<exists>k. conn sid k"
    and "br_listening b \<Longrightarrow> conn sid k \<Longrightarrow> \<exists>se. jm_get (br_sessions b) sid = Some se"
    and "br_listening b \<Longrightarrow> br_sessions b = [] \<Longrightarrow> issued \<noteq> [] \<Longrightarrow> br_shutdownTimer b"
  using assms unfolding broker_inv_def by blast+

lemma broker_invI:
  assumes "store_inv (br_store b)" and "jm_wf (br_sessions b)"
    and "\<And>sid se. jm_get (br_sessions b) sid = Some se \<Longrightarrow> se_id se = sid \<and> conn sid (se_socket se)"
    and "\<And>sid k. conn sid k \<Longrightarrow> sid \<in> set issued"
    and "\<And>sid k k'. conn sid k \<Longrightarrow> conn sid k' \<Longrightarrow> k = k'"
    and "\<And>room sid. member_of (br_store b) room sid \<Longrightarrow> \<exists>k. conn sid k"
    and "\<And>sid k. br_listening b \<Longrightarrow> conn sid k \<Longrightarrow> jm_get (br_sessions b) sid \<noteq> None"
    and "br_listening b \<Longrightarrow> br_sessions b = [] \<Longrightarrow> issued \<noteq> [] \<Longrightarrow> br_shutdownTimer b"
  shows "broker_inv b conn issued"
  unfolding broker_inv_def using assms by blast

lemma member_of_init: "\<not> member_of (store_init c) room sid"
  by (simp add: member_of_room store_init_def)

lemma sys_inv_start: "sys_inv (system_started e)"
  unfolding sys_inv_def system_started_def system.simps conn_of_Nil
  by (rule broker_invI) (simp_all add: broker_started_def store_inv_init member_of_init)

subsubsection \<open>What a request changes\<close>

text \<open>A request of a registered session changes the store only, keeps its invariant, and adds no
  member but the session itself.\<close>

lemma handle_request_store:
  assumes "handle_request b socket msg sid se uuid now = Inr (b', effs)" and "store_inv (br_store b)"
  shows "\<exists>s. b' = b\<lparr>br_store := s\<rparr> \<and> store_inv s \<and>
    (\<forall>room j. member_of s room j \<longrightarrow> member_of (br_store b) room j \<or> j = sid)"
proof -
  have same: "b = b\<lparr>br_store := br_store b\<rparr>" by simp
  show ?thesis
  proof (cases msg)
    case (CM_Join req room topic)
    let ?j = "join (br_store b) room \<lparr>from_sessionId = sid, from_name = se_name se\<rparr> topic now"
    have "b' = b\<lparr>br_store := fst ?j\<rparr>"
      using assms(1) CM_Join by (auto simp: handle_request_def Let_def split: prod.splits)
    then show ?thesis using assms(2) by (auto simp: join_inv member_of_join)
  next
    case (CM_Leave req room)
    then have "b' = b\<lparr>br_store := fst (leave (br_store b) room sid)\<rparr>"
      using assms(1) by (auto simp: handle_request_def Let_def)
    then show ?thesis using assms(2) by (auto simp: leave_inv member_of_leave)
  next
    case (CM_Post req room body replyTo)
    with assms show ?thesis
      by (auto simp: handle_request_def Let_def post_inv member_of_post split: sum.splits)
  next
    case (CM_SetCursor req room seq)
    with assms show ?thesis
      by (auto simp: handle_request_def setCursor_inv member_of_setCursor split: sum.splits)
  qed (use assms in \<open>auto simp: handle_request_def split: sum.splits intro: exI [where x = "br_store b"]\<close>)
qed

lemma handleMessage_cases:
  assumes "handleMessage b socket msg sid uuid now = (b', effs, sid')" and "store_inv (br_store b)"
  obtains (register) name pid cwd where "msg = CM_Register name pid cwd" "sid = None" "sid' = Some uuid"
      "b' = b\<lparr>br_sessions := jm_set uuid \<lparr>se_id = uuid, se_name = name, se_pid = pid, se_cwd = cwd,
                 se_socket = socket\<rparr> (br_sessions b)\<rparr>"
    | (store) s where "sid' = sid" "b' = b\<lparr>br_store := s\<rparr>" "store_inv s" "\<not> (is_register msg \<and> sid = None)"
      "\<forall>room j. member_of s room j \<longrightarrow> member_of (br_store b) room j \<or> sid = Some j"
proof (cases "is_register msg \<and> sid = None")
  case True
  with assms that(1) show ?thesis
    by (auto simp: handleMessage_def is_register_def split: client_message.splits)
next
  case False
  have keep: "thesis" if "sid' = sid" "b' = b"
    using that(1,2) assms(2) False by (intro store [of "br_store b"]) auto
  show ?thesis
  proof (cases "\<exists>i se e. sid = Some i \<and> jm_get (br_sessions b) i = Some se \<and> \<not> is_register msg
      \<and> handle_request b socket msg i se uuid now = Inr e")
    case True
    then obtain i se e where i: "sid = Some i" "jm_get (br_sessions b) i = Some se" "\<not> is_register msg"
      and e: "handle_request b socket msg i se uuid now = Inr e" by blast
    then have "sid' = sid" and eq: "e = (b', effs)"
      using assms(1) by (cases e; auto simp: handleMessage_def is_register_def split: client_message.splits)+
    from handle_request_store [OF e [unfolded eq] assms(2)] obtain s where
      "b' = b\<lparr>br_store := s\<rparr>" "store_inv s"
      "\<forall>room j. member_of s room j \<longrightarrow> member_of (br_store b) room j \<or> j = i" by blast
    with \<open>sid' = sid\<close> False i show ?thesis by (intro store [of s]) auto
  next
    case other: False
    with False assms(1) show ?thesis
      by (intro keep)
        (auto simp: handleMessage_def is_register_def split: client_message.splits option.splits sum.splits)
  qed
qed

subsubsection \<open>The invariant holds in every reachable state\<close>

lemma broker_inv_register:
  assumes inv: "broker_inv b conn issued" and new: "\<And>j. \<not> conn j socket" "uuid \<notin> set issued"
    and se: "se_id se = uuid" "se_socket se = socket"
  shows "broker_inv (b\<lparr>br_sessions := jm_set uuid se (br_sessions b)\<rparr>)
    (\<lambda>j k. if k = socket then Some uuid = Some j else conn j k) (uuid # issued)"
proof -
  note D = broker_invD [OF inv]
  have unused: "\<not> conn uuid k" for k using D(4) new(2) by blast
  have ne: "jm_set uuid se (br_sessions b) \<noteq> []" by (rule update_nonempty)
  show ?thesis
  proof (rule broker_invI)
    fix sid k k'
    assume "if k = socket then Some uuid = Some sid else conn sid k"
      and "if k' = socket then Some uuid = Some sid else conn sid k'"
    then show "k = k'" using D(5) unused by (auto split: if_splits)
  next
    fix room sid
    assume "member_of (br_store (b\<lparr>br_sessions := jm_set uuid se (br_sessions b)\<rparr>)) room sid"
    then obtain k where "conn sid k" using D(6) by auto
    with new(1) show "\<exists>k. if k = socket then Some uuid = Some sid else conn sid k" by metis
  next
    fix sid se'
    assume "jm_get (br_sessions (b\<lparr>br_sessions := jm_set uuid se (br_sessions b)\<rparr>)) sid = Some se'"
    then show "se_id se' = sid \<and>
        (if se_socket se' = socket then Some uuid = Some sid else conn sid (se_socket se'))"
      using D(3) [of sid se'] se new(1) by (auto split: if_splits)
  qed (use D(1,2,4) ne in \<open>auto dest: D(7) split: if_splits\<close>)
qed

lemma broker_inv_store:
  assumes "broker_inv b conn issued" and "store_inv s"
    and "\<And>room j. member_of s room j \<Longrightarrow> member_of (br_store b) room j \<or> (\<exists>k. conn j k)"
  shows "broker_inv (b\<lparr>br_store := s\<rparr>) conn issued"
  using broker_invD [OF assms(1)] assms(2,3) by (intro broker_invI) (simp_all, blast+)

lemma handleClose_None [simp]: "handleClose b None = (b, [])"
  by (simp add: handleClose_def)

lemma handleClose_Some:
  "fst (handleClose b (Some sid)) =
     b\<lparr>br_sessions := jm_delete sid (br_sessions b), br_store := fst (evictSession (br_store b) sid),
        br_shutdownTimer := True\<rparr>"
  by (simp add: handleClose_def scheduleShutdownCheck_def Let_def split: prod.splits)

lemma broker_inv_close:
  assumes inv: "broker_inv b conn issued" and sock: "\<And>j. conn j socket \<longleftrightarrow> sid = Some j"
  shows "broker_inv (fst (handleClose b sid)) (\<lambda>j k. conn j k \<and> k \<noteq> socket) issued"
proof (cases sid)
  case None
  then have "(\<lambda>j k. conn j k \<and> k \<noteq> socket) = conn" using sock by (intro ext) auto
  with inv show ?thesis by (simp add: None)
next
  case (Some i)
  note D = broker_invD [OF inv]
  have i: "conn i k \<Longrightarrow> k = socket" for k using D(5) sock Some by metis
  have ne: "conn j k \<Longrightarrow> j \<noteq> i \<Longrightarrow> k \<noteq> socket" for j k using sock [of j] Some by auto
  show ?thesis unfolding Some handleClose_Some
  proof (rule broker_invI)
    fix room j
    assume "member_of (br_store (b\<lparr>br_sessions := jm_delete i (br_sessions b),
      br_store := fst (evictSession (br_store b) i), br_shutdownTimer := True\<rparr>)) room j"
    then have "member_of (br_store b) room j" "j \<noteq> i" by (simp_all add: member_of_evictSession)
    with D(6) ne show "\<exists>k. conn j k \<and> k \<noteq> socket" by blast
  next
    fix j se
    assume "jm_get (br_sessions (b\<lparr>br_sessions := jm_delete i (br_sessions b),
      br_store := fst (evictSession (br_store b) i), br_shutdownTimer := True\<rparr>)) j = Some se"
    then have "jm_get (br_sessions b) j = Some se" "j \<noteq> i" by (simp_all split: if_splits)
    with D(3) ne show "se_id se = j \<and> conn j (se_socket se) \<and> se_socket se \<noteq> socket" by blast
  next
    fix j k assume "conn j k \<and> k \<noteq> socket"
      and "br_listening (b\<lparr>br_sessions := jm_delete i (br_sessions b),
        br_store := fst (evictSession (br_store b) i), br_shutdownTimer := True\<rparr>)"
    then show "jm_get (br_sessions (b\<lparr>br_sessions := jm_delete i (br_sessions b),
        br_store := fst (evictSession (br_store b) i), br_shutdownTimer := True\<rparr>)) j \<noteq> None"
      using D(7) [of j k] i by auto
  qed (use D(1,2,4,5) in \<open>auto simp: evictSession_inv\<close>)
qed

lemma broker_inv_shutdown: "broker_inv b conn issued \<Longrightarrow> broker_inv (fst (shutdown b)) conn issued"
  unfolding broker_inv_def by (simp add: shutdown_def)

lemma broker_inv_idle:
  assumes inv: "broker_inv b conn issued"
  shows "broker_inv (fst (idle_check b)) conn issued"
proof (cases "br_sessions b = []")
  case True
  then have "fst (idle_check b) = fst (shutdown b)"
    by (simp add: idle_check_def shutdown_def Let_def)
  with inv show ?thesis by (simp add: broker_inv_shutdown)
next
  case False
  with inv show ?thesis unfolding broker_inv_def by (simp add: idle_check_def Let_def)
qed

lemma broker_step_inv: "broker_step sys effs sys' \<Longrightarrow> sys_inv sys \<Longrightarrow> sys_inv sys'"
proof (induction rule: broker_step.induct)
  case (step_accept sys socket)
  have "jm_get (sys_conns sys) socket = None"
    using step_accept.hyps(2) by (simp add: map_of_eq_None_iff)
  then have "conn_of (jm_set socket None (sys_conns sys)) = conn_of (sys_conns sys)"
    unfolding conn_of_set by (intro ext) (auto simp: conn_of_def)
  with step_accept.prems show ?case by (simp add: sys_inv_def)
next
  case (step_message sys socket sid uuid msg now b' effs sid')
  have inv: "broker_inv (sys_broker sys) (conn_of (sys_conns sys)) (sys_issued sys)"
    using step_message.prems by (simp add: sys_inv_def)
  from step_message.hyps(3) broker_invD(1) [OF inv] show ?case
  proof (cases rule: handleMessage_cases)
    case (register name pid cwd)
    have "\<not> conn_of (sys_conns sys) j socket" for j
      using step_message.hyps(1) register(2) by (simp add: conn_of_def)
    from broker_inv_register [OF inv this step_message.hyps(2)] register show ?thesis
      by (simp add: sys_inv_def is_register_def conn_of_set)
  next
    case (store s)
    have "broker_inv (sys_broker sys\<lparr>br_store := s\<rparr>) (conn_of (sys_conns sys)) (sys_issued sys)"
      using inv store(3)
    proof (rule broker_inv_store)
      fix room j assume "member_of s room j"
      with store(5) have "member_of (br_store (sys_broker sys)) room j \<or> sid = Some j" by blast
      then show "member_of (br_store (sys_broker sys)) room j \<or> (\<exists>k. conn_of (sys_conns sys) j k)"
        using step_message.hyps(1) by (auto simp: conn_of_def)
    qed
    with store(1,2,4) step_message.hyps(1) show ?thesis
      by (auto simp: sys_inv_def conn_of_same)
  qed
next
  case (step_close sys socket sid b' effs)
  have "conn_of (sys_conns sys) j socket \<longleftrightarrow> sid = Some j" for j
    using step_close.hyps(1) by (simp add: conn_of_def)
  with broker_inv_close [of "sys_broker sys" "conn_of (sys_conns sys)" "sys_issued sys" socket sid] step_close
  show ?case by (simp add: sys_inv_def conn_of_delete)
next
  case (step_idle sys b' effs)
  with broker_inv_idle [of "sys_broker sys"] show ?case by (simp add: sys_inv_def)
next
  case (step_shutdown sys b' effs)
  with broker_inv_shutdown [of "sys_broker sys"] show ?case by (simp add: sys_inv_def)
qed

lemma reachable_inv: "broker_reachable sys \<Longrightarrow> sys_inv sys"
  by (induction rule: broker_reachable.induct) (auto simp: sys_inv_start intro: broker_step_inv)

subsection \<open>What is sent to whom\<close>

text \<open>Only metadata is pushed: an \<open>activity\<close> message has the room's name, the author's name and
  a number, never a body.\<close>

definition is_activity :: "broker_message \<Rightarrow> bool" where
  "is_activity m = (case m of BM_Activity _ _ _ \<Rightarrow> True | _ \<Rightarrow> False)"

fun reply_request_id :: "broker_message \<Rightarrow> jstr option" where
  "reply_request_id (BM_Rooms r _) = Some r"
| "reply_request_id (BM_Joined r _ _) = Some r"
| "reply_request_id (BM_Left r _) = Some r"
| "reply_request_id (BM_Posted r _) = Some r"
| "reply_request_id (BM_Messages r _ _ _ _) = Some r"
| "reply_request_id (BM_CursorSet r _ _) = Some r"
| "reply_request_id (BM_Error r _) = r"
| "reply_request_id _ = None"

definition only_pushes :: "broker_effect list \<Rightarrow> bool" where
  "only_pushes effs \<longleftrightarrow> list_all (\<lambda>e. case e of Send _ m \<Rightarrow> is_activity m | _ \<Rightarrow> False) effs"

lemma only_pushes_notifyRoom: "is_activity m \<Longrightarrow> only_pushes (notifyRoom b room m except)"
  by (auto simp: only_pushes_def notifyRoom_def list_all_iff split: option.splits if_splits)

lemma notifyRoom_activity [simp]: "only_pushes (notifyRoom b room (BM_Activity r f q) except)"
  by (rule only_pushes_notifyRoom) (simp add: is_activity_def)

text \<open>A request that succeeds is one reply with its id, then pushes.\<close>

lemma handle_request_reply:
  assumes "handle_request b socket msg sid se uuid now = Inr (b', effs)" and "\<not> is_register msg"
  shows "\<exists>reply pushes. effs = Send socket reply # pushes \<and>
    reply_request_id reply = request_id msg \<and> only_pushes pushes"
  using assms
  by (cases msg)
    (auto simp: handle_request_def Let_def is_register_def only_pushes_def [of "[]"] split: sum.splits prod.splits)

lemma notifyRoom_members:
  assumes "\<And>i. i \<in> set (memberSessionIds (br_store b) room) \<Longrightarrow> jm_get (br_sessions b) i \<noteq> None"
  shows "notifyRoom b room m except =
    map (\<lambda>i. Send (se_socket (the (jm_get (br_sessions b) i))) m)
      (filter (\<lambda>i. i \<noteq> except) (memberSessionIds (br_store b) room))"
proof -
  have "concat (map (\<lambda>i. if i = except then [] else
      (case jm_get (br_sessions b) i of None \<Rightarrow> [] | Some se \<Rightarrow> [Send (se_socket se) m])) is) =
    map (\<lambda>i. Send (se_socket (the (jm_get (br_sessions b) i))) m) (filter (\<lambda>i. i \<noteq> except) is)"
    if "\<And>i. i \<in> set is \<Longrightarrow> jm_get (br_sessions b) i \<noteq> None" for "is"
    using that
  proof (induction "is")
    case (Cons i "is")
    from Cons.prems [of i] obtain se where "jm_get (br_sessions b) i = Some se" by auto
    with Cons show ?case by simp
  qed simp
  with assms show ?thesis by (simp add: notifyRoom_def)
qed

text \<open>A small run, for the witnesses: two peers connect, register and join; the first posts.\<close>

definition demo_messages :: "(nat \<times> client_message \<times> jstr) list" where
  "demo_messages =
     [(1, CM_Register (js ''ann'') 1 [], js ''s1''), (2, CM_Register (js ''bob'') 2 [], js ''s2''),
      (1, CM_Join (js ''q1'') (js ''r'') None, js ''u3''), (2, CM_Join (js ''q2'') (js ''r'') None, js ''u4'')]"

definition demo_conns :: "system" where
  "demo_conns = (system_started True)\<lparr>sys_conns := [(1, None), (2, None)]\<rparr>"

fun demo_step :: "system \<Rightarrow> nat \<times> client_message \<times> jstr \<Rightarrow> system" where
  "demo_step sys (k, msg, uuid) =
     (let sid = the (jm_get (sys_conns sys) k);
          (b', effs, sid') = handleMessage (sys_broker sys) k msg sid uuid 0
      in sys\<lparr>sys_broker := b', sys_conns := jm_set k sid' (sys_conns sys),
             sys_issued := (if is_register msg \<and> sid = None then uuid # sys_issued sys
                            else sys_issued sys)\<rparr>)"

definition demo_system :: system where
  "demo_system = foldl demo_step demo_conns demo_messages"

lemma demo_step_reachable:
  assumes "broker_reachable sys" and "jm_get (sys_conns sys) k \<noteq> None" and "uuid \<notin> set (sys_issued sys)"
  shows "broker_reachable (demo_step sys (k, msg, uuid))"
proof -
  obtain sid where "jm_get (sys_conns sys) k = Some sid" using assms(2) by blast
  moreover obtain b' effs sid' where "handleMessage (sys_broker sys) k msg sid uuid 0 = (b', effs, sid')"
    by (metis prod_cases3)
  ultimately show ?thesis
    using reach_step [OF assms(1) step_message [OF _ assms(3)]] by simp
qed

lemma demo_conns_reachable: "broker_reachable demo_conns"
proof -
  let ?s = "(system_started True)\<lparr>sys_conns := [(1, None)]\<rparr>"
  have "broker_step (system_started True) [] ?s"
    using step_accept [of "system_started True" 1] by (simp add: system_started_def broker_started_def)
  moreover have "broker_step ?s [] demo_conns"
    using step_accept [of ?s 2] by (simp add: system_started_def broker_started_def demo_conns_def)
  ultimately show ?thesis by (meson reach_start reach_step)
qed

lemmas demo_unfold = demo_conns_def system_started_def broker_started_def handleMessage_def Let_def
  handle_request_def join_def is_register_def room_for_join_def put_room_def store_init_def

lemma demo_system_reachable: "broker_reachable demo_system"
  unfolding demo_system_def demo_messages_def foldl.simps
  by (intro demo_step_reachable demo_conns_reachable) (simp_all add: demo_unfold)

lemma demo_facts:
  "br_listening (sys_broker demo_system)"
  "jm_get (sys_conns demo_system) 1 = Some (Some (js ''s1''))"
  "jm_get (br_sessions (sys_broker demo_system)) (js ''s1'') =
     Some \<lparr>se_id = js ''s1'', se_name = js ''ann'', se_pid = 1, se_cwd = [], se_socket = 1\<rparr>"
  "memberSessionIds (br_store (sys_broker demo_system)) (js ''r'') = [js ''s1'', js ''s2'']"
  by (simp_all add: demo_system_def demo_messages_def demo_unfold memberSessionIds_def)

subsection \<open>Properties\<close>

text \<open>C31: no ghosts.  In every reachable state of a listening broker, every member of every room
  is the session of exactly one open connection, it is registered, and the broker answers it on
  that connection.  So a dead peer is neither listed nor keeps the broker alive.\<close>

theorem broker_members_are_connected:
  assumes "broker_reachable sys" and "br_listening (sys_broker sys)"
    and "member_of (br_store (sys_broker sys)) room sid"
  shows "\<exists>se. jm_get (br_sessions (sys_broker sys)) sid = Some se \<and> se_id se = sid \<and>
    (\<forall>socket. conn_of (sys_conns sys) sid socket \<longleftrightarrow> socket = se_socket se)"
proof -
  have inv: "broker_inv (sys_broker sys) (conn_of (sys_conns sys)) (sys_issued sys)"
    using reachable_inv [OF assms(1)] by (simp add: sys_inv_def)
  obtain k where k: "conn_of (sys_conns sys) sid k" using broker_invD(6) [OF inv assms(3)] by blast
  show ?thesis
    using broker_invD(7) [OF inv assms(2) k] broker_invD(3,5) [OF inv] by blast
qed

theorem broker_members_are_connected_witness:
  "\<exists>se. jm_get (br_sessions (sys_broker demo_system)) (js ''s1'') = Some se \<and> se_id se = js ''s1'' \<and>
    (\<forall>socket. conn_of (sys_conns demo_system) (js ''s1'') socket \<longleftrightarrow> socket = se_socket se)"
proof -
  have "br_listening (sys_broker demo_system)"
    "member_of (br_store (sys_broker demo_system)) (js ''r'') (js ''s1'')"
    by (simp_all add: member_of_def demo_facts)
  from broker_members_are_connected [OF demo_system_reachable this] show ?thesis .
qed

text \<open>only metadata crosses a session boundary unasked.  Whatever message arrives on a socket,
  in whatever state of the broker, everything that is written to any other socket is an
  \<open>activity\<close> ping (a room name, an author name, a number): no body of a message, no listing and no
  error ever reaches a peer that did not ask for it.\<close>

theorem broker_pushes_are_metadata:
  "{m. \<exists>k. k \<noteq> socket \<and> Send k m \<in> set (fst (snd (handleMessage b socket msg sid uuid now)))}
     \<subseteq> {m. is_activity m}
   \<and> {m. \<exists>k. Send k m \<in> set (snd (handleClose b sid))} \<subseteq> {m. is_activity m}"
proof -
  have push: "is_activity m" if "only_pushes effs" "Send k m \<in> set effs" for k m effs
    using that by (auto simp: only_pushes_def list_all_iff)
  have req: "is_activity m" if "handle_request b socket msg i se uuid now = Inr (b', effs)"
    "Send k m \<in> set effs" "k \<noteq> socket" "\<not> is_register msg" for b' effs k m i se
    using handle_request_reply [OF that(1,4)] that(2,3) push by auto
  have "is_activity m"
    if "Send k m \<in> set (fst (snd (handleMessage b socket msg sid uuid now)))" "k \<noteq> socket" for k m
    using that req
    by (cases msg) (auto simp: handleMessage_def is_register_def split: option.splits sum.splits)
  moreover have "is_activity m" if "Send k m \<in> set (snd (handleClose b sid))" for k m
    using that by (auto simp: handleClose_def Let_def split: option.splits prod.splits
        dest!: push [OF notifyRoom_activity])
  ultimately show ?thesis by blast
qed

text \<open>one reply per request.  For a registered session every request with an id (all but
  \<open>register\<close> and unknown types) is answered on its socket by exactly one message carrying that id,
  the error included, and everything else that is sent is an activity ping; the connection keeps
  its session.\<close>

theorem broker_replies_once:
  assumes "jm_get (br_sessions b) sid = Some se" and "request_id msg = Some r"
  shows "\<exists>b' reply pushes. handleMessage b socket msg (Some sid) uuid now
      = (b', Send socket reply # pushes, Some sid) \<and>
    reply_request_id reply = Some r \<and> only_pushes pushes"
proof -
  have reg: "\<not> is_register msg" using assms(2) by (cases msg) (auto simp: is_register_def)
  have eq: "handleMessage b socket msg (Some sid) uuid now =
    (case handle_request b socket msg sid se uuid now of
       Inr (b', effs) \<Rightarrow> (b', effs, Some sid)
     | Inl e \<Rightarrow> (b, [Send socket (BM_Error (request_id msg) (store_error_message e))], Some sid))"
    using reg assms(1) by (cases msg) (auto simp: handleMessage_def is_register_def)
  show ?thesis
  proof (cases "handle_request b socket msg sid se uuid now")
    case (Inl e)
    then show ?thesis using eq assms(2) by (simp add: only_pushes_def)
  next
    case (Inr r')
    then obtain b' effs where "handle_request b socket msg sid se uuid now = Inr (b', effs)"
      by (cases r') auto
    with handle_request_reply [OF this reg] eq assms(2) show ?thesis by auto
  qed
qed

theorem broker_replies_once_witness:
  "\<exists>b' reply pushes. handleMessage (sys_broker demo_system) 1 (CM_Leave (js ''q'') (js ''r''))
      (Some (js ''s1'')) [] 0 = (b', Send 1 reply # pushes, Some (js ''s1'')) \<and>
    reply_request_id reply = Some (js ''q'') \<and> only_pushes pushes"
  by (rule broker_replies_once) (simp_all add: demo_facts)

text \<open>a post reaches every other member, once, and nobody else.  In every reachable state of a
  listening broker an accepted post is answered to its author, and then one activity ping with the
  message's number goes to the connection of each other member of the room, in the order they
  joined; the pinged connections are distinct and none is the author's.\<close>

theorem broker_post_notifies_members:
  assumes "broker_reachable sys" and "br_listening (sys_broker sys)"
    and "jm_get (sys_conns sys) socket = Some (Some sid)"
    and "handleMessage (sys_broker sys) socket (CM_Post req room body replyTo) (Some sid) uuid now
      = (b', Send socket (BM_Posted req m) # pushes, Some sid)"
  shows "\<exists>peers. map se_id peers = filter (\<lambda>i. i \<noteq> sid) (memberSessionIds (br_store (sys_broker sys)) room) \<and>
    pushes = map (\<lambda>p. Send (se_socket p) (BM_Activity room (from_name (rm_from m)) (rm_seq m))) peers \<and>
    distinct (socket # map se_socket peers) \<and> set peers \<subseteq> set (jm_values (br_sessions (sys_broker sys)))"
proof -
  let ?b = "sys_broker sys"
  have inv: "broker_inv ?b (conn_of (sys_conns sys)) (sys_issued sys)"
    using reachable_inv [OF assms(1)] by (simp add: sys_inv_def)
  note D = broker_invD [OF inv]
  define ids where "ids = filter (\<lambda>i. i \<noteq> sid) (memberSessionIds (br_store ?b) room)"
  define peer where "peer i = the (jm_get (br_sessions ?b) i)" for i
  obtain se s where se: "jm_get (br_sessions ?b) sid = Some se"
    and post: "post (br_store ?b) room \<lparr>from_sessionId = sid, from_name = se_name se\<rparr> body replyTo uuid now = Inr (s, m)"
    and pushes: "pushes = notifyRoom (?b\<lparr>br_store := s\<rparr>) room (BM_Activity room (se_name se) (rm_seq m)) sid"
    using assms(4) by (auto simp: handleMessage_def handle_request_def Let_def split: option.splits sum.splits)
  have name: "from_name (rm_from m) = se_name se"
    using post by (auto simp: post_def Let_def split: option.splits if_splits)
  have mem: "set (memberSessionIds s room) = set (memberSessionIds (br_store ?b) room)"
    using member_of_post [OF post] by (auto simp: member_of_def)
  have same: "memberSessionIds s room = memberSessionIds (br_store ?b) room"
    using post by (auto simp: post_def memberSessionIds_def post_room_def Let_def split: option.splits if_splits)
  have reg: "\<exists>p. jm_get (br_sessions ?b) i = Some p" if "i \<in> set (memberSessionIds (br_store ?b) room)" for i
    using D(6) [of room i] D(7) [OF assms(2)] that by (auto simp: member_of_def)
  have peer: "jm_get (br_sessions ?b) i = Some (peer i)" if "i \<in> set ids" for i
    using reg [of i] that by (auto simp: peer_def ids_def)
  then have id: "se_id (peer i) = i" "conn_of (sys_conns sys) i (se_socket (peer i))" if "i \<in> set ids" for i
    using D(3) that by blast+
  have "distinct ids"
  proof (cases "jm_get (rs_rooms (br_store ?b)) room")
    case (Some st)
    then show ?thesis using store_inv_room [OF D(1) Some]
      by (simp add: ids_def memberSessionIds_def room_inv_def)
  qed (simp add: ids_def memberSessionIds_def)
  moreover have "inj_on (\<lambda>i. se_socket (peer i)) (set ids)"
    using id(2) by (intro inj_onI) (metis conn_of_def option.inject)
  ultimately have "distinct (map se_socket (map peer ids))" by (simp add: distinct_map comp_def)
  moreover have "socket \<notin> se_socket ` peer ` set ids"
    using id(2) assms(3) by (fastforce simp: conn_of_def ids_def)
  moreover have "pushes = map (\<lambda>p. Send (se_socket p) (BM_Activity room (from_name (rm_from m)) (rm_seq m))) (map peer ids)"
    unfolding pushes name
    by (subst notifyRoom_members) (use reg in \<open>auto simp: same ids_def peer_def\<close>)
  moreover have "map se_id (map peer ids) = ids" by (simp add: id(1) map_idI)
  moreover have "set (map peer ids) \<subseteq> set (jm_values (br_sessions ?b))"
    using peer by (force dest: map_of_SomeD)
  ultimately show ?thesis
    unfolding ids_def [symmetric] by (intro exI [of _ "map peer ids"]) (simp add: image_image)
qed

theorem broker_post_notifies_members_witness:
  "\<exists>m pushes (peers :: session list) b'. handleMessage (sys_broker demo_system) 1
      (CM_Post (js ''q'') (js ''r'') (js ''hello'') None) (Some (js ''s1'')) (js ''u'') 0
      = (b', Send 1 (BM_Posted (js ''q'') m) # pushes, Some (js ''s1'')) \<and>
    map se_id peers = [js ''s2''] \<and> length pushes = 1"
proof -
  let ?h = "handleMessage (sys_broker demo_system) 1
      (CM_Post (js ''q'') (js ''r'') (js ''hello'') None) (Some (js ''s1'')) (js ''u'') 0"
  have "member_of (br_store (sys_broker demo_system)) (js ''r'') (js ''s1'')"
    by (simp add: member_of_def demo_facts)
  then obtain b' m pushes where h: "?h = (b', Send 1 (BM_Posted (js ''q'') m) # pushes, Some (js ''s1''))"
    by (auto simp: member_of_room handleMessage_def handle_request_def demo_facts post_def Let_def)
  from broker_post_notifies_members [OF demo_system_reachable demo_facts(1,2) this]
  obtain peers :: "session list" where p: "map se_id peers = filter (\<lambda>i. i \<noteq> js ''s1'')
      (memberSessionIds (br_store (sys_broker demo_system)) (js ''r''))"
    and q: "pushes = map (\<lambda>p. Send (se_socket p)
      (BM_Activity (js ''r'') (from_name (rm_from m)) (rm_seq m))) peers"
    by blast
  have ids: "map se_id peers = [js ''s2'']" using p by (simp add: demo_facts)
  have "length pushes = length (map se_id peers)" by (simp add: q)
  then have "length pushes = 1" by (simp add: ids)
  with h ids show ?thesis by (intro exI conjI)
qed

text \<open>\<open>shutdown\<close> does not end the idle check for good.  It clears the timer and destroys the
  sockets, but the close event of each destroyed, registered socket runs the close handler on the
  closed broker and arms the timer again; when it fires, the broker shuts down a second time and,
  if it owns its process, exits.\<close>

theorem shutdown_then_close_rearms_timer:
  "\<not> br_shutdownTimer (fst (shutdown b)) \<and>
   br_shutdownTimer (fst (handleClose (fst (shutdown b)) (Some sid))) \<and>
   (ProcessExit \<in> set (snd (idle_check (fst (handleClose (fst (shutdown b)) (Some sid)))))
      \<longleftrightarrow> br_exitWhenIdle b)"
  by (auto simp: handleClose_Some shutdown_def idle_check_def Let_def)

end
