(* ===== verification/Client.thy ===== *)
theory Client
  imports Broker
begin

text \<open>
  The roundtable client (\<open>packages/roundtable/broker/client.ts\<close>): registration, the table of
  pending requests, timeouts, and the failure of everything pending when the connection ends.

  The promises of the source are settled by effects: \<open>Resolve\<close> and \<open>Reject\<close> for a request,
  \<open>RegResolve\<close> and \<open>RegReject\<close> for the registration.  A request's timer is set when it enters
  \<open>pending\<close> and cleared whenever it leaves, so the timer of a request can fire exactly while it
  is pending.  The event handlers of a socket refer to \<open>this.socket\<close>, not to the socket they were
  installed on; the model keeps that.
\<close>

datatype reply_type = RT_Rooms | RT_Joined | RT_Left | RT_Posted | RT_Messages | RT_CursorSet
  | RT_Registered | RT_Activity | RT_Error

fun type_of :: "broker_message \<Rightarrow> reply_type" where
  "type_of (BM_Registered _) = RT_Registered"
| "type_of (BM_Rooms _ _) = RT_Rooms"
| "type_of (BM_Joined _ _ _) = RT_Joined"
| "type_of (BM_Left _ _) = RT_Left"
| "type_of (BM_Posted _ _) = RT_Posted"
| "type_of (BM_Messages _ _ _ _ _) = RT_Messages"
| "type_of (BM_CursorSet _ _ _) = RT_CursorSet"
| "type_of (BM_Activity _ _ _) = RT_Activity"
| "type_of (BM_Error _ _) = RT_Error"

datatype client_error =
    RequestTimedOut
  | ConnectionClosed
  | SocketError jstr
  | NotConnected
  | UnexpectedResponse reply_type
  | BrokerError jstr
  | RegistrationTimedOut
  | ReaderError jstr

datatype client_effect =
    Resolve jstr broker_message
  | Reject jstr client_error
  | Listener jstr jstr int
  | Write client_message
  | RegResolve
  | RegReject client_error
  | DestroySocket nat

record client =
  cl_socket :: "nat option"
  cl_sessionId :: "jstr option"
  cl_pending :: "(jstr, reply_type) jmap"
  cl_regTimer :: bool

definition client_init :: client where
  "client_init = \<lparr>cl_socket = None, cl_sessionId = None, cl_pending = [], cl_regTimer = False\<rparr>"

definition connected :: "client \<Rightarrow> bool" where
  "connected c \<longleftrightarrow> cl_socket c \<noteq> None \<and> cl_sessionId c \<noteq> None"

definition failAllPending :: "client \<Rightarrow> client_error \<Rightarrow> client \<times> client_effect list" where
  "failAllPending c e = (c\<lparr>cl_pending := []\<rparr>, map (\<lambda>i. Reject i e) (jm_keys (cl_pending c)))"

definition settle :: "jstr \<Rightarrow> reply_type \<Rightarrow> broker_message \<Rightarrow> client_effect" where
  "settle requestId expected msg =
     (case msg of
        BM_Error _ err \<Rightarrow> Reject requestId (BrokerError err)
      | _ \<Rightarrow> (if type_of msg = expected then Resolve requestId msg
              else Reject requestId (UnexpectedResponse (type_of msg))))"

definition dispatch :: "client \<Rightarrow> broker_message \<Rightarrow> client \<times> client_effect list" where
  "dispatch c msg =
     (case msg of
        BM_Activity room from seq \<Rightarrow> (c, [Listener room from seq])
      | _ \<Rightarrow>
          (case reply_request_id msg of
             None \<Rightarrow> (c, [])
           | Some requestId \<Rightarrow>
               (if requestId = [] then (c, [])
                else (case jm_get (cl_pending c) requestId of
                        None \<Rightarrow> (c, [])
                      | Some expected \<Rightarrow>
                          (c\<lparr>cl_pending := jm_delete requestId (cl_pending c)\<rparr>,
                           [settle requestId expected msg])))))"

text \<open>\<open>connect()\<close> up to the first \<open>await\<close>, and its continuation once the socket is open.\<close>

definition connect :: "client \<Rightarrow> nat \<Rightarrow> client" where
  "connect c socket =
     (if cl_socket c \<noteq> None then c else c\<lparr>cl_socket := Some socket, cl_regTimer := True\<rparr>)"

definition write_message :: "client \<Rightarrow> client_message \<Rightarrow> client_error + client_effect" where
  "write_message c msg = (if cl_socket c = None then Inl NotConnected else Inr (Write msg))"

definition on_socket_connect :: "client \<Rightarrow> client_message \<Rightarrow> client \<times> client_effect list" where
  "on_socket_connect c register =
     (c, case write_message c register of Inl e \<Rightarrow> [RegReject e] | Inr w \<Rightarrow> [w])"

definition on_message :: "client \<Rightarrow> broker_message \<Rightarrow> client \<times> client_effect list" where
  "on_message c msg =
     (case msg of
        BM_Registered sid \<Rightarrow>
          (if cl_sessionId c = None
           then (c\<lparr>cl_sessionId := Some sid, cl_regTimer := False\<rparr>, [RegResolve])
           else dispatch c msg)
      | _ \<Rightarrow> dispatch c msg)"

definition on_reader_error :: "client \<Rightarrow> nat \<Rightarrow> jstr \<Rightarrow> client \<times> client_effect list" where
  "on_reader_error c socket e =
     (c\<lparr>cl_regTimer := False\<rparr>, [RegReject (ReaderError e), DestroySocket socket])"

definition on_socket_error :: "client \<Rightarrow> jstr \<Rightarrow> client \<times> client_effect list" where
  "on_socket_error c e =
     (case failAllPending (c\<lparr>cl_regTimer := False\<rparr>) (SocketError e) of
        (c', effs) \<Rightarrow> (c', RegReject (SocketError e) # effs))"

definition on_socket_close :: "client \<Rightarrow> client \<times> client_effect list" where
  "on_socket_close c = failAllPending (c\<lparr>cl_socket := None, cl_sessionId := None\<rparr>) ConnectionClosed"

definition on_registration_timeout :: "client \<Rightarrow> nat \<Rightarrow> client \<times> client_effect list" where
  "on_registration_timeout c socket =
     (c\<lparr>cl_regTimer := False\<rparr>, [RegReject RegistrationTimedOut, DestroySocket socket])"

definition disconnect :: "client \<Rightarrow> client \<times> client_effect list" where
  "disconnect c =
     (c\<lparr>cl_socket := None, cl_sessionId := None\<rparr>,
      case cl_socket c of None \<Rightarrow> [] | Some k \<Rightarrow> [DestroySocket k])"

text \<open>\<open>request\<close>: register the resolver, then write; a throwing write takes it out again.\<close>

definition request :: "client \<Rightarrow> jstr \<Rightarrow> client_message \<Rightarrow> reply_type \<Rightarrow> client \<times> client_effect list" where
  "request c requestId msg expected =
     (let c' = c\<lparr>cl_pending := jm_set requestId expected (cl_pending c)\<rparr>
      in case write_message c' msg of
           Inr w \<Rightarrow> (c', [w])
         | Inl e \<Rightarrow> (c'\<lparr>cl_pending := jm_delete requestId (cl_pending c')\<rparr>, [Reject requestId e]))"

definition on_request_timeout :: "client \<Rightarrow> jstr \<Rightarrow> client \<times> client_effect list" where
  "on_request_timeout c requestId =
     (c\<lparr>cl_pending := jm_delete requestId (cl_pending c)\<rparr>, [Reject requestId RequestTimedOut])"

text \<open>The public methods: which message each one sends and which reply it expects.\<close>

datatype client_call =
    CallRooms
  | CallJoin jstr "jstr option"
  | CallLeave jstr
  | CallPost jstr jstr "jstr option"
  | CallFetch jstr int "int option"
  | CallSetCursor jstr int

fun call_message :: "client_call \<Rightarrow> jstr \<Rightarrow> client_message" where
  "call_message CallRooms r = CM_Rooms r"
| "call_message (CallJoin room topic) r = CM_Join r room topic"
| "call_message (CallLeave room) r = CM_Leave r room"
| "call_message (CallPost room body replyTo) r = CM_Post r room body replyTo"
| "call_message (CallFetch room afterSeq limit) r = CM_Fetch r room afterSeq limit"
| "call_message (CallSetCursor room seq) r = CM_SetCursor r room seq"

fun call_expects :: "client_call \<Rightarrow> reply_type" where
  "call_expects CallRooms = RT_Rooms"
| "call_expects (CallJoin _ _) = RT_Joined"
| "call_expects (CallLeave _) = RT_Left"
| "call_expects (CallPost _ _ _) = RT_Posted"
| "call_expects (CallFetch _ _ _) = RT_Messages"
| "call_expects (CallSetCursor _ _) = RT_CursorSet"

subsection \<open>Runs\<close>

datatype client_event =
    EvConnect nat
  | EvOpen client_message
  | EvMessage broker_message
  | EvReaderError nat jstr
  | EvSocketError jstr
  | EvClose
  | EvRegistrationTimeout nat
  | EvDisconnect
  | EvCall jstr client_call
  | EvRequestTimeout jstr

text \<open>A timer that is not set cannot fire: such an event does nothing.\<close>

fun client_step :: "client \<Rightarrow> client_event \<Rightarrow> client \<times> client_effect list" where
  "client_step c (EvConnect k) = (connect c k, [])"
| "client_step c (EvOpen m) = on_socket_connect c m"
| "client_step c (EvMessage m) = on_message c m"
| "client_step c (EvReaderError k e) = on_reader_error c k e"
| "client_step c (EvSocketError e) = on_socket_error c e"
| "client_step c EvClose = on_socket_close c"
| "client_step c (EvRegistrationTimeout k) =
     (if cl_regTimer c then on_registration_timeout c k else (c, []))"
| "client_step c EvDisconnect = disconnect c"
| "client_step c (EvCall r call) = request c r (call_message call r) (call_expects call)"
| "client_step c (EvRequestTimeout r) =
     (if jm_get (cl_pending c) r = None then (c, []) else on_request_timeout c r)"

fun client_run :: "client \<Rightarrow> client_event list \<Rightarrow> client \<times> client_effect list" where
  "client_run c [] = (c, [])"
| "client_run c (e # es) =
     (case client_step c e of (c', effs) \<Rightarrow>
        (case client_run c' es of (c'', effs') \<Rightarrow> (c'', effs @ effs')))"

subsection \<open>Every request is settled once\<close>

fun called :: "client_event list \<Rightarrow> jstr list" where
  "called [] = []"
| "called (EvCall r call # es) = r # called es"
| "called (_ # es) = called es"

fun settled_id :: "client_effect \<Rightarrow> jstr list" where
  "settled_id (Resolve r _) = [r]"
| "settled_id (Reject r _) = [r]"
| "settled_id _ = []"

definition settled :: "client_effect list \<Rightarrow> jstr list" where
  "settled effs = concat (map settled_id effs)"

lemma settled_simps [simp]:
  "settled [] = []"
  "settled (e # es) = settled_id e @ settled es"
  "settled (xs @ ys) = settled xs @ settled ys"
  by (simp_all add: settled_def)

lemma settled_Reject [simp]: "settled (map (\<lambda>i. Reject i e) xs) = xs"
  by (induction xs) simp_all

lemma settled_Reject_fst [simp]: "settled (map ((\<lambda>i. Reject i e) \<circ> fst) xs) = map fst xs"
  by (induction xs) simp_all

lemma settled_settle [simp]: "settled_id (settle r t m) = [r]"
  by (cases m) (auto simp: settle_def)

text \<open>One step: what is settled leaves \<open>pending\<close>, what is called enters it or is settled.\<close>

definition step_account :: "client \<Rightarrow> client_event \<Rightarrow> bool" where
  "step_account c e \<longleftrightarrow>
     (case client_step c e of (c', effs) \<Rightarrow>
        jm_wf (cl_pending c') \<and>
        distinct (settled effs) \<and>
        set (settled effs) \<inter> set (jm_keys (cl_pending c')) = {} \<and>
        set (settled effs) \<union> set (jm_keys (cl_pending c'))
          = set (jm_keys (cl_pending c)) \<union> set (called [e]))"

lemma dispatch_account:
  assumes "jm_wf (cl_pending c)"
  shows "case dispatch c m of (c', effs) \<Rightarrow>
    jm_wf (cl_pending c') \<and> distinct (settled effs) \<and>
    set (settled effs) \<inter> set (jm_keys (cl_pending c')) = {} \<and>
    set (settled effs) \<union> set (jm_keys (cl_pending c')) = set (jm_keys (cl_pending c))"
proof (cases "\<exists>r t. reply_request_id m = Some r \<and> r \<noteq> [] \<and> jm_get (cl_pending c) r = Some t")
  case True
  then obtain r t where r: "reply_request_id m = Some r" "r \<noteq> []" "jm_get (cl_pending c) r = Some t"
    by blast
  then have "dispatch c m = (c\<lparr>cl_pending := jm_delete r (cl_pending c)\<rparr>, [settle r t m])"
    by (cases m) (auto simp: dispatch_def)
  moreover have "r \<in> set (jm_keys (cl_pending c))"
    using r(3) by (metis domI dom_map_of_conv_image_fst list.set_map)
  ultimately show ?thesis
    using assms jm_keys_delete [of r "cl_pending c"] by (simp add: insert_absorb)
next
  case False
  then have "fst (dispatch c m) = c" "settled (snd (dispatch c m)) = []"
    by (cases m; auto simp: dispatch_def split: option.splits)+
  then show ?thesis using assms by (cases "dispatch c m") simp
qed

lemma step_account:
  assumes "jm_wf (cl_pending c)" and "set (called [e]) \<inter> set (jm_keys (cl_pending c)) = {}"
  shows "step_account c e"
proof (cases e)
  case (EvMessage m)
  have "step_account c e \<longleftrightarrow> (case dispatch c m of (c', effs) \<Rightarrow>
    jm_wf (cl_pending c') \<and> distinct (settled effs) \<and>
    set (settled effs) \<inter> set (jm_keys (cl_pending c')) = {} \<and>
    set (settled effs) \<union> set (jm_keys (cl_pending c')) = set (jm_keys (cl_pending c)))"
    if "(\<forall>sid. m \<noteq> BM_Registered sid) \<or> cl_sessionId c \<noteq> None"
    using that EvMessage by (cases m) (auto simp: step_account_def on_message_def)
  moreover have "step_account c e" if "m = BM_Registered sid" "cl_sessionId c = None" for sid
    using that assms(1) EvMessage by (simp add: step_account_def on_message_def)
  ultimately show ?thesis using dispatch_account [OF assms(1), of m] by blast
next
  case (EvCall r call)
  then have "r \<notin> set (jm_keys (cl_pending c))" using assms(2) by simp
  then have fresh: "jm_set r x (cl_pending c) = cl_pending c @ [(r, x)]" for x
    by (rule jm_set_fresh)
  have undone: "jm_delete r (cl_pending c @ [(r, x)]) = cl_pending c" for x
    using \<open>r \<notin> set (jm_keys (cl_pending c))\<close> by (simp only: jm_delete_append jm_delete_fresh) simp
  show ?thesis
    using EvCall assms(1) \<open>r \<notin> set (jm_keys (cl_pending c))\<close>
    by (auto simp: step_account_def request_def write_message_def Let_def fresh undone)
next
  case (EvRequestTimeout r)
  then show ?thesis
    using assms(1) jm_keys_delete [of r "cl_pending c"]
    by (auto simp: step_account_def on_request_timeout_def map_of_eq_None_iff insert_absorb)
qed (use assms(1) in \<open>auto simp: step_account_def connect_def on_socket_connect_def write_message_def
      on_reader_error_def on_socket_error_def on_socket_close_def failAllPending_def
      on_registration_timeout_def disconnect_def split: option.splits\<close>)

lemma client_run_account:
  assumes "jm_wf (cl_pending c)" and "distinct (called es)"
    and "set (called es) \<inter> set (jm_keys (cl_pending c)) = {}"
    and "client_run c es = (c', effs)"
  shows "jm_wf (cl_pending c') \<and> distinct (settled effs) \<and>
    set (settled effs) \<inter> set (jm_keys (cl_pending c')) = {} \<and>
    set (settled effs) \<union> set (jm_keys (cl_pending c')) = set (jm_keys (cl_pending c)) \<union> set (called es)"
  using assms
proof (induction es arbitrary: c effs)
  case (Cons e es)
  obtain c1 effs1 where s1: "client_step c e = (c1, effs1)" by (cases "client_step c e")
  obtain effs2 where s2: "client_run c1 es = (c', effs2)" and effs: "effs = effs1 @ effs2"
    using Cons.prems(4) s1 by (auto split: prod.splits)
  have called: "set (called (e # es)) = set (called [e]) \<union> set (called es)"
    "distinct (called (e # es)) \<longleftrightarrow> distinct (called es) \<and> set (called [e]) \<inter> set (called es) = {}"
    by (cases e; auto)+
  have "step_account c e"
    using Cons.prems(1,3) called(1) by (intro step_account) auto
  then have step: "jm_wf (cl_pending c1)" "distinct (settled effs1)"
    "set (settled effs1) \<inter> set (jm_keys (cl_pending c1)) = {}"
    "set (settled effs1) \<union> set (jm_keys (cl_pending c1)) = set (jm_keys (cl_pending c)) \<union> set (called [e])"
    by (simp_all add: step_account_def s1)
  have fresh: "set (called es) \<inter> (set (settled effs1) \<union> set (jm_keys (cl_pending c1))) = {}"
    using Cons.prems(2,3) called unfolding step(4) by auto
  then have "set (called es) \<inter> set (jm_keys (cl_pending c1)) = {}" by blast
  from Cons.IH [OF step(1) _ this s2] Cons.prems(2) called(2)
  have rest: "jm_wf (cl_pending c')" "distinct (settled effs2)"
    "set (settled effs2) \<inter> set (jm_keys (cl_pending c')) = {}"
    "set (settled effs2) \<union> set (jm_keys (cl_pending c')) = set (jm_keys (cl_pending c1)) \<union> set (called es)"
    by auto
  show ?case
    using rest step fresh called(1) unfolding effs settled_simps set_append distinct_append by blast
qed simp

subsection \<open>Properties\<close>

text \<open>no request is lost or answered twice.  In every run of the client whose request ids are
  fresh (\<open>randomUUID()\<close>), with messages, errors, timeouts, disconnects and reconnects in any order,
  each request that was made is either still pending or has been settled exactly once; and when
  the connection closes nothing is left pending.\<close>

theorem client_requests_settled_once:
  assumes "distinct (called es)"
  shows "case client_run client_init es of (c, effs) \<Rightarrow>
      distinct (settled effs) \<and>
      set (settled effs) \<inter> set (jm_keys (cl_pending c)) = {} \<and>
      set (settled effs) \<union> set (jm_keys (cl_pending c)) = set (called es) \<and>
      cl_pending (fst (client_step c EvClose)) = []"
proof -
  obtain c effs where run: "client_run client_init es = (c, effs)" by (cases "client_run client_init es")
  from client_run_account [OF _ assms _ this] show ?thesis
    by (simp add: run on_socket_close_def failAllPending_def) (simp add: client_init_def)
qed

theorem client_requests_settled_once_witness:
  "case client_run client_init [EvConnect 1, EvCall (js ''a'') CallRooms, EvCall (js ''b'') (CallLeave (js ''r'')),
      EvMessage (BM_Rooms (js ''a'') []), EvClose] of (c, effs) \<Rightarrow>
    set (settled effs) \<union> set (jm_keys (cl_pending c)) = {js ''a'', js ''b''}"
  using client_requests_settled_once [of "[EvConnect 1, EvCall (js ''a'') CallRooms,
      EvCall (js ''b'') (CallLeave (js ''r'')), EvMessage (BM_Rooms (js ''a'') []), EvClose]"]
  by (simp add: split_beta insert_commute del: client_run.simps client_step.simps)

text \<open>A close event of an old socket takes down the new connection.  \<open>disconnect()\<close> drops the
  socket and destroys it; if \<open>connect()\<close> runs before the old socket's close event is delivered, the
  close handler, which writes \<open>this.socket\<close>, clears the new socket: the client is not connected
  and the next call is rejected although the new socket is open.\<close>

theorem late_close_drops_new_connection:
  "case client_run client_init
      [EvConnect 1, EvMessage (BM_Registered s), EvDisconnect, EvConnect 2, EvMessage (BM_Registered s'),
       EvClose, EvCall r CallRooms]
   of (c, effs) \<Rightarrow> \<not> connected c \<and> DestroySocket 2 \<notin> set effs \<and> Reject r NotConnected \<in> set effs"
  by (simp add: client_init_def connect_def on_message_def disconnect_def on_socket_close_def
      failAllPending_def connected_def request_def write_message_def Let_def)

end
