(* ===== verification/Roundtable_Tool.thy ===== *)
theory Roundtable_Tool
  imports Digest Client
begin

text \<open>
  The agent-facing tool of the roundtable (\<open>packages/roundtable/roundtable-tool.ts\<close>,
  \<open>execute\<close>): rooms, join, leave, post, digest, peek, fetch, export.

  The tool talks to a client; \<open>te_call\<close> is one awaited client method on the state behind it, with
  \<open>Inl\<close> the message of the error it throws.  \<open>broker_call\<close> is that method on the broker of the
  model.  The file system (\<open>resolveExportTarget\<close>, \<open>writeFile\<close>) and the ISO timestamp format are
  further parameters; a written file is part of the result.
\<close>

datatype tool_action = ActRooms | ActJoin | ActLeave | ActPost | ActDigest | ActPeek | ActFetch | ActExport

fun action_name :: "tool_action \<Rightarrow> jstr" where
  "action_name ActRooms = js ''rooms''"
| "action_name ActJoin = js ''join''"
| "action_name ActLeave = js ''leave''"
| "action_name ActPost = js ''post''"
| "action_name ActDigest = js ''digest''"
| "action_name ActPeek = js ''peek''"
| "action_name ActFetch = js ''fetch''"
| "action_name ActExport = js ''export''"

record tool_params =
  tp_action :: tool_action
  tp_room :: "jstr option"
  tp_message :: "jstr option"
  tp_replyTo :: "jstr option"
  tp_topic :: "jstr option"
  tp_budget :: "int option"
  tp_path :: "jstr option"
  tp_perMessage :: "int option"
  tp_afterSeq :: "int option"
  tp_limit :: "int option"

datatype detail = DetailStr jstr | DetailInt int | DetailBool bool

record tool_result =
  tr_isError :: bool
  tr_text :: jstr
  tr_details :: "(string \<times> detail) list"

definition errorResult :: "jstr \<Rightarrow> tool_result" where
  "errorResult txt = \<lparr>tr_isError = True, tr_text = txt, tr_details = [(''error'', DetailBool True)]\<rparr>"

definition okResult :: "jstr \<Rightarrow> (string \<times> detail) list \<Rightarrow> tool_result" where
  "okResult txt details = \<lparr>tr_isError = False, tr_text = txt, tr_details = details\<rparr>"

record 's tool_env =
  te_ensureConnected :: "jstr option"
  te_currentRole :: "jstr option"
  te_writerRole :: jstr
  te_call :: "'s \<Rightarrow> client_call \<Rightarrow> 's \<times> (jstr + broker_message)"
  te_resolveExportTarget :: "jstr \<Rightarrow> jstr + jstr"
  te_writeFile :: "jstr \<Rightarrow> jstr \<Rightarrow> jstr option"
  te_localTime :: "int \<Rightarrow> nat \<times> nat"
  te_isoTime :: "int \<Rightarrow> jstr"

definition DEFAULT_FETCH_LIMIT :: int where "DEFAULT_FETCH_LIMIT = 20"
definition MAX_SAFE_INTEGER :: int where "MAX_SAFE_INTEGER = 9007199254740991"

text \<open>The body of the \<open>try\<close> block: the new state, the files written, and a thrown error or the result.\<close>

type_synonym 's tool_step = "'s \<times> (jstr \<times> jstr) list \<times> (jstr + tool_result)"

definition on_reply ::
  "'s \<times> (jstr + broker_message) \<Rightarrow> ('s \<Rightarrow> broker_message \<Rightarrow> 's tool_step) \<Rightarrow> 's tool_step" where
  "on_reply r k = (case r of (s, Inl e) \<Rightarrow> (s, [], Inl e) | (s, Inr m) \<Rightarrow> k s m)"

text \<open>A method of the client only resolves with the reply type it expects.\<close>

definition bad_reply :: "'s \<Rightarrow> 's tool_step" where
  "bad_reply s = (s, [], Inl (js ''Unexpected broker response''))"

definition done_with :: "'s \<Rightarrow> tool_result \<Rightarrow> 's tool_step" where
  "done_with s r = (s, [], Inr r)"

definition js_nonempty :: "jstr option \<Rightarrow> jstr option" where
  "js_nonempty x = (case x of None \<Rightarrow> None | Some s \<Rightarrow> (if s = [] then None else Some s))"

definition topic_note :: "jstr option \<Rightarrow> jstr" where
  "topic_note t = (case js_nonempty t of None \<Rightarrow> [] | Some s \<Rightarrow> js '' '' @ [js_emdash] @ js '' '' @ s)"

definition room_line :: "room_info \<Rightarrow> jstr" where
  "room_line r =
     (let names = js_join (js '', '') (map mem_name (ri_members r));
          members = (if names = [] then js ''none'' else names);
          dot = js '' '' @ [js_middot] @ js '' '';
          unread = (case ri_unread r of None \<Rightarrow> [] | Some u \<Rightarrow> js_int u @ js '' unread'' @ dot)
      in js ''#'' @ ri_name r @ topic_note (ri_topic r) @ dot @ unread
         @ js_nat (ri_messageCount r) @ js '' msgs'' @ dot @ js ''members: '' @ members)"

definition tool_rooms :: "'s tool_env \<Rightarrow> 's \<Rightarrow> 's tool_step" where
  "tool_rooms env s =
     on_reply (te_call env s CallRooms) (\<lambda>s m.
       case m of
         BM_Rooms _ rooms \<Rightarrow>
           done_with s
             (if rooms = [] then okResult (js ''No active rooms. Use join to create one.'') []
              else okResult (js_join [js_LF] (map room_line rooms))
                [(''rooms'', DetailInt (int (length rooms))),
                 (''unread'', DetailInt (sum_list (map (\<lambda>r. case ri_unread r of None \<Rightarrow> 0 | Some u \<Rightarrow> u) rooms)))])
       | _ \<Rightarrow> bad_reply s)"

definition tool_join :: "'s tool_env \<Rightarrow> 's \<Rightarrow> jstr \<Rightarrow> jstr option \<Rightarrow> 's tool_step" where
  "tool_join env s room topic =
     on_reply (te_call env s (CallJoin room topic)) (\<lambda>s m.
       case m of
         BM_Joined _ info cursor \<Rightarrow>
           (let unread = ri_lastSeq info - cursor
            in done_with s (okResult
                 (js ''Joined #'' @ room @ topic_note (ri_topic info) @ js ''. ''
                  @ js_nat (length (ri_members info)) @ js '' member(s), '' @ js_int unread
                  @ js '' unread message(s).''
                  @ (if 0 < unread then js '' Use digest to catch up.'' else []))
                 [(''room'', DetailStr room), (''unread'', DetailInt unread)]))
       | _ \<Rightarrow> bad_reply s)"

definition tool_leave :: "'s tool_env \<Rightarrow> 's \<Rightarrow> jstr \<Rightarrow> 's tool_step" where
  "tool_leave env s room =
     on_reply (te_call env s (CallLeave room)) (\<lambda>s m.
       done_with s (okResult (js ''Left #'' @ room @ js ''.'') []))"

definition tool_post :: "'s tool_env \<Rightarrow> 's \<Rightarrow> jstr \<Rightarrow> jstr \<Rightarrow> jstr option \<Rightarrow> 's tool_step" where
  "tool_post env s room message replyTo =
     on_reply (te_call env s (CallPost room message replyTo)) (\<lambda>s m.
       case m of
         BM_Posted _ p \<Rightarrow>
           done_with s (okResult
             (js ''Posted to #'' @ room @ js '' as '' @ from_name (rm_from p) @ js ''#''
              @ js_int (rm_seq p) @ js ''.'')
             [(''room'', DetailStr room), (''seq'', DetailInt (rm_seq p)), (''id'', DetailStr (rm_id p))])
       | _ \<Rightarrow> bad_reply s)"

text \<open>\<open>cursorFor\<close>: a fetch after the largest number returns no message but the cursor.\<close>

definition cursorFor :: "'s tool_env \<Rightarrow> 's \<Rightarrow> jstr \<Rightarrow> ('s \<Rightarrow> int \<Rightarrow> 's tool_step) \<Rightarrow> 's tool_step" where
  "cursorFor env s room k =
     on_reply (te_call env s (CallFetch room MAX_SAFE_INTEGER (Some 1))) (\<lambda>s m.
       case m of BM_Messages _ _ _ _ cursor \<Rightarrow> k s cursor | _ \<Rightarrow> bad_reply s)"

definition digest_result :: "bool \<Rightarrow> jstr \<Rightarrow> int \<Rightarrow> int \<Rightarrow> digest \<Rightarrow> tool_result" where
  "digest_result peek room lastSeq cursor d =
     (let dot = js '' '' @ [js_middot] @ js '' '';
          header = js ''#'' @ room @ dot @ js_nat (dg_total d) @ js '' unread'' @ dot @ js ''showing ''
            @ js_nat (dg_verbatim d) @ js '' verbatim, '' @ js_nat (dg_headlines d) @ js '' headline(s), ''
            @ js_nat (dg_collapsed d) @ js '' collapsed'' @ dot @ js_nat (dg_chars d) @ js '' chars''
            @ (if peek then dot @ js ''peek (cursor unchanged)'' else [])
      in okResult (header @ [js_LF] @ dg_text d)
           [(''room'', DetailStr room), (''lastSeq'', DetailInt lastSeq), (''cursorBefore'', DetailInt cursor),
            (''consumedSeq'', DetailInt (dg_consumedSeq d)), (''chars'', DetailInt (int (dg_chars d)))])"

definition tool_digest ::
  "'s tool_env \<Rightarrow> 's \<Rightarrow> bool \<Rightarrow> jstr \<Rightarrow> int option \<Rightarrow> int option \<Rightarrow> 's tool_step" where
  "tool_digest env s peek room budget perMessage =
     cursorFor env s room (\<lambda>s after.
       on_reply (te_call env s (CallFetch room after None)) (\<lambda>s m.
         case m of
           BM_Messages _ _ messages lastSeq cursor \<Rightarrow>
             (let d = buildDigest (te_localTime env) messages
                        \<lparr>dg_budget = budget, dg_perMessageCap = perMessage, dg_headlineCap = None\<rparr>;
                  result = digest_result peek room lastSeq cursor d
              in if \<not> peek \<and> 0 < dg_consumedSeq d
                 then on_reply (te_call env s (CallSetCursor room (dg_consumedSeq d)))
                        (\<lambda>s m. done_with s result)
                 else done_with s result)
         | _ \<Rightarrow> bad_reply s))"

definition export_line :: "'s tool_env \<Rightarrow> room_message \<Rightarrow> jstr" where
  "export_line env m =
     js ''['' @ te_isoTime env (rm_timestamp m) @ js ''] '' @ from_name (rm_from m) @ js ''#''
     @ js_int (rm_seq m) @ js '': '' @ rm_text m"

definition tool_export :: "'s tool_env \<Rightarrow> 's \<Rightarrow> jstr option \<Rightarrow> jstr option \<Rightarrow> 's tool_step" where
  "tool_export env s room path =
     (case (js_nonempty room, js_nonempty (map_option js_trim path)) of
        (Some room, Some requestedPath) \<Rightarrow>
          (case te_resolveExportTarget env requestedPath of
             Inl e \<Rightarrow> done_with s (errorResult e)
           | Inr target \<Rightarrow>
               on_reply (te_call env s (CallFetch room 0 (Some (int DEFAULT_ROOM_CAPACITY)))) (\<lambda>s m.
                 case m of
                   BM_Messages _ _ messages lastSeq _ \<Rightarrow>
                     (let transcript = js_join [js_LF] (map (export_line env) messages);
                          contents = (if transcript = [] then [] else transcript @ [js_LF]);
                          firstSeq = (if messages = [] then 0 else rm_seq (hd messages));
                          droppedBefore = max 0 (firstSeq - 1);
                          note = (if 0 < droppedBefore
                                  then js '' '' @ js_int droppedBefore
                                       @ js '' older message(s) were no longer retained.''
                                  else [])
                      in case te_writeFile env target contents of
                           Some e \<Rightarrow> (s, [], Inl e)
                         | None \<Rightarrow>
                             (s, [(target, contents)], Inr (okResult
                               (js ''Exported '' @ js_nat (length messages) @ js '' retained message(s) from #''
                                @ room @ js '' to '' @ target @ js '' ('' @ js_nat (length transcript)
                                @ js '' chars).'' @ note)
                               [(''room'', DetailStr room), (''path'', DetailStr target),
                                (''messages'', DetailInt (int (length messages))),
                                (''chars'', DetailInt (int (length transcript))),
                                (''firstSeq'', DetailInt firstSeq), (''lastSeq'', DetailInt lastSeq),
                                (''droppedBefore'', DetailInt droppedBefore),
                                (''truncated'', DetailBool (0 < droppedBefore))])))
                 | _ \<Rightarrow> bad_reply s))
      | _ \<Rightarrow> done_with s (errorResult (js ''Missing 'room' or 'path' parameter'')))"

definition fetch_line :: "room_message \<Rightarrow> jstr" where
  "fetch_line m = js ''['' @ from_name (rm_from m) @ js ''#'' @ js_int (rm_seq m) @ js ''] '' @ rm_text m"

definition fetch_range :: "'s tool_env \<Rightarrow> jstr \<Rightarrow> int option \<Rightarrow> 's \<Rightarrow> int \<Rightarrow> 's tool_step" where
  "fetch_range env room limit s after =
     on_reply (te_call env s (CallFetch room after
         (Some (case limit of None \<Rightarrow> DEFAULT_FETCH_LIMIT | Some l \<Rightarrow> l)))) (\<lambda>s m.
       case m of
         BM_Messages _ _ messages lastSeq _ \<Rightarrow>
           (let dot = js '' '' @ [js_middot] @ js '' '';
                latest = js '' after seq '' @ js_int after @ js '' (latest is '' @ js_int lastSeq @ js '')''
            in if messages = [] then
                 done_with s (okResult (js ''#'' @ room @ dot @ js ''nothing'' @ latest @ js ''.'')
                   [(''room'', DetailStr room), (''afterSeq'', DetailInt after),
                    (''lastSeq'', DetailInt lastSeq), (''messages'', DetailInt 0)])
               else
                 (let rendered = js_join [js_LF] (map fetch_line messages);
                      chars = length rendered
                  in done_with s (okResult
                       (js ''#'' @ room @ dot @ js_nat (length messages) @ js '' message(s)'' @ latest
                        @ dot @ js_nat chars @ js '' chars'' @ dot @ js ''cursor unchanged'' @ [js_LF] @ rendered)
                       [(''room'', DetailStr room), (''afterSeq'', DetailInt after),
                        (''lastSeq'', DetailInt lastSeq), (''messages'', DetailInt (int (length messages))),
                        (''chars'', DetailInt (int chars))])))
       | _ \<Rightarrow> bad_reply s)"

definition missing_room :: "'s \<Rightarrow> 's tool_step" where
  "missing_room s = done_with s (errorResult (js ''Missing 'room' parameter''))"

definition tool_switch :: "'s tool_env \<Rightarrow> 's \<Rightarrow> tool_params \<Rightarrow> 's tool_step" where
  "tool_switch env s p =
     (case tp_action p of
        ActRooms \<Rightarrow> tool_rooms env s
      | ActJoin \<Rightarrow>
          (case js_nonempty (tp_room p) of None \<Rightarrow> missing_room s
           | Some room \<Rightarrow> tool_join env s room (tp_topic p))
      | ActLeave \<Rightarrow>
          (case js_nonempty (tp_room p) of None \<Rightarrow> missing_room s | Some room \<Rightarrow> tool_leave env s room)
      | ActPost \<Rightarrow>
          (case (js_nonempty (tp_room p), js_nonempty (tp_message p)) of
             (Some room, Some message) \<Rightarrow> tool_post env s room message (tp_replyTo p)
           | _ \<Rightarrow> done_with s (errorResult (js ''Missing 'room' or 'message' parameter'')))
      | ActDigest \<Rightarrow>
          (case js_nonempty (tp_room p) of None \<Rightarrow> missing_room s
           | Some room \<Rightarrow> tool_digest env s False room (tp_budget p) (tp_perMessage p))
      | ActPeek \<Rightarrow>
          (case js_nonempty (tp_room p) of None \<Rightarrow> missing_room s
           | Some room \<Rightarrow> tool_digest env s True room (tp_budget p) (tp_perMessage p))
      | ActExport \<Rightarrow> tool_export env s (tp_room p) (tp_path p)
      | ActFetch \<Rightarrow>
          (case js_nonempty (tp_room p) of None \<Rightarrow> missing_room s
           | Some room \<Rightarrow>
               (case tp_afterSeq p of
                  Some a \<Rightarrow> fetch_range env room (tp_limit p) s a
                | None \<Rightarrow> cursorFor env s room (fetch_range env room (tp_limit p)))))"

text \<open>\<open>execute\<close>: the writer check of \<open>export\<close>, the connection, then the \<open>try\<close> block.\<close>

definition role_refused :: "'s tool_env \<Rightarrow> tool_result" where
  "role_refused env =
     (let w = te_writerRole env;
          pre = js ''Only the \"'' @ w @ js ''\" role may export rooms for memory; this session ''
      in case te_currentRole env of
           Some role \<Rightarrow>
             (if js_trim role \<noteq> []
              then errorResult (pre @ js ''is \"'' @ role @ js ''\". Ask the '' @ w @ js '' to export.'')
              else errorResult (pre @ js ''has no role name (launch it with --name '' @ w @ js '').''))
         | None \<Rightarrow> errorResult (pre @ js ''has no role name (launch it with --name '' @ w @ js '').''))"

definition tool_execute ::
  "'s tool_env \<Rightarrow> 's \<Rightarrow> tool_params \<Rightarrow> 's \<times> (jstr \<times> jstr) list \<times> tool_result" where
  "tool_execute env s p =
     (if tp_action p = ActExport \<and> te_currentRole env \<noteq> Some (te_writerRole env)
      then (s, [], role_refused env)
      else (case te_ensureConnected env of
              Some e \<Rightarrow> (s, [], errorResult (js ''Roundtable not connected: '' @ e))
            | None \<Rightarrow>
                (case tool_switch env s p of
                   (s', files, Inr r) \<Rightarrow> (s', files, r)
                 | (s', files, Inl e) \<Rightarrow>
                     (s', files, errorResult (js ''Roundtable '' @ action_name (tp_action p) @ js '' failed: '' @ e)))))"

subsection \<open>The tool on the broker\<close>

definition client_error_message :: "client_error \<Rightarrow> jstr" where
  "client_error_message e =
     (case e of
        BrokerError m \<Rightarrow> m
      | RequestTimedOut \<Rightarrow> js ''Roundtable request timed out''
      | ConnectionClosed \<Rightarrow> js ''Roundtable broker connection closed''
      | SocketError m \<Rightarrow> m
      | NotConnected \<Rightarrow> js ''Not connected to roundtable broker''
      | UnexpectedResponse t \<Rightarrow> js ''Unexpected broker response''
      | RegistrationTimedOut \<Rightarrow> js ''Roundtable registration timed out''
      | ReaderError m \<Rightarrow> m)"

text \<open>An awaited client method of the session \<open>sid\<close> on \<open>socket\<close>: the broker handles the message
  and the first message it writes to the socket settles the request.\<close>

definition broker_call ::
  "nat \<Rightarrow> jstr \<Rightarrow> jstr \<Rightarrow> jstr \<Rightarrow> int \<Rightarrow> broker \<Rightarrow> client_call \<Rightarrow> broker \<times> (jstr + broker_message)" where
  "broker_call socket sid req uuid now b call =
     (case handleMessage b socket (call_message call req) (Some sid) uuid now of
        (b', Send k reply # effs, sid') \<Rightarrow>
          (case settle req (call_expects call) reply of
             Resolve r m \<Rightarrow> (b', Inr m)
           | Reject r e \<Rightarrow> (b', Inl (client_error_message e))
           | _ \<Rightarrow> (b', Inl []))
      | (b', _, sid') \<Rightarrow> (b', Inl (client_error_message RequestTimedOut)))"

definition on_broker :: "nat \<Rightarrow> jstr \<Rightarrow> jstr \<Rightarrow> jstr \<Rightarrow> int \<Rightarrow> broker tool_env \<Rightarrow> broker tool_env" where
  "on_broker socket sid req uuid now env = env\<lparr>te_call := broker_call socket sid req uuid now\<rparr>"

lemma on_broker_simps [simp]:
  "te_call (on_broker socket sid req uuid now env) = broker_call socket sid req uuid now"
  "te_localTime (on_broker socket sid req uuid now env) = te_localTime env"
  "te_currentRole (on_broker socket sid req uuid now env) = te_currentRole env"
  "te_writerRole (on_broker socket sid req uuid now env) = te_writerRole env"
  "te_ensureConnected (on_broker socket sid req uuid now env) = te_ensureConnected env"
  by (simp_all add: on_broker_def)

lemma broker_call_fetch:
  assumes "jm_get (br_sessions b) sid = Some se"
  shows "broker_call socket sid req uuid now b (CallFetch room a limit) =
    (b, case fetch (br_store b) room a limit of
          Inl e \<Rightarrow> Inl (store_error_message e)
        | Inr (messages, lastSeq) \<Rightarrow>
            Inr (BM_Messages req room messages lastSeq (getCursor (br_store b) room (se_name se))))"
  using assms
  by (auto simp: broker_call_def handleMessage_def handle_request_def settle_def client_error_message_def
      split: sum.splits)

lemma broker_call_rooms:
  assumes "jm_get (br_sessions b) sid = Some se"
  shows "broker_call socket sid req uuid now b CallRooms =
    (b, Inr (BM_Rooms req (listRooms (br_store b) (Some (se_name se)))))"
  using assms by (simp add: broker_call_def handleMessage_def handle_request_def settle_def)

lemma broker_call_setCursor:
  assumes "jm_get (br_sessions b) sid = Some se" and "setCursor (br_store b) room (se_name se) q = Inr (s', n)"
  shows "broker_call socket sid req uuid now b (CallSetCursor room q) =
    (b\<lparr>br_store := s'\<rparr>, Inr (BM_CursorSet req room n))"
  using assms by (simp add: broker_call_def handleMessage_def handle_request_def settle_def)

lemma tool_step_simps [simp]:
  "done_with s r = (s, [], Inr r)"
  "bad_reply s = (s, [], Inl (js ''Unexpected broker response''))"
  "missing_room s = (s, [], Inr (errorResult (js ''Missing 'room' parameter'')))"
  "on_reply (s, Inl e) k = (s, [], Inl e)" "on_reply (s, Inr m) k = k s m"
  by (simp_all add: done_with_def bad_reply_def missing_room_def on_reply_def)

lemma digest_step:
  assumes "jm_get (br_sessions b) sid = Some se"
    and "fetch (br_store b) room MAX_SAFE_INTEGER (Some 1) = Inr (ms0, l0)"
    and "fetch (br_store b) room (getCursor (br_store b) room (se_name se)) None = Inr (messages, lastSeq)"
  shows "tool_digest (on_broker socket sid req uuid now env) b peek room budget per =
    (let d = buildDigest (te_localTime env) messages
               \<lparr>dg_budget = budget, dg_perMessageCap = per, dg_headlineCap = None\<rparr>;
         result = digest_result peek room lastSeq (getCursor (br_store b) room (se_name se)) d
     in if \<not> peek \<and> 0 < dg_consumedSeq d
        then on_reply (broker_call socket sid req uuid now b (CallSetCursor room (dg_consumedSeq d)))
               (\<lambda>s m. done_with s result)
        else (b, [], Inr result))"
  by (simp add: tool_digest_def cursorFor_def broker_call_fetch [OF assms(1)] assms(2,3) Let_def)

lemma digest_peek_read_only:
  assumes "jm_get (br_sessions b) sid = Some se"
  shows "fst (tool_digest (on_broker socket sid req uuid now env) b True room budget per) = b"
  by (auto simp: tool_digest_def cursorFor_def broker_call_fetch [OF assms] Let_def split: sum.splits)

lemma fetch_read_only:
  assumes "jm_get (br_sessions b) sid = Some se"
  shows "fst (fetch_range (on_broker socket sid req uuid now env) room limit b a) = b"
  by (auto simp: fetch_range_def broker_call_fetch [OF assms] Let_def split: sum.splits)

lemma cursorFor_read_only:
  assumes "jm_get (br_sessions b) sid = Some se" and "\<And>c. fst (k b c) = b"
  shows "fst (cursorFor (on_broker socket sid req uuid now env) b room k) = b"
  by (auto simp: cursorFor_def broker_call_fetch [OF assms(1)] assms(2) split: sum.splits)

lemma export_read_only:
  assumes "jm_get (br_sessions b) sid = Some se"
  shows "fst (tool_export (on_broker socket sid req uuid now env) b room path) = b"
  by (auto simp: tool_export_def broker_call_fetch [OF assms] Let_def split: sum.splits option.splits)

lemma rooms_read_only:
  assumes "jm_get (br_sessions b) sid = Some se"
  shows "fst (tool_rooms (on_broker socket sid req uuid now env) b) = b"
  by (simp add: tool_rooms_def broker_call_rooms [OF assms])

text \<open>The page a digest shows, and what is left unread after it.\<close>

lemma page_facts:
  assumes con: "consecutive lo ms" and page: "page = take n (filter (\<lambda>m. a < rm_seq m) ms)" and ne: "page \<noteq> []"
  shows "a < rm_seq (last page)" and "Max (rm_seq ` set page) = rm_seq (last page)"
    and "rm_seq (last page) < lo + int (length ms)"
    and "filter (\<lambda>m. rm_seq (last page) < rm_seq m) ms = drop n (filter (\<lambda>m. a < rm_seq m) ms)"
proof -
  define k where "k = nat (a + 1 - lo)"
  have un: "filter (\<lambda>m. b < rm_seq m) ms = drop (nat (b + 1 - lo)) ms" for b
    using con by (rule consecutive_filter)
  have p: "page = take n (drop k ms)" by (simp add: page un k_def)
  with ne have k: "k < length ms" by auto
  have pc: "consecutive (lo + int k) page"
    unfolding p using con k by (intro consecutive_take consecutive_drop) simp_all
  have last: "rm_seq (last page) = lo + int k + int (length page) - 1"
    using pc ne by (rule consecutive_last)
  have in_ms: "last page \<in> set ms" "last page \<in> set (filter (\<lambda>m. a < rm_seq m) ms)"
    using last_in_set [OF ne] page by (auto dest: in_set_takeD)
  then show "a < rm_seq (last page)" by simp
  show "rm_seq (last page) < lo + int (length ms)"
    using consecutive_bounds [OF con in_ms(1)] by simp
  show "Max (rm_seq ` set page) = rm_seq (last page)"
    using consecutive_bounds [OF pc] last last_in_set [OF ne] by (intro Max_eqI) force+
  have "nat (rm_seq (last page) + 1 - lo) = k + length page" by (simp add: last)
  moreover have "drop (k + length page) ms = drop n (drop k ms)"
    using p k by (auto simp: min_def add.commute)
  ultimately show "filter (\<lambda>m. rm_seq (last page) < rm_seq m) ms = drop n (filter (\<lambda>m. a < rm_seq m) ms)"
    by (simp add: un k_def [symmetric] del: drop_drop)
qed

subsection \<open>Properties\<close>

text \<open>looking does not touch anything.  \<open>rooms\<close>, \<open>peek\<close>, \<open>fetch\<close> and \<open>export\<close> of a
  registered session leave the broker (rooms, members, messages, every read cursor) exactly as it
  was, whatever the parameters and whether or not they succeed.\<close>

theorem tool_looking_is_read_only:
  assumes "jm_get (br_sessions b) sid = Some se" and "tp_action p \<in> {ActRooms, ActPeek, ActFetch, ActExport}"
  shows "fst (tool_execute (on_broker socket sid req uuid now env) b p) = b"
proof -
  have "fst (tool_switch (on_broker socket sid req uuid now env) b p) = b"
    using assms(2)
    by (auto simp: tool_switch_def digest_peek_read_only [OF assms(1)] fetch_read_only [OF assms(1)]
        export_read_only [OF assms(1)] rooms_read_only [OF assms(1)] cursorFor_read_only [OF assms(1)]
        split: option.splits)
  then show ?thesis by (auto simp: tool_execute_def split: option.splits prod.splits sum.splits)
qed

definition demo_env :: "broker tool_env" where
  "demo_env = \<lparr>te_ensureConnected = None, te_currentRole = Some (js ''ann''), te_writerRole = js ''scribe'',
     te_call = (\<lambda>b c. (b, Inl [])), te_resolveExportTarget = Inr, te_writeFile = (\<lambda>f c. None),
     te_localTime = (\<lambda>t. (0, 0)), te_isoTime = (\<lambda>t. [])\<rparr>"

definition demo_params :: "tool_action \<Rightarrow> tool_params" where
  "demo_params a = \<lparr>tp_action = a, tp_room = Some (js ''r''), tp_message = None, tp_replyTo = None,
     tp_topic = None, tp_budget = None, tp_path = Some (js ''raw/x''), tp_perMessage = None,
     tp_afterSeq = None, tp_limit = None\<rparr>"

theorem tool_looking_is_read_only_witness:
  "fst (tool_execute (on_broker 1 (js ''s1'') [] [] 0 demo_env) (sys_broker demo_system) (demo_params ActPeek))
     = sys_broker demo_system"
  by (rule tool_looking_is_read_only) (simp_all add: demo_facts demo_params_def)

text \<open>Only the writer role exports.  A session with any other role, or none, gets an error,
  nothing is written and the broker is not even asked.\<close>

theorem export_requires_writer_role:
  assumes "tp_action p = ActExport" and "te_currentRole env \<noteq> Some (te_writerRole env)"
  shows "tool_execute env s p = (s, [], role_refused env) \<and> tr_isError (role_refused env)"
  using assms by (simp add: tool_execute_def role_refused_def errorResult_def Let_def split: option.splits)

theorem export_requires_writer_role_witness:
  "tr_isError (snd (snd (tool_execute demo_env (sys_broker demo_system) (demo_params ActExport))))"
  using export_requires_writer_role [of "demo_params ActExport" demo_env "sys_broker demo_system"]
  by (simp add: demo_params_def demo_env_def)

text \<open>a digest marks as read exactly what it showed.  In a well-formed store, \<open>digest\<close> of a
  session in a known room shows the oldest 200 unread retained messages (\<open>fetch\<close>'s default limit),
  and afterwards the unread retained messages are exactly the ones after those: nothing is skipped
  and nothing is shown twice, however small the budget was.\<close>

theorem digest_marks_what_it_showed:
  assumes "jm_get (br_sessions b) sid = Some se" and "store_inv (br_store b)"
    and "jm_get (rs_rooms (br_store b)) room = Some st" and "room \<noteq> []" and "te_ensureConnected env = None"
    and "tp_action p = ActDigest" and "tp_room p = Some room"
  shows "let c = getCursor (br_store b) room (se_name se);
             unread = filter (\<lambda>m. c < rm_seq m) (st_messages st);
             d = buildDigest (te_localTime env) (take 200 unread)
                   \<lparr>dg_budget = tp_budget p, dg_perMessageCap = tp_perMessage p, dg_headlineCap = None\<rparr>;
             (b', files, r) = tool_execute (on_broker socket sid req uuid now env) b p
    in r = digest_result False room (st_nextSeq st - 1) c d \<and> files = [] \<and>
       (\<exists>st'. jm_get (rs_rooms (br_store b')) room = Some st' \<and> st_messages st' = st_messages st \<and>
          filter (\<lambda>m. getCursor (br_store b') room (se_name se) < rm_seq m) (st_messages st') = drop 200 unread)"
proof -
  define c where "c = getCursor (br_store b) room (se_name se)"
  define page where "page = take 200 (filter (\<lambda>m. c < rm_seq m) (st_messages st))"
  define d where "d = buildDigest (te_localTime env) page
    \<lparr>dg_budget = tp_budget p, dg_perMessageCap = tp_perMessage p, dg_headlineCap = None\<rparr>"
  define r where "r = digest_result False room (st_nextSeq st - 1) c d"
  have inv: "room_inv (rs_capacity (br_store b)) room st" by (rule store_inv_room [OF assms(2,3)])
  have con: "consecutive (st_nextSeq st - int (length (st_messages st))) (st_messages st)"
    using inv by (rule room_inv_consecutive)
  have cc: "c = jm_get_or 0 (st_cursors st) (se_name se)" by (simp add: c_def getCursor_def assms(3))
  have c0: "0 \<le> c" using room_inv_cursor [OF inv] by (simp add: cc)
  obtain ms0 l0 where probe: "fetch (br_store b) room MAX_SAFE_INTEGER (Some 1) = Inr (ms0, l0)"
    by (simp add: fetch_def assms(3))
  have page: "fetch (br_store b) room c None = Inr (page, st_nextSeq st - 1)"
    by (simp add: fetch_def assms(3) page_def)
  have exec: "tool_execute (on_broker socket sid req uuid now env) b p =
    (case tool_digest (on_broker socket sid req uuid now env) b False room (tp_budget p) (tp_perMessage p) of
       (s', files, Inr r) \<Rightarrow> (s', files, r)
     | (s', files, Inl e) \<Rightarrow> (s', files, errorResult (js ''Roundtable '' @ action_name ActDigest @ js '' failed: '' @ e)))"
    by (simp add: tool_execute_def tool_switch_def assms(4-7) js_nonempty_def del: action_name.simps)
  note step = digest_step [OF assms(1) probe page [unfolded c_def], of socket req uuid now env False
      "tp_budget p" "tp_perMessage p", folded c_def d_def, unfolded Let_def, folded r_def]
  show ?thesis
  proof (cases "page = []")
    case True
    then have "tool_execute (on_broker socket sid req uuid now env) b p = (b, [], r)"
      using step by (simp add: exec d_def buildDigest_def)
    moreover have "filter (\<lambda>m. c < rm_seq m) (st_messages st) = []" using True by (simp add: page_def)
    ultimately show ?thesis
      using assms(3) True by (simp add: Let_def c_def [symmetric] r_def d_def)
  next
    case False
    define q where "q = dg_consumedSeq d"
    note facts = page_facts [OF con page_def False]
    have q: "q = rm_seq (last page)"
      using consumedSeq_is_max [OF False] facts(2) by (simp add: q_def d_def)
    define st' where "st' = st\<lparr>st_cursors := jm_set (se_name se) q (st_cursors st)\<rparr>"
    have set: "setCursor (br_store b) room (se_name se) q = Inr (put_room room st' (br_store b), q)"
      using facts(1,3) by (simp add: setCursor_def assms(3) Let_def cc [symmetric] q st'_def)
    have "tool_execute (on_broker socket sid req uuid now env) b p =
        (b\<lparr>br_store := put_room room st' (br_store b)\<rparr>, [], r)"
      using step facts(1) c0 by (simp add: exec q_def [symmetric] q broker_call_setCursor [OF assms(1) set [unfolded q]])
    moreover have "getCursor (put_room room st' (br_store b)) room (se_name se) = q"
      by (simp add: getCursor_put_room st'_def jm_get_or_set)
    ultimately show ?thesis
      using facts(4) by (simp add: Let_def c_def [symmetric] page_def [symmetric] d_def [symmetric] r_def
          q [symmetric]) (simp add: st'_def)
  qed
qed

theorem digest_marks_what_it_showed_witness:
  "\<exists>st. jm_get (rs_rooms (br_store (sys_broker demo_system))) (js ''r'') = Some st \<and>
     (let (b', files, r) = tool_execute (on_broker 1 (js ''s1'') [] [] 0 demo_env)
            (sys_broker demo_system) (demo_params ActDigest) in files = [])"
proof -
  obtain st where st: "jm_get (rs_rooms (br_store (sys_broker demo_system))) (js ''r'') = Some st"
    using demo_facts(4) by (fastforce simp: memberSessionIds_def split: option.splits)
  have "store_inv (br_store (sys_broker demo_system))"
    using reachable_inv [OF demo_system_reachable] by (simp add: sys_inv_def broker_invD(1))
  moreover have "js ''r'' \<noteq> []" "te_ensureConnected demo_env = None"
    "tp_action (demo_params ActDigest) = ActDigest" "tp_room (demo_params ActDigest) = Some (js ''r'')"
    by (simp_all add: demo_env_def demo_params_def js_def)
  ultimately show ?thesis
    using digest_marks_what_it_showed [OF demo_facts(3) _ st, of demo_env "demo_params ActDigest" 1 "[]" "[]" 0] st
    by (simp add: Let_def split_beta)
qed

end
