(* ===== verification/Range_Records.thy ===== *)
theory Range_Records
  imports JS_Core
begin

text \<open>
  Deletion records of the compaction planner
  (\<open>core/compaction/truncated-range-recovery.ts\<close>): the strict grammar \<open>start,end\<close> per line, the
  parser for a complete answer, and the recovery of the complete records of an answer that was cut
  off at the output limit.
\<close>

subsection \<open>Raw ranges\<close>

datatype endpoint = EpNumber js_num | EpString jstr | EpBool bool | EpNull

record raw_range =
  raw_start :: "endpoint option"
  raw_end :: "endpoint option"

abbreviation js_comma :: code_unit where "js_comma \<equiv> 44"
abbreviation js_zero :: code_unit where "js_zero \<equiv> 48"

definition isCanonicalUint :: "jstr \<Rightarrow> bool" where
  "isCanonicalUint s =
     (if s = [] then False
      else if 1 < length s \<and> hd s = js_zero then False
      else list_all js_digit s)"

text \<open>\<open>Number(s)\<close> of a string of digits is the nearest double.\<close>

definition number_endpoint :: "jstr \<Rightarrow> endpoint" where
  "number_endpoint s = EpNumber (js_double (js_number s))"

definition parseRecord :: "jstr \<Rightarrow> raw_range option" where
  "parseRecord line =
     (case js_indexOf js_comma line of
        None \<Rightarrow> None
      | Some commaIdx \<Rightarrow>
          (if js_indexOf js_comma (drop (commaIdx + 1) line) \<noteq> None then None
           else (let startStr = take commaIdx line;
                     endStr = drop (commaIdx + 1) line
                 in if \<not> isCanonicalUint startStr \<or> \<not> isCanonicalUint endStr then None
                    else Some \<lparr>raw_start = Some (number_endpoint startStr),
                               raw_end = Some (number_endpoint endStr)\<rparr>)))"

text \<open>The loop of \<open>parseRangeRecords\<close>; the last line is the one with nothing after it.\<close>

fun records_loop :: "jstr list \<Rightarrow> raw_range list option" where
  "records_loop [] = Some []"
| "records_loop (line # rest) =
     (if rest = [] \<and> line = [] then Some []
      else (case parseRecord line of
              None \<Rightarrow> None
            | Some r \<Rightarrow> map_option ((#) r) (records_loop rest)))"

definition parseRangeRecords :: "jstr \<Rightarrow> raw_range list option" where
  "parseRangeRecords s =
     (if s = [] then None
      else (case records_loop (js_split js_LF s) of
              None \<Rightarrow> None
            | Some ranges \<Rightarrow> (if 0 < length ranges then Some ranges else None)))"

text \<open>The loop of \<open>recoverTruncatedRecords\<close>.\<close>

fun completed_loop :: "jstr list \<Rightarrow> raw_range list option" where
  "completed_loop [] = Some []"
| "completed_loop (line # rest) =
     (if line = [] then None
      else (case parseRecord line of
              None \<Rightarrow> None
            | Some r \<Rightarrow> map_option ((#) r) (completed_loop rest)))"

text \<open>The result keeps the ranges; \<open>recoveredCount\<close> is their number.\<close>

definition recoverTruncatedRecords :: "jstr \<Rightarrow> raw_range list option" where
  "recoverTruncatedRecords s =
     (case js_lastIndexOf js_LF s of
        None \<Rightarrow> None
      | Some lastNewline \<Rightarrow>
          (let completedPortion = take lastNewline s
           in if completedPortion = [] then None
              else (case completed_loop (js_split js_LF completedPortion) of
                      None \<Rightarrow> None
                    | Some ranges \<Rightarrow> (if ranges = [] then None else Some ranges))))"

subsection \<open>Printing records\<close>

definition record_text :: "nat \<times> nat \<Rightarrow> jstr" where
  "record_text r = js_nat (fst r) @ js_comma # js_nat (snd r)"

definition record_value :: "nat \<times> nat \<Rightarrow> raw_range" where
  "record_value r = \<lparr>raw_start = Some (EpNumber (js_double (fst r))),
     raw_end = Some (EpNumber (js_double (snd r)))\<rparr>"

definition records_text :: "(nat \<times> nat) list \<Rightarrow> jstr" where
  "records_text rs = concat (map (\<lambda>r. record_text r @ [js_LF]) rs)"

lemma comma_not_digit [simp]: "\<not> js_digit js_comma"
  by (simp add: js_digit_def)

lemma LF_not_digit [simp]: "\<not> js_digit js_LF"
  by (simp add: js_digit_def)

lemma js_nat_no_comma [simp]: "js_comma \<notin> set (js_nat n)"
  using js_nat_digits comma_not_digit by blast

lemma js_nat_no_LF [simp]: "js_LF \<notin> set (js_nat n)"
  using js_nat_digits LF_not_digit by blast

lemma js_nat_zero: "js_nat 0 = [js_zero]"
  by (subst js_nat.simps) simp

lemma isCanonicalUint_js_nat [simp]: "isCanonicalUint (js_nat n)"
proof (cases "n = 0")
  case True
  then show ?thesis by (simp add: isCanonicalUint_def js_nat_zero js_digit_def)
next
  case False
  then show ?thesis
    using js_nat_leading [of n] js_nat_digits by (auto simp: isCanonicalUint_def list_all_iff)
qed

lemma parseRecord_print [simp]: "parseRecord (record_text r) = Some (record_value r)"
  by (simp add: parseRecord_def record_text_def js_indexOf_append js_indexOf_None Let_def
      number_endpoint_def record_value_def)

lemma record_text_not_Nil [simp]: "record_text r \<noteq> []"
  by (simp add: record_text_def)

lemma record_text_no_LF [simp]: "js_LF \<notin> set (record_text r)"
  by (simp add: record_text_def)

lemma records_text_join:
  "rs \<noteq> [] \<Longrightarrow> records_text rs = js_join [js_LF] (map record_text rs) @ [js_LF]"
proof (induction rs rule: induct_list012)
  case (3 x y zs)
  then show ?case by (simp add: records_text_def)
qed (simp_all add: records_text_def)

lemma records_loop_print:
  "records_loop (map record_text rs @ [[]]) = Some (map record_value rs)"
  by (induction rs) auto

lemma completed_loop_print: "completed_loop (map record_text rs) = Some (map record_value rs)"
  by (induction rs) auto

lemma split_join_records:
  "rs \<noteq> [] \<Longrightarrow> js_split js_LF (js_join [js_LF] (map record_text rs)) = map record_text rs"
  by (rule js_split_join) auto

lemma completed_records:
  assumes "js_LF \<notin> set fragment"
  shows "recoverTruncatedRecords (records_text rs @ fragment) =
    (if rs = [] then None else Some (map record_value rs))"
proof (cases "rs = []")
  case True
  with assms show ?thesis by (simp add: records_text_def recoverTruncatedRecords_def js_lastIndexOf_None)
next
  case False
  define body where "body = js_join [js_LF] (map record_text rs)"
  have "js_lastIndexOf js_LF (records_text rs @ fragment) = Some (length body)"
    using js_lastIndexOf_append [OF assms, of body] by (simp add: records_text_join [OF False] body_def)
  moreover have "take (length body) (records_text rs @ fragment) = body"
    by (simp add: records_text_join [OF False] body_def)
  moreover have "body \<noteq> []"
    using False by (cases rs rule: list.exhaust; cases "tl rs") (auto simp: body_def)
  ultimately show ?thesis
    using False split_join_records [OF False]
    by (simp add: recoverTruncatedRecords_def Let_def body_def [symmetric] completed_loop_print)
qed

text \<open>A prefix of a printed answer: some complete records and an unfinished line.\<close>

lemma prefix_of_records:
  "\<exists>n fragment. n \<le> length rs \<and> take k (records_text rs) = records_text (take n rs) @ fragment \<and>
     js_LF \<notin> set fragment \<and> (n < length rs \<or> fragment = []) \<and>
     (\<forall>i \<le> length rs. length (records_text (take i rs)) \<le> k \<longrightarrow> i \<le> n)"
proof (induction rs arbitrary: k)
  case Nil
  then show ?case by (intro exI [of _ 0] exI [of _ "[]"]) (simp add: records_text_def)
next
  case (Cons r rs)
  let ?l = "record_text r @ [js_LF]"
  have Cons_eq: "records_text (r # xs) = ?l @ records_text xs" for xs by (simp add: records_text_def)
  have Nil_eq: "records_text [] = []" by (simp add: records_text_def)
  show ?case
  proof (cases "k < length ?l")
    case True
    have "js_LF \<notin> set (take k (record_text r))" using record_text_no_LF in_set_takeD by fast
    moreover have "take k (records_text (r # rs)) = take k (record_text r)" using True by (simp add: Cons_eq)
    moreover have "i = 0" if "i \<le> length (r # rs)" "length (records_text (take i (r # rs))) \<le> k" for i
      using that True by (cases i) (simp_all add: Cons_eq)
    ultimately show ?thesis
      by (intro exI [of _ 0] exI [of _ "take k (record_text r)"]) (auto simp: Nil_eq)
  next
    case False
    from Cons.IH [of "k - length ?l"] obtain n fragment where
      n: "n \<le> length rs" "take (k - length ?l) (records_text rs) = records_text (take n rs) @ fragment"
        "js_LF \<notin> set fragment" "n < length rs \<or> fragment = []"
      and max: "\<And>i. i \<le> length rs \<Longrightarrow> length (records_text (take i rs)) \<le> k - length ?l \<Longrightarrow> i \<le> n"
      by blast
    have "i \<le> Suc n" if "i \<le> length (r # rs)" "length (records_text (take i (r # rs))) \<le> k" for i
      using that max [of "i - 1"] by (cases i) (simp_all add: Cons_eq)
    moreover have "take k (?l @ records_text rs) = ?l @ take (k - length ?l) (records_text rs)"
      using False take_append [of k ?l "records_text rs"] take_all [of ?l k] by (metis not_less)
    ultimately show ?thesis
      using n by (intro exI [of _ "Suc n"] exI [of _ fragment]) (simp only: Cons_eq take_Suc_Cons, simp)
  qed
qed

subsection \<open>Properties\<close>

text \<open>printing and parsing records is a round trip: a complete answer, with or without the
  last newline, parses to exactly its records, each number read as the nearest double (exact below
  \<open>2 ^ 53\<close>).\<close>

theorem records_roundtrip:
  assumes "rs \<noteq> []"
  shows "parseRangeRecords (records_text rs) = Some (map record_value rs) \<and>
    parseRangeRecords (js_join [js_LF] (map record_text rs)) = Some (map record_value rs)"
proof -
  let ?body = "js_join [js_LF] (map record_text rs)"
  have split: "js_split js_LF ?body = map record_text rs" using assms by (rule split_join_records)
  have ne: "?body \<noteq> []"
    using assms by (cases rs rule: list.exhaust; cases "tl rs") auto
  have loop: "records_loop (map record_text rs) = Some (map record_value rs)"
    by (induction rs) auto
  show ?thesis
    using assms ne
    by (simp add: parseRangeRecords_def records_text_join js_split_snoc_sep split records_loop_print loop)
qed

theorem records_roundtrip_witness:
  "parseRangeRecords (records_text [(12, 30), (0, 5)]) = Some (map record_value [(12, 30), (0, 5)])"
  using records_roundtrip [of "[(12, 30), (0, 5)]"] by simp

text \<open>an answer cut off anywhere never yields a wrong record.  Whatever the position at which
  the output limit cut the printed records, recovery returns exactly the records that are complete
  with their newline in what arrived (none when there is none); a final number that may have lost
  digits is never used.\<close>

theorem truncated_recovery_exact:
  "let n = length (filter (\<lambda>i. length (records_text (take i rs)) \<le> k) [1..<length rs + 1])
   in recoverTruncatedRecords (take k (records_text rs)) =
        (if n = 0 then None else Some (map record_value (take n rs)))"
proof -
  obtain n fragment where n: "n \<le> length rs" and eq: "take k (records_text rs) = records_text (take n rs) @ fragment"
    and frag: "js_LF \<notin> set fragment"
    and max: "\<And>i. i \<le> length rs \<Longrightarrow> length (records_text (take i rs)) \<le> k \<Longrightarrow> i \<le> n"
    using prefix_of_records [of rs k] by blast
  have le: "length (records_text (take i rs)) \<le> k" if "i \<le> n" for i
  proof -
    have "take n rs = take i rs @ drop i (take n rs)"
      using that by (metis append_take_drop_id min.absorb2 min.commute take_take)
    then have "records_text (take n rs) = records_text (take i rs) @ records_text (drop i (take n rs))"
      by (metis concat_append map_append records_text_def)
    moreover have "length (take k (records_text rs)) \<le> k" by simp
    ultimately show ?thesis unfolding eq by simp
  qed
  have "filter (\<lambda>i. length (records_text (take i rs)) \<le> k) [1..<length rs + 1]
      = filter (\<lambda>i. i \<le> n) [1..<length rs + 1]"
  proof (rule filter_cong [OF refl])
    fix i assume "i \<in> set [1..<length rs + 1]"
    then have "i \<le> length rs" by auto
    then show "length (records_text (take i rs)) \<le> k \<longleftrightarrow> i \<le> n" using le [of i] max [of i] by blast
  qed
  moreover have "length (filter (\<lambda>i. i \<le> n) [1..<length rs + 1]) = card ({i. i \<le> n} \<inter> set [1..<length rs + 1])"
    by (rule distinct_length_filter) simp
  moreover have "{i. i \<le> n} \<inter> set [1..<length rs + 1] = {1..n}"
    using n by auto
  ultimately have count: "length (filter (\<lambda>i. length (records_text (take i rs)) \<le> k) [1..<length rs + 1]) = n"
    by simp
  have "recoverTruncatedRecords (take k (records_text rs)) =
      (if n = 0 then None else Some (map record_value (take n rs)))"
  proof (cases "n = 0")
    case False
    then have "take n rs \<noteq> []" using n by auto
    then show ?thesis unfolding eq using completed_records [OF frag, of "take n rs"] False by simp
  next
    case True
    then show ?thesis unfolding eq using completed_records [OF frag, of "[]"] by (simp add: records_text_def)
  qed
  then show ?thesis unfolding Let_def count .
qed

end
