(* ===== verification/Numbered_Region.thy ===== *)
theory Numbered_Region
  imports Range_Records
begin

text \<open>
  The numbered region that compaction ranks (\<open>core/compaction/transcript-serialization.ts\<close>,
  \<open>compaction-types.ts\<close>, and \<open>contiguousRanges\<close> of \<open>utils.ts\<close>): the lines of a serialized
  transcript, its role headers, the markers left by earlier compactions, and the lines protected by
  \<open>keepContext\<close> spans.  Line numbers count from 1.
\<close>

subsection \<open>Data\<close>

record line_range =
  lr_start :: int
  lr_end :: int

record numbered_region =
  nr_lines :: "jstr list"
  nr_headerLineNumbers :: "int list"
  nr_priorMarkerNs :: "(int, int) jmap"
  nr_protectedLineNumbers :: "int list option"
  nr_tokenEstimate :: nat

definition protected_lines :: "numbered_region \<Rightarrow> int set" where
  "protected_lines r = (case nr_protectedLineNumbers r of None \<Rightarrow> {} | Some ls \<Rightarrow> set ls)"

subsection \<open>The line grammar\<close>

definition filteredMarker :: "int \<Rightarrow> jstr" where
  "filteredMarker lineCount = js ''(filtered '' @ js_int lineCount @ js '' lines)''"

text \<open>\<open>/^\(filtered (\d+) lines\)$/\<close>: the number between the fixed texts, if it is all digits.\<close>

definition strip_affixes :: "jstr \<Rightarrow> jstr \<Rightarrow> jstr \<Rightarrow> jstr option" where
  "strip_affixes pre post s =
     (if js_startsWith s pre \<and> length pre + length post \<le> length s \<and>
         drop (length s - length post) s = post
      then Some (take (length s - length pre - length post) (drop (length pre) s)) else None)"

definition filtered_marker_count :: "jstr \<Rightarrow> int option" where
  "filtered_marker_count line =
     (case strip_affixes (js ''(filtered '') (js '' lines)'') line of
        None \<Rightarrow> None
      | Some ds \<Rightarrow> (if ds \<noteq> [] \<and> list_all js_digit ds then Some (int (js_number ds)) else None))"

datatype role = RoleUser | RoleAssistant | RoleThinking | RoleToolCalls | RoleToolResult

text \<open>\<open>ROLE_HEADER_RE\<close>: the role and the text after the header.\<close>

definition role_headers :: "(jstr \<times> role) list" where
  "role_headers =
     [(js ''[User]: '', RoleUser), (js ''[Assistant]: '', RoleAssistant),
      (js ''[Assistant thinking]: '', RoleThinking), (js ''[Assistant tool calls]: '', RoleToolCalls),
      (js ''[Tool result]: '', RoleToolResult)]"

fun match_header :: "(jstr \<times> role) list \<Rightarrow> jstr \<Rightarrow> (role \<times> jstr) option" where
  "match_header [] line = None"
| "match_header ((h, r) # hs) line =
     (if js_startsWith line h then Some (r, drop (length h) line) else match_header hs line)"

definition role_header :: "jstr \<Rightarrow> (role \<times> jstr) option" where
  "role_header line = match_header role_headers line"

definition js_lower :: "code_unit \<Rightarrow> code_unit" where
  "js_lower c = (if 65 \<le> c \<and> c \<le> 90 then c + 32 else c)"

datatype keep_marker = MarkOpen | MarkClose

text \<open>The tag must be the whole line after an optional header, whatever the case of its letters.  (Under
  the flag \<open>i\<close> only the two ASCII cases of a letter match each other.)\<close>

definition keepContextMarker :: "jstr \<Rightarrow> keep_marker option" where
  "keepContextMarker line =
     (let body = js_trim (case role_header line of None \<Rightarrow> line | Some (r, rest) \<Rightarrow> rest);
          low = map js_lower body
      in if low = js ''<keepcontext>'' then Some MarkOpen
         else if low = js ''</keepcontext>'' then Some MarkClose
         else None)"

definition roleMayProtect :: "role option \<Rightarrow> bool" where
  "roleMayProtect r \<longleftrightarrow> r \<noteq> Some RoleToolResult"

subsection \<open>keepContext spans\<close>

record keep_state =
  ks_protected :: "int list"
  ks_open :: "nat option"
  ks_role :: "role option"

definition protectThrough :: "int \<Rightarrow> keep_state \<Rightarrow> keep_state" where
  "protectThrough endIndex st =
     (case ks_open st of
        None \<Rightarrow> st
      | Some openIndex \<Rightarrow>
          st\<lparr>ks_protected := fold js_set_add (map (\<lambda>l. l + 1) [int openIndex..endIndex]) (ks_protected st),
             ks_open := None\<rparr>)"

text \<open>The body of the loop over the lines.\<close>

definition keep_step :: "nat \<Rightarrow> jstr \<Rightarrow> keep_state \<Rightarrow> keep_state" where
  "keep_step index line st =
     (let st = (case role_header line of
                  None \<Rightarrow> st
                | Some (r, rest) \<Rightarrow> (protectThrough (int index - 1) st)\<lparr>ks_role := Some r\<rparr>)
      in if \<not> roleMayProtect (ks_role st) then st
         else (case keepContextMarker line of
                 Some MarkOpen \<Rightarrow> (if ks_open st = None then st\<lparr>ks_open := Some index\<rparr> else st)
               | Some MarkClose \<Rightarrow> protectThrough (int index) st
               | None \<Rightarrow> st))"

fun keep_loop :: "nat \<Rightarrow> jstr list \<Rightarrow> keep_state \<Rightarrow> keep_state" where
  "keep_loop index [] st = st"
| "keep_loop index (line # rest) st = keep_loop (index + 1) rest (keep_step index line st)"

definition keep_init :: keep_state where
  "keep_init = \<lparr>ks_protected = [], ks_open = None, ks_role = None\<rparr>"

definition keepContextLineNumbers :: "jstr list \<Rightarrow> int list" where
  "keepContextLineNumbers lines =
     ks_protected (protectThrough (int (length lines) - 1) (keep_loop 0 lines keep_init))"

subsection \<open>The region\<close>

fun scan_lines :: "int \<Rightarrow> jstr list \<Rightarrow> int list \<times> (int, int) jmap" where
  "scan_lines n [] = ([], [])"
| "scan_lines n (line # rest) =
     (case scan_lines (n + 1) rest of
        (headers, markers) \<Rightarrow>
          (if role_header line \<noteq> None then n # headers else headers,
           case filtered_marker_count line of None \<Rightarrow> markers | Some c \<Rightarrow> (n, c) # markers))"

definition createNumberedRegion :: "jstr \<Rightarrow> int list option \<Rightarrow> numbered_region" where
  "createNumberedRegion s protectedLineNumbers =
     (let lines = js_split js_LF s;
          (headers, markers) = scan_lines 1 lines;
          detected = keepContextLineNumbers lines;
          merged = (case protectedLineNumbers of
                      None \<Rightarrow> detected | Some ls \<Rightarrow> fold js_set_add detected (fold js_set_add ls []))
      in \<lparr>nr_lines = lines, nr_headerLineNumbers = headers, nr_priorMarkerNs = markers,
          nr_protectedLineNumbers = (if 0 < length merged then Some merged else None),
          nr_tokenEstimate = js_ceil_div (length s) 4\<rparr>)"

definition numberRegionLines :: "numbered_region \<Rightarrow> int \<Rightarrow> int \<Rightarrow> jstr" where
  "numberRegionLines r start stop =
     (let first = max 1 start;
          final = min (int (length (nr_lines r))) stop
      in if final < first then []
         else js_join [js_LF]
           (map (\<lambda>(i, line). js_int i @ [0x2192] @ line)
             (zip [first..final] (drop (nat (first - 1)) (take (nat final) (nr_lines r))))))"

text \<open>\<open>contiguousRanges\<close>: ascending runs of a set of line numbers.\<close>

definition run_step :: "line_range list \<Rightarrow> int \<Rightarrow> line_range list" where
  "run_step ranges line =
     (if ranges \<noteq> [] \<and> line = lr_end (last ranges) + 1
      then butlast ranges @ [(last ranges)\<lparr>lr_end := line\<rparr>]
      else ranges @ [\<lparr>lr_start = line, lr_end = line\<rparr>])"

definition contiguousRanges :: "int list \<Rightarrow> line_range list" where
  "contiguousRanges lines = foldl run_step [] (sort lines)"

subsection \<open>Markers print and scan back\<close>

lemma strip_affixes_append [simp]: "strip_affixes pre post (pre @ s @ post) = Some s"
  by (simp add: strip_affixes_def js_startsWith_def)

lemma filtered_marker_roundtrip: "0 \<le> n \<Longrightarrow> filtered_marker_count (filteredMarker n) = Some n"
  using js_nat_digits by (auto simp: filtered_marker_count_def filteredMarker_def js_int_def list_all_iff)

lemma set_fold_add [simp]: "set (fold js_set_add xs ys) = set xs \<union> set ys"
  by (induction xs arbitrary: ys) auto

lemma distinct_fold_add [simp]: "distinct ys \<Longrightarrow> distinct (fold js_set_add xs ys)"
  by (induction xs arbitrary: ys) auto

lemma scan_lines_markers:
  "scan_lines n lines = (hs, ms) \<Longrightarrow>
     distinct (map fst ms) \<and> (\<forall>(l, c) \<in> set ms. n \<le> l \<and> l < n + int (length lines) \<and>
       filtered_marker_count (lines ! nat (l - n)) = Some c)"
proof (induction lines arbitrary: n hs ms)
  case (Cons line rest)
  obtain hs' ms' where r: "scan_lines (n + 1) rest = (hs', ms')" by (cases "scan_lines (n + 1) rest")
  have IH: "distinct (map fst ms')"
    "\<And>l c. (l, c) \<in> set ms' \<Longrightarrow> n + 1 \<le> l \<and> l < n + 1 + int (length rest) \<and>
       filtered_marker_count (rest ! nat (l - (n + 1))) = Some c"
    using Cons.IH [OF r] by auto
  have nth: "(line # rest) ! nat (l - n) = rest ! nat (l - (n + 1))" if "n + 1 \<le> l" for l
  proof -
    have "nat (l - n) = Suc (nat (l - (n + 1)))" using that by simp
    then show ?thesis by simp
  qed
  have ms: "ms = (case filtered_marker_count line of None \<Rightarrow> ms' | Some c \<Rightarrow> (n, c) # ms')"
    using Cons.prems r by simp
  show ?case
  proof (cases "filtered_marker_count line")
    case None
    then show ?thesis using ms IH nth by fastforce
  next
    case (Some c)
    have "n \<notin> fst ` set ms'" using IH(2) by fastforce
    then show ?thesis using ms Some IH nth by fastforce
  qed
qed simp

subsection \<open>Which lines a span protects\<close>

text \<open>The reference: walk through the lines with the role in force and whether a span is live.  A
  header ends a live span; in a message that may protect, a line is kept when a span is live or the
  line opens one; a closing line ends the span after itself.\<close>

fun kept_flags :: "role option \<Rightarrow> bool \<Rightarrow> jstr list \<Rightarrow> bool list" where
  "kept_flags r live [] = []"
| "kept_flags r live (line # rest) =
     (let r' = (case role_header line of None \<Rightarrow> r | Some (q, body) \<Rightarrow> Some q);
          live' = (live \<and> role_header line = None);
          kept = (roleMayProtect r' \<and> (live' \<or> keepContextMarker line = Some MarkOpen))
      in kept # kept_flags r' (kept \<and> keepContextMarker line \<noteq> Some MarkClose) rest)"

lemma length_kept_flags [simp]: "length (kept_flags r live lines) = length lines"
  by (induction lines arbitrary: r live) (simp_all add: Let_def)

lemma ex_nat_split: "(\<exists>i. P i) \<longleftrightarrow> P 0 \<or> (\<exists>i. P (Suc i))"
  by (metis not0_implies_Suc)

definition span_lines :: "nat \<Rightarrow> keep_state \<Rightarrow> int set" where
  "span_lines index st = set (ks_protected (protectThrough (int index - 1) st))"

definition keep_ok :: "nat \<Rightarrow> keep_state \<Rightarrow> bool" where
  "keep_ok index st \<longleftrightarrow>
     (case ks_open st of None \<Rightarrow> True | Some o' \<Rightarrow> o' < index \<and> roleMayProtect (ks_role st))"

lemma protectThrough_None [simp]: "ks_open st = None \<Longrightarrow> protectThrough e st = st"
  by (simp add: protectThrough_def)

lemma ks_open_protectThrough [simp]: "ks_open (protectThrough e st) = None"
  by (cases "ks_open st") (simp_all add: protectThrough_def)

lemma ks_role_protectThrough [simp]: "ks_role (protectThrough e st) = ks_role st"
  by (cases "ks_open st") (simp_all add: protectThrough_def)

lemma span_lines_None: "ks_open st = None \<Longrightarrow> span_lines index st = set (ks_protected st)"
  by (simp add: span_lines_def)

lemma span_lines_Some:
  "ks_open st = Some o' \<Longrightarrow> span_lines index st = set (ks_protected st) \<union> {int o' + 1..int index}"
  by (auto simp: span_lines_def protectThrough_def image_iff intro!: bexI [of _ "_ - 1"])

lemma protected_protectThrough: "set (ks_protected (protectThrough (int index - 1) st)) = span_lines index st"
  by (simp add: span_lines_def)

lemma keep_step_spec:
  fixes index line st
  defines "st' \<equiv> keep_step index line st"
    and "r' \<equiv> (case role_header line of None \<Rightarrow> ks_role st | Some (q, body) \<Rightarrow> Some q)"
    and "live' \<equiv> (ks_open st \<noteq> None \<and> role_header line = None)"
  defines "kept \<equiv> (roleMayProtect r' \<and> (live' \<or> keepContextMarker line = Some MarkOpen))"
  assumes ok: "keep_ok index st"
  shows "keep_ok (Suc index) st'" and "ks_role st' = r'"
    and "ks_open st' \<noteq> None \<longleftrightarrow> kept \<and> keepContextMarker line \<noteq> Some MarkClose"
    and "span_lines (Suc index) st' = span_lines index st \<union> (if kept then {int index + 1} else {})"
proof -
  define s1 where "s1 = (case role_header line of
      None \<Rightarrow> st | Some (r, rest) \<Rightarrow> (protectThrough (int index - 1) st)\<lparr>ks_role := Some r\<rparr>)"
  have s1: "ks_role s1 = r'" "ks_open s1 = (if role_header line = None then ks_open st else None)"
    "span_lines index s1 = span_lines index st" "keep_ok index s1"
    using ok by (auto simp: s1_def r'_def span_lines_None protected_protectThrough keep_ok_def split: option.splits)
  have st': "st' = (if \<not> roleMayProtect (ks_role s1) then s1
         else (case keepContextMarker line of
                 Some MarkOpen \<Rightarrow> (if ks_open s1 = None then s1\<lparr>ks_open := Some index\<rparr> else s1)
               | Some MarkClose \<Rightarrow> protectThrough (int index) s1
               | None \<Rightarrow> s1))"
    by (simp only: st'_def keep_step_def s1_def Let_def)
  have live: "live' \<longleftrightarrow> ks_open s1 \<noteq> None" by (simp add: live'_def s1(2))
  have may: "ks_open s1 \<noteq> None \<Longrightarrow> roleMayProtect r'"
    using s1(1,4) by (auto simp: keep_ok_def)
  have less: "ks_open s1 = Some o' \<Longrightarrow> o' < index" for o'
    using s1(4) by (simp add: keep_ok_def)
  have close: "span_lines (Suc index) (protectThrough (int index) s1) = span_lines (Suc index) s1"
    by (simp add: span_lines_def)
  have grow: "span_lines (Suc index) s1 = span_lines index s1 \<union> (if ks_open s1 \<noteq> None then {int index + 1} else {})"
    using less by (cases "ks_open s1") (auto simp: span_lines_None span_lines_Some)
  have opened: "span_lines (Suc index) (s1\<lparr>ks_open := Some index\<rparr>) = span_lines index s1 \<union> {int index + 1}"
    if "ks_open s1 = None"
    using that by (auto simp: span_lines_None span_lines_Some)
  show "keep_ok (Suc index) st'"
    using s1(1,4) unfolding st' by (auto simp: keep_ok_def split: option.splits keep_marker.splits)
  show "ks_role st' = r'"
    using s1(1) unfolding st' by (auto split: option.splits keep_marker.splits)
  show "ks_open st' \<noteq> None \<longleftrightarrow> kept \<and> keepContextMarker line \<noteq> Some MarkClose"
    using may s1(1) unfolding st' kept_def live by (auto split: option.splits keep_marker.splits)
  show "span_lines (Suc index) st' = span_lines index st \<union> (if kept then {int index + 1} else {})"
    using may s1(1) opened close grow unfolding st' kept_def live s1(3) [symmetric]
    by (auto split: option.splits keep_marker.splits)
qed

lemma keep_loop_spec:
  assumes "keep_ok index st"
  shows "span_lines (index + length lines) (keep_loop index lines st) =
    span_lines index st \<union>
    {int (index + i) + 1 |i. i < length lines \<and> kept_flags (ks_role st) (ks_open st \<noteq> None) lines ! i}"
  using assms
proof (induction lines arbitrary: index st)
  case (Cons line rest)
  note step = keep_step_spec [OF Cons.prems, of line]
  let ?st = "keep_step index line st"
  let ?flags = "kept_flags (ks_role st) (ks_open st \<noteq> None) (line # rest)"
  have flags: "?flags = (hd ?flags) # kept_flags (ks_role ?st) (ks_open ?st \<noteq> None) rest"
    by (simp add: Let_def step(2,3) del: not_None_eq)
  have split: "{int (index + i) + 1 |i. i < length (line # rest) \<and> ?flags ! i} =
      (if hd ?flags then {int index + 1} else {}) \<union>
      {int (Suc index + i) + 1 |i. i < length rest \<and> kept_flags (ks_role ?st) (ks_open ?st \<noteq> None) rest ! i}"
    (is "?L = ?R")
  proof (rule set_eqI)
    fix x
    have "x \<in> ?L \<longleftrightarrow> (\<exists>i. x = int (index + i) + 1 \<and> i < Suc (length rest) \<and> ?flags ! i)" by auto
    also have "\<dots> \<longleftrightarrow> (hd ?flags \<and> x = int index + 1) \<or>
        (\<exists>i. x = int (Suc index + i) + 1 \<and> i < length rest \<and> kept_flags (ks_role ?st) (ks_open ?st \<noteq> None) rest ! i)"
      by (subst (1) flags, subst ex_nat_split) (auto simp del: kept_flags.simps)
    also have "\<dots> \<longleftrightarrow> x \<in> ?R" by (auto simp del: kept_flags.simps)
    finally show "x \<in> ?L \<longleftrightarrow> x \<in> ?R" .
  qed
  have hd: "span_lines (Suc index) ?st = span_lines index st \<union> (if hd ?flags then {int index + 1} else {})"
    using step(4) by (simp add: Let_def)
  show ?case
    using Cons.IH [OF step(1)] unfolding split hd by (simp add: Un_assoc)
qed simp

lemma keepContext_kept:
  "set (keepContextLineNumbers lines) = {int i + 1 |i. i < length lines \<and> kept_flags None False lines ! i}"
proof -
  have ok: "keep_ok 0 keep_init" by (simp add: keep_ok_def keep_init_def)
  have "span_lines 0 keep_init = {}" by (simp add: span_lines_def keep_init_def)
  moreover have "set (keepContextLineNumbers lines) = span_lines (length lines) (keep_loop 0 lines keep_init)"
    by (simp add: keepContextLineNumbers_def span_lines_def)
  ultimately show ?thesis
    using keep_loop_spec [OF ok, of lines] by (simp add: keep_init_def)
qed

definition role_at :: "role option \<Rightarrow> jstr list \<Rightarrow> nat \<Rightarrow> role option" where
  "role_at r lines i =
     foldl (\<lambda>r line. case role_header line of None \<Rightarrow> r | Some (q, body) \<Rightarrow> Some q) r (take (Suc i) lines)"

lemma kept_flags_role:
  "i < length lines \<Longrightarrow> kept_flags r live lines ! i \<Longrightarrow> roleMayProtect (role_at r lines i)"
proof (induction lines arbitrary: r live i)
  case (Cons line rest)
  then show ?case by (cases i) (auto simp: role_at_def Let_def)
qed simp

lemma keepContext_bounds: "l \<in> set (keepContextLineNumbers lines) \<Longrightarrow> 1 \<le> l \<and> l \<le> int (length lines)"
  by (auto simp: keepContext_kept)

subsection \<open>Properties\<close>

text \<open>\<open>keepContext\<close> protects exactly the lines of the reference walk (from an opening line to
  its closing line or to the end of its message, tags included), and never a line whose role is
  that of a tool result.\<close>

theorem keepContext_exact_and_untrusted_free:
  "set (keepContextLineNumbers lines) = {int i + 1 |i. i < length lines \<and> kept_flags None False lines ! i} \<and>
   set (keepContextLineNumbers lines) \<inter>
     {int i + 1 |i. i < length lines \<and> role_at None lines i = Some RoleToolResult} = {}"
  using kept_flags_role [of _ lines None False] by (auto simp: keepContext_kept roleMayProtect_def)

text \<open>An opening line without a closing line protects its whole message.  (The comment above
  the tag patterns says that an unmatched opener protects nothing; the comment of the function and
  the code say that it protects through the end of its own message.)\<close>

theorem unclosed_span_protects_message:
  "let lines = map js [''[User]: <keepContext>'', ''a'', ''b'', ''[Assistant]: c'']
   in set (keepContextLineNumbers lines) = {1, 2, 3}"
proof -
  have "kept_flags None False (map js [''[User]: <keepContext>'', ''a'', ''b'', ''[Assistant]: c''])
      = [True, True, True, False]"
    by code_simp
  then show ?thesis
    by (auto simp: keepContext_kept Let_def less_Suc_eq numeral_eq_Suc simp del: kept_flags.simps list.map)
qed

end
