(* ===== verification/Deleted_Ranges.thy ===== *)
theory Deleted_Ranges
  imports Numbered_Region "HOL-Library.Product_Lexorder"
begin

text \<open>
  From untrusted deletion ranges to a compacted transcript (\<open>core/compaction/deleted-ranges.ts\<close>):
  normalisation, merging, splitting around protected lines, folding of old markers that touch a
  deleted line, and the mechanical reconstruction of the text.

  \<open>Number(s)\<close> of an arbitrary string is the parameter \<open>strnum\<close>; the planner's records only hold
  numbers.  Percentages are computed exactly here, in double arithmetic in the source.
\<close>

subsection \<open>Normalising ranges\<close>

definition coerceEndpoint :: "(jstr \<Rightarrow> js_num) \<Rightarrow> endpoint option \<Rightarrow> int option" where
  "coerceEndpoint strnum v =
     (case v of
        None \<Rightarrow> None
      | Some e \<Rightarrow>
          (case (case e of
                   EpNumber n \<Rightarrow> n
                 | EpString s \<Rightarrow> strnum s
                 | EpBool b \<Rightarrow> JFinite (if b then 1 else 0)
                 | EpNull \<Rightarrow> JFinite 0) of
             JFinite q \<Rightarrow> Some (js_trunc q)
           | JNonFinite \<Rightarrow> None))"

definition normalize_range :: "(jstr \<Rightarrow> js_num) \<Rightarrow> int \<Rightarrow> raw_range \<Rightarrow> line_range option" where
  "normalize_range strnum totalLines candidate =
     (case (coerceEndpoint strnum (raw_start candidate), coerceEndpoint strnum (raw_end candidate)) of
        (Some a, Some b) \<Rightarrow>
          (let (a, b) = (if a > b then (b, a) else (a, b));
               start = max 1 a;
               stop = min totalLines b
           in if start \<le> stop then Some \<lparr>lr_start = start, lr_end = stop\<rparr> else None)
      | _ \<Rightarrow> None)"

definition merge_step :: "line_range list \<Rightarrow> line_range \<Rightarrow> line_range list" where
  "merge_step merged rng =
     (if merged \<noteq> [] \<and> lr_start rng \<le> lr_end (last merged) + 1
      then butlast merged @ [(last merged)\<lparr>lr_end := max (lr_end (last merged)) (lr_end rng)\<rparr>]
      else merged @ [rng])"

definition mergeRanges :: "line_range list \<Rightarrow> line_range list" where
  "mergeRanges ranges = foldl merge_step [] ranges"

definition split_step :: "int set \<Rightarrow> line_range list \<times> int \<Rightarrow> int \<Rightarrow> line_range list \<times> int" where
  "split_step prot st line =
     (case st of (fragments, start) \<Rightarrow>
        (if line \<notin> prot then (fragments, start)
         else (if start < line then fragments @ [\<lparr>lr_start = start, lr_end = line - 1\<rparr>] else fragments,
               line + 1)))"

definition splitAroundProtected :: "line_range \<Rightarrow> int set \<Rightarrow> line_range list" where
  "splitAroundProtected rng prot =
     (case foldl (split_step prot) ([], lr_start rng) [lr_start rng..lr_end rng] of
        (fragments, start) \<Rightarrow>
          (if start \<le> lr_end rng then fragments @ [\<lparr>lr_start = start, lr_end = lr_end rng\<rparr>]
           else fragments))"

definition validateDeletedRanges :: "(jstr \<Rightarrow> js_num) \<Rightarrow> raw_range list \<Rightarrow> numbered_region \<Rightarrow> line_range list" where
  "validateDeletedRanges strnum raw region =
     (let totalLines = int (length (nr_lines region));
          normalized = List.map_filter (normalize_range strnum totalLines) raw;
          sorted_ranges = sort_key (\<lambda>r. (lr_start r, lr_end r)) normalized
      in concat (map (\<lambda>rng. splitAroundProtected rng (protected_lines region)) (mergeRanges sorted_ranges)))"

subsection \<open>Deleted lines and old markers\<close>

text \<open>A write at an index outside the array does nothing here (JavaScript would extend the array);
  validated ranges and the marker table only hold lines of the region.\<close>

definition rangesToDeletedLines :: "line_range list \<Rightarrow> nat \<Rightarrow> bool list" where
  "rangesToDeletedLines ranges lineCount =
     foldl (\<lambda>deleted rng.
       foldl (\<lambda>deleted line. deleted[nat (line - 1) := True]) deleted [lr_start rng..lr_end rng])
       (replicate lineCount False) ranges"

definition fold_marker :: "bool list \<times> bool \<Rightarrow> int \<Rightarrow> bool list \<times> bool" where
  "fold_marker st lineNumber =
     (case st of (deleted, changed) \<Rightarrow>
        (let index = nat (lineNumber - 1)
         in if lineNumber < 1 \<or> length deleted \<le> index \<or> deleted ! index then (deleted, changed)
            else (let previousDeleted = (0 < index \<and> deleted ! (index - 1));
                      nextDeleted = (index + 1 < length deleted \<and> deleted ! (index + 1))
                  in if previousDeleted \<or> nextDeleted then (deleted[index := True], True)
                     else (deleted, changed))))"

definition fold_pass :: "int list \<Rightarrow> bool list \<Rightarrow> bool list \<times> bool" where
  "fold_pass markers deleted = foldl fold_marker (deleted, False) markers"

definition count_kept :: "bool list \<Rightarrow> nat" where
  "count_kept deleted = length (filter Not deleted)"

lemma count_kept_update: "i < length d \<Longrightarrow> \<not> d ! i \<Longrightarrow> count_kept (d[i := True]) < count_kept d"
proof (induction d arbitrary: i)
  case (Cons x d)
  then show ?case by (cases i) (auto simp: count_kept_def)
qed simp

lemma fold_marker_cases:
  assumes "fold_marker (d, c) l = (d', c')"
  shows "(d' = d \<and> c' = c) \<or>
    (1 \<le> l \<and> nat (l - 1) < length d \<and> \<not> d ! nat (l - 1) \<and> d' = d[nat (l - 1) := True] \<and> c')"
  using assms by (auto simp: fold_marker_def Let_def split: if_splits)

lemma fold_marker_count:
  assumes "fold_marker (d, c) l = (d', c')"
  shows "count_kept d' \<le> count_kept d" and "c' \<Longrightarrow> \<not> c \<Longrightarrow> count_kept d' < count_kept d"
  using fold_marker_cases [OF assms] count_kept_update [of "nat (l - 1)" d] by auto

lemma foldl_marker_count:
  "foldl fold_marker (d, c) ls = (d', c') \<Longrightarrow>
     count_kept d' \<le> count_kept d \<and> (c' \<longrightarrow> \<not> c \<longrightarrow> count_kept d' < count_kept d)"
proof (induction ls arbitrary: d c)
  case (Cons l ls)
  obtain d1 c1 where s: "fold_marker (d, c) l = (d1, c1)" by (cases "fold_marker (d, c) l")
  with Cons.prems have "foldl fold_marker (d1, c1) ls = (d', c')" by simp
  from Cons.IH [OF this] fold_marker_count [OF s] show ?case by auto
qed simp

text \<open>The \<open>while (changed)\<close> loop: every pass that changes something deletes one more line.\<close>

function fold_loop :: "int list \<Rightarrow> bool list \<Rightarrow> bool list" where
  "fold_loop markers deleted =
     (case fold_pass markers deleted of
        (deleted', changed) \<Rightarrow> (if changed then fold_loop markers deleted' else deleted'))"
  by pat_completeness auto

termination
  by (relation "measure (\<lambda>(_, deleted). count_kept deleted)")
    (auto simp: fold_pass_def dest!: sym [of "(_, True)"] foldl_marker_count)

declare fold_loop.simps [simp del]

text \<open>The runs of deleted lines; the last call is the sentinel iteration.\<close>

fun collect_ranges :: "int \<Rightarrow> int option \<Rightarrow> bool list \<Rightarrow> line_range list" where
  "collect_ranges index start [] =
     (case start of None \<Rightarrow> [] | Some s \<Rightarrow> [\<lparr>lr_start = s, lr_end = index\<rparr>])"
| "collect_ranges index start (isDeleted # rest) =
     (if isDeleted
      then collect_ranges (index + 1) (case start of None \<Rightarrow> Some (index + 1) | Some s \<Rightarrow> Some s) rest
      else (case start of
              None \<Rightarrow> collect_ranges (index + 1) None rest
            | Some s \<Rightarrow> \<lparr>lr_start = s, lr_end = index\<rparr> # collect_ranges (index + 1) None rest))"

definition foldAdjacentMarkers :: "numbered_region \<Rightarrow> line_range list \<Rightarrow> line_range list" where
  "foldAdjacentMarkers region ranges =
     collect_ranges 0 None
       (fold_loop (jm_keys (nr_priorMarkerNs region))
         (rangesToDeletedLines ranges (length (nr_lines region))))"

definition cumulativeDeletedCount :: "numbered_region \<Rightarrow> line_range \<Rightarrow> int" where
  "cumulativeDeletedCount region rng =
     foldl (\<lambda>count line. case jm_get (nr_priorMarkerNs region) line of
                None \<Rightarrow> count | Some priorCount \<Rightarrow> count + (priorCount - 1))
       (lr_end rng - lr_start rng + 1) [lr_start rng..lr_end rng]"

subsection \<open>Reconstruction\<close>

record compaction_stats =
  cs_linesBefore :: nat
  cs_linesDeleted :: int
  cs_linesKept :: int
  cs_rangeCount :: nat
  cs_tokensBefore :: nat
  cs_tokensAfter :: nat
  cs_percentReduction :: rat

record compacted_transcript =
  ct_text :: jstr
  ct_ranges :: "line_range list"
  ct_keptRanges :: "line_range list"
  ct_stats :: compaction_stats

fun output_loop :: "numbered_region \<Rightarrow> line_range list \<Rightarrow> int \<Rightarrow> jstr list" where
  "output_loop region [] line = drop (nat (line - 1)) (nr_lines region)"
| "output_loop region (rng # ranges) line =
     take (nat (lr_start rng - line)) (drop (nat (line - 1)) (nr_lines region))
     @ filteredMarker (cumulativeDeletedCount region rng)
     # output_loop region ranges (lr_end rng + 1)"

definition percent_reduction :: "nat \<Rightarrow> nat \<Rightarrow> rat" where
  "percent_reduction tokensAfter tokensBefore =
     (if tokensBefore = 0 then 0
      else of_int (js_round ((1 - of_nat tokensAfter / of_nat tokensBefore) * 1000)) / 10)"

definition reconstructCompactedTranscript ::
  "numbered_region \<Rightarrow> line_range list \<Rightarrow> compacted_transcript" where
  "reconstructCompactedTranscript region ranges =
     (let finalRanges = foldAdjacentMarkers region ranges;
          out = js_join [js_LF] (output_loop region finalRanges 1);
          linesDeleted = foldl (\<lambda>s r. s + lr_end r - lr_start r + 1) 0 finalRanges;
          tokensAfter = js_ceil_div (length out) 4
      in \<lparr>ct_text = out, ct_ranges = finalRanges,
          ct_keptRanges = contiguousRanges
            (case nr_protectedLineNumbers region of None \<Rightarrow> [] | Some ls \<Rightarrow> ls),
          ct_stats = \<lparr>cs_linesBefore = length (nr_lines region), cs_linesDeleted = linesDeleted,
            cs_linesKept = int (length (nr_lines region)) - linesDeleted,
            cs_rangeCount = length finalRanges, cs_tokensBefore = nr_tokenEstimate region,
            cs_tokensAfter = tokensAfter,
            cs_percentReduction = percent_reduction tokensAfter (nr_tokenEstimate region)\<rparr>\<rparr>)"

subsection \<open>Canonical ranges\<close>

definition covers :: "line_range list \<Rightarrow> int set" where
  "covers rs = (\<Union>r \<in> set rs. {lr_start r..lr_end r})"

definition canonical :: "line_range list \<Rightarrow> bool" where
  "canonical rs \<longleftrightarrow> sorted_wrt (\<lambda>a b. lr_end a + 1 < lr_start b) rs \<and> (\<forall>r \<in> set rs. lr_start r \<le> lr_end r)"

lemma covers_simps [simp]:
  "covers [] = {}" "covers (r # rs) = {lr_start r..lr_end r} \<union> covers rs"
  "covers (xs @ ys) = covers xs \<union> covers ys"
  by (auto simp: covers_def)

lemma canonical_snoc:
  "canonical (xs @ [r]) \<longleftrightarrow> canonical xs \<and> lr_start r \<le> lr_end r \<and> (\<forall>x \<in> set xs. lr_end x + 1 < lr_start r)"
  by (auto simp: canonical_def sorted_wrt_append)

lemma in_covers:
  "canonical rs \<Longrightarrow> r \<in> set rs \<Longrightarrow> lr_start r \<in> covers rs \<and> lr_end r \<in> covers rs"
  by (fastforce simp: covers_def canonical_def)

lemma merge_loop:
  assumes "canonical acc" and "sorted_wrt (\<lambda>a b. lr_start a \<le> lr_start b) rs"
    and "\<forall>r \<in> set rs. lr_start r \<le> lr_end r"
    and "acc \<noteq> [] \<longrightarrow> (\<forall>r \<in> set rs. lr_start (last acc) \<le> lr_start r)"
  shows "canonical (foldl merge_step acc rs) \<and> covers (foldl merge_step acc rs) = covers acc \<union> covers rs"
  using assms
proof (induction rs arbitrary: acc)
  case (Cons r rs)
  have r: "lr_start r \<le> lr_end r" and rs: "\<forall>x \<in> set rs. lr_start r \<le> lr_start x" using Cons.prems by auto
  show ?case
  proof (cases "acc \<noteq> [] \<and> lr_start r \<le> lr_end (last acc) + 1")
    case True
    then obtain xs l where acc: "acc = xs @ [l]" by (metis append_butlast_last_id)
    let ?l = "l\<lparr>lr_end := max (lr_end l) (lr_end r)\<rparr>"
    have step: "merge_step acc r = xs @ [?l]" using True by (simp add: merge_step_def acc)
    have "canonical (xs @ [?l])" using Cons.prems(1) by (auto simp: acc canonical_snoc)
    moreover have "covers (xs @ [?l]) = covers acc \<union> {lr_start r..lr_end r}"
      using True Cons.prems(1,4) r by (auto simp: acc canonical_snoc)
    ultimately show ?thesis
      using Cons.IH [of "xs @ [?l]"] Cons.prems rs unfolding foldl.simps step by (auto simp: acc)
  next
    case False
    then have step: "merge_step acc r = acc @ [r]" by (auto simp: merge_step_def)
    have far: "lr_end x + 1 < lr_start r" if "x \<in> set acc" for x
    proof -
      from that obtain xs l where acc: "acc = xs @ [l]" by (metis append_butlast_last_id list.set(1) empty_iff)
      have "lr_end l + 1 < lr_start r" using False by (auto simp: acc)
      moreover have "lr_end x + 1 < lr_start l \<or> x = l" "lr_start l \<le> lr_end l"
        using that Cons.prems(1) by (auto simp: acc canonical_snoc)
      ultimately show ?thesis by auto
    qed
    then have "canonical (acc @ [r])" using Cons.prems(1) r by (simp add: canonical_snoc)
    then show ?thesis using Cons.IH [of "acc @ [r]"] Cons.prems rs by (auto simp: step)
  qed
qed simp

lemma mergeRanges_canonical:
  assumes "sorted_wrt (\<lambda>a b. lr_start a \<le> lr_start b) rs" and "\<forall>r \<in> set rs. lr_start r \<le> lr_end r"
  shows "canonical (mergeRanges rs)" and "covers (mergeRanges rs) = covers rs"
  using merge_loop [of "[]" rs] assms by (simp_all add: mergeRanges_def canonical_def)

text \<open>Splitting one range.\<close>

definition split_ok :: "int set \<Rightarrow> int \<Rightarrow> int \<Rightarrow> line_range list \<times> int \<Rightarrow> bool" where
  "split_ok prot a k st \<longleftrightarrow>
     (case st of (fragments, start) \<Rightarrow>
        canonical fragments \<and> covers fragments = {a..start - 1} - prot \<and> a \<le> start \<and> start \<le> k + 1 \<and>
        {start..k} \<inter> prot = {} \<and> (\<forall>f \<in> set fragments. lr_end f + 1 < start))"

lemma split_loop_ok:
  "a - 1 \<le> k \<Longrightarrow> split_ok prot a k (foldl (split_step prot) ([], a) [a..k])"
proof (induction k rule: int_ge_induct)
  case base
  then show ?case by (simp add: split_ok_def canonical_def)
next
  case (step k)
  obtain fs start where st: "foldl (split_step prot) ([], a) [a..k] = (fs, start)"
    by (cases "foldl (split_step prot) ([], a) [a..k]")
  have "[a..k + 1] = [a..k] @ [k + 1]" using step.hyps by (simp add: upto_rec2)
  then have eq: "foldl (split_step prot) ([], a) [a..k + 1] = split_step prot (fs, start) (k + 1)"
    by (simp add: st)
  have inv: "canonical fs" "covers fs = {a..start - 1} - prot" "a \<le> start" "start \<le> k + 1"
    "{start..k} \<inter> prot = {}" "\<forall>f \<in> set fs. lr_end f + 1 < start"
    using step.IH by (simp_all add: split_ok_def st)
  have cut: "{a..k} - prot = covers fs \<union> {start..k}"
    using inv(2-5) by auto
  have grow: "{start..k + 1} \<inter> prot = {}" if "k + 1 \<notin> prot"
    using inv(5) that by (auto simp: disjoint_iff) (metis add.commute atLeastAtMost_iff le_less zle_add1_eq_le)
  have ins: "{a..1 + k} = insert (1 + k) {a..k}" using step.hyps by auto
  show ?case
  proof (cases "k + 1 \<in> prot")
    case True
    then have "{a..1 + k} - prot = covers fs \<union> {start..k}" using cut by (simp add: ins add.commute)
    with True inv show ?thesis
      unfolding eq by (auto simp: split_ok_def split_step_def canonical_snoc add.commute)
  next
    case False
    with inv grow show ?thesis unfolding eq by (auto simp: split_ok_def split_step_def)
  qed
qed

lemma splitAroundProtected_spec:
  assumes "lr_start r \<le> lr_end r"
  shows "canonical (splitAroundProtected r prot)"
    and "covers (splitAroundProtected r prot) = {lr_start r..lr_end r} - prot"
proof -
  obtain fs start where st: "foldl (split_step prot) ([], lr_start r) [lr_start r..lr_end r] = (fs, start)"
    by (cases "foldl (split_step prot) ([], lr_start r) [lr_start r..lr_end r]")
  have "split_ok prot (lr_start r) (lr_end r) (fs, start)"
    using split_loop_ok [of "lr_start r" "lr_end r" prot] assms by (simp add: st)
  then have inv: "canonical fs" "covers fs = {lr_start r..start - 1} - prot" "lr_start r \<le> start"
    "start \<le> lr_end r + 1" "{start..lr_end r} \<inter> prot = {}" "\<forall>f \<in> set fs. lr_end f + 1 < start"
    by (simp_all add: split_ok_def)
  then show "canonical (splitAroundProtected r prot)"
    by (auto simp: splitAroundProtected_def st canonical_snoc)
  show "covers (splitAroundProtected r prot) = {lr_start r..lr_end r} - prot"
    using inv by (auto simp: splitAroundProtected_def st)
qed

lemma fragment_within:
  assumes "canonical fs" and "covers fs \<subseteq> {a..b}" and "f \<in> set fs"
  shows "a \<le> lr_start f" and "lr_end f \<le> b"
  using in_covers [OF assms(1,3)] assms(2) by auto

lemma split_all:
  assumes "canonical rs"
  shows "canonical (concat (map (\<lambda>r. splitAroundProtected r prot) rs)) \<and>
    covers (concat (map (\<lambda>r. splitAroundProtected r prot) rs)) = covers rs - prot"
  using assms
proof (induction rs)
  case (Cons r rs)
  let ?tail = "concat (map (\<lambda>r. splitAroundProtected r prot) rs)"
  have r: "lr_start r \<le> lr_end r" and rs: "canonical rs" and gap: "\<forall>x \<in> set rs. lr_end r + 1 < lr_start x"
    using Cons.prems by (auto simp: canonical_def)
  note spec = splitAroundProtected_spec [OF r, of prot]
  note IH = Cons.IH [OF rs]
  have "lr_end f + 1 < lr_start g" if f: "f \<in> set (splitAroundProtected r prot)" and g: "g \<in> set ?tail" for f g
  proof -
    have "lr_end f \<le> lr_end r"
      using fragment_within(2) [OF spec(1) _ f, of "lr_start r" "lr_end r"] spec(2) by auto
    moreover have "lr_start g \<in> covers ?tail" using in_covers [OF _ g] IH by blast
    then have "lr_start g \<in> covers rs" using IH by blast
    then have "lr_end r + 1 < lr_start g" using gap by (auto simp: covers_def)
    ultimately show ?thesis by simp
  qed
  then show ?case using spec IH by (auto simp: canonical_def sorted_wrt_append)
qed (simp add: canonical_def)

lemma normalize_range_ok:
  "normalize_range strnum n c = Some r \<Longrightarrow> 1 \<le> lr_start r \<and> lr_start r \<le> lr_end r \<and> lr_end r \<le> n"
  by (auto simp: normalize_range_def Let_def split: option.splits if_splits)

text \<open>What a candidate asks to delete.\<close>

definition requested :: "(jstr \<Rightarrow> js_num) \<Rightarrow> int \<Rightarrow> raw_range list \<Rightarrow> int set" where
  "requested strnum n raw = covers (List.map_filter (normalize_range strnum n) raw)"

lemma covers_set: "set xs = set ys \<Longrightarrow> covers xs = covers ys"
  by (simp add: covers_def)

lemma validate_spec:
  "canonical (validateDeletedRanges strnum raw region) \<and>
   covers (validateDeletedRanges strnum raw region) =
     requested strnum (int (length (nr_lines region))) raw - protected_lines region"
proof -
  define ns where "ns = List.map_filter (normalize_range strnum (int (length (nr_lines region)))) raw"
  define ss where "ss = sort_key (\<lambda>r. (lr_start r, lr_end r)) ns"
  have ok: "\<forall>r \<in> set ss. lr_start r \<le> lr_end r"
    using normalize_range_ok by (auto simp: ss_def ns_def map_filter_def)
  have "sorted (map (\<lambda>r. (lr_start r, lr_end r)) ss)" by (simp add: ss_def)
  then have "sorted_wrt (\<lambda>a b. lr_start a \<le> lr_start b) ss"
    unfolding sorted_map by (rule sorted_wrt_mono_rel [rotated]) (auto simp: less_eq_prod_def)
  from mergeRanges_canonical [OF this ok]
  have "canonical (mergeRanges ss)" "covers (mergeRanges ss) = covers ns"
    using covers_set [of ss ns] by (simp_all add: ss_def)
  with split_all [of "mergeRanges ss" "protected_lines region"] show ?thesis
    by (simp add: validateDeletedRanges_def Let_def requested_def ns_def [symmetric] ss_def [symmetric])
qed

lemma validate_bounds:
  assumes "r \<in> set (validateDeletedRanges strnum raw region)"
  shows "1 \<le> lr_start r" and "lr_end r \<le> int (length (nr_lines region))"
proof -
  have "requested strnum (int (length (nr_lines region))) raw \<subseteq> {1..int (length (nr_lines region))}"
    using normalize_range_ok by (fastforce simp: requested_def covers_def map_filter_def)
  with in_covers [OF _ assms] validate_spec [of strnum raw region]
  show "1 \<le> lr_start r" "lr_end r \<le> int (length (nr_lines region))" by auto
qed

subsection \<open>The deleted lines\<close>

lemma length_mark: "length (foldl (\<lambda>d l. d[nat (l - 1) := True]) d ls) = length d"
  by (induction ls arbitrary: d) auto

lemma update_nth: "i < length d \<Longrightarrow> d[j := True] ! i \<longleftrightarrow> d ! i \<or> i = j"
  by (cases "j < length d") (auto simp: nth_list_update)

lemma nat_pred_eq: "1 \<le> l \<Longrightarrow> i = nat (l - 1) \<longleftrightarrow> int i + 1 = l"
  by auto

lemma nth_mark:
  "i < length d \<Longrightarrow> (\<forall>l \<in> set ls. 1 \<le> l) \<Longrightarrow>
     foldl (\<lambda>d l. d[nat (l - 1) := True]) d ls ! i \<longleftrightarrow> d ! i \<or> int i + 1 \<in> set ls"
  by (induction ls arbitrary: d) (auto simp: update_nth nat_pred_eq)

lemma deleted_lines_gen:
  assumes "\<forall>r \<in> set rs. 1 \<le> lr_start r"
  shows "length (foldl (\<lambda>deleted r. foldl (\<lambda>d l. d[nat (l - 1) := True]) deleted [lr_start r..lr_end r]) d rs) = length d
    \<and> (\<forall>i < length d.
      foldl (\<lambda>deleted r. foldl (\<lambda>d l. d[nat (l - 1) := True]) deleted [lr_start r..lr_end r]) d rs ! i
        \<longleftrightarrow> d ! i \<or> int i + 1 \<in> covers rs)"
  using assms
proof (induction rs arbitrary: d)
  case (Cons r rs)
  let ?d = "foldl (\<lambda>d l. d[nat (l - 1) := True]) d [lr_start r..lr_end r]"
  have "?d ! i \<longleftrightarrow> d ! i \<or> int i + 1 \<in> {lr_start r..lr_end r}" if "i < length d" for i
    using nth_mark [OF that, of "[lr_start r..lr_end r]"] Cons.prems by auto
  with Cons.IH [of ?d] Cons.prems show ?case by (auto simp: length_mark)
qed simp

lemma rangesToDeletedLines_spec:
  assumes "\<forall>r \<in> set rs. 1 \<le> lr_start r"
  shows "length (rangesToDeletedLines rs n) = n"
    and "i < n \<Longrightarrow> rangesToDeletedLines rs n ! i \<longleftrightarrow> int i + 1 \<in> covers rs"
  using deleted_lines_gen [OF assms, of "replicate n False"] by (auto simp: rangesToDeletedLines_def)

text \<open>One pass and the whole loop: lines are only added, and only marker lines.\<close>

definition grows_by :: "int set \<Rightarrow> bool list \<Rightarrow> bool list \<Rightarrow> bool" where
  "grows_by ms d d' \<longleftrightarrow> length d' = length d \<and>
     (\<forall>i < length d. (d ! i \<longrightarrow> d' ! i) \<and> (d' ! i \<longrightarrow> d ! i \<or> int i + 1 \<in> ms))"

lemma grows_refl: "grows_by ms d d" by (simp add: grows_by_def)

lemma grows_trans: "grows_by ms d d' \<Longrightarrow> grows_by ms d' d'' \<Longrightarrow> grows_by ms d d''"
  by (auto simp: grows_by_def)

lemma fold_marker_grows:
  assumes "fold_marker (d, c) l = (d', c')" and "l \<in> ms"
  shows "grows_by ms d d'"
  using fold_marker_cases [OF assms(1)] assms(2)
  by (auto simp: grows_by_def update_nth nat_pred_eq)

lemma fold_pass_grows:
  "foldl fold_marker (d, c) ls = (d', c') \<Longrightarrow> set ls \<subseteq> ms \<Longrightarrow> grows_by ms d d'"
proof (induction ls arbitrary: d c)
  case (Cons l ls)
  obtain d1 c1 where s: "fold_marker (d, c) l = (d1, c1)" by (cases "fold_marker (d, c) l")
  with Cons.prems have "foldl fold_marker (d1, c1) ls = (d', c')" by simp
  from Cons.IH [OF this] Cons.prems(2) fold_marker_grows [OF s, of ms] show ?case
    by (auto intro: grows_trans)
qed (auto simp: grows_refl)

lemma fold_loop_grows: "grows_by (set ms) d (fold_loop ms d)"
proof (induction ms d rule: fold_loop.induct)
  case (1 ms d)
  obtain d' c where p: "fold_pass ms d = (d', c)" by (cases "fold_pass ms d")
  then have "grows_by (set ms) d d'"
    using fold_pass_grows [of d False ms d' c "set ms"] by (simp add: fold_pass_def)
  with 1 p show ?case
    by (subst fold_loop.simps) (auto intro: grows_trans)
qed

text \<open>At the end no marker that survives touches a deleted line.\<close>

lemma fold_marker_quiet:
  assumes "fold_marker (d, False) l = (d', False)" and "1 \<le> l" and "nat (l - 1) < length d" and "\<not> d ! nat (l - 1)"
  shows "(0 < nat (l - 1) \<longrightarrow> \<not> d ! (nat (l - 1) - 1)) \<and> (nat (l - 1) + 1 < length d \<longrightarrow> \<not> d ! (nat (l - 1) + 1))"
  using assms by (auto simp: fold_marker_def Let_def split: if_splits)

lemma fold_marker_changed: "fold_marker (d, True) l = (d', c') \<Longrightarrow> c'"
  by (auto simp: fold_marker_def Let_def split: if_splits)

lemma foldl_marker_changed: "foldl fold_marker (d, True) ls = (d', c') \<Longrightarrow> c'"
proof (induction ls arbitrary: d)
  case (Cons l ls)
  obtain d1 c1 where "fold_marker (d, True) l = (d1, c1)" by (cases "fold_marker (d, True) l")
  with Cons fold_marker_changed [of d l d1 c1] show ?case by auto
qed simp

lemma fold_pass_quiet:
  assumes "foldl fold_marker (d, False) ls = (d', False)"
  shows "d' = d \<and> (\<forall>l \<in> set ls. fold_marker (d, False) l = (d, False))"
  using assms
proof (induction ls)
  case (Cons l ls)
  obtain d1 c1 where s: "fold_marker (d, False) l = (d1, c1)" by (cases "fold_marker (d, False) l")
  have "\<not> c1" using Cons.prems s foldl_marker_changed [of d1 ls d' False] by (cases c1) auto
  with fold_marker_cases [OF s] s have "fold_marker (d, False) l = (d, False)" by auto
  with Cons show ?case by simp
qed simp

lemma fold_loop_closed:
  "l \<in> set ms \<Longrightarrow> 1 \<le> l \<Longrightarrow> nat (l - 1) < length (fold_loop ms d) \<Longrightarrow> \<not> fold_loop ms d ! nat (l - 1) \<Longrightarrow>
     (0 < nat (l - 1) \<longrightarrow> \<not> fold_loop ms d ! (nat (l - 1) - 1)) \<and>
     (nat (l - 1) + 1 < length (fold_loop ms d) \<longrightarrow> \<not> fold_loop ms d ! (nat (l - 1) + 1))"
proof (induction ms d rule: fold_loop.induct)
  case (1 ms d)
  obtain d' c where p: "fold_pass ms d = (d', c)" by (cases "fold_pass ms d")
  show ?case
  proof (cases c)
    case True
    then have eq: "fold_loop ms d = fold_loop ms d'" by (subst fold_loop.simps) (simp add: p)
    show ?thesis
      using 1(2-5) unfolding eq by (intro "1.IH" [OF p [symmetric] True]) simp_all
  next
    case False
    then have eq: "fold_loop ms d = d'" by (subst fold_loop.simps) (simp add: p)
    have "d' = d" "fold_marker (d, False) l = (d, False)"
      using fold_pass_quiet [of d ms d'] p False 1(2) by (auto simp: fold_pass_def)
    with fold_marker_quiet [of d l d] 1(3-5) show ?thesis unfolding eq by simp
  qed
qed

subsection \<open>The output\<close>

text \<open>How many original lines a line stands for: an old marker for its count, another line for
  itself.\<close>

definition line_weight :: "numbered_region \<Rightarrow> int \<Rightarrow> int" where
  "line_weight region l = (case jm_get (nr_priorMarkerNs region) l of None \<Rightarrow> 1 | Some p \<Rightarrow> p)"

lemma cumulative_weight:
  assumes "lr_start r \<le> lr_end r + 1"
  shows "cumulativeDeletedCount region r = (\<Sum>l\<leftarrow>[lr_start r..lr_end r]. line_weight region l)"
proof -
  have gen: "foldl (\<lambda>count line. case jm_get (nr_priorMarkerNs region) line of
                None \<Rightarrow> count | Some p \<Rightarrow> count + (p - 1)) c ls
      = c + (\<Sum>l\<leftarrow>ls. line_weight region l) - int (length ls)" for c ls
    by (induction ls arbitrary: c) (auto simp: line_weight_def split: option.splits)
  show ?thesis using assms by (simp add: cumulativeDeletedCount_def gen)
qed

text \<open>The reference: walk over the lines with their weights and deletion flags; a run of deleted lines
  becomes one marker with the sum of its weights.\<close>

fun run_out :: "int option \<Rightarrow> (jstr \<times> int \<times> bool) list \<Rightarrow> (jstr + int) list" where
  "run_out None [] = []"
| "run_out (Some c) [] = [Inr c]"
| "run_out cur ((l, w, True) # xs) = run_out (Some (case cur of None \<Rightarrow> w | Some c \<Rightarrow> c + w)) xs"
| "run_out None ((l, w, False) # xs) = Inl l # run_out None xs"
| "run_out (Some c) ((l, w, False) # xs) = Inr c # Inl l # run_out None xs"

definition piece_text :: "jstr + int \<Rightarrow> jstr" where
  "piece_text p = (case p of Inl l \<Rightarrow> l | Inr c \<Rightarrow> filteredMarker c)"

fun items_from :: "numbered_region \<Rightarrow> int \<Rightarrow> jstr list \<Rightarrow> bool list \<Rightarrow> (jstr \<times> int \<times> bool) list" where
  "items_from region n (l # ls) (d # ds) = (l, line_weight region n, d) # items_from region (n + 1) ls ds"
| "items_from region n _ _ = []"

lemma collect_ranges_start:
  "r \<in> set (collect_ranges index start ds) \<Longrightarrow>
     lr_start r \<ge> (case start of None \<Rightarrow> index + 1 | Some s \<Rightarrow> min s (index + 1))"
  by (induction index start ds rule: collect_ranges.induct) (fastforce split: option.splits if_splits)+

lemma output_loop_line:
  assumes "1 \<le> line" and "nat (line - 1) < length (nr_lines region)" and "\<forall>r \<in> set rs. line < lr_start r"
  shows "output_loop region rs line = nr_lines region ! nat (line - 1) # output_loop region rs (line + 1)"
proof -
  have n: "nat (line + 1 - 1) = Suc (nat (line - 1))" using assms(1) by simp
  have d: "drop (nat (line - 1)) (nr_lines region) =
      nr_lines region ! nat (line - 1) # drop (Suc (nat (line - 1))) (nr_lines region)"
    using assms(2) by (simp add: Cons_nth_drop_Suc)
  show ?thesis
  proof (cases rs)
    case Nil
    then show ?thesis using d n by simp
  next
    case (Cons r rs')
    have "line < lr_start r" using assms(3) Cons by simp
    then have "nat (lr_start r - line) = Suc (nat (lr_start r - (line + 1)))" by linarith
    then show ?thesis using Cons d n by simp
  qed
qed

lemma output_loop_runs:
  assumes "length ds = length (nr_lines region) - i" and "i \<le> length (nr_lines region)"
  shows "output_loop region (collect_ranges (int i) None ds) (int i + 1) =
      map piece_text (run_out None (items_from region (int i + 1) (drop i (nr_lines region)) ds)) \<and>
    (\<forall>s. 1 \<le> s \<and> s \<le> int i \<longrightarrow>
      output_loop region (collect_ranges (int i) (Some s) ds) s =
      map piece_text (run_out (Some (\<Sum>l\<leftarrow>[s..int i]. line_weight region l))
        (items_from region (int i + 1) (drop i (nr_lines region)) ds)))"
  using assms
proof (induction ds arbitrary: i)
  case Nil
  then have "i = length (nr_lines region)" by simp
  then show ?case by (simp add: piece_text_def cumulative_weight)
next
  case (Cons d ds)
  let ?lines = "nr_lines region"
  have i: "i < length ?lines" using Cons.prems by simp
  have dr: "drop i ?lines = ?lines ! i # drop (Suc i) ?lines" using i by (simp add: Cons_nth_drop_Suc)
  have IH: "output_loop region (collect_ranges (int i + 1) None ds) (int i + 2) =
      map piece_text (run_out None (items_from region (int i + 2) (drop (Suc i) ?lines) ds))"
    "\<And>s. 1 \<le> s \<Longrightarrow> s \<le> int i + 1 \<Longrightarrow> output_loop region (collect_ranges (int i + 1) (Some s) ds) s =
      map piece_text (run_out (Some (\<Sum>l\<leftarrow>[s..int i + 1]. line_weight region l))
        (items_from region (int i + 2) (drop (Suc i) ?lines) ds))"
    using Cons.IH [of "Suc i"] Cons.prems i by (simp_all add: add.commute)
  have keep: "output_loop region (collect_ranges (int i + 1) None ds) (int i + 1) =
      ?lines ! i # output_loop region (collect_ranges (int i + 1) None ds) (int i + 2)"
  proof -
    have "int i + 1 < lr_start r" if "r \<in> set (collect_ranges (int i + 1) None ds)" for r
      using collect_ranges_start [OF that] by simp
    then show ?thesis
      using output_loop_line [of "int i + 1" region "collect_ranges (int i + 1) None ds"] i
      by (simp add: nat_add_distrib add.commute [of 2])
  qed
  show ?case
  proof (cases d)
    case True
    have "(\<Sum>l\<leftarrow>[s..int i + 1]. line_weight region l) =
        (\<Sum>l\<leftarrow>[s..int i]. line_weight region l) + line_weight region (int i + 1)" if "s \<le> int i" for s
      using that upto_rec2 [of s "int i + 1"] by simp
    with True dr IH(2) show ?thesis by (auto simp: add.commute)
  next
    case False
    with dr IH(1) keep show ?thesis by (auto simp: piece_text_def cumulative_weight add.commute)
  qed
qed

lemma output_is_runs:
  assumes "length d = length (nr_lines region)"
  shows "output_loop region (collect_ranges 0 None d) 1 =
    map piece_text (run_out None (items_from region 1 (nr_lines region) d))"
  using output_loop_runs [of d region 0] assms by simp

text \<open>What the reference output consists of.\<close>

definition kept_text :: "(jstr + int) list \<Rightarrow> jstr list" where
  "kept_text ps = concat (map (case_sum (\<lambda>l. [l]) (\<lambda>c. [])) ps)"

definition marker_sum :: "(jstr + int) list \<Rightarrow> int" where
  "marker_sum ps = sum_list (map (case_sum (\<lambda>l. 0) (\<lambda>c. c)) ps)"

lemma kept_text_run_out: "kept_text (run_out cur xs) = map fst (filter (\<lambda>(l, w, d). \<not> d) xs)"
  by (induction cur xs rule: run_out.induct) (auto simp: kept_text_def)

lemma marker_sum_run_out:
  "marker_sum (run_out cur xs) = (case cur of None \<Rightarrow> 0 | Some c \<Rightarrow> c)
     + sum_list (map (\<lambda>(l, w, d). if d then w else 0) xs)"
  by (induction cur xs rule: run_out.induct) (auto simp: marker_sum_def split: option.splits)

lemma kept_items:
  "length ds = length ls \<Longrightarrow>
     map fst (filter (\<lambda>(l, w, d). \<not> d) (items_from region n ls ds)) =
     map fst (filter (\<lambda>(l, d). \<not> d) (zip ls ds))"
  by (induction region n ls ds rule: items_from.induct) auto

lemma weight_items:
  "length ds = length ls \<Longrightarrow>
     sum_list (map (\<lambda>(l, w, d). if d then w else 0) (items_from region n ls ds)) =
     (\<Sum>(l, d)\<leftarrow>zip [n..n + int (length ls) - 1] ds. if d then line_weight region l else 0)"
proof (induction region n ls ds rule: items_from.induct)
  case (1 region n l ls d ds)
  have "[n..n + int (length (l # ls)) - 1] = n # [n + 1..n + 1 + int (length ls) - 1]"
    by (subst upto_rec1) (auto simp: algebra_simps)
  with 1 show ?case by (simp add: algebra_simps)
qed auto

lemma sum_list_zip_flags:
  assumes "length ds = n"
  shows "(\<Sum>(l, d)\<leftarrow>zip [1..int n] ds. if d then f l else 0) =
    (\<Sum>l \<in> {int i + 1 |i. i < n \<and> ds ! i}. f l :: int)"
proof -
  have "(\<Sum>(l, d)\<leftarrow>zip [1..int n] ds. if d then f l else 0) = (\<Sum>i < n. if ds ! i then f (int i + 1) else 0)"
    using assms by (simp add: sum_list_sum_nth nth_upto atLeast0LessThan)
      (auto intro!: sum.cong simp: add.commute)
  also have "\<dots> = (\<Sum>i \<in> {i. i < n \<and> ds ! i}. f (int i + 1))"
    by (simp add: sum.inter_filter [symmetric] Int_def lessThan_def)
  also have "\<dots> = (\<Sum>l \<in> (\<lambda>i. int i + 1) ` {i. i < n \<and> ds ! i}. f l)"
    by (subst sum.reindex) (auto simp: inj_on_def)
  also have "(\<lambda>i. int i + 1) ` {i. i < n \<and> ds ! i} = {int i + 1 |i. i < n \<and> ds ! i}" by auto
  finally show ?thesis .
qed

lemma lines_deleted_count:
  "foldl (\<lambda>s r. s + lr_end r - lr_start r + 1) c (collect_ranges index start ds) =
     c + (case start of None \<Rightarrow> 0 | Some s \<Rightarrow> index - s + 1) + int (length (filter id ds))"
  by (induction index start ds arbitrary: c rule: collect_ranges.induct)
    (auto split: option.splits)

text \<open>The lines that the reconstruction deletes.\<close>

definition final_flags :: "numbered_region \<Rightarrow> line_range list \<Rightarrow> bool list" where
  "final_flags region ranges =
     fold_loop (jm_keys (nr_priorMarkerNs region)) (rangesToDeletedLines ranges (length (nr_lines region)))"

definition deleted_set :: "numbered_region \<Rightarrow> line_range list \<Rightarrow> int set" where
  "deleted_set region ranges = {int i + 1 |i. i < length (nr_lines region) \<and> final_flags region ranges ! i}"

lemma deleted_set_bounds:
  assumes "\<forall>r \<in> set ranges. 1 \<le> lr_start r \<and> lr_end r \<le> int (length (nr_lines region))"
  shows "length (final_flags region ranges) = length (nr_lines region)"
    and "covers ranges \<subseteq> deleted_set region ranges"
    and "deleted_set region ranges \<subseteq> covers ranges \<union> set (jm_keys (nr_priorMarkerNs region))"
proof -
  let ?n = "length (nr_lines region)"
  have pos: "\<forall>r \<in> set ranges. 1 \<le> lr_start r" using assms by blast
  note base = rangesToDeletedLines_spec [OF pos, where n = ?n]
  have g: "grows_by (set (jm_keys (nr_priorMarkerNs region))) (rangesToDeletedLines ranges ?n) (final_flags region ranges)"
    unfolding final_flags_def by (rule fold_loop_grows)
  then show len: "length (final_flags region ranges) = ?n" by (simp add: grows_by_def base(1))
  show "covers ranges \<subseteq> deleted_set region ranges"
  proof
    fix l assume l: "l \<in> covers ranges"
    then have "1 \<le> l" "l \<le> int ?n" using assms by (auto simp: covers_def)
    then obtain i where i: "l = int i + 1" "i < ?n" by (intro that [of "nat (l - 1)"]) auto
    with l base(1) base(2) [OF i(2)] g i have "final_flags region ranges ! i" by (simp add: grows_by_def)
    with i show "l \<in> deleted_set region ranges" by (auto simp: deleted_set_def)
  qed
  show "deleted_set region ranges \<subseteq> covers ranges \<union> set (jm_keys (nr_priorMarkerNs region))"
    using base g by (auto simp: deleted_set_def grows_by_def)
qed

lemma reconstruct_spec:
  assumes "\<forall>r \<in> set ranges. 1 \<le> lr_start r \<and> lr_end r \<le> int (length (nr_lines region))"
  defines "ct \<equiv> reconstructCompactedTranscript region ranges"
    and "pieces \<equiv> run_out None (items_from region 1 (nr_lines region) (final_flags region ranges))"
  shows "ct_text ct = js_join [js_LF] (map piece_text pieces)"
    and "kept_text pieces = map fst (filter (\<lambda>(l, d). \<not> d) (zip (nr_lines region) (final_flags region ranges)))"
    and "marker_sum pieces = (\<Sum>l \<in> deleted_set region ranges. line_weight region l)"
    and "cs_linesKept (ct_stats ct) = int (length (kept_text pieces))"
proof -
  have len: "length (final_flags region ranges) = length (nr_lines region)"
    using deleted_set_bounds(1) [OF assms(1)] .
  have fin: "foldAdjacentMarkers region ranges = collect_ranges 0 None (final_flags region ranges)"
    by (simp add: foldAdjacentMarkers_def final_flags_def)
  show "ct_text ct = js_join [js_LF] (map piece_text pieces)"
    using output_is_runs [OF len]
    by (simp add: ct_def reconstructCompactedTranscript_def fin Let_def pieces_def)
  show kept: "kept_text pieces = map fst (filter (\<lambda>(l, d). \<not> d) (zip (nr_lines region) (final_flags region ranges)))"
    unfolding pieces_def kept_text_run_out by (rule kept_items [OF len])
  show "marker_sum pieces = (\<Sum>l \<in> deleted_set region ranges. line_weight region l)"
    using weight_items [OF len, of region 1] sum_list_zip_flags [OF len, of "line_weight region"]
    unfolding pieces_def marker_sum_run_out deleted_set_def by simp
  have "length (filter (\<lambda>(l, d). \<not> d) (zip ls ds)) + length (filter id ds) = length ls"
    if "length ds = length ls" for ls :: "jstr list" and ds
    using that by (induction ds ls rule: list_induct2) auto
  from this [OF len] lines_deleted_count [of 0 0 None "final_flags region ranges"]
  show "cs_linesKept (ct_stats ct) = int (length (kept_text pieces))"
    unfolding kept by (simp add: ct_def reconstructCompactedTranscript_def fin Let_def)
qed

lemma compaction_pieces:
  "let ranges = validateDeletedRanges strnum raw region;
       ct = reconstructCompactedTranscript region ranges;
       deleted = deleted_set region ranges;
       wanted = requested strnum (int (length (nr_lines region))) raw - protected_lines region
   in \<exists>pieces. ct_text ct = js_join [js_LF] (map piece_text pieces) \<and>
        kept_text pieces =
          map fst (filter (\<lambda>(l, i). i \<notin> deleted) (zip (nr_lines region) [1..int (length (nr_lines region))])) \<and>
        marker_sum pieces = (\<Sum>l \<in> deleted. line_weight region l) \<and>
        wanted \<subseteq> deleted \<and> deleted \<subseteq> wanted \<union> set (jm_keys (nr_priorMarkerNs region)) \<and>
        cs_linesKept (ct_stats ct) = int (length (kept_text pieces))"
proof -
  let ?ranges = "validateDeletedRanges strnum raw region"
  let ?ls = "nr_lines region" and ?d = "final_flags region ?ranges"
  have bounds: "\<forall>r \<in> set ?ranges. 1 \<le> lr_start r \<and> lr_end r \<le> int (length ?ls)"
    using validate_bounds by blast
  note spec = reconstruct_spec [OF bounds] and del = deleted_set_bounds [OF bounds]
  have "map fst (filter (\<lambda>(l, d). \<not> d) (zip ?ls ?d)) =
      map fst (filter (\<lambda>(l, i). i \<notin> deleted_set region ?ranges) (zip ?ls [1..int (length ?ls)]))"
  proof -
    have d: "?d = map (\<lambda>i. i \<in> deleted_set region ?ranges) [1..int (length ?ls)]"
      using del(1) by (intro nth_equalityI) (auto simp: deleted_set_def nth_upto)
    have "map fst (filter (\<lambda>(l, d). \<not> d) (zip xs (map f ys))) = map fst (filter (\<lambda>(l, i). \<not> f i) (zip xs ys))"
      for xs :: "jstr list" and ys :: "int list" and f
      by (induction xs ys rule: list_induct2') auto
    then show ?thesis by (subst d) simp
  qed
  then show ?thesis
    using spec del(2,3) validate_spec [of strnum raw region] unfolding Let_def
    by (intro exI [of _ "run_out None (items_from region 1 ?ls ?d)"]) simp
qed

subsection \<open>Properties\<close>

text \<open>C32: whatever the planner answered, validation yields canonical ranges (non-empty, in order, with
  at least one kept line between two of them, within the region) that cover exactly the lines the
  answer asked to delete, after clamping and swapping, minus the protected lines.\<close>

theorem validated_ranges_exact:
  "let ranges = validateDeletedRanges strnum raw region; n = int (length (nr_lines region))
   in canonical ranges \<and> covers ranges = requested strnum n raw - protected_lines region \<and>
      covers ranges \<subseteq> {1..n}"
proof -
  have "covers (validateDeletedRanges strnum raw region) \<subseteq> {1..int (length (nr_lines region))}"
    using validate_bounds by (fastforce simp: covers_def)
  with validate_spec [of strnum raw region] show ?thesis by (simp add: Let_def)
qed

text \<open>Compaction is verbatim.  For any raw ranges the compacted text consists of pieces: the lines
  that are not deleted, unchanged and in order, and markers whose counts add up to the number of
  original lines that the deleted lines stand for (an old marker counts for its number), so repeated
  compaction never loses count; what is deleted is what was requested and is not protected, plus
  only old markers; and the reported number of kept lines is right.\<close>

theorem compaction_is_verbatim:
  "let ranges = validateDeletedRanges strnum raw region;
       ct = reconstructCompactedTranscript region ranges;
       deleted = deleted_set region ranges;
       wanted = requested strnum (int (length (nr_lines region))) raw - protected_lines region
   in \<exists>pieces. ct_text ct = js_join [js_LF] (map piece_text pieces) \<and>
        kept_text pieces =
          map fst (filter (\<lambda>(l, i). i \<notin> deleted) (zip (nr_lines region) [1..int (length (nr_lines region))])) \<and>
        marker_sum pieces = (\<Sum>l \<in> deleted. line_weight region l) \<and>
        wanted \<subseteq> deleted \<and> deleted \<subseteq> wanted \<union> set (jm_keys (nr_priorMarkerNs region)) \<and>
        cs_linesKept (ct_stats ct) = int (length (kept_text pieces))"
  by (rule compaction_pieces)

text \<open>old markers fold.  After reconstruction no surviving marker of an earlier compaction is next
  to a deleted line: its count has been merged into the new marker.\<close>

theorem markers_fold:
  assumes "l \<in> set (jm_keys (nr_priorMarkerNs region))" and "1 \<le> l" and "l \<le> int (length (nr_lines region))"
    and "l \<notin> deleted_set region (validateDeletedRanges strnum raw region)"
  shows "l - 1 \<notin> deleted_set region (validateDeletedRanges strnum raw region) \<and>
    l + 1 \<notin> deleted_set region (validateDeletedRanges strnum raw region)"
proof -
  let ?ranges = "validateDeletedRanges strnum raw region"
  let ?d = "final_flags region ?ranges"
  have len: "length ?d = length (nr_lines region)"
    using deleted_set_bounds(1) validate_bounds by blast
  obtain i where i: "l = int i + 1" "i < length ?d" "\<not> ?d ! i"
    using assms(2-4) len by (intro that [of "nat (l - 1)"]) (auto simp: deleted_set_def)
  have "(0 < i \<longrightarrow> \<not> ?d ! (i - 1)) \<and> (i + 1 < length ?d \<longrightarrow> \<not> ?d ! (i + 1))"
    using fold_loop_closed [OF assms(1,2), of "rangesToDeletedLines ?ranges (length (nr_lines region))"] i
    by (simp add: final_flags_def)
  then have quiet: "Suc j = i \<Longrightarrow> \<not> ?d ! j" "Suc i = j \<Longrightarrow> j < length ?d \<Longrightarrow> \<not> ?d ! j" for j
    by auto
  show ?thesis
  proof (intro conjI notI)
    assume "l - 1 \<in> deleted_set region ?ranges"
    then obtain j where "l - 1 = int j + 1" "?d ! j" unfolding deleted_set_def by blast
    with quiet(1) [of j] i(1) show False by simp
  next
    assume "l + 1 \<in> deleted_set region ?ranges"
    then obtain j where "l + 1 = int j + 1" "?d ! j" "j < length ?d" unfolding deleted_set_def len by blast
    with quiet(2) [of j] i(1) show False by simp
  qed
qed

definition demo_region :: numbered_region where
  "demo_region = \<lparr>nr_lines = [js ''a'', filteredMarker 3, js ''b''], nr_headerLineNumbers = [],
     nr_priorMarkerNs = [(2, 3)], nr_protectedLineNumbers = None, nr_tokenEstimate = 6\<rparr>"

theorem markers_fold_witness:
  "1 \<notin> deleted_set demo_region (validateDeletedRanges (\<lambda>s. JNonFinite) [] demo_region)"
proof -
  have "validateDeletedRanges (\<lambda>s. JNonFinite) [] demo_region = []"
    by (simp add: validateDeletedRanges_def map_filter_def mergeRanges_def)
  moreover have "final_flags demo_region [] = [False, False, False]"
    unfolding final_flags_def
    by (subst fold_loop.simps)
      (simp add: demo_region_def rangesToDeletedLines_def fold_pass_def fold_marker_def Let_def numeral_eq_Suc)
  ultimately have "2 \<notin> deleted_set demo_region (validateDeletedRanges (\<lambda>s. JNonFinite) [] demo_region)"
    by (auto simp: deleted_set_def less_Suc_eq_0_disj nth_Cons split: nat.splits)
  then show ?thesis
    using markers_fold [of 2 demo_region "\<lambda>s. JNonFinite" "[]"] by (simp add: demo_region_def)
qed

end
