(* ===== verification/Region_Trim.thy ===== *)
theory Region_Trim
  imports Deleted_Ranges
begin

text \<open>
  Oldest-first trimming of the planner's input when a request overflows the context window
  (\<open>core/compaction/region-trimming.ts\<close>): the planner sees the lines after \<open>offset\<close>, renumbered
  from 1, and its ranges are mapped back with the withheld head added as one deletion.
\<close>

definition rebaseSet :: "int list \<Rightarrow> int \<Rightarrow> int list" where
  "rebaseSet source offset = fold js_set_add (map (\<lambda>l. l - offset) (filter (\<lambda>l. l > offset) source)) []"

definition trimRegionHead :: "numbered_region \<Rightarrow> int \<Rightarrow> numbered_region option" where
  "trimRegionHead region offset =
     (if offset \<le> 0 \<or> int (length (nr_lines region)) \<le> offset then None
      else (let lines = drop (nat offset) (nr_lines region)
            in Some \<lparr>nr_lines = lines,
                 nr_headerLineNumbers = rebaseSet (nr_headerLineNumbers region) offset,
                 nr_priorMarkerNs = foldl (\<lambda>m (l, c). if l > offset then jm_set (l - offset) c m else m) []
                                     (nr_priorMarkerNs region),
                 nr_protectedLineNumbers =
                   map_option (\<lambda>ls. rebaseSet ls offset) (nr_protectedLineNumbers region),
                 nr_tokenEstimate = js_ceil_div (length (js_join [js_LF] lines)) 4\<rparr>))"

definition nextTrimOffset :: "numbered_region \<Rightarrow> int \<Rightarrow> int option" where
  "nextTrimOffset region currentOffset =
     (let remaining = int (length (nr_lines region)) - currentOffset
      in if remaining \<le> 1 then None
         else (let next_offset = currentOffset + max 1 (remaining div 2)
               in if int (length (nr_lines region)) \<le> next_offset then None else Some next_offset))"

definition raw_of :: "int \<Rightarrow> int \<Rightarrow> raw_range" where
  "raw_of a b = \<lparr>raw_start = Some (EpNumber (JFinite (of_int a))), raw_end = Some (EpNumber (JFinite (of_int b)))\<rparr>"

definition rebaseTrimmedRanges :: "line_range list \<Rightarrow> int \<Rightarrow> raw_range list" where
  "rebaseTrimmedRanges validated offset =
     raw_of 1 offset # map (\<lambda>r. raw_of (lr_start r + offset) (lr_end r + offset)) validated"

subsection \<open>Facts\<close>

lemma js_trunc_of_int [simp]: "js_trunc (of_int n) = n"
  by (simp add: js_trunc_def flip: of_int_minus)

lemma normalize_raw_of:
  "normalize_range strnum n (raw_of a b) =
     (if max 1 (min a b) \<le> min n (max a b)
      then Some \<lparr>lr_start = max 1 (min a b), lr_end = min n (max a b)\<rparr> else None)"
  by (auto simp: normalize_range_def raw_of_def coerceEndpoint_def Let_def)

lemma requested_Nil [simp]: "requested strnum n [] = {}"
  by (simp add: requested_def map_filter_def)

lemma requested_raw_of:
  "requested strnum n (raw_of a b # raw) = {max 1 (min a b)..min n (max a b)} \<union> requested strnum n raw"
  by (auto simp: requested_def map_filter_def normalize_raw_of)

lemma requested_map_raw_of:
  assumes "\<forall>r \<in> set rs. lr_start r \<le> lr_end r"
  shows "requested strnum n (map (\<lambda>r. raw_of (lr_start r + k) (lr_end r + k)) rs) =
    {l \<in> {1..n}. l - k \<in> covers rs}"
  using assms
proof (induction rs)
  case (Cons r rs)
  then show ?case by (auto simp: requested_raw_of)
qed simp

lemma set_rebaseSet: "set (rebaseSet ls offset) = {l. l + offset \<in> set ls \<and> 0 < l}"
  by (force simp: rebaseSet_def)

lemma trim_protected:
  assumes "trimRegionHead region offset = Some view"
  shows "protected_lines view = {l. l + offset \<in> protected_lines region \<and> 0 < l}"
  using assms
  by (auto simp: trimRegionHead_def protected_lines_def set_rebaseSet Let_def split: if_splits option.splits)

lemma trim_length:
  assumes "trimRegionHead region offset = Some view"
  shows "0 < offset" and "int (length (nr_lines view)) = int (length (nr_lines region)) - offset"
    and "i < length (nr_lines view) \<Longrightarrow> nr_lines view ! i = nr_lines region ! (nat offset + i)"
  using assms by (auto simp: trimRegionHead_def Let_def split: if_splits)

lemma nextTrimOffset_next:
  assumes "nextTrimOffset region a = Some b"
  shows "a < b" and "b < int (length (nr_lines region))"
    and "int (length (nr_lines region)) - b \<le> (int (length (nr_lines region)) - a + 1) div 2"
  using assms by (auto simp: nextTrimOffset_def Let_def split: if_splits)

lemma trimmed_ranges_rebase_eq:
  assumes "trimRegionHead region offset = Some view"
  shows "covers (validateDeletedRanges strnum
           (rebaseTrimmedRanges (validateDeletedRanges strnum raw view) offset) region) =
         ({1..offset} \<union> {l. l - offset \<in> requested strnum (int (length (nr_lines region)) - offset) raw})
         - protected_lines region"
proof -
  let ?n = "int (length (nr_lines region))" and ?vs = "validateDeletedRanges strnum raw view"
  note len = trim_length(1,2) [OF assms]
  have off: "0 < offset" "offset < ?n"
    using assms by (auto simp: trimRegionHead_def split: if_splits)
  note V = validate_spec [of strnum raw view]
  have cov: "covers ?vs = requested strnum (?n - offset) raw - protected_lines view"
    using V len(2) by simp
  have rs: "\<forall>r \<in> set ?vs. lr_start r \<le> lr_end r" using V by (simp add: canonical_def)
  have sub: "requested strnum (?n - offset) raw \<subseteq> {1..?n - offset}"
    using normalize_range_ok by (fastforce simp: requested_def covers_def map_filter_def)
  have "requested strnum ?n (rebaseTrimmedRanges ?vs offset) = {1..offset} \<union> {l \<in> {1..?n}. l - offset \<in> covers ?vs}"
    using off by (auto simp: rebaseTrimmedRanges_def requested_raw_of requested_map_raw_of [OF rs])
  also have "\<dots> - protected_lines region =
      ({1..offset} \<union> {l. l - offset \<in> requested strnum (?n - offset) raw}) - protected_lines region"
  proof (rule set_eqI)
    fix l
    show "l \<in> {1..offset} \<union> {l \<in> {1..?n}. l - offset \<in> covers ?vs} - protected_lines region \<longleftrightarrow>
      l \<in> {1..offset} \<union> {l. l - offset \<in> requested strnum (?n - offset) raw} - protected_lines region"
      using sub off by (auto simp: cov trim_protected [OF assms])
  qed
  finally show ?thesis
    using validate_spec [of strnum "rebaseTrimmedRanges ?vs offset" region] by (simp add: Let_def)
qed

subsection \<open>Properties\<close>

text \<open>Trimming is a view, not a different text.  Whatever the planner answered about the view that
  withholds the oldest \<open>offset\<close> lines, the ranges handed on delete, in the original numbering,
  exactly the unprotected lines of the withheld head and the original lines of what the answer
  asked for in the view; a protected line is deleted in neither part.\<close>

theorem trimmed_ranges_rebase:
  assumes "trimRegionHead region offset = Some view"
  shows "let n = int (length (nr_lines region));
             raw' = rebaseTrimmedRanges (validateDeletedRanges strnum raw view) offset
         in covers (validateDeletedRanges strnum raw' region) =
              ({1..offset} \<union> {l. l - offset \<in> requested strnum (n - offset) raw}) - protected_lines region"
  using trimmed_ranges_rebase_eq [OF assms] by (simp add: Let_def)

definition demo_view :: numbered_region where
  "demo_view = \<lparr>nr_lines = [js ''b''], nr_headerLineNumbers = [], nr_priorMarkerNs = [],
     nr_protectedLineNumbers = None, nr_tokenEstimate = 1\<rparr>"

theorem trimmed_ranges_rebase_witness:
  "covers (validateDeletedRanges (\<lambda>s. JNonFinite)
     (rebaseTrimmedRanges (validateDeletedRanges (\<lambda>s. JNonFinite) [] demo_view) 2) demo_region) = {1..2}"
proof -
  have "trimRegionHead demo_region 2 = Some demo_view"
    by (simp add: trimRegionHead_def demo_region_def demo_view_def rebaseSet_def js_ceil_div_def Let_def numeral_2_eq_2)
  from trimmed_ranges_rebase [OF this, of "\<lambda>s. JNonFinite" "[]"] show ?thesis
    by (simp add: demo_region_def protected_lines_def)
qed

end
