(* ===== verification/Fallback_Planner.thy ===== *)
theory Fallback_Planner
  imports JS_Core
begin

text \<open>
  Fallback models: how a configured entry is resolved (\<open>core/fallback-models.ts\<close>) and how a
  compaction run walks the list (\<open>core/compaction/fallback-planner.ts\<close>).  The model registry and
  the credentials are parameters.
\<close>

datatype level = LvOff | LvMinimal | LvLow | LvMedium | LvHigh | LvXhigh | LvMax

definition THINKING_SUFFIXES :: "(jstr \<times> level) list" where
  "THINKING_SUFFIXES =
     [(js ''off'', LvOff), (js ''minimal'', LvMinimal), (js ''low'', LvLow), (js ''medium'', LvMedium),
      (js ''high'', LvHigh), (js ''xhigh'', LvXhigh), (js ''max'', LvMax)]"

fun level_name :: "level \<Rightarrow> jstr" where
  "level_name LvOff = js ''off''"
| "level_name LvMinimal = js ''minimal''"
| "level_name LvLow = js ''low''"
| "level_name LvMedium = js ''medium''"
| "level_name LvHigh = js ''high''"
| "level_name LvXhigh = js ''xhigh''"
| "level_name LvMax = js ''max''"

record model_info =
  mi_provider :: jstr
  mi_id :: jstr
  mi_api :: jstr
  mi_contextWindow :: int
  mi_maxTokens :: int
  mi_reasoning :: bool
  mi_baseUrl :: jstr

record model_lookup =
  fl_availableSnapshot :: "model_info list"
  fl_getModel :: "jstr \<Rightarrow> jstr \<Rightarrow> model_info option"
  fl_hasConfiguredAuth :: "jstr \<Rightarrow> bool"

record fallback_candidate =
  fc_model :: model_info
  fc_thinkingLevel :: "level option"

abbreviation js_colon :: code_unit where "js_colon \<equiv> 58"
abbreviation js_slash :: code_unit where "js_slash \<equiv> 47"

definition splitFallbackModel :: "jstr \<Rightarrow> jstr \<times> level option" where
  "splitFallbackModel v =
     (let trimmed = js_trim v
      in case js_lastIndexOf js_colon trimmed of
           None \<Rightarrow> (trimmed, None)
         | Some index \<Rightarrow>
             (case map_of THINKING_SUFFIXES (drop (index + 1) trimmed) of
                None \<Rightarrow> (trimmed, None)
              | Some l \<Rightarrow> (take index trimmed, Some l)))"

definition resolveFallbackModel ::
  "jstr \<Rightarrow> model_lookup \<Rightarrow> jstr option \<Rightarrow> fallback_candidate option" where
  "resolveFallbackModel v lookup preferredProvider =
     (case splitFallbackModel v of
        (modelId, lvl) \<Rightarrow>
          (case js_indexOf js_slash modelId of
             None \<Rightarrow>
               (let available = filter (\<lambda>m. mi_id m = modelId) (fl_availableSnapshot lookup)
                in case List.find (\<lambda>m. Some (mi_provider m) = preferredProvider) available of
                     Some m \<Rightarrow> Some \<lparr>fc_model = m, fc_thinkingLevel = lvl\<rparr>
                   | None \<Rightarrow>
                       (if length available = 1
                        then Some \<lparr>fc_model = hd available, fc_thinkingLevel = lvl\<rparr> else None))
           | Some i \<Rightarrow>
               (case fl_getModel lookup (take i modelId) (drop (i + 1) modelId) of
                  None \<Rightarrow> None
                | Some m \<Rightarrow>
                    (if fl_hasConfiguredAuth lookup (mi_provider m)
                     then Some \<lparr>fc_model = m, fc_thinkingLevel = lvl\<rparr> else None))))"

definition fallbackKey :: "model_info \<Rightarrow> level option \<Rightarrow> jstr" where
  "fallbackKey m lvl =
     mi_provider m @ js ''/'' @ mi_id m @ js '':'' @ (case lvl of None \<Rightarrow> [] | Some l \<Rightarrow> level_name l)"

subsection \<open>One planner request\<close>

text \<open>\<open>PlannerBudget\<close> without the \<open>maxTokens\<close> that is always undefined is the reasoning level;
  credentials are opaque.\<close>

record 'a borrowed_planner =
  bp_model :: model_info
  bp_reasoning :: "level option"
  bp_auth :: 'a

definition resolvePlannerRequest :: "model_info \<Rightarrow> level option \<Rightarrow> level option \<Rightarrow> level option" where
  "resolvePlannerRequest m sessionThinkingLevel candidateThinkingLevel =
     (case candidateThinkingLevel of None \<Rightarrow> sessionThinkingLevel | Some l \<Rightarrow> Some l)"

definition plannerAttemptKey :: "'a borrowed_planner \<Rightarrow> jstr" where
  "plannerAttemptKey p = fallbackKey (bp_model p) (bp_reasoning p)"

record fallback_context =
  fx_fallbackModels :: "jstr list"
  fx_registry :: model_lookup
  fx_preferredProvider :: "jstr option"
  fx_sessionThinkingLevel :: "level option"

record fallback_walk =
  fw_nextIndex :: nat
  fw_consumed :: "jstr list"

definition walk_start :: fallback_walk where
  "walk_start = \<lparr>fw_nextIndex = 0, fw_consumed = []\<rparr>"

text \<open>\<open>resolveAuth\<close> may reject (\<open>Inl\<close>) or resolve to nothing.\<close>

type_synonym ('s, 'a) resolve_auth = "'s \<Rightarrow> model_info \<Rightarrow> 's \<times> (jstr + 'a option)"

fun borrow_loop ::
  "fallback_context \<Rightarrow> ('s, 'a) resolve_auth \<Rightarrow> jstr list \<Rightarrow> jstr list \<Rightarrow> fallback_walk \<Rightarrow> 's
     \<Rightarrow> 's \<times> fallback_walk \<times> 'a borrowed_planner option" where
  "borrow_loop ctx resolveAuth attempted [] walk s = (s, walk, None)"
| "borrow_loop ctx resolveAuth attempted (entry # rest) walk s =
     (let walk = walk\<lparr>fw_nextIndex := fw_nextIndex walk + 1\<rparr>
      in case resolveFallbackModel entry (fx_registry ctx) (fx_preferredProvider ctx) of
           None \<Rightarrow> borrow_loop ctx resolveAuth attempted rest walk s
         | Some candidate \<Rightarrow>
             (let m = fc_model candidate;
                  reasoning = resolvePlannerRequest m (fx_sessionThinkingLevel ctx) (fc_thinkingLevel candidate);
                  key = fallbackKey m reasoning
              in if key \<in> set attempted \<or> key \<in> set (fw_consumed walk)
                 then borrow_loop ctx resolveAuth attempted rest walk s
                 else (let walk = walk\<lparr>fw_consumed := js_set_add key (fw_consumed walk)\<rparr>
                       in case resolveAuth s m of
                            (s', Inr (Some auth)) \<Rightarrow>
                              (s', walk, Some \<lparr>bp_model = m, bp_reasoning = reasoning, bp_auth = auth\<rparr>)
                          | (s', _) \<Rightarrow> borrow_loop ctx resolveAuth attempted rest walk s')))"

definition borrow ::
  "fallback_context \<Rightarrow> ('s, 'a) resolve_auth \<Rightarrow> jstr list \<Rightarrow> fallback_walk \<Rightarrow> 's
     \<Rightarrow> 's \<times> fallback_walk \<times> 'a borrowed_planner option" where
  "borrow ctx resolveAuth attempted walk s =
     borrow_loop ctx resolveAuth attempted (drop (fw_nextIndex walk) (fx_fallbackModels ctx)) walk s"

subsection \<open>The walk is monotonic\<close>

lemma borrow_loop_cases:
  "borrow_loop ctx ra att (entry # rest) walk s = (s', walk', p) \<Longrightarrow>
     (borrow_loop ctx ra att rest (walk\<lparr>fw_nextIndex := fw_nextIndex walk + 1\<rparr>) s = (s', walk', p) \<Longrightarrow> P) \<Longrightarrow>
     (\<And>key walk1 s1. key \<notin> set att \<Longrightarrow> key \<notin> set (fw_consumed walk) \<Longrightarrow>
        walk1 = walk\<lparr>fw_nextIndex := fw_nextIndex walk + 1, fw_consumed := js_set_add key (fw_consumed walk)\<rparr> \<Longrightarrow>
        borrow_loop ctx ra att rest walk1 s1 = (s', walk', p) \<Longrightarrow> P) \<Longrightarrow>
     (\<And>key b. key \<notin> set att \<Longrightarrow> key \<notin> set (fw_consumed walk) \<Longrightarrow> p = Some b \<Longrightarrow> plannerAttemptKey b = key \<Longrightarrow>
        walk' = walk\<lparr>fw_nextIndex := fw_nextIndex walk + 1, fw_consumed := js_set_add key (fw_consumed walk)\<rparr> \<Longrightarrow> P) \<Longrightarrow> P"
  by (auto simp: Let_def plannerAttemptKey_def split: option.splits if_splits prod.splits sum.splits)

lemma borrow_loop_walk:
  "borrow_loop ctx ra att entries walk s = (s', walk', p) \<Longrightarrow>
     fw_nextIndex walk \<le> fw_nextIndex walk' \<and> fw_nextIndex walk' \<le> fw_nextIndex walk + length entries \<and>
     (p \<noteq> None \<longrightarrow> fw_nextIndex walk < fw_nextIndex walk') \<and>
     set (fw_consumed walk) \<subseteq> set (fw_consumed walk')"
proof (induction entries arbitrary: walk s)
  case (Cons entry rest)
  show ?case
  proof (rule borrow_loop_cases [OF Cons.prems], goal_cases)
    case 1 then show ?case using Cons.IH [OF 1] by auto
  next
    case (2 key walk1 s1) then show ?case using Cons.IH [OF 2(4)] by auto
  next
    case 3 then show ?case by auto
  qed
qed simp

lemma borrow_loop_key:
  "borrow_loop ctx ra att entries walk s = (s', walk', Some p) \<Longrightarrow>
     plannerAttemptKey p \<notin> set att \<and> plannerAttemptKey p \<notin> set (fw_consumed walk) \<and>
     plannerAttemptKey p \<in> set (fw_consumed walk')"
proof (induction entries arbitrary: walk s)
  case (Cons entry rest)
  show ?case
  proof (rule borrow_loop_cases [OF Cons.prems], goal_cases)
    case 1 then show ?case using Cons.IH [OF 1] by auto
  next
    case (2 key walk1 s1) then show ?case using Cons.IH [OF 2(4)] by auto
  next
    case 3 then show ?case by auto
  qed
qed simp

lemma borrow_walk:
  assumes "borrow ctx ra att walk s = (s', walk', Some p)"
  shows "fw_nextIndex walk < fw_nextIndex walk'" and "fw_nextIndex walk' \<le> length (fx_fallbackModels ctx)"
proof -
  note w = borrow_loop_walk [OF assms [unfolded borrow_def]]
  show "fw_nextIndex walk < fw_nextIndex walk'" using w by simp
  then have "fw_nextIndex walk < fw_nextIndex walk + length (drop (fw_nextIndex walk) (fx_fallbackModels ctx))"
    using w by linarith
  then show "fw_nextIndex walk' \<le> length (fx_fallbackModels ctx)" using w by auto
qed

subsection \<open>Successive borrowings\<close>

text \<open>The planners that a run obtains by calling its borrower again and again, each time with the
  attempted keys of the moment; the list stops at the first \<open>undefined\<close>.\<close>

fun borrow_run ::
  "fallback_context \<Rightarrow> ('s, 'a) resolve_auth \<Rightarrow> jstr list list \<Rightarrow> fallback_walk \<Rightarrow> 's
     \<Rightarrow> (jstr list \<times> 'a borrowed_planner) list" where
  "borrow_run ctx resolveAuth [] walk s = []"
| "borrow_run ctx resolveAuth (attempted # others) walk s =
     (case borrow ctx resolveAuth attempted walk s of
        (s', walk', Some p) \<Rightarrow> (attempted, p) # borrow_run ctx resolveAuth others walk' s'
      | (s', walk', None) \<Rightarrow> [])"

lemma borrow_run_keys:
  "distinct (map (plannerAttemptKey \<circ> snd) (borrow_run ctx ra atts walk s)) \<and>
   plannerAttemptKey ` snd ` set (borrow_run ctx ra atts walk s) \<inter> set (fw_consumed walk) = {} \<and>
   (\<forall>(att, p) \<in> set (borrow_run ctx ra atts walk s). plannerAttemptKey p \<notin> set att)"
proof (induction atts arbitrary: walk s)
  case (Cons att others)
  obtain s' walk' p where b: "borrow ctx ra att walk s = (s', walk', p)" by (metis prod_cases3)
  show ?case
  proof (cases p)
    case (Some q)
    note key = borrow_loop_key [OF b [unfolded borrow_def Some]]
    have "set (fw_consumed walk) \<subseteq> set (fw_consumed walk')"
      using borrow_loop_walk [OF b [unfolded borrow_def]] by simp
    then show ?thesis using Cons.IH [of walk' s'] key by (fastforce simp: b Some)
  qed (simp add: b)
qed simp

lemma borrow_run_length:
  assumes "fw_nextIndex walk \<le> length (fx_fallbackModels ctx)"
  shows "fw_nextIndex walk + length (borrow_run ctx ra atts walk s) \<le> length (fx_fallbackModels ctx)"
  using assms
proof (induction atts arbitrary: walk s)
  case (Cons att others)
  obtain s' walk' p where b: "borrow ctx ra att walk s = (s', walk', p)" by (metis prod_cases3)
  show ?case
  proof (cases p)
    case (Some q)
    note w = borrow_walk [OF b [unfolded Some]]
    show ?thesis using Cons.IH [OF w(2), of s'] w(1) by (simp add: b Some)
  qed (simp add: b Cons.prems)
qed simp

text \<open>one monotonic pass over the configured list.  However often a run asks for another planner,
  with whatever attempted keys and whatever the credentials do, it gets at most one planner per
  configured entry, never the same effective \<open>provider/model:level\<close> twice, and never one that was
  already attempted.\<close>

theorem borrowed_planners_distinct:
  "let planners = borrow_run ctx resolveAuth attempts walk_start s
   in distinct (map (plannerAttemptKey \<circ> snd) planners) \<and>
      length planners \<le> length (fx_fallbackModels ctx) \<and>
      list_all (\<lambda>(attempted, p). plannerAttemptKey p \<notin> set attempted) planners"
  using borrow_run_keys [of ctx resolveAuth attempts walk_start s]
    borrow_run_length [of walk_start ctx resolveAuth attempts s]
  by (simp add: Let_def walk_start_def list_all_iff)

end
