(* ===== verification/Planner_Outcome.thy ===== *)
theory Planner_Outcome
  imports Planner_Prompt Region_Trim Fallback_Planner
begin

text \<open>
  One planner attempt (\<open>core/compaction/planner-outcome.ts\<close>, \<open>range-planner.ts\<close> and
  \<open>range-planner-diagnostics.ts\<close>): how a provider's failure is classified, which diagnostic file is
  written, and how an answer becomes a \<open>PlannerOutcome\<close>.

  The provider call (pi-ai's \<open>retryAssistantCall\<close> around \<open>streamFn\<close>), pi-ai's \<open>isContextOverflow\<close>, the
  file system and the abort signal are the fields of \<open>run_env\<close>; they act on an opaque world of type
  \<open>'s\<close>.  Timestamps are left out of the records.
\<close>

subsection \<open>Provider answers\<close>

datatype stop_reason = StopStop | StopLength | StopToolUse | StopError | StopAborted

datatype content_block = TextBlock jstr | OtherBlock jstr

record token_usage =
  us_input :: nat
  us_output :: nat
  us_cacheRead :: nat
  us_cacheWrite :: nat
  us_totalTokens :: nat
  us_reasoning :: "nat option"

record assistant_message =
  am_content :: "content_block list"
  am_usage :: "token_usage option"
  am_stopReason :: stop_reason
  am_errorMessage :: "jstr option"

fun block_text :: "content_block \<Rightarrow> jstr option" where
  "block_text (TextBlock t) = Some t"
| "block_text (OtherBlock t) = None"

definition responseText :: "assistant_message \<Rightarrow> jstr" where
  "responseText m = concat (List.map_filter block_text (am_content m))"

definition syntheticErrorResponse :: "jstr \<Rightarrow> assistant_message" where
  "syntheticErrorResponse errorMessage =
     \<lparr>am_content = [], am_usage = Some \<lparr>us_input = 0, us_output = 0, us_cacheRead = 0, us_cacheWrite = 0,
        us_totalTokens = 0, us_reasoning = None\<rparr>,
      am_stopReason = StopError, am_errorMessage = Some errorMessage\<rparr>"

definition isReasoningStarved :: "assistant_message \<Rightarrow> bool \<Rightarrow> bool" where
  "isReasoningStarved response hasUsableRanges \<longleftrightarrow>
     am_stopReason response = StopLength \<and> \<not> hasUsableRanges \<and>
     0 < (case am_usage response of None \<Rightarrow> 0
          | Some u \<Rightarrow> (case us_reasoning u of None \<Rightarrow> 0 | Some n \<Rightarrow> n))"

subsection \<open>Failure patterns\<close>

text \<open>The patterns are alternatives of literal letters and \<open>.?\<close>, searched anywhere and without regard
  to case; \<open>.\<close> matches no line terminator.\<close>

datatype pattern_item = PChar code_unit | POptAny

definition js_line_terminator :: "code_unit \<Rightarrow> bool" where
  "js_line_terminator c \<longleftrightarrow> c = 10 \<or> c = 13 \<or> c = 0x2028 \<or> c = 0x2029"

fun match_here :: "pattern_item list \<Rightarrow> jstr \<Rightarrow> bool" where
  "match_here [] s = True"
| "match_here (PChar c # ps) [] = False"
| "match_here (PChar c # ps) (x # s) = (js_lower x = js_lower c \<and> match_here ps s)"
| "match_here (POptAny # ps) [] = match_here ps []"
| "match_here (POptAny # ps) (x # s) =
     ((\<not> js_line_terminator x \<and> match_here ps s) \<or> match_here ps (x # s))"

fun match_anywhere :: "pattern_item list \<Rightarrow> jstr \<Rightarrow> bool" where
  "match_anywhere ps [] = match_here ps []"
| "match_anywhere ps (x # s) = (match_here ps (x # s) \<or> match_anywhere ps s)"

definition lit :: "string \<Rightarrow> pattern_item list" where
  "lit s = map PChar (js s)"

definition buildProviderErrorPattern :: "pattern_item list list \<Rightarrow> jstr \<Rightarrow> bool" where
  "buildProviderErrorPattern patterns s = list_ex (\<lambda>p. match_anywhere p s) patterns"

definition QUOTA_EXHAUSTED_PATTERN :: "jstr \<Rightarrow> bool" where
  "QUOTA_EXHAUSTED_PATTERN = buildProviderErrorPattern
     [lit ''GoUsageLimitError'', lit ''FreeUsageLimitError'', lit ''Monthly usage limit reached'',
      lit ''available balance'', lit ''insufficient_quota'', lit ''out of budget'',
      lit ''quota exceeded'', lit ''billing'']"

definition LOCAL_USAGE_LIMIT_PATTERN :: "jstr \<Rightarrow> bool" where
  "LOCAL_USAGE_LIMIT_PATTERN = match_anywhere (lit ''usage'' @ POptAny # lit ''limit'')"

definition RATE_LIMITED_PATTERN :: "jstr \<Rightarrow> bool" where
  "RATE_LIMITED_PATTERN = buildProviderErrorPattern
     [lit ''overloaded'', lit ''rate'' @ POptAny # lit ''limit'', lit ''too many requests'', lit ''429'',
      lit ''service'' @ POptAny # lit ''unavailable'', lit ''server'' @ POptAny # lit ''error'',
      lit ''internal'' @ POptAny # lit ''error'', lit ''ResourceExhausted'']"

definition digit_or_dot :: "code_unit \<Rightarrow> bool" where
  "digit_or_dot c \<longleftrightarrow> js_digit c \<or> c = 46"

text \<open>A 5, two digits, and no digit or point before or after; the first argument is the character
  before the position.\<close>

fun http_5xx_from :: "code_unit option \<Rightarrow> jstr \<Rightarrow> bool" where
  "http_5xx_from before (a # b # c # s) =
     ((\<not> (case before of None \<Rightarrow> False | Some x \<Rightarrow> digit_or_dot x) \<and> a = 53 \<and> js_digit b \<and> js_digit c \<and>
       \<not> (case s of [] \<Rightarrow> False | x # _ \<Rightarrow> digit_or_dot x))
      \<or> http_5xx_from (Some a) (b # c # s))"
| "http_5xx_from before s = False"

definition HTTP_5XX_PATTERN :: "jstr \<Rightarrow> bool" where
  "HTTP_5XX_PATTERN s = http_5xx_from None s"

datatype planner_failure_class = FailOverflow | FailQuota | FailRateLimited | FailProviderError

definition classifyPlannerFailure ::
  "(assistant_message \<Rightarrow> int \<Rightarrow> bool) \<Rightarrow> assistant_message \<Rightarrow> int \<Rightarrow> planner_failure_class" where
  "classifyPlannerFailure isContextOverflow response contextWindow =
     (if isContextOverflow response contextWindow then FailOverflow
      else (let message = (case am_errorMessage response of None \<Rightarrow> [] | Some m \<Rightarrow> m)
            in if QUOTA_EXHAUSTED_PATTERN message \<or> LOCAL_USAGE_LIMIT_PATTERN message then FailQuota
               else if RATE_LIMITED_PATTERN message \<or> HTTP_5XX_PATTERN message then FailRateLimited
               else FailProviderError))"

subsection \<open>Outcomes\<close>

datatype diagnostic_category =
  DcMalformedOutput | DcNoUsableRanges | DcProviderError | DcStreamError | DcStarved | DcRateLimited
  | DcQuota | DcContextOverflow

datatype limit_class = LimitQuota | LimitRateLimited

datatype terminal_outcome =
  RateLimited limit_class bool jstr "jstr option"
  | Unusable diagnostic_category jstr "jstr option"
  | Overflowed "jstr option"
  | ProviderError jstr "jstr option"

datatype planner_outcome =
  Ranked "line_range list"
  | Recovered "line_range list" nat
  | Terminal terminal_outcome

fun isPlannerSuccess :: "planner_outcome \<Rightarrow> bool" where
  "isPlannerSuccess (Ranked rs) = True"
| "isPlannerSuccess (Recovered rs n) = True"
| "isPlannerSuccess (Terminal t) = False"

subsection \<open>Diagnostic files\<close>

record model_meta =
  mm_provider :: jstr
  mm_id :: jstr
  mm_api :: jstr
  mm_contextWindow :: int
  mm_maxTokens :: int

definition meta_of :: "model_info \<Rightarrow> model_meta" where
  "meta_of m = \<lparr>mm_provider = mi_provider m, mm_id = mi_id m, mm_api = mi_api m,
     mm_contextWindow = mi_contextWindow m, mm_maxTokens = mi_maxTokens m\<rparr>"

record failure_diagnostic =
  fd_failureCategory :: diagnostic_category
  fd_failureMessage :: jstr
  fd_rawResponse :: jstr
  fd_stopReason :: "stop_reason option"
  fd_providerError :: "jstr option"
  fd_usage :: "token_usage option"
  fd_rateLimitExhausted :: "bool option"
  fd_model :: model_meta

record recovery_diagnostic =
  rd_rawResponse :: jstr
  rd_stopReason :: stop_reason
  rd_usage :: "token_usage option"
  rd_model :: model_meta
  rd_recoveredRangeCount :: nat

record success_diagnostic =
  sd_thinkingLevel :: "level option"
  sd_model :: model_meta

datatype sidecar_payload =
  FailureSidecar failure_diagnostic | RecoverySidecar recovery_diagnostic | SuccessSidecar success_diagnostic

definition buildDiagnosticPayload ::
  "model_info \<Rightarrow> assistant_message option \<Rightarrow> jstr \<Rightarrow> diagnostic_category \<Rightarrow> jstr \<Rightarrow> bool option
     \<Rightarrow> failure_diagnostic" where
  "buildDiagnosticPayload m response rawText category message exhausted =
     \<lparr>fd_failureCategory = category, fd_failureMessage = message, fd_rawResponse = rawText,
      fd_stopReason = map_option am_stopReason response,
      fd_providerError = Option.bind response am_errorMessage,
      fd_usage = Option.bind response am_usage, fd_rateLimitExhausted = exhausted, fd_model = meta_of m\<rparr>"

definition buildRecoveryPayload ::
  "model_info \<Rightarrow> assistant_message \<Rightarrow> jstr \<Rightarrow> nat \<Rightarrow> recovery_diagnostic" where
  "buildRecoveryPayload m response rawText recoveredCount =
     \<lparr>rd_rawResponse = rawText, rd_stopReason = am_stopReason response, rd_usage = am_usage response,
      rd_model = meta_of m, rd_recoveredRangeCount = recoveredCount\<rparr>"

definition buildSuccessPayload :: "model_info \<Rightarrow> level option \<Rightarrow> success_diagnostic" where
  "buildSuccessPayload m lvl = \<lparr>sd_thinkingLevel = lvl, sd_model = meta_of m\<rparr>"

text \<open>One exclusive creation of a fresh file name: the path written, a name collision, or any other
  failure.\<close>

datatype write_status = Written jstr | NameTaken | WriteFailed

record planner_auth =
  pa_apiKey :: "jstr option"
  pa_headers :: "(jstr \<times> jstr) list option"
  pa_baseUrl :: "jstr option"

record planner_request =
  pq_apiKey :: "jstr option"
  pq_headers :: "(jstr \<times> jstr) list option"
  pq_reasoning :: "level option"

text \<open>\<open>env_call\<close> gives the new world, whether a retry was scheduled, and a thrown error's message or
  the response.\<close>

record 's run_env =
  env_call :: "'s \<Rightarrow> model_info \<Rightarrow> jstr \<Rightarrow> jstr \<Rightarrow> planner_request \<Rightarrow> 's \<times> bool \<times> (jstr + assistant_message)"
  env_isContextOverflow :: "assistant_message \<Rightarrow> int \<Rightarrow> bool"
  env_aborted :: "'s \<Rightarrow> bool"
  env_write :: "'s \<Rightarrow> jstr \<Rightarrow> jstr \<Rightarrow> sidecar_payload \<Rightarrow> 's \<times> write_status"
  env_resolveAuth :: "('s, planner_auth) resolve_auth"
  env_strnum :: "jstr \<Rightarrow> js_num"
  env_sessionFilePath :: "jstr option"

fun write_attempts :: "nat \<Rightarrow> 's run_env \<Rightarrow> jstr \<Rightarrow> jstr \<Rightarrow> sidecar_payload \<Rightarrow> 's \<Rightarrow> 's \<times> jstr option" where
  "write_attempts 0 env path kind payload s = (s, None)"
| "write_attempts (Suc n) env path kind payload s =
     (case env_write env s path kind payload of
        (s', Written file) \<Rightarrow> (s', Some file)
      | (s', NameTaken) \<Rightarrow> write_attempts n env path kind payload s'
      | (s', WriteFailed) \<Rightarrow> (s', None))"

definition writeSidecar :: "'s run_env \<Rightarrow> jstr \<Rightarrow> jstr \<Rightarrow> sidecar_payload \<Rightarrow> 's \<Rightarrow> 's \<times> jstr option" where
  "writeSidecar env path kind payload s = write_attempts 4 env path kind payload s"

definition write_for_session :: "'s run_env \<Rightarrow> jstr \<Rightarrow> sidecar_payload \<Rightarrow> 's \<Rightarrow> 's \<times> jstr option" where
  "write_for_session env kind payload s =
     (case env_sessionFilePath env of
        None \<Rightarrow> (s, None)
      | Some path \<Rightarrow> (if path = [] then (s, None) else writeSidecar env path kind payload s))"

definition emitDiagnostic ::
  "'s run_env \<Rightarrow> model_info \<Rightarrow> assistant_message option \<Rightarrow> jstr \<Rightarrow> diagnostic_category \<Rightarrow> jstr \<Rightarrow> bool option
     \<Rightarrow> 's \<Rightarrow> 's \<times> jstr option" where
  "emitDiagnostic env m response rawText category message exhausted s =
     write_for_session env (js ''diagnostic'')
       (FailureSidecar (buildDiagnosticPayload m response rawText category message exhausted)) s"

definition emitRecoveryDiagnostic ::
  "'s run_env \<Rightarrow> model_info \<Rightarrow> assistant_message \<Rightarrow> jstr \<Rightarrow> nat \<Rightarrow> 's \<Rightarrow> 's" where
  "emitRecoveryDiagnostic env m response rawText recoveredCount s =
     fst (write_for_session env (js ''recovery'')
            (RecoverySidecar (buildRecoveryPayload m response rawText recoveredCount)) s)"

definition writeSuccessDiagnosticSidecar :: "'s run_env \<Rightarrow> model_info \<Rightarrow> level option \<Rightarrow> 's \<Rightarrow> 's" where
  "writeSuccessDiagnosticSidecar env m lvl s =
     fst (write_for_session env (js ''success'') (SuccessSidecar (buildSuccessPayload m lvl)) s)"

subsection \<open>One attempt\<close>

definition NO_USABLE_RANGES_MESSAGE :: jstr where
  "NO_USABLE_RANGES_MESSAGE = js ''Compaction range planning produced no usable deleted ranges''"

definition MALFORMED_OUTPUT_MESSAGE :: jstr where
  "MALFORMED_OUTPUT_MESSAGE = js ''Compaction range planning returned malformed output''"

definition plannerRequestModel :: "planner_auth borrowed_planner \<Rightarrow> model_info" where
  "plannerRequestModel p =
     (case pa_baseUrl (bp_auth p) of
        None \<Rightarrow> bp_model p
      | Some url \<Rightarrow> (if url = mi_baseUrl (bp_model p) then bp_model p
                     else (bp_model p)\<lparr>mi_baseUrl := url\<rparr>))"

definition planner_request_of :: "planner_auth borrowed_planner \<Rightarrow> model_info \<Rightarrow> planner_request" where
  "planner_request_of p m =
     \<lparr>pq_apiKey = pa_apiKey (bp_auth p), pq_headers = pa_headers (bp_auth p),
      pq_reasoning = (if mi_reasoning m \<and> bp_reasoning p \<noteq> Some LvOff then bp_reasoning p else None)\<rparr>"

definition unusableOutcome ::
  "'s run_env \<Rightarrow> model_info \<Rightarrow> assistant_message \<Rightarrow> jstr \<Rightarrow> diagnostic_category \<Rightarrow> jstr \<Rightarrow> 's
     \<Rightarrow> 's \<times> planner_outcome" where
  "unusableOutcome env m response t category message s =
     (case emitDiagnostic env m (Some response) t category message None s of
        (s', diagnosticPath) \<Rightarrow> (s', Terminal (Unusable category (take 500 t) diagnosticPath)))"

definition providerFailureOutcome ::
  "'s run_env \<Rightarrow> model_info \<Rightarrow> assistant_message \<Rightarrow> jstr \<Rightarrow> jstr \<Rightarrow> bool \<Rightarrow> bool \<Rightarrow> 's
     \<Rightarrow> 's \<times> planner_outcome" where
  "providerFailureOutcome env m response t message transport retryWasScheduled s =
     (let recorded = (if transport then None else Some response)
      in case classifyPlannerFailure (env_isContextOverflow env) response (mi_contextWindow m) of
           FailQuota \<Rightarrow>
             (case emitDiagnostic env m recorded t DcQuota message (Some False) s of
                (s', path) \<Rightarrow> (s', Terminal (RateLimited LimitQuota False message path)))
         | FailRateLimited \<Rightarrow>
             (case emitDiagnostic env m recorded t DcRateLimited message (Some retryWasScheduled) s of
                (s', path) \<Rightarrow> (s', Terminal (RateLimited LimitRateLimited retryWasScheduled message path)))
         | FailOverflow \<Rightarrow>
             (case emitDiagnostic env m recorded t DcContextOverflow message None s of
                (s', path) \<Rightarrow> (s', Terminal (Overflowed path)))
         | FailProviderError \<Rightarrow>
             (case emitDiagnostic env m recorded t (if transport then DcStreamError else DcProviderError)
                     message None s of
                (s', path) \<Rightarrow> (s', Terminal (ProviderError message path))))"

definition js_or :: "jstr option \<Rightarrow> jstr \<Rightarrow> jstr" where
  "js_or v fallback = (case v of None \<Rightarrow> fallback | Some s \<Rightarrow> (if s = [] then fallback else s))"

definition classify_length ::
  "'s run_env \<Rightarrow> numbered_region \<Rightarrow> model_info \<Rightarrow> assistant_message \<Rightarrow> jstr \<Rightarrow> 's \<Rightarrow> 's \<times> planner_outcome" where
  "classify_length env region m response t s =
     (let recovery = recoverTruncatedRecords t;
          recovered = (case recovery of None \<Rightarrow> []
                       | Some ranges \<Rightarrow> validateDeletedRanges (env_strnum env) ranges region)
      in case recovery of
           Some ranges \<Rightarrow>
             (if 0 < length recovered
              then (emitRecoveryDiagnostic env m response t (length ranges) s,
                    Recovered recovered (length ranges))
              else if isReasoningStarved response False
              then unusableOutcome env m response t DcStarved NO_USABLE_RANGES_MESSAGE s
              else unusableOutcome env m response t DcNoUsableRanges NO_USABLE_RANGES_MESSAGE s)
         | None \<Rightarrow>
             (if isReasoningStarved response False
              then unusableOutcome env m response t DcStarved NO_USABLE_RANGES_MESSAGE s
              else unusableOutcome env m response t DcMalformedOutput MALFORMED_OUTPUT_MESSAGE s))"

definition classify_complete ::
  "'s run_env \<Rightarrow> numbered_region \<Rightarrow> model_info \<Rightarrow> assistant_message \<Rightarrow> jstr \<Rightarrow> 's \<Rightarrow> 's \<times> planner_outcome" where
  "classify_complete env region m response t s =
     (case parseRangeRecords t of
        None \<Rightarrow> unusableOutcome env m response t DcMalformedOutput MALFORMED_OUTPUT_MESSAGE s
      | Some extracted \<Rightarrow>
          (let validated = validateDeletedRanges (env_strnum env) extracted region
           in if length validated = 0
              then unusableOutcome env m response t DcNoUsableRanges NO_USABLE_RANGES_MESSAGE s
              else (s, Ranked validated)))"

text \<open>\<open>None\<close> is the thrown \<open>Compaction cancelled\<close>.\<close>

definition planDeletedLineRanges ::
  "'s run_env \<Rightarrow> numbered_region \<Rightarrow> compaction_parameters \<Rightarrow> planner_auth borrowed_planner \<Rightarrow> int \<Rightarrow> 's
     \<Rightarrow> 's \<times> planner_outcome option" where
  "planDeletedLineRanges env region parameters planner targetKeepLines s =
     (if env_aborted env s then (s, None)
      else (let prompt = buildRangePlannerPrompt region parameters targetKeepLines;
                m = plannerRequestModel planner
            in case env_call env s m RANGE_PLANNER_SYSTEM_PROMPT prompt (planner_request_of planner m) of
                 (s', scheduled, Inl message) \<Rightarrow>
                   (if env_aborted env s' then (s', None)
                    else map_prod id Some
                           (providerFailureOutcome env m (syntheticErrorResponse message) [] message True scheduled s'))
               | (s', scheduled, Inr response) \<Rightarrow>
                   (let t = responseText response
                    in if am_stopReason response = StopAborted \<or> env_aborted env s' then (s', None)
                       else map_prod id Some
                         (if am_stopReason response = StopError
                          then providerFailureOutcome env m response t
                                 (js_or (am_errorMessage response) (js ''Compaction provider failed''))
                                 False scheduled s'
                          else if env_isContextOverflow env response (mi_contextWindow m)
                          then providerFailureOutcome env m response t
                                 (js_or (am_errorMessage response)
                                    (js ''Compaction planner request exceeded the model context window''))
                                 False scheduled s'
                          else if am_stopReason response = StopLength
                          then classify_length env region m response t s'
                          else classify_complete env region m response t s'))))"

subsection \<open>What the patterns match\<close>

text \<open>\<open>mentions s ws\<close>: the words occur in \<open>s\<close>, in any case, each separated from the one before by
  nothing or by one character that is not a line terminator.\<close>

fun spelled :: "string list \<Rightarrow> jstr \<Rightarrow> bool" where
  "spelled [] s = (s = [])"
| "spelled (w # ws) s =
     (\<exists>x gap y. s = x @ gap @ y \<and> map js_lower x = map js_lower (js w) \<and> spelled ws y \<and>
        (if ws = [] then gap = [] else length gap \<le> 1 \<and> \<not> list_ex js_line_terminator gap))"

definition mentions :: "jstr \<Rightarrow> string list \<Rightarrow> bool" where
  "mentions s ws \<longleftrightarrow> (\<exists>pre w post. s = pre @ w @ post \<and> spelled ws w)"

lemma match_chars: "match_here (map PChar w @ ps) s \<longleftrightarrow>
    (\<exists>x y. s = x @ y \<and> map js_lower x = map js_lower w \<and> match_here ps y)"
proof (induction w arbitrary: s)
  case (Cons c w)
  show ?case
  proof (cases s)
    case Nil
    then show ?thesis by auto
  next
    case (Cons x s')
    have "(\<exists>u y. s = u @ y \<and> map js_lower u = map js_lower (c # w) \<and> match_here ps y) \<longleftrightarrow>
        js_lower x = js_lower c \<and> (\<exists>u y. s' = u @ y \<and> map js_lower u = map js_lower w \<and> match_here ps y)"
      (is "?L \<longleftrightarrow> ?R")
    proof
      assume ?L
      then obtain u y where u: "s = u @ y" "map js_lower u = map js_lower (c # w)" "match_here ps y" by blast
      then obtain u' where "u = x # u'" by (cases u) (auto simp: Cons)
      with u show ?R by (auto simp: Cons)
    next
      assume ?R
      then obtain u y where "js_lower x = js_lower c" "s' = u @ y" "map js_lower u = map js_lower w"
        "match_here ps y" by blast
      then show ?L by (intro exI [of _ "x # u"] exI [of _ y]) (simp add: Cons)
    qed
    then show ?thesis using Cons.IH [of s'] by (simp add: Cons)
  qed
qed auto

lemma match_opt: "match_here (POptAny # ps) s \<longleftrightarrow>
    (\<exists>gap y. s = gap @ y \<and> length gap \<le> 1 \<and> \<not> list_ex js_line_terminator gap \<and> match_here ps y)"
proof (cases s)
  case (Cons x s')
  show ?thesis
  proof
    assume "match_here (POptAny # ps) s"
    then consider "\<not> js_line_terminator x \<and> match_here ps s'" | "match_here ps s" by (auto simp: Cons)
    then show "\<exists>gap y. s = gap @ y \<and> length gap \<le> 1 \<and> \<not> list_ex js_line_terminator gap \<and> match_here ps y"
    proof cases
      case 1
      then show ?thesis by (intro exI [of _ "[x]"] exI [of _ s']) (simp add: Cons)
    next
      case 2
      then show ?thesis by (intro exI [of _ "[]"] exI [of _ s]) simp
    qed
  next
    assume "\<exists>gap y. s = gap @ y \<and> length gap \<le> 1 \<and> \<not> list_ex js_line_terminator gap \<and> match_here ps y"
    then obtain gap y where g: "s = gap @ y" "length gap \<le> 1" "\<not> list_ex js_line_terminator gap"
      "match_here ps y" by blast
    then show "match_here (POptAny # ps) s" by (cases gap) (auto simp: Cons)
  qed
qed auto

lemma match_anywhere_iff: "match_anywhere ps s \<longleftrightarrow> (\<exists>pre post. s = pre @ post \<and> match_here ps post)"
  by (induction s) (auto simp: Cons_eq_append_conv)

lemma match_word: "match_anywhere (lit w) s \<longleftrightarrow> mentions s [w]"
proof -
  have "match_here (lit w) t \<longleftrightarrow> (\<exists>x y. t = x @ y \<and> map js_lower x = map js_lower (js w))" for t
    using match_chars [of "js w" "[]" t] by (simp add: lit_def)
  then show ?thesis by (auto simp: match_anywhere_iff mentions_def)
qed

lemma match_two_words: "match_anywhere (lit v @ POptAny # lit w) s \<longleftrightarrow> mentions s [v, w]"
proof -
  have "match_here (lit v @ POptAny # lit w) t \<longleftrightarrow>
      (\<exists>x gap y z. t = x @ gap @ y @ z \<and> map js_lower x = map js_lower (js v) \<and>
         map js_lower y = map js_lower (js w) \<and> length gap \<le> 1 \<and> \<not> list_ex js_line_terminator gap)" for t
    using match_chars [of "js v" "POptAny # lit w" t] match_chars [of "js w" "[]"]
    by (simp add: lit_def match_opt) blast
  note here = this
  show ?thesis
  proof
    assume "match_anywhere (lit v @ POptAny # lit w) s"
    then obtain pre t where t: "s = pre @ t" "match_here (lit v @ POptAny # lit w) t"
      unfolding match_anywhere_iff by blast
    then obtain x gap y z where m: "t = x @ gap @ y @ z" "map js_lower x = map js_lower (js v)"
      "map js_lower y = map js_lower (js w)" "length gap \<le> 1" "\<not> list_ex js_line_terminator gap"
      unfolding here by blast
    have "spelled [w] y" using m(3) by simp
    then have "spelled [v, w] (x @ gap @ y)" unfolding spelled.simps(2) [of v "[w]"] using m(2,4,5) by auto
    then show "mentions s [v, w]" unfolding mentions_def
      by (intro exI [of _ pre] exI [of _ "x @ gap @ y"] exI [of _ z]) (simp add: t m)
  next
    assume "mentions s [v, w]"
    then obtain pre u post where u: "s = pre @ u @ post" "spelled [v, w] u" unfolding mentions_def by blast
    from u(2) obtain x gap y where m: "u = x @ gap @ y" "map js_lower x = map js_lower (js v)" "spelled [w] y"
      "length gap \<le> 1" "\<not> list_ex js_line_terminator gap"
      unfolding spelled.simps(2) [of v "[w]"] by auto
    from m(3) have "map js_lower y = map js_lower (js w)" by auto
    then have "match_here (lit v @ POptAny # lit w) (u @ post)" unfolding here using m
      by (intro exI [of _ x] exI [of _ gap] exI [of _ y] exI [of _ post]) simp
    then show "match_anywhere (lit v @ POptAny # lit w) s" unfolding match_anywhere_iff
      by (intro exI [of _ pre] exI [of _ "u @ post"]) (simp add: u)
  qed
qed

lemma http_5xx_from_iff:
  "http_5xx_from before s \<longleftrightarrow>
     (\<exists>pre b c post. s = pre @ [53, b, c] @ post \<and> js_digit b \<and> js_digit c \<and>
        \<not> list_ex digit_or_dot (take 1 post) \<and>
        \<not> list_ex digit_or_dot (if pre = [] then (case before of None \<Rightarrow> [] | Some x \<Rightarrow> [x]) else [last pre]))"
proof (induction before s rule: http_5xx_from.induct)
  case (1 before a b c s)
  have split: "(\<exists>pre x y post. a # b # c # s = pre @ [53, x, y] @ post \<and> Q pre x y post) \<longleftrightarrow>
      (a = 53 \<and> Q [] b c s) \<or> (\<exists>pre x y post. b # c # s = pre @ [53, x, y] @ post \<and> Q (a # pre) x y post)"
    for Q :: "code_unit list \<Rightarrow> code_unit \<Rightarrow> code_unit \<Rightarrow> code_unit list \<Rightarrow> bool"
    by (simp add: Cons_eq_append_conv [of a]) blast
  let ?Q = "\<lambda>pre b c post. js_digit b \<and> js_digit c \<and> \<not> list_ex digit_or_dot (take 1 post) \<and>
        \<not> list_ex digit_or_dot (if pre = [] then (case before of None \<Rightarrow> [] | Some x \<Rightarrow> [x]) else [last pre])"
  have e1: "(case before of None \<Rightarrow> False | Some x \<Rightarrow> digit_or_dot x) =
      list_ex digit_or_dot (case before of None \<Rightarrow> [] | Some x \<Rightarrow> [x])" by (cases before) auto
  have e2: "(case s of [] \<Rightarrow> False | x # _ \<Rightarrow> digit_or_dot x) = list_ex digit_or_dot (take 1 s)"
    by (cases s) auto
  have e3: "(if a # pre = [] then X else [last (a # pre)]) =
      (if pre = [] then (case Some a of None \<Rightarrow> [] | Some x \<Rightarrow> [x]) else [last pre])" for pre X by simp
  have "http_5xx_from before (a # b # c # s) \<longleftrightarrow>
      (a = 53 \<and> ?Q [] b c s) \<or> (\<exists>pre x y post. b # c # s = pre @ [53, x, y] @ post \<and> ?Q (a # pre) x y post)"
    unfolding http_5xx_from.simps(1) 1 e1 e2 e3 by (simp only: refl if_True conj_ac)
  then show ?case unfolding split [of ?Q, symmetric] .
qed (simp_all add: Cons_eq_append_conv)

subsection \<open>Properties\<close>

definition quota_words :: "string list list" where
  "quota_words = [[''GoUsageLimitError''], [''FreeUsageLimitError''], [''Monthly usage limit reached''],
     [''available balance''], [''insufficient_quota''], [''out of budget''], [''quota exceeded''],
     [''billing''], [''usage'', ''limit'']]"

definition throttle_words :: "string list list" where
  "throttle_words = [[''overloaded''], [''rate'', ''limit''], [''too many requests''], [''429''],
     [''service'', ''unavailable''], [''server'', ''error''], [''internal'', ''error''],
     [''ResourceExhausted'']]"

definition has_5xx :: "jstr \<Rightarrow> bool" where
  "has_5xx s \<longleftrightarrow>
     (\<exists>pre b c post. s = pre @ [53, b, c] @ post \<and> js_digit b \<and> js_digit c \<and>
        \<not> list_ex digit_or_dot (take 1 post) \<and> \<not> list_ex digit_or_dot (if pre = [] then [] else [last pre]))"

lemma quota_iff: "QUOTA_EXHAUSTED_PATTERN s \<or> LOCAL_USAGE_LIMIT_PATTERN s \<longleftrightarrow> list_ex (mentions s) quota_words"
  by (simp add: QUOTA_EXHAUSTED_PATTERN_def LOCAL_USAGE_LIMIT_PATTERN_def buildProviderErrorPattern_def
      quota_words_def match_word match_two_words)

lemma throttle_iff: "RATE_LIMITED_PATTERN s \<longleftrightarrow> list_ex (mentions s) throttle_words"
  by (simp add: RATE_LIMITED_PATTERN_def buildProviderErrorPattern_def throttle_words_def match_word
      match_two_words)

lemma http_5xx_iff: "HTTP_5XX_PATTERN s \<longleftrightarrow> has_5xx s"
  by (simp add: HTTP_5XX_PATTERN_def http_5xx_from_iff has_5xx_def)

text \<open>Failures are told apart by what the message says, in a fixed order: context overflow, then any
  quota or billing phrase (in any case, anywhere), then any throttling phrase or a three-digit 5xx that
  is not part of a longer number, and otherwise an ordinary provider error.\<close>

theorem planner_failure_classes:
  "let message = (case am_errorMessage response of None \<Rightarrow> [] | Some m \<Rightarrow> m)
   in classifyPlannerFailure isContextOverflow response contextWindow =
      (if isContextOverflow response contextWindow then FailOverflow
       else if list_ex (mentions message) quota_words then FailQuota
       else if list_ex (mentions message) throttle_words \<or> has_5xx message then FailRateLimited
       else FailProviderError)"
  by (simp add: classifyPlannerFailure_def Let_def quota_iff throttle_iff http_5xx_iff)

definition safe_ranges :: "numbered_region \<Rightarrow> line_range list \<Rightarrow> bool" where
  "safe_ranges region rs \<longleftrightarrow>
     rs \<noteq> [] \<and> canonical rs \<and> covers rs \<subseteq> {1..int (length (nr_lines region))} - protected_lines region"

lemma validate_safe: "validateDeletedRanges strnum raw region \<noteq> [] \<Longrightarrow>
    safe_ranges region (validateDeletedRanges strnum raw region)"
  using validate_spec [of strnum raw region] validate_bounds [of _ strnum raw region]
  by (force simp: safe_ranges_def covers_def)

definition safe_outcome :: "numbered_region \<Rightarrow> planner_outcome \<Rightarrow> bool" where
  "safe_outcome region out =
     (case out of Ranked rs \<Rightarrow> safe_ranges region rs | Recovered rs n \<Rightarrow> safe_ranges region rs
      | Terminal t \<Rightarrow> True)"

lemma safe_terminal:
  "safe_outcome region (snd (unusableOutcome env m r t c msg s))"
  "safe_outcome region (snd (providerFailureOutcome env m r t msg tr sched s))"
  by (auto simp: safe_outcome_def unusableOutcome_def providerFailureOutcome_def Let_def
      split: prod.splits planner_failure_class.splits)

lemma classify_length_safe: "safe_outcome region (snd (classify_length env region m r t s))"
proof (cases "recoverTruncatedRecords t")
  case None
  then show ?thesis by (simp add: classify_length_def safe_terminal)
next
  case (Some ranges)
  then show ?thesis
    using validate_safe [of "env_strnum env" ranges region]
    by (auto simp: classify_length_def safe_terminal safe_outcome_def [of _ "Recovered _ _"] Let_def)
qed

lemma classify_complete_safe: "safe_outcome region (snd (classify_complete env region m r t s))"
proof (cases "parseRangeRecords t")
  case None
  then show ?thesis by (simp add: classify_complete_def safe_terminal)
next
  case (Some ranges)
  then show ?thesis
    using validate_safe [of "env_strnum env" ranges region]
    by (auto simp: classify_complete_def safe_terminal safe_outcome_def [of _ "Ranked _"] Let_def)
qed

lemma plan_safe: "pred_option (safe_outcome region) (snd (planDeletedLineRanges env region params planner k s))"
  by (simp add: planDeletedLineRanges_def Let_def classify_length_safe classify_complete_safe safe_terminal
      split: prod.splits sum.splits)

text \<open>the airlock.  Whatever the provider answers, the ranges of a successful attempt are non-empty,
  canonical, inside the region that was sent, and touch no protected line.\<close>

theorem planner_ranges_are_safe:
  "case snd (planDeletedLineRanges env region parameters planner targetKeepLines s) of
     Some (Ranked rs) \<Rightarrow> safe_ranges region rs
   | Some (Recovered rs n) \<Rightarrow> safe_ranges region rs
   | _ \<Rightarrow> True"
  using plan_safe [of region env parameters planner targetKeepLines s]
  by (auto simp: safe_outcome_def split: option.splits planner_outcome.splits)

end
