(* ===== verification/Compaction_Runner.thy ===== *)
theory Compaction_Runner
  imports Planner_Outcome
begin

text \<open>
  The compaction ladder (\<open>core/compaction/compaction-runner.ts\<close>): the session model, then each
  configured fallback model, each with oldest-first trimming when its request overflows, then, for a
  load-bearing caller only, a fresh context window.  Ratios are computed exactly here, in double
  arithmetic in the source.
\<close>

definition MIN_COMPACTABLE_REGION_LINES :: nat where
  "MIN_COMPACTABLE_REGION_LINES = 20"

datatype urgency = Recoverable | LoadBearing

text \<open>\<open>vp_keptTail\<close> is the preparation's entry of the weak map \<open>keptTailTokensByPreparation\<close>.\<close>

record compaction_preparation =
  vp_region :: numbered_region
  vp_tokensBefore :: nat
  vp_parameters :: compaction_parameters
  vp_keptTail :: "nat option"

definition getKeptTailTokenEstimate :: "compaction_preparation \<Rightarrow> nat" where
  "getKeptTailTokenEstimate prep =
     (case vp_keptTail prep of
        Some n \<Rightarrow> n
      | None \<Rightarrow> nat (max 0 (int (vp_tokensBefore prep) - int (nr_tokenEstimate (vp_region prep)))))"

record planner_model =
  pm_provider :: jstr
  pm_id :: jstr
  pm_thinkingLevel :: "level option"

datatype rung = RungPlanned | RungFresh

record rung_result =
  rr_transcript :: compacted_transcript
  rr_rung :: rung
  rr_plannerModel :: "planner_model option"
  rr_keptTail :: bool

record range_plan_error =
  re_message :: jstr
  re_attempts :: nat
  re_lastResponseExcerpt :: jstr
  re_providerOverflow :: bool
  re_diagnosticPath :: "jstr option"
  re_outcome :: "terminal_outcome option"

definition RangePlanError ::
  "jstr \<Rightarrow> nat \<Rightarrow> jstr \<Rightarrow> bool \<Rightarrow> jstr option \<Rightarrow> terminal_outcome option \<Rightarrow> range_plan_error" where
  "RangePlanError message attempts excerpt overflow path out =
     \<lparr>re_message = (case path of None \<Rightarrow> message
                    | Some p \<Rightarrow> (if p = [] then message
                                else message @ js '' (diagnostic: '' @ p @ js '')'')),
      re_attempts = attempts, re_lastResponseExcerpt = excerpt, re_providerOverflow = overflow,
      re_diagnosticPath = path, re_outcome = out\<rparr>"

subsection \<open>Results\<close>

definition targetKeepLines :: "numbered_region \<Rightarrow> compaction_parameters \<Rightarrow> int" where
  "targetKeepLines region parameters =
     js_round (of_nat (length (nr_lines region)) * vc_compression_ratio parameters)"

text \<open>The limit \<open>None\<close> is infinity.\<close>

definition hardInputLimitFor :: "model_info \<Rightarrow> int option" where
  "hardInputLimitFor m = (if 0 < mi_contextWindow m then Some (mi_contextWindow m) else None)"

definition withWholeContextStats ::
  "compacted_transcript \<Rightarrow> compaction_preparation \<Rightarrow> bool \<Rightarrow> compacted_transcript" where
  "withWholeContextStats result prep keptTail =
     (let tokensAfter = cs_tokensAfter (ct_stats result)
            + (if keptTail then getKeptTailTokenEstimate prep else 0)
      in result\<lparr>ct_stats := (ct_stats result)\<lparr>cs_tokensBefore := vp_tokensBefore prep,
           cs_tokensAfter := tokensAfter,
           cs_percentReduction := percent_reduction tokensAfter (vp_tokensBefore prep)\<rparr>\<rparr>)"

definition whole_region :: "numbered_region \<Rightarrow> raw_range list" where
  "whole_region region =
     (if 0 < length (nr_lines region) then [raw_of 1 (int (length (nr_lines region)))] else [])"

definition buildFreshTranscript :: "(jstr \<Rightarrow> js_num) \<Rightarrow> compaction_preparation \<Rightarrow> compacted_transcript" where
  "buildFreshTranscript strnum prep =
     reconstructCompactedTranscript (vp_region prep)
       (validateDeletedRanges strnum (whole_region (vp_region prep)) (vp_region prep))"

definition buildFreshContextWindow ::
  "(jstr \<Rightarrow> js_num) \<Rightarrow> compaction_preparation \<Rightarrow> int option \<Rightarrow> compacted_transcript \<times> bool" where
  "buildFreshContextWindow strnum prep hardInputLimit =
     (let limit = (case hardInputLimit of None \<Rightarrow> None | Some l \<Rightarrow> (if 0 < l then Some l else None))
      in (buildFreshTranscript strnum prep,
          case limit of None \<Rightarrow> True | Some l \<Rightarrow> int (getKeptTailTokenEstimate prep) \<le> l))"

definition plannedResult ::
  "(jstr \<Rightarrow> js_num) \<Rightarrow> compaction_preparation \<Rightarrow> raw_range list \<Rightarrow> planner_model option \<Rightarrow> rung_result" where
  "plannedResult strnum prep ranges plannerModel =
     \<lparr>rr_transcript = withWholeContextStats
        (reconstructCompactedTranscript (vp_region prep)
           (validateDeletedRanges strnum ranges (vp_region prep))) prep True,
      rr_rung = RungPlanned, rr_plannerModel = plannerModel, rr_keptTail = True\<rparr>"

definition borrowedIdentity :: "'a borrowed_planner \<Rightarrow> planner_model" where
  "borrowedIdentity p = \<lparr>pm_provider = mi_provider (bp_model p), pm_id = mi_id (bp_model p),
     pm_thinkingLevel = bp_reasoning p\<rparr>"

definition freshResult :: "(jstr \<Rightarrow> js_num) \<Rightarrow> compaction_preparation \<Rightarrow> int option \<Rightarrow> rung_result" where
  "freshResult strnum prep hardInputLimit =
     (case buildFreshContextWindow strnum prep hardInputLimit of
        (transcript, keptTail) \<Rightarrow>
          \<lparr>rr_transcript = withWholeContextStats transcript prep keptTail, rr_rung = RungFresh,
           rr_plannerModel = None, rr_keptTail = keptTail\<rparr>)"

fun terminalError :: "terminal_outcome option \<Rightarrow> range_plan_error" where
  "terminalError None = RangePlanError MALFORMED_OUTPUT_MESSAGE 1 [] False None None"
| "terminalError (Some (RateLimited c e message path)) =
     RangePlanError message 1 [] False path (Some (RateLimited c e message path))"
| "terminalError (Some (Overflowed path)) =
     RangePlanError (js ''Compaction range planning exceeded the model context window'') 1 [] True path
       (Some (Overflowed path))"
| "terminalError (Some (ProviderError message path)) =
     RangePlanError message 1 [] False path (Some (ProviderError message path))"
| "terminalError (Some (Unusable category excerpt path)) =
     RangePlanError
       (if category = DcMalformedOutput then MALFORMED_OUTPUT_MESSAGE else NO_USABLE_RANGES_MESSAGE)
       1 excerpt False path (Some (Unusable category excerpt path))"

subsection \<open>Trimming\<close>

datatype planner_attempt = Planned "raw_range list" | TerminalAttempt terminal_outcome

definition as_raw :: "line_range list \<Rightarrow> raw_range list" where
  "as_raw rs = map (\<lambda>r. raw_of (lr_start r) (lr_end r)) rs"

definition planned_attempt ::
  "(jstr \<Rightarrow> js_num) \<Rightarrow> numbered_region \<Rightarrow> int \<Rightarrow> line_range list \<Rightarrow> planner_attempt" where
  "planned_attempt strnum view offset ranges =
     (if offset = 0 then Planned (as_raw ranges)
      else Planned (rebaseTrimmedRanges (validateDeletedRanges strnum (as_raw ranges) view) offset))"

lemma nextTrimOffset_progress:
  "nextTrimOffset region a = Some b \<Longrightarrow> a < b \<and> a < int (length (nr_lines region))"
  using nextTrimOffset_next(1,2) by fastforce

function trim_loop ::
  "'s run_env \<Rightarrow> compaction_preparation \<Rightarrow> planner_auth borrowed_planner \<Rightarrow> int \<Rightarrow> 's
     \<Rightarrow> 's \<times> planner_attempt option" where
  "trim_loop env prep planner offset s =
     (case (if offset = 0 then Some (vp_region prep) else trimRegionHead (vp_region prep) offset) of
        None \<Rightarrow> (s, Some (TerminalAttempt (Overflowed None)))
      | Some view \<Rightarrow>
          (let keepTarget = max (int (protected_count view)) (targetKeepLines view (vp_parameters prep))
           in case planDeletedLineRanges env view (vp_parameters prep) planner keepTarget s of
                (s', None) \<Rightarrow> (s', None)
              | (s', Some (Ranked ranges)) \<Rightarrow> (s', Some (planned_attempt (env_strnum env) view offset ranges))
              | (s', Some (Recovered ranges n)) \<Rightarrow>
                  (s', Some (planned_attempt (env_strnum env) view offset ranges))
              | (s', Some (Terminal (Overflowed path))) \<Rightarrow>
                  (if env_aborted env s' then (s', None)
                   else (case nextTrimOffset (vp_region prep) offset of
                           None \<Rightarrow> (s', Some (TerminalAttempt (Overflowed path)))
                         | Some next_offset \<Rightarrow> trim_loop env prep planner next_offset s'))
              | (s', Some (Terminal out)) \<Rightarrow> (s', Some (TerminalAttempt out))))"
  by pat_completeness auto

termination
  by (relation "measure (\<lambda>(env, prep, planner, offset, s). nat (int (length (nr_lines (vp_region prep))) - offset))")
    (auto dest: nextTrimOffset_progress)

declare trim_loop.simps [simp del]

definition planWithTrimming ::
  "'s run_env \<Rightarrow> compaction_preparation \<Rightarrow> planner_auth borrowed_planner \<Rightarrow> 's
     \<Rightarrow> 's \<times> planner_attempt option" where
  "planWithTrimming env prep planner s = trim_loop env prep planner 0 s"

subsection \<open>The ladder\<close>

definition MISSING_AUTH_MESSAGE :: jstr where
  "MISSING_AUTH_MESSAGE = js ''Compaction provider authentication is unavailable''"

definition authFailureOutcome :: "jstr option \<Rightarrow> terminal_outcome" where
  "authFailureOutcome error = ProviderError (js_or error MISSING_AUTH_MESSAGE) None"

definition resolvePlannerAuth ::
  "'s run_env \<Rightarrow> model_info \<Rightarrow> 's \<Rightarrow> 's \<times> (terminal_outcome + planner_auth)" where
  "resolvePlannerAuth env m s =
     (case env_resolveAuth env s m of
        (s', Inr (Some auth)) \<Rightarrow> (s', Inr auth)
      | (s', Inr None) \<Rightarrow> (s', Inl (authFailureOutcome None))
      | (s', Inl error) \<Rightarrow> (s', Inl (authFailureOutcome (Some error))))"

record run_request =
  rq_thinkingLevel :: "level option"
  rq_urgency :: urgency
  rq_fallback :: "fallback_context option"

datatype run_outcome = RunOk rung_result | RunFailed range_plan_error | RunCancelled

definition borrow_next ::
  "'s run_env \<Rightarrow> run_request \<Rightarrow> jstr list \<Rightarrow> fallback_walk \<Rightarrow> 's
     \<Rightarrow> 's \<times> fallback_walk \<times> planner_auth borrowed_planner option" where
  "borrow_next env rq attempted walk s =
     (case rq_fallback rq of
        None \<Rightarrow> (s, walk, None)
      | Some ctx \<Rightarrow> borrow ctx (env_resolveAuth env) attempted walk s)"

definition ladder_end ::
  "'s run_env \<Rightarrow> compaction_preparation \<Rightarrow> model_info \<Rightarrow> run_request \<Rightarrow> terminal_outcome option \<Rightarrow> run_outcome" where
  "ladder_end env prep m rq lastTerminal =
     (if rq_urgency rq \<noteq> LoadBearing then RunFailed (terminalError lastTerminal)
      else RunOk (freshResult (env_strnum env) prep (hardInputLimitFor m)))"

definition models_left :: "run_request \<Rightarrow> fallback_walk \<Rightarrow> nat" where
  "models_left rq walk =
     (case rq_fallback rq of None \<Rightarrow> 0
      | Some ctx \<Rightarrow> length (fx_fallbackModels ctx) - fw_nextIndex walk)"

lemma borrow_next_less:
  assumes "borrow_next env rq attempted walk s = (s', walk', Some p)"
  shows "models_left rq walk' < models_left rq walk"
proof -
  obtain ctx where ctx: "rq_fallback rq = Some ctx"
    and b: "borrow ctx (env_resolveAuth env) attempted walk s = (s', walk', Some p)"
    using assms by (auto simp: borrow_next_def split: option.splits)
  show ?thesis using borrow_walk [OF b] by (simp add: models_left_def ctx)
qed

text \<open>The body of the \<open>while (planner)\<close> loop and what follows it.\<close>

function ladder ::
  "'s run_env \<Rightarrow> compaction_preparation \<Rightarrow> model_info \<Rightarrow> run_request \<Rightarrow> jstr list \<Rightarrow> fallback_walk
     \<Rightarrow> planner_auth borrowed_planner \<Rightarrow> bool \<Rightarrow> 's \<Rightarrow> 's \<times> run_outcome" where
  "ladder env prep m rq attempted walk planner borrowed s =
     (case planWithTrimming env prep planner s of
        (s', None) \<Rightarrow> (s', RunCancelled)
      | (s', Some attempt) \<Rightarrow>
          (if env_aborted env s' then (s', RunCancelled)
           else case attempt of
                  Planned ranges \<Rightarrow>
                    (let plannerModel = (if borrowed then Some (borrowedIdentity planner) else None)
                     in (if borrowed then writeSuccessDiagnosticSidecar env (bp_model planner) (bp_reasoning planner) s'
                         else s',
                         RunOk (plannedResult (env_strnum env) prep ranges plannerModel)))
                | TerminalAttempt out \<Rightarrow>
                    (let attempted' = js_set_add (plannerAttemptKey planner) attempted
                     in case borrow_next env rq attempted' walk s' of
                          (s'', walk', next_planner) \<Rightarrow>
                            (if env_aborted env s'' then (s'', RunCancelled)
                             else case next_planner of
                                    None \<Rightarrow> (s'', ladder_end env prep m rq (Some out))
                                  | Some p \<Rightarrow> ladder env prep m rq attempted' walk' p True s''))))"
  by pat_completeness auto

termination
  by (relation "measure (\<lambda>(env, prep, m, rq, attempted, walk, planner, borrowed, s). models_left rq walk)")
    (auto dest!: sym [of "(_, _, Some _)"] intro: borrow_next_less)

declare ladder.simps [simp del]

definition runVerbatimCompaction ::
  "'s run_env \<Rightarrow> compaction_preparation \<Rightarrow> model_info \<Rightarrow> run_request \<Rightarrow> 's \<Rightarrow> 's \<times> run_outcome" where
  "runVerbatimCompaction env prep m rq s =
     (if env_aborted env s then (s, RunCancelled)
      else if length (nr_lines (vp_region prep)) < MIN_COMPACTABLE_REGION_LINES
      then (s, if rq_urgency rq \<noteq> LoadBearing
               then RunFailed (RangePlanError NO_USABLE_RANGES_MESSAGE 0 [] False None None)
               else RunOk (freshResult (env_strnum env) prep (hardInputLimitFor m)))
      else (let primaryBudget = resolvePlannerRequest m (rq_thinkingLevel rq) None
            in case resolvePlannerAuth env m s of
                 (s', Inr auth) \<Rightarrow>
                   ladder env prep m rq [] walk_start
                     \<lparr>bp_model = m, bp_reasoning = primaryBudget, bp_auth = auth\<rparr> False s'
               | (s', Inl failure) \<Rightarrow>
                   (let attempted = [fallbackKey m primaryBudget]
                    in case borrow_next env rq attempted walk_start s' of
                         (s'', walk, None) \<Rightarrow> (s'', ladder_end env prep m rq (Some failure))
                       | (s'', walk, Some p) \<Rightarrow> ladder env prep m rq attempted walk p True s'')))"

subsection \<open>Every planned answer deletes something\<close>

abbreviation region_size :: "compaction_preparation \<Rightarrow> int" where
  "region_size prep \<equiv> int (length (nr_lines (vp_region prep)))"

definition wanted_lines :: "(jstr \<Rightarrow> js_num) \<Rightarrow> compaction_preparation \<Rightarrow> raw_range list \<Rightarrow> int set" where
  "wanted_lines strnum prep raw =
     requested strnum (region_size prep) raw - protected_lines (vp_region prep)"

lemma requested_as_raw:
  assumes "safe_ranges region rs"
  shows "requested strnum (int (length (nr_lines region))) (as_raw rs) = covers rs"
proof -
  have ok: "\<forall>r \<in> set rs. lr_start r \<le> lr_end r" using assms by (simp add: safe_ranges_def canonical_def)
  have "requested strnum n (as_raw rs) = {l \<in> {1..n}. l \<in> covers rs}" for n
    using requested_map_raw_of [OF ok, of strnum n 0] by (simp add: as_raw_def)
  then show ?thesis using assms by (auto simp: safe_ranges_def)
qed

lemma safe_ranges_covers: "safe_ranges region rs \<Longrightarrow> \<exists>l \<in> covers rs. l \<notin> protected_lines region"
proof -
  assume safe: "safe_ranges region rs"
  then obtain r where "r \<in> set rs" by (cases rs) (auto simp: safe_ranges_def)
  with safe show ?thesis using in_covers [of rs r] by (auto simp: safe_ranges_def)
qed

lemma planned_attempt_deletes:
  assumes view: "(if offset = 0 then Some (vp_region prep) else trimRegionHead (vp_region prep) offset) = Some view"
    and safe: "safe_ranges view rs" and a: "planned_attempt strnum view offset rs = Planned raw"
  shows "wanted_lines strnum prep raw \<noteq> {}"
proof (cases "offset = 0")
  case True
  with view have "view = vp_region prep" by simp
  with a safe safe_ranges_covers [OF safe] requested_as_raw [OF safe] show ?thesis
    by (auto simp: wanted_lines_def planned_attempt_def True)
next
  case False
  with view have trim: "trimRegionHead (vp_region prep) offset = Some view" by simp
  obtain l where l: "l \<in> covers rs" "l \<notin> protected_lines view" using safe_ranges_covers [OF safe] by blast
  have n: "int (length (nr_lines view)) = region_size prep - offset" by (rule trim_length(2) [OF trim])
  have low: "1 \<le> l" using l(1) safe by (auto simp: safe_ranges_def)
  have req: "l + offset - offset \<in> requested strnum (region_size prep - offset) (as_raw rs)"
    using requested_as_raw [OF safe, of strnum] l(1) by (simp add: n)
  have prot: "l + offset \<notin> protected_lines (vp_region prep)"
    using l(2) low by (auto simp: trim_protected [OF trim])
  let ?vs = "validateDeletedRanges strnum (as_raw rs) view"
  have raw: "raw = rebaseTrimmedRanges ?vs offset" using a False by (simp add: planned_attempt_def)
  have "covers (validateDeletedRanges strnum raw (vp_region prep)) =
      ({1..offset} \<union> {l. l - offset \<in> requested strnum (region_size prep - offset) (as_raw rs)})
      - protected_lines (vp_region prep)"
    using trimmed_ranges_rebase_eq [OF trim, of strnum "as_raw rs"] by (simp add: raw)
  with req prot have "l + offset \<in> covers (validateDeletedRanges strnum raw (vp_region prep))" by simp
  then show ?thesis using validate_spec [of strnum raw "vp_region prep"] by (auto simp: wanted_lines_def)
qed

definition attempt_deletes :: "(jstr \<Rightarrow> js_num) \<Rightarrow> compaction_preparation \<Rightarrow> planner_attempt \<Rightarrow> bool" where
  "attempt_deletes strnum prep a =
     (case a of Planned raw \<Rightarrow> wanted_lines strnum prep raw \<noteq> {} | TerminalAttempt t \<Rightarrow> True)"

lemma planned_attempt_ok:
  assumes "(if offset = 0 then Some (vp_region prep) else trimRegionHead (vp_region prep) offset) = Some view"
    and "safe_ranges view rs"
  shows "attempt_deletes strnum prep (planned_attempt strnum view offset rs)"
  using planned_attempt_deletes [OF assms]
  by (cases "planned_attempt strnum view offset rs") (auto simp: attempt_deletes_def)

lemma trim_loop_deletes:
  "pred_option (attempt_deletes (env_strnum env) prep) (snd (trim_loop env prep planner offset s))"
proof (induction env prep planner offset s rule: trim_loop.induct)
  case (1 env prep planner offset s)
  let ?view = "if offset = 0 then Some (vp_region prep) else trimRegionHead (vp_region prep) offset"
  show ?case
  proof (cases ?view)
    case None
    then show ?thesis by (simp add: trim_loop.simps [of env prep planner offset s] attempt_deletes_def)
  next
    case (Some view)
    let ?k = "max (int (protected_count view)) (targetKeepLines view (vp_parameters prep))"
    obtain s' out where p: "planDeletedLineRanges env view (vp_parameters prep) planner ?k s = (s', out)"
      by (cases "planDeletedLineRanges env view (vp_parameters prep) planner ?k s")
    have safe: "pred_option (safe_outcome view) out"
      using plan_safe [of view env "vp_parameters prep" planner ?k s] by (simp add: p)
    note unfold_loop = trim_loop.simps [of env prep planner offset s]
    show ?thesis
    proof (cases out)
      case None
      then show ?thesis by (simp add: unfold_loop Some p)
    next
      case (Some o1)
      note view = \<open>?view = Some view\<close>
      show ?thesis
      proof (cases o1)
        case (Ranked rs)
        then have "safe_ranges view rs" using safe by (simp add: Some safe_outcome_def)
        then show ?thesis using planned_attempt_ok [OF view]
          by (simp add: unfold_loop view p Some Ranked)
      next
        case (Recovered rs n)
        then have "safe_ranges view rs" using safe by (simp add: Some safe_outcome_def)
        then show ?thesis using planned_attempt_ok [OF view]
          by (simp add: unfold_loop view p Some Recovered)
      next
        case (Terminal t)
        show ?thesis
        proof (cases t)
          case (Overflowed path)
          show ?thesis
          proof (cases "\<not> env_aborted env s' \<and> nextTrimOffset (vp_region prep) offset \<noteq> None")
            case True
            then obtain b where b: "\<not> env_aborted env s'" "nextTrimOffset (vp_region prep) offset = Some b"
              by blast
            have "pred_option (attempt_deletes (env_strnum env) prep) (snd (trim_loop env prep planner b s'))"
              by (rule "1.IH" [OF view refl p [symmetric] Some Terminal Overflowed b])
            then show ?thesis by (simp add: unfold_loop view p Some Terminal Overflowed b)
          next
            case False
            then show ?thesis
              by (auto simp: unfold_loop view p Some Terminal Overflowed attempt_deletes_def split: option.splits)
          qed
        qed (simp_all add: unfold_loop view p Some Terminal attempt_deletes_def)
      qed
    qed
  qed
qed

subsection \<open>What a run returns\<close>

text \<open>A result is the mechanical reconstruction of some requested ranges: for a planned one, ranges that
  delete at least one line; for a fresh window, the whole region, and only for a load-bearing caller.\<close>

definition rebuilt_from :: "(jstr \<Rightarrow> js_num) \<Rightarrow> compaction_preparation \<Rightarrow> rung_result \<Rightarrow> raw_range list \<Rightarrow> bool" where
  "rebuilt_from strnum prep r raw \<longleftrightarrow>
     (let ct = reconstructCompactedTranscript (vp_region prep)
                 (validateDeletedRanges strnum raw (vp_region prep))
      in ct_text (rr_transcript r) = ct_text ct \<and> ct_ranges (rr_transcript r) = ct_ranges ct \<and>
         cs_linesKept (ct_stats (rr_transcript r)) = cs_linesKept (ct_stats ct))"

definition good_result :: "(jstr \<Rightarrow> js_num) \<Rightarrow> compaction_preparation \<Rightarrow> run_request \<Rightarrow> rung_result \<Rightarrow> bool" where
  "good_result strnum prep rq r \<longleftrightarrow>
     (case rr_rung r of
        RungPlanned \<Rightarrow> rr_keptTail r \<and>
          (\<exists>raw. rebuilt_from strnum prep r raw \<and> wanted_lines strnum prep raw \<noteq> {})
      | RungFresh \<Rightarrow> rq_urgency rq = LoadBearing \<and> rr_plannerModel r = None \<and>
          rebuilt_from strnum prep r (whole_region (vp_region prep)))"

definition good_outcome :: "(jstr \<Rightarrow> js_num) \<Rightarrow> compaction_preparation \<Rightarrow> run_request \<Rightarrow> run_outcome \<Rightarrow> bool" where
  "good_outcome strnum prep rq out =
     (case out of RunOk r \<Rightarrow> good_result strnum prep rq r
      | RunFailed e \<Rightarrow> rq_urgency rq = Recoverable
      | RunCancelled \<Rightarrow> True)"

lemma whole_context_stats [simp]:
  "ct_text (withWholeContextStats ct prep k) = ct_text ct"
  "ct_ranges (withWholeContextStats ct prep k) = ct_ranges ct"
  "cs_linesKept (ct_stats (withWholeContextStats ct prep k)) = cs_linesKept (ct_stats ct)"
  by (simp_all add: withWholeContextStats_def Let_def)

lemma planned_good: "wanted_lines strnum prep raw \<noteq> {} \<Longrightarrow> good_result strnum prep rq (plannedResult strnum prep raw pm)"
  by (auto simp: good_result_def plannedResult_def rebuilt_from_def Let_def)

lemma fresh_good: "rq_urgency rq = LoadBearing \<Longrightarrow> good_result strnum prep rq (freshResult strnum prep l)"
  by (simp add: good_result_def freshResult_def rebuilt_from_def buildFreshContextWindow_def
      buildFreshTranscript_def Let_def)

lemma not_load_bearing [simp]: "u \<noteq> LoadBearing \<longleftrightarrow> u = Recoverable"
  by (cases u) auto

lemma ladder_end_good: "good_outcome (env_strnum env) prep rq (ladder_end env prep m rq t)"
  by (cases "rq_urgency rq") (auto simp: good_outcome_def ladder_end_def fresh_good)

lemma ladder_good: "good_outcome (env_strnum env) prep rq (snd (ladder env prep m rq att walk planner borrowed s))"
proof (induction env prep m rq att walk planner borrowed s rule: ladder.induct)
  case (1 env prep m rq att walk planner borrowed s)
  note unfold_loop = ladder.simps [of env prep m rq att walk planner borrowed s]
  obtain s' a where p: "planWithTrimming env prep planner s = (s', a)"
    by (cases "planWithTrimming env prep planner s")
  have del: "pred_option (attempt_deletes (env_strnum env) prep) a"
    using trim_loop_deletes [of env prep planner 0 s] p by (simp add: planWithTrimming_def)
  show ?case
  proof (cases "a = None \<or> env_aborted env s'")
    case True
    then show ?thesis by (auto simp: unfold_loop p good_outcome_def split: option.splits)
  next
    case False
    then obtain attempt where a: "a = Some attempt" and na: "\<not> env_aborted env s'" by (cases a) auto
    show ?thesis
    proof (cases attempt)
      case (Planned ranges)
      then have "wanted_lines (env_strnum env) prep ranges \<noteq> {}" using del by (simp add: a attempt_deletes_def)
      then show ?thesis by (simp add: unfold_loop p a na Planned good_outcome_def planned_good Let_def)
    next
      case (TerminalAttempt out)
      let ?att = "js_set_add (plannerAttemptKey planner) att"
      obtain s'' walk' q where b: "borrow_next env rq ?att walk s' = (s'', walk', q)"
        by (metis prod_cases3)
      show ?thesis
      proof (cases "\<not> env_aborted env s'' \<and> q \<noteq> None")
        case True
        then obtain p1 where q: "q = Some p1" "\<not> env_aborted env s''" by (cases q) auto
        have "good_outcome (env_strnum env) prep rq (snd (ladder env prep m rq ?att walk' p1 True s''))"
          by (rule "1.IH" [OF p [symmetric] a na TerminalAttempt refl b [symmetric] refl q(2,1)])
        then show ?thesis by (simp add: unfold_loop p a na TerminalAttempt b q Let_def)
      next
        case False
        then show ?thesis
          by (auto simp: unfold_loop p a na TerminalAttempt b good_outcome_def [of _ _ _ RunCancelled]
              ladder_end_good Let_def split: option.splits)
      qed
    qed
  qed
qed

lemma run_good: "good_outcome (env_strnum env) prep rq (snd (runVerbatimCompaction env prep m rq s))"
  by (cases "rq_urgency rq")
    (simp_all add: runVerbatimCompaction_def ladder_good ladder_end_good Let_def fresh_good
      good_outcome_def [of _ _ _ RunCancelled] good_outcome_def [of _ _ _ "RunOk _"]
      good_outcome_def [of _ _ _ "RunFailed _"] split: prod.splits option.splits sum.splits)

subsection \<open>Without cancellation\<close>

definition never_cancels :: "'s run_env \<Rightarrow> bool" where
  "never_cancels env \<longleftrightarrow>
     (\<forall>s. \<not> env_aborted env s) \<and>
     (\<forall>s m sys prompt q s' b r. env_call env s m sys prompt q = (s', b, Inr r) \<longrightarrow> am_stopReason r \<noteq> StopAborted)"

lemma plan_answers:
  assumes "never_cancels env"
  shows "snd (planDeletedLineRanges env region params planner k s) \<noteq> None"
  using assms
  by (auto simp: planDeletedLineRanges_def never_cancels_def Let_def split: prod.splits sum.splits)

lemma trim_answers:
  assumes "never_cancels env"
  shows "snd (trim_loop env prep planner offset s) \<noteq> None"
  using assms
proof (induction env prep planner offset s rule: trim_loop.induct)
  case (1 env prep planner offset s)
  note run = trim_loop.simps [of env prep planner offset s]
  let ?view = "if offset = 0 then Some (vp_region prep) else trimRegionHead (vp_region prep) offset"
  show ?case
  proof (cases ?view)
    case (Some view)
    let ?k = "max (int (protected_count view)) (targetKeepLines view (vp_parameters prep))"
    obtain s' out where p: "planDeletedLineRanges env view (vp_parameters prep) planner ?k s = (s', Some out)"
      using plan_answers [OF "1.prems", of view "vp_parameters prep" planner ?k s]
      by (cases "planDeletedLineRanges env view (vp_parameters prep) planner ?k s") auto
    have na: "\<not> env_aborted env s'" using "1.prems" by (simp add: never_cancels_def)
    show ?thesis
    proof (cases "\<exists>path b. out = Terminal (Overflowed path) \<and> nextTrimOffset (vp_region prep) offset = Some b")
      case True
      then obtain path b where o: "out = Terminal (Overflowed path)" and b: "nextTrimOffset (vp_region prep) offset = Some b"
        by blast
      have "snd (trim_loop env prep planner b s') \<noteq> None"
        by (rule "1.IH" [OF Some refl p [symmetric] refl o refl na b "1.prems"])
      then show ?thesis by (simp add: run Some p o na b)
    next
      case False
      then show ?thesis
        by (cases out) (auto simp: run Some p na split: terminal_outcome.splits option.splits)
    qed
  qed (simp add: run)
qed

lemma ladder_answers:
  assumes "never_cancels env"
  shows "snd (ladder env prep m rq att walk planner borrowed s) \<noteq> RunCancelled"
  using assms
proof (induction env prep m rq att walk planner borrowed s rule: ladder.induct)
  case (1 env prep m rq att walk planner borrowed s)
  note run = ladder.simps [of env prep m rq att walk planner borrowed s]
  have na: "\<not> env_aborted env s'" for s' using "1.prems" by (simp add: never_cancels_def)
  obtain s' attempt where p: "planWithTrimming env prep planner s = (s', Some attempt)"
    using trim_answers [OF "1.prems", of prep planner 0 s]
    by (cases "planWithTrimming env prep planner s") (auto simp: planWithTrimming_def)
  show ?case
  proof (cases attempt)
    case (Planned ranges)
    then show ?thesis by (simp add: run p na Let_def)
  next
    case (TerminalAttempt out)
    let ?att = "js_set_add (plannerAttemptKey planner) att"
    obtain s'' walk' q where b: "borrow_next env rq ?att walk s' = (s'', walk', q)"
      by (metis prod_cases3)
    show ?thesis
    proof (cases q)
      case None
      then show ?thesis by (simp add: run p na TerminalAttempt b ladder_end_def Let_def)
    next
      case (Some p1)
      have "snd (ladder env prep m rq ?att walk' p1 True s'') \<noteq> RunCancelled"
        by (rule "1.IH" [OF p [symmetric] refl na TerminalAttempt refl b [symmetric] refl na Some "1.prems"])
      then show ?thesis by (simp add: run p na TerminalAttempt b Some Let_def)
    qed
  qed
qed

subsection \<open>Properties\<close>

text \<open>C19: the ladder's contract.  A run that fails was only recoverable; a load-bearing run never fails;
  the context-destroying fresh rung is taken only under load-bearing urgency and names no planner; and
  a planned result always keeps the tail and always deletes at least one line that was asked for and
  is not protected.\<close>

theorem compaction_ladder_contract:
  "case snd (runVerbatimCompaction env prep m rq s) of
     RunFailed e \<Rightarrow> rq_urgency rq = Recoverable
   | RunCancelled \<Rightarrow> True
   | RunOk r \<Rightarrow>
       (case rr_rung r of
          RungPlanned \<Rightarrow> rr_keptTail r \<and>
            (\<exists>raw. rebuilt_from (env_strnum env) prep r raw \<and> wanted_lines (env_strnum env) prep raw \<noteq> {})
        | RungFresh \<Rightarrow> rq_urgency rq = LoadBearing \<and> rr_plannerModel r = None \<and>
            rebuilt_from (env_strnum env) prep r (whole_region (vp_region prep)))"
  using run_good [of env prep rq m s]
  by (auto simp: good_outcome_def good_result_def split: run_outcome.splits rung.splits)


text \<open>load-bearing compaction always completes.  If nobody cancels, a load-bearing run returns a
  result, whatever the provider answers or throws, whatever credentials are missing and whatever the
  list of fallback models is.\<close>

theorem load_bearing_always_completes:
  assumes "never_cancels env" and "rq_urgency rq = LoadBearing"
  shows "\<exists>r. snd (runVerbatimCompaction env prep m rq s) = RunOk r"
proof -
  have "snd (runVerbatimCompaction env prep m rq s) \<noteq> RunCancelled"
    using assms ladder_answers [OF assms(1)]
    by (auto simp: runVerbatimCompaction_def never_cancels_def ladder_end_def Let_def
        split: prod.splits option.splits sum.splits)
  then show ?thesis
    using run_good [of env prep rq m s] assms(2)
    by (cases "snd (runVerbatimCompaction env prep m rq s)") (auto simp: good_outcome_def)
qed

text \<open>A provider that always throws and has no credentials, a region of one line repeated 20 times.\<close>

definition failing_env :: "unit run_env" where
  "failing_env = \<lparr>env_call = (\<lambda>s m sys prompt q. (s, False, Inl (js ''socket hang up''))),
     env_isContextOverflow = (\<lambda>r n. False), env_aborted = (\<lambda>s. False),
     env_write = (\<lambda>s path kind payload. (s, WriteFailed)),
     env_resolveAuth = (\<lambda>s m. (s, Inr None)), env_strnum = (\<lambda>s. JNonFinite), env_sessionFilePath = None\<rparr>"

definition failing_prep :: compaction_preparation where
  "failing_prep = \<lparr>vp_region = \<lparr>nr_lines = replicate 20 (js ''x''), nr_headerLineNumbers = [],
       nr_priorMarkerNs = [], nr_protectedLineNumbers = None, nr_tokenEstimate = 10\<rparr>,
     vp_tokensBefore = 12,
     vp_parameters = \<lparr>vc_compression_ratio = 1 / 2, vc_preserve_recent = 2, vc_query = js ''q''\<rparr>,
     vp_keptTail = None\<rparr>"

definition failing_model :: model_info where
  "failing_model = \<lparr>mi_provider = js ''p'', mi_id = js ''m'', mi_api = js ''a'', mi_contextWindow = 1,
     mi_maxTokens = 1, mi_reasoning = False, mi_baseUrl = []\<rparr>"

theorem load_bearing_always_completes_witness:
  "\<exists>r. snd (runVerbatimCompaction failing_env failing_prep failing_model
         \<lparr>rq_thinkingLevel = None, rq_urgency = LoadBearing, rq_fallback = None\<rparr> ()) = RunOk r"
  by (rule load_bearing_always_completes) (simp_all add: never_cancels_def failing_env_def)

end
