(* ===== verification/Json.thy ===== *)
theory Json
  imports JS_Core
begin

text \<open>
  Values read from the wire by \<open>JSON.parse\<close>, as the validators see them: \<open>undefined\<close> is \<open>None\<close>, and an
  object is the list of its properties (each name once).
\<close>

datatype json = JNull | JBool bool | JNum js_num | JStr jstr | JArr "json list" | JObj "(jstr \<times> json) list"

text \<open>\<open>value.name\<close> and \<open>hasOwnProperty\<close>; an array has none of the properties the code reads.\<close>

fun jfield :: "json \<Rightarrow> string \<Rightarrow> json option" where
  "jfield (JObj fs) name = map_of fs (js name)"
| "jfield _ name = None"

fun is_object :: "json \<Rightarrow> bool" where
  "is_object (JObj fs) = True"
| "is_object (JArr vs) = True"
| "is_object _ = False"

fun is_array :: "json \<Rightarrow> bool" where
  "is_array (JArr vs) = True"
| "is_array _ = False"

fun jstring :: "json option \<Rightarrow> jstr option" where
  "jstring (Some (JStr s)) = Some s"
| "jstring _ = None"

fun jnumber :: "json option \<Rightarrow> js_num option" where
  "jnumber (Some (JNum n)) = Some n"
| "jnumber _ = None"

fun jbool :: "json option \<Rightarrow> bool option" where
  "jbool (Some (JBool b)) = Some b"
| "jbool _ = None"

abbreviation is_string :: "json option \<Rightarrow> bool" where "is_string v \<equiv> jstring v \<noteq> None"
abbreviation is_number :: "json option \<Rightarrow> bool" where "is_number v \<equiv> jnumber v \<noteq> None"
abbreviation is_bool :: "json option \<Rightarrow> bool" where "is_bool v \<equiv> jbool v \<noteq> None"

definition optional :: "(json option \<Rightarrow> bool) \<Rightarrow> json option \<Rightarrow> bool" where
  "optional p v \<longleftrightarrow> v = None \<or> p v"

text \<open>A string that is not empty.\<close>

definition truthy_string :: "jstr option \<Rightarrow> bool" where
  "truthy_string s \<longleftrightarrow> s \<noteq> None \<and> s \<noteq> Some []"

lemma js_eq_Nil [simp]: "js s = [] \<longleftrightarrow> s = []"
  by (simp add: js_def)

lemma truthy_string_simps [simp]: "\<not> truthy_string None" "truthy_string (Some s) \<longleftrightarrow> s \<noteq> []"
  by (simp_all add: truthy_string_def)

lemma jstring_Some [simp]: "jstring v = Some s \<longleftrightarrow> v = Some (JStr s)"
  by (cases v rule: jstring.cases) auto

lemma jnumber_Some [simp]: "jnumber v = Some n \<longleftrightarrow> v = Some (JNum n)"
  by (cases v rule: jnumber.cases) auto

lemma jbool_Some [simp]: "jbool v = Some b \<longleftrightarrow> v = Some (JBool b)"
  by (cases v rule: jbool.cases) auto

lemma optional_simps [simp]: "optional p None" "optional p (Some v) \<longleftrightarrow> p (Some v)"
  by (simp_all add: optional_def)

text \<open>A text that neither begins nor ends with white space is its own trimming.\<close>

lemma js_ws_of_char:
  "js_ws (of_char c) \<longleftrightarrow> (of_char c :: nat) \<in> {9, 10, 11, 12, 13, 32, 160}"
proof -
  have eq: "(of_char c :: code_unit) = n \<longleftrightarrow> (of_char c :: nat) = unat n" for n :: code_unit
  proof -
    have lt: "of_char c < (2 ^ 16 :: nat)"
      using nat_of_char_less_256 [of c] by (rule less_trans) simp
    have "(of_char c :: code_unit) = word_of_nat (of_char c)"
      by (simp add: of_nat_of_char)
    then have un: "unat (of_char c :: code_unit) = of_char c"
      using lt by (simp add: unat_of_nat)
    show ?thesis unfolding un [symmetric] by (auto dest: word_unat_eq_iff [THEN iffD2])
  qed
  have "(of_char c :: nat) \<noteq> n" if "256 \<le> n" for n
    using nat_of_char_less_256 [of c] that by (metis not_le)
  then show ?thesis by (simp add: js_ws_def eq)
qed

lemma js_trim_id:
  assumes "s = [] \<or> \<not> js_ws (hd s) \<and> \<not> js_ws (last s)"
  shows "js_trim s = s"
proof (cases "s = []")
  case False
  then have "dropWhile js_ws s = s" using assms by (cases s) auto
  moreover have "dropWhile js_ws (rev s) = rev s" using False assms by (cases s rule: rev_cases) auto
  ultimately show ?thesis by (simp add: js_trim_def js_trimStart_def js_trimEnd_def)
qed (simp add: js_trim_def js_trimStart_def js_trimEnd_def)

lemma js_trim_js:
  assumes "s = [] \<or> (of_char (hd s) :: nat) \<notin> {9, 10, 11, 12, 13, 32, 160} \<and>
    (of_char (last s) :: nat) \<notin> {9, 10, 11, 12, 13, 32, 160}"
  shows "js_trim (js s) = js s"
  by (rule js_trim_id) (use assms in \<open>auto simp: js_def hd_map last_map js_ws_of_char\<close>)

text \<open>\<open>{ ...record, name: value }\<close>.\<close>

definition with_field :: "string \<Rightarrow> json \<Rightarrow> (jstr \<times> json) list \<Rightarrow> (jstr \<times> json) list" where
  "with_field name v fs = jm_set (js name) v fs"

abbreviation field :: "(jstr \<times> json) list \<Rightarrow> string \<Rightarrow> json option" where
  "field fs name \<equiv> map_of fs (js name)"

lemma field_with_field [simp]: "field (with_field n v fs) m = (if m = n then Some v else field fs m)"
  by (simp add: with_field_def js_eq_iff)

lemma with_field_same: "field fs n = Some v \<Longrightarrow> with_field n v fs = fs"
  unfolding with_field_def by (induction fs) auto

text \<open>
  A message object: \<open>{ ...m, name: value }\<close>, and an object literal, where a property with the value
  \<open>undefined\<close> is left out (it reads the same).
\<close>

fun jput :: "string \<Rightarrow> json \<Rightarrow> json \<Rightarrow> json" where
  "jput name v (JObj fs) = JObj (with_field name v fs)"
| "jput name v w = w"

definition jobj :: "(string \<times> json option) list \<Rightarrow> json" where
  "jobj ps = JObj (List.map_filter (\<lambda>(n, v). map_option (\<lambda>w. (js n, w)) v) ps)"

lemma jfield_jput [simp]:
  "jfield (jput n v m) k = (if k = n \<and> (\<exists>fs. m = JObj fs) then Some v else jfield m k)"
  by (cases m) auto

lemma jfield_jobj_Nil [simp]: "jfield (jobj []) k = None"
  by (simp add: jobj_def map_filter_def)

lemma jfield_jobj_Cons [simp]:
  "jfield (jobj ((n, v) # ps)) k = (if k = n \<and> v \<noteq> None then v else jfield (jobj ps) k)"
  by (cases v) (auto simp: jobj_def map_filter_def)

lemma jfield_SomeD: "jfield m n = Some v \<Longrightarrow> \<exists>fs. m = JObj fs"
  by (cases m) auto

text \<open>\<open>value == null\<close>.\<close>

definition nullish :: "json option \<Rightarrow> bool" where
  "nullish v \<longleftrightarrow> v = None \<or> v = Some JNull"

end
