(* ===== verification/Intercom_Target.thy ===== *)
theory Intercom_Target
  imports Json
begin

text \<open>
  Sessions, messages and their validation, groups, and the resolution of a target
  (\<open>packages/intercom\<close>: \<open>types.ts\<close>, \<open>group.ts\<close>, \<open>session-target.ts\<close>, \<open>broker/send-handler.ts\<close>,
  \<open>broker/client-message-validation.ts\<close>, \<open>broker/send-signature.ts\<close>).  A message stays the JSON value
  that came in.  \<open>toLowerCase\<close> is the parameter \<open>lower\<close>.
\<close>

record session_info =
  si_id :: jstr
  si_name :: "jstr option"
  si_cwd :: jstr
  si_model :: jstr
  si_pid :: js_num
  si_startedAt :: js_num
  si_lastActivity :: js_num
  si_status :: "jstr option"
  si_group :: "jstr option"

subsection \<open>Groups\<close>

definition DEFAULT_GROUP :: jstr where "DEFAULT_GROUP = js ''default''"

definition normalizeGroup :: "jstr option \<Rightarrow> jstr" where
  "normalizeGroup v =
     (case v of None \<Rightarrow> DEFAULT_GROUP
      | Some s \<Rightarrow> (let trimmed = js_trim s in if 0 < length trimmed then trimmed else DEFAULT_GROUP))"

definition set_group :: "jstr option \<Rightarrow> jstr option" where
  "set_group v = (case v of None \<Rightarrow> None | Some s \<Rightarrow> (if 0 < length (js_trim s) then Some s else None))"

definition resolveHomeGroup :: "jstr option \<Rightarrow> jstr option \<Rightarrow> jstr option \<Rightarrow> jstr" where
  "resolveHomeGroup config fromEnv fromContext =
     (if set_group fromContext \<noteq> None then normalizeGroup fromContext
      else if set_group fromEnv \<noteq> None then normalizeGroup fromEnv
      else if set_group config \<noteq> None then normalizeGroup config
      else DEFAULT_GROUP)"

definition sameGroup :: "session_info \<Rightarrow> session_info \<Rightarrow> bool" where
  "sameGroup a b \<longleftrightarrow> normalizeGroup (si_group a) = normalizeGroup (si_group b)"

subsection \<open>Validation\<close>

definition isAttachment :: "json \<Rightarrow> bool" where
  "isAttachment v \<longleftrightarrow> is_object v \<and>
     jstring (jfield v ''type'') \<in> {Some (js ''file''), Some (js ''snippet''), Some (js ''context'')} \<and>
     is_string (jfield v ''name'') \<and> is_string (jfield v ''content'') \<and>
     optional is_string (jfield v ''language'')"

definition message_head :: "json \<Rightarrow> bool" where
  "message_head v \<longleftrightarrow> is_object v \<and> is_string (jfield v ''id'') \<and> is_number (jfield v ''timestamp'') \<and>
     optional is_string (jfield v ''replyTo'') \<and> optional is_bool (jfield v ''expectsReply'')"

definition message_body :: "json \<Rightarrow> bool" where
  "message_body v \<longleftrightarrow>
     (case jfield v ''content'' of
        None \<Rightarrow> False
      | Some content \<Rightarrow> is_object content \<and> is_string (jfield content ''text'') \<and>
          (case jfield content ''attachments'' of
             None \<Rightarrow> True
           | Some (JArr vs) \<Rightarrow> list_all isAttachment vs
           | Some _ \<Rightarrow> False))"

text \<open>The broker's check and the client's check.\<close>

definition isMessage :: "json \<Rightarrow> bool" where
  "isMessage v \<longleftrightarrow> message_head v \<and> message_body v"

definition client_isMessage :: "json \<Rightarrow> bool" where
  "client_isMessage v \<longleftrightarrow> message_head v \<and> optional is_string (jfield v ''replyError'') \<and> message_body v"

definition message_id :: "json \<Rightarrow> jstr" where
  "message_id v = (case jstring (jfield v ''id'') of None \<Rightarrow> [] | Some s \<Rightarrow> s)"

definition message_replyTo :: "json \<Rightarrow> jstr option" where
  "message_replyTo v = jstring (jfield v ''replyTo'')"

definition session_fields :: "json \<Rightarrow> bool" where
  "session_fields v \<longleftrightarrow>
     is_string (jfield v ''cwd'') \<and> is_string (jfield v ''model'') \<and> is_number (jfield v ''pid'') \<and>
     is_number (jfield v ''startedAt'') \<and> is_number (jfield v ''lastActivity'') \<and>
     optional is_string (jfield v ''name'') \<and> optional is_string (jfield v ''group'') \<and>
     optional is_string (jfield v ''status'')"

definition isSessionRegistration :: "json \<Rightarrow> bool" where
  "isSessionRegistration v \<longleftrightarrow> is_object v \<and> \<not> is_array v \<and> session_fields v"

definition isSessionInfo :: "json \<Rightarrow> bool" where
  "isSessionInfo v \<longleftrightarrow> is_object v \<and> is_string (jfield v ''id'') \<and> session_fields v"

definition isSupervisorRegistration :: "json \<Rightarrow> bool" where
  "isSupervisorRegistration v \<longleftrightarrow> is_object v \<and> \<not> is_array v \<and>
     is_string (jfield v ''capability'') \<and> is_string (jfield v ''supervisorSessionId'')"

subsection \<open>Signatures\<close>

text \<open>\<open>JSON.stringify\<close> of an object with fixed property order is injective on parsed values, so the
  signature is the value itself.\<close>

definition normalize_attachment :: "json \<Rightarrow> json" where
  "normalize_attachment a =
     JObj (List.map_filter (\<lambda>k. map_option (Pair (js k)) (jfield a k)) [''type'', ''name'', ''content'', ''language''])"

definition buildMessageSendSignature :: "jstr \<Rightarrow> json \<Rightarrow> json" where
  "buildMessageSendSignature target m =
     (let content = (case jfield m ''content'' of None \<Rightarrow> JNull | Some c \<Rightarrow> c);
          attachments = (case jfield content ''attachments'' of
                           Some (JArr vs) \<Rightarrow> map normalize_attachment vs | _ \<Rightarrow> []);
          or_else = (\<lambda>v d. case v of None \<Rightarrow> d | Some JNull \<Rightarrow> d | Some x \<Rightarrow> x)
      in JObj [(js ''to'', JStr target),
               (js ''text'', or_else (jfield content ''text'') JNull),
               (js ''attachments'', JArr attachments),
               (js ''replyTo'', or_else (jfield m ''replyTo'') JNull),
               (js ''expectsReply'', or_else (jfield m ''expectsReply'') (JBool False)),
               (js ''replyError'', or_else (jfield m ''replyError'') JNull)])"

subsection \<open>Resolving a target\<close>

datatype resolution =
  Resolved session_info
  | AmbiguousName "session_info list"
  | AmbiguousPrefix "session_info list"
  | NotFound

definition resolveSessionTarget :: "(jstr \<Rightarrow> jstr) \<Rightarrow> session_info list \<Rightarrow> jstr \<Rightarrow> resolution" where
  "resolveSessionTarget lower sessions nameOrId =
     (let target = js_trim nameOrId
      in case List.find (\<lambda>s. si_id s = target) sessions of
           Some s \<Rightarrow> Resolved s
         | None \<Rightarrow>
             (let exactNames = filter (\<lambda>s. map_option lower (si_name s) = Some (lower target)) sessions
              in if length exactNames = 1 then Resolved (hd exactNames)
                 else if 1 < length exactNames then AmbiguousName exactNames
                 else (let prefixedIds = filter (\<lambda>s. js_startsWith (si_id s) target) sessions
                       in if length prefixedIds = 1 then Resolved (hd prefixedIds)
                          else if 1 < length prefixedIds then AmbiguousPrefix prefixedIds
                          else NotFound)))"

definition session_label :: "session_info \<Rightarrow> jstr" where
  "session_label s =
     (case si_name s of None \<Rightarrow> js ''Unnamed session'' | Some n \<Rightarrow> n) @ js '' ('' @ si_id s @ js '')''"

fun sessionTargetFailureReason :: "jstr \<Rightarrow> resolution \<Rightarrow> jstr" where
  "sessionTargetFailureReason target (AmbiguousName matches) =
     js ''Multiple sessions named \"'' @ target @ js ''\" are connected. Use the session ID instead.''"
| "sessionTargetFailureReason target (AmbiguousPrefix matches) =
     js ''Ambiguous session ID prefix \"'' @ target @ js ''\" matches: ''
     @ js_join (js '', '') (map session_label matches)
     @ js ''. Use a longer ID or an exact session name.''"
| "sessionTargetFailureReason target r = js ''Session not found''"

definition resolveSessionTargetId :: "(jstr \<Rightarrow> jstr) \<Rightarrow> session_info list \<Rightarrow> jstr \<Rightarrow> jstr + jstr option" where
  "resolveSessionTargetId lower sessions nameOrId =
     (case resolveSessionTarget lower sessions nameOrId of
        Resolved s \<Rightarrow> Inr (Some (si_id s))
      | NotFound \<Rightarrow> Inr None
      | r \<Rightarrow> Inl (sessionTargetFailureReason nameOrId r))"

subsection \<open>Facts\<close>

definition with_name :: "(jstr \<Rightarrow> jstr) \<Rightarrow> jstr \<Rightarrow> session_info list \<Rightarrow> session_info list" where
  "with_name lower name sessions = filter (\<lambda>s. map_option lower (si_name s) = Some (lower name)) sessions"

definition with_prefix :: "jstr \<Rightarrow> session_info list \<Rightarrow> session_info list" where
  "with_prefix prefix sessions = filter (\<lambda>s. js_startsWith (si_id s) prefix) sessions"

lemma with_subset: "set (with_name lower t xs) \<subseteq> set xs" "set (with_prefix t xs) \<subseteq> set xs"
  by (auto simp: with_name_def with_prefix_def)

lemma resolve_by_match:
  assumes "List.find (\<lambda>s. si_id s = js_trim t) sessions = None"
  shows "resolveSessionTarget lower sessions t =
    (case with_name lower (js_trim t) sessions of
       [s] \<Rightarrow> Resolved s
     | [] \<Rightarrow> (case with_prefix (js_trim t) sessions of
               [s] \<Rightarrow> Resolved s | [] \<Rightarrow> NotFound | ms \<Rightarrow> AmbiguousPrefix ms)
     | ms \<Rightarrow> AmbiguousName ms)"
  unfolding resolveSessionTarget_def Let_def assms option.case
    with_name_def [symmetric] with_prefix_def [symmetric]
  by (simp split: list.split)

lemma resolve_exact_id:
  assumes "List.find (\<lambda>s. si_id s = js_trim t) sessions = Some s"
  shows "resolveSessionTarget lower sessions t = Resolved s"
  using assms by (simp add: resolveSessionTarget_def Let_def)

lemma resolved_member:
  assumes "resolveSessionTarget lower sessions t = Resolved s"
  shows "s \<in> set sessions"
proof (cases "List.find (\<lambda>s. si_id s = js_trim t) sessions")
  case (Some x)
  then show ?thesis using find_Some [OF Some] assms by (simp add: resolve_exact_id [OF Some])
next
  case None
  then show ?thesis
    using assms with_subset(1) [of lower "js_trim t" sessions] with_subset(2) [of "js_trim t" sessions]
    unfolding resolve_by_match [OF None] by (auto split: list.splits)
qed

subsection \<open>Properties\<close>

text \<open>a target names one session or none.  An exact id wins; otherwise a name (in any case) decides
  when some session has it; otherwise an id prefix; a resolved session is the only one that matches at
  the level that decided, several matches are reported as ambiguous with all of them, and not found
  means that no session has the id, the name or the prefix.\<close>

theorem target_resolution_unique:
  "let byId = filter (\<lambda>s. si_id s = js_trim t) sessions;
       byName = with_name lower (js_trim t) sessions;
       byPrefix = with_prefix (js_trim t) sessions
   in (case resolveSessionTarget lower sessions t of
         Resolved s \<Rightarrow> s \<in> set sessions \<and>
           (si_id s = js_trim t \<or> byId = [] \<and> byName = [s] \<or> byId = [] \<and> byName = [] \<and> byPrefix = [s])
       | AmbiguousName ms \<Rightarrow> byId = [] \<and> ms = byName \<and> 1 < length ms
       | AmbiguousPrefix ms \<Rightarrow> byId = [] \<and> byName = [] \<and> ms = byPrefix \<and> 1 < length ms
       | NotFound \<Rightarrow> byId = [] \<and> byName = [] \<and> byPrefix = [])"
proof (cases "List.find (\<lambda>s. si_id s = js_trim t) sessions")
  case (Some s)
  then show ?thesis using find_Some [OF Some] by (simp add: resolve_exact_id [OF Some])
next
  case None
  then have "filter (\<lambda>s. si_id s = js_trim t) sessions = []" by (auto simp: find_None_iff filter_empty_conv)
  then show ?thesis
    using with_subset(1) [of lower "js_trim t" sessions] with_subset(2) [of "js_trim t" sessions]
    unfolding resolve_by_match [OF None] Let_def by (auto split: list.split)
qed

text \<open>the broker and the clients do not agree on what a message is.  A client accepts exactly the
  messages that the broker accepts and whose \<open>replyError\<close> is absent or a string; there are messages
  that the broker delivers and that make the receiving client drop its connection.\<close>

theorem broker_delivers_what_clients_reject:
  "(client_isMessage v \<longleftrightarrow> isMessage v \<and> optional is_string (jfield v ''replyError'')) \<and>
   (\<exists>w. isMessage w \<and> \<not> client_isMessage w)"
proof -
  let ?w = "JObj [(js ''id'', JStr []), (js ''timestamp'', JNum (JFinite 0)), (js ''replyError'', JNull),
      (js ''content'', JObj [(js ''text'', JStr [])])]"
  have "isMessage ?w \<and> \<not> client_isMessage ?w"
    by (simp add: isMessage_def client_isMessage_def message_head_def message_body_def optional_def)
  then show ?thesis unfolding isMessage_def client_isMessage_def by blast
qed

end
