(* ===== verification/Delivery_Caches.thy ===== *)
theory Delivery_Caches
  imports Intercom_Target
begin

text \<open>
  The broker's two bounded memories: delivered message ids
  (\<open>packages/intercom/broker/delivered-message-cache.ts\<close>) and supervisor crossings with the
  capabilities that authorise them (\<open>broker/supervisor-channel.ts\<close>).  \<open>Date.now()\<close> is an argument, in
  milliseconds; HMAC, base64url and random ids are parameters.
\<close>

definition CACHE_TTL_MS :: int where "CACHE_TTL_MS = 10 * 60 * 1000"
definition CACHE_MAX_ENTRIES :: nat where "CACHE_MAX_ENTRIES = 10000"

subsection \<open>Delivered messages\<close>

datatype delivered_match = Miss | Match | Conflict

record delivered_message =
  dm_deliveredAt :: int
  dm_signature :: json

text \<open>A loop over the entries in insertion order that stops at the first fresh one.\<close>

fun dc_prune :: "int \<Rightarrow> int \<Rightarrow> (jstr, delivered_message) jmap \<Rightarrow> (jstr, delivered_message) jmap" where
  "dc_prune ttl now [] = []"
| "dc_prune ttl now ((k, d) # m) =
     (if now - dm_deliveredAt d \<le> ttl then (k, d) # m else dc_prune ttl now m)"

text \<open>\<open>while (size > maxEntries) delete the oldest\<close>.\<close>

fun evict_oldest :: "nat \<Rightarrow> ('k, 'v) jmap \<Rightarrow> ('k, 'v) jmap" where
  "evict_oldest n [] = []"
| "evict_oldest n (e # m) = (if n < length (e # m) then evict_oldest n m else e # m)"

record delivered_cache =
  dc_delivered :: "(jstr, delivered_message) jmap"
  dc_ttlMs :: int
  dc_maxEntries :: nat

definition dc_new :: delivered_cache where
  "dc_new = \<lparr>dc_delivered = [], dc_ttlMs = CACHE_TTL_MS, dc_maxEntries = CACHE_MAX_ENTRIES\<rparr>"

definition dc_lookup :: "delivered_cache \<Rightarrow> jstr \<Rightarrow> json \<Rightarrow> int \<Rightarrow> delivered_cache \<times> delivered_match" where
  "dc_lookup c messageId signature now =
     (let m = dc_prune (dc_ttlMs c) now (dc_delivered c)
      in (c\<lparr>dc_delivered := m\<rparr>,
          case jm_get m messageId of
            None \<Rightarrow> Miss
          | Some d \<Rightarrow>
              (if dc_ttlMs c < now - dm_deliveredAt d then Miss
               else if dm_signature d = signature then Match else Conflict)))"

definition dc_record :: "delivered_cache \<Rightarrow> jstr \<Rightarrow> json \<Rightarrow> int \<Rightarrow> delivered_cache" where
  "dc_record c messageId signature now =
     c\<lparr>dc_delivered := evict_oldest (dc_maxEntries c)
         (jm_delete messageId (dc_prune (dc_ttlMs c) now (dc_delivered c))
          @ [(messageId, \<lparr>dm_deliveredAt = now, dm_signature = signature\<rparr>)])\<rparr>"

subsection \<open>Capabilities\<close>

record crypto =
  cr_mac :: "jstr \<Rightarrow> jstr \<Rightarrow> nat list"
  cr_encode :: "nat list \<Rightarrow> jstr"
  cr_decode :: "jstr \<Rightarrow> nat list"

abbreviation js_dot :: code_unit where "js_dot \<equiv> 46"

definition capabilityMac :: "crypto \<Rightarrow> jstr \<Rightarrow> jstr \<Rightarrow> jstr \<Rightarrow> nat list" where
  "capabilityMac cr ownerToken childName nonce = cr_mac cr ownerToken (nonce @ [0] @ childName)"

definition issueCapability :: "crypto \<Rightarrow> jstr \<Rightarrow> jstr \<Rightarrow> jstr \<Rightarrow> jstr" where
  "issueCapability cr nonce ownerToken childName =
     nonce @ [js_dot] @ cr_encode cr (capabilityMac cr ownerToken childName nonce)"

definition ownsCapability :: "crypto \<Rightarrow> jstr \<Rightarrow> jstr \<Rightarrow> jstr \<Rightarrow> bool" where
  "ownsCapability cr capability ownerToken childName =
     (case js_indexOf js_dot capability of
        None \<Rightarrow> False
      | Some sep \<Rightarrow>
          (if sep = 0 \<or> sep = length capability - 1 then False
           else cr_decode cr (drop (sep + 1) capability)
                  = capabilityMac cr ownerToken childName (take sep capability)))"

subsection \<open>The supervisor channel\<close>

record crossing =
  cx_recordedAt :: int
  cx_fromId :: jstr
  cx_toId :: jstr

record authorization =
  au_supervisorId :: jstr
  au_childName :: jstr
  au_ownerToken :: jstr
  au_boundChildName :: "jstr option"

record supervisor_channel =
  sc_crossings :: "(jstr, crossing) jmap"
  sc_authorizations :: "(jstr, authorization) jmap"
  sc_ttlMs :: int
  sc_maxEntries :: nat

definition sc_new :: supervisor_channel where
  "sc_new = \<lparr>sc_crossings = [], sc_authorizations = [], sc_ttlMs = CACHE_TTL_MS,
     sc_maxEntries = CACHE_MAX_ENTRIES\<rparr>"

definition authorize ::
  "crypto \<Rightarrow> jstr \<Rightarrow> supervisor_channel \<Rightarrow> jstr \<Rightarrow> jstr \<Rightarrow> jstr \<Rightarrow> jstr option
     \<Rightarrow> string + supervisor_channel \<times> jstr" where
  "authorize cr nonce sc supervisorId ownerToken childName requested =
     (let capability = (case requested of None \<Rightarrow> issueCapability cr nonce ownerToken childName | Some c \<Rightarrow> c);
          existing = jm_get (sc_authorizations sc) capability
      in if \<not> ownsCapability cr capability ownerToken childName
         then Inl ''Invalid supervisor capability owner''
         else if (case existing of None \<Rightarrow> False
                  | Some e \<Rightarrow> au_ownerToken e \<noteq> ownerToken \<or> au_childName e \<noteq> childName)
         then Inl ''Supervisor capability is already owned by another relationship''
         else Inr (sc\<lparr>sc_authorizations := evict_oldest (sc_maxEntries sc)
                       (jm_delete capability (sc_authorizations sc)
                        @ [(capability, \<lparr>au_supervisorId = supervisorId, au_childName = childName,
                             au_ownerToken = ownerToken,
                             au_boundChildName =
                               (case existing of None \<Rightarrow> None
                                | Some e \<Rightarrow> (if truthy_string (au_boundChildName e)
                                            then au_boundChildName e else None))\<rparr>)])\<rparr>,
                   capability))"

definition claim :: "supervisor_channel \<Rightarrow> jstr \<Rightarrow> jstr \<Rightarrow> supervisor_channel \<times> jstr option" where
  "claim sc capability childName =
     (case jm_get (sc_authorizations sc) capability of
        None \<Rightarrow> (sc, None)
      | Some a \<Rightarrow>
          (if au_childName a = js ''*''
           then (if truthy_string (au_boundChildName a) \<and> au_boundChildName a \<noteq> Some childName
                 then (sc, None)
                 else (sc\<lparr>sc_authorizations :=
                         jm_set capability (a\<lparr>au_boundChildName := Some childName\<rparr>) (sc_authorizations sc)\<rparr>,
                       Some (au_supervisorId a)))
           else if au_childName a \<noteq> childName then (sc, None)
           else (sc, Some (au_supervisorId a))))"

fun sc_prune :: "int \<Rightarrow> int \<Rightarrow> (jstr, crossing) jmap \<Rightarrow> (jstr, crossing) jmap" where
  "sc_prune ttl now [] = []"
| "sc_prune ttl now ((k, c) # m) =
     (if now - cx_recordedAt c \<le> ttl then (k, c) # m else sc_prune ttl now m)"

definition sc_record :: "supervisor_channel \<Rightarrow> jstr \<Rightarrow> jstr \<Rightarrow> jstr \<Rightarrow> int \<Rightarrow> supervisor_channel" where
  "sc_record sc messageId fromId toId now =
     sc\<lparr>sc_crossings := evict_oldest (sc_maxEntries sc)
          (jm_delete messageId (sc_prune (sc_ttlMs sc) now (sc_crossings sc))
           @ [(messageId, \<lparr>cx_recordedAt = now, cx_fromId = fromId, cx_toId = toId\<rparr>)])\<rparr>"

definition matchReply ::
  "supervisor_channel \<Rightarrow> jstr \<Rightarrow> jstr \<Rightarrow> jstr \<Rightarrow> int \<Rightarrow> supervisor_channel \<times> bool" where
  "matchReply sc replyTo replySenderId replyTargetId now =
     (let m = sc_prune (sc_ttlMs sc) now (sc_crossings sc); sc' = sc\<lparr>sc_crossings := m\<rparr>
      in case jm_get m replyTo of
           None \<Rightarrow> (sc', False)
         | Some c \<Rightarrow>
             (if sc_ttlMs sc < now - cx_recordedAt c
              then (sc'\<lparr>sc_crossings := jm_delete replyTo m\<rparr>, False)
              else (sc', cx_fromId c = replyTargetId \<and> cx_toId c = replySenderId)))"

definition isVerticalBypass ::
  "supervisor_channel \<Rightarrow> jstr option \<Rightarrow> session_info \<Rightarrow> session_info \<Rightarrow> int \<Rightarrow> supervisor_channel \<times> bool" where
  "isVerticalBypass sc replyTo sender target now =
     (case replyTo of
        None \<Rightarrow> (sc, False)
      | Some r \<Rightarrow> (if r = [] then (sc, False) else matchReply sc r (si_id sender) (si_id target) now))"

subsection \<open>What both memories rely on\<close>

lemma length_evict_oldest: "length (evict_oldest n m) \<le> n"
  by (induction n m rule: evict_oldest.induct) auto

lemma evict_oldest_suffix: "\<exists>pre. m = pre @ evict_oldest n m"
proof (induction n m rule: evict_oldest.induct)
  case (2 n e m)
  then show ?case by (auto intro: exI [of _ "[]"]) (metis append_Cons)
qed simp

lemma evict_oldest_last: "0 < n \<Longrightarrow> \<exists>r. evict_oldest n (m @ [e]) = r @ [e]"
proof (induction m)
  case (Cons x m)
  then show ?case by (cases "n < length (x # m @ [e])") auto
qed auto

lemma jm_get_suffix: "jm_wf (pre @ m) \<Longrightarrow> jm_get m k = Some v \<Longrightarrow> jm_get (pre @ m) k = Some v"
  by (fastforce simp: map_add_def dest: map_of_SomeD split: option.splits intro: rev_image_eqI)

lemma jm_wf_suffix: "jm_wf (pre @ m) \<Longrightarrow> jm_wf m"
  by simp

text \<open>A memory stamps its values and forgets stale ones from the front.\<close>

locale recent_memory =
  fixes stamp :: "'v \<Rightarrow> int"
    and prune :: "int \<Rightarrow> int \<Rightarrow> (jstr, 'v) jmap \<Rightarrow> (jstr, 'v) jmap"
  assumes prune_stale: "\<exists>pre. m = pre @ prune ttl now m \<and> list_all (\<lambda>(k, v). ttl < now - stamp v) pre"
begin

lemma prune_wf: "jm_wf m \<Longrightarrow> jm_wf (prune ttl now m)"
  using prune_stale [of m ttl now] by (metis jm_wf_suffix)

lemma prune_get:
  assumes "jm_wf m"
  shows "jm_get (prune ttl now m) k = Some v \<Longrightarrow> jm_get m k = Some v"
  using prune_stale [of m ttl now] assms jm_get_suffix by metis

lemma prune_keeps_fresh:
  assumes k: "jm_get m k = Some v" and fresh: "now - stamp v \<le> ttl"
  shows "jm_get (prune ttl now m) k = Some v"
proof -
  obtain pre where m: "m = pre @ prune ttl now m" and stale: "list_all (\<lambda>(k, v). ttl < now - stamp v) pre"
    using prune_stale by blast
  have "(k, v) \<notin> set pre" using stale fresh by (fastforce simp: list_all_iff)
  then have "jm_get pre k \<noteq> Some v" by (blast dest: map_of_SomeD)
  then show ?thesis using k by (subst (asm) m) (auto simp: map_add_Some_iff)
qed

text \<open>Remembering a value: prune, put it last, drop the oldest entries beyond the limit.\<close>

lemma remember_get:
  "0 < n \<Longrightarrow> jm_get (evict_oldest n (jm_delete k (prune ttl now m) @ [(k, v)])) k = Some v"
proof -
  let ?m = "jm_delete k (prune ttl now m)"
  assume "0 < n"
  then obtain r where r: "evict_oldest n (?m @ [(k, v)]) = r @ [(k, v)]" using evict_oldest_last by blast
  obtain pre where "?m @ [(k, v)] = pre @ r @ [(k, v)]" using evict_oldest_suffix [of "?m @ [(k, v)]" n] r by auto
  then have "set r \<subseteq> set ?m" by auto
  then have "k \<notin> fst ` set r" using jm_keys_delete [of k "prune ttl now m"] by auto
  then have "jm_get r k = None" by (simp add: map_of_eq_None_iff)
  then show ?thesis by (simp add: r map_add_def)
qed

lemma remember_wf:
  assumes "jm_wf m"
  shows "jm_wf (evict_oldest n (jm_delete k (prune ttl now m) @ [(k, v)]))"
proof -
  let ?m = "jm_delete k (prune ttl now m) @ [(k, v)]"
  have "jm_wf ?m"
    using prune_wf [OF assms, of ttl now] jm_keys_delete [of k "prune ttl now m"] by (auto simp del: set_map)
  then show ?thesis using evict_oldest_suffix [of ?m n] jm_wf_suffix by metis
qed

lemma remember_only:
  assumes wf: "jm_wf m"
    and get: "jm_get (evict_oldest n (jm_delete k (prune ttl now m) @ [(k, v)])) k' = Some w"
  shows "if k' = k then w = v else jm_get m k' = Some w"
proof -
  let ?m = "jm_delete k (prune ttl now m) @ [(k, v)]"
  have "jm_wf ?m"
    using prune_wf [OF wf, of ttl now] jm_keys_delete [of k "prune ttl now m"] by (auto simp del: set_map)
  then have "jm_get ?m k' = Some w"
    using evict_oldest_suffix [of ?m n] get jm_get_suffix by metis
  then show ?thesis using prune_get [OF wf] by (auto simp: map_add_Some_iff split: if_splits)
qed

end

lemma dc_prune_stale: "\<exists>pre. m = pre @ dc_prune ttl now m \<and> list_all (\<lambda>(k, v). ttl < now - dm_deliveredAt v) pre"
proof (induction ttl now m rule: dc_prune.induct)
  case (2 ttl now k d m)
  show ?case
  proof (cases "now - dm_deliveredAt d \<le> ttl")
    case True
    then show ?thesis by (intro exI [of _ "[]"]) simp
  next
    case False
    with 2 obtain pre where "m = pre @ dc_prune ttl now m" "list_all (\<lambda>(k, v). ttl < now - dm_deliveredAt v) pre" by blast
    with False show ?thesis by (intro exI [of _ "(k, d) # pre"]) simp
  qed
qed simp

lemma sc_prune_stale: "\<exists>pre. m = pre @ sc_prune ttl now m \<and> list_all (\<lambda>(k, v). ttl < now - cx_recordedAt v) pre"
proof (induction ttl now m rule: sc_prune.induct)
  case (2 ttl now k d m)
  show ?case
  proof (cases "now - cx_recordedAt d \<le> ttl")
    case True
    then show ?thesis by (intro exI [of _ "[]"]) simp
  next
    case False
    with 2 obtain pre where "m = pre @ sc_prune ttl now m" "list_all (\<lambda>(k, v). ttl < now - cx_recordedAt v) pre" by blast
    with False show ?thesis by (intro exI [of _ "(k, d) # pre"]) simp
  qed
qed simp

interpretation delivered: recent_memory dm_deliveredAt dc_prune
  by unfold_locales (rule dc_prune_stale)

interpretation crossings: recent_memory cx_recordedAt sc_prune
  by unfold_locales (rule sc_prune_stale)

end
