(* ===== verification/Intercom_Send.thy ===== *)
theory Intercom_Send
  imports Delivery_Caches
begin

text \<open>
  Routing one send request in the intercom broker
  (\<open>packages/intercom/broker/send-handler.ts\<close>, \<open>broker/group-isolation.ts\<close>): validation, the duplicate
  check, the supervisor channel, target resolution, group isolation, delivery.  One handler reads the
  clock several times; here all readings are the argument \<open>now\<close>.
\<close>

record ic_session =
  cs_socket :: nat
  cs_info :: session_info
  cs_supervisorId :: "jstr option"
  cs_supervisorOwnerToken :: "jstr option"

text \<open>The frames the broker writes.  The flag of \<open>IB_Message\<close> is \<open>channel: "supervisor"\<close>.\<close>

datatype ic_frame =
    IB_Registered jstr "jstr option"
  | IB_RegistrationFailed jstr
  | IB_Sessions jstr "session_info list"
  | IB_SupervisorAuthorized jstr jstr jstr jstr
  | IB_Message session_info json bool
  | IB_PresenceUpdate session_info
  | IB_SessionJoined session_info
  | IB_SessionLeft jstr
  | IB_Delivered jstr "jstr option"
  | IB_DeliveryFailed jstr jstr "jstr option"

datatype ic_effect = IC_Write nat ic_frame | IC_End nat | IC_Destroy nat | IC_Exit

record ic_broker =
  ib_sessions :: "(jstr, ic_session) jmap"
  ib_shutdownTimer :: bool
  ib_delivered :: delivered_cache
  ib_supervisors :: supervisor_channel

subsection \<open>Validation of the request\<close>

definition send_failed :: "nat \<Rightarrow> jstr \<Rightarrow> jstr option \<Rightarrow> jstr \<Rightarrow> ic_effect" where
  "send_failed socket messageId attemptId reason = IC_Write socket (IB_DeliveryFailed messageId reason attemptId)"

definition send_messageId :: "json \<Rightarrow> jstr" where
  "send_messageId msg =
     (case jfield msg ''message'' of
        None \<Rightarrow> js ''unknown''
      | Some m \<Rightarrow> (if isMessage m then message_id m else js ''unknown''))"

text \<open>\<open>Inl\<close> is the failure that is written; \<open>Inr\<close> the target text, the message and the attempt id.\<close>

definition check_send :: "nat \<Rightarrow> json \<Rightarrow> ic_effect + jstr \<times> json \<times> jstr option" where
  "check_send socket msg =
     (let attempt = jfield msg ''attemptId''; attemptId = jstring attempt
      in if attempt \<noteq> None \<and> attemptId = None
         then Inl (send_failed socket (send_messageId msg) None (js ''Invalid attemptId format''))
         else (case (jstring (jfield msg ''to''), jfield msg ''message'') of
                 (Some target, Some m) \<Rightarrow>
                   (if \<not> isMessage m
                    then Inl (send_failed socket (send_messageId msg) attemptId (js ''Invalid message format''))
                    else if jfield msg ''channel'' \<noteq> None
                    then Inl (send_failed socket (message_id m) attemptId (js ''Invalid channel''))
                    else Inr (target, m, attemptId))
               | _ \<Rightarrow> Inl (send_failed socket (send_messageId msg) attemptId (js ''Invalid message format''))))"

subsection \<open>Routing\<close>

definition session_infos :: "ic_broker \<Rightarrow> session_info list" where
  "session_infos b = map cs_info (jm_values (ib_sessions b))"

definition send_candidates :: "ic_broker \<Rightarrow> session_info \<Rightarrow> bool \<Rightarrow> session_info list" where
  "send_candidates b sender acrossGroups =
     (if acrossGroups then session_infos b
      else filter (\<lambda>info. normalizeGroup (si_group info) = normalizeGroup (si_group sender)) (session_infos b))"

definition send_resolution ::
  "(jstr \<Rightarrow> jstr) \<Rightarrow> ic_broker \<Rightarrow> session_info \<Rightarrow> bool \<Rightarrow> jstr \<Rightarrow> resolution" where
  "send_resolution lower b sender acrossGroups trimmedTo =
     (case jm_get (ib_sessions b) trimmedTo of
        Some exact \<Rightarrow> Resolved (cs_info exact)
      | None \<Rightarrow> resolveSessionTarget lower (send_candidates b sender acrossGroups) trimmedTo)"

text \<open>Delivery to a resolved session.\<close>

definition deliver_to ::
  "ic_broker \<Rightarrow> nat \<Rightarrow> ic_session \<Rightarrow> ic_session \<Rightarrow> bool \<Rightarrow> json \<Rightarrow> json \<Rightarrow> jstr option \<Rightarrow> int
     \<Rightarrow> ic_broker \<times> ic_effect list" where
  "deliver_to b socket sender target supervisorSend m signature attemptId now =
     (if si_id (cs_info target) = si_id (cs_info sender)
      then (b, [send_failed socket (message_id m) attemptId (js ''Cannot message the current session'')])
      else (case (if supervisorSend then (ib_supervisors b, True)
                  else isVerticalBypass (ib_supervisors b) (message_replyTo m) (cs_info sender) (cs_info target) now) of
              (sc, bypass) \<Rightarrow>
                (if \<not> bypass \<and> \<not> sameGroup (cs_info target) (cs_info sender)
                 then (b\<lparr>ib_supervisors := sc\<rparr>,
                       [send_failed socket (message_id m) attemptId
                          (js ''Target session is in a different intercom group'')])
                 else (b\<lparr>ib_delivered := dc_record (ib_delivered b) (message_id m) signature now,
                         ib_supervisors :=
                           (if supervisorSend
                            then sc_record sc (message_id m) (si_id (cs_info sender)) (si_id (cs_info target)) now
                            else sc)\<rparr>,
                       [IC_Write (cs_socket target) (IB_Message (cs_info sender) m supervisorSend),
                        IC_Write socket (IB_Delivered (message_id m) attemptId)]))))"

definition route_send ::
  "(jstr \<Rightarrow> jstr) \<Rightarrow> ic_broker \<Rightarrow> nat \<Rightarrow> jstr option \<Rightarrow> bool \<Rightarrow> jstr \<Rightarrow> json \<Rightarrow> json \<Rightarrow> jstr option \<Rightarrow> int
     \<Rightarrow> ic_broker \<times> ic_effect list" where
  "route_send lower b socket currentId supervisorSend target m signature attemptId now =
     (let fail = (\<lambda>reason. (b, [send_failed socket (message_id m) attemptId reason]))
      in case Option.bind currentId (jm_get (ib_sessions b)) of
           None \<Rightarrow> fail (js ''Sender session not found'')
         | Some sender \<Rightarrow>
             (if supervisorSend \<and> \<not> truthy_string (cs_supervisorId sender)
              then fail (js ''Supervisor channel is not authorized'')
              else if supervisorSend \<and> Some (js_trim target) \<noteq> cs_supervisorId sender
              then fail (js ''Supervisor target does not match the authorized relationship'')
              else (case send_resolution lower b (cs_info sender)
                           (supervisorSend \<or> truthy_string (message_replyTo m)) (js_trim target) of
                      Resolved info \<Rightarrow>
                        (case jm_get (ib_sessions b) (si_id info) of
                           None \<Rightarrow> fail (js ''Session not found'')
                         | Some t \<Rightarrow> deliver_to b socket sender t supervisorSend m signature attemptId now)
                    | r \<Rightarrow> fail (sessionTargetFailureReason target r))))"

definition handleBrokerSend ::
  "(jstr \<Rightarrow> jstr) \<Rightarrow> ic_broker \<Rightarrow> nat \<Rightarrow> json \<Rightarrow> jstr option \<Rightarrow> int \<Rightarrow> ic_broker \<times> ic_effect list" where
  "handleBrokerSend lower b socket msg currentId now =
     (case check_send socket msg of
        Inl e \<Rightarrow> (b, [e])
      | Inr (target, m, attemptId) \<Rightarrow>
          (let supervisorSend = (jstring (jfield msg ''type'') = Some (js ''supervisor_send''));
               signature = buildMessageSendSignature target m
           in case dc_lookup (ib_delivered b) (message_id m) signature now of
                (dc, found) \<Rightarrow>
                  (let b = b\<lparr>ib_delivered := dc\<rparr>
                   in case found of
                        Match \<Rightarrow> (b, [IC_Write socket (IB_Delivered (message_id m) attemptId)])
                      | Conflict \<Rightarrow>
                          (b, [send_failed socket (message_id m) attemptId
                                 (js ''Intercom message ID '' @ [39] @ message_id m @ [39]
                                  @ js '' was already delivered with a different target or payload'')])
                      | Miss \<Rightarrow> route_send lower b socket currentId supervisorSend target m signature attemptId now)))"

end
