(* ===== verification/Intercom_Broker.thy ===== *)
theory Intercom_Broker
  imports Intercom_Send
begin

text \<open>
  The intercom broker (\<open>packages/intercom/broker/broker.ts\<close>): registration, session lists, supervisor
  authorisation, presence, disconnects, the idle timer, and the connections that carry the messages.
  A handler that throws leaves the state it has reached and its connection is destroyed.
\<close>

definition session_of :: "json \<Rightarrow> jstr \<Rightarrow> session_info" where
  "session_of v i =
     (let str = (\<lambda>k. case jstring (jfield v k) of None \<Rightarrow> [] | Some s \<Rightarrow> s);
          num = (\<lambda>k. case jnumber (jfield v k) of None \<Rightarrow> JNonFinite | Some n \<Rightarrow> n)
      in \<lparr>si_id = i, si_name = jstring (jfield v ''name''), si_cwd = str ''cwd'', si_model = str ''model'',
          si_pid = num ''pid'', si_startedAt = num ''startedAt'', si_lastActivity = num ''lastActivity'',
          si_status = jstring (jfield v ''status''),
          si_group = Some (normalizeGroup (jstring (jfield v ''group'')))\<rparr>)"

definition broadcastToGroup :: "ic_broker \<Rightarrow> ic_frame \<Rightarrow> jstr option \<Rightarrow> jstr \<Rightarrow> ic_effect list" where
  "broadcastToGroup b msg grp exclude =
     map (\<lambda>(i, s). IC_Write (cs_socket s) msg)
       (filter (\<lambda>(i, s). i \<noteq> exclude \<and> normalizeGroup (si_group (cs_info s)) = normalizeGroup grp)
          (ib_sessions b))"

definition ic_scheduleShutdownCheck :: "ic_broker \<Rightarrow> ic_broker" where
  "ic_scheduleShutdownCheck b = (if ib_shutdownTimer b then b else b\<lparr>ib_shutdownTimer := True\<rparr>)"

text \<open>A handler's result: the broker, the connection's session id, the effects, and the message of the
  error it threw, if any.\<close>

type_synonym ic_result = "ic_broker \<times> jstr option \<times> ic_effect list \<times> string option"

definition throws :: "ic_broker \<Rightarrow> jstr option \<Rightarrow> string \<Rightarrow> ic_result" where
  "throws b currentId e = (b, currentId, [], Some e)"

subsection \<open>Messages\<close>

text \<open>The supervisor of a registration: \<open>Inl\<close> when it must be refused.  A claimed capability stays
  claimed when the supervisor is gone.\<close>

definition claim_supervisor :: "ic_broker \<Rightarrow> json \<Rightarrow> json option \<Rightarrow> ic_broker \<times> (unit + jstr option)" where
  "claim_supervisor b session supervisor =
     (case supervisor of
        None \<Rightarrow> (b, Inr None)
      | Some supv \<Rightarrow>
          (let childName = map_option js_trim (jstring (jfield session ''name''));
               (sc, claimed) =
                 (case (childName, jstring (jfield supv ''capability'')) of
                    (Some n, Some capability) \<Rightarrow>
                      (if isSupervisorRegistration supv \<and> n \<noteq> []
                       then claim (ib_supervisors b) capability n else (ib_supervisors b, None))
                  | _ \<Rightarrow> (ib_supervisors b, None));
               b' = b\<lparr>ib_supervisors := sc\<rparr>
           in case claimed of
                None \<Rightarrow> (b', Inl ())
              | Some i \<Rightarrow>
                  (if i = [] \<or> jm_get (ib_sessions b) i = None then (b', Inl ()) else (b', Inr (Some i)))))"

definition handle_register :: "ic_broker \<Rightarrow> nat \<Rightarrow> json \<Rightarrow> jstr option \<Rightarrow> jstr \<Rightarrow> ic_result" where
  "handle_register b socket msg currentId uuid =
     (case jfield msg ''session'' of
        None \<Rightarrow> throws b currentId ''Invalid register message''
      | Some session \<Rightarrow>
          (if \<not> isSessionRegistration session then throws b currentId ''Invalid register message''
           else if jfield msg ''supervisorOwnerToken'' \<noteq> None \<and>
                   \<not> truthy_string (jstring (jfield msg ''supervisorOwnerToken''))
           then throws b currentId ''Invalid supervisor owner token''
           else if truthy_string currentId then throws b currentId ''Received duplicate register message''
           else (case claim_supervisor b session (jfield msg ''supervisor'') of
                   (b', Inl _) \<Rightarrow>
                     (b', currentId,
                      [IC_Write socket (IB_RegistrationFailed (js ''Invalid supervisor authorization'')),
                       IC_End socket], None)
                 | (b', Inr supervisorId) \<Rightarrow>
                     (let info = session_of session uuid;
                          b'' = b'\<lparr>ib_sessions := jm_set uuid
                                    \<lparr>cs_socket = socket, cs_info = info, cs_supervisorId = supervisorId,
                                     cs_supervisorOwnerToken = jstring (jfield msg ''supervisorOwnerToken'')\<rparr>
                                    (ib_sessions b'),
                                   ib_shutdownTimer := False\<rparr>
                      in (b'', Some uuid,
                          IC_Write socket (IB_Registered uuid supervisorId)
                          # broadcastToGroup b'' (IB_SessionJoined info) (si_group info) uuid, None)))))"

definition group_of_session :: "ic_broker \<Rightarrow> jstr \<Rightarrow> jstr option" where
  "group_of_session b i = Option.bind (jm_get (ib_sessions b) i) (\<lambda>s. si_group (cs_info s))"

definition drop_session :: "ic_broker \<Rightarrow> jstr \<Rightarrow> ic_broker \<times> ic_effect list" where
  "drop_session b i =
     (let leavingGroup = group_of_session b i;
          b' = b\<lparr>ib_sessions := jm_delete i (ib_sessions b)\<rparr>
      in (ic_scheduleShutdownCheck b', broadcastToGroup b' (IB_SessionLeft i) leavingGroup i))"

definition handle_list :: "ic_broker \<Rightarrow> nat \<Rightarrow> json \<Rightarrow> jstr \<Rightarrow> ic_result" where
  "handle_list b socket msg i =
     (case jstring (jfield msg ''requestId'') of
        None \<Rightarrow> throws b (Some i) ''Invalid list message''
      | Some requestId \<Rightarrow>
          (if \<not> optional is_string (jfield msg ''group'') then throws b (Some i) ''Invalid list group''
           else (let effectiveGroup = normalizeGroup
                       (case jstring (jfield msg ''group'') of
                          Some g \<Rightarrow> Some g | None \<Rightarrow> group_of_session b i);
                     sessions = filter (\<lambda>info. normalizeGroup (si_group info) = effectiveGroup) (session_infos b)
                 in (b, Some i, [IC_Write socket (IB_Sessions requestId sessions)], None))))"

definition handle_authorize :: "crypto \<Rightarrow> ic_broker \<Rightarrow> nat \<Rightarrow> json \<Rightarrow> jstr \<Rightarrow> jstr \<Rightarrow> ic_result" where
  "handle_authorize cr b socket msg i uuid =
     (case (jm_get (ib_sessions b) i, jstring (jfield msg ''requestId''), jstring (jfield msg ''childName'')) of
        (Some supervisor, Some requestId, Some name) \<Rightarrow>
          (case cs_supervisorOwnerToken supervisor of
             None \<Rightarrow> throws b (Some i) ''Invalid authorize_supervisor message''
           | Some ownerToken \<Rightarrow>
               (if ownerToken = [] \<or> js_trim name = [] \<or> \<not> optional is_string (jfield msg ''capability'')
                then throws b (Some i) ''Invalid authorize_supervisor message''
                else (case authorize cr uuid (ib_supervisors b) (si_id (cs_info supervisor)) ownerToken
                             (js_trim name) (jstring (jfield msg ''capability'')) of
                        Inl e \<Rightarrow> throws b (Some i) e
                      | Inr (sc, capability) \<Rightarrow>
                          (b\<lparr>ib_supervisors := sc\<rparr>, Some i,
                           [IC_Write socket (IB_SupervisorAuthorized requestId capability
                              (si_id (cs_info supervisor)) (js_trim name))], None))))
      | _ \<Rightarrow> throws b (Some i) ''Invalid authorize_supervisor message'')"

text \<open>\<open>presence\<close> updates the fields one after the other; an invalid one throws after the earlier ones have
  been stored.\<close>

definition put_info :: "jstr \<Rightarrow> (session_info \<Rightarrow> session_info) \<Rightarrow> ic_broker \<Rightarrow> ic_broker" where
  "put_info i f b =
     (case jm_get (ib_sessions b) i of
        None \<Rightarrow> b
      | Some s \<Rightarrow> b\<lparr>ib_sessions := jm_set i (s\<lparr>cs_info := f (cs_info s)\<rparr>) (ib_sessions b)\<rparr>)"

definition presence_field ::
  "json option \<Rightarrow> (jstr \<Rightarrow> session_info \<Rightarrow> session_info) \<Rightarrow> jstr \<Rightarrow> ic_broker \<Rightarrow> ic_broker option" where
  "presence_field v f i b =
     (case v of None \<Rightarrow> Some b | Some (JStr s) \<Rightarrow> Some (put_info i (f s) b) | Some _ \<Rightarrow> None)"

definition handle_presence :: "ic_broker \<Rightarrow> json \<Rightarrow> jstr \<Rightarrow> int \<Rightarrow> ic_result" where
  "handle_presence b msg i now =
     (if jm_get (ib_sessions b) i = None then (b, Some i, [], None)
      else (case presence_field (jfield msg ''name'') (\<lambda>s. si_name_update (\<lambda>_. Some s)) i b of
              None \<Rightarrow> throws b (Some i) ''Invalid presence name''
            | Some b1 \<Rightarrow>
                (case presence_field (jfield msg ''status'') (\<lambda>s. si_status_update (\<lambda>_. Some s)) i b1 of
                   None \<Rightarrow> throws b1 (Some i) ''Invalid presence status''
                 | Some b2 \<Rightarrow>
                     (case presence_field (jfield msg ''model'') (\<lambda>s. si_model_update (\<lambda>_. s)) i b2 of
                        None \<Rightarrow> throws b2 (Some i) ''Invalid presence model''
                      | Some b3 \<Rightarrow>
                          (let b4 = put_info i (si_lastActivity_update (\<lambda>_. JFinite (of_int now))) b3
                           in (b4, Some i,
                               (case jm_get (ib_sessions b4) i of
                                  None \<Rightarrow> []
                                | Some s \<Rightarrow> broadcastToGroup b4 (IB_PresenceUpdate (cs_info s))
                                             (si_group (cs_info s)) i), None))))))"

definition ic_handleMessage ::
  "crypto \<Rightarrow> (jstr \<Rightarrow> jstr) \<Rightarrow> ic_broker \<Rightarrow> nat \<Rightarrow> json \<Rightarrow> jstr option \<Rightarrow> jstr \<Rightarrow> int \<Rightarrow> ic_result" where
  "ic_handleMessage cr lower b socket msg currentId uuid now =
     (case jstring (jfield msg ''type'') of
        None \<Rightarrow> throws b currentId ''Invalid client message''
      | Some t \<Rightarrow>
          (if t = js ''register'' then handle_register b socket msg currentId uuid
           else (case currentId of
                   None \<Rightarrow> throws b currentId ''Received message before register''
                 | Some i \<Rightarrow>
                     (if t = js ''unregister''
                      then (case drop_session b i of (b', effs) \<Rightarrow> (b', None, effs, None))
                      else if t = js ''list'' then handle_list b socket msg i
                      else if t = js ''authorize_supervisor'' then handle_authorize cr b socket msg i uuid
                      else if t = js ''send'' \<or> t = js ''supervisor_send''
                      then (case handleBrokerSend lower b socket msg currentId now of
                              (b', effs) \<Rightarrow> (b', currentId, effs, None))
                      else if t = js ''presence'' then handle_presence b msg i now
                      else throws b currentId ''Unknown client message type''))))"

subsection \<open>Connections\<close>

record ic_conn =
  co_sessionId :: "jstr option"
  co_open :: bool

record ic_system =
  is_broker :: ic_broker
  is_conns :: "(nat, ic_conn) jmap"
  is_exited :: bool

definition ic_broker_new :: ic_broker where
  "ic_broker_new = \<lparr>ib_sessions = [], ib_shutdownTimer = False, ib_delivered = dc_new, ib_supervisors = sc_new\<rparr>"

definition ic_started :: ic_system where
  "ic_started = \<lparr>is_broker = ic_broker_new, is_conns = [], is_exited = False\<rparr>"

definition ic_shutdown :: "ic_system \<Rightarrow> ic_system \<times> ic_effect list" where
  "ic_shutdown sys =
     (sys\<lparr>is_broker := (is_broker sys)\<lparr>ib_sessions := []\<rparr>, is_exited := True\<rparr>,
      map (\<lambda>s. IC_End (cs_socket s)) (jm_values (ib_sessions (is_broker sys))) @ [IC_Exit])"

definition ic_idle_check :: "ic_system \<Rightarrow> ic_system \<times> ic_effect list" where
  "ic_idle_check sys =
     (let sys' = sys\<lparr>is_broker := (is_broker sys)\<lparr>ib_shutdownTimer := False\<rparr>\<rparr>
      in if ib_sessions (is_broker sys') = [] then ic_shutdown sys' else (sys', []))"

definition ic_handleClose :: "ic_broker \<Rightarrow> jstr option \<Rightarrow> ic_broker \<times> ic_effect list" where
  "ic_handleClose b sessionId =
     (case sessionId of None \<Rightarrow> (b, [])
      | Some i \<Rightarrow> (if i = [] then (b, []) else drop_session b i))"

text \<open>One parsed message of an open connection; an exception destroys the socket.\<close>

definition ic_receive ::
  "crypto \<Rightarrow> (jstr \<Rightarrow> jstr) \<Rightarrow> ic_system \<Rightarrow> nat \<Rightarrow> ic_conn \<Rightarrow> json \<Rightarrow> jstr \<Rightarrow> int \<Rightarrow> ic_system \<times> ic_effect list" where
  "ic_receive cr lower sys k conn msg uuid now =
     (case ic_handleMessage cr lower (is_broker sys) k msg (co_sessionId conn) uuid now of
        (b, i, effs, error) \<Rightarrow>
          (sys\<lparr>is_broker := b,
               is_conns := jm_set k \<lparr>co_sessionId = i, co_open = (error = None)\<rparr> (is_conns sys)\<rparr>,
           effs @ (if error = None then [] else [IC_Destroy k])))"

datatype ic_event = IcOpen nat | IcMessage nat json jstr int | IcGarbage nat | IcClose nat | IcTimer | IcSignal

text \<open>Events that cannot happen (data on a closed connection, a timer that is not set, anything after
  exit) change nothing.\<close>

fun ic_step ::
  "crypto \<Rightarrow> (jstr \<Rightarrow> jstr) \<Rightarrow> ic_system \<Rightarrow> ic_event \<Rightarrow> ic_system \<times> ic_effect list" where
  "ic_step cr lower sys (IcOpen k) =
     (if is_exited sys \<or> jm_get (is_conns sys) k \<noteq> None then (sys, [])
      else (sys\<lparr>is_conns := jm_set k \<lparr>co_sessionId = None, co_open = True\<rparr> (is_conns sys)\<rparr>, []))"
| "ic_step cr lower sys (IcMessage k msg uuid now) =
     (case jm_get (is_conns sys) k of
        None \<Rightarrow> (sys, [])
      | Some conn \<Rightarrow>
          (if is_exited sys \<or> \<not> co_open conn then (sys, [])
           else ic_receive cr lower sys k conn msg uuid now))"
| "ic_step cr lower sys (IcGarbage k) =
     (case jm_get (is_conns sys) k of
        None \<Rightarrow> (sys, [])
      | Some conn \<Rightarrow>
          (if is_exited sys \<or> \<not> co_open conn then (sys, [])
           else (sys\<lparr>is_conns := jm_set k (conn\<lparr>co_open := False\<rparr>) (is_conns sys)\<rparr>, [IC_Destroy k])))"
| "ic_step cr lower sys (IcClose k) =
     (case jm_get (is_conns sys) k of
        None \<Rightarrow> (sys, [])
      | Some conn \<Rightarrow>
          (if is_exited sys then (sys, [])
           else (case ic_handleClose (is_broker sys) (co_sessionId conn) of
                   (b, effs) \<Rightarrow> (sys\<lparr>is_broker := b, is_conns := jm_delete k (is_conns sys)\<rparr>, effs))))"
| "ic_step cr lower sys IcTimer =
     (if is_exited sys \<or> \<not> ib_shutdownTimer (is_broker sys) then (sys, []) else ic_idle_check sys)"
| "ic_step cr lower sys IcSignal = (if is_exited sys then (sys, []) else ic_shutdown sys)"

subsection \<open>Reachable systems and the supervisor frames of their past\<close>

text \<open>\<open>(message id, sender, receiver)\<close> of the supervisor frames among some effects.\<close>

definition supervisor_frames :: "ic_system \<Rightarrow> ic_effect list \<Rightarrow> (jstr \<times> jstr \<times> jstr) set" where
  "supervisor_frames sys effs =
     {(message_id m, si_id from, tid) |m from tid k t.
        IC_Write k (IB_Message from m True) \<in> set effs \<and>
        jm_get (ib_sessions (is_broker sys)) tid = Some t \<and> cs_socket t = k}"

text \<open>\<open>randomUUID()\<close> gives a non-empty id that no session has.\<close>

fun fresh_event :: "ic_system \<Rightarrow> ic_event \<Rightarrow> bool" where
  "fresh_event sys (IcMessage k msg uuid now) =
     (uuid \<noteq> [] \<and> jm_get (ib_sessions (is_broker sys)) uuid = None)"
| "fresh_event sys _ = True"

inductive ic_reach ::
  "crypto \<Rightarrow> (jstr \<Rightarrow> jstr) \<Rightarrow> ic_system \<Rightarrow> (jstr \<times> jstr \<times> jstr) set \<Rightarrow> bool" for cr lower where
  reach_start: "ic_reach cr lower ic_started {}"
| reach_step: "ic_reach cr lower sys past \<Longrightarrow> fresh_event sys ev \<Longrightarrow> ic_step cr lower sys ev = (sys', effs) \<Longrightarrow>
     ic_reach cr lower sys' (past \<union> supervisor_frames sys effs)"

end
