(* ===== verification/Intercom_Isolation.thy ===== *)
theory Intercom_Isolation
  imports Intercom_Broker
begin

text \<open>
  What the intercom broker guarantees over every run: sessions belong to their connections, replies
  that cross groups answer an earlier supervisor frame, and messages, presence and departures stay in
  their group otherwise.
\<close>

subsection \<open>Sessions and their connections\<close>

definition sess_inv :: "(jstr, ic_session) jmap \<Rightarrow> (nat, ic_conn) jmap \<Rightarrow> bool" where
  "sess_inv ss conns \<longleftrightarrow> jm_wf ss \<and>
     (\<forall>i s. jm_get ss i = Some s \<longrightarrow>
        i \<noteq> [] \<and> si_id (cs_info s) = i \<and> map_option co_sessionId (jm_get conns (cs_socket s)) = Some (Some i)) \<and>
     (\<forall>k conn. jm_get conns k = Some conn \<longrightarrow> co_sessionId conn \<noteq> Some [])"

lemma sess_invD:
  assumes "sess_inv ss conns" and "jm_get ss i = Some s"
  shows "i \<noteq> []" and "si_id (cs_info s) = i" and "map_option co_sessionId (jm_get conns (cs_socket s)) = Some (Some i)"
  using assms by (auto simp: sess_inv_def)

lemma sess_inv_Nil: "sess_inv ss conns \<Longrightarrow> sess_inv [] conns"
  by (simp add: sess_inv_def)

lemma sess_inv_conn_same:
  assumes "sess_inv ss conns" and "jm_get conns k = Some c" and "co_sessionId c' = co_sessionId c"
  shows "sess_inv ss (jm_set k c' conns)"
proof -
  have "map_option co_sessionId (jm_get (jm_set k c' conns) x) = map_option co_sessionId (jm_get conns x)" for x
    using assms(2,3) by simp
  moreover have "co_sessionId c' \<noteq> Some []" using assms by (auto simp: sess_inv_def)
  ultimately show ?thesis using assms(1) by (auto simp: sess_inv_def split: if_splits)
qed

lemma sess_inv_open:
  assumes "sess_inv ss conns" and "jm_get conns k = None"
  shows "sess_inv ss (jm_set k \<lparr>co_sessionId = None, co_open = o1\<rparr> conns)"
  using assms by (auto simp: sess_inv_def split: if_splits) force+

lemma sess_inv_add:
  assumes inv: "sess_inv ss conns" and free: "map_option co_sessionId (jm_get conns k) = Some None"
    and new: "jm_get ss i = None" "i \<noteq> []" and s: "cs_socket s = k" "si_id (cs_info s) = i"
  shows "sess_inv (jm_set i s ss) (jm_set k \<lparr>co_sessionId = Some i, co_open = o1\<rparr> conns)"
proof -
  have other: "cs_socket t \<noteq> k" if "jm_get ss j = Some t" for j t
    using sess_invD(3) [OF inv that] free by auto
  show ?thesis
    using inv new s other by (auto simp: sess_inv_def split: if_splits)
qed

lemma sess_inv_remove:
  assumes inv: "sess_inv ss conns" and own: "map_option co_sessionId (jm_get conns k) = Some (Some i)"
  shows "sess_inv (jm_delete i ss) (jm_set k \<lparr>co_sessionId = None, co_open = o1\<rparr> conns)"
    and "sess_inv (jm_delete i ss) (jm_delete k conns)"
proof -
  have other: "cs_socket t \<noteq> k" if "jm_get ss j = Some t" "j \<noteq> i" for j t
    using sess_invD(3) [OF inv that(1)] own that(2) by auto
  show "sess_inv (jm_delete i ss) (jm_set k \<lparr>co_sessionId = None, co_open = o1\<rparr> conns)"
    using inv other by (auto simp: sess_inv_def split: if_splits)
  show "sess_inv (jm_delete i ss) (jm_delete k conns)"
    using inv other by (auto simp: sess_inv_def split: if_splits)
qed

lemma sess_inv_close_unregistered:
  assumes inv: "sess_inv ss conns" and own: "map_option co_sessionId (jm_get conns k) = Some None"
  shows "sess_inv ss (jm_delete k conns)"
proof -
  have other: "cs_socket t \<noteq> k" if "jm_get ss j = Some t" for j t
    using sess_invD(3) [OF inv that] own by auto
  show ?thesis using inv other by (auto simp: sess_inv_def split: if_splits)
qed

text \<open>Two session tables that differ only in presence.\<close>

definition session_view :: "ic_session \<Rightarrow> nat \<times> jstr \<times> jstr option \<times> jstr option" where
  "session_view s = (cs_socket s, si_id (cs_info s), si_group (cs_info s), cs_supervisorId s)"

definition same_sessions :: "(jstr, ic_session) jmap \<Rightarrow> (jstr, ic_session) jmap \<Rightarrow> bool" where
  "same_sessions ss ss' \<longleftrightarrow> jm_keys ss' = jm_keys ss \<and>
     (\<forall>i. map_option session_view (jm_get ss' i) = map_option session_view (jm_get ss i))"

lemma same_sessionsD:
  assumes "same_sessions ss ss'" and "jm_get ss' i = Some s'"
  shows "\<exists>s. jm_get ss i = Some s \<and> session_view s = session_view s'"
proof -
  have "map_option session_view (jm_get ss i) = Some (session_view s')"
    using assms unfolding same_sessions_def by (metis option.simps(9))
  then show ?thesis by auto
qed

lemma same_sessions_refl [simp]: "same_sessions ss ss"
  by (simp add: same_sessions_def)

lemma same_sessions_trans: "same_sessions a b \<Longrightarrow> same_sessions b c \<Longrightarrow> same_sessions a c"
  by (simp add: same_sessions_def)

lemma sess_inv_same:
  assumes "sess_inv ss conns" and "same_sessions ss ss'"
  shows "sess_inv ss' conns"
proof -
  have wf: "jm_wf ss'" using assms by (simp add: sess_inv_def same_sessions_def)
  have "i \<noteq> [] \<and> si_id (cs_info s') = i \<and> map_option co_sessionId (jm_get conns (cs_socket s')) = Some (Some i)"
    if s': "jm_get ss' i = Some s'" for i s'
  proof -
    obtain s where s: "jm_get ss i = Some s" "session_view s = session_view s'"
      using same_sessionsD [OF assms(2) s'] by blast
    from sess_invD [OF assms(1) s(1)] s(2) show ?thesis by (simp add: session_view_def)
  qed
  with wf assms(1) show ?thesis by (simp add: sess_inv_def)
qed

lemma same_put_info:
  assumes "\<And>x. si_id (f x) = si_id x \<and> si_group (f x) = si_group x"
  shows "same_sessions (ib_sessions b) (ib_sessions (put_info i f b))"
proof (cases "jm_get (ib_sessions b) i")
  case None
  then show ?thesis by (simp add: put_info_def)
next
  case (Some s)
  then have "i \<in> set (jm_keys (ib_sessions b))" by (force dest: map_of_SomeD)
  with assms show ?thesis by (simp add: put_info_def same_sessions_def jm_keys_set Some session_view_def)
qed

lemma same_presence_field:
  assumes "presence_field v f i b = Some b'" and "\<And>s x. si_id (f s x) = si_id x \<and> si_group (f s x) = si_group x"
  shows "same_sessions (ib_sessions b) (ib_sessions b')"
  using assms same_put_info by (auto simp: presence_field_def split: option.splits json.splits)

subsection \<open>Crossings come frm supervisor frames\<close>

definition chan_inv :: "supervisor_channel \<Rightarrow> (jstr \<times> jstr \<times> jstr) set \<Rightarrow> bool" where
  "chan_inv sc past \<longleftrightarrow> jm_wf (sc_crossings sc) \<and>
     (\<forall>mid c. jm_get (sc_crossings sc) mid = Some c \<longrightarrow> (mid, cx_fromId c, cx_toId c) \<in> past)"

lemma chan_inv_mono: "chan_inv sc past \<Longrightarrow> past \<subseteq> past' \<Longrightarrow> chan_inv sc past'"
  by (fastforce simp: chan_inv_def)

lemma chan_inv_crossings: "sc_crossings sc' = sc_crossings sc \<Longrightarrow> chan_inv sc' past \<longleftrightarrow> chan_inv sc past"
  by (simp add: chan_inv_def)

lemma claim_crossings: "sc_crossings (fst (claim sc capability n)) = sc_crossings sc"
  by (simp add: claim_def split: option.splits)

lemma authorize_crossings: "authorize cr u sc i tok n req = Inr (sc', c) \<Longrightarrow> sc_crossings sc' = sc_crossings sc"
  by (auto simp: authorize_def Let_def split: if_splits)

lemma chan_inv_record:
  assumes "chan_inv sc past"
  shows "chan_inv (sc_record sc mid frm tid now) (insert (mid, frm, tid) past)"
proof -
  have wf: "jm_wf (sc_crossings sc)" using assms by (simp add: chan_inv_def)
  show ?thesis
    using assms crossings.remember_wf [OF wf] crossings.remember_only [OF wf]
    by (fastforce simp: chan_inv_def sc_record_def split: if_splits)
qed

lemma matchReply_spec:
  assumes "chan_inv sc past" and "matchReply sc r sender target now = (sc', ok)"
  shows "chan_inv sc' past" and "ok \<Longrightarrow> (r, target, sender) \<in> past"
proof -
  let ?m = "sc_prune (sc_ttlMs sc) now (sc_crossings sc)"
  have wf: "jm_wf (sc_crossings sc)" using assms(1) by (simp add: chan_inv_def)
  have in_past: "(k, cx_fromId c, cx_toId c) \<in> past" if "jm_get ?m k = Some c" for k c
    using crossings.prune_get [OF wf that] assms(1) by (simp add: chan_inv_def)
  show "chan_inv sc' past"
    using assms(2) crossings.prune_wf [OF wf] in_past
    by (auto simp: matchReply_def chan_inv_def Let_def split: option.splits if_splits)
  assume ok
  then obtain c where "jm_get ?m r = Some c" "cx_fromId c = target" "cx_toId c = sender"
    using assms(2) by (auto simp: matchReply_def Let_def split: option.splits if_splits)
  then show "(r, target, sender) \<in> past" using in_past by auto
qed

lemma isVerticalBypass_spec:
  assumes "chan_inv sc past" and "isVerticalBypass sc replyTo sender target now = (sc', ok)"
  shows "chan_inv sc' past" and "ok \<Longrightarrow> \<exists>r. replyTo = Some r \<and> (r, si_id target, si_id sender) \<in> past"
  using assms matchReply_spec [OF assms(1)]
  by (auto simp: isVerticalBypass_def split: option.splits if_splits)

subsection \<open>Delivering\<close>

text \<open>Why a message may be written: a reply to a crossing, a supervisor frame, or the same group.\<close>

definition may_deliver :: "(jstr \<times> jstr \<times> jstr) set \<Rightarrow> session_info \<Rightarrow> session_info \<Rightarrow> json \<Rightarrow> bool \<Rightarrow> bool" where
  "may_deliver past frm target m supervisorSend \<longleftrightarrow>
     sameGroup frm target \<or> supervisorSend \<or>
     (\<exists>r. message_replyTo m = Some r \<and> (r, si_id target, si_id frm) \<in> past)"

lemma sameGroup_sym: "sameGroup a b \<longleftrightarrow> sameGroup b a"
  by (auto simp: sameGroup_def)

lemma deliver_to_spec:
  assumes chan: "chan_inv (ib_supervisors b) past"
    and d: "deliver_to b socket sender target viaSup m signature attemptId now = (b', effs)"
  shows "ib_sessions b' = ib_sessions b"
    and "chan_inv (ib_supervisors b')
           (past \<union> (if viaSup \<and> (\<exists>k frm m. IC_Write k (IB_Message frm m True) \<in> set effs)
                    then {(message_id m, si_id (cs_info sender), si_id (cs_info target))} else {}))"
    and "IC_Write k (IB_Message frm m' s') \<in> set effs \<Longrightarrow>
           k = cs_socket target \<and> frm = cs_info sender \<and> m' = m \<and> s' = viaSup \<and>
           si_id (cs_info target) \<noteq> si_id frm \<and> may_deliver past frm (cs_info target) m viaSup"
proof -
  obtain sc bypass where v: "(if viaSup then (ib_supervisors b, True)
      else isVerticalBypass (ib_supervisors b) (message_replyTo m) (cs_info sender) (cs_info target) now) = (sc, bypass)"
    by (metis prod.exhaust)
  have sc: "chan_inv sc past"
    using v chan isVerticalBypass_spec(1) [OF chan] by (auto split: if_splits)
  have ok: "may_deliver past (cs_info sender) (cs_info target) m viaSup" if "bypass \<or> sameGroup (cs_info target) (cs_info sender)"
    using v that isVerticalBypass_spec(2) [OF chan]
    by (cases viaSup) (auto simp: may_deliver_def sameGroup_sym)
  show "ib_sessions b' = ib_sessions b" using d v by (auto simp: deliver_to_def Let_def split: if_splits prod.splits)
  show "chan_inv (ib_supervisors b')
           (past \<union> (if viaSup \<and> (\<exists>k frm m. IC_Write k (IB_Message frm m True) \<in> set effs)
                    then {(message_id m, si_id (cs_info sender), si_id (cs_info target))} else {}))"
    using d chan sc chan_inv_record [OF sc]
    by (auto simp: deliver_to_def v send_failed_def split: if_splits)
  show "IC_Write k (IB_Message frm m' s') \<in> set effs \<Longrightarrow>
           k = cs_socket target \<and> frm = cs_info sender \<and> m' = m \<and> s' = viaSup \<and>
           si_id (cs_info target) \<noteq> si_id frm \<and> may_deliver past frm (cs_info target) m viaSup"
    using d ok by (auto simp: deliver_to_def v send_failed_def split: if_splits)
qed

text \<open>A delivered frame: who sent it, to whom, and why it was allowed.\<close>

definition delivered_to ::
  "(jstr, ic_session) jmap \<Rightarrow> (jstr \<times> jstr \<times> jstr) set \<Rightarrow> jstr option \<Rightarrow> nat \<Rightarrow> session_info \<Rightarrow> json \<Rightarrow> bool
     \<Rightarrow> ic_session \<Rightarrow> ic_session \<Rightarrow> bool" where
  "delivered_to ss past currentId k frm m viaSup sender t \<longleftrightarrow>
     Option.bind currentId (jm_get ss) = Some sender \<and> cs_info sender = frm \<and>
     jm_get ss (si_id (cs_info t)) = Some t \<and> cs_socket t = k \<and> si_id (cs_info t) \<noteq> si_id frm \<and>
     may_deliver past frm (cs_info t) m viaSup \<and>
     (viaSup \<longrightarrow> (\<exists>sid. cs_supervisorId sender = Some sid \<and> (si_id (cs_info t) = sid \<or> jm_get ss sid = None)))"

definition frames_in :: "(jstr, ic_session) jmap \<Rightarrow> ic_effect list \<Rightarrow> (jstr \<times> jstr \<times> jstr) set" where
  "frames_in ss effs =
     {(message_id m, si_id frm, tid) |m frm tid k t.
        IC_Write k (IB_Message frm m True) \<in> set effs \<and> jm_get ss tid = Some t \<and> cs_socket t = k}"

lemma supervisor_frames_eq: "supervisor_frames sys effs = frames_in (ib_sessions (is_broker sys)) effs"
  by (simp add: supervisor_frames_def frames_in_def)

lemma resolution_exact:
  assumes "jm_get (ib_sessions b) x = Some s"
  shows "send_resolution lower b sender a x = Resolved (cs_info s)"
  using assms by (simp add: send_resolution_def)

lemma route_send_spec:
  assumes inv: "sess_inv (ib_sessions b) conns" and chan: "chan_inv (ib_supervisors b) past"
    and r: "route_send lower b socket currentId viaSup target m signature attemptId now = (b', effs)"
  shows "ib_sessions b' = ib_sessions b"
    and "chan_inv (ib_supervisors b') (past \<union> frames_in (ib_sessions b) effs)"
    and "IC_Write k (IB_Message frm m' s') \<in> set effs \<Longrightarrow>
           \<exists>sender t. s' = viaSup \<and> m' = m \<and> delivered_to (ib_sessions b) past currentId k frm m viaSup sender t"
proof -
  let ?ss = "ib_sessions b"
  have main: "ib_sessions b' = ?ss \<and> chan_inv (ib_supervisors b') (past \<union> frames_in ?ss effs) \<and>
     (\<forall>k frm m' s'. IC_Write k (IB_Message frm m' s') \<in> set effs \<longrightarrow>
        (\<exists>sender t. s' = viaSup \<and> m' = m \<and> delivered_to ?ss past currentId k frm m viaSup sender t))"
  proof (cases "\<exists>reason. b' = b \<and> effs = [send_failed socket (message_id m) attemptId reason]")
    case True
    then show ?thesis using chan_inv_mono [OF chan] by (auto simp: send_failed_def frames_in_def)
  next
    case False
    then obtain sender info t where sender: "Option.bind currentId (jm_get ?ss) = Some sender"
      and sup: "viaSup \<Longrightarrow> Some (js_trim target) = cs_supervisorId sender"
      and res: "send_resolution lower b (cs_info sender)
                  (viaSup \<or> truthy_string (message_replyTo m)) (js_trim target) = Resolved info"
      and t: "jm_get ?ss (si_id info) = Some t"
      and d: "deliver_to b socket sender t viaSup m signature attemptId now = (b', effs)"
      using r by (auto simp: route_send_def Let_def split: option.splits resolution.splits if_splits)
    note D = deliver_to_spec [OF chan d]
    have tid: "jm_get ?ss (si_id (cs_info t)) = Some t"
      using t sess_invD(2) [OF inv t] by simp
    have target_ok: "\<exists>sid. cs_supervisorId sender = Some sid \<and> (si_id (cs_info t) = sid \<or> jm_get ?ss sid = None)"
      if "viaSup"
    proof (cases "jm_get ?ss (js_trim target)")
      case None
      with sup [OF that] show ?thesis by (intro exI [of _ "js_trim target"]) simp
    next
      case (Some exact)
      with res t sess_invD(2) [OF inv Some] sess_invD(2) [OF inv t] sup [OF that] show ?thesis
        by (intro exI [of _ "js_trim target"]) (simp add: resolution_exact)
    qed
    have writes: "\<exists>sender t. s' = viaSup \<and> m' = m \<and> delivered_to ?ss past currentId k frm m viaSup sender t"
      if "IC_Write k (IB_Message frm m' s') \<in> set effs" for k frm m' s'
      using D(3) [OF that] sender tid target_ok
      by (intro exI [of _ sender] exI [of _ t]) (auto simp: delivered_to_def)
    have "(if viaSup \<and> (\<exists>k frm m. IC_Write k (IB_Message frm m True) \<in> set effs)
        then {(message_id m, si_id (cs_info sender), si_id (cs_info t))} else {}) \<subseteq> frames_in ?ss effs"
    proof (cases "\<exists>k frm m. IC_Write k (IB_Message frm m True) \<in> set effs")
      case True
      then obtain k frm m0 where w: "IC_Write k (IB_Message frm m0 True) \<in> set effs" by blast
      with D(3) [OF w] tid have "(message_id m, si_id (cs_info sender), si_id (cs_info t)) \<in> frames_in ?ss effs"
        unfolding frames_in_def by blast
      then show ?thesis by simp
    qed simp
    then have "chan_inv (ib_supervisors b') (past \<union> frames_in ?ss effs)"
      using chan_inv_mono [OF D(2)] by blast
    with D(1) writes show ?thesis by blast
  qed
  then show "ib_sessions b' = ?ss" "chan_inv (ib_supervisors b') (past \<union> frames_in ?ss effs)" by blast+
  show "\<exists>sender t. s' = viaSup \<and> m' = m \<and> delivered_to ?ss past currentId k frm m viaSup sender t"
    if "IC_Write k (IB_Message frm m' s') \<in> set effs"
    using main that by blast
qed

lemma check_send_reply: "check_send socket msg = Inl e \<Longrightarrow> \<exists>i r a. e = IC_Write socket (IB_DeliveryFailed i r a)"
  by (auto simp: check_send_def send_failed_def Let_def split: if_splits option.splits)

lemma handleBrokerSend_spec:
  assumes inv: "sess_inv (ib_sessions b) conns" and chan: "chan_inv (ib_supervisors b) past"
    and r: "handleBrokerSend lower b socket msg currentId now = (b', effs)"
  shows "ib_sessions b' = ib_sessions b"
    and "chan_inv (ib_supervisors b') (past \<union> frames_in (ib_sessions b) effs)"
    and "IC_Write k (IB_Message frm m s') \<in> set effs \<Longrightarrow>
           \<exists>sender t. delivered_to (ib_sessions b) past currentId k frm m s' sender t"
proof -
  let ?ss = "ib_sessions b"
  have main: "ib_sessions b' = ?ss \<and> chan_inv (ib_supervisors b') (past \<union> frames_in ?ss effs) \<and>
     (\<forall>k frm m s'. IC_Write k (IB_Message frm m s') \<in> set effs \<longrightarrow>
        (\<exists>sender t. delivered_to ?ss past currentId k frm m s' sender t))"
  proof (cases "check_send socket msg")
    case (Inl e)
    then show ?thesis using r check_send_reply [OF Inl] chan_inv_mono [OF chan]
      by (auto simp: handleBrokerSend_def frames_in_def)
  next
    case (Inr x)
    obtain target m0 attemptId where x: "x = (target, m0, attemptId)" by (cases x)
    let ?sig = "buildMessageSendSignature target m0"
    obtain dc found where l: "dc_lookup (ib_delivered b) (message_id m0) ?sig now = (dc, found)"
      by (cases "dc_lookup (ib_delivered b) (message_id m0) ?sig now")
    let ?b = "b\<lparr>ib_delivered := dc\<rparr>"
    show ?thesis
    proof (cases "found = Miss")
      case True
      have route: "route_send lower ?b socket currentId (jstring (jfield msg ''type'') = Some (js ''supervisor_send''))
          target m0 ?sig attemptId now = (b', effs)"
        using r by (simp add: handleBrokerSend_def Inr x l True Let_def)
      from inv have inv': "sess_inv (ib_sessions ?b) conns" by simp
      from chan have chan': "chan_inv (ib_supervisors ?b) past" by simp
      note R = route_send_spec [OF inv' chan' route]
      show ?thesis using R(1,2) R(3) by simp blast
    next
      case False
      then show ?thesis using r chan_inv_mono [OF chan]
        by (cases found) (auto simp: handleBrokerSend_def Inr x l send_failed_def frames_in_def Let_def)
    qed
  qed
  then show "ib_sessions b' = ?ss" "chan_inv (ib_supervisors b') (past \<union> frames_in ?ss effs)" by blast+
  show "\<exists>sender t. delivered_to ?ss past currentId k frm m s' sender t"
    if "IC_Write k (IB_Message frm m s') \<in> set effs"
    using main that by blast
qed

subsection \<open>One message\<close>

definition no_messages :: "ic_effect list \<Rightarrow> bool" where
  "no_messages effs \<longleftrightarrow> (\<forall>k f m s. IC_Write k (IB_Message f m s) \<notin> set effs)"

lemma no_messages_frames: "no_messages effs \<Longrightarrow> frames_in ss effs = {}"
  by (auto simp: no_messages_def frames_in_def)

lemma no_messages_simps [simp]:
  "no_messages []" "no_messages (e # es) \<longleftrightarrow> (\<forall>k f m s. e \<noteq> IC_Write k (IB_Message f m s)) \<and> no_messages es"
  "no_messages (es @ fs) \<longleftrightarrow> no_messages es \<and> no_messages fs"
  by (auto simp: no_messages_def)

lemma no_messages_broadcast:
  assumes "\<And>f m s. msg \<noteq> IB_Message f m s"
  shows "no_messages (broadcastToGroup b msg g x)"
  using assms by (auto simp: no_messages_def broadcastToGroup_def)

lemma no_messages_drop: "no_messages (snd (drop_session b i))"
  by (simp add: drop_session_def Let_def no_messages_broadcast)

lemma drop_session_sessions [simp]:
  "ib_sessions (fst (drop_session b i)) = jm_delete i (ib_sessions b)"
  "ib_supervisors (fst (drop_session b i)) = ib_supervisors b"
  by (simp_all add: drop_session_def Let_def ic_scheduleShutdownCheck_def)

lemma claim_supervisor_keeps:
  "claim_supervisor b session v = (b', r) \<Longrightarrow> ib_sessions b' = ib_sessions b \<and>
     sc_crossings (ib_supervisors b') = sc_crossings (ib_supervisors b)"
  using claim_crossings
  by (auto simp: claim_supervisor_def Let_def split: option.splits if_splits prod.splits) (metis fst_conv)+

text \<open>What a handler other than send leaves: sessions and crossings as before, and no message written.\<close>

lemma si_id_session_of [simp]: "si_id (session_of v i) = i"
  by (simp add: session_of_def Let_def)

lemma handle_register_cases:
  assumes "handle_register b k msg cur uuid = (b', cur', effs, err)"
  shows "sc_crossings (ib_supervisors b') = sc_crossings (ib_supervisors b) \<and> no_messages effs \<and>
    (cur' = cur \<and> ib_sessions b' = ib_sessions b \<or>
     \<not> truthy_string cur \<and> cur' = Some uuid \<and>
     (\<exists>s. ib_sessions b' = jm_set uuid s (ib_sessions b) \<and> cs_socket s = k \<and> si_id (cs_info s) = uuid))"
proof (cases "jfield msg ''session''")
  case None
  then show ?thesis using assms by (simp add: handle_register_def throws_def)
next
  case (Some session)
  note run = assms [unfolded handle_register_def throws_def Some option.case]
  obtain b1 r where cl: "claim_supervisor b session (jfield msg ''supervisor'') = (b1, r)"
    by (cases "claim_supervisor b session (jfield msg ''supervisor'')")
  note keeps = claim_supervisor_keeps [OF cl]
  show ?thesis
  proof (cases "isSessionRegistration session \<and>
      \<not> (jfield msg ''supervisorOwnerToken'' \<noteq> None \<and> \<not> truthy_string (jstring (jfield msg ''supervisorOwnerToken''))) \<and>
      \<not> truthy_string cur")
    case False
    with run have "cur' = cur \<and> b' = b \<and> effs = []" by (simp split: if_splits)
    then show ?thesis by simp
  next
    case True
    note cur = True [THEN conjunct2, THEN conjunct2]
    from run True have run': "(b', cur', effs, err) =
      (case (b1, r) of
         (b', Inl _) \<Rightarrow>
           (b', cur, [IC_Write k (IB_RegistrationFailed (js ''Invalid supervisor authorization'')), IC_End k], None)
       | (b', Inr supervisorId) \<Rightarrow>
           (let info = session_of session uuid;
                b'' = b'\<lparr>ib_sessions := jm_set uuid
                          \<lparr>cs_socket = k, cs_info = info, cs_supervisorId = supervisorId,
                           cs_supervisorOwnerToken = jstring (jfield msg ''supervisorOwnerToken'')\<rparr>
                          (ib_sessions b'),
                         ib_shutdownTimer := False\<rparr>
            in (b'', Some uuid,
                IC_Write k (IB_Registered uuid supervisorId)
                # broadcastToGroup b'' (IB_SessionJoined info) (si_group info) uuid, None)))"
      by (simp only: cl if_True if_False simp_thms)
    show ?thesis
    proof (cases r)
      case (Inl u)
      with run' keeps show ?thesis by simp
    next
      case (Inr supervisorId)
      with run' keeps cur show ?thesis by (auto simp: Let_def no_messages_broadcast)
    qed
  qed
qed

lemma handle_register_spec:
  assumes inv: "sess_inv (ib_sessions b) conns" and k: "map_option co_sessionId (jm_get conns k) = Some cur"
    and new: "uuid \<noteq> []" "jm_get (ib_sessions b) uuid = None"
    and h: "handle_register b k msg cur uuid = (b', cur', effs, err)"
  shows "sess_inv (ib_sessions b') (jm_set k \<lparr>co_sessionId = cur', co_open = o1\<rparr> conns)"
proof -
  obtain c where c: "jm_get conns k = Some c" "co_sessionId c = cur" using k by auto
  have "cur = None" if "\<not> truthy_string cur"
    using that inv c by (auto simp: sess_inv_def truthy_string_def)
  then show ?thesis
    using handle_register_cases [OF h] sess_inv_conn_same [OF inv c(1)] c(2) sess_inv_add [OF inv] k new by auto
qed

lemma presence_field_spec:
  assumes "presence_field v f i b = Some b'" and "\<And>s x. si_id (f s x) = si_id x \<and> si_group (f s x) = si_group x"
  shows "same_sessions (ib_sessions b) (ib_sessions b') \<and> ib_supervisors b' = ib_supervisors b"
proof -
  have "ib_supervisors (put_info i (f s) b) = ib_supervisors b" for s
    by (simp add: put_info_def split: option.split)
  then show ?thesis using assms same_put_info
    by (auto simp: presence_field_def split: option.splits json.splits)
qed

lemma handle_presence_cases:
  assumes "handle_presence b msg i now = (b', cur', effs, err)"
  shows "same_sessions (ib_sessions b) (ib_sessions b') \<and> ib_supervisors b' = ib_supervisors b \<and>
    cur' = Some i \<and> no_messages effs"
proof (cases "jm_get (ib_sessions b) i")
  case None
  then show ?thesis using assms by (simp add: handle_presence_def)
next
  case (Some s)
  let ?P = "\<lambda>b'. same_sessions (ib_sessions b) (ib_sessions b') \<and> ib_supervisors b' = ib_supervisors b"
  have step: "?P c'" if "?P c" and "presence_field v f i c = Some c'"
    and "\<And>s x. si_id (f s x) = si_id x \<and> si_group (f s x) = si_group x" for c c' v f
    using that(1) presence_field_spec [OF that(2,3)] same_sessions_trans by auto
  have quiet: "no_messages (case jm_get ss j of None \<Rightarrow> [] | Some s \<Rightarrow> broadcastToGroup c (IB_PresenceUpdate (cs_info s)) (g s) j)"
    for ss j c and g :: "ic_session \<Rightarrow> jstr option"
    by (simp add: no_messages_broadcast split: option.split)
  note run = assms [unfolded handle_presence_def throws_def Let_def]
  show ?thesis
  proof (cases "presence_field (jfield msg ''name'') (\<lambda>s. si_name_update (\<lambda>_. Some s)) i b")
    case None
    then show ?thesis using run Some by simp
  next
    case (Some b1)
    have p1: "?P b1" by (rule step [OF _ Some]) simp_all
    show ?thesis
    proof (cases "presence_field (jfield msg ''status'') (\<lambda>s. si_status_update (\<lambda>_. Some s)) i b1")
      case None
      then show ?thesis using run \<open>jm_get (ib_sessions b) i = Some s\<close> Some p1 by auto
    next
      case (Some b2)
      have p2: "?P b2" by (rule step [OF p1 Some]) simp
      show ?thesis
      proof (cases "presence_field (jfield msg ''model'') (\<lambda>s. si_model_update (\<lambda>_. s)) i b2")
        case None
        then show ?thesis using run \<open>jm_get (ib_sessions b) i = Some s\<close> Some p2
            \<open>presence_field (jfield msg ''name'') (\<lambda>s. si_name_update (\<lambda>_. Some s)) i b = Some b1\<close> by auto
      next
        case (Some b3)
        have p3: "?P b3" by (rule step [OF p2 Some]) simp
        let ?b4 = "put_info i (si_lastActivity_update (\<lambda>_. JFinite (of_int now))) b3"
        have "same_sessions (ib_sessions b3) (ib_sessions ?b4)" by (rule same_put_info) simp
        moreover have "ib_supervisors ?b4 = ib_supervisors b3" by (simp add: put_info_def split: option.split)
        moreover have "b' = ?b4 \<and> cur' = Some i \<and> no_messages effs"
          using run \<open>jm_get (ib_sessions b) i = Some s\<close> Some quiet
            \<open>presence_field (jfield msg ''name'') (\<lambda>s. si_name_update (\<lambda>_. Some s)) i b = Some b1\<close>
            \<open>presence_field (jfield msg ''status'') (\<lambda>s. si_status_update (\<lambda>_. Some s)) i b1 = Some b2\<close>
          by auto
        ultimately show ?thesis using p3 same_sessions_trans by auto
      qed
    qed
  qed
qed

lemma handle_list_cases:
  assumes "handle_list b k msg i = (b', cur', effs, err)"
  shows "b' = b \<and> cur' = Some i \<and> no_messages effs"
  using assms by (auto simp: handle_list_def throws_def Let_def split: option.splits if_splits)

lemma handle_authorize_cases:
  assumes "handle_authorize cr b k msg i uuid = (b', cur', effs, err)"
  shows "ib_sessions b' = ib_sessions b \<and> sc_crossings (ib_supervisors b') = sc_crossings (ib_supervisors b) \<and>
    cur' = Some i \<and> no_messages effs"
  using assms
  by (auto simp: handle_authorize_def throws_def dest: authorize_crossings
      split: option.splits if_splits sum.splits prod.splits)

lemma ic_handleMessage_spec:
  assumes inv: "sess_inv (ib_sessions b) conns" and chan: "chan_inv (ib_supervisors b) past"
    and k: "map_option co_sessionId (jm_get conns k) = Some cur"
    and new: "uuid \<noteq> []" "jm_get (ib_sessions b) uuid = None"
    and h: "ic_handleMessage cr lower b k msg cur uuid now = (b', cur', effs, err)"
  shows "sess_inv (ib_sessions b') (jm_set k \<lparr>co_sessionId = cur', co_open = o1\<rparr> conns) \<and>
    chan_inv (ib_supervisors b') (past \<union> frames_in (ib_sessions b) effs) \<and>
    (\<forall>j frm m s. IC_Write j (IB_Message frm m s) \<in> set effs \<longrightarrow>
       (\<exists>sender t. delivered_to (ib_sessions b) past cur j frm m s sender t))"
proof -
  let ?goal = "\<lambda>b' cur' effs. sess_inv (ib_sessions b') (jm_set k \<lparr>co_sessionId = cur', co_open = o1\<rparr> conns) \<and>
    chan_inv (ib_supervisors b') (past \<union> frames_in (ib_sessions b) effs) \<and>
    (\<forall>j frm m s. IC_Write j (IB_Message frm m s) \<in> set effs \<longrightarrow>
       (\<exists>sender t. delivered_to (ib_sessions b) past cur j frm m s sender t))"
  obtain c where c: "jm_get conns k = Some c" "co_sessionId c = cur" using k by auto
  have keep: "sess_inv ss (jm_set k \<lparr>co_sessionId = cur, co_open = o1\<rparr> conns)" if "sess_inv ss conns" for ss
    using sess_inv_conn_same [OF that c(1)] c(2) by simp
  have plain: "?goal b1 cur1 effs1"
    if "sess_inv (ib_sessions b1) (jm_set k \<lparr>co_sessionId = cur1, co_open = o1\<rparr> conns)"
      and "sc_crossings (ib_supervisors b1) = sc_crossings (ib_supervisors b)" and "no_messages effs1" for b1 cur1 effs1
    using that chan chan_inv_crossings [OF that(2)]
    by (simp add: no_messages_frames) (simp add: no_messages_def)
  have thrown: "?goal b' cur' effs" if "throws b cur e = (b', cur', effs, err)" for e
    using that plain [of b cur "[]"] keep [OF inv] by (simp add: throws_def)
  show ?thesis
  proof (cases "jstring (jfield msg ''type'')")
    case None
    with h thrown show ?thesis by (simp add: ic_handleMessage_def)
  next
    case (Some t)
    note run = h [unfolded ic_handleMessage_def Some option.case]
    show ?thesis
    proof (cases "t = js ''register''")
      case True
      with run have r: "handle_register b k msg cur uuid = (b', cur', effs, err)" by simp
      show ?thesis
        using plain handle_register_cases [OF r] handle_register_spec [OF inv k new r] by blast
    next
      case reg: False
      show ?thesis
      proof (cases cur)
        case None
        with run reg thrown show ?thesis by simp
      next
        case (Some i)
        consider "t = js ''unregister''" | "t = js ''list''" | "t = js ''authorize_supervisor''"
          | "t = js ''send'' \<or> t = js ''supervisor_send''" | "t = js ''presence''"
          | "t \<notin> {js ''unregister'', js ''list'', js ''authorize_supervisor'', js ''send'',
               js ''supervisor_send'', js ''presence''}" by blast
        then show ?thesis
        proof cases
          case 1
          with run Some have "(b', effs) = drop_session b i" "cur' = None"
            by (auto split: prod.splits)
          then show ?thesis
            using plain [of b' cur' effs] sess_inv_remove(1) [OF inv, of k i] k Some no_messages_drop [of b i]
              drop_session_sessions [of b i] by (simp add: prod_eq_iff)
        next
          case 2
          with run Some have "handle_list b k msg i = (b', cur', effs, err)" by simp
          then show ?thesis using plain handle_list_cases keep [OF inv] Some by blast
        next
          case 3
          with run Some have "handle_authorize cr b k msg i uuid = (b', cur', effs, err)" by simp
          then show ?thesis using plain handle_authorize_cases keep [OF inv] Some by metis
        next
          case 4
          with run Some have s: "handleBrokerSend lower b k msg cur now = (b', effs)" and "cur' = cur"
            by (auto split: prod.splits)
          note S = handleBrokerSend_spec [OF inv chan s]
          show ?thesis using S keep [OF inv] \<open>cur' = cur\<close> by auto
        next
          case 5
          with run Some have "handle_presence b msg i now = (b', cur', effs, err)" by simp
          from handle_presence_cases [OF this] show ?thesis
            using plain keep sess_inv_same [OF inv] Some by metis
        next
          case 6
          with run reg Some thrown show ?thesis by simp
        qed
      qed
    qed
  qed
qed

subsection \<open>One step\<close>

definition sys_inv_ic :: "ic_system \<Rightarrow> (jstr \<times> jstr \<times> jstr) set \<Rightarrow> bool" where
  "sys_inv_ic sys past \<longleftrightarrow>
     sess_inv (ib_sessions (is_broker sys)) (is_conns sys) \<and> chan_inv (ib_supervisors (is_broker sys)) past"

text \<open>The session registered on the connection an event arrives on.\<close>

fun event_session :: "ic_system \<Rightarrow> ic_event \<Rightarrow> jstr option" where
  "event_session sys (IcMessage k msg uuid now) = Option.bind (jm_get (is_conns sys) k) co_sessionId"
| "event_session sys _ = None"

definition step_delivers ::
  "ic_system \<Rightarrow> (jstr \<times> jstr \<times> jstr) set \<Rightarrow> ic_event \<Rightarrow> ic_effect list \<Rightarrow> bool" where
  "step_delivers sys past ev effs \<longleftrightarrow>
     (\<forall>j frm m s. IC_Write j (IB_Message frm m s) \<in> set effs \<longrightarrow>
       (\<exists>sender t. delivered_to (ib_sessions (is_broker sys)) past (event_session sys ev) j frm m s sender t))"

lemma ic_step_spec:
  assumes inv: "sys_inv_ic sys past" and fresh: "fresh_event sys ev" and st: "ic_step cr lower sys ev = (sys', effs)"
  shows "sys_inv_ic sys' (past \<union> supervisor_frames sys effs) \<and> step_delivers sys past ev effs"
proof -
  have sess: "sess_inv (ib_sessions (is_broker sys)) (is_conns sys)"
    and chan: "chan_inv (ib_supervisors (is_broker sys)) past" using inv by (simp_all add: sys_inv_ic_def)
  have same: "sys_inv_ic sys (past \<union> supervisor_frames sys []) \<and> step_delivers sys past ev []"
    using inv by (simp add: supervisor_frames_def step_delivers_def)
  have quiet: "supervisor_frames sys es = {} \<and> step_delivers sys past ev es" if "no_messages es" for es
    using no_messages_frames [OF that] that
    by (simp add: supervisor_frames_eq step_delivers_def no_messages_def)
  have down: "sys_inv_ic (fst (ic_shutdown s)) past \<and> no_messages (snd (ic_shutdown s))" if "sys_inv_ic s past" for s
    using that sess_inv_Nil by (auto simp: ic_shutdown_def sys_inv_ic_def no_messages_def)
  show ?thesis
  proof (cases ev)
    case (IcOpen k)
    then show ?thesis using st same quiet [of "[]"] sess_inv_open [OF sess] chan
      by (auto simp: sys_inv_ic_def split: if_splits)
  next
    case (IcMessage k msg uuid now)
    show ?thesis
    proof (cases "\<exists>conn. jm_get (is_conns sys) k = Some conn \<and> \<not> is_exited sys \<and> co_open conn")
      case False
      then show ?thesis using st same by (auto simp: IcMessage split: option.splits if_splits)
    next
      case True
      then obtain conn where conn: "jm_get (is_conns sys) k = Some conn" "\<not> is_exited sys" "co_open conn" by blast
      obtain b i es err where h: "ic_handleMessage cr lower (is_broker sys) k msg (co_sessionId conn) uuid now = (b, i, es, err)"
        by (metis prod_cases4)
      have new: "uuid \<noteq> []" "jm_get (ib_sessions (is_broker sys)) uuid = None"
        using fresh by (simp_all add: IcMessage)
      have k: "map_option co_sessionId (jm_get (is_conns sys) k) = Some (co_sessionId conn)" using conn by simp
      note H = ic_handleMessage_spec [OF sess chan k new h, of "err = None"]
      have effs: "effs = es @ (if err = None then [] else [IC_Destroy k])"
        and sys': "is_broker sys' = b" "is_conns sys' = jm_set k \<lparr>co_sessionId = i, co_open = (err = None)\<rparr> (is_conns sys)"
        using st conn by (auto simp: IcMessage ic_receive_def h)
      have writes: "IC_Write j f \<in> set effs \<longleftrightarrow> IC_Write j f \<in> set es" for j f by (simp add: effs)
      have "supervisor_frames sys effs = frames_in (ib_sessions (is_broker sys)) es"
        by (simp add: supervisor_frames_def frames_in_def writes)
      moreover have "event_session sys ev = co_sessionId conn" using conn by (simp add: IcMessage)
      ultimately show ?thesis using H unfolding sys_inv_ic_def step_delivers_def sys' writes by metis
    qed
  next
    case (IcGarbage k)
    then show ?thesis using st same quiet [of "[IC_Destroy k]"] sess_inv_conn_same [OF sess] chan
      by (auto simp: sys_inv_ic_def split: option.splits if_splits)
  next
    case (IcClose k)
    show ?thesis
    proof (cases "\<exists>conn. jm_get (is_conns sys) k = Some conn \<and> \<not> is_exited sys")
      case False
      then show ?thesis using st same by (auto simp: IcClose split: option.splits if_splits)
    next
      case True
      then obtain conn where conn: "jm_get (is_conns sys) k = Some conn" "\<not> is_exited sys" by blast
      show ?thesis
      proof (cases "co_sessionId conn")
        case None
        then show ?thesis using st conn chan sess_inv_close_unregistered [OF sess, of k] quiet [of "[]"]
          by (auto simp: IcClose ic_handleClose_def sys_inv_ic_def)
      next
        case (Some i)
        then have "i \<noteq> []" using sess conn by (auto simp: sess_inv_def)
        obtain b' es where d: "drop_session (is_broker sys) i = (b', es)" by (cases "drop_session (is_broker sys) i")
        have eq: "effs = es" "is_broker sys' = b'" "is_conns sys' = jm_delete k (is_conns sys)"
          using st conn Some \<open>i \<noteq> []\<close> by (auto simp: IcClose ic_handleClose_def d)
        show ?thesis
          using chan conn(1) Some sess_inv_remove(2) [OF sess, of k i] no_messages_drop [of "is_broker sys" i]
            drop_session_sessions [of "is_broker sys" i] quiet [of es]
          by (simp add: eq d sys_inv_ic_def)
      qed
    qed
  next
    case IcTimer
    have t: "sys_inv_ic (sys\<lparr>is_broker := (is_broker sys)\<lparr>ib_shutdownTimer := False\<rparr>\<rparr>) past"
      using inv by (simp add: sys_inv_ic_def)
    show ?thesis using st same down [OF t] quiet quiet [of "[]"] t
      by (auto simp: IcTimer ic_idle_check_def Let_def prod_eq_iff split: if_splits)
  next
    case IcSignal
    then show ?thesis using st same down [OF inv] quiet by (auto simp: prod_eq_iff split: if_splits)
  qed
qed

lemma ic_reach_inv: "ic_reach cr lower sys past \<Longrightarrow> sys_inv_ic sys past"
proof (induction rule: ic_reach.induct)
  case reach_start
  show ?case by (simp add: sys_inv_ic_def ic_started_def ic_broker_new_def sc_new_def sess_inv_def chan_inv_def)
next
  case (reach_step sys past ev sys' effs)
  then show ?case using ic_step_spec by blast
qed

end
