(* ===== verification/Intercom_Runs.thy ===== *)
theory Intercom_Runs
  imports Intercom_Isolation
begin

text \<open>
  Runs of the intercom broker on concrete clients, and the guarantees of the broker as properties.
\<close>

subsection \<open>Runs\<close>

fun ic_run :: "crypto \<Rightarrow> (jstr \<Rightarrow> jstr) \<Rightarrow> ic_system \<Rightarrow> ic_event list \<Rightarrow> ic_system" where
  "ic_run cr lower sys [] = sys"
| "ic_run cr lower sys (ev # evs) = ic_run cr lower (fst (ic_step cr lower sys ev)) evs"

fun fresh_run :: "crypto \<Rightarrow> (jstr \<Rightarrow> jstr) \<Rightarrow> ic_system \<Rightarrow> ic_event list \<Rightarrow> bool" where
  "fresh_run cr lower sys [] = True"
| "fresh_run cr lower sys (ev # evs) =
     (fresh_event sys ev \<and> fresh_run cr lower (fst (ic_step cr lower sys ev)) evs)"

lemma ic_reach_run:
  "ic_reach cr lower sys past \<Longrightarrow> fresh_run cr lower sys evs \<Longrightarrow> \<exists>past'. ic_reach cr lower (ic_run cr lower sys evs) past'"
proof (induction evs arbitrary: sys past)
  case (Cons ev evs)
  from Cons.prems have "ic_reach cr lower (fst (ic_step cr lower sys ev)) (past \<union> supervisor_frames sys (snd (ic_step cr lower sys ev)))"
    by (intro reach_step) auto
  from Cons.IH [OF this] Cons.prems show ?case by auto
qed auto

text \<open>Example clients: a registration, a send.\<close>

definition demo_crypto :: crypto where
  "demo_crypto = \<lparr>cr_mac = (\<lambda>key text. [1]), cr_encode = (\<lambda>bytes. js ''m''), cr_decode = (\<lambda>s. [1])\<rparr>"

definition demo_session :: "string \<Rightarrow> string \<Rightarrow> json" where
  "demo_session name grp = JObj [(js ''cwd'', JStr []), (js ''model'', JStr []), (js ''pid'', JNum JNonFinite),
     (js ''startedAt'', JNum JNonFinite), (js ''lastActivity'', JNum JNonFinite), (js ''name'', JStr (js name)),
     (js ''group'', JStr (js grp))]"

definition demo_register :: "string \<Rightarrow> string \<Rightarrow> json" where
  "demo_register name grp = JObj [(js ''type'', JStr (js ''register'')), (js ''session'', demo_session name grp)]"

definition demo_body :: "string \<Rightarrow> json" where
  "demo_body mid = JObj [(js ''id'', JStr (js mid)), (js ''timestamp'', JNum JNonFinite),
     (js ''content'', JObj [(js ''text'', JStr (js ''hi''))])]"

definition demo_send :: "string \<Rightarrow> string \<Rightarrow> string \<Rightarrow> json" where
  "demo_send kind target mid = JObj [(js ''type'', JStr (js kind)), (js ''to'', JStr (js target)),
     (js ''message'', demo_body mid)]"

definition demo_info :: "string \<Rightarrow> string \<Rightarrow> string \<Rightarrow> session_info" where
  "demo_info i name grp = \<lparr>si_id = js i, si_name = Some (js name), si_cwd = [], si_model = [],
     si_pid = JNonFinite, si_startedAt = JNonFinite, si_lastActivity = JNonFinite, si_status = None,
     si_group = Some (js grp)\<rparr>"

definition demo_member :: "nat \<Rightarrow> string \<Rightarrow> string \<Rightarrow> string \<Rightarrow> jstr option \<Rightarrow> jstr option \<Rightarrow> ic_session" where
  "demo_member k i name grp supv token =
     \<lparr>cs_socket = k, cs_info = demo_info i name grp, cs_supervisorId = supv, cs_supervisorOwnerToken = token\<rparr>"

lemma demo_session_fields:
  assumes "grp \<noteq> []" "js_trim (js grp) = js grp"
  shows "isSessionRegistration (demo_session name grp)" "session_of (demo_session name grp) (js i) = demo_info i name grp"
    and "jstring (jfield (demo_session name grp) ''name'') = Some (js name)"
  using assms
  by (simp_all add: isSessionRegistration_def session_fields_def demo_session_def session_of_def demo_info_def normalizeGroup_def)

lemma demo_register_fields:
  "jstring (jfield (demo_register name grp) ''type'') = Some (js ''register'')"
  "jfield (demo_register name grp) ''session'' = Some (demo_session name grp)"
  "jfield (demo_register name grp) ''supervisor'' = None"
  "jfield (demo_register name grp) ''supervisorOwnerToken'' = None"
  by (simp_all add: demo_register_def)

lemma demo_handle_register:
  assumes "grp \<noteq> []" "js_trim (js grp) = js grp"
  shows "ic_handleMessage cr lower b k (demo_register name grp) None (js i) now =
    (let b' = b\<lparr>ib_sessions := jm_set (js i) (demo_member k i name grp None None) (ib_sessions b), ib_shutdownTimer := False\<rparr>
     in (b', Some (js i), IC_Write k (IB_Registered (js i) None)
           # broadcastToGroup b' (IB_SessionJoined (demo_info i name grp)) (Some (js grp)) (js i), None))"
  using demo_session_fields [OF assms]
  by (simp add: ic_handleMessage_def demo_register_fields handle_register_def claim_supervisor_def demo_member_def Let_def)
    (simp add: demo_info_def)

lemma demo_send_fields:
  "jstring (jfield (demo_send kind target mid) ''type'') = Some (js kind)"
  "jfield (demo_send kind target mid) ''attemptId'' = None"
  "jstring (jfield (demo_send kind target mid) ''to'') = Some (js target)"
  "jfield (demo_send kind target mid) ''message'' = Some (demo_body mid)"
  "jfield (demo_send kind target mid) ''channel'' = None"
  "isMessage (demo_body mid)" "message_id (demo_body mid) = js mid" "message_replyTo (demo_body mid) = None"
  by (simp_all add: demo_send_def demo_body_def isMessage_def message_head_def message_body_def message_id_def
      message_replyTo_def)

text \<open>A first send of a known session with an empty cache goes to the router.\<close>

lemma demo_handle_send:
  assumes "kind = ''send'' \<or> kind = ''supervisor_send''"
  shows "ic_handleMessage cr lower b k (demo_send kind target mid) (Some i) uuid now =
    (case handleBrokerSend lower b k (demo_send kind target mid) (Some i) now of (b', effs) \<Rightarrow> (b', Some i, effs, None))"
  using assms by (auto simp: ic_handleMessage_def demo_send_fields)

lemma demo_broker_send:
  assumes "dc_delivered (ib_delivered b) = []"
  shows "handleBrokerSend lower b k (demo_send kind target mid) currentId now =
    route_send lower (b\<lparr>ib_delivered := (ib_delivered b)\<lparr>dc_delivered := []\<rparr>\<rparr>) k currentId (kind = ''supervisor_send'') (js target) (demo_body mid)
      (buildMessageSendSignature (js target) (demo_body mid)) None now"
  using assms by (simp add: handleBrokerSend_def check_send_def demo_send_fields dc_lookup_def Let_def)

lemmas demo_route = route_send_def send_resolution_def send_candidates_def session_infos_def
  resolveSessionTarget_def deliver_to_def isVerticalBypass_def sameGroup_def normalizeGroup_def send_failed_def demo_send_fields

definition demo_pair :: "ic_event list" where
  "demo_pair = [IcOpen 1, IcOpen 2, IcMessage 1 (demo_register ''ann'' ''g'') (js ''u1'') 0,
     IcMessage 2 (demo_register ''bob'' ''g'') (js ''u2'') 0]"

definition demo_pair_system :: ic_system where
  "demo_pair_system = \<lparr>is_broker = ic_broker_new\<lparr>ib_sessions :=
      [(js ''u1'', demo_member 1 ''u1'' ''ann'' ''g'' None None), (js ''u2'', demo_member 2 ''u2'' ''bob'' ''g'' None None)]\<rparr>,
     is_conns = [(1, \<lparr>co_sessionId = Some (js ''u1''), co_open = True\<rparr>), (2, \<lparr>co_sessionId = Some (js ''u2''), co_open = True\<rparr>)],
     is_exited = False\<rparr>"

lemma demo_pair_run:
  "ic_run demo_crypto id ic_started demo_pair = demo_pair_system" "fresh_run demo_crypto id ic_started demo_pair"
  by (simp_all add: demo_pair_def demo_pair_system_def demo_handle_register js_trim_js ic_receive_def Let_def
      ic_started_def ic_broker_new_def)

lemma demo_pair_reach: "\<exists>past. ic_reach demo_crypto id demo_pair_system past"
  using ic_reach_run [OF reach_start demo_pair_run(2)] by (simp add: demo_pair_run(1))

definition demo_greeting :: ic_event where
  "demo_greeting = IcMessage 1 (demo_send ''send'' ''bob'' ''m1'') (js ''u3'') 0"

lemma demo_pair_send:
  "\<exists>b'. handleBrokerSend id (is_broker demo_pair_system) 1 (demo_send ''send'' ''bob'' ''m1'') (Some (js ''u1'')) 0 =
      (b', [IC_Write 2 (IB_Message (demo_info ''u1'' ''ann'' ''g'') (demo_body ''m1'') False), IC_Write 1 (IB_Delivered (js ''m1'') None)])"
  by (simp add: demo_pair_system_def demo_member_def demo_info_def demo_broker_send
      ic_broker_new_def dc_new_def demo_route js_trim_js Let_def)

lemma demo_greeting_effects:
  "\<exists>sys' effs. ic_step demo_crypto id demo_pair_system demo_greeting = (sys', effs) \<and>
     IC_Write 2 (IB_Message (demo_info ''u1'' ''ann'' ''g'') (demo_body ''m1'') False) \<in> set effs"
proof -
  have conn: "jm_get (is_conns demo_pair_system) 1 = Some \<lparr>co_sessionId = Some (js ''u1''), co_open = True\<rparr>"
    "\<not> is_exited demo_pair_system" by (simp_all add: demo_pair_system_def)
  then show ?thesis using demo_pair_send by (auto simp: demo_greeting_def demo_handle_send ic_receive_def)
qed

text \<open>A supervisor, its child in another group, and a third session named like the supervisor's id.\<close>

definition demo_owner_register :: "string \<Rightarrow> string \<Rightarrow> json" where
  "demo_owner_register name grp = JObj [(js ''type'', JStr (js ''register'')), (js ''session'', demo_session name grp),
     (js ''supervisorOwnerToken'', JStr (js ''t''))]"

definition demo_child_register :: "string \<Rightarrow> string \<Rightarrow> jstr \<Rightarrow> string \<Rightarrow> json" where
  "demo_child_register name grp capability supv = JObj [(js ''type'', JStr (js ''register'')), (js ''session'', demo_session name grp),
     (js ''supervisor'', JObj [(js ''capability'', JStr capability), (js ''supervisorSessionId'', JStr (js supv))])]"

definition demo_authorize :: "string \<Rightarrow> json" where
  "demo_authorize child = JObj [(js ''type'', JStr (js ''authorize_supervisor'')), (js ''requestId'', JStr []),
     (js ''childName'', JStr (js child))]"

definition demo_capability :: jstr where "demo_capability = js ''n'' @ [js_dot] @ js ''m''"

definition demo_lead :: "ic_event list" where
  "demo_lead = [IcOpen 1, IcOpen 2, IcOpen 3, IcMessage 1 (demo_owner_register ''lead'' ''g'') (js ''u1'') 0,
     IcMessage 1 (demo_authorize ''kid'') (js ''n'') 0,
     IcMessage 2 (demo_child_register ''kid'' ''h'' demo_capability ''u1'') (js ''u2'') 0,
     IcClose 1, IcMessage 3 (demo_register ''u1'' ''x'') (js ''u3'') 0]"

lemma demo_owner_fields:
  "jstring (jfield (demo_owner_register name grp) ''type'') = Some (js ''register'')"
  "jfield (demo_owner_register name grp) ''session'' = Some (demo_session name grp)"
  "jfield (demo_owner_register name grp) ''supervisor'' = None"
  "jfield (demo_owner_register name grp) ''supervisorOwnerToken'' = Some (JStr (js ''t''))"
  by (simp_all add: demo_owner_register_def)

lemma demo_child_fields:
  "jstring (jfield (demo_child_register name grp c supv) ''type'') = Some (js ''register'')"
  "jfield (demo_child_register name grp c supv) ''session'' = Some (demo_session name grp)"
  "jfield (demo_child_register name grp c supv) ''supervisor'' =
     Some (JObj [(js ''capability'', JStr c), (js ''supervisorSessionId'', JStr (js supv))])"
  "jfield (demo_child_register name grp c supv) ''supervisorOwnerToken'' = None"
  by (simp_all add: demo_child_register_def)

lemma demo_authorize_fields:
  "jstring (jfield (demo_authorize child) ''type'') = Some (js ''authorize_supervisor'')"
  "jstring (jfield (demo_authorize child) ''requestId'') = Some []"
  "jstring (jfield (demo_authorize child) ''childName'') = Some (js child)"
  "jfield (demo_authorize child) ''capability'' = None"
  by (simp_all add: demo_authorize_def)

definition demo_lead_system :: ic_system where
  "demo_lead_system = \<lparr>is_broker = \<lparr>ib_sessions =
      [(js ''u2'', demo_member 2 ''u2'' ''kid'' ''h'' (Some (js ''u1'')) None), (js ''u3'', demo_member 3 ''u3'' ''u1'' ''x'' None None)],
      ib_shutdownTimer = False, ib_delivered = dc_new,
      ib_supervisors = sc_new\<lparr>sc_authorizations := [(demo_capability,
        \<lparr>au_supervisorId = js ''u1'', au_childName = js ''kid'', au_ownerToken = js ''t'', au_boundChildName = None\<rparr>)]\<rparr>\<rparr>,
     is_conns = [(2, \<lparr>co_sessionId = Some (js ''u2''), co_open = True\<rparr>), (3, \<lparr>co_sessionId = Some (js ''u3''), co_open = True\<rparr>)],
     is_exited = False\<rparr>"

lemma demo_owns: "ownsCapability demo_crypto demo_capability owner name"
  "issueCapability demo_crypto (js ''n'') owner name = demo_capability"
proof -
  have "js_indexOf js_dot demo_capability = Some 1"
    using js_indexOf_append [of js_dot "js ''n''" "js ''m''"] by (simp add: demo_capability_def js_def)
  then show "ownsCapability demo_crypto demo_capability owner name"
    by (simp add: ownsCapability_def demo_capability_def capabilityMac_def demo_crypto_def)
  show "issueCapability demo_crypto (js ''n'') owner name = demo_capability"
    by (simp add: issueCapability_def demo_capability_def demo_crypto_def)
qed

lemma demo_lead_run:
  "ic_run demo_crypto id ic_started demo_lead = demo_lead_system" "fresh_run demo_crypto id ic_started demo_lead"
  by (simp_all add: demo_lead_def demo_lead_system_def demo_register_fields js_trim_js ic_receive_def Let_def
      ic_started_def ic_broker_new_def ic_handleMessage_def demo_owner_fields demo_child_fields demo_authorize_fields
      handle_register_def handle_authorize_def claim_supervisor_def demo_session_fields demo_member_def
      authorize_def claim_def demo_owns isSupervisorRegistration_def ic_handleClose_def drop_session_def
      ic_scheduleShutdownCheck_def sc_new_def demo_info_def CACHE_MAX_ENTRIES_def)


definition demo_plea :: ic_event where
  "demo_plea = IcMessage 2 (demo_send ''supervisor_send'' ''u1'' ''m1'') (js ''u4'') 0"

lemma demo_plea_effects:
  "\<exists>sys'. ic_step demo_crypto id demo_lead_system demo_plea = (sys',
     [IC_Write 3 (IB_Message (demo_info ''u2'' ''kid'' ''h'') (demo_body ''m1'') True), IC_Write 2 (IB_Delivered (js ''m1'') None)])"
  by (simp add: demo_plea_def demo_lead_system_def demo_member_def demo_info_def demo_handle_send demo_broker_send ic_receive_def
      dc_new_def demo_route js_trim_js Let_def)

subsection \<open>What the broadcasts reveal\<close>

definition in_group :: "ic_broker \<Rightarrow> nat \<Rightarrow> jstr option \<Rightarrow> bool" where
  "in_group b k grp \<longleftrightarrow>
     (\<exists>s \<in> set (jm_values (ib_sessions b)). cs_socket s = k \<and> normalizeGroup (si_group (cs_info s)) = normalizeGroup grp)"

fun stays_in_group :: "ic_broker \<Rightarrow> ic_broker \<Rightarrow> ic_effect \<Rightarrow> bool" where
  "stays_in_group b b' (IC_Write k (IB_SessionJoined info)) = in_group b' k (si_group info)"
| "stays_in_group b b' (IC_Write k (IB_PresenceUpdate info)) = in_group b' k (si_group info)"
| "stays_in_group b b' (IC_Write k (IB_SessionLeft i)) = in_group b' k (group_of_session b i)"
| "stays_in_group b b' _ = True"

abbreviation all_in_group :: "ic_broker \<Rightarrow> ic_broker \<Rightarrow> ic_effect list \<Rightarrow> bool" where
  "all_in_group b b' \<equiv> list_all (stays_in_group b b')"

lemma broadcast_stays:
  assumes "\<And>k. in_group b' k grp \<Longrightarrow> stays_in_group b b' (IC_Write k msg)"
  shows "all_in_group b b' (broadcastToGroup b' msg grp x)"
  using assms by (force simp: broadcastToGroup_def list_all_iff in_group_def)

lemma drop_session_stays: "drop_session b i = (b', effs) \<Longrightarrow> all_in_group b b' effs"
proof -
  assume d: "drop_session b i = (b', effs)"
  have same: "broadcastToGroup b' msg g x = broadcastToGroup (b\<lparr>ib_sessions := jm_delete i (ib_sessions b)\<rparr>) msg g x" for msg g x
    using d by (auto simp: drop_session_def Let_def ic_scheduleShutdownCheck_def broadcastToGroup_def)
  have "effs = broadcastToGroup b' (IB_SessionLeft i) (group_of_session b i) i"
    using d unfolding same by (auto simp: drop_session_def Let_def)
  then show ?thesis by (simp add: broadcast_stays)
qed

lemma handle_register_stays:
  assumes "handle_register b k msg cur uuid = (b', cur', effs, err)"
  shows "all_in_group b b' effs"
proof (cases "effs = [] \<or> (\<exists>e. effs = [IC_Write k (IB_RegistrationFailed e), IC_End k])")
  case False
  then obtain info supv where "effs = IC_Write k (IB_Registered uuid supv)
      # broadcastToGroup b' (IB_SessionJoined info) (si_group info) uuid"
    using assms by (auto simp: handle_register_def throws_def Let_def split: option.splits if_splits prod.splits sum.splits)
  then show ?thesis by (simp add: broadcast_stays)
qed auto

lemma handle_presence_stays:
  assumes "handle_presence b msg i now = (b', cur', effs, err)"
  shows "all_in_group b b' effs"
proof (cases "effs = []")
  case False
  then have "\<exists>s :: ic_session. effs = broadcastToGroup b' (IB_PresenceUpdate (cs_info s)) (si_group (cs_info s)) i"
    using assms by (auto simp: handle_presence_def throws_def Let_def split: option.splits if_splits)
  then show ?thesis by (auto simp: broadcast_stays)
qed simp

lemma handle_list_stays: "handle_list b k msg i = (b', cur', effs, err) \<Longrightarrow> all_in_group b b' effs"
  by (auto simp: handle_list_def throws_def Let_def split: option.splits if_splits)

lemma handle_authorize_stays: "handle_authorize cr b k msg i uuid = (b', cur', effs, err) \<Longrightarrow> all_in_group b b' effs"
  by (auto simp: handle_authorize_def throws_def split: option.splits if_splits sum.splits prod.splits)

subsection \<open>One answer per send\<close>

text \<open>The two shapes of what a send writes: one answer, or the message followed by the confirmation.\<close>

definition send_outcome :: "nat \<Rightarrow> jstr \<Rightarrow> jstr option \<Rightarrow> ic_effect list \<Rightarrow> bool" where
  "send_outcome socket mid attempt effs \<longleftrightarrow>
     effs = [IC_Write socket (IB_Delivered mid attempt)] \<or>
     (\<exists>reason. effs = [IC_Write socket (IB_DeliveryFailed mid reason attempt)]) \<or>
     (\<exists>k frm m s. message_id m = mid \<and>
        effs = [IC_Write k (IB_Message frm m s), IC_Write socket (IB_Delivered mid attempt)])"

lemma deliver_to_outcome:
  "deliver_to b socket sender t viaSup m sig attempt now = (b', effs) \<Longrightarrow> send_outcome socket (message_id m) attempt effs"
  by (auto simp: deliver_to_def send_outcome_def send_failed_def split: if_splits prod.splits)

lemma route_send_outcome:
  assumes "route_send lower b socket cur viaSup target m sig attempt now = (b', effs)"
  shows "send_outcome socket (message_id m) attempt effs"
proof (cases "\<exists>reason. effs = [send_failed socket (message_id m) attempt reason]")
  case True
  then show ?thesis by (auto simp: send_outcome_def send_failed_def)
next
  case False
  then show ?thesis
    using assms deliver_to_outcome
    by (fastforce simp: route_send_def Let_def split: option.splits resolution.splits if_splits)
qed

lemma handleBrokerSend_outcome:
  assumes "handleBrokerSend lower b socket msg cur now = (b', effs)"
  shows "send_outcome socket (send_messageId msg) (jstring (jfield msg ''attemptId'')) effs"
proof (cases "check_send socket msg")
  case (Inl e)
  then show ?thesis using assms
    by (auto simp: handleBrokerSend_def check_send_def send_outcome_def send_failed_def send_messageId_def Let_def
        split: if_splits option.splits)
next
  case (Inr x)
  then obtain target m where x: "x = (target, m, jstring (jfield msg ''attemptId''))" and m: "send_messageId msg = message_id m"
    by (auto simp: check_send_def send_messageId_def Let_def split: if_splits option.splits)
  obtain dc found where l: "dc_lookup (ib_delivered b) (message_id m) (buildMessageSendSignature target m) now = (dc, found)"
    by (cases "dc_lookup (ib_delivered b) (message_id m) (buildMessageSendSignature target m) now")
  show ?thesis
  proof (cases found)
    case Miss
    then show ?thesis using assms route_send_outcome by (simp add: handleBrokerSend_def Inr x l m Let_def)
  next
    case Match
    then show ?thesis using assms by (auto simp: handleBrokerSend_def Inr x l m send_outcome_def Let_def)
  next
    case Conflict
    then show ?thesis using assms
      by (auto simp: handleBrokerSend_def Inr x l m send_outcome_def send_failed_def Let_def)
  qed
qed

lemma send_outcome_stays: "send_outcome socket mid attempt effs \<Longrightarrow> all_in_group b b' effs"
  by (auto simp: send_outcome_def)

lemma ic_handleMessage_stays:
  assumes h: "ic_handleMessage cr lower b k msg cur uuid now = (b', cur', effs, err)"
  shows "all_in_group b b' effs"
proof -
  consider "effs = []" | "handle_register b k msg cur uuid = (b', cur', effs, err)"
    | i where "drop_session b i = (b', effs)" | i where "handle_list b k msg i = (b', cur', effs, err)"
    | i where "handle_authorize cr b k msg i uuid = (b', cur', effs, err)"
    | "handleBrokerSend lower b k msg cur now = (b', effs)"
    | i where "handle_presence b msg i now = (b', cur', effs, err)"
    using h by (auto simp: ic_handleMessage_def throws_def split: option.splits if_splits prod.splits)
  then show ?thesis
    using handle_register_stays drop_session_stays handle_list_stays handle_authorize_stays
      handle_presence_stays send_outcome_stays [OF handleBrokerSend_outcome]
    by cases auto
qed

text \<open>A send that writes a message has recorded it.\<close>

lemma deliver_to_records:
  assumes "deliver_to b socket sender t viaSup m sig attempt now = (b', effs)"
    and "IC_Write k (IB_Message frm m' s) \<in> set effs"
  shows "m' = m \<and> ib_delivered b' = dc_record (ib_delivered b) (message_id m) sig now"
  using assms by (auto simp: deliver_to_def send_failed_def split: if_splits prod.splits)

lemma route_send_records:
  assumes "route_send lower b socket cur viaSup target m sig attempt now = (b', effs)"
    and "IC_Write k (IB_Message frm m' s) \<in> set effs"
  shows "m' = m \<and> ib_delivered b' = dc_record (ib_delivered b) (message_id m) sig now"
proof (cases "\<exists>reason. effs = [send_failed socket (message_id m) attempt reason]")
  case True
  then show ?thesis using assms(2) by (auto simp: send_failed_def)
next
  case False
  then obtain sender t where "deliver_to b socket sender t viaSup m sig attempt now = (b', effs)"
    using assms(1) by (auto simp: route_send_def Let_def split: option.splits resolution.splits if_splits)
  from deliver_to_records [OF this assms(2)] show ?thesis .
qed

lemma dc_record_get:
  assumes "0 < dc_maxEntries c"
  shows "jm_get (dc_delivered (dc_record c i sig now)) i = Some \<lparr>dm_deliveredAt = now, dm_signature = sig\<rparr>"
  using delivered.remember_get [OF assms] by (simp add: dc_record_def)

lemma delivering_records:
  assumes r: "handleBrokerSend lower b socket msg currentId now = (b', effs)"
    and w: "IC_Write k (IB_Message frm m viaSup) \<in> set effs"
    and n: "0 < dc_maxEntries (ib_delivered b)"
  shows "\<exists>target. check_send socket msg = Inr (target, m, jstring (jfield msg ''attemptId'')) \<and>
    jm_get (dc_delivered (ib_delivered b')) (message_id m)
      = Some \<lparr>dm_deliveredAt = now, dm_signature = buildMessageSendSignature target m\<rparr> \<and>
    dc_ttlMs (ib_delivered b') = dc_ttlMs (ib_delivered b)"
proof (cases "check_send socket msg")
  case (Inl e)
  then show ?thesis using r w check_send_reply [OF Inl] by (auto simp: handleBrokerSend_def)
next
  case (Inr x)
  then obtain target m0 where x: "x = (target, m0, jstring (jfield msg ''attemptId''))"
    by (auto simp: check_send_def Let_def split: if_splits option.splits)
  obtain dc found where l: "dc_lookup (ib_delivered b) (message_id m0) (buildMessageSendSignature target m0) now = (dc, found)"
    by (cases "dc_lookup (ib_delivered b) (message_id m0) (buildMessageSendSignature target m0) now")
  then have dc: "dc_maxEntries dc = dc_maxEntries (ib_delivered b)" "dc_ttlMs dc = dc_ttlMs (ib_delivered b)"
    by (auto simp: dc_lookup_def Let_def)
  have miss: "found = Miss"
    using r w by (cases found) (auto simp: handleBrokerSend_def Inr x l send_failed_def Let_def)
  have "m = m0 \<and> ib_delivered b' = dc_record dc (message_id m0) (buildMessageSendSignature target m0) now"
    using route_send_records [OF _ w, where b = "b\<lparr>ib_delivered := dc\<rparr>"] r
    by (auto simp: handleBrokerSend_def Inr x l miss Let_def)
  then show ?thesis using Inr x dc n by (simp add: dc_record_get) (simp add: dc_record_def)
qed

lemma check_send_socket: "check_send socket msg = Inr x \<Longrightarrow> check_send socket' msg = Inr x"
  by (auto simp: check_send_def Let_def split: if_splits option.splits)

lemma ic_step_stays:
  assumes st: "ic_step cr lower sys ev = (sys', effs)"
  shows "all_in_group (is_broker sys) (is_broker sys') effs"
proof (cases ev)
  case (IcMessage k msg uuid now)
  show ?thesis
  proof (cases "\<exists>conn. jm_get (is_conns sys) k = Some conn \<and> \<not> is_exited sys \<and> co_open conn")
    case False
    then show ?thesis using st by (auto simp: IcMessage split: option.splits if_splits)
  next
    case True
    then obtain conn where conn: "jm_get (is_conns sys) k = Some conn" "\<not> is_exited sys" "co_open conn" by blast
    obtain b i es err where h: "ic_handleMessage cr lower (is_broker sys) k msg (co_sessionId conn) uuid now = (b, i, es, err)"
      by (metis prod_cases4)
    show ?thesis using st conn ic_handleMessage_stays [OF h] by (auto simp: IcMessage ic_receive_def h)
  qed
next
  case (IcClose k)
  then show ?thesis using st drop_session_stays
    by (fastforce simp: ic_handleClose_def split: option.splits if_splits prod.splits)
qed (use st in \<open>auto simp: ic_idle_check_def ic_shutdown_def list_all_iff Let_def split: option.splits if_splits\<close>)

subsection \<open>Properties\<close>

text \<open>C2: groups are isolated.  In every reachable state of the broker, whatever event comes next, a
  message that is written to a connection comes from the session registered on the connection the
  event arrived on, carries that session's own identity, and goes to the connection of another
  session; and sender and receiver are in the same group, or the message answers a supervisor frame
  that went the other way before, or it is itself a supervisor frame of a session with an authorised
  supervisor (sent to that supervisor, or, once the supervisor has left, to whoever its id resolves
  to).\<close>

theorem ic_group_isolation:
  assumes "ic_reach cr lower sys past" and "fresh_event sys ev"
    and "ic_step cr lower sys ev = (sys', effs)" and "IC_Write k (IB_Message frm m viaSup) \<in> set effs"
  shows "\<exists>sender t. Option.bind (event_session sys ev) (jm_get (ib_sessions (is_broker sys))) = Some sender \<and>
    cs_info sender = frm \<and> jm_get (ib_sessions (is_broker sys)) (si_id (cs_info t)) = Some t \<and> cs_socket t = k \<and>
    si_id (cs_info t) \<noteq> si_id frm \<and>
    (sameGroup frm (cs_info t) \<or>
     (\<exists>r. message_replyTo m = Some r \<and> (r, si_id (cs_info t), si_id frm) \<in> past) \<or>
     viaSup \<and> (\<exists>sid. cs_supervisorId sender = Some sid \<and>
       (si_id (cs_info t) = sid \<or> jm_get (ib_sessions (is_broker sys)) sid = None)))"
proof -
  have "step_delivers sys past ev effs"
    using ic_step_spec [OF ic_reach_inv [OF assms(1)] assms(2,3)] by blast
  then obtain sender t where "delivered_to (ib_sessions (is_broker sys)) past (event_session sys ev) k frm m viaSup sender t"
    using assms(4) unfolding step_delivers_def by blast
  then show ?thesis by (intro exI [of _ sender] exI [of _ t]) (auto simp: delivered_to_def may_deliver_def)
qed

theorem ic_group_isolation_witness:
  "\<exists>past sys' effs sender t. ic_step demo_crypto id demo_pair_system demo_greeting = (sys', effs) \<and>
    Option.bind (event_session demo_pair_system demo_greeting) (jm_get (ib_sessions (is_broker demo_pair_system))) = Some sender \<and>
    cs_info sender = demo_info ''u1'' ''ann'' ''g'' \<and>
    jm_get (ib_sessions (is_broker demo_pair_system)) (si_id (cs_info t)) = Some t \<and> cs_socket t = 2 \<and>
    si_id (cs_info t) \<noteq> js ''u1'' \<and>
    (sameGroup (demo_info ''u1'' ''ann'' ''g'') (cs_info t) \<or>
     (\<exists>r. message_replyTo (demo_body ''m1'') = Some r \<and> (r, si_id (cs_info t), js ''u1'') \<in> past))"
proof -
  obtain past where r: "ic_reach demo_crypto id demo_pair_system past" using demo_pair_reach by blast
  obtain sys' effs where st: "ic_step demo_crypto id demo_pair_system demo_greeting = (sys', effs)"
    and w: "IC_Write 2 (IB_Message (demo_info ''u1'' ''ann'' ''g'') (demo_body ''m1'') False) \<in> set effs"
    using demo_greeting_effects by blast
  have f: "fresh_event demo_pair_system demo_greeting" by (simp add: demo_greeting_def demo_pair_system_def)
  have i: "si_id (demo_info ''u1'' ''ann'' ''g'') = js ''u1''" by (simp add: demo_info_def)
  show ?thesis using ic_group_isolation [OF r f st w] st unfolding i by blast
qed

text \<open>announcements stay in their group.  Whatever the state and the event, a session joining or
  changing its presence is announced only to sessions of its own group, and a departure only to
  sessions of the group the session was in.\<close>

theorem ic_broadcasts_in_group:
  "let (sys', effs) = ic_step cr lower sys ev; b = is_broker sys; b' = is_broker sys'
   in {(k, info). IC_Write k (IB_SessionJoined info) \<in> set effs \<or> IC_Write k (IB_PresenceUpdate info) \<in> set effs}
        \<subseteq> {(k, info). \<exists>s. s \<in> set (jm_values (ib_sessions b')) \<and> cs_socket s = k \<and> sameGroup info (cs_info s)} \<and>
      {(k, i). IC_Write k (IB_SessionLeft i) \<in> set effs}
        \<subseteq> {(k, i). \<exists>s. s \<in> set (jm_values (ib_sessions b')) \<and> cs_socket s = k \<and>
             normalizeGroup (si_group (cs_info s)) = normalizeGroup (group_of_session b i)}"
proof -
  obtain sys' effs where st: "ic_step cr lower sys ev = (sys', effs)" by (cases "ic_step cr lower sys ev")
  have "all_in_group (is_broker sys) (is_broker sys') effs" by (rule ic_step_stays [OF st])
  then show ?thesis unfolding st list_all_iff Let_def prod.case
    by (fastforce simp: in_group_def sameGroup_def)
qed

text \<open>every send is answered once.  Whatever the state and the request, the requester gets exactly
  one answer, carrying the id of the message and the attempt id of the request, and at most one
  message is written, before the confirmation, and only then.\<close>

theorem send_answered_once:
  "send_outcome socket (send_messageId msg) (jstring (jfield msg ''attemptId''))
     (snd (handleBrokerSend lower b socket msg currentId now))"
  using handleBrokerSend_outcome by (metis prod.collapse)

text \<open>a repeated send is delivered once.  When a send has delivered its message, the same request
  within the memory's time limit is confirmed again, on whatever connection and for whatever session
  it arrives, and writes nothing else.\<close>

theorem resend_is_idempotent:
  assumes "handleBrokerSend lower b socket msg currentId now = (b', effs)"
    and "IC_Write k (IB_Message frm m viaSup) \<in> set effs"
    and "0 < dc_maxEntries (ib_delivered b)" and "now' - now \<le> dc_ttlMs (ib_delivered b)"
  shows "snd (handleBrokerSend lower b' socket' msg currentId' now')
    = [IC_Write socket' (IB_Delivered (message_id m) (jstring (jfield msg ''attemptId'')))]"
proof -
  obtain target where c: "check_send socket msg = Inr (target, m, jstring (jfield msg ''attemptId''))"
    and rec: "jm_get (dc_delivered (ib_delivered b')) (message_id m)
      = Some \<lparr>dm_deliveredAt = now, dm_signature = buildMessageSendSignature target m\<rparr>"
    and ttl: "dc_ttlMs (ib_delivered b') = dc_ttlMs (ib_delivered b)"
    using delivering_records [OF assms(1-3)] by blast
  obtain dc where "dc_lookup (ib_delivered b') (message_id m) (buildMessageSendSignature target m) now' = (dc, Match)"
    using delivered.prune_keeps_fresh [OF rec] ttl assms(4)
    by (simp add: dc_lookup_def Let_def)
  then show ?thesis using check_send_socket [OF c, of socket']
    by (simp add: handleBrokerSend_def Let_def)
qed

theorem resend_is_idempotent_witness:
  "\<exists>b'. snd (handleBrokerSend id b' 7 (demo_send ''send'' ''bob'' ''m1'') None 600000)
    = [IC_Write 7 (IB_Delivered (js ''m1'') None)]"
proof -
  let ?b = "is_broker demo_pair_system"
  obtain b' where r: "handleBrokerSend id ?b 1 (demo_send ''send'' ''bob'' ''m1'') (Some (js ''u1'')) 0 =
      (b', [IC_Write 2 (IB_Message (demo_info ''u1'' ''ann'' ''g'') (demo_body ''m1'') False), IC_Write 1 (IB_Delivered (js ''m1'') None)])"
    using demo_pair_send by blast
  have c: "0 < dc_maxEntries (ib_delivered ?b)" "600000 - 0 \<le> dc_ttlMs (ib_delivered ?b)"
    by (simp_all add: demo_pair_system_def ic_broker_new_def dc_new_def CACHE_MAX_ENTRIES_def CACHE_TTL_MS_def)
  show ?thesis
    using resend_is_idempotent [OF r _ c, of 2 "demo_info ''u1'' ''ann'' ''g''" "demo_body ''m1''" False 7 None]
    by (auto simp: demo_send_fields)
qed


text \<open>a supervisor frame can reach a stranger.  When the supervisor has disconnected, its id is
  resolved like any other text over the sessions of all groups: there is a reachable state in which a
  child's supervisor frame is delivered, as a supervisor frame, to a session of another group that
  merely named itself with the supervisor's id, and the child is told that it was delivered.\<close>

theorem supervisor_frame_reaches_namesake:
  "\<exists>cr lower sys past ev sys' frm m t. ic_reach cr lower sys past \<and> fresh_event sys ev \<and>
     ic_step cr lower sys ev = (sys', [IC_Write (cs_socket t) (IB_Message frm m True), IC_Write 2 (IB_Delivered (message_id m) None)]) \<and>
     t \<in> set (jm_values (ib_sessions (is_broker sys))) \<and> \<not> sameGroup frm (cs_info t) \<and>
     map_option cs_supervisorId (jm_get (ib_sessions (is_broker sys)) (si_id frm)) = Some (si_name (cs_info t)) \<and>
     cs_supervisorOwnerToken t = None"
proof -
  obtain past where r: "ic_reach demo_crypto id demo_lead_system past"
    using ic_reach_run [OF reach_start demo_lead_run(2)] by (auto simp: demo_lead_run(1))
  obtain sys' where st: "ic_step demo_crypto id demo_lead_system demo_plea = (sys',
     [IC_Write 3 (IB_Message (demo_info ''u2'' ''kid'' ''h'') (demo_body ''m1'') True), IC_Write 2 (IB_Delivered (js ''m1'') None)])"
    using demo_plea_effects by blast
  let ?t = "demo_member 3 ''u3'' ''u1'' ''x'' None None"
  have "?t \<in> set (jm_values (ib_sessions (is_broker demo_lead_system))) \<and>
      \<not> sameGroup (demo_info ''u2'' ''kid'' ''h'') (cs_info ?t) \<and>
      map_option cs_supervisorId (jm_get (ib_sessions (is_broker demo_lead_system)) (si_id (demo_info ''u2'' ''kid'' ''h'')))
        = Some (si_name (cs_info ?t)) \<and> cs_supervisorOwnerToken ?t = None \<and> cs_socket ?t = 3 \<and> fresh_event demo_lead_system demo_plea"
    by (simp add: demo_lead_system_def demo_member_def demo_info_def demo_plea_def sameGroup_def normalizeGroup_def js_trim_js)
  then show ?thesis using r st demo_send_fields(7) [of "''m1''"] by metis
qed

end
