(* ===== verification/Workflow_Limiter.thy ===== *)
theory Workflow_Limiter
  imports JS_Core
begin

text \<open>
  The per-run stage limiter of workflows (\<open>packages/workflows/src/runs/shared/concurrency.ts\<close>): a
  semaphore whose waiters are served in order.  A waiter's \<open>resolve\<close> is the task itself.  \<open>run\<close> is the
  pair of steps that a task takes: it arrives (\<open>acquire\<close>) and, once it holds a slot, finishes
  (\<open>release\<close>).
\<close>

record 'a limiter =
  lm_limit :: int
  lm_running :: int
  lm_queue :: "'a list"

fun new_limiter :: "js_num \<Rightarrow> 'a limiter option" where
  "new_limiter (JFinite limit) =
     (if limit \<noteq> of_int \<lfloor>limit\<rfloor> \<or> limit < 1 then None
      else Some \<lparr>lm_limit = \<lfloor>limit\<rfloor>, lm_running = 0, lm_queue = []\<rparr>)"
| "new_limiter JNonFinite = None"

definition createRunLimiter :: "js_num option \<Rightarrow> 'a limiter option" where
  "createRunLimiter defaultConcurrency =
     new_limiter (case defaultConcurrency of None \<Rightarrow> JFinite 4 | Some n \<Rightarrow> n)"

text \<open>\<open>acquire\<close>: whether the promise is resolved at once.\<close>

definition acquire :: "'a \<Rightarrow> 'a limiter \<Rightarrow> 'a limiter \<times> bool" where
  "acquire t l =
     (if lm_running l < lm_limit l then (l\<lparr>lm_running := lm_running l + 1\<rparr>, True)
      else (l\<lparr>lm_queue := lm_queue l @ [t]\<rparr>, False))"

text \<open>\<open>release\<close>: the waiter whose promise is resolved.\<close>

definition release :: "'a limiter \<Rightarrow> 'a limiter \<times> 'a option" where
  "release l =
     (case lm_queue l of
        w # q \<Rightarrow> (l\<lparr>lm_queue := q\<rparr>, Some w)
      | [] \<Rightarrow> (l\<lparr>lm_running := lm_running l - 1\<rparr>, None))"

subsection \<open>Tasks\<close>

datatype 'a task_event = Arrive 'a | Finish 'a

text \<open>The limiter and the tasks that are past their \<open>await acquire()\<close>.  An event of a task that cannot
  happen changes nothing.\<close>

fun run_task :: "'a limiter \<times> 'a list \<Rightarrow> 'a task_event \<Rightarrow> 'a limiter \<times> 'a list" where
  "run_task (l, active) (Arrive t) =
     (if t \<in> set active \<or> t \<in> set (lm_queue l) then (l, active)
      else (case acquire t l of (l', now) \<Rightarrow> (l', if now then active @ [t] else active)))"
| "run_task (l, active) (Finish t) =
     (if t \<notin> set active then (l, active)
      else (case release l of
              (l', None) \<Rightarrow> (l', remove1 t active)
            | (l', Some w) \<Rightarrow> (l', remove1 t active @ [w])))"

definition run_tasks :: "'a limiter \<Rightarrow> 'a task_event list \<Rightarrow> 'a limiter \<times> 'a list" where
  "run_tasks l evs = foldl run_task (l, []) evs"

subsection \<open>What a limiter promises\<close>

text \<open>The tasks that are not finished, in the order they arrived; the first \<open>n\<close> of them run.\<close>

fun line_step :: "nat \<Rightarrow> 'a list \<Rightarrow> 'a task_event \<Rightarrow> 'a list" where
  "line_step n line (Arrive t) = (if t \<in> set line then line else line @ [t])"
| "line_step n line (Finish t) = (if t \<in> set (take n line) then remove1 t line else line)"

definition in_line :: "nat \<Rightarrow> 'a task_event list \<Rightarrow> 'a list" where
  "in_line n evs = foldl (line_step n) [] evs"

text \<open>The refinement relation.\<close>

definition implements :: "nat \<Rightarrow> 'a limiter \<times> 'a list \<Rightarrow> 'a list \<Rightarrow> bool" where
  "implements n s line \<longleftrightarrow> (case s of (l, active) \<Rightarrow>
     0 < n \<and> lm_limit l = int n \<and> distinct line \<and> active = take n line \<and>
     lm_queue l = drop n line \<and> lm_running l = int (length active))"

lemma remove1_take:
  assumes "t \<in> set (take n xs)" and "distinct xs"
  shows "take n (remove1 t xs) = remove1 t (take n xs) @ take 1 (drop n xs)"
    and "drop n (remove1 t xs) = drop 1 (drop n xs)"
proof -
  have l: "t \<notin> set (drop n xs)" using assms by (metis disjoint_iff set_take_disj_set_drop_if_distinct order_refl)
  have split: "remove1 t xs = remove1 t (take n xs) @ drop n xs"
    using assms(1) remove1_append [of t "take n xs" "drop n xs"] by simp
  have len: "n \<le> length xs \<Longrightarrow> length (remove1 t (take n xs)) = n - 1"
    using assms(1) by (simp add: length_remove1)
  have pos: "0 < n" using assms(1) by (cases n) auto
  have short: "length (remove1 t xs) \<le> length xs" by (simp add: length_remove1)
  show "take n (remove1 t xs) = remove1 t (take n xs) @ take 1 (drop n xs)"
  proof (cases "n \<le> length xs")
    case True
    then show ?thesis using len pos by (simp add: split)
  next
    case False
    then show ?thesis using short by simp
  qed
  show "drop n (remove1 t xs) = drop 1 (drop n xs)"
  proof (cases "n \<le> length xs")
    case True
    then show ?thesis using len pos by (simp add: split)
  next
    case False
    then show ?thesis using short by simp
  qed
qed

lemma implements_step:
  assumes "implements n s line"
  shows "implements n (run_task s ev) (line_step n line ev)"
proof -
  obtain l active where s: "s = (l, active)" by (cases s)
  note I = assms [unfolded implements_def s prod.case]
  show ?thesis
  proof (cases ev)
    case (Arrive t)
    have mem: "t \<in> set active \<or> t \<in> set (lm_queue l) \<longleftrightarrow> t \<in> set line"
      using I by (metis Un_iff append_take_drop_id set_append)
    show ?thesis
    proof (cases "t \<in> set line")
      case True
      then show ?thesis using assms mem by (simp add: s Arrive)
    next
      case False
      then show ?thesis using I mem
        by (cases "length line < n") (auto simp: s Arrive implements_def acquire_def)
    qed
  next
    case (Finish t)
    show ?thesis
    proof (cases "t \<in> set active")
      case False
      then show ?thesis using assms I by (simp add: s Finish)
    next
      case True
      note R = remove1_take [of t n line]
      show ?thesis
      proof (cases "drop n line")
        case Nil
        have act: "active = take n line" and run: "lm_running l = int (length active)" using I by blast+
        have "0 < length active" using True by (cases active) auto
        then have cnt: "lm_running l - 1 = int (length (remove1 t active))"
          using run True by (simp add: length_remove1 of_nat_diff Suc_le_eq)
        have "run_task s ev = (l\<lparr>lm_running := lm_running l - 1\<rparr>, remove1 t active)"
          using I True Nil by (simp add: s Finish release_def)
        moreover have "line_step n line ev = remove1 t line" using True act by (simp add: Finish)
        moreover have "take n (remove1 t line) = remove1 t active" "drop n (remove1 t line) = []"
          using R True I Nil unfolding act by auto
        ultimately show ?thesis using I Nil cnt by (simp add: implements_def)
      next
        case (Cons w q)
        have act: "active = take n line" and run: "lm_running l = int (length active)" using I by blast+
        have "0 < length active" using True by (cases active) auto
        then have cnt: "lm_running l = int (length (remove1 t active @ [w]))"
          using run True by (simp add: length_remove1)
        have "run_task s ev = (l\<lparr>lm_queue := q\<rparr>, remove1 t active @ [w])"
          using I True Cons by (simp add: s Finish release_def)
        moreover have "line_step n line ev = remove1 t line" using True act by (simp add: Finish)
        moreover have "take n (remove1 t line) = remove1 t active @ [w]" "drop n (remove1 t line) = q"
          using R True I Cons unfolding act by auto
        ultimately show ?thesis using I cnt by (simp add: implements_def)
      qed
    qed
  qed
qed

lemma implements_run: "implements n s line \<Longrightarrow> implements n (foldl run_task s evs) (foldl (line_step n) line evs)"
  by (induction evs arbitrary: s line) (simp, simp only: foldl_Cons implements_step)

text \<open>C29: the limiter is a first-come, first-served line.  For every limit the constructor accepts and
  every sequence of arrivals and completions, the running tasks are the first \<open>limit\<close> unfinished tasks
  in the order of their arrival, the queue holds the others in that order, and the counter is the
  number of running tasks; so the limit is never exceeded, nobody is overtaken, and as long as a task
  is unfinished some task runs.\<close>

theorem limiter_refines_line:
  "case new_limiter limit of
     None \<Rightarrow> \<not> (\<exists>n. limit = JFinite (of_nat n) \<and> 1 \<le> n)
   | Some l \<Rightarrow>
       (let n = nat (lm_limit l); line = in_line n evs; (l', active) = run_tasks l evs
        in limit = JFinite (of_nat n) \<and> 1 \<le> n \<and> distinct line \<and> active = take n line \<and> lm_queue l' = drop n line \<and>
           lm_running l' = int (length active) \<and> length active \<le> n \<and> (active = [] \<longleftrightarrow> line = []))"
proof (cases "new_limiter limit :: 'a limiter option")
  case None
  have "new_limiter (JFinite (of_nat n)) \<noteq> (None :: 'a limiter option)" if "1 \<le> n" for n
    using that by simp
  with None show ?thesis by auto
next
  case (Some l)
  obtain x where x: "limit = JFinite x" using Some by (cases limit) auto
  let ?n = "nat \<lfloor>x\<rfloor>"
  have l: "l = \<lparr>lm_limit = \<lfloor>x\<rfloor>, lm_running = 0, lm_queue = []\<rparr>" and "x = of_int \<lfloor>x\<rfloor>" "1 \<le> x"
    using Some by (auto simp: x split: if_splits)
  have pos: "1 \<le> \<lfloor>x\<rfloor>" using \<open>1 \<le> x\<close> by (simp add: le_floor_iff)
  then have n: "0 < ?n" "int ?n = \<lfloor>x\<rfloor>" by simp_all
  have "(of_nat ?n :: rat) = of_int (int ?n)" by (rule of_int_of_nat_eq [symmetric])
  also have "\<dots> = x" unfolding n(2) by (rule \<open>x = of_int \<lfloor>x\<rfloor>\<close> [symmetric])
  finally have lim: "of_nat ?n = x" .
  have "implements ?n (l, []) []"
    using n by (simp add: implements_def l)
  from implements_run [OF this, of evs] show ?thesis
    using n lim Some by (auto simp: x run_tasks_def in_line_def implements_def Let_def l)
qed

end
