(* ===== verification/Workflow_Graph.thy ===== *)
theory Workflow_Graph
  imports JS_Core
begin

text \<open>
  The stage graph of a workflow run: parents inferred from the order in which stages settle
  (\<open>packages/workflows/src/engine/graph-inference.ts\<close>), and the walks over the ancestors of a stage
  (\<open>runs/foreground/executor-scheduler.ts\<close>).
\<close>

record stage_node =
  sn_id :: jstr
  sn_name :: jstr
  sn_parentIds :: "jstr list"

record tracker =
  tr_frontier :: "jstr list"
  tr_stageParents :: "(jstr, jstr list) jmap"
  tr_nodes :: "(jstr, stage_node) jmap"

definition tracker_new :: tracker where
  "tracker_new = \<lparr>tr_frontier = [], tr_stageParents = [], tr_nodes = []\<rparr>"

definition onSpawn :: "tracker \<Rightarrow> jstr \<Rightarrow> jstr \<Rightarrow> tracker \<times> jstr list" where
  "onSpawn tr stageId stageName =
     (let parents = tr_frontier tr
      in (tr\<lparr>tr_stageParents := jm_set stageId parents (tr_stageParents tr),
            tr_nodes := jm_set stageId \<lparr>sn_id = stageId, sn_name = stageName, sn_parentIds = parents\<rparr> (tr_nodes tr)\<rparr>,
          parents))"

definition currentParents :: "tracker \<Rightarrow> jstr list" where
  "currentParents tr = tr_frontier tr"

definition replaceParents :: "tracker \<Rightarrow> jstr \<Rightarrow> jstr list \<Rightarrow> tracker" where
  "replaceParents tr stageId parents =
     tr\<lparr>tr_stageParents := jm_set stageId parents (tr_stageParents tr),
        tr_nodes := (case jm_get (tr_nodes tr) stageId of
                       None \<Rightarrow> tr_nodes tr
                     | Some node \<Rightarrow> jm_set stageId (node\<lparr>sn_parentIds := parents\<rparr>) (tr_nodes tr))\<rparr>"

definition getParents :: "tracker \<Rightarrow> jstr \<Rightarrow> jstr list" where
  "getParents tr stageId = jm_get_or [] (tr_stageParents tr) stageId"

definition onSettle :: "tracker \<Rightarrow> jstr \<Rightarrow> tracker" where
  "onSettle tr stageId =
     tr\<lparr>tr_frontier := js_set_add stageId (fold js_set_delete (getParents tr stageId) (tr_frontier tr))\<rparr>"

definition getNodes :: "tracker \<Rightarrow> stage_node list" where
  "getNodes tr = jm_values (tr_nodes tr)"

definition tracker_reset :: "tracker \<Rightarrow> tracker" where
  "tracker_reset tr = tracker_new"

subsection \<open>Histories\<close>

text \<open>How an engine uses a tracker: a stage is spawned once under a new id; before it settles, its
  parents may be replaced by settled stages (a refresh, a parallel scope, a replayed run); it settles
  once.  The second argument is the set of settled stages.\<close>

inductive tracked :: "tracker \<Rightarrow> jstr set \<Rightarrow> bool" where
  tracked_new: "tracked tracker_new {}"
| tracked_spawn: "tracked tr settled \<Longrightarrow> i \<notin> set (jm_keys (tr_stageParents tr)) \<Longrightarrow>
     onSpawn tr i name = (tr', parents) \<Longrightarrow> tracked tr' settled"
| tracked_replace: "tracked tr settled \<Longrightarrow> i \<in> set (jm_keys (tr_stageParents tr)) \<Longrightarrow> i \<notin> settled \<Longrightarrow>
     set parents \<subseteq> settled \<Longrightarrow> tracked (replaceParents tr i parents) settled"
| tracked_settle: "tracked tr settled \<Longrightarrow> i \<in> set (jm_keys (tr_stageParents tr)) \<Longrightarrow> i \<notin> settled \<Longrightarrow>
     tracked (onSettle tr i) (insert i settled)"

definition parent_rel :: "(jstr \<Rightarrow> jstr list) \<Rightarrow> (jstr \<times> jstr) set" where
  "parent_rel parents = {(p, s). p \<in> set (parents s)}"

definition latest :: "tracker \<Rightarrow> jstr set \<Rightarrow> jstr set" where
  "latest tr settled = {x \<in> settled. \<not> (\<exists>y \<in> settled. (x, y) \<in> (parent_rel (getParents tr))\<^sup>+)}"

definition graph_inv :: "tracker \<Rightarrow> jstr set \<Rightarrow> bool" where
  "graph_inv tr settled \<longleftrightarrow>
     settled \<subseteq> set (jm_keys (tr_stageParents tr)) \<and> (\<forall>s. set (getParents tr s) \<subseteq> settled) \<and>
     acyclic (parent_rel (getParents tr)) \<and> distinct (tr_frontier tr) \<and>
     set (tr_frontier tr) = latest tr settled \<and>
     (\<forall>i. map_option sn_parentIds (jm_get (tr_nodes tr) i) = jm_get (tr_stageParents tr) i)"

text \<open>Changing the parents of a stage that is nobody's parent changes nothing else.\<close>

lemma trancl_other_parents:
  assumes same: "\<And>s. s \<noteq> i \<Longrightarrow> f s = g s" and leaf: "\<And>s. i \<notin> set (f s)" "\<And>s. i \<notin> set (g s)"
  shows "y \<noteq> i \<Longrightarrow> (x, y) \<in> (parent_rel f)\<^sup>+ \<longleftrightarrow> (x, y) \<in> (parent_rel g)\<^sup>+"
proof -
  have one: "(x, y) \<in> (parent_rel b)\<^sup>+" if "(x, y) \<in> (parent_rel a)\<^sup>+" "y \<noteq> i"
    and eq: "\<And>s. s \<noteq> i \<Longrightarrow> a s = b s" and no: "\<And>s. i \<notin> set (a s)" for a b and x y
    using that(1,2)
  proof (induction rule: trancl_induct)
    case (base y)
    then show ?case using eq by (auto simp: parent_rel_def)
  next
    case (step y z)
    have "y \<noteq> i" using step.hyps(2) no by (auto simp: parent_rel_def)
    moreover have "(y, z) \<in> parent_rel b" using step.hyps(2) step.prems eq by (auto simp: parent_rel_def)
    ultimately show ?case using step.IH by (meson trancl.trancl_into_trancl)
  qed
  show "(x, y) \<in> (parent_rel f)\<^sup>+ \<longleftrightarrow> (x, y) \<in> (parent_rel g)\<^sup>+" if "y \<noteq> i"
    using one [of x y f g] one [of x y g f] that same leaf by metis
qed

lemma acyclic_other_parents:
  assumes "acyclic (parent_rel f)" and "\<And>s. s \<noteq> i \<Longrightarrow> f s = g s"
    and "\<And>s. i \<notin> set (f s)" "\<And>s. i \<notin> set (g s)"
  shows "acyclic (parent_rel g)"
proof -
  have "(x, x) \<notin> (parent_rel g)\<^sup>+" for x
  proof (cases "x = i")
    case True
    then show ?thesis using assms(4) by (auto simp: parent_rel_def dest: tranclD)
  next
    case False
    then show ?thesis using assms(1) trancl_other_parents [of i f g x x, OF assms(2-4)] by (simp add: acyclic_def)
  qed
  then show ?thesis by (simp add: acyclic_def)
qed

lemma set_fold_delete: "set (fold js_set_delete ps xs) = set xs - set ps"
  by (induction ps arbitrary: xs) auto

lemma distinct_fold_delete: "distinct xs \<Longrightarrow> distinct (fold js_set_delete ps xs)"
  by (induction ps arbitrary: xs) auto

lemma graph_inv_set_parents:
  assumes inv: "graph_inv tr settled" and i: "i \<notin> settled" and ps: "set ps \<subseteq> settled"
    and tr': "tr_stageParents tr' = jm_set i ps (tr_stageParents tr)" "tr_frontier tr' = tr_frontier tr"
    and nodes: "\<And>j. map_option sn_parentIds (jm_get (tr_nodes tr') j) = jm_get (tr_stageParents tr') j"
  shows "graph_inv tr' settled"
proof -
  have other: "getParents tr s = getParents tr' s" if "s \<noteq> i" for s
    using that by (simp add: getParents_def jm_get_or_def tr')
  have new: "getParents tr' i = ps" by (simp add: getParents_def jm_get_or_def tr')
  have sub: "set (getParents tr s) \<subseteq> settled" for s using inv by (simp add: graph_inv_def)
  have sub': "set (getParents tr' s) \<subseteq> settled" for s using other [of s] sub [of s] new ps by (cases "s = i") auto
  have leaf: "i \<notin> set (getParents tr s)" "i \<notin> set (getParents tr' s)" for s using sub sub' i by blast+
  have "(x, y) \<in> (parent_rel (getParents tr'))\<^sup>+ \<longleftrightarrow> (x, y) \<in> (parent_rel (getParents tr))\<^sup>+" if "y \<in> settled" for x y
    using trancl_other_parents [of i "getParents tr" "getParents tr'" y x, OF other leaf] that i by blast
  then have "latest tr' settled = latest tr settled" by (auto simp: latest_def)
  moreover have "acyclic (parent_rel (getParents tr'))"
    using acyclic_other_parents [of "getParents tr" i "getParents tr'", OF _ other leaf] inv by (simp add: graph_inv_def)
  moreover have "settled \<subseteq> set (jm_keys (tr_stageParents tr'))"
    using inv by (auto simp: graph_inv_def tr' jm_keys_set)
  ultimately show ?thesis using inv sub' nodes by (simp add: graph_inv_def tr')
qed

lemma graph_inv_settle:
  assumes inv: "graph_inv tr settled" and i: "i \<in> set (jm_keys (tr_stageParents tr))" "i \<notin> settled"
  shows "graph_inv (onSettle tr i) (insert i settled)"
proof -
  let ?tr = "onSettle tr i" and ?R = "parent_rel (getParents tr)"
  have same: "getParents ?tr = getParents tr" by (rule ext) (simp add: getParents_def onSettle_def)
  have sub: "set (getParents tr s) \<subseteq> settled" for s using inv by (simp add: graph_inv_def)
  have no_child: "(i, y) \<notin> ?R\<^sup>+" for y
    using sub i(2) by (auto simp: parent_rel_def dest!: tranclD)
  have up: "(x, i) \<in> ?R\<^sup>+ \<longleftrightarrow> x \<in> set (getParents tr i)" if "x \<in> latest tr settled" for x
  proof
    assume "(x, i) \<in> ?R\<^sup>+"
    then obtain p where p: "(x, p) \<in> ?R\<^sup>*" "(p, i) \<in> ?R" by (meson tranclD2)
    then have "p \<in> settled" using sub by (auto simp: parent_rel_def)
    then have "(x, p) \<notin> ?R\<^sup>+" using that by (auto simp: latest_def)
    with p(1) have "x = p" by (auto simp: rtrancl_eq_or_trancl)
    with p(2) show "x \<in> set (getParents tr i)" by (simp add: parent_rel_def)
  qed (auto simp: parent_rel_def)
  have "latest ?tr (insert i settled) = insert i (latest tr settled - set (getParents tr i))"
    using up no_child unfolding latest_def same by blast
  moreover have "set (tr_frontier ?tr) = insert i (set (tr_frontier tr) - set (getParents tr i))"
    by (simp add: onSettle_def set_fold_delete)
  moreover have "distinct (tr_frontier ?tr)"
    using inv by (simp add: onSettle_def graph_inv_def distinct_fold_delete)
  moreover have "tr_stageParents ?tr = tr_stageParents tr" "tr_nodes ?tr = tr_nodes tr" by (simp_all add: onSettle_def)
  ultimately show ?thesis using inv i sub by (auto simp: graph_inv_def same)
qed

lemma tracked_inv: "tracked tr settled \<Longrightarrow> graph_inv tr settled"
proof (induction rule: tracked.induct)
  case tracked_new
  show ?case by (simp add: graph_inv_def tracker_new_def getParents_def jm_get_or_def parent_rel_def latest_def acyclic_def)
next
  case (tracked_spawn tr settled i name tr' parents)
  have "i \<notin> settled" using tracked_spawn.hyps(2) tracked_spawn.IH by (auto simp: graph_inv_def)
  moreover have "set (tr_frontier tr) \<subseteq> settled" using tracked_spawn.IH by (auto simp: graph_inv_def latest_def)
  ultimately show ?case using tracked_spawn.hyps(3) tracked_spawn.IH
    by (intro graph_inv_set_parents [OF tracked_spawn.IH, of i "tr_frontier tr"])
      (auto simp: onSpawn_def Let_def graph_inv_def)
next
  case (tracked_replace tr settled i parents)
  have "jm_get (tr_nodes tr) i \<noteq> None"
    using tracked_replace.hyps(2) tracked_replace.IH unfolding graph_inv_def by (metis map_of_eq_None_iff list.set_map option.map_disc_iff)
  then show ?case using tracked_replace.hyps tracked_replace.IH
    by (intro graph_inv_set_parents [OF tracked_replace.IH, of i parents])
      (auto simp: replaceParents_def graph_inv_def)
next
  case (tracked_settle tr settled i)
  then show ?case using graph_inv_settle by blast
qed

subsection \<open>Walks over ancestors\<close>

text \<open>The breadth-first loop of \<open>hasAncestor\<close> and \<open>blockingAncestorFor\<close>: the first id that is not yet
  seen and at which the walk stops.  The parents may form any relation, cyclic ones included.\<close>

function ancestor_walk :: "(jstr, jstr list) jmap \<Rightarrow> (jstr \<Rightarrow> bool) \<Rightarrow> jstr list \<Rightarrow> jstr list \<Rightarrow> jstr option" where
  "ancestor_walk parents stop [] seen = None"
| "ancestor_walk parents stop (next_id # queue) seen =
     (if next_id \<in> set seen then ancestor_walk parents stop queue seen
      else if stop next_id then Some next_id
      else ancestor_walk parents stop (queue @ jm_get_or [] parents next_id) (js_set_add next_id seen))"
  by pat_completeness auto
termination
proof (relation "measures [\<lambda>(parents, stop, queue, seen). card (set (jm_keys parents) - set seen),
                           \<lambda>(parents, stop, queue, seen). length queue]")
  fix parents :: "(jstr, jstr list) jmap" and stop and next_id :: jstr and queue seen
  assume new: "next_id \<notin> set seen"
  show "((parents, stop, queue @ jm_get_or [] parents next_id, js_set_add next_id seen), (parents, stop, next_id # queue, seen))
      \<in> measures [\<lambda>(parents, stop, queue, seen). card (set (jm_keys parents) - set seen),
                  \<lambda>(parents, stop, queue, seen). length queue]"
  proof (cases "next_id \<in> set (jm_keys parents)")
    case True
    with new have "card (set (jm_keys parents) - insert next_id (set seen)) < card (set (jm_keys parents) - set seen)"
      by (intro psubset_card_mono) auto
    then show ?thesis by simp
  next
    case False
    then have "jm_get parents next_id = None" by (simp add: map_of_eq_None_iff)
    then have "jm_get_or [] parents next_id = []" by (simp add: jm_get_or_def)
    moreover have "set (jm_keys parents) - insert next_id (set seen) = set (jm_keys parents) - set seen" using False by auto
    ultimately show ?thesis by simp
  qed
qed simp_all

definition hasAncestor :: "tracker \<Rightarrow> jstr list \<Rightarrow> jstr \<Rightarrow> bool" where
  "hasAncestor tr parentIds ancestorId =
     (ancestor_walk (tr_stageParents tr) (\<lambda>i. i = ancestorId) parentIds [] \<noteq> None)"

text \<open>What the walk finds: nothing exactly when no id that the queue leads to stops it.\<close>

definition leads_to :: "(jstr, jstr list) jmap \<Rightarrow> jstr list \<Rightarrow> jstr set" where
  "leads_to parents queue = {a. \<exists>q \<in> set queue. (a, q) \<in> (parent_rel (jm_get_or [] parents))\<^sup>*}"

lemma leads_to_closed:
  assumes "set queue \<subseteq> A" and "\<And>x. x \<in> A \<Longrightarrow> set (jm_get_or [] parents x) \<subseteq> A"
  shows "leads_to parents queue \<subseteq> A"
proof -
  have "a \<in> A" if "(a, q) \<in> (parent_rel (jm_get_or [] parents))\<^sup>*" "q \<in> A" for a q
    using that
    by (induction rule: converse_rtrancl_induct) (use assms(2) in \<open>auto simp: parent_rel_def\<close>)
  then show ?thesis using assms(1) by (auto simp: leads_to_def)
qed

lemma leads_to_step: "x \<in> leads_to parents queue \<Longrightarrow> y \<in> set (jm_get_or [] parents x) \<Longrightarrow> y \<in> leads_to parents queue"
  unfolding leads_to_def parent_rel_def by (blast intro: converse_rtrancl_into_rtrancl)

lemma ancestor_walk_found:
  "ancestor_walk parents stop queue seen = Some a \<Longrightarrow> stop a \<and> a \<in> leads_to parents queue"
proof (induction parents stop queue seen rule: ancestor_walk.induct)
  case (2 parents stop x queue seen)
  show ?case
  proof (cases "x \<in> set seen")
    case True
    then show ?thesis using 2 by (auto simp: leads_to_def)
  next
    case False
    show ?thesis
    proof (cases "stop x")
      case True
      then show ?thesis using 2 False by (auto simp: leads_to_def)
    next
      case go: False
      then have "stop a \<and> a \<in> leads_to parents (queue @ jm_get_or [] parents x)" using 2 False by simp
      moreover have "leads_to parents (queue @ jm_get_or [] parents x) \<subseteq> leads_to parents (x # queue)"
        unfolding leads_to_def parent_rel_def by (auto intro: rtrancl_into_rtrancl)
      ultimately show ?thesis by blast
    qed
  qed
qed simp

lemma ancestor_walk_none:
  "ancestor_walk parents stop queue seen = None \<Longrightarrow>
     \<forall>x \<in> set seen. \<not> stop x \<and> set (jm_get_or [] parents x) \<subseteq> set seen \<union> set queue \<Longrightarrow>
     \<exists>A. set queue \<union> set seen \<subseteq> A \<and> (\<forall>x \<in> A. \<not> stop x \<and> set (jm_get_or [] parents x) \<subseteq> A)"
proof (induction parents stop queue seen rule: ancestor_walk.induct)
  case (1 parents stop seen)
  then show ?case by (intro exI [of _ "set seen"]) auto
next
  case (2 parents stop x queue seen)
  show ?case
  proof (cases "x \<in> set seen")
    case True
    then show ?thesis using 2 by (auto simp: insert_absorb)
  next
    case False
    with 2(3) have go: "\<not> stop x" "ancestor_walk parents stop (queue @ jm_get_or [] parents x) (js_set_add x seen) = None"
      by (auto split: if_splits)
    have "\<forall>y \<in> set (js_set_add x seen). \<not> stop y \<and>
        set (jm_get_or [] parents y) \<subseteq> set (js_set_add x seen) \<union> set (queue @ jm_get_or [] parents x)"
      using 2(4) go(1) by auto
    from 2(2) [OF False go(1) go(2) this] obtain A where "set (queue @ jm_get_or [] parents x) \<union> set (js_set_add x seen) \<subseteq> A"
      "\<forall>x \<in> A. \<not> stop x \<and> set (jm_get_or [] parents x) \<subseteq> A" by blast
    then show ?thesis by (intro exI [of _ A]) auto
  qed
qed

lemma ancestor_walk_iff:
  "ancestor_walk parents stop queue [] = None \<longleftrightarrow> (\<forall>a \<in> leads_to parents queue. \<not> stop a)"
proof
  assume "ancestor_walk parents stop queue [] = None"
  from ancestor_walk_none [OF this] obtain A where "set queue \<subseteq> A"
    "\<forall>x \<in> A. \<not> stop x \<and> set (jm_get_or [] parents x) \<subseteq> A" by auto
  then show "\<forall>a \<in> leads_to parents queue. \<not> stop a" using leads_to_closed [of queue A parents] by blast
next
  assume none: "\<forall>a \<in> leads_to parents queue. \<not> stop a"
  show "ancestor_walk parents stop queue [] = None"
  proof (cases "ancestor_walk parents stop queue []")
    case (Some a)
    then show ?thesis using ancestor_walk_found [OF Some] none by blast
  qed
qed

lemma hasAncestor_iff: "hasAncestor tr parentIds a \<longleftrightarrow> a \<in> leads_to (tr_stageParents tr) parentIds"
  by (auto simp: hasAncestor_def ancestor_walk_iff)

subsection \<open>Properties\<close>

text \<open>Example: a stage, and one after it.\<close>

definition demo_tracker :: tracker where
  "demo_tracker = fst (onSpawn (onSettle (fst (onSpawn tracker_new (js ''a'') (js ''A''))) (js ''a'')) (js ''b'') (js ''B''))"

lemma demo_tracker_tracked: "tracked demo_tracker {js ''a''}"
proof -
  let ?t1 = "fst (onSpawn tracker_new (js ''a'') (js ''A''))" and ?t2 = "onSettle (fst (onSpawn tracker_new (js ''a'') (js ''A''))) (js ''a'')"
  have "tracked ?t1 {}" by (rule tracked_spawn [OF tracked_new]) (auto simp: tracker_new_def onSpawn_def Let_def)
  then have "tracked ?t2 (insert (js ''a'') {})"
    by (rule tracked_settle) (simp_all add: tracker_new_def onSpawn_def Let_def)
  then have "tracked ?t2 {js ''a''}" by simp
  then show ?thesis unfolding demo_tracker_def
    by (rule tracked_spawn [where i = "js ''b''" and name = "js ''B''"]) (auto simp: tracker_new_def onSpawn_def onSettle_def Let_def)
qed

text \<open>the frontier is what has not been consumed.  However stages are spawned, rescoped to settled
  parents and settled, the inferred graph has no cycle and only settled parents, and the frontier
  (the parents the next stage gets) is exactly the set of settled stages that are not an ancestor of
  another settled stage, each once.\<close>

theorem frontier_is_latest:
  assumes "tracked tr settled"
  shows "set (currentParents tr) = {x \<in> settled. \<not> (\<exists>y \<in> settled. (x, y) \<in> (parent_rel (getParents tr))\<^sup>+)} \<and>
    distinct (currentParents tr) \<and> acyclic (parent_rel (getParents tr)) \<and>
    (\<forall>s. set (getParents tr s) \<subseteq> settled)"
  using tracked_inv [OF assms] by (simp add: graph_inv_def latest_def currentParents_def)

theorem frontier_is_latest_witness:
  "set (currentParents demo_tracker) =
    {x \<in> {js ''a''}. \<not> (\<exists>y \<in> {js ''a''}. (x, y) \<in> (parent_rel (getParents demo_tracker))\<^sup>+)}"
  using frontier_is_latest [OF demo_tracker_tracked] by simp

text \<open>an ancestor is what the parents lead to.  On any graph, also one with cycles, the walk from the
  parents of a stage ends and finds an id exactly when the id is one of the parents or an ancestor of one.\<close>

theorem hasAncestor_exact:
  "hasAncestor tr parentIds a \<longleftrightarrow>
     (\<exists>p \<in> set parentIds. (a, p) \<in> {(x, y). x \<in> set (getParents tr y)}\<^sup>*)"
  by (simp add: hasAncestor_iff leads_to_def parent_rel_def getParents_def)

end
