(* ===== verification/Stage_Topology.thy ===== *)
theory Stage_Topology
  imports Workflow_Graph
begin

text \<open>
  Validation of the durable stage graph before a nested workflow is resumed
  (\<open>packages/workflows/src/durable/stage-topology-validation.ts\<close>): the identity of prompt occurrences,
  the immutable identity of the records of one stage, and the graph of the direct children of a run.

  \<open>compositeKey\<close> prints a list of strings as JSON, which is injective; the list stands for its text.
  The recursion of \<open>hasCycle\<close> has fuel, and \<open>None\<close> is running out of it.
\<close>

record run_topology =
  rt_runId :: jstr
  rt_runName :: jstr
  rt_parentRunId :: "jstr option"
  rt_parentStageId :: "jstr option"
  rt_rootRunId :: "jstr option"

datatype boundary_event = BoundaryStart | BoundaryTerminal

record stage_topology =
  st_version :: nat
  st_stageId :: jstr
  st_parentIds :: "jstr list"
  st_sourceOrder :: "int option"
  st_occurrenceKey :: "jstr option"
  st_run :: "run_topology option"
  st_boundary :: "boundary_event option"

record stage_checkpoint =
  ck_name :: jstr
  ck_replayKey :: jstr
  ck_topology :: "stage_topology option"

definition STAGE_TOPOLOGY_VERSION :: nat where "STAGE_TOPOLOGY_VERSION = 1"

subsection \<open>Identities\<close>

definition sameRun :: "run_topology option \<Rightarrow> run_topology \<Rightarrow> bool" where
  "sameRun actual expected = (actual = Some expected)"

definition sameOptionalRun :: "run_topology option \<Rightarrow> run_topology option \<Rightarrow> bool" where
  "sameOptionalRun actual expected =
     (case (actual, expected) of (Some a, Some e) \<Rightarrow> sameRun actual e | _ \<Rightarrow> actual = None \<and> expected = None)"

definition compositeKey :: "string \<Rightarrow> jstr list \<Rightarrow> jstr list" where
  "compositeKey domain parts = js domain # parts"

definition ck_occurrence :: "stage_checkpoint \<Rightarrow> jstr option" where
  "ck_occurrence c = Option.bind (ck_topology c) st_occurrenceKey"

definition ck_runId :: "stage_checkpoint \<Rightarrow> jstr option" where
  "ck_runId c = map_option rt_runId (Option.bind (ck_topology c) st_run)"

definition samePromptOccurrenceIdentity :: "stage_checkpoint \<Rightarrow> stage_checkpoint \<Rightarrow> bool" where
  "samePromptOccurrenceIdentity legacy current =
     (case (ck_topology legacy, ck_topology current) of
        (Some left, Some right) \<Rightarrow>
          ck_name legacy = ck_name current \<and> st_version left = st_version right \<and>
          st_stageId left = st_stageId right \<and> st_parentIds left = st_parentIds right \<and>
          st_sourceOrder left = st_sourceOrder right \<and> sameOptionalRun (st_run left) (st_run right) \<and>
          st_boundary left = None \<and> st_boundary right = None
      | _ \<Rightarrow> False)"

text \<open>The current records of the stage that an older record without an occurrence key may belong to.\<close>

definition current_matches :: "stage_checkpoint \<Rightarrow> stage_checkpoint list \<Rightarrow> stage_checkpoint list" where
  "current_matches legacy stages =
     filter (\<lambda>current. ck_occurrence current \<noteq> None \<and> ck_replayKey current = ck_replayKey legacy \<and>
               map_option st_stageId (ck_topology current) = map_option st_stageId (ck_topology legacy)) stages"

definition matchingCurrentOccurrence :: "stage_checkpoint \<Rightarrow> stage_checkpoint list \<Rightarrow> jstr option" where
  "matchingCurrentOccurrence legacy stages =
     (if ck_topology legacy = None then None
      else (let matches = filter (samePromptOccurrenceIdentity legacy) (current_matches legacy stages)
            in case remdups (List.map_filter ck_occurrence matches) of
                 [occurrence] \<Rightarrow> Some occurrence | _ \<Rightarrow> None))"

definition durableStageGroupKey :: "stage_checkpoint \<Rightarrow> stage_checkpoint list \<Rightarrow> jstr list" where
  "durableStageGroupKey stage stages =
     (case (case ck_occurrence stage of Some k \<Rightarrow> Some k | None \<Rightarrow> matchingCurrentOccurrence stage stages) of
        None \<Rightarrow> compositeKey ''stage-replay'' [ck_replayKey stage]
      | Some occurrence \<Rightarrow> compositeKey ''prompt-occurrence'' [ck_replayKey stage, occurrence])"

definition groupByDurableStageKey :: "stage_checkpoint list \<Rightarrow> (jstr list, stage_checkpoint list) jmap" where
  "groupByDurableStageKey stages =
     foldl (\<lambda>groups stage. let key = durableStageGroupKey stage stages
                           in jm_set key (jm_get_or [] groups key @ [stage]) groups) [] stages"

subsection \<open>Prompt occurrences\<close>

text \<open>The first loop: an occurrence belongs to one replay key, and per replay key occurrences and stage
  ids determine each other.\<close>

fun occurrence_loop ::
  "(jstr, jstr) jmap \<Rightarrow> (jstr list, jstr) jmap \<Rightarrow> (jstr list, jstr) jmap \<Rightarrow> stage_checkpoint list \<Rightarrow> string option" where
  "occurrence_loop byOccurrence byStage byReplay [] = None"
| "occurrence_loop byOccurrence byStage byReplay (stage # stages) =
     (case ck_topology stage of
        None \<Rightarrow> occurrence_loop byOccurrence byStage byReplay stages
      | Some topology \<Rightarrow>
          (case st_occurrenceKey topology of
             None \<Rightarrow> occurrence_loop byOccurrence byStage byReplay stages
           | Some occurrence \<Rightarrow>
               (let replayStage = compositeKey ''prompt-stage'' [ck_replayKey stage, st_stageId topology];
                    replayOccurrence = compositeKey ''prompt-occurrence'' [ck_replayKey stage, occurrence];
                    differs = (\<lambda>prior v. case prior of None \<Rightarrow> False | Some p \<Rightarrow> p \<noteq> v)
                in if differs (jm_get byOccurrence occurrence) (ck_replayKey stage)
                   then Some ''prompt occurrence is bound to multiple replay keys''
                   else if differs (jm_get byStage replayStage) occurrence
                   then Some ''prompt stage identity is bound to multiple occurrences''
                   else if differs (jm_get byReplay replayOccurrence) (st_stageId topology)
                   then Some ''prompt occurrence is bound to multiple stage identities''
                   else occurrence_loop (jm_set occurrence (ck_replayKey stage) byOccurrence)
                          (jm_set replayStage occurrence byStage)
                          (jm_set replayOccurrence (st_stageId topology) byReplay) stages)))"

definition promptOccurrenceIdentityError :: "stage_checkpoint list \<Rightarrow> string option" where
  "promptOccurrenceIdentityError stages =
     (case occurrence_loop [] [] [] stages of
        Some e \<Rightarrow> Some e
      | None \<Rightarrow>
          (if list_ex (\<lambda>legacy. ck_topology legacy \<noteq> None \<and> ck_occurrence legacy = None \<and>
                 list_ex (\<lambda>current. \<not> samePromptOccurrenceIdentity legacy current) (current_matches legacy stages)) stages
           then Some ''legacy prompt occurrence immutable identity drifted from current metadata'' else None))"

subsection \<open>One stage\<close>

definition group_error :: "stage_checkpoint list \<Rightarrow> string option" where
  "group_error grp =
     (if list_ex (\<lambda>stage. Some (ck_name stage) \<noteq> map_option ck_name (case grp of [] \<Rightarrow> None | s # _ \<Rightarrow> Some s)) grp
      then Some ''stage name drift within one replay-key group''
      else (case List.map_filter ck_topology grp of
              [] \<Rightarrow> None
            | first # rest \<Rightarrow>
                (if list_ex (\<lambda>t. st_version t \<noteq> STAGE_TOPOLOGY_VERSION \<or> st_stageId t \<noteq> st_stageId first \<or>
                      st_parentIds t \<noteq> st_parentIds first \<or> st_sourceOrder t \<noteq> st_sourceOrder first \<or>
                      \<not> sameOptionalRun (st_run t) (st_run first)) (first # rest)
                 then Some ''immutable stage identity drift within one replay-key group'' else None)))"

fun first_error :: "('a \<Rightarrow> string option) \<Rightarrow> 'a list \<Rightarrow> string option" where
  "first_error f [] = None"
| "first_error f (x # xs) = (case f x of Some e \<Rightarrow> Some e | None \<Rightarrow> first_error f xs)"

definition immutableStageGroupError :: "stage_checkpoint list \<Rightarrow> string option" where
  "immutableStageGroupError stages =
     (case promptOccurrenceIdentityError stages of
        Some e \<Rightarrow> Some e
      | None \<Rightarrow> first_error group_error (jm_values (groupByDurableStageKey stages)))"

subsection \<open>Cycles\<close>

text \<open>\<open>cyclic\<close> and the loop \<open>parents.some(cyclic)\<close>, with the sets of visiting and visited ids.\<close>

type_synonym visits = "jstr list \<times> jstr list"

function cyclic :: "nat \<Rightarrow> (jstr \<Rightarrow> jstr list) \<Rightarrow> jstr \<Rightarrow> visits \<Rightarrow> (bool \<times> visits) option"
  and some_cyclic :: "nat \<Rightarrow> (jstr \<Rightarrow> jstr list) \<Rightarrow> jstr list \<Rightarrow> visits \<Rightarrow> (bool \<times> visits) option" where
  "cyclic 0 parents stageId vs = None"
| "cyclic (Suc n) parents stageId (visiting, visited) =
     (if stageId \<in> set visiting then Some (True, (visiting, visited))
      else if stageId \<in> set visited then Some (False, (visiting, visited))
      else (case some_cyclic n parents (parents stageId) (js_set_add stageId visiting, visited) of
              None \<Rightarrow> None
            | Some (True, vs) \<Rightarrow> Some (True, vs)
            | Some (False, (visiting', visited')) \<Rightarrow>
                Some (False, (js_set_delete stageId visiting', js_set_add stageId visited'))))"
| "some_cyclic n parents [] vs = Some (False, vs)"
| "some_cyclic n parents (stageId # ids) vs =
     (case cyclic n parents stageId vs of
        None \<Rightarrow> None
      | Some (True, vs') \<Rightarrow> Some (True, vs')
      | Some (False, vs') \<Rightarrow> some_cyclic n parents ids vs')"
  by pat_completeness auto
termination
  by (relation "measures [\<lambda>x. case x of Inl (n, _) \<Rightarrow> n | Inr (n, _) \<Rightarrow> n,
        \<lambda>x. case x of Inl _ \<Rightarrow> 0 | Inr (n, p, ids, vs) \<Rightarrow> Suc (length ids)]") auto

definition topology_parents :: "stage_topology list \<Rightarrow> (jstr, jstr list) jmap" where
  "topology_parents topologies = foldl (\<lambda>m t. jm_set (st_stageId t) (st_parentIds t) m) [] topologies"

definition hasCycle_fuel :: "nat \<Rightarrow> stage_topology list \<Rightarrow> bool option" where
  "hasCycle_fuel n topologies =
     map_option fst (some_cyclic n (jm_get_or [] (topology_parents topologies)) (map st_stageId topologies) ([], []))"

definition hasCycle :: "stage_topology list \<Rightarrow> bool" where
  "hasCycle topologies = (hasCycle_fuel (length topologies + 2) topologies = Some True)"

subsection \<open>The direct children of a run\<close>

definition owning_topology :: "jstr \<Rightarrow> stage_checkpoint list \<Rightarrow> stage_topology option" where
  "owning_topology runId grp =
     Option.bind (List.find (\<lambda>stage. ck_runId stage = Some runId) grp) ck_topology"

fun merge_groups :: "bool \<Rightarrow> jstr \<Rightarrow> stage_checkpoint list list \<Rightarrow> string + stage_topology list" where
  "merge_groups requireIdentity runId [] = Inr []"
| "merge_groups requireIdentity runId (grp # groups) =
     (case owning_topology runId grp of
        None \<Rightarrow> Inl ''direct child stage group lacks owning-run topology''
      | Some topology \<Rightarrow>
          (if st_version topology \<noteq> STAGE_TOPOLOGY_VERSION \<or> requireIdentity \<and> st_sourceOrder topology = None
           then Inl ''direct child stage topology lacks current source identity''
           else if length (st_stageId topology) = 0 then Inl ''direct child stage id is empty''
           else (case merge_groups requireIdentity runId groups of
                   Inl e \<Rightarrow> Inl e | Inr merged \<Rightarrow> Inr (topology # merged))))"

text \<open>The loop over the merged stages: their ids and source orders are unique.  The result is the set of
  known node ids.\<close>

fun identity_loop :: "jstr list \<Rightarrow> jstr list \<Rightarrow> int list \<Rightarrow> stage_topology list \<Rightarrow> string + jstr list" where
  "identity_loop ids stageIds orders [] = Inr ids"
| "identity_loop ids stageIds orders (t # ts) =
     (if st_stageId t \<in> set stageIds \<or> st_stageId t \<in> set ids then Inl ''direct child stage ids are not unique''
      else (case st_sourceOrder t of
              None \<Rightarrow> identity_loop (js_set_add (st_stageId t) ids) (js_set_add (st_stageId t) stageIds) orders ts
            | Some order \<Rightarrow>
                (if order \<in> set orders then Inl ''direct child source orders are not unique''
                 else identity_loop (js_set_add (st_stageId t) ids) (js_set_add (st_stageId t) stageIds)
                        (js_set_add order orders) ts)))"

definition merged_error :: "jstr list \<Rightarrow> stage_topology list \<Rightarrow> string option" where
  "merged_error allowedNodeIds merged =
     (case identity_loop allowedNodeIds [] [] merged of
        Inl e \<Rightarrow> Some e
      | Inr ids \<Rightarrow>
          (if list_ex (\<lambda>t. list_ex (\<lambda>p. p \<notin> set ids) (st_parentIds t)) merged
           then Some ''direct child stage references an unknown parent''
           else if hasCycle merged then Some ''direct child stage topology contains a cycle'' else None))"

abbreviation js_colon :: code_unit where "js_colon \<equiv> 58"

definition claiming_stages :: "stage_checkpoint list \<Rightarrow> jstr \<Rightarrow> stage_checkpoint list" where
  "claiming_stages stages runId = filter (\<lambda>stage. ck_runId stage = Some runId) stages"

definition direct_stages :: "stage_checkpoint list \<Rightarrow> jstr \<Rightarrow> stage_checkpoint list" where
  "direct_stages stages runId =
     (let directKeys = map (\<lambda>stage. durableStageGroupKey stage stages) (claiming_stages stages runId)
      in filter (\<lambda>stage. durableStageGroupKey stage stages \<in> set directKeys) stages)"

definition directChildTopologyError ::
  "stage_checkpoint list \<Rightarrow> jstr \<Rightarrow> run_topology \<Rightarrow> bool \<Rightarrow> jstr list \<Rightarrow> string option" where
  "directChildTopologyError stages replayScope expectedRun requireCurrentIdentity allowedNodeIds =
     (let prefix = replayScope @ [js_colon];
          claiming = claiming_stages stages (rt_runId expectedRun)
      in if list_ex (\<lambda>stage. \<not> js_startsWith (ck_replayKey stage) prefix) claiming
         then Some ''child run topology exists outside its durable invocation scope''
         else if list_ex (\<lambda>stage. \<not> sameRun (Option.bind (ck_topology stage) st_run) expectedRun) claiming
         then Some ''child checkpoint ownership is not reciprocal''
         else (let direct = direct_stages stages (rt_runId expectedRun)
               in case immutableStageGroupError direct of
                    Some e \<Rightarrow> Some e
                  | None \<Rightarrow>
                      (case merge_groups requireCurrentIdentity (rt_runId expectedRun)
                              (jm_values (groupByDurableStageKey direct)) of
                         Inl e \<Rightarrow> Some e
                       | Inr merged \<Rightarrow> merged_error allowedNodeIds merged)))"

text \<open>\<open>owningBoundaryIdError\<close>: the start records of a run's boundaries do not share stage ids.\<close>

fun boundary_id_loop :: "(jstr, jstr) jmap \<Rightarrow> stage_checkpoint list \<Rightarrow> string option" where
  "boundary_id_loop seen [] = None"
| "boundary_id_loop seen (start # starts) =
     (case ck_topology start of
        None \<Rightarrow> boundary_id_loop seen starts
      | Some t \<Rightarrow>
          (if length (st_stageId t) = 0 then Some ''owning-run boundary stage id is empty''
           else (case jm_get seen (st_stageId t) of
                   Some prior \<Rightarrow>
                     (if prior \<noteq> ck_replayKey start then Some ''owning-run boundary stage id is aliased''
                      else boundary_id_loop (jm_set (st_stageId t) (ck_replayKey start) seen) starts)
                 | None \<Rightarrow> boundary_id_loop (jm_set (st_stageId t) (ck_replayKey start) seen) starts)))"

definition owningBoundaryIdError :: "stage_checkpoint list \<Rightarrow> jstr \<Rightarrow> string option" where
  "owningBoundaryIdError stages owningRunId =
     boundary_id_loop []
       (filter (\<lambda>stage. ck_runId stage = Some owningRunId \<and>
                  Option.bind (ck_topology stage) st_boundary = Some BoundaryStart) stages)"

subsection \<open>The search is exact\<close>

lemma cyclic_visiting:
  "cyclic n P i vs = Some (False, vs') \<Longrightarrow> set (fst vs') = set (fst vs)"
  "some_cyclic n P ids vs = Some (False, vs') \<Longrightarrow> set (fst vs') = set (fst vs)"
proof (induction n P i vs and n P ids vs arbitrary: vs' and vs' rule: cyclic_some_cyclic.induct)
  case (2 n P i visiting visited)
  show ?case
  proof (cases "i \<in> set visiting \<or> i \<in> set visited")
    case True
    then show ?thesis using 2(2) by (auto split: if_splits)
  next
    case False
    then obtain vs0 where s: "some_cyclic n P (P i) (js_set_add i visiting, visited) = Some (False, vs0)"
      and vs': "vs' = (js_set_delete i (fst vs0), js_set_add i (snd vs0))"
      using 2(2) by (auto split: option.splits bool.splits prod.splits)
    have "set (fst vs0) = insert i (set visiting)" using 2(1) [OF _ _ s] False by simp
    then show ?thesis using False by (auto simp: vs')
  qed
next
  case (4 n P i ids vs)
  then obtain vs0 where c: "cyclic n P i vs = Some (False, vs0)" and s: "some_cyclic n P ids vs0 = Some (False, vs')"
    by (auto split: option.splits bool.splits prod.splits)
  show ?case using 4(1) [OF c] 4(2) [OF c _ _ s] by (metis (full_types))
qed auto

lemma cyclic_fuel:
  assumes fin: "finite K" and out: "\<And>s. s \<notin> K \<Longrightarrow> P s = []"
  shows "card (K - set (fst vs)) < n \<Longrightarrow> cyclic n P i vs \<noteq> None"
    and "ids = [] \<or> card (K - set (fst vs)) < n \<Longrightarrow> some_cyclic n P ids vs \<noteq> None"
  using out
proof (induction n P i vs and n P ids vs rule: cyclic_some_cyclic.induct)
  case (2 n P i visiting visited)
  show ?case
  proof (cases "i \<in> set visiting \<or> i \<in> set visited")
    case False
    have "P i = [] \<or> card (K - insert i (set visiting)) < n"
    proof (cases "i \<in> K")
      case True
      then have "card (K - insert i (set visiting)) < card (K - set visiting)"
        using False fin by (intro psubset_card_mono) auto
      then show ?thesis using 2(2) by simp
    qed (use 2(3) in auto)
    then have "some_cyclic n P (P i) (js_set_add i visiting, visited) \<noteq> None" using 2 False by simp
    then show ?thesis using False by (auto split: bool.splits prod.splits)
  qed auto
next
  case (4 n P i ids vs)
  then have "cyclic n P i vs \<noteq> None" by auto
  then obtain r vs' where r: "cyclic n P i vs = Some (r, vs')" by auto
  show ?case
  proof (cases r)
    case False
    then show ?thesis using 4 r cyclic_visiting(1) [of n P i vs vs'] by simp
  qed (simp add: r)
qed auto

text \<open>The visited ids are closed under parents and lie on no cycle; the visiting ids are descendants of
  the id under visit.\<close>

definition visits_ok :: "(jstr \<Rightarrow> jstr list) \<Rightarrow> visits \<Rightarrow> bool" where
  "visits_ok P vs \<longleftrightarrow> (case vs of (visiting, visited) \<Rightarrow>
     set visiting \<inter> set visited = {} \<and> (\<forall>v \<in> set visited. set (P v) \<subseteq> set visited) \<and>
     (\<forall>v \<in> set visited. (v, v) \<notin> (parent_rel P)\<^sup>+))"

lemma closed_ancestors:
  assumes "\<forall>v \<in> A. set (P v) \<subseteq> A" and "(x, y) \<in> (parent_rel P)\<^sup>*" and "y \<in> A"
  shows "x \<in> A"
  using assms(2,3) by (induction rule: converse_rtrancl_induct) (use assms(1) in \<open>auto simp: parent_rel_def\<close>)

lemma visits_ok_visited:
  assumes ok: "visits_ok P (visiting, visited)" and i: "i \<in> set visiting" and ps: "set (P i) \<subseteq> set visited"
  shows "visits_ok P (js_set_delete i visiting, js_set_add i visited)"
proof -
  have "(i, i) \<notin> (parent_rel P)\<^sup>+"
  proof
    assume "(i, i) \<in> (parent_rel P)\<^sup>+"
    then obtain p where "(i, p) \<in> (parent_rel P)\<^sup>*" "(p, i) \<in> parent_rel P" by (meson tranclD2)
    then have "i \<in> set visited"
      using closed_ancestors [of "set visited" P i p] ok ps by (auto simp: visits_ok_def parent_rel_def)
    then show False using ok i by (auto simp: visits_ok_def)
  qed
  then show ?thesis using ok ps by (auto simp: visits_ok_def)
qed

lemma cyclic_correct:
  "cyclic n P i vs = Some (r, vs') \<Longrightarrow> visits_ok P vs \<Longrightarrow> \<forall>v \<in> set (fst vs). (i, v) \<in> (parent_rel P)\<^sup>+ \<Longrightarrow>
     (if r then \<exists>x. (x, x) \<in> (parent_rel P)\<^sup>+
      else visits_ok P vs' \<and> i \<in> set (snd vs') \<and> set (snd vs) \<subseteq> set (snd vs'))"
  "some_cyclic n P ids vs = Some (r, vs') \<Longrightarrow> visits_ok P vs \<Longrightarrow>
     \<forall>i \<in> set ids. \<forall>v \<in> set (fst vs). (i, v) \<in> (parent_rel P)\<^sup>+ \<Longrightarrow>
     (if r then \<exists>x. (x, x) \<in> (parent_rel P)\<^sup>+
      else visits_ok P vs' \<and> set ids \<subseteq> set (snd vs') \<and> set (snd vs) \<subseteq> set (snd vs'))"
proof (induction n P i vs and n P ids vs arbitrary: r vs' and r vs' rule: cyclic_some_cyclic.induct)
  case (2 n P i visiting visited)
  show ?case
  proof (cases "i \<in> set visiting \<or> i \<in> set visited")
    case True
    then show ?thesis using 2(2-4) by (auto split: if_splits)
  next
    case False
    let ?vs = "(js_set_add i visiting, visited)"
    have ok: "visits_ok P ?vs" using 2(3) False by (auto simp: visits_ok_def)
    have below: "\<forall>p \<in> set (P i). \<forall>v \<in> set (fst ?vs). (p, v) \<in> (parent_rel P)\<^sup>+"
    proof (intro ballI)
      fix p v assume "p \<in> set (P i)" and v: "v \<in> set (fst ?vs)"
      then have "(p, i) \<in> parent_rel P" by (simp add: parent_rel_def)
      then show "(p, v) \<in> (parent_rel P)\<^sup>+" using v 2(4) by (cases "v = i") (auto intro: trancl_into_trancl2)
    qed
    obtain r0 vs0 where s: "some_cyclic n P (P i) ?vs = Some (r0, vs0)"
      using 2(2) False by (auto split: option.splits)
    have IH: "if r0 then \<exists>x. (x, x) \<in> (parent_rel P)\<^sup>+
      else visits_ok P vs0 \<and> set (P i) \<subseteq> set (snd vs0) \<and> set (snd ?vs) \<subseteq> set (snd vs0)"
      using 2(1) [OF _ _ s ok below] False by auto
    show ?thesis
    proof (cases r0)
      case True
      then show ?thesis using 2(2) False s IH by auto
    next
      case F: False
      obtain visiting' visited' where vs0: "vs0 = (visiting', visited')" by (cases vs0)
      have "i \<in> set visiting'" using cyclic_visiting(2) [of n P "P i" ?vs vs0] s F vs0 by simp
      then have "visits_ok P (js_set_delete i visiting', js_set_add i visited')"
        using visits_ok_visited [of P visiting' visited' i] IH F vs0 by simp
      then show ?thesis using 2(2) False s IH F vs0 by auto
    qed
  qed
next
  case (4 n P i ids vs)
  obtain r0 vs0 where c: "cyclic n P i vs = Some (r0, vs0)" using 4(3) by (auto split: option.splits)
  have IH: "if r0 then \<exists>x. (x, x) \<in> (parent_rel P)\<^sup>+
      else visits_ok P vs0 \<and> i \<in> set (snd vs0) \<and> set (snd vs) \<subseteq> set (snd vs0)"
    using 4(1) [OF c 4(4)] 4(5) by simp
  show ?case
  proof (cases r0)
    case True
    then show ?thesis using 4(3) c IH by simp
  next
    case False
    have same: "set (fst vs0) = set (fst vs)" using cyclic_visiting(1) [of n P i vs vs0] c False by simp
    have s: "some_cyclic n P ids vs0 = Some (r, vs')" using 4(3) c False by simp
    have "if r then \<exists>x. (x, x) \<in> (parent_rel P)\<^sup>+
      else visits_ok P vs' \<and> set ids \<subseteq> set (snd vs') \<and> set (snd vs0) \<subseteq> set (snd vs')"
      using 4(2) [OF c _ _ s] IH False same 4(5) by simp
    then show ?thesis using IH False by (auto split: if_splits)
  qed
qed auto

lemma topology_parents_keys:
  "set (jm_keys (foldl (\<lambda>m t. jm_set (st_stageId t) (st_parentIds t) m) m ts)) = set (jm_keys m) \<union> set (map st_stageId ts)"
proof (induction ts arbitrary: m)
  case (Cons t ts)
  have "set (jm_keys (jm_set (st_stageId t) (st_parentIds t) m)) = insert (st_stageId t) (set (jm_keys m))"
    unfolding jm_keys_set by (simp del: set_map) blast
  then show ?case using Cons by (simp del: set_map)
qed simp

abbreviation topology_rel :: "stage_topology list \<Rightarrow> (jstr \<times> jstr) set" where
  "topology_rel ts \<equiv> parent_rel (jm_get_or [] (topology_parents ts))"

lemma hasCycle_result:
  assumes "length ts < n"
  shows "hasCycle_fuel n ts = Some (\<not> acyclic (topology_rel ts))"
proof -
  let ?P = "jm_get_or [] (topology_parents ts)" and ?ids = "map st_stageId ts"
  let ?K = "set ?ids"
  have keys: "set (jm_keys (topology_parents ts)) = ?K" by (simp only: topology_parents_def topology_parents_keys) simp
  have out: "?P s = []" if "s \<notin> ?K" for s
    using that keys by (simp add: jm_get_or_def map_of_eq_None_iff [THEN iffD2])
  have "card ?K < n" using card_length [of ?ids] assms by simp
  then obtain r vs where s: "some_cyclic n ?P ?ids ([], []) = Some (r, vs)"
    using cyclic_fuel(2) [of ?K ?P ?ids "([], [])" n] out by fastforce
  have "visits_ok ?P ([], [])" by (simp add: visits_ok_def)
  from cyclic_correct(2) [OF s this] have C: "if r then \<exists>x. (x, x) \<in> (topology_rel ts)\<^sup>+
      else visits_ok ?P vs \<and> ?K \<subseteq> set (snd vs)" by (simp split: if_splits)
  have "acyclic (topology_rel ts)" if "\<not> r"
  proof -
    have "(x, x) \<notin> (topology_rel ts)\<^sup>+" for x
    proof
      assume x: "(x, x) \<in> (topology_rel ts)\<^sup>+"
      then have "?P x \<noteq> []" by (auto simp: parent_rel_def dest!: tranclD2)
      then have "x \<in> ?K" using out by blast
      then show False using C that x by (cases vs) (auto simp: visits_ok_def)
    qed
    then show ?thesis by (simp add: acyclic_def)
  qed
  moreover have "\<not> acyclic (topology_rel ts)" if r using C that by (auto simp: acyclic_def)
  ultimately show ?thesis using s by (auto simp: hasCycle_fuel_def)
qed

lemma hasCycle_iff: "hasCycle ts \<longleftrightarrow> \<not> acyclic (topology_rel ts)"
  by (simp add: hasCycle_def hasCycle_result)

subsection \<open>Groups\<close>

lemma group_fold:
  fixes f :: "'a \<Rightarrow> 'k"
  defines "add \<equiv> \<lambda>groups x. jm_set (f x) (jm_get_or [] groups (f x) @ [x]) groups"
  assumes "jm_wf m"
  shows "jm_wf (foldl add m xs)"
    and "jm_get_or [] (foldl add m xs) k = jm_get_or [] m k @ filter (\<lambda>x. f x = k) xs"
    and "set (jm_keys (foldl add m xs)) = set (jm_keys m) \<union> f ` set xs"
proof -
  have keys: "set (jm_keys (add m x)) = insert (f x) (set (jm_keys m))" for m x
    unfolding add_def jm_keys_set by (simp del: set_map) blast
  show "jm_wf (foldl add m xs)" using assms(2)
  proof (induction xs arbitrary: m)
    case (Cons x xs)
    then show ?case by (simp add: add_def del: foldl_cong)
  qed simp
  show "jm_get_or [] (foldl add m xs) k = jm_get_or [] m k @ filter (\<lambda>x. f x = k) xs"
  proof (induction xs arbitrary: m)
    case (Cons x xs)
    have "jm_get_or [] (add m x) k = jm_get_or [] m k @ (if f x = k then [x] else [])"
      by (simp add: add_def jm_get_or_set)
    then show ?case using Cons [of "add m x"] by simp
  qed simp
  show "set (jm_keys (foldl add m xs)) = set (jm_keys m) \<union> f ` set xs"
  proof (induction xs arbitrary: m)
    case (Cons x xs)
    then show ?case using keys [of m x] by (simp del: set_map)
  qed (simp del: set_map)
qed

lemma groups_values:
  "set (jm_values (groupByDurableStageKey stages)) =
     (\<lambda>k. filter (\<lambda>x. durableStageGroupKey x stages = k) stages) ` (\<lambda>x. durableStageGroupKey x stages) ` set stages"
proof -
  let ?key = "\<lambda>x. durableStageGroupKey x stages"
  let ?m = "groupByDurableStageKey stages"
  note F = group_fold [of "[]" ?key]
  have m: "?m = foldl (\<lambda>groups x. jm_set (?key x) (jm_get_or [] groups (?key x) @ [x]) groups) [] stages"
    by (simp add: groupByDurableStageKey_def Let_def)
  have wf: "jm_wf ?m" unfolding m by (rule F(1)) simp
  have get: "jm_get_or [] ?m k = filter (\<lambda>x. ?key x = k) stages" for k
    unfolding m by (subst F(2)) (simp_all add: jm_get_or_def)
  have keys: "set (jm_keys ?m) = ?key ` set stages" unfolding m by (subst F(3)) simp_all
  have "v \<in> set (jm_values ?m) \<longleftrightarrow> (\<exists>k. jm_get ?m k = Some v)" for v
    using map_of_eq_Some_iff [OF wf] by force
  moreover have "jm_get ?m k = Some v \<longleftrightarrow> k \<in> ?key ` set stages \<and> v = filter (\<lambda>x. ?key x = k) stages" for k v
    unfolding keys [symmetric] get [symmetric] jm_get_or_def
    by (metis map_of_eq_None_iff list.set_map not_Some_eq option.case(2) option.inject)
  ultimately show ?thesis unfolding set_eq_iff by (simp add: image_iff del: set_map) blast
qed

lemma set_map_filter: "set (List.map_filter f xs) = {y. \<exists>x \<in> set xs. f x = Some y}"
  by (induction xs) (auto simp: List.map_filter_simps split: option.split)

lemma group_error_None:
  assumes "group_error g = None" and "c \<in> set g" "ck_topology c = Some t" and "d \<in> set g" "ck_topology d = Some u"
  shows "st_stageId t = st_stageId u \<and> st_parentIds t = st_parentIds u \<and> st_sourceOrder t = st_sourceOrder u"
proof -
  let ?ts = "List.map_filter ck_topology g"
  have tu: "t \<in> set ?ts" "u \<in> set ?ts" using assms(2-5) by (auto simp: set_map_filter)
  then obtain first rest where ts: "?ts = first # rest" by (cases ?ts) auto
  have "v \<in> set ?ts \<Longrightarrow> st_stageId v = st_stageId first \<and> st_parentIds v = st_parentIds first \<and>
      st_sourceOrder v = st_sourceOrder first" for v
    using assms(1) ts by (auto simp: group_error_def list_ex_iff split: if_splits)
  from this [OF tu(1)] this [OF tu(2)] show ?thesis by simp
qed

lemma first_error_None: "first_error f xs = None \<longleftrightarrow> (\<forall>x \<in> set xs. f x = None)"
  by (induction xs) (auto split: option.split)

lemma merge_groups_spec:
  "merge_groups req runId groups = Inr merged \<Longrightarrow>
     map Some merged = map (owning_topology runId) groups \<and>
     (\<forall>t \<in> set merged. st_stageId t \<noteq> [] \<and> (req \<longrightarrow> st_sourceOrder t \<noteq> None))"
  by (induction groups arbitrary: merged) (auto split: option.splits if_splits sum.splits)

lemma identity_loop_spec:
  "identity_loop ids stageIds orders ts = Inr ids' \<Longrightarrow>
     distinct (map st_stageId ts) \<and> set (map st_stageId ts) \<inter> (set ids \<union> set stageIds) = {} \<and>
     set ids' = set ids \<union> set (map st_stageId ts) \<and>
     distinct (List.map_filter st_sourceOrder ts) \<and> set (List.map_filter st_sourceOrder ts) \<inter> set orders = {}"
proof (induction ids stageIds orders ts rule: identity_loop.induct)
  case (2 ids stageIds orders t ts)
  show ?case
  proof (cases "st_sourceOrder t")
    case None
    then show ?thesis using 2 by (auto simp: List.map_filter_simps split: if_splits)
  next
    case (Some order)
    then show ?thesis using 2 by (auto simp: List.map_filter_simps split: if_splits)
  qed
qed (simp add: List.map_filter_simps)

lemma topology_parents_other:
  "k \<notin> st_stageId ` set ts \<Longrightarrow> jm_get (foldl (\<lambda>m t. jm_set (st_stageId t) (st_parentIds t) m) m ts) k = jm_get m k"
  by (induction ts arbitrary: m) auto

lemma topology_parents_get:
  assumes "distinct (map st_stageId ts)" and "t \<in> set ts"
  shows "jm_get_or [] (topology_parents ts) (st_stageId t) = st_parentIds t"
proof -
  have "jm_get (foldl (\<lambda>m t. jm_set (st_stageId t) (st_parentIds t) m) m ts) (st_stageId t) = Some (st_parentIds t)" for m
    using assms
  proof (induction ts arbitrary: m)
    case (Cons u ts)
    then show ?case by (cases "t = u") (auto simp: topology_parents_other)
  qed simp
  then show ?thesis by (simp add: topology_parents_def)
qed

lemma acyclic_rank:
  assumes "finite R" and "acyclic R"
  shows "\<exists>rank :: 'a \<Rightarrow> nat. \<forall>(p, s) \<in> R. rank p < rank s"
proof (intro exI ballI, clarify)
  fix p s assume ps: "(p, s) \<in> R"
  have fin: "finite {x. (x, y) \<in> R\<^sup>+}" for y
    by (rule finite_subset [of _ "Domain R"]) (use assms(1) in \<open>auto simp: finite_Domain dest: tranclD\<close>)
  have "{x. (x, p) \<in> R\<^sup>+} \<subset> {x. (x, s) \<in> R\<^sup>+}"
    using ps assms(2) by (auto simp: acyclic_def intro: trancl_into_trancl)
  then show "card {x. (x, p) \<in> R\<^sup>+} < card {x. (x, s) \<in> R\<^sup>+}" using fin by (rule psubset_card_mono [rotated])
qed

text \<open>The merged stages of an accepted child form a graph whose edges go forward.\<close>

lemma merged_error_None:
  assumes "merged_error allowed merged = None"
  shows "distinct (map st_stageId merged)" and "set (map st_stageId merged) \<inter> set allowed = {}"
    and "distinct (List.map_filter st_sourceOrder merged)"
    and "\<forall>t \<in> set merged. set (st_parentIds t) \<subseteq> set allowed \<union> set (map st_stageId merged)"
    and "\<exists>rank :: jstr \<Rightarrow> nat. \<forall>t \<in> set merged. \<forall>p \<in> set (st_parentIds t). rank p < rank (st_stageId t)"
proof -
  obtain ids where l: "identity_loop allowed [] [] merged = Inr ids"
    and known: "\<forall>t \<in> set merged. set (st_parentIds t) \<subseteq> set ids" and acyc: "\<not> hasCycle merged"
    using assms by (auto simp: merged_error_def list_ex_iff split: sum.splits if_splits)
  note I = identity_loop_spec [OF l]
  show d: "distinct (map st_stageId merged)" and "set (map st_stageId merged) \<inter> set allowed = {}"
    and "distinct (List.map_filter st_sourceOrder merged)" using I by auto
  show "\<forall>t \<in> set merged. set (st_parentIds t) \<subseteq> set allowed \<union> set (map st_stageId merged)"
    using I known by auto
  have edge: "(p, st_stageId t) \<in> topology_rel merged" if "t \<in> set merged" "p \<in> set (st_parentIds t)" for p t
    using that topology_parents_get [OF d] by (simp add: parent_rel_def)
  have "topology_rel merged \<subseteq> (\<Union>t \<in> set merged. set (st_parentIds t)) \<times> (st_stageId ` set merged)"
  proof (clarify, intro conjI SigmaI)
    fix p s assume "(p, s) \<in> topology_rel merged"
    then have p: "p \<in> set (jm_get_or [] (topology_parents merged) s)" by (simp add: parent_rel_def)
    have "s \<in> st_stageId ` set merged"
    proof (rule ccontr)
      assume "s \<notin> st_stageId ` set merged"
      then have "jm_get (topology_parents merged) s = None"
        using topology_parents_other [of s merged "[]"] by (simp add: topology_parents_def)
      then show False using p by (simp add: jm_get_or_def)
    qed
    with p topology_parents_get [OF d] show "s \<in> st_stageId ` set merged" "p \<in> (\<Union>t \<in> set merged. set (st_parentIds t))" by auto
  qed
  then have "finite (topology_rel merged)" by (rule finite_subset) auto
  then show "\<exists>rank :: jstr \<Rightarrow> nat. \<forall>t \<in> set merged. \<forall>p \<in> set (st_parentIds t). rank p < rank (st_stageId t)"
    using acyclic_rank [of "topology_rel merged"] acyc edge unfolding hasCycle_iff by blast
qed

text \<open>Every record of the run is represented by the merged stage of its group.\<close>

lemma merged_represents:
  assumes none: "immutableStageGroupError direct = None"
    and merged: "merge_groups req runId (jm_values (groupByDurableStageKey direct)) = Inr merged"
    and c: "c \<in> set direct" "ck_topology c = Some t"
  shows "\<exists>u \<in> set merged. st_stageId t = st_stageId u \<and> st_parentIds t = st_parentIds u \<and> st_sourceOrder t = st_sourceOrder u"
proof -
  let ?g = "filter (\<lambda>x. durableStageGroupKey x direct = durableStageGroupKey c direct) direct"
  have g: "?g \<in> set (jm_values (groupByDurableStageKey direct))" "c \<in> set ?g"
    using c(1) unfolding groups_values by auto
  then have ok: "group_error ?g = None"
    using none by (auto simp: immutableStageGroupError_def first_error_None split: option.splits)
  have "owning_topology runId ?g \<in> Some ` set merged"
    using merge_groups_spec [OF merged] g(1) by (metis (no_types) image_eqI list.set_map)
  then obtain u d where u: "u \<in> set merged" "List.find (\<lambda>s. ck_runId s = Some runId) ?g = Some d" "ck_topology d = Some u"
    by (auto simp: owning_topology_def split: bind_splits)
  have "d \<in> set ?g" using find_Some [OF u(2)] by simp
  then show ?thesis using group_error_None [OF ok g(2) c(2) _ u(3)] u(1) by blast
qed

definition same_stage :: "stage_topology \<Rightarrow> stage_topology \<Rightarrow> bool" where
  "same_stage t u \<longleftrightarrow> st_stageId t = st_stageId u \<and> st_parentIds t = st_parentIds u \<and> st_sourceOrder t = st_sourceOrder u"

definition owned_topologies :: "stage_checkpoint list \<Rightarrow> jstr \<Rightarrow> stage_topology set" where
  "owned_topologies stages runId = {t. \<exists>c \<in> set stages. ck_topology c = Some t \<and> ck_runId c = Some runId}"

lemma merged_unique:
  assumes "merged_error allowed merged = None"
  shows "t \<in> set merged \<Longrightarrow> u \<in> set merged \<Longrightarrow> st_stageId t = st_stageId u \<Longrightarrow> t = u"
    and "t \<in> set merged \<Longrightarrow> u \<in> set merged \<Longrightarrow> st_sourceOrder t = st_sourceOrder u \<Longrightarrow> st_sourceOrder t \<noteq> None \<Longrightarrow> t = u"
proof -
  note D = merged_error_None [OF assms]
  show "t = u" if "t \<in> set merged" "u \<in> set merged" "st_stageId t = st_stageId u"
    using D(1) that by (metis distinct_map inj_onD)
  show "t = u" if "t \<in> set merged" "u \<in> set merged" "st_sourceOrder t = st_sourceOrder u" "st_sourceOrder t \<noteq> None"
    using D(3) that
  proof (induction merged)
    case (Cons v vs)
    have "the (st_sourceOrder v) \<notin> set (List.map_filter st_sourceOrder vs)" if "st_sourceOrder v \<noteq> None"
      using Cons.prems(1) that by (auto simp: List.map_filter_simps split: option.splits)
    then show ?case using Cons by (auto simp: List.map_filter_simps set_map_filter split: option.splits)
  qed simp
qed

lemma merged_owned:
  assumes "merge_groups req runId (jm_values (groupByDurableStageKey (direct_stages stages runId))) = Inr merged"
  shows "set merged \<subseteq> owned_topologies stages runId"
proof
  fix u assume "u \<in> set merged"
  then have "Some u \<in> owning_topology runId ` set (jm_values (groupByDurableStageKey (direct_stages stages runId)))"
    using merge_groups_spec [OF assms] by (metis image_eqI list.set_map)
  then obtain g where g: "g \<in> set (jm_values (groupByDurableStageKey (direct_stages stages runId)))"
    "Some u = owning_topology runId g" by blast
  then obtain c where c: "c \<in> set g" "ck_runId c = Some runId" "ck_topology c = Some u"
    by (auto simp: owning_topology_def split: bind_splits dest!: find_Some)
  have "set g \<subseteq> set (direct_stages stages runId)" using g(1) unfolding groups_values by auto
  then have "c \<in> set stages" using c(1) by (auto simp: direct_stages_def Let_def)
  with c show "u \<in> owned_topologies stages runId" by (auto simp: owned_topologies_def)
qed

lemma accepted_merged:
  assumes "directChildTopologyError stages replayScope expectedRun requireIdentity allowed = None"
  shows "\<exists>merged. (\<forall>c \<in> set (claiming_stages stages (rt_runId expectedRun)). js_startsWith (ck_replayKey c) (replayScope @ [js_colon])) \<and>
    (\<forall>t \<in> owned_topologies stages (rt_runId expectedRun). st_run t = Some expectedRun) \<and>
    merged_error allowed merged = None \<and>
    (\<forall>t \<in> set merged. st_stageId t \<noteq> [] \<and> (requireIdentity \<longrightarrow> st_sourceOrder t \<noteq> None)) \<and>
    set merged \<subseteq> owned_topologies stages (rt_runId expectedRun) \<and>
    (\<forall>t \<in> owned_topologies stages (rt_runId expectedRun). \<exists>u \<in> set merged. same_stage t u)"
proof -
  let ?r = "rt_runId expectedRun"
  let ?direct = "direct_stages stages ?r"
  obtain merged where scope: "\<forall>c \<in> set (claiming_stages stages ?r). js_startsWith (ck_replayKey c) (replayScope @ [js_colon])"
    and owner: "\<forall>c \<in> set (claiming_stages stages ?r). sameRun (Option.bind (ck_topology c) st_run) expectedRun"
    and none: "immutableStageGroupError ?direct = None"
    and merged: "merge_groups requireIdentity ?r (jm_values (groupByDurableStageKey ?direct)) = Inr merged"
    and ok: "merged_error allowed merged = None"
    using assms by (auto simp: directChildTopologyError_def Let_def list_ex_iff split: if_splits option.splits sum.splits)
  have "\<exists>u \<in> set merged. same_stage t u" if "t \<in> owned_topologies stages ?r" for t
    using that merged_represents [OF none merged]
    by (auto simp: owned_topologies_def same_stage_def direct_stages_def claiming_stages_def)
  moreover have "\<forall>t \<in> owned_topologies stages ?r. st_run t = Some expectedRun"
    using owner by (auto simp: owned_topologies_def claiming_stages_def sameRun_def)
  ultimately show ?thesis using scope ok merge_groups_spec [OF merged] merged_owned [OF merged]
    by (intro exI [of _ merged]) blast
qed

text \<open>Example: two stages of a child run, the second after the first.\<close>

definition demo_run :: run_topology where
  "demo_run = \<lparr>rt_runId = js ''r'', rt_runName = [], rt_parentRunId = None, rt_parentStageId = None, rt_rootRunId = None\<rparr>"

definition demo_stage :: "string \<Rightarrow> string list \<Rightarrow> int \<Rightarrow> stage_checkpoint" where
  "demo_stage i parents order = \<lparr>ck_name = js i, ck_replayKey = js (''s:'' @ i),
     ck_topology = Some \<lparr>st_version = 1, st_stageId = js i, st_parentIds = map js parents, st_sourceOrder = Some order,
       st_occurrenceKey = None, st_run = Some demo_run, st_boundary = None\<rparr>\<rparr>"

definition demo_stages :: "stage_checkpoint list" where
  "demo_stages = [demo_stage ''a'' [] 0, demo_stage ''b'' [''a''] 1]"

lemma demo_stages_accepted: "directChildTopologyError demo_stages (js ''s'') demo_run True [] = None"
proof -
  let ?a = "demo_stage ''a'' [] 0" and ?b = "demo_stage ''b'' [''a''] 1"
  have occ: "ck_occurrence ?a = None" "ck_occurrence ?b = None" by (simp_all add: demo_stage_def ck_occurrence_def)
  have run: "ck_runId ?a = Some (js ''r'')" "ck_runId ?b = Some (js ''r'')"
    by (simp_all add: demo_stage_def demo_run_def ck_runId_def)
  have key: "durableStageGroupKey ?a demo_stages = [js ''stage-replay'', js ''s:a'']"
    "durableStageGroupKey ?b demo_stages = [js ''stage-replay'', js ''s:b'']"
    using occ by (simp_all add: durableStageGroupKey_def compositeKey_def matchingCurrentOccurrence_def current_matches_def
        demo_stages_def) (simp_all add: demo_stage_def List.map_filter_simps)
  have direct: "claiming_stages demo_stages (js ''r'') = demo_stages" "direct_stages demo_stages (js ''r'') = demo_stages"
    using run by (simp_all add: claiming_stages_def direct_stages_def demo_stages_def)
  have groups: "jm_values (groupByDurableStageKey demo_stages) = [[?a], [?b]]"
    using key by (simp add: groupByDurableStageKey_def) (simp add: demo_stages_def jm_get_or_def Let_def)
  have prompts: "promptOccurrenceIdentityError demo_stages = None"
    using occ by (simp add: promptOccurrenceIdentityError_def demo_stages_def current_matches_def) (simp add: demo_stage_def)
  have same: "immutableStageGroupError demo_stages = None"
    by (simp add: immutableStageGroupError_def prompts groups group_error_def demo_stage_def List.map_filter_simps
        STAGE_TOPOLOGY_VERSION_def sameOptionalRun_def sameRun_def)
  have acyc: "\<not> hasCycle [the (ck_topology ?a), the (ck_topology ?b)]"
    by (simp add: hasCycle_def hasCycle_fuel_def topology_parents_def demo_stage_def jm_get_or_def eval_nat_numeral js_set_add_def
        js_set_delete_def)
  show ?thesis using acyc
    by (simp add: directChildTopologyError_def demo_run_def direct same groups)
      (simp add: demo_stages_def merged_error_def owning_topology_def ck_runId_def demo_run_def demo_stage_def sameRun_def
        STAGE_TOPOLOGY_VERSION_def js_startsWith_def js_def)
qed

subsection \<open>Properties\<close>

text \<open>C16: an accepted child run is a forest of stages that can be replayed.  When the validation of a
  child run finds nothing, every record that names the run lies in its scope and names the expected
  owner; records of the same stage agree on their parents and their source order; different stages have
  different source orders; stage ids are not empty and not taken; every parent is a stage of the run or
  an allowed node; and the stages can be ranked so that every parent comes strictly before its children,
  so the graph has no cycle.\<close>

theorem accepted_topology_is_ordered:
  assumes "directChildTopologyError stages replayScope expectedRun requireIdentity allowed = None"
  shows "let T = {t. \<exists>c \<in> set stages. ck_topology c = Some t \<and> ck_runId c = Some (rt_runId expectedRun)}
    in (\<forall>c \<in> set stages. ck_runId c = Some (rt_runId expectedRun) \<longrightarrow> js_startsWith (ck_replayKey c) (replayScope @ [js_colon])) \<and>
       (\<forall>t \<in> T. st_run t = Some expectedRun \<and> st_stageId t \<noteq> [] \<and> st_stageId t \<notin> set allowed \<and>
          set (st_parentIds t) \<subseteq> st_stageId ` T \<union> set allowed \<and> (requireIdentity \<longrightarrow> st_sourceOrder t \<noteq> None)) \<and>
       (\<forall>t \<in> T. \<forall>u \<in> T. st_stageId t = st_stageId u \<longrightarrow>
          st_parentIds t = st_parentIds u \<and> st_sourceOrder t = st_sourceOrder u) \<and>
       (\<forall>t \<in> T. \<forall>u \<in> T. st_sourceOrder t = st_sourceOrder u \<and> st_sourceOrder t \<noteq> None \<longrightarrow> st_stageId t = st_stageId u) \<and>
       (\<exists>rank :: jstr \<Rightarrow> nat. \<forall>t \<in> T. \<forall>p \<in> set (st_parentIds t). rank p < rank (st_stageId t))"
proof -
  define T where "T = owned_topologies stages (rt_runId expectedRun)"
  obtain merged where scope: "\<forall>c \<in> set (claiming_stages stages (rt_runId expectedRun)). js_startsWith (ck_replayKey c) (replayScope @ [js_colon])"
    and owner: "\<forall>t \<in> T. st_run t = Some expectedRun"
    and ok: "merged_error allowed merged = None"
    and ids: "\<forall>t \<in> set merged. st_stageId t \<noteq> [] \<and> (requireIdentity \<longrightarrow> st_sourceOrder t \<noteq> None)"
    and in_T: "set merged \<subseteq> T"
    and rep: "\<forall>t \<in> T. \<exists>u \<in> set merged. same_stage t u"
    using accepted_merged [OF assms] unfolding T_def by blast
  note D = merged_error_None [OF ok] and U = merged_unique [OF ok]
  obtain rank :: "jstr \<Rightarrow> nat" where rank: "\<forall>t \<in> set merged. \<forall>p \<in> set (st_parentIds t). rank p < rank (st_stageId t)"
    using D(5) by blast
  have "st_stageId t \<noteq> [] \<and> st_stageId t \<notin> set allowed \<and>
      set (st_parentIds t) \<subseteq> st_stageId ` T \<union> set allowed \<and> (requireIdentity \<longrightarrow> st_sourceOrder t \<noteq> None)" if t: "t \<in> T" for t
  proof -
    obtain u where u: "u \<in> set merged" "same_stage t u" using rep t by blast
    have "set (st_parentIds u) \<subseteq> set allowed \<union> st_stageId ` T" using D(4) u(1) in_T by fastforce
    then show ?thesis using u ids D(2) by (auto simp: same_stage_def)
  qed
  moreover have "\<forall>t \<in> T. \<forall>p \<in> set (st_parentIds t). rank p < rank (st_stageId t)"
    using rep rank unfolding same_stage_def by metis
  moreover have "st_parentIds t = st_parentIds u \<and> st_sourceOrder t = st_sourceOrder u"
    if "t \<in> T" "u \<in> T" "st_stageId t = st_stageId u" for t u
    using rep that U(1) unfolding same_stage_def by metis
  moreover have "st_stageId t = st_stageId u"
    if "t \<in> T" "u \<in> T" "st_sourceOrder t = st_sourceOrder u" "st_sourceOrder t \<noteq> None" for t u
    using rep that U(2) unfolding same_stage_def by metis
  moreover have "\<forall>c \<in> set stages. ck_runId c = Some (rt_runId expectedRun) \<longrightarrow> js_startsWith (ck_replayKey c) (replayScope @ [js_colon])"
    using scope by (simp add: claiming_stages_def)
  ultimately show ?thesis using owner unfolding Let_def owned_topologies_def [symmetric] T_def [symmetric] by blast
qed

theorem accepted_topology_is_ordered_witness:
  "\<exists>rank :: jstr \<Rightarrow> nat. rank (js ''a'') < rank (js ''b'')"
proof -
  let ?b = "the (ck_topology (demo_stage ''b'' [''a''] 1))"
  have b: "?b \<in> {t. \<exists>c \<in> set demo_stages. ck_topology c = Some t \<and> ck_runId c = Some (rt_runId demo_run)}"
    "js ''a'' \<in> set (st_parentIds ?b)" "st_stageId ?b = js ''b''"
    by (simp_all add: demo_stages_def demo_stage_def ck_runId_def)
  obtain rank :: "jstr \<Rightarrow> nat" where "\<forall>t \<in> {t. \<exists>c \<in> set demo_stages. ck_topology c = Some t \<and> ck_runId c = Some (rt_runId demo_run)}.
      \<forall>p \<in> set (st_parentIds t). rank p < rank (st_stageId t)"
    using accepted_topology_is_ordered [OF demo_stages_accepted] unfolding Let_def by blast
  from bspec [OF bspec [OF this b(1)] b(2)] b(3) show ?thesis by auto
qed

text \<open>C38: the search for cycles ends and is exact.  On every list of stages, whatever its parents refer
  to, a recursion depth of the number of stages plus one is enough, and the search reports a cycle
  exactly when the parent relation of the stages has one.\<close>

theorem hasCycle_terminates_exact:
  "hasCycle_fuel (length topologies + 1) topologies = Some (hasCycle topologies) \<and>
   (hasCycle topologies \<longleftrightarrow> (\<exists>s. (s, s) \<in> {(p, t). p \<in> set (jm_get_or [] (topology_parents topologies) t)}\<^sup>+))"
  by (simp add: hasCycle_iff hasCycle_result acyclic_def parent_rel_def)

end
