(* ===== verification/Workflow_Scheduler.thy ===== *)
theory Workflow_Scheduler
  imports Workflow_Graph
begin

text \<open>
  Pausing, resuming and blocking the stages of a run
  (\<open>packages/workflows/src/runs/foreground/executor-scheduler.ts\<close>, with the store transitions of
  \<open>shared/store-stage-methods.ts\<close> and the pause and resume of a stage handle,
  \<open>executor-stage-control.ts\<close>).  The session behind a handle is not modelled: which stages have a
  handle and which are streaming are parameters, and each awaited call runs to its end.  A pause pauses
  descendants that pause their own descendants, and so on; the depth of that recursion is the fuel.
\<close>

datatype stage_status = Pending | Running | AwaitingInput | Paused | Blocked | Completed | Failed | Skipped

record stage_snapshot =
  ss_id :: jstr
  ss_parentIds :: "jstr list"
  ss_status :: stage_status
  ss_blockedByStageId :: "jstr option"

text \<open>The run (whether it has ended), the release barriers, the owners of cascade pauses, the tracker.\<close>

record sched =
  sd_ended :: bool
  sd_stages :: "stage_snapshot list"
  sd_barriers :: "jstr list"
  sd_owners :: "(jstr, jstr list) jmap"
  sd_tracker :: tracker

record stage_env =
  se_live :: "jstr \<Rightarrow> bool"
  se_streaming :: "jstr \<Rightarrow> bool"

definition isTerminalStage :: "stage_status \<Rightarrow> bool" where
  "isTerminalStage status \<longleftrightarrow> status = Completed \<or> status = Failed \<or> status = Skipped"

definition held :: "stage_status \<Rightarrow> bool" where
  "held status \<longleftrightarrow> status = Paused \<or> status = Blocked"

definition stageById :: "sched \<Rightarrow> jstr \<Rightarrow> stage_snapshot option" where
  "stageById sd stageId = List.find (\<lambda>stage. ss_id stage = stageId) (sd_stages sd)"

definition status_of :: "sched \<Rightarrow> jstr \<Rightarrow> stage_status option" where
  "status_of sd stageId = map_option ss_status (stageById sd stageId)"

definition put_stage :: "jstr \<Rightarrow> (stage_snapshot \<Rightarrow> stage_snapshot) \<Rightarrow> sched \<Rightarrow> sched" where
  "put_stage stageId f sd =
     sd\<lparr>sd_stages := map (\<lambda>stage. if ss_id stage = stageId then f stage else stage) (sd_stages sd)\<rparr>"

definition setStageParentIds :: "jstr \<Rightarrow> jstr list \<Rightarrow> sched \<Rightarrow> sched" where
  "setStageParentIds stageId parentIds = put_stage stageId (ss_parentIds_update (\<lambda>_. parentIds))"

subsection \<open>Transitions of the store\<close>

definition to_status :: "stage_status \<Rightarrow> jstr option \<Rightarrow> stage_snapshot \<Rightarrow> stage_snapshot" where
  "to_status status by stage = stage\<lparr>ss_status := status, ss_blockedByStageId := by\<rparr>"

definition recordStageBlocked :: "jstr \<Rightarrow> jstr \<Rightarrow> sched \<Rightarrow> sched \<times> bool" where
  "recordStageBlocked stageId blockedBy sd =
     (case stageById sd stageId of
        None \<Rightarrow> (sd, False)
      | Some stage \<Rightarrow>
          (if sd_ended sd \<or> isTerminalStage (ss_status stage) \<or> ss_status stage = Paused then (sd, False)
           else if ss_status stage = Blocked \<and> ss_blockedByStageId stage = Some blockedBy then (sd, False)
           else (put_stage stageId (to_status Blocked (Some blockedBy)) sd, True)))"

definition recordStageUnblocked :: "jstr \<Rightarrow> sched \<Rightarrow> sched \<times> bool" where
  "recordStageUnblocked stageId sd =
     (if status_of sd stageId \<noteq> Some Blocked then (sd, False)
      else (put_stage stageId (to_status Pending None) sd, True))"

definition recordStagePaused :: "jstr \<Rightarrow> sched \<Rightarrow> sched \<times> bool" where
  "recordStagePaused stageId sd =
     (case stageById sd stageId of
        None \<Rightarrow> (sd, False)
      | Some stage \<Rightarrow>
          (if sd_ended sd \<or> isTerminalStage (ss_status stage) \<or> held (ss_status stage) then (sd, False)
           else (put_stage stageId (to_status Paused (ss_blockedByStageId stage)) sd, True)))"

definition recordStageResumed :: "jstr \<Rightarrow> sched \<Rightarrow> sched \<times> bool" where
  "recordStageResumed stageId sd =
     (case stageById sd stageId of
        None \<Rightarrow> (sd, False)
      | Some stage \<Rightarrow>
          (if sd_ended sd \<or> \<not> held (ss_status stage) then (sd, False)
           else (put_stage stageId (to_status Running None) sd, True)))"

subsection \<open>The scheduler\<close>

definition descendantsOf :: "sched \<Rightarrow> jstr \<Rightarrow> stage_snapshot list" where
  "descendantsOf sd stageId =
     filter (\<lambda>stage. ss_id stage \<noteq> stageId \<and> hasAncestor (sd_tracker sd) (ss_parentIds stage) stageId) (sd_stages sd)"

definition blockingAncestorFor :: "sched \<Rightarrow> stage_snapshot \<Rightarrow> jstr option" where
  "blockingAncestorFor sd stage =
     ancestor_walk (tr_stageParents (sd_tracker sd))
       (\<lambda>i. status_of sd i = Some Paused \<or> status_of sd i = Some Blocked) (ss_parentIds stage) []"

definition ensureReleaseBarrier :: "jstr \<Rightarrow> sched \<Rightarrow> sched" where
  "ensureReleaseBarrier stageId sd = sd\<lparr>sd_barriers := js_set_add stageId (sd_barriers sd)\<rparr>"

definition releaseStageBarrier :: "jstr \<Rightarrow> sched \<Rightarrow> sched" where
  "releaseStageBarrier stageId sd = sd\<lparr>sd_barriers := js_set_delete stageId (sd_barriers sd)\<rparr>"

definition blockStageUntilCascadeRelease :: "jstr \<Rightarrow> jstr \<Rightarrow> sched \<Rightarrow> sched" where
  "blockStageUntilCascadeRelease stageId blockedBy sd =
     fst (recordStageBlocked stageId blockedBy (ensureReleaseBarrier stageId sd))"

definition block_known :: "jstr \<Rightarrow> sched \<Rightarrow> jstr \<Rightarrow> sched" where
  "block_known failedStageId sd d =
     (case status_of sd d of
        None \<Rightarrow> sd
      | Some status \<Rightarrow>
          (if isTerminalStage status \<or> held status then sd
           else blockStageUntilCascadeRelease d failedStageId sd))"

definition blockKnownNonTerminalDescendants :: "jstr \<Rightarrow> sched \<Rightarrow> sched" where
  "blockKnownNonTerminalDescendants failedStageId sd =
     foldl (block_known failedStageId) sd (map ss_id (descendantsOf sd failedStageId))"

definition markCascadePaused :: "jstr \<Rightarrow> jstr \<Rightarrow> sched \<Rightarrow> sched" where
  "markCascadePaused stageId owner sd =
     sd\<lparr>sd_owners := jm_set stageId (js_set_add owner (jm_get_or [] (sd_owners sd) stageId)) (sd_owners sd)\<rparr>"

definition releaseCascadePauseOwner :: "jstr \<Rightarrow> jstr \<Rightarrow> sched \<Rightarrow> sched \<times> bool" where
  "releaseCascadePauseOwner stageId owner sd =
     (case jm_get (sd_owners sd) stageId of
        None \<Rightarrow> (sd, False)
      | Some owners \<Rightarrow>
          (let rest = js_set_delete owner owners
           in (sd\<lparr>sd_owners := (if length rest = 0 then jm_delete stageId (sd_owners sd)
                               else jm_set stageId rest (sd_owners sd))\<rparr>,
               owner \<in> set owners)))"

definition hasCascadePauseOwners :: "sched \<Rightarrow> jstr \<Rightarrow> bool" where
  "hasCascadePauseOwners sd stageId = (jm_get (sd_owners sd) stageId \<noteq> None)"

text \<open>\<open>rejectReleaseBarriers\<close>: the stages whose waiters are rejected.\<close>

definition rejectReleaseBarriers :: "sched \<Rightarrow> sched \<times> jstr list" where
  "rejectReleaseBarriers sd =
     (foldl (\<lambda>sd i. fst (recordStageUnblocked i (releaseStageBarrier i sd))) (sd\<lparr>sd_owners := []\<rparr>) (sd_barriers sd),
      sd_barriers sd)"

subsection \<open>Cascades\<close>

function pause_all :: "stage_env \<Rightarrow> nat \<Rightarrow> jstr \<Rightarrow> jstr list \<Rightarrow> sched \<Rightarrow> sched option"
  and stage_pause :: "stage_env \<Rightarrow> nat \<Rightarrow> jstr \<Rightarrow> sched \<Rightarrow> sched option" where
  "pause_all env n pausedStageId [] sd = Some sd"
| "pause_all env n pausedStageId (d # ds) sd =
     (case status_of sd d of
        None \<Rightarrow> pause_all env n pausedStageId ds sd
      | Some status \<Rightarrow>
          (if isTerminalStage status \<or> held status then pause_all env n pausedStageId ds sd
           else if se_live env d \<and> se_streaming env d \<or> status = Running
           then (if se_live env d \<and> (status = Running \<or> status = Pending)
                 then (case stage_pause env n d sd of
                         None \<Rightarrow> None
                       | Some sd' \<Rightarrow> pause_all env n pausedStageId ds (markCascadePaused d pausedStageId sd'))
                 else pause_all env n pausedStageId ds sd)
           else pause_all env n pausedStageId ds (blockStageUntilCascadeRelease d pausedStageId sd)))"
| "stage_pause env 0 stageId sd = None"
| "stage_pause env (Suc n) stageId sd =
     (case recordStagePaused stageId sd of
        (sd', changed) \<Rightarrow>
          (if changed
           then (let sd'' = ensureReleaseBarrier stageId sd'
                 in pause_all env n stageId (map ss_id (descendantsOf sd'' stageId)) sd'')
           else Some sd'))"
  by pat_completeness auto
termination
  by (relation "measures [\<lambda>x. case x of Inl (_, n, _) \<Rightarrow> n | Inr (_, n, _) \<Rightarrow> n,
        \<lambda>x. case x of Inl (_, _, _, ds, _) \<Rightarrow> Suc (length ds) | Inr _ \<Rightarrow> 0]") auto

definition cascadePauseFrom :: "stage_env \<Rightarrow> nat \<Rightarrow> jstr \<Rightarrow> sched \<Rightarrow> sched option" where
  "cascadePauseFrom env n stageId sd = pause_all env n stageId (map ss_id (descendantsOf sd stageId)) sd"

function resume_all :: "stage_env \<Rightarrow> nat \<Rightarrow> jstr \<Rightarrow> jstr list \<Rightarrow> sched \<Rightarrow> sched option"
  and stage_resume :: "stage_env \<Rightarrow> nat \<Rightarrow> jstr \<Rightarrow> sched \<Rightarrow> sched option" where
  "resume_all env n resumedStageId [] sd = Some sd"
| "resume_all env n resumedStageId (d # ds) sd =
     (case stageById sd d of
        None \<Rightarrow> resume_all env n resumedStageId ds sd
      | Some stage \<Rightarrow>
          (if ss_status stage = Blocked
           then (if blockingAncestorFor sd stage \<noteq> None then resume_all env n resumedStageId ds sd
                 else (case recordStageUnblocked d sd of
                         (sd', changed) \<Rightarrow>
                           resume_all env n resumedStageId ds (if changed then releaseStageBarrier d sd' else sd')))
           else if ss_status stage = Paused
           then (case releaseCascadePauseOwner d resumedStageId sd of
                   (sd', owned) \<Rightarrow>
                     (if \<not> owned \<or> hasCascadePauseOwners sd' d \<or> blockingAncestorFor sd' stage \<noteq> None
                         \<or> \<not> se_live env d
                      then resume_all env n resumedStageId ds sd'
                      else (case stage_resume env n d sd' of
                              None \<Rightarrow> None
                            | Some sd'' \<Rightarrow> resume_all env n resumedStageId ds sd'')))
           else resume_all env n resumedStageId ds sd))"
| "stage_resume env 0 stageId sd = None"
| "stage_resume env (Suc n) stageId sd =
     (case recordStageResumed stageId sd of
        (sd', changed) \<Rightarrow>
          (if changed
           then (let sd'' = releaseStageBarrier stageId sd'
                 in resume_all env n stageId (map ss_id (descendantsOf sd'' stageId)) sd'')
           else Some sd'))"
  by pat_completeness auto
termination
  by (relation "measures [\<lambda>x. case x of Inl (_, n, _) \<Rightarrow> n | Inr (_, n, _) \<Rightarrow> n,
        \<lambda>x. case x of Inl (_, _, _, ds, _) \<Rightarrow> Suc (length ds) | Inr _ \<Rightarrow> 0]") auto

definition cascadeResumeFrom :: "stage_env \<Rightarrow> nat \<Rightarrow> jstr \<Rightarrow> sched \<Rightarrow> sched option" where
  "cascadeResumeFrom env n stageId sd = resume_all env n stageId (map ss_id (descendantsOf sd stageId)) sd"

subsection \<open>What an operation may change\<close>

lemma stageById_put:
  assumes "\<And>s. ss_id (f s) = ss_id s"
  shows "stageById (put_stage i f sd) j = map_option (\<lambda>s. if j = i then f s else s) (stageById sd j)"
proof -
  have "List.find (\<lambda>s. ss_id s = j) (map (\<lambda>s. if ss_id s = i then f s else s) xs) =
      map_option (\<lambda>s. if j = i then f s else s) (List.find (\<lambda>s. ss_id s = j) xs)" for xs
    by (induction xs) (auto simp: assms)
  then show ?thesis by (simp add: stageById_def put_stage_def)
qed

lemma to_status_fields [simp]:
  "ss_id (to_status st by s) = ss_id s" "ss_parentIds (to_status st by s) = ss_parentIds s"
  "ss_status (to_status st by s) = st"
  by (simp_all add: to_status_def)

lemma status_put [simp]:
  "status_of (put_stage i (to_status st by) sd) j = (if j = i then map_option (\<lambda>_. st) (status_of sd j) else status_of sd j)"
  by (simp add: status_of_def stageById_put option.map_comp o_def)

text \<open>The parts of a state that no operation of the scheduler changes.\<close>

definition shape :: "sched \<Rightarrow> (jstr \<times> jstr list) list \<times> tracker \<times> bool" where
  "shape sd = (map (\<lambda>s. (ss_id s, ss_parentIds s)) (sd_stages sd), sd_tracker sd, sd_ended sd)"

lemma shape_put [simp]: "shape (put_stage i (to_status st by) sd) = shape sd"
  by (simp add: shape_def put_stage_def o_def if_distrib cong: if_cong)

lemma shape_other [simp]:
  "shape (sd\<lparr>sd_barriers := x\<rparr>) = shape sd" "shape (sd\<lparr>sd_owners := y\<rparr>) = shape sd"
  "status_of (sd\<lparr>sd_barriers := x\<rparr>) = status_of sd" "status_of (sd\<lparr>sd_owners := y\<rparr>) = status_of sd"
  "stageById (sd\<lparr>sd_barriers := x\<rparr>) = stageById sd" "stageById (sd\<lparr>sd_owners := y\<rparr>) = stageById sd"
  by (simp_all add: shape_def status_of_def stageById_def fun_eq_iff)

lemma put_stage_other [simp]:
  "sd_barriers (put_stage i f sd) = sd_barriers sd" "sd_owners (put_stage i f sd) = sd_owners sd"
  "sd_ended (put_stage i f sd) = sd_ended sd"
  by (simp_all add: put_stage_def)

lemma shape_ended: "shape sd = shape sd' \<Longrightarrow> sd_ended sd = sd_ended sd'"
  by (simp add: shape_def)

text \<open>Every stage that is held has a release barrier, and nothing else has one.\<close>

definition barriers_exact :: "sched \<Rightarrow> bool" where
  "barriers_exact sd \<longleftrightarrow> set (sd_barriers sd) = {i. \<exists>s. status_of sd i = Some s \<and> held s}"

definition holdable :: "sched \<Rightarrow> jstr set" where
  "holdable sd = {i. \<exists>s. status_of sd i = Some s \<and> \<not> isTerminalStage s \<and> \<not> held s}"

text \<open>A step of a pause: some stages that could be held are held now.\<close>

definition holds_more :: "sched \<Rightarrow> sched \<Rightarrow> bool" where
  "holds_more sd sd' \<longleftrightarrow> shape sd' = shape sd \<and>
     (\<forall>i. status_of sd' i = status_of sd i \<or>
          i \<in> holdable sd \<and> (status_of sd' i = Some Paused \<or> status_of sd' i = Some Blocked))"

lemma held_simps [simp]: "held Paused" "held Blocked" "\<not> held Running" "\<not> held Pending" "\<not> held AwaitingInput"
  "\<not> isTerminalStage Paused" "\<not> isTerminalStage Blocked" "\<not> isTerminalStage Running" "\<not> isTerminalStage Pending"
  "\<not> isTerminalStage AwaitingInput"
  by (simp_all add: held_def isTerminalStage_def)

lemma holds_more_refl [simp]: "holds_more sd sd"
  by (simp add: holds_more_def)

lemma holds_more_holdable: "holds_more sd sd' \<Longrightarrow> holdable sd' \<subseteq> holdable sd"
proof
  fix i assume "holds_more sd sd'" "i \<in> holdable sd'"
  then show "i \<in> holdable sd" by (cases "status_of sd' i = status_of sd i") (auto simp: holds_more_def holdable_def)
qed

lemma holds_more_trans: "holds_more a b \<Longrightarrow> holds_more b c \<Longrightarrow> holds_more a c"
  using holds_more_holdable [of a b] unfolding holds_more_def by (metis subsetD)

lemma status_stage: "status_of sd i = Some s \<longleftrightarrow> (\<exists>x. stageById sd i = Some x \<and> ss_status x = s)"
  by (auto simp: status_of_def)

lemma finite_holdable: "finite (holdable sd)"
proof (rule finite_subset)
  show "holdable sd \<subseteq> ss_id ` set (sd_stages sd)"
    by (auto simp: holdable_def status_of_def stageById_def dest!: find_Some)
qed simp

lemma block_stage:
  assumes "i \<in> holdable sd" and "\<not> sd_ended sd" and "barriers_exact sd"
  shows "holds_more sd (blockStageUntilCascadeRelease i by sd)"
    and "barriers_exact (blockStageUntilCascadeRelease i by sd)"
    and "status_of (blockStageUntilCascadeRelease i by sd) i = Some Blocked"
    and "sd_owners (blockStageUntilCascadeRelease i by sd) = sd_owners sd"
proof -
  obtain x where x: "stageById sd i = Some x" "\<not> isTerminalStage (ss_status x)" "\<not> held (ss_status x)"
    using assms(1) by (auto simp: holdable_def status_stage)
  then have "ss_status x \<noteq> Paused" "ss_status x \<noteq> Blocked" by auto
  then have b: "blockStageUntilCascadeRelease i by sd =
      put_stage i (to_status Blocked (Some by)) (sd\<lparr>sd_barriers := js_set_add i (sd_barriers sd)\<rparr>)"
    using x assms(2) by (simp add: blockStageUntilCascadeRelease_def recordStageBlocked_def ensureReleaseBarrier_def)
  have st: "status_of sd i = Some (ss_status x)" using x(1) by (simp add: status_of_def)
  show "holds_more sd (blockStageUntilCascadeRelease i by sd)"
    unfolding b using assms(1) st by (auto simp: holds_more_def)
  show "barriers_exact (blockStageUntilCascadeRelease i by sd)"
    unfolding b using assms(3) st by (auto simp: barriers_exact_def)
  show "status_of (blockStageUntilCascadeRelease i by sd) i = Some Blocked" unfolding b using st by simp
  show "sd_owners (blockStageUntilCascadeRelease i by sd) = sd_owners sd" unfolding b by simp
qed

lemma pause_stage:
  assumes "i \<in> holdable sd" and "\<not> sd_ended sd" and "barriers_exact sd"
  obtains sd' where "recordStagePaused i sd = (sd', True)"
    and "holds_more sd (ensureReleaseBarrier i sd')" and "barriers_exact (ensureReleaseBarrier i sd')"
    and "status_of (ensureReleaseBarrier i sd') i = Some Paused"
proof -
  obtain x where x: "stageById sd i = Some x" "\<not> isTerminalStage (ss_status x)" "\<not> held (ss_status x)"
    using assms(1) by (auto simp: holdable_def status_stage)
  let ?sd = "put_stage i (to_status Paused (ss_blockedByStageId x)) sd"
  have st: "status_of sd i = Some (ss_status x)" using x(1) by (simp add: status_of_def)
  show ?thesis
  proof (rule that [of ?sd])
    show "recordStagePaused i sd = (?sd, True)" using x assms(2) by (simp add: recordStagePaused_def)
    show "holds_more sd (ensureReleaseBarrier i ?sd)"
      using assms(1) st by (auto simp: holds_more_def ensureReleaseBarrier_def)
    show "barriers_exact (ensureReleaseBarrier i ?sd)"
      using assms(3) st by (auto simp: barriers_exact_def ensureReleaseBarrier_def)
    show "status_of (ensureReleaseBarrier i ?sd) i = Some Paused" using st by (simp add: ensureReleaseBarrier_def)
  qed
qed

subsection \<open>A pause reaches every descendant\<close>

text \<open>A descendant that a pause has dealt with: gone, terminal, held, or running without a handle that
  could pause it.\<close>

definition quiet :: "stage_env \<Rightarrow> sched \<Rightarrow> jstr \<Rightarrow> bool" where
  "quiet env sd i \<longleftrightarrow>
     (case status_of sd i of
        None \<Rightarrow> True
      | Some status \<Rightarrow> isTerminalStage status \<or> held status \<or>
          (if se_live env i then se_streaming env i \<and> status = AwaitingInput else status = Running))"

lemma quiet_holds_more:
  assumes "holds_more sd sd'" and "quiet env sd i"
  shows "quiet env sd' i"
proof (cases "status_of sd' i = status_of sd i")
  case True
  then show ?thesis using assms(2) by (simp add: quiet_def)
next
  case False
  then have "status_of sd' i = Some Paused \<or> status_of sd' i = Some Blocked"
    using assms(1) by (auto simp: holds_more_def)
  then show ?thesis by (auto simp: quiet_def)
qed

definition pause_spec :: "stage_env \<Rightarrow> nat \<Rightarrow> bool" where
  "pause_spec env n \<longleftrightarrow> (\<forall>i sd sd'. \<not> sd_ended sd \<longrightarrow> barriers_exact sd \<longrightarrow> i \<in> holdable sd \<longrightarrow>
     stage_pause env n i sd = Some sd' \<longrightarrow>
     holds_more sd sd' \<and> barriers_exact sd' \<and> status_of sd' i = Some Paused)"

lemma pause_all_spec:
  assumes spec: "pause_spec env n"
  shows "\<not> sd_ended sd \<Longrightarrow> barriers_exact sd \<Longrightarrow> pause_all env n p ds sd = Some sd' \<Longrightarrow>
     holds_more sd sd' \<and> barriers_exact sd' \<and> (\<forall>d \<in> set ds. quiet env sd' d)"
proof (induction ds arbitrary: sd)
  case (Cons d ds)
  have step: ?case if "holds_more sd sd1" "barriers_exact sd1" "quiet env sd1 d"
    and rest: "pause_all env n p ds sd1 = Some sd'" for sd1
  proof -
    have "\<not> sd_ended sd1" using that(1) Cons.prems(1) shape_ended [of sd1 sd] by (simp add: holds_more_def)
    note R = Cons.IH [OF this that(2) rest]
    have "holds_more sd sd'" by (rule holds_more_trans [OF that(1) R [THEN conjunct1]])
    moreover have "quiet env sd' d" by (rule quiet_holds_more [OF R [THEN conjunct1] that(3)])
    ultimately show ?thesis using R by simp
  qed
  have stay: ?case if "quiet env sd d" "pause_all env n p ds sd = Some sd'"
    using step [of sd] that Cons.prems(2) by simp
  show ?case
  proof (cases "status_of sd d")
    case None
    then have "quiet env sd d" by (simp add: quiet_def)
    then show ?thesis by (rule stay) (use Cons.prems(3) None in simp)
  next
    case (Some status)
    note run = Cons.prems(3) [unfolded pause_all.simps Some option.case]
    show ?thesis
    proof (cases "isTerminalStage status \<or> held status")
      case True
      then have "quiet env sd d" using Some by (auto simp: quiet_def)
      then show ?thesis by (rule stay) (use run True in simp)
    next
      case free: False
      then have d: "d \<in> holdable sd" using Some by (simp add: holdable_def)
      show ?thesis
      proof (cases "se_live env d \<and> se_streaming env d \<or> status = Running")
        case busy: True
        show ?thesis
        proof (cases "se_live env d \<and> (status = Running \<or> status = Pending)")
          case True
          then obtain sd1 where p: "stage_pause env n d sd = Some sd1"
            and rest: "pause_all env n p ds (markCascadePaused d p sd1) = Some sd'"
            using run free busy by (auto split: option.splits)
          have P: "holds_more sd sd1" "barriers_exact sd1" "status_of sd1 d = Some Paused"
            using spec Cons.prems(1,2) d p unfolding pause_spec_def by blast+
          have "holds_more sd (markCascadePaused d p sd1)" "barriers_exact (markCascadePaused d p sd1)"
            "quiet env (markCascadePaused d p sd1) d"
            using P by (simp_all add: markCascadePaused_def holds_more_def barriers_exact_def quiet_def)
          then show ?thesis by (rule step [OF _ _ _ rest])
        next
          case False
          then have "quiet env sd d" using busy Some free
            by (cases status) (auto simp: quiet_def isTerminalStage_def)
          then show ?thesis by (rule stay) (use run free busy False in auto)
        qed
      next
        case False
        note B = block_stage [OF d Cons.prems(1,2), of p]
        have "quiet env (blockStageUntilCascadeRelease d p sd) d" using B(3) by (simp add: quiet_def)
        then show ?thesis by (rule step [OF B(1,2)]) (use run free False in auto)
      qed
    qed
  qed
qed simp

lemma pause_spec: "pause_spec env n"
proof (induction n)
  case (Suc n)
  have "holds_more sd sd' \<and> barriers_exact sd' \<and> status_of sd' i = Some Paused"
    if run: "stage_pause env (Suc n) i sd = Some sd'" and ok: "\<not> sd_ended sd" "barriers_exact sd" "i \<in> holdable sd" for i sd sd'
  proof -
    obtain sd1 where p: "recordStagePaused i sd = (sd1, True)"
      and P: "holds_more sd (ensureReleaseBarrier i sd1)" "barriers_exact (ensureReleaseBarrier i sd1)"
        "status_of (ensureReleaseBarrier i sd1) i = Some Paused"
      using pause_stage [OF ok(3,1,2)] by blast
    let ?sd = "ensureReleaseBarrier i sd1"
    have "\<not> sd_ended ?sd" using P(1) ok(1) shape_ended [of ?sd sd] by (simp add: holds_more_def)
    moreover have "pause_all env n i (map ss_id (descendantsOf ?sd i)) ?sd = Some sd'"
      using run p by (simp add: Let_def)
    ultimately have R: "holds_more ?sd sd'" "barriers_exact sd'" using pause_all_spec [OF Suc _ P(2)] by blast+
    have "i \<notin> holdable ?sd" using P(3) by (simp add: holdable_def)
    then have "status_of sd' i = Some Paused" using R(1) P(3) unfolding holds_more_def by metis
    then show ?thesis using R holds_more_trans [OF P(1) R(1)] by simp
  qed
  then show ?case by (simp add: pause_spec_def)
qed (simp add: pause_spec_def)

text \<open>The depth of the recursion.\<close>

lemma holdable_decreases:
  assumes "holds_more sd sd'" and "i \<in> holdable sd" and "status_of sd' i = Some Paused"
  shows "card (holdable sd') < card (holdable sd)"
proof (rule psubset_card_mono [OF finite_holdable])
  have "i \<notin> holdable sd'" using assms(3) by (simp add: holdable_def)
  then show "holdable sd' \<subset> holdable sd" using holds_more_holdable [OF assms(1)] assms(2) by blast
qed

lemma pause_all_fuel:
  assumes ret: "\<And>i sd. \<not> sd_ended sd \<Longrightarrow> barriers_exact sd \<Longrightarrow> i \<in> holdable sd \<Longrightarrow> card (holdable sd) \<le> n \<Longrightarrow>
      stage_pause env n i sd \<noteq> None"
  shows "\<not> sd_ended sd \<Longrightarrow> barriers_exact sd \<Longrightarrow> card (holdable sd) \<le> n \<Longrightarrow> pause_all env n p ds sd \<noteq> None"
proof (induction ds arbitrary: sd)
  case (Cons d ds)
  have step: "pause_all env n p ds sd1 \<noteq> None" if "holds_more sd sd1" "barriers_exact sd1" for sd1
  proof -
    have "\<not> sd_ended sd1" using that(1) Cons.prems(1) shape_ended [of sd1 sd] by (simp add: holds_more_def)
    moreover have "card (holdable sd1) \<le> n"
      using card_mono [OF finite_holdable holds_more_holdable [OF that(1)]] Cons.prems(3) by simp
    ultimately show ?thesis using Cons.IH that(2) by blast
  qed
  show ?case
  proof (cases "status_of sd d")
    case None
    then show ?thesis using step [of sd] Cons.prems by simp
  next
    case (Some status)
    show ?thesis
    proof (cases "isTerminalStage status \<or> held status")
      case True
      then show ?thesis using step [of sd] Cons.prems Some by simp
    next
      case free: False
      then have d: "d \<in> holdable sd" using Some by (simp add: holdable_def)
      obtain sd1 where p: "stage_pause env n d sd = Some sd1" using ret [OF Cons.prems(1,2) d Cons.prems(3)] by auto
      have P: "holds_more sd sd1" "barriers_exact sd1"
        using pause_spec [of env n] Cons.prems(1,2) d p unfolding pause_spec_def by blast+
      have "holds_more sd (markCascadePaused d p sd1)" "barriers_exact (markCascadePaused d p sd1)"
        using P by (simp_all add: markCascadePaused_def holds_more_def barriers_exact_def)
      then show ?thesis
        using step [of sd] step [of "markCascadePaused d p sd1"] step [OF block_stage(1,2) [OF d Cons.prems(1,2), of p]]
          Cons.prems Some p by simp
    qed
  qed
qed simp

lemma stage_pause_fuel:
  "\<not> sd_ended sd \<Longrightarrow> barriers_exact sd \<Longrightarrow> i \<in> holdable sd \<Longrightarrow> card (holdable sd) \<le> n \<Longrightarrow> stage_pause env n i sd \<noteq> None"
proof (induction n arbitrary: i sd)
  case 0
  then show ?case using finite_holdable [of sd] by auto
next
  case (Suc n)
  obtain sd1 where p: "recordStagePaused i sd = (sd1, True)"
    and P: "holds_more sd (ensureReleaseBarrier i sd1)" "barriers_exact (ensureReleaseBarrier i sd1)"
      "status_of (ensureReleaseBarrier i sd1) i = Some Paused"
    using pause_stage [OF Suc.prems(3,1,2)] by blast
  let ?sd = "ensureReleaseBarrier i sd1"
  have "\<not> sd_ended ?sd" using P(1) Suc.prems(1) shape_ended [of ?sd sd] by (simp add: holds_more_def)
  moreover have "card (holdable ?sd) \<le> n" using holdable_decreases [OF P(1) Suc.prems(3) P(3)] Suc.prems(4) by simp
  ultimately have "pause_all env n i (map ss_id (descendantsOf ?sd i)) ?sd \<noteq> None"
    using pause_all_fuel [OF Suc.IH] P(2) by blast
  then show ?case using p by (simp add: Let_def)
qed

subsection \<open>A resume leaves no stage behind\<close>

text \<open>The ancestors of a stage, when the snapshots and the tracker agree on its parents.\<close>

definition up :: "sched \<Rightarrow> (jstr \<times> jstr) set" where
  "up sd = parent_rel (getParents (sd_tracker sd))"

definition parents_agree :: "sched \<Rightarrow> bool" where
  "parents_agree sd \<longleftrightarrow> (\<forall>s \<in> set (sd_stages sd). ss_parentIds s = getParents (sd_tracker sd) (ss_id s))"

text \<open>No stage comes after one of its descendants.\<close>

definition in_order :: "sched \<Rightarrow> bool" where
  "in_order sd \<longleftrightarrow> distinct (map ss_id (sd_stages sd)) \<and>
     sorted_wrt (\<lambda>a b. (b, a) \<notin> (up sd)\<^sup>+) (map ss_id (sd_stages sd))"

lemma leads_to_parents: "x \<in> leads_to (tr_stageParents tr) (getParents tr i) \<longleftrightarrow> (x, i) \<in> (parent_rel (getParents tr))\<^sup>+"
proof -
  have "parent_rel (jm_get_or [] (tr_stageParents tr)) = parent_rel (getParents tr)"
    by (simp add: getParents_def [abs_def])
  then show ?thesis
    by (auto simp: leads_to_def parent_rel_def dest: tranclD2 intro: rtrancl_into_trancl1)
qed

lemma stage_parents:
  assumes "parents_agree sd" and "stageById sd i = Some s"
  shows "ss_parentIds s = getParents (sd_tracker sd) i"
  using assms by (auto simp: parents_agree_def stageById_def dest!: find_Some)

lemma blocking_iff:
  assumes "parents_agree sd" and "stageById sd i = Some s"
  shows "blockingAncestorFor sd s \<noteq> None \<longleftrightarrow> (\<exists>a st. (a, i) \<in> (up sd)\<^sup>+ \<and> status_of sd a = Some st \<and> held st)"
  unfolding blockingAncestorFor_def stage_parents [OF assms] ancestor_walk_iff [THEN arg_cong, of Not]
  by (auto simp: ancestor_walk_iff leads_to_parents up_def held_def)

lemma descendants_iff:
  assumes "parents_agree sd" and "s \<in> set (sd_stages sd)"
  shows "s \<in> set (descendantsOf sd i) \<longleftrightarrow> ss_id s \<noteq> i \<and> (i, ss_id s) \<in> (up sd)\<^sup>+"
  using assms by (auto simp: descendantsOf_def parents_agree_def hasAncestor_iff leads_to_parents up_def)

lemma shape_agree:
  assumes "shape sd = shape sd'"
  shows "parents_agree sd = parents_agree sd'" and "in_order sd = in_order sd'" and "up sd = up sd'"
    and "map ss_id (sd_stages sd) = map ss_id (sd_stages sd')"
proof -
  have tr: "sd_tracker sd = sd_tracker sd'" using assms by (simp add: shape_def)
  have m: "map (\<lambda>s. (ss_id s, ss_parentIds s)) (sd_stages sd) = map (\<lambda>s. (ss_id s, ss_parentIds s)) (sd_stages sd')"
    using assms by (simp add: shape_def)
  show ids: "map ss_id (sd_stages sd) = map ss_id (sd_stages sd')" using arg_cong [OF m, of "map fst"] by (simp add: o_def)
  show u: "up sd = up sd'" by (simp add: up_def tr)
  have pa: "parents_agree x \<longleftrightarrow> (\<forall>(i, ps) \<in> set (map (\<lambda>s. (ss_id s, ss_parentIds s)) (sd_stages x)). ps = getParents (sd_tracker x) i)" for x
    by (auto simp: parents_agree_def)
  show "parents_agree sd = parents_agree sd'" by (simp only: pa m tr)
  show "in_order sd = in_order sd'" by (simp only: in_order_def ids u)
qed

text \<open>A step of a resume: some held stages are released, among the given ids and their descendants.\<close>

definition releases :: "jstr set \<Rightarrow> sched \<Rightarrow> sched \<Rightarrow> bool" where
  "releases A sd sd' \<longleftrightarrow> shape sd' = shape sd \<and>
     (\<forall>i. status_of sd' i = status_of sd i \<or>
          (\<exists>a \<in> A. a = i \<or> (a, i) \<in> (up sd)\<^sup>+) \<and> (\<exists>s. status_of sd i = Some s \<and> held s) \<and>
          (status_of sd' i = Some Pending \<or> status_of sd' i = Some Running))"

lemma releases_refl [simp]: "releases A sd sd"
  by (simp add: releases_def)

lemma releases_mono: "releases A sd sd' \<Longrightarrow> A \<subseteq> B \<Longrightarrow> releases B sd sd'"
  unfolding releases_def by (meson subsetD)

lemma releases_trans:
  assumes "releases A x y" and "releases A y z"
  shows "releases A x z"
proof -
  have s: "shape y = shape x" "shape z = shape y" using assms by (simp_all add: releases_def)
  have u: "up y = up x" using shape_agree(3) [OF s(1)] .
  have "status_of z i = status_of x i \<or>
      (\<exists>a \<in> A. a = i \<or> (a, i) \<in> (up x)\<^sup>+) \<and> (\<exists>s. status_of x i = Some s \<and> held s) \<and>
      (status_of z i = Some Pending \<or> status_of z i = Some Running)" for i
  proof (cases "status_of y i = status_of x i")
    case True
    then show ?thesis using assms(2) unfolding releases_def u by metis
  next
    case False
    then have F: "(\<exists>a \<in> A. a = i \<or> (a, i) \<in> (up x)\<^sup>+) \<and> (\<exists>s. status_of x i = Some s \<and> held s)"
      "status_of y i = Some Pending \<or> status_of y i = Some Running" using assms(1) unfolding releases_def by metis+
    then have "status_of z i = status_of y i" using assms(2) unfolding releases_def by (metis held_simps(3,4) option.inject)
    then show ?thesis using F by simp
  qed
  then show ?thesis using s by (simp add: releases_def)
qed

lemma unblock_stage:
  assumes st: "status_of sd i = Some s" "held s" and ex: "barriers_exact sd" and free: "t = Pending \<or> t = Running"
  shows "releases {i} sd (releaseStageBarrier i (put_stage i (to_status t by) sd))"
    and "barriers_exact (releaseStageBarrier i (put_stage i (to_status t by) sd))"
proof -
  show "releases {i} sd (releaseStageBarrier i (put_stage i (to_status t by) sd))"
    using st free by (auto simp: releases_def releaseStageBarrier_def)
  show "barriers_exact (releaseStageBarrier i (put_stage i (to_status t by) sd))"
    using st free ex by (auto simp: barriers_exact_def releaseStageBarrier_def)
qed

lemma release_owner_only:
  "releaseCascadePauseOwner i owner sd = (sd', owned) \<Longrightarrow>
     shape sd' = shape sd \<and> status_of sd' = status_of sd \<and> stageById sd' = stageById sd \<and> sd_barriers sd' = sd_barriers sd"
  by (auto simp: releaseCascadePauseOwner_def Let_def split: option.splits)

definition resume_spec :: "stage_env \<Rightarrow> nat \<Rightarrow> bool" where
  "resume_spec env n \<longleftrightarrow> (\<forall>i sd sd' s. \<not> sd_ended sd \<longrightarrow> barriers_exact sd \<longrightarrow> parents_agree sd \<longrightarrow>
     status_of sd i = Some s \<longrightarrow> held s \<longrightarrow> stage_resume env n i sd = Some sd' \<longrightarrow>
     releases {i} sd sd' \<and> barriers_exact sd' \<and> status_of sd' i = Some Running)"

text \<open>One stage of the loop: it is released, or it is still blocked by a held ancestor, or it was not
  blocked.\<close>

definition resume_step :: "sched \<Rightarrow> jstr \<Rightarrow> sched \<Rightarrow> bool" where
  "resume_step sd d sd' \<longleftrightarrow> releases {d} sd sd' \<and> barriers_exact sd' \<and>
     (status_of sd' d = Some Blocked \<longrightarrow>
        (\<forall>x. status_of sd' x = status_of sd x) \<and> (\<exists>a st. (a, d) \<in> (up sd)\<^sup>+ \<and> status_of sd a = Some st \<and> held st))"

lemma resume_all_step:
  assumes spec: "resume_spec env n"
    and ok: "\<not> sd_ended sd" "barriers_exact sd" "parents_agree sd"
    and run: "resume_all env n r (d # ds) sd = Some sd'"
  shows "\<exists>sd1. resume_step sd d sd1 \<and> resume_all env n r ds sd1 = Some sd'"
proof (cases "stageById sd d")
  case None
  then have "resume_step sd d sd" using ok by (simp add: resume_step_def status_of_def)
  then show ?thesis using run None by auto
next
  case (Some stage)
  then have st: "status_of sd d = Some (ss_status stage)" by (simp add: status_of_def)
  note go = run [unfolded resume_all.simps Some option.case]
  consider "ss_status stage = Blocked" "blockingAncestorFor sd stage \<noteq> None"
    | "ss_status stage = Blocked" "blockingAncestorFor sd stage = None" | "ss_status stage = Paused"
    | "ss_status stage \<noteq> Blocked" "ss_status stage \<noteq> Paused" by blast
  then show ?thesis
  proof cases
    case 1
    then have "resume_step sd d sd" using ok(2) blocking_iff [OF ok(3) Some] by (simp add: resume_step_def)
    then show ?thesis using go 1 by auto
  next
    case 2
    let ?sd1 = "releaseStageBarrier d (put_stage d (to_status Pending None) sd)"
    have "recordStageUnblocked d sd = (put_stage d (to_status Pending None) sd, True)"
      using st 2 by (simp add: recordStageUnblocked_def)
    then have "resume_all env n r ds ?sd1 = Some sd'" using go 2 by simp
    moreover have "resume_step sd d ?sd1"
      using unblock_stage [of sd d Blocked Pending None] st 2(1) ok(2) by (simp add: resume_step_def releaseStageBarrier_def)
    ultimately show ?thesis by blast
  next
    case 3
    obtain sd1 owned where o: "releaseCascadePauseOwner d r sd = (sd1, owned)"
      by (cases "releaseCascadePauseOwner d r sd")
    note O = release_owner_only [OF o]
    have plain: "resume_step sd d sd1"
      using O ok(2) st 3 by (simp add: resume_step_def releases_def barriers_exact_def)
    show ?thesis
    proof (cases "\<not> owned \<or> hasCascadePauseOwners sd1 d \<or> blockingAncestorFor sd1 stage \<noteq> None \<or> \<not> se_live env d")
      case True
      then have "resume_all env n r ds sd1 = Some sd'" using go 3 o by simp
      then show ?thesis using plain by blast
    next
      case False
      then obtain sd2 where r: "stage_resume env n d sd1 = Some sd2" and rest: "resume_all env n r ds sd2 = Some sd'"
        using go 3 o by (auto split: option.splits)
      have "\<not> sd_ended sd1" "barriers_exact sd1" "parents_agree sd1" "status_of sd1 d = Some Paused"
        using O ok st 3 shape_ended [of sd1 sd] shape_agree(1) [of sd1 sd] by (simp_all add: barriers_exact_def)
      then have R: "releases {d} sd1 sd2" "barriers_exact sd2" "status_of sd2 d = Some Running"
        using spec r unfolding resume_spec_def by (metis held_simps(1))+
      have "releases {d} sd sd1" using plain by (simp add: resume_step_def)
      then have "resume_step sd d sd2" using releases_trans [OF _ R(1)] R(2,3) by (simp add: resume_step_def)
      then show ?thesis using rest by blast
    qed
  next
    case 4
    then have "resume_step sd d sd" using ok(2) st by (simp add: resume_step_def)
    then show ?thesis using go 4 by auto
  qed
qed

lemma resume_all_spec:
  assumes spec: "resume_spec env n"
  shows "\<not> sd_ended sd \<Longrightarrow> barriers_exact sd \<Longrightarrow> parents_agree sd \<Longrightarrow> resume_all env n r ds sd = Some sd' \<Longrightarrow>
     releases (set ds) sd sd' \<and> barriers_exact sd' \<and>
     (sorted_wrt (\<lambda>a b. (b, a) \<notin> (up sd)\<^sup>+) ds \<longrightarrow> (\<forall>d \<in> set ds. status_of sd' d = Some Blocked \<longrightarrow>
        (\<exists>a st. (a, d) \<in> (up sd)\<^sup>+ \<and> status_of sd' a = Some st \<and> held st)))"
proof (induction ds arbitrary: sd)
  case (Cons d ds)
  obtain sd1 where s: "resume_step sd d sd1" and rest: "resume_all env n r ds sd1 = Some sd'"
    using resume_all_step [OF spec Cons.prems] by blast
  have S: "releases {d} sd sd1" "barriers_exact sd1" using s by (simp_all add: resume_step_def)
  have sh: "shape sd1 = shape sd" using S(1) by (simp add: releases_def)
  note A = shape_agree [OF sh] shape_ended [OF sh]
  have R: "releases (set ds) sd1 sd'" "barriers_exact sd'"
    and C: "sorted_wrt (\<lambda>a b. (b, a) \<notin> (up sd)\<^sup>+) ds \<Longrightarrow> \<forall>d \<in> set ds. status_of sd' d = Some Blocked \<longrightarrow>
        (\<exists>a st. (a, d) \<in> (up sd)\<^sup>+ \<and> status_of sd' a = Some st \<and> held st)"
    using Cons.IH [OF _ S(2) _ rest] Cons.prems A by auto
  have "releases (set (d # ds)) sd sd'"
    using releases_trans [OF releases_mono [OF S(1)] releases_mono [OF R(1)], of "set (d # ds)"] by auto
  moreover have "\<exists>a st. (a, d) \<in> (up sd)\<^sup>+ \<and> status_of sd' a = Some st \<and> held st"
    if sorted: "sorted_wrt (\<lambda>a b. (b, a) \<notin> (up sd)\<^sup>+) (d # ds)" and b: "status_of sd' d = Some Blocked"
  proof -
    have "status_of sd' d = status_of sd1 d \<or> status_of sd' d = Some Pending \<or> status_of sd' d = Some Running"
      using R(1) unfolding releases_def by blast
    with b have "status_of sd1 d = Some Blocked" by auto
    then obtain a st where a: "(a, d) \<in> (up sd)\<^sup>+" "status_of sd1 a = Some st" "held st"
      using s by (auto simp: resume_step_def)
    have "status_of sd' a = status_of sd1 a"
    proof (rule ccontr)
      assume "status_of sd' a \<noteq> status_of sd1 a"
      then obtain e where "e \<in> set ds" "e = a \<or> (e, a) \<in> (up sd)\<^sup>+" using R(1) unfolding releases_def A(3) by blast
      then have "e \<in> set ds" "(e, d) \<in> (up sd)\<^sup>+" using a(1) by auto
      then show False using sorted by auto
    qed
    then show ?thesis using a by auto
  qed
  ultimately show ?case using R(2) C by simp
qed simp

lemma resume_stage:
  assumes ok: "\<not> sd_ended sd" "barriers_exact sd" "status_of sd i = Some s" "held s"
  obtains sd1 where "recordStageResumed i sd = (sd1, True)" and "releases {i} sd (releaseStageBarrier i sd1)"
    and "barriers_exact (releaseStageBarrier i sd1)" and "status_of (releaseStageBarrier i sd1) i = Some Running"
proof -
  obtain x where x: "stageById sd i = Some x" "ss_status x = s" using ok(3) by (auto simp: status_stage)
  let ?sd = "put_stage i (to_status Running None) sd"
  show ?thesis
  proof (rule that [of ?sd])
    show "recordStageResumed i sd = (?sd, True)" using x ok(1,4) by (simp add: recordStageResumed_def)
    show "releases {i} sd (releaseStageBarrier i ?sd)" "barriers_exact (releaseStageBarrier i ?sd)"
      using unblock_stage [OF ok(3,4,2), of Running] by simp_all
    show "status_of (releaseStageBarrier i ?sd) i = Some Running" using ok(3) by (simp add: releaseStageBarrier_def)
  qed
qed

lemma descendants_releases:
  assumes agree: "parents_agree sd" and rel: "releases (set (map ss_id (descendantsOf sd i))) sd sd'"
  shows "releases {i} sd sd'"
proof -
  have below: "(i, a) \<in> (up sd)\<^sup>+" if a: "a \<in> set (map ss_id (descendantsOf sd i))" for a
  proof -
    obtain s where s: "s \<in> set (descendantsOf sd i)" "a = ss_id s" using a by auto
    then have "s \<in> set (sd_stages sd)" by (simp add: descendantsOf_def)
    from descendants_iff [OF agree this, of i] s show ?thesis by simp
  qed
  have "\<exists>a \<in> {i}. a = x \<or> (a, x) \<in> (up sd)\<^sup>+"
    if some: "\<exists>a \<in> set (map ss_id (descendantsOf sd i)). a = x \<or> (a, x) \<in> (up sd)\<^sup>+" for x
  proof -
    obtain a where "a \<in> set (map ss_id (descendantsOf sd i))" "a = x \<or> (a, x) \<in> (up sd)\<^sup>+" using some by blast
    with below [of a] have "(i, x) \<in> (up sd)\<^sup>+" by (auto intro: trancl_trans)
    then show ?thesis by blast
  qed
  then show ?thesis using rel unfolding releases_def by blast
qed

lemma resume_spec: "resume_spec env n"
proof (induction n)
  case (Suc n)
  have "releases {i} sd sd' \<and> barriers_exact sd' \<and> status_of sd' i = Some Running"
    if run: "stage_resume env (Suc n) i sd = Some sd'" and ok: "\<not> sd_ended sd" "barriers_exact sd" "parents_agree sd"
      "status_of sd i = Some s" "held s" for i sd sd' s
  proof -
    obtain sd1 where p: "recordStageResumed i sd = (sd1, True)" and P: "releases {i} sd (releaseStageBarrier i sd1)"
      "barriers_exact (releaseStageBarrier i sd1)" "status_of (releaseStageBarrier i sd1) i = Some Running"
      using resume_stage [OF ok(1,2,4,5)] by blast
    let ?sd = "releaseStageBarrier i sd1"
    have sh: "shape ?sd = shape sd" using P(1) by (simp add: releases_def)
    have ok1: "\<not> sd_ended ?sd" "parents_agree ?sd" using ok(1,3) shape_ended [OF sh] shape_agree(1) [OF sh] by simp_all
    have rest: "resume_all env n i (map ss_id (descendantsOf ?sd i)) ?sd = Some sd'"
      using run p by (simp add: Let_def)
    have R: "releases (set (map ss_id (descendantsOf ?sd i))) ?sd sd'" "barriers_exact sd'"
      using resume_all_spec [OF Suc ok1(1) P(2) ok1(2) rest] by blast+
    have R1: "releases {i} ?sd sd'" by (rule descendants_releases [OF ok1(2) R(1)])
    have "status_of sd' i = status_of ?sd i" using R1 P(3) unfolding releases_def by (metis held_simps(3) option.inject)
    then show ?thesis using releases_trans [OF P(1) R1] R(2) P(3) by simp
  qed
  then show ?case unfolding resume_spec_def by blast
qed (simp add: resume_spec_def)

text \<open>The depth of the recursion.\<close>

definition held_stages :: "sched \<Rightarrow> jstr set" where
  "held_stages sd = {i. \<exists>s. status_of sd i = Some s \<and> held s}"

lemma finite_held: "finite (held_stages sd)"
proof (rule finite_subset)
  show "held_stages sd \<subseteq> ss_id ` set (sd_stages sd)"
    by (auto simp: held_stages_def status_of_def stageById_def dest!: find_Some)
qed simp

lemma releases_held: "releases A sd sd' \<Longrightarrow> held_stages sd' \<subseteq> held_stages sd"
proof
  fix i assume r: "releases A sd sd'" and i: "i \<in> held_stages sd'"
  then show "i \<in> held_stages sd" by (cases "status_of sd' i = status_of sd i") (auto simp: releases_def held_stages_def)
qed

lemma resume_all_fuel:
  assumes ret: "\<And>i sd s. \<not> sd_ended sd \<Longrightarrow> barriers_exact sd \<Longrightarrow> parents_agree sd \<Longrightarrow> status_of sd i = Some s \<Longrightarrow> held s \<Longrightarrow>
      card (held_stages sd) \<le> n \<Longrightarrow> stage_resume env n i sd \<noteq> None"
  shows "\<not> sd_ended sd \<Longrightarrow> barriers_exact sd \<Longrightarrow> parents_agree sd \<Longrightarrow> card (held_stages sd) \<le> n \<Longrightarrow>
     resume_all env n r ds sd \<noteq> None"
proof (induction ds arbitrary: sd)
  case (Cons d ds)
  have next_ok: "resume_all env n r ds sd1 \<noteq> None" if "releases {d} sd sd1" "barriers_exact sd1" for sd1
  proof -
    have sh: "shape sd1 = shape sd" using that(1) by (simp add: releases_def)
    have "card (held_stages sd1) \<le> n"
      using card_mono [OF finite_held releases_held [OF that(1)]] Cons.prems(4) by simp
    then show ?thesis using Cons.IH [OF _ that(2)] Cons.prems shape_ended [OF sh] shape_agree(1) [OF sh] by simp
  qed
  show ?case
  proof (cases "stageById sd d")
    case None
    then show ?thesis using next_ok [of sd] Cons.prems by simp
  next
    case (Some stage)
    then have st: "status_of sd d = Some (ss_status stage)" by (simp add: status_of_def)
    show ?thesis
    proof (cases "ss_status stage = Paused")
      case True
      obtain sd1 owned where o: "releaseCascadePauseOwner d r sd = (sd1, owned)" by (cases "releaseCascadePauseOwner d r sd")
      note O = release_owner_only [OF o]
      have plain: "releases {d} sd sd1" "barriers_exact sd1" using O Cons.prems(2) by (simp_all add: releases_def barriers_exact_def)
      have "\<not> sd_ended sd1" "parents_agree sd1" "status_of sd1 d = Some Paused" "card (held_stages sd1) \<le> n"
        using O Cons.prems st True shape_ended [of sd1 sd] shape_agree(1) [of sd1 sd] by (simp_all add: held_stages_def)
      then obtain sd2 where r: "stage_resume env n d sd1 = Some sd2" using ret plain(2) held_simps(1) by fastforce
      have "releases {d} sd1 sd2" "barriers_exact sd2"
        using resume_spec [of env n] r plain(2) \<open>\<not> sd_ended sd1\<close> \<open>parents_agree sd1\<close> \<open>status_of sd1 d = Some Paused\<close> held_simps(1)
        unfolding resume_spec_def by blast+
      then have "resume_all env n r ds sd2 \<noteq> None" using next_ok releases_trans [OF plain(1)] by blast
      then show ?thesis using next_ok [OF plain] Some True o r by simp
    next
      case False
      show ?thesis
      proof (cases "ss_status stage = Blocked")
        case True
        have "recordStageUnblocked d sd = (put_stage d (to_status Pending None) sd, True)"
          using st True by (simp add: recordStageUnblocked_def)
        then show ?thesis
          using next_ok [of sd] next_ok [OF unblock_stage [of sd d Blocked Pending None]] st True Cons.prems Some by simp
      qed (use next_ok [of sd] Cons.prems Some False in simp)
    qed
  qed
qed simp

lemma stage_resume_fuel:
  "\<not> sd_ended sd \<Longrightarrow> barriers_exact sd \<Longrightarrow> parents_agree sd \<Longrightarrow> status_of sd i = Some s \<Longrightarrow> held s \<Longrightarrow>
     card (held_stages sd) \<le> n \<Longrightarrow> stage_resume env n i sd \<noteq> None"
proof (induction n arbitrary: i sd s)
  case 0
  then have "i \<in> held_stages sd" by (simp add: held_stages_def)
  then show ?case using 0 finite_held [of sd] by auto
next
  case (Suc n)
  obtain sd1 where p: "recordStageResumed i sd = (sd1, True)" and P: "releases {i} sd (releaseStageBarrier i sd1)"
    "barriers_exact (releaseStageBarrier i sd1)" "status_of (releaseStageBarrier i sd1) i = Some Running"
    using resume_stage [OF Suc.prems(1,2,4,5)] by blast
  let ?sd = "releaseStageBarrier i sd1"
  have sh: "shape ?sd = shape sd" using P(1) by (simp add: releases_def)
  have "held_stages ?sd \<subset> held_stages sd"
  proof -
    have "i \<notin> held_stages ?sd" using P(3) by (simp add: held_stages_def)
    moreover have "i \<in> held_stages sd" using Suc.prems by (simp add: held_stages_def)
    ultimately show ?thesis using releases_held [OF P(1)] by blast
  qed
  then have "card (held_stages ?sd) < card (held_stages sd)" by (rule psubset_card_mono [OF finite_held])
  then have c: "card (held_stages ?sd) \<le> n" using Suc.prems(6) by simp
  have a: "\<not> sd_ended ?sd" "parents_agree ?sd"
    using Suc.prems(1,3) shape_ended [OF sh] shape_agree(1) [OF sh] by simp_all
  have "resume_all env n i (map ss_id (descendantsOf ?sd i)) ?sd \<noteq> None"
    by (rule resume_all_fuel [OF Suc.IH a(1) P(2) a(2) c])
  then show ?case using p by (simp add: Let_def)
qed

subsection \<open>Properties\<close>

text \<open>Example: a running stage, a pending one after it, and a pending one after that.\<close>

definition demo_stage_snap :: "string \<Rightarrow> string list \<Rightarrow> stage_status \<Rightarrow> stage_snapshot" where
  "demo_stage_snap i parents status =
     \<lparr>ss_id = js i, ss_parentIds = map js parents, ss_status = status, ss_blockedByStageId = None\<rparr>"

definition demo_sched :: "stage_status \<Rightarrow> stage_status \<Rightarrow> stage_status \<Rightarrow> jstr list \<Rightarrow> sched" where
  "demo_sched a b c barriers =
     \<lparr>sd_ended = False, sd_stages = [demo_stage_snap ''a'' [] a, demo_stage_snap ''b'' [''a''] b, demo_stage_snap ''c'' [''b''] c],
      sd_barriers = barriers, sd_owners = [],
      sd_tracker = tracker_new\<lparr>tr_stageParents := [(js ''a'', []), (js ''b'', [js ''a'']), (js ''c'', [js ''b''])]\<rparr>\<rparr>"

definition demo_env :: stage_env where
  "demo_env = \<lparr>se_live = (\<lambda>i. True), se_streaming = (\<lambda>i. False)\<rparr>"

lemma demo_status: "status_of (demo_sched a b c barriers) i =
    (if i = js ''a'' then Some a else if i = js ''b'' then Some b else if i = js ''c'' then Some c else None)"
  by (auto simp: status_of_def stageById_def demo_sched_def demo_stage_snap_def)

text \<open>a pause stops the whole subtree.  Pausing from a stage of a run that has not ended, with enough
  recursion depth (the number of stages that can still be held), returns; afterwards every descendant is
  terminal, paused, blocked, or running without a handle that could pause it; no other status has changed
  except from startable to held; and exactly the held stages have a release barrier.\<close>

theorem pause_stops_descendants:
  assumes "\<not> sd_ended sd" and "barriers_exact sd" and "card (holdable sd) \<le> n"
  shows "\<exists>sd'. cascadePauseFrom env n stageId sd = Some sd' \<and>
    (\<forall>d \<in> set (descendantsOf sd stageId). quiet env sd' (ss_id d)) \<and> holds_more sd sd' \<and> barriers_exact sd'"
proof -
  have "pause_all env n stageId (map ss_id (descendantsOf sd stageId)) sd \<noteq> None"
    by (rule pause_all_fuel [OF stage_pause_fuel assms])
  then obtain sd' where r: "pause_all env n stageId (map ss_id (descendantsOf sd stageId)) sd = Some sd'" by auto
  from pause_all_spec [OF pause_spec assms(1,2) r] r show ?thesis by (auto simp: cascadePauseFrom_def)
qed

theorem pause_stops_descendants_witness:
  "\<exists>sd'. cascadePauseFrom demo_env 3 (js ''a'') (demo_sched Paused Pending Pending [js ''a'']) = Some sd' \<and> barriers_exact sd'"
proof -
  let ?sd = "demo_sched Paused Pending Pending [js ''a'']"
  have "barriers_exact ?sd" by (auto simp: barriers_exact_def demo_status) (simp add: demo_sched_def)+
  moreover have "card (holdable ?sd) \<le> 3"
  proof -
    have "holdable ?sd \<subseteq> set [js ''a'', js ''b'', js ''c'']" by (auto simp: holdable_def demo_status split: if_splits)
    then show ?thesis by (rule order_trans [OF card_mono [OF finite_set] order_trans [OF card_length]]) simp
  qed
  ultimately show ?thesis using pause_stops_descendants [of ?sd 3 demo_env "js ''a''"] by (auto simp: demo_sched_def)
qed



end
