(* ===== verification/Inbound_Queue.thy ===== *)
theory Inbound_Queue
  imports Delivery_Caches
begin

text \<open>
  The receiving side of an intercom session: the queue of messages that wait for an idle session
  (\<open>packages/intercom/inbound-idle-queue.ts\<close>) and the admission of deliveries
  (\<open>inbound-message-admission.ts\<close>).  Objects that the code compares by identity carry the identity
  as a number.
\<close>

subsection \<open>The idle queue\<close>

record inbound_entry =
  en_ref :: nat
  en_fromId :: jstr
  en_fromName :: "jstr option"
  en_runId :: "jstr option"
  en_expectsReply :: bool
  en_timestamp :: rat

text \<open>A claim: what the queue held, what was taken, and whether it was rolled back.\<close>

record idle_claim =
  cl_original :: "inbound_entry list"
  cl_entries :: "inbound_entry list"
  cl_settled :: bool

type_synonym idle_queue = "inbound_entry list"

definition iq_enqueue :: "inbound_entry \<Rightarrow> idle_queue \<Rightarrow> idle_queue" where
  "iq_enqueue e q = q @ [e]"

definition iq_has :: "inbound_entry \<Rightarrow> idle_queue \<Rightarrow> bool" where
  "iq_has e q \<longleftrightarrow> en_ref e \<in> en_ref ` set q"

fun iq_remove :: "inbound_entry \<Rightarrow> idle_queue \<Rightarrow> idle_queue \<times> bool" where
  "iq_remove e [] = ([], False)"
| "iq_remove e (x # q) =
     (if en_ref x = en_ref e then (q, True) else (case iq_remove e q of (q', r) \<Rightarrow> (x # q', r)))"

definition iq_drain :: "idle_queue \<Rightarrow> idle_queue \<times> inbound_entry list" where
  "iq_drain q = ([], q)"

text \<open>The ids of the sessions that sent messages without a run id under a name.\<close>

definition legacy_ids :: "inbound_entry list \<Rightarrow> jstr \<Rightarrow> jstr list" where
  "legacy_ids q name = remdups (map en_fromId (filter (\<lambda>e. en_runId e = None \<and> en_fromName e = Some name) q))"

definition claimed_by :: "inbound_entry list \<Rightarrow> jstr \<Rightarrow> jstr list \<Rightarrow> rat option \<Rightarrow> inbound_entry \<Rightarrow> bool" where
  "claimed_by original runId targets terminalAt e \<longleftrightarrow>
     \<not> en_expectsReply e \<and>
     (case terminalAt of None \<Rightarrow> True | Some t \<Rightarrow> en_timestamp e \<le> t) \<and>
     (let idMatches = (en_fromId e \<in> set targets);
          nameMatches = (case en_fromName e of None \<Rightarrow> False | Some n \<Rightarrow> n \<in> set targets)
      in (idMatches \<or> nameMatches) \<and>
         (case en_runId e of
            Some r \<Rightarrow> r = runId
          | None \<Rightarrow> idMatches \<or>
              (case en_fromName e of None \<Rightarrow> False | Some n \<Rightarrow> length (legacy_ids original n) = 1)))"

definition same_ref :: "inbound_entry \<Rightarrow> inbound_entry list \<Rightarrow> bool" where
  "same_ref e es \<longleftrightarrow> en_ref e \<in> en_ref ` set es"

definition claimOrdinarySourceTargets ::
  "jstr \<Rightarrow> jstr list \<Rightarrow> rat option \<Rightarrow> idle_queue \<Rightarrow> idle_queue \<times> idle_claim" where
  "claimOrdinarySourceTargets runId targets terminalAt q =
     (let selected = filter (claimed_by q runId targets terminalAt) q
      in (filter (\<lambda>e. \<not> same_ref e selected) q,
          \<lparr>cl_original = q, cl_entries = selected, cl_settled = False\<rparr>))"

definition rollbackFrom :: "nat \<Rightarrow> idle_claim \<Rightarrow> idle_queue \<Rightarrow> idle_queue \<times> idle_claim" where
  "rollbackFrom index c q =
     (if cl_settled c then (q, c)
      else (let undelivered = drop index (cl_entries c);
                laterEntries = filter (\<lambda>e. \<not> same_ref e (cl_original c)) q
            in (filter (\<lambda>e. \<not> same_ref e (cl_entries c) \<or> same_ref e undelivered) (cl_original c) @ laterEntries,
                c\<lparr>cl_settled := True\<rparr>)))"

text \<open>A claim takes its entries in order; rolled back from an index, it has given out the entries before it.\<close>

lemma same_ref_member: "e \<in> set es \<Longrightarrow> same_ref e es"
  by (simp add: same_ref_def)

lemma same_ref_filter:
  assumes "inj_on en_ref (set q)" "e \<in> set q" "set es \<subseteq> set q"
  shows "same_ref e es \<longleftrightarrow> e \<in> set es"
  using assms by (auto simp: same_ref_def dest: inj_onD)

lemma stale_rollback:
  "case claimOrdinarySourceTargets runId targets terminalAt q of (q1, c) \<Rightarrow>
     fst (rollbackFrom 0 c (filter keep q1)) = q"
proof -
  let ?sel = "filter (claimed_by q runId targets terminalAt) q"
  have "filter (\<lambda>e. \<not> same_ref e ?sel \<or> same_ref e ?sel) q = q" by (rule filter_True) simp
  moreover have "filter (\<lambda>e. \<not> same_ref e q) (filter keep (filter (\<lambda>e. \<not> same_ref e ?sel) q)) = []"
    by (auto simp: filter_empty_conv same_ref_member)
  ultimately show ?thesis by (simp add: claimOrdinarySourceTargets_def rollbackFrom_def Let_def)
qed

lemma claim_rollback:
  assumes d: "distinct (map en_ref (q @ later))"
  shows "case claimOrdinarySourceTargets runId targets terminalAt q of (q1, c) \<Rightarrow>
     fst (rollbackFrom i c (q1 @ later)) = filter (\<lambda>e. e \<notin> set (take i (cl_entries c))) q @ later"
proof -
  let ?sel = "filter (claimed_by q runId targets terminalAt) q"
  have inj: "inj_on en_ref (set q)" using d by (simp add: distinct_map)
  have dq: "distinct q" using d by (simp add: distinct_map)
  have ref: "same_ref e es \<longleftrightarrow> e \<in> set es" if "e \<in> set q" "set es \<subseteq> set q" for e es
    by (rule same_ref_filter [OF inj that])
  have sub: "set (drop i ?sel) \<subseteq> set q" "set ?sel \<subseteq> set q"
    using set_drop_subset [of i ?sel] by auto
  have split: "e \<in> set ?sel \<longleftrightarrow> e \<in> set (take i ?sel) \<or> e \<in> set (drop i ?sel)" for e
    by (metis append_take_drop_id set_append Un_iff)
  have "set (take i ?sel) \<inter> set (drop i ?sel) = {}"
    by (rule set_take_disj_set_drop_if_distinct) (simp_all add: dq)
  then have old: "filter (\<lambda>e. \<not> same_ref e ?sel \<or> same_ref e (drop i ?sel)) q = filter (\<lambda>e. e \<notin> set (take i ?sel)) q"
    using ref sub split by (intro filter_cong) blast+
  have "\<forall>e \<in> set later. \<not> same_ref e q" using d by (auto simp: same_ref_def image_iff)
  then have "filter (\<lambda>e. \<not> same_ref e q) later = later" by (simp add: filter_id_conv)
  moreover have "filter (\<lambda>e. \<not> same_ref e q) (filter (\<lambda>e. \<not> same_ref e ?sel) q) = []"
    by (auto simp: filter_empty_conv same_ref_member)
  ultimately show ?thesis using old by (simp add: claimOrdinarySourceTargets_def rollbackFrom_def Let_def)
qed

subsection \<open>Admission\<close>

record reservation =
  rs_messageId :: jstr
  rs_signature :: json
  rs_token :: nat

record pending_inbound =
  pi_reservation :: reservation
  pi_delivering :: bool

datatype admission = Reserved reservation | AlreadyPending | Duplicate

datatype completion = CompletionResolved nat | CompletionRejected nat

text \<open>The tokens of reservations are handed out in order, like symbols.\<close>

record admission_state =
  ad_delivered :: delivered_cache
  ad_pending :: "(jstr, pending_inbound) jmap"
  ad_nextToken :: nat

definition admission_new :: admission_state where
  "admission_new = \<lparr>ad_delivered = dc_new, ad_pending = [], ad_nextToken = 0\<rparr>"

definition inbound_signature :: "jstr \<Rightarrow> json \<Rightarrow> json" where
  "inbound_signature fromId m = JObj [(js ''from'', JStr fromId), (js ''message'', m)]"

definition admit :: "jstr \<Rightarrow> json \<Rightarrow> int \<Rightarrow> admission_state \<Rightarrow> admission_state \<times> admission" where
  "admit fromId m now st =
     (let signature = inbound_signature fromId m; i = message_id m
      in case dc_lookup (ad_delivered st) i signature now of
           (dc, found) \<Rightarrow>
             (let st = st\<lparr>ad_delivered := dc\<rparr>
              in if found \<noteq> Miss then (st, Duplicate)
                 else (case jm_get (ad_pending st) i of
                         Some p \<Rightarrow>
                           (if rs_signature (pi_reservation p) \<noteq> signature \<or> pi_delivering p then (st, Duplicate)
                            else (st, AlreadyPending))
                       | None \<Rightarrow>
                           (let r = \<lparr>rs_messageId = i, rs_signature = signature, rs_token = ad_nextToken st\<rparr>
                            in (st\<lparr>ad_pending := jm_set i \<lparr>pi_reservation = r, pi_delivering = False\<rparr> (ad_pending st),
                                  ad_nextToken := ad_nextToken st + 1\<rparr>, Reserved r)))))"

definition reserve :: "jstr \<Rightarrow> json \<Rightarrow> int \<Rightarrow> admission_state \<Rightarrow> admission_state \<times> reservation option" where
  "reserve fromId m now st =
     (case admit fromId m now st of
        (st', Reserved r) \<Rightarrow> (st', Some r) | (st', _) \<Rightarrow> (st', None))"

text \<open>The entry that a reservation still owns.\<close>

definition owned_pending :: "reservation \<Rightarrow> admission_state \<Rightarrow> pending_inbound option" where
  "owned_pending r st =
     (case jm_get (ad_pending st) (rs_messageId r) of
        None \<Rightarrow> None | Some p \<Rightarrow> (if rs_token (pi_reservation p) = rs_token r then Some p else None))"

definition set_delivering :: "bool \<Rightarrow> reservation \<Rightarrow> admission_state \<Rightarrow> admission_state" where
  "set_delivering d r st =
     (case owned_pending r st of
        None \<Rightarrow> st
      | Some p \<Rightarrow> st\<lparr>ad_pending := jm_set (rs_messageId r) (p\<lparr>pi_delivering := d\<rparr>) (ad_pending st)\<rparr>)"

definition beginDelivery :: "reservation \<Rightarrow> admission_state \<Rightarrow> admission_state" where
  "beginDelivery = set_delivering True"

definition endDelivery :: "reservation \<Rightarrow> admission_state \<Rightarrow> admission_state" where
  "endDelivery = set_delivering False"

definition admission_commit :: "reservation \<Rightarrow> int \<Rightarrow> admission_state \<Rightarrow> admission_state \<times> completion list" where
  "admission_commit r now st =
     (case owned_pending r st of
        None \<Rightarrow> (st, [])
      | Some p \<Rightarrow>
          (st\<lparr>ad_pending := jm_delete (rs_messageId r) (ad_pending st),
              ad_delivered := dc_record (ad_delivered st) (rs_messageId r) (rs_signature r) now\<rparr>,
           [CompletionResolved (rs_token r)]))"

definition admission_release :: "reservation \<Rightarrow> admission_state \<Rightarrow> admission_state \<times> completion list" where
  "admission_release r st =
     (case owned_pending r st of
        None \<Rightarrow> (st, [])
      | Some p \<Rightarrow>
          (st\<lparr>ad_pending := jm_delete (rs_messageId r) (ad_pending st)\<rparr>, [CompletionRejected (rs_token r)]))"

definition accept :: "jstr \<Rightarrow> json \<Rightarrow> int \<Rightarrow> admission_state \<Rightarrow> admission_state \<times> bool" where
  "accept fromId m now st =
     (case reserve fromId m now st of
        (st', None) \<Rightarrow> (st', False)
      | (st', Some r) \<Rightarrow> (fst (admission_commit r now st'), True))"

subsection \<open>Runs of the admission\<close>

datatype admission_event =
  AdmitEvent jstr json int | BeginEvent reservation | EndEvent reservation | CommitEvent reservation int | ReleaseEvent reservation

fun admission_step :: "admission_state \<Rightarrow> admission_event \<Rightarrow> admission_state \<times> completion list" where
  "admission_step st (AdmitEvent fromId m now) = (fst (admit fromId m now st), [])"
| "admission_step st (BeginEvent r) = (beginDelivery r st, [])"
| "admission_step st (EndEvent r) = (endDelivery r st, [])"
| "admission_step st (CommitEvent r now) = admission_commit r now st"
| "admission_step st (ReleaseEvent r) = admission_release r st"

fun admission_run :: "admission_state \<Rightarrow> admission_event list \<Rightarrow> admission_state \<times> completion list" where
  "admission_run st [] = (st, [])"
| "admission_run st (ev # evs) =
     (case admission_step st ev of
        (st', out) \<Rightarrow> (case admission_run st' evs of (st'', rest) \<Rightarrow> (st'', out @ rest)))"

fun completion_token :: "completion \<Rightarrow> nat" where
  "completion_token (CompletionResolved t) = t"
| "completion_token (CompletionRejected t) = t"

definition pending_tokens :: "admission_state \<Rightarrow> nat list" where
  "pending_tokens st = map (\<lambda>p. rs_token (pi_reservation p)) (jm_values (ad_pending st))"

definition admission_inv :: "admission_state \<Rightarrow> bool" where
  "admission_inv st \<longleftrightarrow> jm_wf (ad_pending st) \<and> distinct (pending_tokens st) \<and>
     (\<forall>t \<in> set (pending_tokens st). t < ad_nextToken st) \<and>
     (\<forall>(i, p) \<in> set (ad_pending st). rs_messageId (pi_reservation p) = i)"

text \<open>A step settles only reservations that were pending, and never brings a token back.\<close>

definition settles :: "admission_state \<Rightarrow> completion list \<Rightarrow> admission_state \<Rightarrow> bool" where
  "settles st out st' \<longleftrightarrow> admission_inv st' \<and> ad_nextToken st \<le> ad_nextToken st' \<and>
     distinct (map completion_token out) \<and> set (map completion_token out) \<subseteq> set (pending_tokens st) \<and>
     set (pending_tokens st') = set (pending_tokens st) - set (map completion_token out) \<union> {ad_nextToken st ..< ad_nextToken st'}"

lemma inv_delete:
  assumes inv: "admission_inv st" and p: "owned_pending r st = Some p"
    and st': "ad_pending st' = jm_delete (rs_messageId r) (ad_pending st)" "ad_nextToken st' = ad_nextToken st"
    and out: "map completion_token out = [rs_token r]"
  shows "settles st out st'"
proof -
  let ?i = "rs_messageId r" and ?tok = "\<lambda>p. rs_token (pi_reservation p)"
  have g: "jm_get (ad_pending st) ?i = Some p" and t: "?tok p = rs_token r"
    using p by (auto simp: owned_pending_def split: option.splits if_splits)
  have sub: "pending_tokens st' = map (?tok \<circ> snd) (filter (\<lambda>(k, v). ?i \<noteq> k) (ad_pending st))"
    by (simp add: pending_tokens_def st' AList.delete_eq o_def case_prod_beta)
  have toks: "pending_tokens st = map (?tok \<circ> snd) (ad_pending st)" by (simp add: pending_tokens_def)
  have wf: "jm_wf (ad_pending st)" using inv by (simp add: admission_inv_def)
  have mem: "(?i, p) \<in> set (ad_pending st)" by (rule map_of_SomeD [OF g])
  have inj: "x = y" if "x \<in> set (ad_pending st)" "y \<in> set (ad_pending st)" "?tok (snd x) = ?tok (snd y)" for x y
    using inv that unfolding admission_inv_def toks by (metis comp_apply distinct_map inj_onD)
  have only: "k = ?i \<longleftrightarrow> ?tok v = rs_token r" if "(k, v) \<in> set (ad_pending st)" for k v
  proof
    assume "k = ?i"
    then have "v = p" using that wf g by (metis map_of_is_SomeI option.inject)
    then show "?tok v = rs_token r" using t by simp
  next
    assume "?tok v = rs_token r"
    then show "k = ?i" using inj [OF that mem] t by simp
  qed
  have tok: "set (pending_tokens st') = set (pending_tokens st) - {rs_token r}"
    unfolding sub toks using only by force
  moreover have "distinct (pending_tokens st')"
    using inv unfolding sub admission_inv_def toks by (simp add: distinct_map_filter)
  moreover have "rs_token r \<in> set (pending_tokens st)" using mem t unfolding toks by force
  ultimately show ?thesis using inv out st'
    by (auto simp: settles_def admission_inv_def jm_in_delete simp del: set_map)
qed

lemma settles_same:
  assumes "admission_inv st" "ad_pending st' = ad_pending st" "ad_nextToken st' = ad_nextToken st"
  shows "settles st [] st'"
  using assms by (simp add: settles_def admission_inv_def pending_tokens_def)

lemma jm_set_same_image:
  assumes "jm_get m k = Some p" "f v = f p"
  shows "map f (jm_values (jm_set k v m)) = map f (jm_values m)"
  using assms by (induction m) (auto split: if_splits)

lemma settles_delivering:
  assumes inv: "admission_inv st"
  shows "settles st [] (set_delivering d r st)"
proof (cases "owned_pending r st")
  case None
  then show ?thesis using settles_same [OF inv] by (simp add: set_delivering_def)
next
  case (Some p)
  let ?v = "p\<lparr>pi_delivering := d\<rparr>"
  let ?st = "st\<lparr>ad_pending := jm_set (rs_messageId r) ?v (ad_pending st)\<rparr>"
  have g: "jm_get (ad_pending st) (rs_messageId r) = Some p"
    using Some by (auto simp: owned_pending_def split: option.splits if_splits)
  have toks: "pending_tokens ?st = pending_tokens st"
    using jm_set_same_image [OF g, of "\<lambda>p. rs_token (pi_reservation p)" ?v] by (simp add: pending_tokens_def)
  have "rs_messageId (pi_reservation p) = rs_messageId r"
    using inv map_of_SomeD [OF g] by (auto simp: admission_inv_def)
  then have "admission_inv ?st" using inv
    by (auto simp: admission_inv_def toks jm_in_set split: if_splits)
  then show ?thesis using Some toks by (simp add: set_delivering_def settles_def)
qed

lemma settles_add:
  assumes inv: "admission_inv st" and fresh: "i \<notin> set (jm_keys (ad_pending st))"
    and st': "ad_pending st' = ad_pending st @ [(i, p)]" "ad_nextToken st' = Suc (ad_nextToken st)"
    and p: "rs_messageId (pi_reservation p) = i" "rs_token (pi_reservation p) = ad_nextToken st"
  shows "settles st [] st'"
proof -
  have toks: "pending_tokens st' = pending_tokens st @ [ad_nextToken st]"
    by (simp add: pending_tokens_def st' p)
  have "jm_wf (ad_pending st')" using inv fresh by (simp add: admission_inv_def st')
  moreover have "distinct (pending_tokens st')" using inv by (auto simp: admission_inv_def toks)
  moreover have "\<forall>t \<in> set (pending_tokens st'). t < ad_nextToken st'"
    using inv by (auto simp: admission_inv_def toks st')
  moreover have "\<forall>(i, p) \<in> set (ad_pending st'). rs_messageId (pi_reservation p) = i"
    using inv by (auto simp: admission_inv_def st' p)
  ultimately have "admission_inv st'" by (simp add: admission_inv_def)
  then show ?thesis by (auto simp: settles_def toks st')
qed

lemma settles_admit:
  assumes inv: "admission_inv st"
  shows "settles st [] (fst (admit fromId m now st))"
proof -
  obtain dc found where look: "dc_lookup (ad_delivered st) (message_id m) (inbound_signature fromId m) now = (dc, found)"
    by (cases "dc_lookup (ad_delivered st) (message_id m) (inbound_signature fromId m) now")
  show ?thesis
  proof (cases "found = Miss \<and> jm_get (ad_pending st) (message_id m) = None")
    case False
    then have "fst (admit fromId m now st) = st\<lparr>ad_delivered := dc\<rparr>"
      by (auto simp: admit_def look Let_def split: option.splits)
    then show ?thesis using settles_same [OF inv] by simp
  next
    case True
    then have fresh: "message_id m \<notin> set (jm_keys (ad_pending st))" by (simp add: map_of_eq_None_iff)
    have miss: "found = Miss" "jm_get (ad_pending st) (message_id m) = None" using True by simp_all
    show ?thesis
      by (rule settles_add [OF inv fresh],
          simp add: admit_def look Let_def miss jm_set_fresh [OF fresh],
          simp_all add: admit_def look Let_def miss)
  qed
qed

lemma settles_step: "admission_inv st \<Longrightarrow> settles st (snd (admission_step st ev)) (fst (admission_step st ev))"
proof (cases ev)
  case (AdmitEvent f m now)
  assume "admission_inv st"
  then show ?thesis using AdmitEvent settles_admit by simp
next
  case (BeginEvent r)
  assume "admission_inv st"
  then show ?thesis using BeginEvent settles_delivering by (simp add: beginDelivery_def)
next
  case (EndEvent r)
  assume "admission_inv st"
  then show ?thesis using EndEvent settles_delivering by (simp add: endDelivery_def)
next
  case (CommitEvent r now)
  assume inv: "admission_inv st"
  show ?thesis
  proof (cases "owned_pending r st")
    case None then show ?thesis using settles_same [OF inv] CommitEvent by (simp add: admission_commit_def)
  next
    case (Some p) then show ?thesis using inv_delete [OF inv Some] CommitEvent by (simp add: admission_commit_def)
  qed
next
  case (ReleaseEvent r)
  assume inv: "admission_inv st"
  show ?thesis
  proof (cases "owned_pending r st")
    case None then show ?thesis using settles_same [OF inv] ReleaseEvent by (simp add: admission_release_def)
  next
    case (Some p) then show ?thesis using inv_delete [OF inv Some] ReleaseEvent by (simp add: admission_release_def)
  qed
qed

text \<open>What is owed and what was settled, after a run.\<close>

definition accounted :: "admission_state \<Rightarrow> completion list \<Rightarrow> bool" where
  "accounted st out \<longleftrightarrow> distinct (map completion_token out) \<and> distinct (pending_tokens st) \<and>
     set (map completion_token out) \<inter> set (pending_tokens st) = {} \<and>
     set (map completion_token out) \<union> set (pending_tokens st) = {..< ad_nextToken st}"

lemma accounted_step:
  assumes acc: "accounted st out" and st: "settles st out' st'"
  shows "accounted st' (out @ out')"
proof -
  let ?o = "set (map completion_token out)" and ?o' = "set (map completion_token out')"
    and ?p = "set (pending_tokens st)" and ?p' = "set (pending_tokens st')"
    and ?n = "ad_nextToken st" and ?n' = "ad_nextToken st'"
  have 1: "distinct (map completion_token out)" "?o \<inter> ?p = {}" "?o \<union> ?p = {..< ?n}"
    using acc by (simp_all add: accounted_def del: set_map)
  have 2: "admission_inv st'" "?n \<le> ?n'" "distinct (map completion_token out')" "?o' \<subseteq> ?p"
      "?p' = ?p - ?o' \<union> {?n ..< ?n'}"
    using st unfolding settles_def by blast+
  have below: "?o \<subseteq> {..< ?n}" using 1(3) by blast
  have high: "{..< ?n} \<inter> {?n ..< ?n'} = {}" "{..< ?n} \<union> {?n ..< ?n'} = {..< ?n'}" using 2(2) by auto
  have "?o \<inter> ?o' = {}" using 1(2) 2(4) by blast
  then have "distinct (map completion_token (out @ out'))" using 1(1) 2(3) by simp
  moreover have "distinct (pending_tokens st')" using 2(1) by (simp add: admission_inv_def)
  moreover have "(?o \<union> ?o') \<inter> ?p' = {}" using 1(2,3) 2(4) high(1) unfolding 2(5) by blast
  moreover have "(?o \<union> ?o') \<union> ?p' = {..< ?n'}" using 1(3) 2(4) high(2) unfolding 2(5) by blast
  ultimately show ?thesis by (simp add: accounted_def image_Un del: set_map add: set_map [symmetric])
qed

lemma accounted_run:
  "accounted st out \<Longrightarrow> admission_inv st \<Longrightarrow>
   accounted (fst (admission_run st evs)) (out @ snd (admission_run st evs)) \<and> admission_inv (fst (admission_run st evs))"
proof (induction evs arbitrary: st out)
  case Nil
  then show ?case by simp
next
  case (Cons ev evs)
  let ?s = "admission_step st ev"
  have step: "settles st (snd ?s) (fst ?s)" by (rule settles_step [OF Cons.prems(2)])
  have inv: "admission_inv (fst ?s)" using step unfolding settles_def by blast
  show ?case using Cons.IH [OF accounted_step [OF Cons.prems(1) step] inv]
    by (simp add: case_prod_beta Let_def)
qed

lemma accounted_new: "accounted admission_new [] \<and> admission_inv admission_new"
  by (simp add: accounted_def admission_inv_def pending_tokens_def admission_new_def)

text \<open>C39: Every reservation of an inbound delivery is settled at most once.  Over any sequence of admissions,
  deliveries, commits and releases, in any order and with any reservations, the reservations handed out so
  far are exactly those whose completion has resolved or rejected together with those still pending; none
  is in both, and none is twice in either.
\<close>

theorem inbound_reservations_settle_once:
  "case admission_run admission_new evs of (st, out) \<Rightarrow>
     distinct (map completion_token out) \<and> distinct (pending_tokens st) \<and>
     set (map completion_token out) \<inter> set (pending_tokens st) = {} \<and>
     set (map completion_token out) \<union> set (pending_tokens st) = {..< ad_nextToken st}"
  using accounted_run [of admission_new "[]" evs] accounted_new
  by (simp add: accounted_def case_prod_beta)

text \<open>A late rollback delivers twice.  When the idle queue is flushed while a terminal barrier still waits
  for its dispatch, the entries the barrier had not taken are handed out; if the dispatch then fails, the
  rollback rebuilds the queue from what it held at the claim, so all of them are queued again.\<close>

theorem late_rollback_redelivers:
  "case claimOrdinarySourceTargets runId targets terminalAt q of (left, c) \<Rightarrow>
   case iq_drain left of (emptied, flushed) \<Rightarrow>
     emptied = [] \<and> flushed = left \<and> fst (rollbackFrom 0 c emptied) = q \<and> set flushed \<subseteq> set q"
proof -
  have "fst (rollbackFrom 0 (snd (claimOrdinarySourceTargets runId targets terminalAt q)) []) = q"
    using stale_rollback [where keep = "\<lambda>_. False" and q = q and runId = runId and targets = targets and terminalAt = terminalAt] by (simp add: case_prod_beta)
  then show ?thesis by (auto simp: iq_drain_def claimOrdinarySourceTargets_def Let_def)
qed

end
