(* ===== verification/Reply_Tracking.thy ===== *)
theory Reply_Tracking
  imports Delivery_Caches
begin

text \<open>
  Asks on both sides of an intercom session: the asks that wait for this session's answer
  (\<open>packages/intercom/reply-tracker.ts\<close>), the slot of the one blocking ask this session may have open
  (\<open>reply-waiter.ts\<close>) and the routing of an incoming reply to it (\<open>reply-routing.ts\<close>).  Contexts and
  waiters are compared by identity in the code; a number stands for the identity.
\<close>

subsection \<open>Pending asks\<close>

record ask_context =
  ac_ref :: nat
  ac_from :: session_info
  ac_message :: json
  ac_receivedAt :: int

record reply_tracker =
  rp_pendingAsks :: "(jstr, ask_context) jmap"
  rp_pendingTurns :: "ask_context list"
  rp_currentTurn :: "ask_context option"
  rp_askTimeoutMs :: int

definition reply_tracker_new :: "int \<Rightarrow> reply_tracker" where
  "reply_tracker_new askTimeoutMs =
     \<lparr>rp_pendingAsks = [], rp_pendingTurns = [], rp_currentTurn = None, rp_askTimeoutMs = askTimeoutMs\<rparr>"

definition recordIncomingMessage :: "ask_context \<Rightarrow> reply_tracker \<Rightarrow> reply_tracker" where
  "recordIncomingMessage c tr =
     (if jbool (jfield (ac_message c) ''expectsReply'') = Some True
      then tr\<lparr>rp_pendingAsks := jm_set (message_id (ac_message c)) c (rp_pendingAsks tr)\<rparr> else tr)"

definition queueTurnContext :: "ask_context \<Rightarrow> reply_tracker \<Rightarrow> reply_tracker" where
  "queueTurnContext c tr = tr\<lparr>rp_pendingTurns := rp_pendingTurns tr @ [c]\<rparr>"

definition forgetIncomingMessage :: "ask_context \<Rightarrow> reply_tracker \<Rightarrow> reply_tracker" where
  "forgetIncomingMessage c tr =
     (let i = message_id (ac_message c)
      in tr\<lparr>rp_pendingAsks :=
              (if map_option ac_ref (jm_get (rp_pendingAsks tr) i) = Some (ac_ref c)
               then jm_delete i (rp_pendingAsks tr) else rp_pendingAsks tr),
            rp_pendingTurns := filter (\<lambda>x. ac_ref x \<noteq> ac_ref c) (rp_pendingTurns tr),
            rp_currentTurn :=
              (if map_option ac_ref (rp_currentTurn tr) = Some (ac_ref c) then None else rp_currentTurn tr)\<rparr>)"

definition rp_pruneExpired :: "int \<Rightarrow> reply_tracker \<Rightarrow> reply_tracker" where
  "rp_pruneExpired now tr =
     tr\<lparr>rp_pendingAsks :=
        filter (\<lambda>(i, c). \<not> rp_askTimeoutMs tr < now - ac_receivedAt c) (rp_pendingAsks tr)\<rparr>"

definition beginTurn :: "int \<Rightarrow> reply_tracker \<Rightarrow> reply_tracker" where
  "beginTurn now tr =
     (let tr = rp_pruneExpired now tr
      in (case rp_pendingTurns tr of
            [] \<Rightarrow> tr\<lparr>rp_currentTurn := None\<rparr>
          | c # cs \<Rightarrow> tr\<lparr>rp_pendingTurns := cs, rp_currentTurn := Some c\<rparr>))"

definition endTurn :: "reply_tracker \<Rightarrow> reply_tracker" where
  "endTurn tr = tr\<lparr>rp_currentTurn := None\<rparr>"

definition reply_tracker_reset :: "reply_tracker \<Rightarrow> reply_tracker" where
  "reply_tracker_reset tr = reply_tracker_new (rp_askTimeoutMs tr)"

definition markReplied :: "jstr \<Rightarrow> reply_tracker \<Rightarrow> reply_tracker" where
  "markReplied replyTo tr =
     tr\<lparr>rp_pendingAsks := jm_delete replyTo (rp_pendingAsks tr),
        rp_currentTurn :=
          (if map_option (message_id \<circ> ac_message) (rp_currentTurn tr) = Some replyTo then None
           else rp_currentTurn tr)\<rparr>"

definition listPending :: "int \<Rightarrow> reply_tracker \<Rightarrow> reply_tracker \<times> ask_context list" where
  "listPending now tr =
     (let tr = rp_pruneExpired now tr in (tr, sort_key ac_receivedAt (jm_values (rp_pendingAsks tr))))"

text \<open>\<open>new Map(pending.map(c => [c.from.id, c.from])).values()\<close>.\<close>

definition ask_senders :: "ask_context list \<Rightarrow> session_info list" where
  "ask_senders pending = jm_values (foldl (\<lambda>m c. jm_set (si_id (ac_from c)) (ac_from c) m) [] pending)"

definition no_pending_from :: "jstr \<Rightarrow> jstr" where
  "no_pending_from target = js ''No pending ask from \"'' @ target @ js ''\"''"

definition resolve_ask_from :: "(jstr \<Rightarrow> jstr) \<Rightarrow> ask_context list \<Rightarrow> jstr \<Rightarrow> jstr + ask_context" where
  "resolve_ask_from lower pending target =
     (case resolveSessionTarget lower (ask_senders pending) target of
        Resolved session \<Rightarrow>
          (case filter (\<lambda>c. si_id (ac_from c) = si_id session) pending of
             [c] \<Rightarrow> Inr c
           | [] \<Rightarrow> Inl (no_pending_from target)
           | _ \<Rightarrow> Inl (js ''Multiple pending asks from \"'' @ target @ js ''\"''))
      | NotFound \<Rightarrow> Inl (no_pending_from target)
      | r \<Rightarrow> Inl (sessionTargetFailureReason target r))"

definition resolveReplyTarget ::
  "(jstr \<Rightarrow> jstr) \<Rightarrow> jstr option \<Rightarrow> int \<Rightarrow> reply_tracker \<Rightarrow> reply_tracker \<times> (jstr + ask_context)" where
  "resolveReplyTarget lower target now tr =
     (let tr = rp_pruneExpired now tr; pending = jm_values (rp_pendingAsks tr)
      in (tr,
          case rp_currentTurn tr of
            Some c \<Rightarrow> Inr c
          | None \<Rightarrow>
              (if truthy_string target then resolve_ask_from lower pending (case target of None \<Rightarrow> [] | Some t \<Rightarrow> t)
               else (case pending of
                       [c] \<Rightarrow> Inr c
                     | [] \<Rightarrow> Inl (js ''No active intercom context to reply to'')
                     | _ \<Rightarrow> Inl (js ''Multiple pending asks '' @ [js_emdash] @ js '' specify `to`'')))))"

subsection \<open>The blocking ask\<close>

text \<open>A waiter is a number; \<open>ws_settled\<close> are the waiters whose promise has settled.\<close>

record reply_waiter =
  wr_id :: nat
  wr_from :: jstr
  wr_replyTo :: jstr

record waiter_slot =
  ws_waiter :: "reply_waiter option"
  ws_settled :: "nat list"
  ws_next :: nat

datatype wait_admission = WaitOk reply_waiter | WaitBusy | WaitCancelled

datatype wait_outcome = WaitResolved nat json | WaitRejected nat

definition slot_new :: waiter_slot where
  "slot_new = \<lparr>ws_waiter = None, ws_settled = [], ws_next = 0\<rparr>"

definition slot_begin :: "jstr \<Rightarrow> jstr \<Rightarrow> bool \<Rightarrow> waiter_slot \<Rightarrow> waiter_slot \<times> wait_admission" where
  "slot_begin fromName replyTo aborted s =
     (if ws_waiter s \<noteq> None then (s, WaitBusy)
      else if aborted then (s, WaitCancelled)
      else (let w = \<lparr>wr_id = ws_next s, wr_from = fromName, wr_replyTo = replyTo\<rparr>
            in (s\<lparr>ws_waiter := Some w, ws_next := ws_next s + 1\<rparr>, WaitOk w)))"

text \<open>\<open>settle\<close> is \<open>record.resolve\<close> or \<open>record.reject\<close>: by the reply, the timer, the abort signal, the owner's
  cancel or the teardown of the slot.\<close>

definition slot_settle :: "wait_outcome \<Rightarrow> nat \<Rightarrow> waiter_slot \<Rightarrow> waiter_slot \<times> wait_outcome list" where
  "slot_settle outcome w s =
     (if w \<in> set (ws_settled s) then (s, [])
      else (s\<lparr>ws_settled := w # ws_settled s,
              ws_waiter := (if map_option wr_id (ws_waiter s) = Some w then None else ws_waiter s)\<rparr>, [outcome]))"

definition slot_rejectCurrent :: "waiter_slot \<Rightarrow> waiter_slot \<times> wait_outcome list" where
  "slot_rejectCurrent s =
     (case ws_waiter s of None \<Rightarrow> (s, []) | Some w \<Rightarrow> slot_settle (WaitRejected (wr_id w)) (wr_id w) s)"

text \<open>\<open>routeIncomingReply\<close>: the reply must come from the session that was asked, on the thread of the ask.\<close>

definition reply_matches :: "(jstr \<Rightarrow> jstr) \<Rightarrow> reply_waiter \<Rightarrow> session_info \<Rightarrow> json \<Rightarrow> bool" where
  "reply_matches lower w s m \<longleftrightarrow>
     (let senderTarget = (case si_name s of Some n \<Rightarrow> if n = [] then si_id s else n | None \<Rightarrow> si_id s)
      in (lower senderTarget = lower (wr_from w) \<or> si_id s = wr_from w) \<and> message_replyTo m = Some (wr_replyTo w))"

definition routeIncomingReply ::
  "(jstr \<Rightarrow> jstr) \<Rightarrow> session_info \<Rightarrow> json \<Rightarrow> waiter_slot \<Rightarrow> waiter_slot \<times> wait_outcome list \<times> bool" where
  "routeIncomingReply lower s m slot =
     (case ws_waiter slot of
        None \<Rightarrow> (slot, [], False)
      | Some w \<Rightarrow>
          (if \<not> reply_matches lower w s m then (slot, [], False)
           else (case slot_settle (WaitResolved (wr_id w) m) (wr_id w) slot of (slot', out) \<Rightarrow> (slot', out, True))))"

text \<open>What happens to a slot.  \<open>FailAsk\<close> is the timer, the abort signal or the owner's cancel of a waiter that
  was handed out, at any later time.\<close>

datatype slot_event = BeginAsk jstr jstr bool | IncomingReply session_info json | FailAsk nat | Teardown

fun slot_step :: "(jstr \<Rightarrow> jstr) \<Rightarrow> waiter_slot \<Rightarrow> slot_event \<Rightarrow> waiter_slot \<times> wait_outcome list" where
  "slot_step lower s (BeginAsk fromName replyTo aborted) = (fst (slot_begin fromName replyTo aborted s), [])"
| "slot_step lower s (IncomingReply session m) =
     (case routeIncomingReply lower session m s of (s', out, _) \<Rightarrow> (s', out))"
| "slot_step lower s (FailAsk w) = (if w < ws_next s then slot_settle (WaitRejected w) w s else (s, []))"
| "slot_step lower s Teardown = slot_rejectCurrent s"

fun slot_run :: "(jstr \<Rightarrow> jstr) \<Rightarrow> waiter_slot \<Rightarrow> slot_event list \<Rightarrow> waiter_slot \<times> wait_outcome list" where
  "slot_run lower s [] = (s, [])"
| "slot_run lower s (ev # evs) =
     (case slot_step lower s ev of
        (s', out) \<Rightarrow> (case slot_run lower s' evs of (s'', rest) \<Rightarrow> (s'', out @ rest)))"

fun outcome_waiter :: "wait_outcome \<Rightarrow> nat" where
  "outcome_waiter (WaitResolved w _) = w"
| "outcome_waiter (WaitRejected w) = w"

definition slot_owes :: "waiter_slot \<Rightarrow> nat list" where
  "slot_owes s = (case ws_waiter s of None \<Rightarrow> [] | Some w \<Rightarrow> [wr_id w])"

definition slot_account :: "waiter_slot \<Rightarrow> wait_outcome list \<Rightarrow> bool" where
  "slot_account s out \<longleftrightarrow> distinct (map outcome_waiter out @ slot_owes s) \<and>
     set (map outcome_waiter out) = set (ws_settled s) \<and>
     set (map outcome_waiter out @ slot_owes s) = {..< ws_next s}"

lemma settle_account:
  assumes acc: "slot_account s out" and w: "w < ws_next s" and o: "outcome_waiter oc = w"
  shows "slot_account (fst (slot_settle oc w s)) (out @ snd (slot_settle oc w s))"
proof (cases "w \<in> set (ws_settled s)")
  case True
  then show ?thesis using acc by (simp add: slot_settle_def)
next
  case False
  have nin: "w \<notin> set (map outcome_waiter out)" using False acc unfolding slot_account_def by blast
  have "w \<in> set (map outcome_waiter out @ slot_owes s)" using acc w unfolding slot_account_def by blast
  then have "slot_owes s = [w]" using nin by (auto simp: slot_owes_def split: option.splits)
  then obtain v where v: "ws_waiter s = Some v" "wr_id v = w"
    by (auto simp: slot_owes_def split: option.splits)
  show ?thesis using acc nin False v o
    by (auto simp: slot_settle_def slot_account_def slot_owes_def simp del: set_map)
qed

lemma step_slot_account:
  assumes acc: "slot_account s out"
  shows "slot_account (fst (slot_step lower s ev)) (out @ snd (slot_step lower s ev))"
proof -
  have cur: "wr_id w < ws_next s" if "ws_waiter s = Some w" for w
    using acc that by (auto simp: slot_account_def slot_owes_def)
  show ?thesis
  proof (cases ev)
    case (BeginAsk f r a)
    then show ?thesis using acc
      by (auto simp: slot_begin_def slot_account_def slot_owes_def Let_def lessThan_Suc)
  next
    case (IncomingReply i m)
    show ?thesis
    proof (cases "ws_waiter s")
      case None then show ?thesis using acc IncomingReply by (simp add: routeIncomingReply_def)
    next
      case (Some w)
      show ?thesis using settle_account [OF acc cur [OF Some], of "WaitResolved (wr_id w) m"] acc IncomingReply Some
        by (auto simp: routeIncomingReply_def case_prod_beta)
    qed
  next
    case (FailAsk w)
    then show ?thesis using settle_account [OF acc, of w "WaitRejected w"] acc by simp
  next
    case Teardown
    show ?thesis
    proof (cases "ws_waiter s")
      case None then show ?thesis using acc Teardown by (simp add: slot_rejectCurrent_def)
    next
      case (Some w)
      show ?thesis using settle_account [OF acc cur [OF Some], of "WaitRejected (wr_id w)"] Teardown Some
        by (simp add: slot_rejectCurrent_def)
    qed
  qed
qed

lemma run_slot_account:
  "slot_account s out \<Longrightarrow> slot_account (fst (slot_run lower s evs)) (out @ snd (slot_run lower s evs))"
proof (induction evs arbitrary: s out)
  case (Cons ev evs)
  show ?case using Cons.IH [OF step_slot_account [OF Cons.prems, of lower ev]] by (simp add: case_prod_beta)
qed simp

lemma slot_account_new: "slot_account slot_new []"
  by (simp add: slot_account_def slot_new_def slot_owes_def)

text \<open>C40: A blocking ask ends once.  Whatever asks are begun, replies arrive, timers fire, signals abort, owners
  cancel and connections drop, in any order and however late: the waiters handed out so far are exactly the
  ones that have been resolved or rejected, each once, and at most one that still waits, which is the one
  the slot holds.
\<close>

theorem blocking_asks_settle_once:
  "case slot_run lower slot_new evs of (s, out) \<Rightarrow>
     distinct (map outcome_waiter out @ slot_owes s) \<and>
     set (map outcome_waiter out @ slot_owes s) = {..< ws_next s} \<and> length (slot_owes s) \<le> 1"
  using run_slot_account [OF slot_account_new, of lower evs]
  by (auto simp: case_prod_beta slot_account_def slot_owes_def split: option.split)

lemma resolve_ask_from_sound:
  "resolve_ask_from lower pending target = Inr c \<Longrightarrow>
   filter (\<lambda>x. si_id (ac_from x) = si_id (ac_from c)) pending = [c]"
proof -
  assume a: "resolve_ask_from lower pending target = Inr c"
  then obtain session :: session_info where f: "filter (\<lambda>x. si_id (ac_from x) = si_id session) pending = [c]"
    by (auto simp: resolve_ask_from_def split: resolution.splits list.splits)
  then have "c \<in> set (filter (\<lambda>x. si_id (ac_from x) = si_id session) pending)" by simp
  then have "si_id (ac_from c) = si_id session" by simp
  then show ?thesis using f by simp
qed

lemma pruned_pending:
  "c \<in> set (jm_values (rp_pendingAsks (rp_pruneExpired now tr))) \<Longrightarrow>
   c \<in> set (jm_values (rp_pendingAsks tr)) \<and> now - ac_receivedAt c \<le> rp_askTimeoutMs tr"
  by (auto simp: rp_pruneExpired_def)

text \<open>A reply is never sent to a guess.  When a session replies, the ask that is answered is the one of the
  current turn; without one it is an ask that is still pending and within the time limit, and it is the only
  such ask there is, or, for a named target, the only one from that sender.
\<close>

theorem reply_target_unambiguous:
  "case resolveReplyTarget lower target now tr of
     (tr', Inr c) \<Rightarrow>
       rp_currentTurn tr = Some c \<or>
       rp_currentTurn tr = None \<and> c \<in> set (jm_values (rp_pendingAsks tr)) \<and>
       now - ac_receivedAt c \<le> rp_askTimeoutMs tr \<and>
       (let pending = jm_values (rp_pendingAsks tr')
        in (if truthy_string target then filter (\<lambda>x. si_id (ac_from x) = si_id (ac_from c)) pending else pending) = [c])
   | (tr', Inl e) \<Rightarrow> rp_currentTurn tr = None"
proof (cases "rp_currentTurn tr")
  case (Some c)
  then show ?thesis by (simp add: resolveReplyTarget_def Let_def rp_pruneExpired_def)
next
  case None
  let ?tr = "rp_pruneExpired now tr"
  let ?p = "jm_values (rp_pendingAsks ?tr)"
  have cur: "rp_currentTurn ?tr = None" using None by (simp add: rp_pruneExpired_def)
  obtain res where res: "resolveReplyTarget lower target now tr = (?tr, res)"
    by (simp add: resolveReplyTarget_def Let_def)
  show ?thesis
  proof (cases res)
    case (Inl e)
    then show ?thesis using res None by simp
  next
    case (Inr c)
    have only: "(if truthy_string target then filter (\<lambda>x. si_id (ac_from x) = si_id (ac_from c)) ?p else ?p) = [c]"
    proof (cases "truthy_string target")
      case True
      then show ?thesis using res cur Inr resolve_ask_from_sound by (auto simp: resolveReplyTarget_def Let_def)
    next
      case False
      then show ?thesis using res cur Inr by (auto simp: resolveReplyTarget_def Let_def split: list.splits)
    qed
    then have "c \<in> set (if truthy_string target then filter (\<lambda>x. si_id (ac_from x) = si_id (ac_from c)) ?p else ?p)"
      by simp
    then have "c \<in> set ?p" by (simp split: if_splits)
    then show ?thesis using only pruned_pending [of c now tr] res Inr None by simp
  qed
qed

end
