(* ===== verification/Terminal_Barrier.thy ===== *)
theory Terminal_Barrier
  imports Inbound_Queue
begin

text \<open>
  The terminal ordering barrier (\<open>packages/intercom/terminal-ordering-barrier.ts\<close>): before the end of a
  subagent run is shown to its parent, the messages of that run that wait in the idle queue are delivered,
  in order.  A delivery attempt returns, throws, or returns a promise that settles later; meanwhile other
  events happen.  Errors carry the optional number \<open>terminalPreludeDelivered\<close>.
\<close>

subsection \<open>Barriers\<close>

record barrier =
  br_runId :: jstr
  br_terminalId :: jstr
  br_terminalAt :: rat
  br_owner :: nat
  br_targets :: "jstr list"
  br_dispatch :: bool

text \<open>The owner object and the dispatch function are not JSON: they are given as the owner's number (0 for
  none) and as whether there is a function.  \<open>number_text\<close> is the text of a number.\<close>

definition barrier_targets :: "json list \<Rightarrow> jstr list" where
  "barrier_targets vs = filter (\<lambda>t. t \<noteq> []) (map js_trim (List.map_filter (\<lambda>v. jstring (Some v)) vs))"

definition parseBarrier :: "(rat \<Rightarrow> jstr) \<Rightarrow> nat \<Rightarrow> bool \<Rightarrow> json \<Rightarrow> barrier option" where
  "parseBarrier number_text owner dispatch v =
     (case (jstring (jfield v ''runId''), jnumber (jfield v ''terminalAt''), jstring (jfield v ''source''),
            jfield v ''sourceSessionTargets'') of
        (Some runId, Some (JFinite t), Some source, Some (JArr vs)) \<Rightarrow>
          (if runId = [] \<or> source \<notin> {js ''background-notify'', js ''result-relay''} \<or> barrier_targets vs = [] then None
           else (let tid = jstring (jfield v ''terminalId'')
                 in Some \<lparr>br_runId = runId,
                          br_terminalId = (case tid of Some (c # cs) \<Rightarrow> c # cs | _ \<Rightarrow> source @ js '':'' @ number_text t),
                          br_terminalAt = t, br_owner = owner, br_targets = barrier_targets vs,
                          br_dispatch = dispatch\<rparr>))
      | _ \<Rightarrow> None)"

definition terminalKey :: "barrier \<Rightarrow> jstr" where
  "terminalKey b = js_nat (br_owner b) @ js '':'' @ br_runId b @ [0] @ br_terminalId b"

definition terminalRollbackIndex :: "js_num option \<Rightarrow> nat \<Rightarrow> nat" where
  "terminalRollbackIndex delivered fallback =
     (case delivered of
        Some (JFinite x) \<Rightarrow> (if 0 \<le> x \<and> of_int \<lfloor>x\<rfloor> = x then nat \<lfloor>x\<rfloor> else fallback)
      | _ \<Rightarrow> fallback)"

subsection \<open>State\<close>

text \<open>One delivery attempt: it returned, it threw, or it returned a promise.\<close>

datatype attempt = Delivered | Failed "js_num option" | Async

record barrier_task =
  bt_claim :: idle_claim
  bt_targets :: "jstr list"
  bt_drained :: "jstr list"
  bt_dispatch :: bool
  bt_index :: nat

text \<open>\<open>bs_delivered\<close> lists the entries that barriers have delivered.\<close>

record barrier_state =
  bs_queue :: idle_queue
  bs_drained :: "(jstr, jstr list) jmap"
  bs_inFlight :: "(jstr, barrier_task) jmap"
  bs_delivered :: "inbound_entry list"

datatype barrier_outcome = BarrierIgnored | BarrierJoined | BarrierFinished | BarrierThrew | BarrierPending

definition barrier_delivers :: "nat \<Rightarrow> barrier_task \<Rightarrow> barrier_state \<Rightarrow> barrier_state" where
  "barrier_delivers n t s = s\<lparr>bs_delivered := bs_delivered s @ take n (cl_entries (bt_claim t))\<rparr>"

definition barrier_finish :: "jstr \<Rightarrow> barrier_task \<Rightarrow> barrier_state \<Rightarrow> barrier_state" where
  "barrier_finish key t s =
     s\<lparr>bs_drained :=
          (let m = (if bt_dispatch t \<or> cl_entries (bt_claim t) \<noteq> []
                    then jm_set key (foldl (\<lambda>ts x. js_set_add x ts) (bt_drained t) (bt_targets t)) (bs_drained s)
                    else bs_drained s)
           in if 1000 < length m then tl m else m),
       bs_inFlight := jm_delete key (bs_inFlight s)\<rparr>"

definition barrier_rollback :: "jstr \<Rightarrow> nat \<Rightarrow> barrier_task \<Rightarrow> barrier_state \<Rightarrow> barrier_state" where
  "barrier_rollback key i t s =
     s\<lparr>bs_queue := fst (rollbackFrom i (bt_claim t) (bs_queue s)), bs_inFlight := jm_delete key (bs_inFlight s)\<rparr>"

subsection \<open>Handling a barrier\<close>

text \<open>The attempts made before one throws or returns a promise.\<close>

fun deliver_from :: "(nat \<Rightarrow> attempt) \<Rightarrow> nat \<Rightarrow> inbound_entry list \<Rightarrow> nat \<times> attempt" where
  "deliver_from results i [] = (i, Delivered)"
| "deliver_from results i (e # es) =
     (case results i of Delivered \<Rightarrow> deliver_from results (Suc i) es | a \<Rightarrow> (i, a))"

definition barrier_dispatch ::
  "(nat \<Rightarrow> attempt) \<Rightarrow> jstr \<Rightarrow> barrier_task \<Rightarrow> barrier_state \<Rightarrow> barrier_state \<times> barrier_outcome" where
  "barrier_dispatch results key t s =
     (case results 0 of
        Delivered \<Rightarrow> (barrier_finish key t (barrier_delivers (length (cl_entries (bt_claim t))) t s), BarrierFinished)
      | Failed e \<Rightarrow>
          (let n = terminalRollbackIndex e 0 in (barrier_rollback key n t (barrier_delivers n t s), BarrierThrew))
      | Async \<Rightarrow> (s, BarrierPending))"

definition barrier_deliver ::
  "(nat \<Rightarrow> attempt) \<Rightarrow> jstr \<Rightarrow> barrier_task \<Rightarrow> barrier_state \<Rightarrow> barrier_state \<times> barrier_outcome" where
  "barrier_deliver results key t s =
     (case deliver_from results 0 (cl_entries (bt_claim t)) of
        (n, a) \<Rightarrow>
          (let s = barrier_delivers n t s
           in (case a of
                 Delivered \<Rightarrow> (barrier_finish key t s, BarrierFinished)
               | Failed e \<Rightarrow> (barrier_rollback key n t s, BarrierThrew)
               | Async \<Rightarrow> (s\<lparr>bs_inFlight := jm_set key (t\<lparr>bt_index := n\<rparr>) (bs_inFlight s)\<rparr>, BarrierPending))))"

text \<open>\<open>current\<close> is \<open>isCurrent()\<close>, \<open>completed\<close> whether the envelope already has a completion, \<open>toMessage\<close> whether
  messages can be handed to the dispatcher.\<close>

definition barrier_handle ::
  "bool \<Rightarrow> (nat \<Rightarrow> attempt) \<Rightarrow> bool \<Rightarrow> bool \<Rightarrow> barrier option \<Rightarrow> barrier_state \<Rightarrow> barrier_state \<times> barrier_outcome" where
  "barrier_handle toMessage results current completed parsed s =
     (case parsed of
        None \<Rightarrow> (s, BarrierIgnored)
      | Some b \<Rightarrow>
          (if \<not> current \<or> completed then (s, BarrierIgnored)
           else (let key = terminalKey b
                 in if jm_get (bs_inFlight s) key \<noteq> None then (s, BarrierJoined)
                    else (let drained = jm_get_or [] (bs_drained s) key;
                              pending = filter (\<lambda>t. t \<notin> set drained) (br_targets b)
                          in if pending = [] then (s, BarrierIgnored)
                             else (case claimOrdinarySourceTargets (br_runId b) pending (Some (br_terminalAt b)) (bs_queue s) of
                                     (q, c) \<Rightarrow>
                                       (let t = \<lparr>bt_claim = c, bt_targets = pending, bt_drained = drained,
                                                 bt_dispatch = br_dispatch b \<and> toMessage, bt_index = 0\<rparr>;
                                            s = s\<lparr>bs_queue := q, bs_inFlight := jm_set key t (bs_inFlight s)\<rparr>
                                        in if bt_dispatch t then barrier_dispatch results key t s
                                           else barrier_deliver results key t s))))))"

text \<open>The promise of the attempt in flight settles; \<open>Async\<close> stands for one that has not.\<close>

definition barrier_settle :: "jstr \<Rightarrow> attempt \<Rightarrow> barrier_state \<Rightarrow> barrier_state" where
  "barrier_settle key a s =
     (case jm_get (bs_inFlight s) key of
        None \<Rightarrow> s
      | Some t \<Rightarrow>
          (if bt_dispatch t then
             (case a of
                Delivered \<Rightarrow> barrier_finish key t (barrier_delivers (length (cl_entries (bt_claim t))) t s)
              | Failed e \<Rightarrow> (let n = terminalRollbackIndex e 0 in barrier_rollback key n t (barrier_delivers n t s))
              | Async \<Rightarrow> s)
           else
             (case a of
                Delivered \<Rightarrow>
                  (let i = bt_index t; es = cl_entries (bt_claim t);
                       s = s\<lparr>bs_delivered := bs_delivered s @ take 1 (drop i es)\<rparr>
                   in if Suc i < length es
                      then s\<lparr>bs_inFlight := jm_set key (t\<lparr>bt_index := Suc i\<rparr>) (bs_inFlight s)\<rparr>
                      else barrier_finish key t s)
              | Failed e \<Rightarrow> barrier_rollback key (bt_index t) t s
              | Async \<Rightarrow> s)))"

subsection \<open>One barrier, from its claim to its end\<close>

datatype barrier_event = ArriveEvent inbound_entry | SettleEvent attempt

fun barrier_step :: "jstr \<Rightarrow> barrier_state \<Rightarrow> barrier_event \<Rightarrow> barrier_state" where
  "barrier_step key s (ArriveEvent e) = s\<lparr>bs_queue := iq_enqueue e (bs_queue s)\<rparr>"
| "barrier_step key s (SettleEvent a) = barrier_settle key a s"

fun arrivals :: "barrier_event list \<Rightarrow> inbound_entry list" where
  "arrivals [] = []"
| "arrivals (ArriveEvent e # evs) = e # arrivals evs"
| "arrivals (SettleEvent a # evs) = arrivals evs"

text \<open>How far a barrier that claimed \<open>sel\<close> from \<open>q\<close> has come, when \<open>later\<close> arrived in the meantime.\<close>

definition barrier_progress ::
  "jstr \<Rightarrow> inbound_entry list \<Rightarrow> inbound_entry list \<Rightarrow> inbound_entry list \<Rightarrow> inbound_entry list \<Rightarrow> barrier_state \<Rightarrow> bool" where
  "barrier_progress key q sel handed later s \<longleftrightarrow>
     (case jm_get (bs_inFlight s) key of
        Some t \<Rightarrow>
          (\<exists>n. bs_delivered s = handed @ take n sel \<and>
             bt_claim t = \<lparr>cl_original = q, cl_entries = sel, cl_settled = False\<rparr> \<and>
             (if bt_dispatch t then n = 0 else n = bt_index t \<and> n < length sel) \<and>
             bs_queue s = filter (\<lambda>e. e \<notin> set sel) q @ later)
      | None \<Rightarrow>
          (\<exists>n. bs_delivered s = handed @ take n sel \<and> bs_queue s = filter (\<lambda>e. e \<notin> set (take n sel)) q @ later))"

lemma claimed_queue:
  assumes "distinct (map en_ref q)"
  shows "fst (claimOrdinarySourceTargets runId targets terminalAt q) =
     filter (\<lambda>e. e \<notin> set (filter (claimed_by q runId targets terminalAt) q)) q"
proof -
  have inj: "inj_on en_ref (set q)" using assms by (simp add: distinct_map)
  have "same_ref e (filter (claimed_by q runId targets terminalAt) q) \<longleftrightarrow>
      e \<in> set (filter (claimed_by q runId targets terminalAt) q)" if "e \<in> set q" for e
    by (rule same_ref_filter [OF inj that]) auto
  then show ?thesis unfolding claimOrdinarySourceTargets_def Let_def by (simp cong: filter_cong)
qed

lemma progress_rollback:
  assumes d: "distinct (map en_ref (q @ later))"
    and sel: "sel = filter (claimed_by q runId targets terminalAt) q"
    and t: "bt_claim t = \<lparr>cl_original = q, cl_entries = sel, cl_settled = False\<rparr>"
    and s: "bs_queue s = filter (\<lambda>e. e \<notin> set sel) q @ later" "bs_delivered s = handed @ take n sel"
  shows "barrier_progress key q sel handed later (barrier_rollback key n t s)"
proof -
  have "fst (claimOrdinarySourceTargets runId targets terminalAt q) = filter (\<lambda>e. e \<notin> set sel) q"
    using d unfolding sel by (intro claimed_queue) simp
  moreover have "snd (claimOrdinarySourceTargets runId targets terminalAt q) = bt_claim t"
    by (simp add: claimOrdinarySourceTargets_def Let_def sel t)
  ultimately have "fst (rollbackFrom n (bt_claim t) (bs_queue s)) = filter (\<lambda>e. e \<notin> set (take n sel)) q @ later"
    using claim_rollback [OF d, where runId = runId and targets = targets and terminalAt = terminalAt and i = n] s t by (simp add: case_prod_beta)
  then show ?thesis using s by (auto simp: barrier_progress_def barrier_rollback_def)
qed

lemma progress_finish:
  assumes "bs_queue s = filter (\<lambda>e. e \<notin> set sel) q @ later" "bs_delivered s = handed @ sel"
  shows "barrier_progress key q sel handed later (barrier_finish key t s)"
proof -
  have "bs_delivered s = handed @ take (length sel) sel \<and>
      bs_queue s = filter (\<lambda>e. e \<notin> set (take (length sel) sel)) q @ later" using assms by simp
  then show ?thesis unfolding barrier_progress_def by (simp add: barrier_finish_def) (rule exI [of _ "length sel"], simp)
qed

lemma progress_settle:
  assumes d: "distinct (map en_ref (q @ later))"
    and sel: "sel = filter (claimed_by q runId targets terminalAt) q"
    and p: "barrier_progress key q sel handed later s"
  shows "barrier_progress key q sel handed later (barrier_settle key a s)"
proof (cases "jm_get (bs_inFlight s) key")
  case None
  then show ?thesis using p by (simp add: barrier_settle_def)
next
  case (Some t)
  obtain n where n: "bs_delivered s = handed @ take n sel"
      "bt_claim t = \<lparr>cl_original = q, cl_entries = sel, cl_settled = False\<rparr>"
      "if bt_dispatch t then n = 0 else n = bt_index t \<and> n < length sel"
      "bs_queue s = filter (\<lambda>e. e \<notin> set sel) q @ later"
    using p Some by (auto simp: barrier_progress_def)
  have es: "cl_entries (bt_claim t) = sel" using n(2) by simp
  show ?thesis
  proof (cases "bt_dispatch t")
    case True
    then have del: "bs_delivered s = handed" using n by simp
    show ?thesis
    proof (cases a)
      case Delivered
      then show ?thesis using True Some del n(4)
        by (simp add: barrier_settle_def progress_finish barrier_delivers_def es)
    next
      case (Failed e)
      then show ?thesis using True Some del n(4)
        by (simp add: barrier_settle_def Let_def progress_rollback [OF d sel n(2)] barrier_delivers_def es)
    next
      case Async
      then show ?thesis using True Some p by (simp add: barrier_settle_def)
    qed
  next
    case False
    then have i: "bt_index t < length sel" "bs_delivered s = handed @ take (bt_index t) sel" using n by simp_all
    show ?thesis
    proof (cases a)
      case Delivered
      have step: "bs_delivered s @ take 1 (drop (bt_index t) sel) = handed @ take (Suc (bt_index t)) sel"
        using i by (simp add: take_Suc_conv_app_nth Cons_nth_drop_Suc [symmetric])
      show ?thesis
      proof (cases "Suc (bt_index t) < length sel")
        case True
        then show ?thesis using False Some Delivered step n(2,4)
          by (auto simp: barrier_settle_def Let_def es barrier_progress_def)
      next
        case last: False
        then have "take (Suc (bt_index t)) sel = sel" by simp
        then show ?thesis using False Some Delivered step n(4) last
          by (simp add: barrier_settle_def Let_def es progress_finish)
      qed
    next
      case (Failed e)
      then show ?thesis using False Some i n(4) by (simp add: barrier_settle_def progress_rollback [OF d sel n(2)])
    next
      case Async
      then show ?thesis using False Some p by (simp add: barrier_settle_def)
    qed
  qed
qed

lemma progress_arrive:
  "barrier_progress key q sel handed later s \<Longrightarrow>
   barrier_progress key q sel handed (later @ [e]) (barrier_step key s (ArriveEvent e))"
  by (auto simp: barrier_progress_def iq_enqueue_def split: option.splits)

lemma progress_run:
  assumes sel: "sel = filter (claimed_by q runId targets terminalAt) q"
  shows "barrier_progress key q sel handed later s \<Longrightarrow> distinct (map en_ref (q @ later @ arrivals evs)) \<Longrightarrow>
     barrier_progress key q sel handed (later @ arrivals evs) (foldl (barrier_step key) s evs)"
proof (induction evs arbitrary: s later)
  case (Cons ev evs)
  show ?case
  proof (cases ev)
    case (ArriveEvent e)
    then show ?thesis using Cons.IH [OF progress_arrive [OF Cons.prems(1)]] Cons.prems(2) by simp
  next
    case (SettleEvent a)
    have "distinct (map en_ref (q @ later))" using Cons.prems(2) by auto
    from progress_settle [OF this sel Cons.prems(1), of a]
    show ?thesis using Cons.IH Cons.prems(2) SettleEvent by simp
  qed
qed simp

lemma deliver_from_bounds:
  "deliver_from results i es = (n, a) \<Longrightarrow> i \<le> n \<and> n \<le> i + length es \<and> (n < i + length es \<longleftrightarrow> a \<noteq> Delivered)"
proof (induction es arbitrary: i)
  case (Cons e es)
  show ?case
  proof (cases "results i")
    case Delivered
    then show ?thesis using Cons.IH [of "Suc i"] Cons.prems by simp
  next
    case (Failed x)
    then show ?thesis using Cons.prems by auto
  next
    case Async
    then show ?thesis using Cons.prems by auto
  qed
qed auto

lemma progress_delivers:
  assumes d: "distinct (map en_ref q)" and sel: "sel = filter (claimed_by q runId targets terminalAt) q"
    and t: "bt_claim t = \<lparr>cl_original = q, cl_entries = sel, cl_settled = False\<rparr>" "\<not> bt_dispatch t"
    and s: "bs_queue s = filter (\<lambda>e. e \<notin> set sel) q" "bs_delivered s = handed"
  shows "barrier_progress key q sel handed [] (fst (barrier_deliver results key t s))"
proof -
  have es: "cl_entries (bt_claim t) = sel" using t by simp
  obtain n a where na: "deliver_from results 0 sel = (n, a)" by (cases "deliver_from results 0 sel")
  note b = deliver_from_bounds [OF na]
  let ?s = "barrier_delivers n t s"
  have s': "bs_queue ?s = filter (\<lambda>e. e \<notin> set sel) q @ []" "bs_delivered ?s = handed @ take n sel"
    using s by (simp_all add: barrier_delivers_def es)
  have d': "distinct (map en_ref (q @ []))" using d by simp
  show ?thesis
  proof (cases a)
    case Delivered
    then have "bs_delivered ?s = handed @ sel" using b s' by simp
    then show ?thesis using Delivered na s'(1) by (simp add: barrier_deliver_def es Let_def progress_finish)
  next
    case (Failed e)
    then show ?thesis using na progress_rollback [OF d' sel t(1) s'] by (simp add: barrier_deliver_def es Let_def)
  next
    case Async
    then show ?thesis using na b s' t by (simp add: barrier_deliver_def es Let_def barrier_progress_def)
  qed
qed

lemma progress_dispatch:
  assumes d: "distinct (map en_ref q)" and sel: "sel = filter (claimed_by q runId targets terminalAt) q"
    and t: "bt_claim t = \<lparr>cl_original = q, cl_entries = sel, cl_settled = False\<rparr>" "bt_dispatch t"
    and s: "bs_queue s = filter (\<lambda>e. e \<notin> set sel) q" "bs_delivered s = handed" "jm_get (bs_inFlight s) key = Some t"
  shows "barrier_progress key q sel handed [] (fst (barrier_dispatch results key t s))"
proof -
  have es: "cl_entries (bt_claim t) = sel" using t by simp
  have d': "distinct (map en_ref (q @ []))" using d by simp
  show ?thesis
  proof (cases "results 0")
    case Delivered
    then show ?thesis using s by (simp add: barrier_dispatch_def es progress_finish barrier_delivers_def)
  next
    case (Failed e)
    let ?n = "terminalRollbackIndex e 0"
    have "bs_queue (barrier_delivers ?n t s) = filter (\<lambda>e. e \<notin> set sel) q @ []"
        "bs_delivered (barrier_delivers ?n t s) = handed @ take ?n sel"
      using s by (simp_all add: barrier_delivers_def es)
    then show ?thesis using Failed progress_rollback [OF d' sel t(1)] by (simp add: barrier_dispatch_def Let_def)
  next
    case Async
    then show ?thesis using s t by (simp add: barrier_dispatch_def barrier_progress_def)
  qed
qed

text \<open>What a barrier takes from a queue, given what its terminal has already drained.\<close>

definition barrier_selects :: "barrier \<Rightarrow> (jstr, jstr list) jmap \<Rightarrow> inbound_entry list \<Rightarrow> inbound_entry list" where
  "barrier_selects b drained q =
     filter (claimed_by q (br_runId b) (filter (\<lambda>t. t \<notin> set (jm_get_or [] drained (terminalKey b))) (br_targets b))
       (Some (br_terminalAt b))) q"

lemma progress_handle:
  assumes d: "distinct (map en_ref (bs_queue s))" and free: "jm_get (bs_inFlight s) (terminalKey b) = None"
    and out: "snd (barrier_handle toMessage results current completed (Some b) s) \<notin> {BarrierIgnored}"
  shows "barrier_progress (terminalKey b) (bs_queue s) (barrier_selects b (bs_drained s) (bs_queue s)) (bs_delivered s) []
     (fst (barrier_handle toMessage results current completed (Some b) s))"
proof -
  let ?drained = "jm_get_or [] (bs_drained s) (terminalKey b)"
  let ?pending = "filter (\<lambda>t. t \<notin> set ?drained) (br_targets b)"
  let ?c = "claimOrdinarySourceTargets (br_runId b) ?pending (Some (br_terminalAt b)) (bs_queue s)"
  let ?t = "\<lparr>bt_claim = snd ?c, bt_targets = ?pending, bt_drained = ?drained,
       bt_dispatch = br_dispatch b \<and> toMessage, bt_index = 0\<rparr>"
  let ?s = "s\<lparr>bs_queue := fst ?c, bs_inFlight := jm_set (terminalKey b) ?t (bs_inFlight s)\<rparr>"
  have go: "\<not> (\<not> current \<or> completed)" "?pending \<noteq> []"
    using out free by (auto simp: barrier_handle_def Let_def split: if_splits)
  have res: "barrier_handle toMessage results current completed (Some b) s =
      (if bt_dispatch ?t then barrier_dispatch results (terminalKey b) ?t ?s else barrier_deliver results (terminalKey b) ?t ?s)"
    using go free by (simp add: barrier_handle_def Let_def case_prod_beta del: filter_empty_conv filter_False)
  have sel: "barrier_selects b (bs_drained s) (bs_queue s) =
      filter (claimed_by (bs_queue s) (br_runId b) ?pending (Some (br_terminalAt b))) (bs_queue s)"
    by (simp add: barrier_selects_def)
  have t: "bt_claim ?t = \<lparr>cl_original = bs_queue s, cl_entries = barrier_selects b (bs_drained s) (bs_queue s), cl_settled = False\<rparr>"
    by (simp add: claimOrdinarySourceTargets_def Let_def sel)
  have q: "bs_queue ?s = filter (\<lambda>e. e \<notin> set (barrier_selects b (bs_drained s) (bs_queue s))) (bs_queue s)"
    using claimed_queue [OF d] by (simp add: sel)
  have g: "jm_get (bs_inFlight ?s) (terminalKey b) = Some ?t" by simp
  show ?thesis unfolding res
    using progress_delivers [OF d sel t _ q] progress_dispatch [OF d sel t _ q _ g] by simp
qed

text \<open>C34: A barrier delivers in order or gives back.  Once a terminal barrier has been taken up, whatever
  messages arrive and however its deliveries settle: the entries it delivers are a prefix of the entries it
  selected, in their order, every entry it has not delivered is back in the queue at its old position when
  it fails, and the new arrivals stand behind.\<close>

theorem barrier_delivers_or_restores:
  assumes "distinct (map en_ref (bs_queue s @ arrivals evs))"
    and "jm_get (bs_inFlight s) (terminalKey b) = None"
    and "snd (barrier_handle toMessage results current completed (Some b) s) \<noteq> BarrierIgnored"
  shows "let s' = foldl (barrier_step (terminalKey b)) (fst (barrier_handle toMessage results current completed (Some b) s)) evs;
             selected = barrier_selects b (bs_drained s) (bs_queue s)
         in \<exists>n. bs_delivered s' = bs_delivered s @ take n selected \<and>
              bs_queue s' = filter (\<lambda>e. e \<notin> set (if jm_get (bs_inFlight s') (terminalKey b) = None then take n selected else selected))
                  (bs_queue s) @ arrivals evs"
proof -
  let ?sel = "barrier_selects b (bs_drained s) (bs_queue s)"
  have "distinct (map en_ref (bs_queue s))" using assms(1) by simp
  from progress_handle [OF this assms(2)] assms(3)
  have "barrier_progress (terminalKey b) (bs_queue s) ?sel (bs_delivered s) []
      (fst (barrier_handle toMessage results current completed (Some b) s))" by simp
  from progress_run [OF _ this] assms(1)
  have "barrier_progress (terminalKey b) (bs_queue s) ?sel (bs_delivered s) (arrivals evs)
      (foldl (barrier_step (terminalKey b)) (fst (barrier_handle toMessage results current completed (Some b) s)) evs)"
    unfolding barrier_selects_def by simp
  then show ?thesis unfolding Let_def barrier_progress_def by (auto split: option.splits)
qed

definition demo_entry :: "nat \<Rightarrow> string \<Rightarrow> inbound_entry" where
  "demo_entry n sender = \<lparr>en_ref = n, en_fromId = js sender, en_fromName = None, en_runId = Some (js ''run''),
     en_expectsReply = False, en_timestamp = of_nat n\<rparr>"

definition demo_barrier :: barrier where
  "demo_barrier = \<lparr>br_runId = js ''run'', br_terminalId = js ''end'', br_terminalAt = 9, br_owner = 0,
     br_targets = [js ''child''], br_dispatch = False\<rparr>"

definition demo_waiting :: barrier_state where
  "demo_waiting = \<lparr>bs_queue = [demo_entry 1 ''child'', demo_entry 2 ''other'', demo_entry 3 ''child''],
     bs_drained = [], bs_inFlight = [], bs_delivered = []\<rparr>"

lemma barrier_delivers_or_restores_witness:
  "let s = demo_waiting; b = demo_barrier; evs = [ArriveEvent (demo_entry 4 ''child''), SettleEvent Delivered, SettleEvent (Failed None)];
       s' = foldl (barrier_step (terminalKey b)) (fst (barrier_handle True (\<lambda>_. Async) True False (Some b) s)) evs
   in \<exists>n. bs_delivered s' = take n (barrier_selects b (bs_drained s) (bs_queue s))"
proof -
  let ?evs = "[ArriveEvent (demo_entry 4 ''child''), SettleEvent Delivered, SettleEvent (Failed None)]"
  have "distinct (map en_ref (bs_queue demo_waiting @ arrivals ?evs))"
    by (simp add: demo_waiting_def demo_entry_def)
  moreover have "jm_get (bs_inFlight demo_waiting) (terminalKey demo_barrier) = None"
    by (simp add: demo_waiting_def)
  moreover have "snd (barrier_handle True (\<lambda>_. Async) True False (Some demo_barrier) demo_waiting) \<noteq> BarrierIgnored"
    by (simp add: barrier_handle_def demo_waiting_def demo_barrier_def demo_entry_def claimOrdinarySourceTargets_def
        claimed_by_def Let_def jm_get_or_def barrier_deliver_def)
  ultimately show ?thesis
    using barrier_delivers_or_restores [of demo_waiting ?evs demo_barrier True "\<lambda>_. Async" True False]
    by (auto simp: Let_def demo_waiting_def)
qed

end
