(* ===== verification/Supervisor_Interview.thy ===== *)
theory Supervisor_Interview
  imports Json
begin

text \<open>
  The structured interview a subagent asks of its supervisor (\<open>packages/intercom/intercom-utils.ts\<close>): the
  validation of a request, its text with the example of an answer, and the validation of the answer.
  Requests and answers are JSON values; an accepted one comes back with its texts trimmed.
\<close>

subsection \<open>Requests\<close>

text \<open>A list whose elements are validated in order; the first error wins.\<close>

fun each :: "(nat \<Rightarrow> 'a \<Rightarrow> jstr + 'b) \<Rightarrow> nat \<Rightarrow> 'a list \<Rightarrow> jstr + 'b list" where
  "each f i [] = Inr []"
| "each f i (x # xs) =
     (case f i x of
        Inl e \<Rightarrow> Inl e
      | Inr y \<Rightarrow> (case each f (Suc i) xs of Inl e \<Rightarrow> Inl e | Inr ys \<Rightarrow> Inr (y # ys)))"

definition indexed :: "string \<Rightarrow> nat \<Rightarrow> jstr" where
  "indexed name i = js name @ js ''['' @ js_nat i @ js '']''"

definition fields_of :: "json \<Rightarrow> (jstr \<times> json) list option" where
  "fields_of v = (case v of JObj fs \<Rightarrow> Some fs | _ \<Rightarrow> None)"

definition validTypes :: "jstr list" where
  "validTypes = map js [''single'', ''multi'', ''text'', ''image'', ''info'']"

definition choice_types :: "jstr list" where
  "choice_types = [js ''single'', js ''multi'']"

text \<open>A string field whose trimmed text is not empty.\<close>

definition trimmed_text :: "json option \<Rightarrow> jstr option" where
  "trimmed_text v =
     (case jstring v of None \<Rightarrow> None | Some s \<Rightarrow> if js_trim s = [] then None else Some (js_trim s))"

definition validate_option :: "jstr \<Rightarrow> nat \<Rightarrow> json \<Rightarrow> jstr + json" where
  "validate_option question oi v =
     (let name = question @ indexed ''.options'' oi;
          bad = Inl (name @ js '' must be a non-empty string or an object with a non-empty label'')
      in (case v of
            JStr s \<Rightarrow> (if js_trim s = [] then Inl (name @ js '' must not be empty'') else Inr (JStr (js_trim s)))
          | JObj fs \<Rightarrow>
              (case trimmed_text (field fs ''label'') of
                 None \<Rightarrow> bad | Some l \<Rightarrow> Inr (JObj (with_field ''label'' (JStr l) fs)))
          | _ \<Rightarrow> bad))"

definition validate_options :: "jstr \<Rightarrow> json option \<Rightarrow> jstr + json list option" where
  "validate_options question v =
     (case v of
        None \<Rightarrow> Inr None
      | Some (JArr vs) \<Rightarrow>
          (case each (validate_option question) 0 vs of Inl e \<Rightarrow> Inl e | Inr os \<Rightarrow> Inr (Some os))
      | Some _ \<Rightarrow> Inl (question @ js ''.options must be an array when provided''))"

text \<open>One question, after the ids \<open>ids\<close>.\<close>

definition validate_question :: "nat \<Rightarrow> jstr list \<Rightarrow> json \<Rightarrow> jstr + jstr \<times> json" where
  "validate_question i ids v =
     (let name = indexed ''interview.questions'' i
      in (case fields_of v of
            None \<Rightarrow> Inl (name @ js '' must be an object'')
          | Some fs \<Rightarrow>
     (case trimmed_text (field fs ''id'') of
        None \<Rightarrow> Inl (name @ js ''.id must be a non-empty string'')
      | Some qid \<Rightarrow>
     (if qid \<in> set ids then Inl (js ''interview question id must be unique: '' @ qid)
      else (case jstring (field fs ''type'') of
        None \<Rightarrow> Inl (name @ js ''.type must be one of: single, multi, text, image, info'')
      | Some ty \<Rightarrow>
     (if ty \<notin> set validTypes then Inl (name @ js ''.type must be one of: single, multi, text, image, info'')
      else (case trimmed_text (field fs ''question'') of
        None \<Rightarrow> Inl (name @ js ''.question must be a non-empty string'')
      | Some text \<Rightarrow>
     (if \<not> optional is_string (field fs ''context'') then Inl (name @ js ''.context must be a string when provided'')
      else (case validate_options name (field fs ''options'') of
        Inl e \<Rightarrow> Inl e
      | Inr options \<Rightarrow>
     (if ty \<in> set choice_types \<and> (options = None \<or> options = Some [])
      then Inl (name @ js ''.options must be a non-empty array for '' @ ty @ js '' questions'')
      else if ty \<notin> set choice_types \<and> options \<noteq> None
      then Inl (name @ js ''.options is only valid for single and multi questions'')
      else (let fs = with_field ''question'' (JStr text) (with_field ''type'' (JStr ty) (with_field ''id'' (JStr qid) fs))
            in Inr (qid, JObj (case options of None \<Rightarrow> fs | Some os \<Rightarrow> with_field ''options'' (JArr os) fs)))))))))))))"

fun validate_questions :: "nat \<Rightarrow> jstr list \<Rightarrow> json list \<Rightarrow> jstr + json list" where
  "validate_questions i ids [] = Inr []"
| "validate_questions i ids (v # vs) =
     (case validate_question i ids v of
        Inl e \<Rightarrow> Inl e
      | Inr (qid, q) \<Rightarrow>
          (case validate_questions (Suc i) (qid # ids) vs of Inl e \<Rightarrow> Inl e | Inr qs \<Rightarrow> Inr (q # qs)))"

definition trim_field :: "string \<Rightarrow> (jstr \<times> json) list \<Rightarrow> (jstr \<times> json) list" where
  "trim_field name fs = (case jstring (field fs name) of None \<Rightarrow> fs | Some s \<Rightarrow> with_field name (JStr (js_trim s)) fs)"

definition validateSupervisorInterviewRequest :: "json \<Rightarrow> jstr + json" where
  "validateSupervisorInterviewRequest v =
     (case fields_of v of
        None \<Rightarrow> Inl (js ''interview must be an object with a questions array'')
      | Some raw \<Rightarrow>
          (if \<not> optional is_string (field raw ''title'') then Inl (js ''interview.title must be a string when provided'')
           else if \<not> optional is_string (field raw ''description'')
           then Inl (js ''interview.description must be a string when provided'')
           else (case field raw ''questions'' of
                   Some (JArr (q # qs)) \<Rightarrow>
                     (case validate_questions 0 [] (q # qs) of
                        Inl e \<Rightarrow> Inl e
                      | Inr questions \<Rightarrow>
                          Inr (JObj (with_field ''questions'' (JArr questions)
                            (trim_field ''description'' (trim_field ''title'' raw)))))
                 | _ \<Rightarrow> Inl (js ''interview.questions must be a non-empty array''))))"

subsection \<open>The text of a request\<close>

definition question_list :: "json \<Rightarrow> json list" where
  "question_list interview = (case jfield interview ''questions'' of Some (JArr qs) \<Rightarrow> qs | _ \<Rightarrow> [])"

definition text_of :: "json option \<Rightarrow> jstr" where
  "text_of v = (case jstring v of None \<Rightarrow> [] | Some s \<Rightarrow> s)"

definition question_id :: "json \<Rightarrow> jstr" where "question_id q = text_of (jfield q ''id'')"
definition question_type :: "json \<Rightarrow> jstr" where "question_type q = text_of (jfield q ''type'')"

definition question_options :: "json \<Rightarrow> json list option" where
  "question_options q = (case jfield q ''options'' of Some (JArr os) \<Rightarrow> Some os | _ \<Rightarrow> None)"

definition interviewOptionLabel :: "json \<Rightarrow> jstr" where
  "interviewOptionLabel v = (case v of JStr s \<Rightarrow> s | _ \<Rightarrow> text_of (jfield v ''label''))"

definition interviewExampleValue :: "json \<Rightarrow> json" where
  "interviewExampleValue q =
     (if question_type q = js ''multi''
      then JArr (case question_options q of None \<Rightarrow> [] | Some os \<Rightarrow> map (JStr \<circ> interviewOptionLabel) (take 2 os))
      else if question_type q = js ''single''
      then JStr (case question_options q of Some (v # vs) \<Rightarrow> interviewOptionLabel v | _ \<Rightarrow> js ''option label'')
      else if question_type q = js ''image'' then JStr (js ''image/file reference or description'')
      else JStr (js ''answer text''))"

definition responseExample :: "json \<Rightarrow> json" where
  "responseExample interview =
     JObj [(js ''responses'',
            JArr (map (\<lambda>q. JObj [(js ''id'', JStr (question_id q)), (js ''value'', interviewExampleValue q)])
                    (filter (\<lambda>q. question_type q \<noteq> js ''info'') (question_list interview))))]"

definition question_lines :: "nat \<Rightarrow> json \<Rightarrow> jstr list" where
  "question_lines i q =
     [js_nat (i + 1) @ js ''. ['' @ question_id q @ js ''] ('' @ question_type q @ js '') '' @ text_of (jfield q ''question'')]
     @ (case trimmed_text (jfield q ''context'') of None \<Rightarrow> [] | Some c \<Rightarrow> [js ''   Context: '' @ c])
     @ (case question_options q of
          Some (v # vs) \<Rightarrow> js ''   Options:'' # map (\<lambda>v. js ''   - '' @ interviewOptionLabel v) (v # vs)
        | _ \<Rightarrow> [])"

definition head_lines :: "json \<Rightarrow> jstr option \<Rightarrow> jstr list" where
  "head_lines interview message =
     (let line = (\<lambda>label v. case trimmed_text v of None \<Rightarrow> [] | Some t \<Rightarrow> [js label @ t])
      in line ''Interview: '' (jfield interview ''title'') @ line '''' (jfield interview ''description'')
         @ line ''Child note: '' (map_option JStr message))"

definition reply_instructions :: jstr where
  "reply_instructions =
     js ''Reply with plain JSON or a fenced ```json block using this stable shape. Use the question ids exactly. '' @
     js ''Info questions are context-only and do not need responses. For single questions, value is one option label. '' @
     js ''For multi questions, value is an array of option labels. For text/image questions, value is a string unless '' @
     js ''the question asks otherwise.''"

definition formatSupervisorInterviewRequest :: "(json \<Rightarrow> jstr) \<Rightarrow> json \<Rightarrow> jstr option \<Rightarrow> jstr" where
  "formatSupervisorInterviewRequest stringify interview message =
     (let lines = head_lines interview message
      in js_join [js_LF]
           ((if lines = [] then [] else lines @ [[]]) @ [js ''Questions:'']
            @ concat (map (\<lambda>(i, q). question_lines i q) (enumerate 0 (question_list interview)))
            @ [[], js ''Supervisor reply instructions:'', reply_instructions, [], js ''```json'',
               stringify (responseExample interview), js ''```'']))"

subsection \<open>Answers\<close>

definition option_labels :: "json \<Rightarrow> jstr list" where
  "option_labels q = (case question_options q of None \<Rightarrow> [] | Some os \<Rightarrow> map interviewOptionLabel os)"

definition questionById :: "json \<Rightarrow> (jstr, json) jmap" where
  "questionById interview =
     foldl (\<lambda>m q. jm_set (question_id q) q m) []
       (filter (\<lambda>q. question_type q \<noteq> js ''info'') (question_list interview))"

definition strings_of :: "json \<Rightarrow> jstr list option" where
  "strings_of v =
     (case v of
        JArr vs \<Rightarrow> (if list_all (\<lambda>x. is_string (Some x)) vs then Some (map (text_of \<circ> Some) vs) else None)
      | _ \<Rightarrow> None)"

text \<open>The value for a question; \<open>if (invalid)\<close> is false for the empty string.\<close>

definition response_value :: "jstr \<Rightarrow> json \<Rightarrow> json \<Rightarrow> jstr + json" where
  "response_value name q v =
     (if question_type q = js ''single'' then
        (case jstring (Some v) of
           None \<Rightarrow> Inl (name @ js ''.value must be a string for single questions'')
         | Some s \<Rightarrow>
             (if js_trim s \<notin> set (option_labels q) then Inl (name @ js ''.value must match one of the question options'')
              else Inr (JStr (js_trim s))))
      else if question_type q = js ''multi'' then
        (case strings_of v of
           None \<Rightarrow> Inl (name @ js ''.value must be an array of strings for multi questions'')
         | Some items \<Rightarrow>
             (let selected = map js_trim items
              in (case List.find (\<lambda>x. x \<notin> set (option_labels q)) selected of
                    Some (c # cs) \<Rightarrow>
                      Inl (name @ js ''.value contains an option that is not in the question options: '' @ (c # cs))
                  | _ \<Rightarrow> Inr (JArr (map JStr selected)))))
      else (case jstring (Some v) of
              None \<Rightarrow> Inl (name @ js ''.value must be a string for '' @ question_type q @ js '' questions'')
            | Some s \<Rightarrow> Inr (JStr s)))"

definition validate_response :: "(jstr, json) jmap \<Rightarrow> nat \<Rightarrow> jstr list \<Rightarrow> json \<Rightarrow> jstr + jstr \<times> json" where
  "validate_response questions i seen v =
     (let name = indexed ''responses'' i
      in (case fields_of v of
            None \<Rightarrow> Inl (name @ js '' must be an object'')
          | Some raw \<Rightarrow>
     (case trimmed_text (field raw ''id'') of
        None \<Rightarrow> Inl (name @ js ''.id must be a non-empty string'')
      | Some rid \<Rightarrow>
     (case jm_get questions rid of
        None \<Rightarrow> Inl (name @ js ''.id must match a non-info interview question id'')
      | Some q \<Rightarrow>
     (if rid \<in> set seen then Inl (name @ js ''.id is duplicated: '' @ rid)
      else (case field raw ''value'' of
        None \<Rightarrow> Inl (name @ js ''.value is required'')
      | Some value \<Rightarrow>
          (case response_value name q value of Inl e \<Rightarrow> Inl e | Inr out \<Rightarrow> Inr (rid, out))))))))"

fun validate_responses :: "(jstr, json) jmap \<Rightarrow> nat \<Rightarrow> jstr list \<Rightarrow> json list \<Rightarrow> jstr + (jstr \<times> json) list" where
  "validate_responses questions i seen [] = Inr []"
| "validate_responses questions i seen (v # vs) =
     (case validate_response questions i seen v of
        Inl e \<Rightarrow> Inl e
      | Inr (rid, out) \<Rightarrow>
          (case validate_responses questions (Suc i) (rid # seen) vs of
             Inl e \<Rightarrow> Inl e | Inr rs \<Rightarrow> Inr ((rid, out) # rs)))"

definition validateSupervisorInterviewReply :: "json \<Rightarrow> json \<Rightarrow> jstr + (jstr \<times> json) list" where
  "validateSupervisorInterviewReply v interview =
     (case fields_of v of
        None \<Rightarrow> Inl (js ''reply JSON must be an object with a responses array'')
      | Some fs \<Rightarrow>
          (case field fs ''responses'' of
             Some (JArr vs) \<Rightarrow> validate_responses (questionById interview) 0 [] vs
           | _ \<Rightarrow> Inl (js ''reply JSON must include a responses array'')))"

text \<open>\<open>/```(?:json)?\s*([\s\S]*?)```/i\<close>: the text between the first fence and the next.\<close>

definition js_fence :: jstr where "js_fence = js ''```''"

fun split_at_fence :: "jstr \<Rightarrow> (jstr \<times> jstr) option" where
  "split_at_fence [] = None"
| "split_at_fence (c # cs) =
     (if js_startsWith (c # cs) js_fence then Some ([], drop 3 (c # cs))
      else map_option (\<lambda>(a, b). (c # a, b)) (split_at_fence cs))"

definition ascii_lower :: "code_unit \<Rightarrow> code_unit" where
  "ascii_lower c = (if 65 \<le> c \<and> c \<le> 90 then c + 32 else c)"

definition fenced_body :: "jstr \<Rightarrow> jstr option" where
  "fenced_body t =
     (case split_at_fence t of
        None \<Rightarrow> None
      | Some (_, rest) \<Rightarrow>
          (let rest = (if map ascii_lower (take 4 rest) = js ''json'' then drop 4 rest else rest)
           in map_option fst (split_at_fence (js_trimStart rest))))"

datatype structured_reply = NotStructured | ReplyValue "(jstr \<times> json) list" | ReplyError jstr

text \<open>\<open>parse\<close> is \<open>JSON.parse\<close>, with the message of its error.\<close>

definition parseStructuredSupervisorReply :: "(jstr \<Rightarrow> jstr + json) \<Rightarrow> jstr \<Rightarrow> json \<Rightarrow> structured_reply" where
  "parseStructuredSupervisorReply parse t interview =
     (let candidate = js_trim (case fenced_body t of None \<Rightarrow> t | Some b \<Rightarrow> b)
      in if candidate = [] \<or> hd candidate \<notin> set (js ''{['') then NotStructured
         else (case parse candidate of
                 Inl e \<Rightarrow> ReplyError e
               | Inr v \<Rightarrow>
                   (case validateSupervisorInterviewReply v interview of Inl e \<Rightarrow> ReplyError e | Inr r \<Rightarrow> ReplyValue r)))"

subsection \<open>What an accepted request looks like\<close>

definition clean_text :: "json option \<Rightarrow> bool" where
  "clean_text v = (case jstring v of None \<Rightarrow> False | Some s \<Rightarrow> s \<noteq> [] \<and> js_trim s = s)"

definition trimmed_field :: "json option \<Rightarrow> bool" where
  "trimmed_field v = (case v of None \<Rightarrow> True | Some (JStr s) \<Rightarrow> js_trim s = s | Some _ \<Rightarrow> False)"

definition option_ok :: "json \<Rightarrow> bool" where
  "option_ok v =
     (case v of
        JStr s \<Rightarrow> s \<noteq> [] \<and> js_trim s = s
      | JObj fs \<Rightarrow> clean_text (field fs ''label'')
      | _ \<Rightarrow> False)"

definition options_ok :: "jstr \<Rightarrow> json option \<Rightarrow> bool" where
  "options_ok ty v =
     (if ty \<in> set choice_types then (case v of Some (JArr os) \<Rightarrow> os \<noteq> [] \<and> list_all option_ok os | _ \<Rightarrow> False)
      else v = None)"

definition question_ok :: "json \<Rightarrow> bool" where
  "question_ok q =
     (case fields_of q of
        None \<Rightarrow> False
      | Some fs \<Rightarrow>
          clean_text (field fs ''id'') \<and> clean_text (field fs ''question'') \<and> optional is_string (field fs ''context'') \<and>
          (case jstring (field fs ''type'') of
             None \<Rightarrow> False | Some ty \<Rightarrow> ty \<in> set validTypes \<and> options_ok ty (field fs ''options'')))"

definition interview_ok :: "json \<Rightarrow> bool" where
  "interview_ok v =
     (case fields_of v of
        None \<Rightarrow> False
      | Some fs \<Rightarrow>
          trimmed_field (field fs ''title'') \<and> trimmed_field (field fs ''description'') \<and>
          question_list v \<noteq> [] \<and> list_all question_ok (question_list v) \<and>
          distinct (map question_id (question_list v)))"

lemma js_trim_trim [simp]: "js_trim (js_trim s) = js_trim s"
proof (rule js_trim_id, rule disjCI)
  assume ne: "\<not> (\<not> js_ws (hd (js_trim s)) \<and> \<not> js_ws (last (js_trim s)))"
  let ?t = "dropWhile js_ws s" and ?r = "dropWhile js_ws (rev (dropWhile js_ws s))"
  have trim: "js_trim s = rev ?r" by (simp add: js_trim_def js_trimStart_def js_trimEnd_def)
  show "js_trim s = []"
  proof (rule ccontr)
    assume "js_trim s \<noteq> []"
    then have r: "?r \<noteq> []" by (simp add: trim)
    have "\<not> js_ws (hd ?r)" by (rule hd_dropWhile [OF r])
    then have l: "\<not> js_ws (last (js_trim s))" using r by (simp add: trim last_rev)
    have t: "?t \<noteq> []" using r by (metis dropWhile.simps(1) rev.simps(1))
    obtain p where "rev ?t = p @ ?r" by (metis takeWhile_dropWhile_id)
    then have "?t = js_trim s @ rev p" by (metis rev_append rev_rev_ident trim)
    then have "hd (js_trim s) = hd ?t" using r by (metis hd_append2 rev_is_Nil_conv trim)
    then have "\<not> js_ws (hd (js_trim s))" using hd_dropWhile [OF t] by simp
    then show False using l ne by simp
  qed
qed

lemma trimmed_text_Some: "trimmed_text v = Some t \<Longrightarrow> t \<noteq> [] \<and> js_trim t = t"
  by (auto simp: trimmed_text_def split: option.splits if_splits)

lemma trimmed_text_clean: "clean_text v \<Longrightarrow> \<exists>t. v = Some (JStr t) \<and> trimmed_text v = Some t"
  by (auto simp: trimmed_text_def clean_text_def split: option.splits)

lemma clean_text_JStr [simp]: "clean_text (Some (JStr t)) \<longleftrightarrow> t \<noteq> [] \<and> js_trim t = t"
  by (simp add: clean_text_def)

lemma fields_of_Some [simp]: "fields_of v = Some fs \<longleftrightarrow> v = JObj fs"
  by (cases v) (auto simp: fields_of_def)

lemma fields_of_JObj [simp]: "fields_of (JObj fs) = Some fs"
  by simp

lemma each_ok:
  assumes "\<And>i x y. f i x = Inr y \<Longrightarrow> P y"
  shows "each f i xs = Inr ys \<Longrightarrow> list_all P ys \<and> length ys = length xs"
  by (induction xs arbitrary: i ys) (auto split: sum.splits dest: assms)

lemma each_id:
  assumes "list_all P xs" "\<And>i x. P x \<Longrightarrow> f i x = Inr x"
  shows "each f i xs = Inr xs"
  using assms(1) by (induction xs arbitrary: i) (simp_all add: assms(2))

lemma validate_option_ok: "validate_option q i v = Inr w \<Longrightarrow> option_ok w"
  by (auto simp: validate_option_def option_ok_def Let_def dest: trimmed_text_Some
      split: json.splits option.splits if_splits)

lemma validate_option_id: "option_ok w \<Longrightarrow> validate_option q i w = Inr w"
proof (cases w)
  case (JObj fs)
  assume "option_ok w"
  then have "clean_text (field fs ''label'')" using JObj by (simp add: option_ok_def)
  from trimmed_text_clean [OF this] obtain t where
    "field fs ''label'' = Some (JStr t)" "trimmed_text (field fs ''label'') = Some t" by blast
  then show ?thesis using JObj by (simp add: validate_option_def Let_def with_field_same)
qed (auto simp: option_ok_def validate_option_def Let_def)

lemma validate_options_ok:
  assumes "validate_options q v = Inr os"
  shows "(os = None \<longleftrightarrow> v = None) \<and> (\<forall>ws. os = Some ws \<longrightarrow> list_all option_ok ws)"
proof (cases v)
  case None
  then show ?thesis using assms by (simp add: validate_options_def)
next
  case (Some x)
  then obtain vs where x: "x = JArr vs" using assms by (cases x) (auto simp: validate_options_def)
  show ?thesis
  proof (cases "each (validate_option q) 0 vs")
    case (Inl e) then show ?thesis using assms Some x by (simp add: validate_options_def)
  next
    case (Inr ws)
    have "list_all option_ok ws" using each_ok [OF validate_option_ok Inr] by simp
    then show ?thesis using assms Some x Inr by (auto simp: validate_options_def)
  qed
qed

lemma validate_options_id: "list_all option_ok os \<Longrightarrow> validate_options q (Some (JArr os)) = Inr (Some os)"
  by (simp add: validate_options_def each_id [OF _ validate_option_id])

lemma question_id_JObj [simp]: "question_id (JObj fs) = text_of (field fs ''id'')"
  by (simp add: question_id_def)

lemma question_type_JObj [simp]: "question_type (JObj fs) = text_of (field fs ''type'')"
  by (simp add: question_type_def)

lemma text_of_JStr [simp]: "text_of (Some (JStr s)) = s"
  by (simp add: text_of_def)

lemma validate_question_ok:
  assumes "validate_question i ids v = Inr (qid, q)"
  shows "question_ok q \<and> question_id q = qid \<and> qid \<notin> set ids"
proof -
  obtain fs where fs: "v = JObj fs"
    using assms by (cases v) (auto simp: validate_question_def fields_of_def)
  obtain t where t: "trimmed_text (field fs ''id'') = Some t" "t \<notin> set ids"
    using assms fs by (auto simp: validate_question_def Let_def split: option.splits if_splits)
  obtain ty where ty: "field fs ''type'' = Some (JStr ty)" "ty \<in> set validTypes"
    using assms fs t by (auto simp: validate_question_def Let_def split: option.splits if_splits)
  obtain x where x: "trimmed_text (field fs ''question'') = Some x"
    using assms fs t ty by (auto simp: validate_question_def Let_def split: option.splits if_splits)
  have c: "optional is_string (field fs ''context'')"
    using assms fs t ty x by (simp add: validate_question_def Let_def split: if_splits)
  obtain os where os: "validate_options (indexed ''interview.questions'' i) (field fs ''options'') = Inr os"
    using assms fs t ty x c by (auto simp: validate_question_def Let_def split: sum.splits)
  have ch: "\<not> (ty \<in> set choice_types \<and> (os = None \<or> os = Some []))" "\<not> (ty \<notin> set choice_types \<and> os \<noteq> None)"
    using assms fs t ty x c os by (simp_all add: validate_question_def Let_def split: if_splits)
  let ?fs = "with_field ''question'' (JStr x) (with_field ''type'' (JStr ty) (with_field ''id'' (JStr t) fs))"
  have res: "qid = t" "q = JObj (case os of None \<Rightarrow> ?fs | Some ws \<Rightarrow> with_field ''options'' (JArr ws) ?fs)"
    using assms fs t ty x c os ch by (simp_all add: validate_question_def Let_def split: if_splits)
  note oo = validate_options_ok [OF os]
  show ?thesis
  proof (cases os)
    case None
    then have "ty \<notin> set choice_types" "field fs ''options'' = None" using ch oo by simp_all
    then show ?thesis using res None t ty c trimmed_text_Some [OF t(1)] trimmed_text_Some [OF x]
      by (simp add: question_ok_def options_ok_def fields_of_def)
  next
    case (Some ws)
    then have "ty \<in> set choice_types" "ws \<noteq> []" "list_all option_ok ws" using ch oo by auto
    then show ?thesis using res Some t ty c trimmed_text_Some [OF t(1)] trimmed_text_Some [OF x]
      by (simp add: question_ok_def options_ok_def fields_of_def)
  qed
qed

lemma validate_question_id:
  assumes ok: "question_ok q" and new: "question_id q \<notin> set ids"
  shows "validate_question i ids q = Inr (question_id q, q)"
proof -
  obtain fs where fs: "q = JObj fs" using ok by (cases q) (auto simp: question_ok_def fields_of_def)
  have h: "clean_text (field fs ''id'')" "clean_text (field fs ''question'')" "optional is_string (field fs ''context'')"
    using ok fs by (simp_all add: question_ok_def fields_of_def)
  obtain t where t: "field fs ''id'' = Some (JStr t)" "trimmed_text (field fs ''id'') = Some t"
    using trimmed_text_clean [OF h(1)] by blast
  obtain x where x: "field fs ''question'' = Some (JStr x)" "trimmed_text (field fs ''question'') = Some x"
    using trimmed_text_clean [OF h(2)] by blast
  obtain ty where ty: "field fs ''type'' = Some (JStr ty)" "ty \<in> set validTypes" "options_ok ty (field fs ''options'')"
    using ok fs by (auto simp: question_ok_def fields_of_def split: option.splits)
  have tt: "trimmed_text (Some (JStr t)) = Some t" "trimmed_text (Some (JStr x)) = Some x" using t x by simp_all
  have nt: "t \<notin> set ids" using new fs t by simp
  show ?thesis
  proof (cases "ty \<in> set choice_types")
    case True
    then obtain os where os: "field fs ''options'' = Some (JArr os)" "os \<noteq> []" "list_all option_ok os"
      using ty(3) by (auto simp: options_ok_def split: option.splits json.splits)
    show ?thesis using True fs t(1) x(1) tt nt ty(1,2) h(3) os
      by (simp add: validate_question_def Let_def validate_options_id with_field_same)
  next
    case False
    then have "field fs ''options'' = None" using ty(3) by (simp add: options_ok_def)
    then show ?thesis using False fs t(1) x(1) tt nt ty(1,2) h(3)
      by (simp add: validate_question_def Let_def validate_options_def with_field_same)
  qed
qed

lemma validate_questions_ok:
  "validate_questions i ids vs = Inr qs \<Longrightarrow>
   list_all question_ok qs \<and> distinct (map question_id qs) \<and> set (map question_id qs) \<inter> set ids = {} \<and> length qs = length vs"
proof (induction vs arbitrary: i ids qs)
  case (Cons v vs)
  obtain qid q where q: "validate_question i ids v = Inr (qid, q)"
    using Cons.prems by (auto split: sum.splits)
  obtain rest where rest: "validate_questions (Suc i) (qid # ids) vs = Inr rest" "qs = q # rest"
    using Cons.prems q by (auto split: sum.splits)
  show ?case using Cons.IH [OF rest(1)] validate_question_ok [OF q] rest(2) by auto
qed simp

lemma validate_questions_id:
  "list_all question_ok qs \<Longrightarrow> distinct (map question_id qs) \<Longrightarrow> set (map question_id qs) \<inter> set ids = {} \<Longrightarrow>
   validate_questions i ids qs = Inr qs"
proof (induction qs arbitrary: i ids)
  case (Cons q qs)
  have "question_ok q" "question_id q \<notin> set ids" using Cons.prems by auto
  from validate_question_id [OF this] show ?case using Cons by simp
qed simp

lemma field_trim_field:
  "field (trim_field n fs) m =
     (if m = n then map_option (\<lambda>v. case v of JStr s \<Rightarrow> JStr (js_trim s) | _ \<Rightarrow> v) (field fs n) else field fs m)"
  by (cases "field fs n"; cases "the (field fs n)") (auto simp: trim_field_def)

lemma trim_field_same: "trimmed_field (field fs n) \<Longrightarrow> trim_field n fs = fs"
  by (auto simp: trim_field_def trimmed_field_def with_field_same split: option.splits json.splits)

lemma trimmed_field_trim: "optional is_string v \<Longrightarrow>
    trimmed_field (map_option (\<lambda>v. case v of JStr s \<Rightarrow> JStr (js_trim s) | _ \<Rightarrow> v) v)"
  by (auto simp: trimmed_field_def optional_def split: option.splits json.splits)

lemma question_list_JObj: "question_list (JObj fs) = (case field fs ''questions'' of Some (JArr qs) \<Rightarrow> qs | _ \<Rightarrow> [])"
  by (simp add: question_list_def)

lemma validated_interview:
  assumes "validateSupervisorInterviewRequest v = Inr w"
  shows "interview_ok w"
proof -
  obtain fs where fs: "v = JObj fs"
    using assms by (cases v) (auto simp: validateSupervisorInterviewRequest_def fields_of_def)
  have o: "optional is_string (field fs ''title'')" "optional is_string (field fs ''description'')"
    using assms fs by (simp_all add: validateSupervisorInterviewRequest_def split: if_splits)
  obtain q qs where qs: "field fs ''questions'' = Some (JArr (q # qs))"
    using assms fs o by (auto simp: validateSupervisorInterviewRequest_def split: option.splits json.splits list.splits)
  obtain out where out: "validate_questions 0 [] (q # qs) = Inr out"
      "w = JObj (with_field ''questions'' (JArr out) (trim_field ''description'' (trim_field ''title'' fs)))"
    using assms fs o qs by (auto simp: validateSupervisorInterviewRequest_def simp del: validate_questions.simps split: sum.splits)
  note ok = validate_questions_ok [OF out(1)]
  show ?thesis using ok o unfolding out(2)
    by (auto simp: interview_ok_def question_list_JObj field_trim_field trimmed_field_trim fields_of_def)
qed

lemma accepted_interview:
  assumes "interview_ok w"
  shows "validateSupervisorInterviewRequest w = Inr w"
proof -
  obtain fs where fs: "w = JObj fs" using assms by (cases w) (auto simp: interview_ok_def fields_of_def)
  have h: "trimmed_field (field fs ''title'')" "trimmed_field (field fs ''description'')"
      "question_list w \<noteq> []" "list_all question_ok (question_list w)" "distinct (map question_id (question_list w))"
    using assms fs by (simp_all add: interview_ok_def fields_of_def)
  have opt: "optional is_string v" if "trimmed_field v" for v
    using that by (auto simp: trimmed_field_def optional_def split: option.splits json.splits)
  obtain qs where qs: "field fs ''questions'' = Some (JArr qs)" "question_list w = qs"
    using h(3) fs by (auto simp: question_list_JObj split: option.splits json.splits)
  have v: "validate_questions 0 [] qs = Inr qs" using h qs by (intro validate_questions_id) simp_all
  obtain q rest where cons: "qs = q # rest" using h(3) qs(2) by (cases qs) auto
  show ?thesis using fs h(1,2) opt qs(1) v unfolding cons
    by (simp add: validateSupervisorInterviewRequest_def trim_field_same with_field_same field_trim_field
        del: validate_questions.simps)
qed

text \<open>C35: The interviews that are accepted are exactly the well-formed ones.  What validation returns, over
  all inputs, is the set of interviews with trimmed texts, at least one question, distinct non-empty ids,
  known types, and options that are present, non-empty and labelled for exactly the choice questions; such
  an interview comes back unchanged.\<close>

theorem accepted_interviews_are_well_formed:
  "{w. \<exists>v. validateSupervisorInterviewRequest v = Inr w} = {w. interview_ok w} \<and>
   {w. validateSupervisorInterviewRequest w = Inr w} = {w. interview_ok w}"
  using validated_interview accepted_interview by blast

subsection \<open>Answers to an accepted request\<close>

lemma jm_get_foldl_key:
  "jm_get (foldl (\<lambda>m x. jm_set (key x) x m) m xs) k = Some x \<Longrightarrow>
   x \<in> set xs \<and> key x = k \<or> jm_get m k = Some x"
proof (induction xs arbitrary: m)
  case (Cons y ys)
  have "x \<in> set ys \<and> key x = k \<or> jm_get (jm_set (key y) y m) k = Some x"
    by (rule Cons.IH) (use Cons.prems in simp)
  then show ?case by (cases "key y = k") (auto simp: update_conv')
qed simp

lemma jm_foldl_key_keeps:
  "k \<notin> key ` set xs \<Longrightarrow> jm_get (foldl (\<lambda>m x. jm_set (key x) x m) m xs) k = jm_get m k"
  by (induction xs arbitrary: m) auto

lemma jm_foldl_key_distinct:
  "distinct (map key xs) \<Longrightarrow> x \<in> set xs \<Longrightarrow> jm_get (foldl (\<lambda>m x. jm_set (key x) x m) m xs) (key x) = Some x"
proof (induction xs arbitrary: m)
  case (Cons y ys)
  then show ?case
  proof (cases "x = y")
    case True
    then have "key x \<notin> key ` set ys" using Cons.prems(1) by simp
    then show ?thesis using True by (simp add: jm_foldl_key_keeps)
  qed simp
qed simp

text \<open>The questions that expect an answer.\<close>

definition answerable :: "json \<Rightarrow> json list" where
  "answerable interview = filter (\<lambda>q. question_type q \<noteq> js ''info'') (question_list interview)"

lemma questionById_answerable:
  assumes "interview_ok interview" "q \<in> set (answerable interview)"
  shows "jm_get (questionById interview) (question_id q) = Some q"
proof -
  have "distinct (map question_id (answerable interview))"
    using assms(1) by (auto simp: interview_ok_def answerable_def distinct_map_filter split: option.splits)
  from jm_foldl_key_distinct [OF this assms(2)] show ?thesis by (simp add: questionById_def answerable_def)
qed

lemma option_label_clean: "option_ok v \<Longrightarrow> js_trim (interviewOptionLabel v) = interviewOptionLabel v"
  by (auto simp: option_ok_def interviewOptionLabel_def text_of_def clean_text_def split: json.splits option.splits)

lemma question_ok_options:
  assumes "question_ok q" "question_type q \<in> set choice_types"
  obtains v vs where "question_options q = Some (v # vs)" "list_all option_ok (v # vs)"
proof -
  obtain fs where fs: "q = JObj fs" using assms(1) by (cases q) (auto simp: question_ok_def fields_of_def)
  then obtain os where os: "field fs ''options'' = Some (JArr os)" "os \<noteq> []" "list_all option_ok os"
    using assms by (auto simp: question_ok_def options_ok_def text_of_def split: option.splits json.splits)
  then obtain v vs where "os = v # vs" by (cases os) auto
  then show thesis using that os fs by (simp add: question_options_def)
qed

lemma multi_value:
  assumes "question_type q = js ''multi''" "strings_of v = Some items"
    and "map js_trim items = items" "set items \<subseteq> set (option_labels q)"
  shows "response_value name q v = Inr (JArr (map JStr items))"
proof -
  have "List.find (\<lambda>x. x \<notin> set (option_labels q)) items = None"
    using assms(4) by (auto simp: find_None_iff)
  then show ?thesis using assms by (simp add: response_value_def js_eq_iff)
qed

lemma example_value_accepted:
  assumes ok: "question_ok q"
  shows "response_value name q (interviewExampleValue q) = Inr (interviewExampleValue q)"
proof (cases "question_type q \<in> set choice_types")
  case True
  from question_ok_options [OF ok True] obtain v vs where o: "question_options q = Some (v # vs)" "list_all option_ok (v # vs)" .
  have lab: "js_trim (interviewOptionLabel x) = interviewOptionLabel x" "interviewOptionLabel x \<in> set (option_labels q)"
    if "x \<in> set (v # vs)" for x
    using that o option_label_clean by (auto simp: option_labels_def list_all_iff)
  show ?thesis
  proof (cases "question_type q = js ''single''")
    case True
    have "js_trim (interviewOptionLabel v) = interviewOptionLabel v" "interviewOptionLabel v \<in> set (option_labels q)"
      using lab by simp_all
    then show ?thesis using True o(1) by (simp add: response_value_def interviewExampleValue_def js_eq_iff)
  next
    case False
    then have multi: "question_type q = js ''multi''" using True by (simp add: choice_types_def)
    define os where "os = v # vs"
    have opts: "question_options q = Some os" using o(1) by (simp add: os_def)
    note lab = lab [folded os_def]
    let ?sel = "map interviewOptionLabel (take 2 os)"
    have sel: "map js_trim ?sel = ?sel" "set ?sel \<subseteq> set (option_labels q)"
      using lab by (auto dest: in_set_takeD)
    have str: "strings_of (JArr (map (JStr \<circ> interviewOptionLabel) (take 2 os))) = Some ?sel"
      by (simp add: strings_of_def list_all_iff o_def)
    show ?thesis using multi opts multi_value [OF multi str sel]
      by (simp add: interviewExampleValue_def js_eq_iff)
  qed
next
  case False
  then show ?thesis by (auto simp: response_value_def interviewExampleValue_def choice_types_def)
qed

lemma validate_responses_example:
  assumes "interview_ok interview"
  shows "set qs \<subseteq> set (answerable interview) \<Longrightarrow> distinct (map question_id qs) \<Longrightarrow> set (map question_id qs) \<inter> set seen = {} \<Longrightarrow>
     validate_responses (questionById interview) i seen
       (map (\<lambda>q. JObj [(js ''id'', JStr (question_id q)), (js ''value'', interviewExampleValue q)]) qs)
     = Inr (map (\<lambda>q. (question_id q, interviewExampleValue q)) qs)"
proof (induction qs arbitrary: i seen)
  case (Cons q qs)
  have ok: "question_ok q" using assms Cons.prems(1)
    by (auto simp: interview_ok_def answerable_def list_all_iff split: option.splits)
  then have id: "trimmed_text (Some (JStr (question_id q))) = Some (question_id q)"
    by (cases q) (auto simp: question_ok_def fields_of_def clean_text_def trimmed_text_def text_of_def split: option.splits)
  have "jm_get (questionById interview) (question_id q) = Some q"
    using questionById_answerable [OF assms] Cons.prems(1) by simp
  moreover have "question_id q \<notin> set seen" using Cons.prems(3) by auto
  ultimately have "validate_response (questionById interview) i seen
      (JObj [(js ''id'', JStr (question_id q)), (js ''value'', interviewExampleValue q)]) =
      Inr (question_id q, interviewExampleValue q)"
    using id by (simp add: validate_response_def Let_def example_value_accepted [OF ok] js_eq_iff)
  moreover have "set (map question_id qs) \<inter> set (question_id q # seen) = {}" using Cons.prems(2,3) by auto
  ultimately show ?case using Cons.IH [of "question_id q # seen" "Suc i"] Cons.prems(1,2) by simp
qed simp

text \<open>The example of an answer is an answer.  The example that the text of an accepted interview shows to
  the supervisor is accepted by the validation of answers, with one response for each question that
  expects one.\<close>

theorem example_answer_is_accepted:
  "case validateSupervisorInterviewRequest v of
     Inr interview \<Rightarrow>
       validateSupervisorInterviewReply (responseExample interview) interview =
         Inr (map (\<lambda>q. (question_id q, interviewExampleValue q)) (answerable interview))
   | Inl e \<Rightarrow> True"
proof (cases "validateSupervisorInterviewRequest v")
  case (Inr interview)
  have ok: "interview_ok interview" by (rule validated_interview [OF Inr])
  then have "distinct (map question_id (answerable interview))"
    by (auto simp: interview_ok_def answerable_def distinct_map_filter split: option.splits)
  from validate_responses_example [OF ok _ this, of "[]" 0] Inr show ?thesis
    by (simp add: validateSupervisorInterviewReply_def responseExample_def answerable_def)
qed simp

text \<open>What an accepted answer is.\<close>

definition answer_ok :: "json \<Rightarrow> json \<Rightarrow> bool" where
  "answer_ok q v =
     (if question_type q = js ''single'' then v \<in> JStr ` set (option_labels q)
      else if question_type q = js ''multi'' then
        (case strings_of v of
           None \<Rightarrow> False
         | Some items \<Rightarrow> (case filter (\<lambda>x. x \<notin> set (option_labels q)) items of [] \<Rightarrow> True | x # _ \<Rightarrow> x = []))
      else is_string (Some v))"

lemma find_filter: "List.find P xs = (case filter P xs of [] \<Rightarrow> None | x # _ \<Rightarrow> Some x)"
  by (induction xs) auto

lemma response_value_ok:
  assumes "response_value name q v = Inr w"
  shows "answer_ok q w"
proof (cases "question_type q = js ''multi''")
  case True
  then obtain items where items: "strings_of v = Some items"
    using assms by (auto simp: response_value_def js_eq_iff split: option.splits)
  let ?sel = "map js_trim items"
  have w: "w = JArr (map JStr ?sel)" and f: "List.find (\<lambda>x. x \<notin> set (option_labels q)) ?sel \<in> {None, Some []}"
    using assms True items by (auto simp: response_value_def js_eq_iff Let_def split: option.splits list.splits)
  have "strings_of w = Some ?sel" by (simp add: w strings_of_def list_all_iff o_def)
  then show ?thesis using f True by (auto simp: answer_ok_def js_eq_iff find_filter split: list.splits)
next
  case False
  then show ?thesis using assms
    by (auto simp: response_value_def answer_ok_def split: option.splits if_splits)
qed

lemma validate_responses_ok:
  "validate_responses questions i seen vs = Inr rs \<Longrightarrow>
   distinct (map fst rs) \<and> fst ` set rs \<inter> set seen = {} \<and>
   set rs \<subseteq> {(rid, w). \<exists>q. jm_get questions rid = Some q \<and> answer_ok q w}"
proof (induction vs arbitrary: i seen rs)
  case (Cons v vs)
  obtain rid w where r: "validate_response questions i seen v = Inr (rid, w)"
    using Cons.prems by (auto split: sum.splits)
  obtain rest where rest: "validate_responses questions (Suc i) (rid # seen) vs = Inr rest" "rs = (rid, w) # rest"
    using Cons.prems r by (auto split: sum.splits)
  have "rid \<notin> set seen \<and> (\<exists>q. jm_get questions rid = Some q \<and> answer_ok q w)"
    using r response_value_ok by (auto simp: validate_response_def Let_def split: option.splits if_splits sum.splits)
  then show ?case using Cons.IH [OF rest(1)] rest(2) by auto
qed simp

text \<open>An accepted answer answers the questions.  Its responses have distinct ids, each the id of a question
  of the interview that expects an answer; a single choice is one of the option labels, a text is a string,
  and a multiple choice is a list of strings whose first item outside the labels, if any, is empty.\<close>

theorem accepted_answers_match_questions:
  "case validateSupervisorInterviewReply v interview of
     Inr rs \<Rightarrow>
       distinct (map fst rs) \<and>
       set rs \<subseteq> {(rid, w). \<exists>q. q \<in> set (answerable interview) \<and> question_id q = rid \<and> answer_ok q w}
   | Inl e \<Rightarrow> True"
proof (cases "validateSupervisorInterviewReply v interview")
  case (Inr rs)
  then obtain vs where vs: "validate_responses (questionById interview) 0 [] vs = Inr rs"
    by (auto simp: validateSupervisorInterviewReply_def split: option.splits json.splits)
  have "q \<in> set (answerable interview) \<and> question_id q = rid" if "jm_get (questionById interview) rid = Some q" for rid q
    using jm_get_foldl_key [of question_id "[]" "answerable interview" rid q] that
    by (simp add: questionById_def answerable_def)
  then have "{(rid, w). \<exists>q. jm_get (questionById interview) rid = Some q \<and> answer_ok q w}
      \<subseteq> {(rid, w). \<exists>q. q \<in> set (answerable interview) \<and> question_id q = rid \<and> answer_ok q w}" by blast
  then have "set rs \<subseteq> {(rid, w). \<exists>q. q \<in> set (answerable interview) \<and> question_id q = rid \<and> answer_ok q w}"
    using validate_responses_ok [OF vs] by blast
  then show ?thesis using validate_responses_ok [OF vs] Inr by simp
qed simp

definition demo_poll :: json where
  "demo_poll = JObj [(js ''questions'', JArr [JObj [(js ''id'', JStr (js ''color'')), (js ''type'', JStr (js ''multi'')),
     (js ''question'', JStr (js ''Which?'')), (js ''options'', JArr [JStr (js ''red''), JStr (js ''blue'')])]])]"

definition demo_answer :: "json list \<Rightarrow> json" where
  "demo_answer items = JObj [(js ''responses'', JArr [JObj [(js ''id'', JStr (js ''color'')), (js ''value'', JArr items)]])]"

text \<open>A blank item switches the check of a multiple choice off.  The check throws only when the first item
  outside the options is not the empty string: after a blank item any text is accepted as a choice.\<close>

theorem blank_item_disables_check:
  "validateSupervisorInterviewReply (demo_answer (map JStr ([] # xs))) demo_poll =
     Inr [(js ''color'', JArr (map (JStr \<circ> js_trim) ([] # xs)))]"
proof -
  have trim: "js_trim [] = []" by (simp add: js_trim_def js_trimStart_def js_trimEnd_def)
  have color: "js_trim (js ''color'') = js ''color''" by (rule js_trim_js) simp
  define q where "q = JObj [(js ''id'', JStr (js ''color'')), (js ''type'', JStr (js ''multi'')),
     (js ''question'', JStr (js ''Which?'')), (js ''options'', JArr [JStr (js ''red''), JStr (js ''blue'')])]"
  have q: "question_id q = js ''color''" "question_type q = js ''multi''" "option_labels q = [js ''red'', js ''blue'']"
    by (simp_all add: q_def js_eq_iff option_labels_def question_options_def interviewOptionLabel_def)
  have "question_list demo_poll = [q]" by (simp add: demo_poll_def question_list_def q_def)
  then have look: "questionById demo_poll = [(js ''color'', q)]"
    using q(1,2) by (simp add: questionById_def js_eq_iff)
  have items: "strings_of (JArr (map JStr ([] # xs))) = Some ([] # xs)"
    by (simp add: strings_of_def list_all_iff o_def text_of_def)
  have resp: "response_value name q (JArr (map JStr ([] # xs))) = Inr (JArr (map (JStr \<circ> js_trim) ([] # xs)))" for name
    unfolding response_value_def items q(2,3) by (simp add: trim js_eq_iff Let_def eq_commute [of "[]" "js x" for x])
  have "trimmed_text (Some (JStr (js ''color''))) = Some (js ''color'')" using color by (simp add: trimmed_text_def)
  then have "validate_response [(js ''color'', q)] 0 [] (JObj [(js ''id'', JStr (js ''color'')), (js ''value'', JArr (map JStr ([] # xs)))]) =
      Inr (js ''color'', JArr (map (JStr \<circ> js_trim) ([] # xs)))"
    using resp by (simp add: validate_response_def Let_def js_eq_iff del: list.map)
  then show ?thesis
    by (simp add: validateSupervisorInterviewReply_def demo_answer_def look del: list.map)
qed

end
