(* ===== verification/Url_Guards.thy ===== *)
theory Url_Guards
  imports JS_Core
begin

unbundle bit_operations_syntax

text \<open>
  The guard of URL reads against private addresses
  (\<open>packages/coding-agent/src/core/tools/url-ip-guards.ts\<close>) and the loading of a page behind it
  (\<open>assertSafeFetchUrl\<close> and \<open>loadPage\<close> of \<open>fetch-url.ts\<close>).  Addresses are texts, as in the code.  The
  parameters are \<open>toLowerCase\<close> (\<open>lower\<close>), \<open>isIP\<close>, the \<open>URL\<close> class, the resolver and the network.
\<close>

subsection \<open>Numbers in texts\<close>

abbreviation dot :: code_unit where "dot \<equiv> 46"
abbreviation colon :: code_unit where "colon \<equiv> 58"

definition hex_digit :: "code_unit \<Rightarrow> nat option" where
  "hex_digit c =
     (if 48 \<le> c \<and> c \<le> 57 then Some (unat c - 48)
      else if 97 \<le> c \<and> c \<le> 102 then Some (unat c - 87) else None)"

definition hex_digit_i :: "code_unit \<Rightarrow> nat option" where
  "hex_digit_i c = (if 65 \<le> c \<and> c \<le> 70 then Some (unat c - 55) else hex_digit c)"

definition based_number :: "(code_unit \<Rightarrow> nat option) \<Rightarrow> nat \<Rightarrow> jstr \<Rightarrow> nat" where
  "based_number digit base s = foldl (\<lambda>a c. base * a + (case digit c of None \<Rightarrow> 0 | Some d \<Rightarrow> d)) 0 s"

text \<open>\<open>Number.parseInt(s, 10)\<close>: \<open>None\<close> for NaN.\<close>

definition parse_int10 :: "jstr \<Rightarrow> int option" where
  "parse_int10 s =
     (let t = js_trimStart s;
          neg = (t \<noteq> [] \<and> hd t = 45);
          t = (if t \<noteq> [] \<and> hd t \<in> {43, 45} then tl t else t);
          ds = takeWhile js_digit t
      in if ds = [] then None else Some (if neg then - int (js_number ds) else int (js_number ds)))"

definition is_finite_int :: "int \<Rightarrow> bool" where
  "is_finite_int i \<longleftrightarrow> js_double (nat \<bar>i\<bar>) \<noteq> JNonFinite"

subsection \<open>IPv4 texts\<close>

text \<open>\<open>BigInt(Number.parseInt(..))\<close> rounds, and throws for a number that is not finite.\<close>

datatype ipv4_part = NotNumber | Part nat | PartThrows

definition rounded_part :: "nat \<Rightarrow> ipv4_part" where
  "rounded_part n = (case js_double n of JFinite x \<Rightarrow> Part (nat \<lfloor>x\<rfloor>) | JNonFinite \<Rightarrow> PartThrows)"

definition parseIpv4Part :: "jstr \<Rightarrow> ipv4_part" where
  "parseIpv4Part part =
     (if part = [] then NotNumber
      else if 2 < length part \<and> hd part = 48 \<and> part ! 1 \<in> {120, 88} \<and> list_all (\<lambda>c. hex_digit_i c \<noteq> None) (drop 2 part)
      then rounded_part (based_number hex_digit_i 16 (drop 2 part))
      else if 1 < length part \<and> hd part = 48 \<and> list_all (\<lambda>c. 48 \<le> c \<and> c \<le> 55) (tl part)
      then rounded_part (based_number hex_digit 8 part)
      else if part = [48] \<or> hd part \<noteq> 48 \<and> list_all js_digit part then Part (js_number part)
      else NotNumber)"

definition quad_text :: "nat list \<Rightarrow> jstr" where
  "quad_text parts = js_join [dot] (map js_nat parts)"

definition dottedQuadFromValue :: "nat \<Rightarrow> jstr option" where
  "dottedQuadFromValue v =
     (if 0xffffffff < v then None
      else Some (quad_text (map (\<lambda>shift. drop_bit shift v AND 255) [24, 16, 8, 0])))"

definition hostname_chars :: "jstr \<Rightarrow> bool" where
  "hostname_chars s \<longleftrightarrow> s \<noteq> [] \<and> list_all (\<lambda>c. hex_digit_i c \<noteq> None \<or> c \<in> {120, 88, dot}) s"

definition canonical_values :: "nat list \<Rightarrow> jstr option" where
  "canonical_values vs =
     (case vs of
        [a] \<Rightarrow> dottedQuadFromValue a
      | [a, b] \<Rightarrow> (if 255 < a \<or> 0xffffff < b then None else dottedQuadFromValue (push_bit 24 a + b))
      | [a, b, c] \<Rightarrow>
          (if 255 < a \<or> 255 < b \<or> 0xffff < c then None else dottedQuadFromValue (push_bit 24 a + push_bit 16 b + c))
      | [a, b, c, d] \<Rightarrow>
          (if 255 < a \<or> 255 < b \<or> 255 < c \<or> 255 < d then None
           else dottedQuadFromValue (push_bit 24 a + push_bit 16 b + push_bit 8 c + d))
      | _ \<Rightarrow> None)"

text \<open>\<open>Inl ()\<close> is the \<open>RangeError\<close> of \<open>BigInt\<close>.\<close>

definition canonicalNumericIpv4 :: "jstr \<Rightarrow> unit + jstr option" where
  "canonicalNumericIpv4 hostname =
     (if \<not> hostname_chars hostname then Inr None
      else (let parts = js_split dot hostname
            in if 4 < length parts then Inr None
               else (let nums = map parseIpv4Part parts
                     in if PartThrows \<in> set nums then Inl ()
                        else if NotNumber \<in> set nums then Inr None
                        else Inr (canonical_values (map (\<lambda>p. case p of Part n \<Rightarrow> n | _ \<Rightarrow> 0) nums)))))"

definition normalizeIpLiteralHost :: "(jstr \<Rightarrow> bool) \<Rightarrow> jstr \<Rightarrow> unit + jstr option" where
  "normalizeIpLiteralHost isIP hostname = (if isIP hostname then Inr (Some hostname) else canonicalNumericIpv4 hostname)"

definition ipFamily :: "jstr \<Rightarrow> nat" where
  "ipFamily address = (if colon \<in> set address then 6 else 4)"

definition private_octets :: "int \<Rightarrow> int \<Rightarrow> bool" where
  "private_octets a b \<longleftrightarrow>
     a = 0 \<or> a = 10 \<or> a = 127 \<or> a = 169 \<and> b = 254 \<or> a = 172 \<and> 16 \<le> b \<and> b \<le> 31 \<or> a = 192 \<and> b = 168 \<or>
     a = 100 \<and> 64 \<le> b \<and> b \<le> 127"

text \<open>\<open>isPrivateIpAddress\<close> of a text without a colon.\<close>

definition private_ipv4 :: "jstr \<Rightarrow> bool" where
  "private_ipv4 address =
     (case map parse_int10 (js_split dot address) of
        [Some a, Some b, Some c, Some d] \<Rightarrow> list_all is_finite_int [a, b, c, d] \<and> private_octets a b
      | _ \<Rightarrow> False)"

subsection \<open>IPv6 texts\<close>

definition ipv4FromHextets :: "nat \<Rightarrow> nat \<Rightarrow> jstr" where
  "ipv4FromHextets high low = quad_text [drop_bit 8 high, high AND 255, drop_bit 8 low, low AND 255]"

text \<open>\<open>replace(/%.+$/, '''')\<close>: \<open>.\<close> is no line terminator.\<close>

definition line_terminator :: "code_unit \<Rightarrow> bool" where
  "line_terminator c \<longleftrightarrow> c \<in> {10, 13, 0x2028, 0x2029}"

fun strip_zone :: "jstr \<Rightarrow> jstr" where
  "strip_zone [] = []"
| "strip_zone (c # cs) =
     (if c = 37 \<and> cs \<noteq> [] \<and> list_all (\<lambda>x. \<not> line_terminator x) cs then [] else c # strip_zone cs)"

text \<open>\<open>split(''::'')\<close>.\<close>

fun split_dcolon :: "jstr \<Rightarrow> jstr list" where
  "split_dcolon [] = [[]]"
| "split_dcolon [c] = [[c]]"
| "split_dcolon (c # d # cs) =
     (if c = colon \<and> d = colon then [] # split_dcolon cs
      else (case split_dcolon (d # cs) of [] \<Rightarrow> [[c]] | y # ys \<Rightarrow> (c # y) # ys))"

definition hex_part :: "jstr \<Rightarrow> bool" where
  "hex_part p \<longleftrightarrow> p \<noteq> [] \<and> length p \<le> 4 \<and> list_all (\<lambda>c. hex_digit c \<noteq> None) p"

text \<open>One part between colons; \<open>None\<close> is NaN.\<close>

definition expand_part :: "jstr \<Rightarrow> nat option list" where
  "expand_part part =
     (if dot \<in> set part then
        (case map parse_int10 (js_split dot part) of
           [Some a, Some b, Some c, Some d] \<Rightarrow>
             (if list_all (\<lambda>n. 0 \<le> n \<and> n \<le> 255) [a, b, c, d]
              then [Some (push_bit 8 (nat a) OR nat b), Some (push_bit 8 (nat c) OR nat d)] else [None])
         | _ \<Rightarrow> [None])
      else if hex_part part then [Some (based_number hex_digit 16 part)] else [None])"

definition parse_side :: "jstr \<Rightarrow> nat option list" where
  "parse_side side = (if side = [] then [] else concat (map expand_part (js_split colon side)))"

definition expandIpv6 :: "(jstr \<Rightarrow> jstr) \<Rightarrow> jstr \<Rightarrow> nat list option" where
  "expandIpv6 lower address =
     (let pieces = split_dcolon (strip_zone (lower address))
      in if 2 < length pieces then None
         else (let left = parse_side (pieces ! 0);
                   right = parse_side (if length pieces = 2 then pieces ! 1 else [])
               in if None \<in> set left \<or> None \<in> set right then None
                  else if length pieces = 1 then (if length left = 8 then Some (map the left) else None)
                  else if 8 < length left + length right then None
                  else Some (map the left @ replicate (8 - length left - length right) 0 @ map the right)))"

definition embedded_private :: "nat list \<Rightarrow> bool" where
  "embedded_private h =
     (if list_all (\<lambda>p. p = 0) (take 5 h) \<and> h ! 5 = 0xffff then private_ipv4 (ipv4FromHextets (h ! 6) (h ! 7))
      else if list_all (\<lambda>p. p = 0) (take 6 h) then private_ipv4 (ipv4FromHextets (h ! 6) (h ! 7))
      else if h ! 0 = 0x2002 then private_ipv4 (ipv4FromHextets (h ! 1) (h ! 2))
      else if h ! 0 = 0x64 \<and> h ! 1 = 0xff9b \<and> list_all (\<lambda>p. p = 0) (take 4 (drop 2 h))
      then private_ipv4 (ipv4FromHextets (h ! 6) (h ! 7))
      else False)"

definition embeddedPrivateIpv4 :: "(jstr \<Rightarrow> jstr) \<Rightarrow> jstr \<Rightarrow> bool" where
  "embeddedPrivateIpv4 lower address =
     (case expandIpv6 lower address of None \<Rightarrow> False | Some h \<Rightarrow> embedded_private h)"

definition private_hextets :: "nat list \<Rightarrow> bool" where
  "private_hextets h \<longleftrightarrow>
     list_all (\<lambda>p. p = 0) h \<or> list_all (\<lambda>p. p = 0) (take 7 h) \<and> h ! 7 = 1 \<or>
     h ! 0 AND 0xffc0 = 0xfe80 \<or> h ! 0 AND 0xfe00 = 0xfc00"

definition isPrivateIpv6Address :: "(jstr \<Rightarrow> jstr) \<Rightarrow> jstr \<Rightarrow> bool" where
  "isPrivateIpv6Address lower address =
     (case expandIpv6 lower address of None \<Rightarrow> False | Some h \<Rightarrow> private_hextets h)"

text \<open>\<open>/::ffff:(\d+\.\d+\.\d+\.\d+)$/\<close> and \<open>/^::ffff:([0-9a-f]{1,4}):([0-9a-f]{1,4})$/\<close>.\<close>

definition mapped_prefix :: jstr where "mapped_prefix = js ''::ffff:''"

definition decimal_quad :: "jstr \<Rightarrow> bool" where
  "decimal_quad s \<longleftrightarrow>
     length (js_split dot s) = 4 \<and> list_all (\<lambda>p. p \<noteq> [] \<and> list_all js_digit p) (js_split dot s)"

fun mapped_quad :: "jstr \<Rightarrow> jstr option" where
  "mapped_quad [] = None"
| "mapped_quad (c # cs) =
     (if js_startsWith (c # cs) mapped_prefix \<and> decimal_quad (drop 7 (c # cs)) then Some (drop 7 (c # cs))
      else mapped_quad cs)"

definition hex_mapped :: "jstr \<Rightarrow> (nat \<times> nat) option" where
  "hex_mapped s =
     (if js_startsWith s mapped_prefix then
        (case js_split colon (drop 7 s) of
           [h, l] \<Rightarrow> (if hex_part h \<and> hex_part l then Some (based_number hex_digit 16 h, based_number hex_digit 16 l) else None)
         | _ \<Rightarrow> None)
      else None)"

definition isPrivateIpAddress :: "(jstr \<Rightarrow> jstr) \<Rightarrow> jstr \<Rightarrow> bool" where
  "isPrivateIpAddress lower address =
     (if colon \<in> set address then
        (let l = lower address
         in if isPrivateIpv6Address lower l then True
            else (case hex_mapped l of
                    Some (high, low) \<Rightarrow> private_ipv4 (ipv4FromHextets high low)
                  | None \<Rightarrow> (case mapped_quad l of Some q \<Rightarrow> private_ipv4 q | None \<Rightarrow> embeddedPrivateIpv4 lower address)))
      else private_ipv4 address)"

subsection \<open>IPv4: what the guard refuses\<close>

text \<open>The refused networks, as base address and prefix length: this network, 10/8, loopback, link-local,
  172.16/12, 192.168/16 and 100.64/10.\<close>

definition refused_networks :: "(nat \<times> nat) list" where
  "refused_networks = [(0, 8), (10 * 2 ^ 24, 8), (127 * 2 ^ 24, 8), (169 * 2 ^ 24 + 254 * 2 ^ 16, 16),
     (172 * 2 ^ 24 + 16 * 2 ^ 16, 12), (192 * 2 ^ 24 + 168 * 2 ^ 16, 16), (100 * 2 ^ 24 + 64 * 2 ^ 16, 10)]"

definition in_network :: "nat \<Rightarrow> nat \<times> nat \<Rightarrow> bool" where
  "in_network v net = (case net of (base, len) \<Rightarrow> v div 2 ^ (32 - len) = base div 2 ^ (32 - len))"

definition refused_ipv4 :: "nat \<Rightarrow> bool" where
  "refused_ipv4 v = list_ex (in_network v) refused_networks"

lemma and_255: "n AND 255 = n mod (256::nat)"
proof -
  have "n AND 255 = take_bit 8 n" by (simp add: take_bit_eq_mask mask_eq_exp_minus_1)
  then show ?thesis by (simp add: take_bit_eq_mod)
qed

lemma refused_by_prefix:
  "refused_ipv4 v \<longleftrightarrow>
     v div 2 ^ 24 \<in> {0, 10, 127} \<or> v div 2 ^ 16 \<in> {43518, 49320} \<or> v div 2 ^ 20 = 2753 \<or> v div 2 ^ 22 = 401"
  by (auto simp: refused_ipv4_def refused_networks_def in_network_def)

lemma div_eq_range: "0 < n \<Longrightarrow> (w::nat) div n = q \<longleftrightarrow> n * q \<le> w \<and> w < n * q + n"
proof -
  assume n: "0 < n"
  have "w div n = q \<longleftrightarrow> q \<le> w div n \<and> w div n < Suc q" by auto
  also have "\<dots> \<longleftrightarrow> q * n \<le> w \<and> w < Suc q * n"
    using n by (simp only: less_eq_div_iff_mult_less_eq div_less_iff_less_mult)
  finally show ?thesis by (simp add: algebra_simps)
qed

lemma prefix_12: "(w::nat) div 16 = 2753 \<longleftrightarrow> 44048 \<le> w \<and> w < 44064"
  by (simp add: div_eq_range)

lemma prefix_10: "(w::nat) div 64 = 401 \<longleftrightarrow> 25664 \<le> w \<and> w < 25728"
  by (simp add: div_eq_range)

lemma private_octets_prefix:
  assumes "b < (256::nat)"
  shows "private_octets (int a) (int b) \<longleftrightarrow>
    a \<in> {0, 10, 127} \<or> 256 * a + b \<in> {43518, 49320} \<or> (256 * a + b) div 16 = 2753 \<or> (256 * a + b) div 64 = 401"
proof -
  have "256 * a + b = 43518 \<longleftrightarrow> a = 169 \<and> b = 254" "256 * a + b = 49320 \<longleftrightarrow> a = 192 \<and> b = 168" using assms by arith+
  moreover have "44048 \<le> 256 * a + b \<and> 256 * a + b < 44064 \<longleftrightarrow> a = 172 \<and> 16 \<le> b \<and> b \<le> 31" using assms by arith
  moreover have "25664 \<le> 256 * a + b \<and> 256 * a + b < 25728 \<longleftrightarrow> a = 100 \<and> 64 \<le> b \<and> b \<le> 127" using assms by arith
  ultimately show ?thesis unfolding private_octets_def prefix_12 prefix_10 by auto
qed

lemma private_octets_network:
  "private_octets (int (v div 2 ^ 24)) (int (v div 2 ^ 16 mod 256)) \<longleftrightarrow> refused_ipv4 v"
proof -
  have "v div 2 ^ 24 = v div 2 ^ 16 div 256" "v div 2 ^ 20 = v div 2 ^ 16 div 16" "v div 2 ^ 22 = v div 2 ^ 16 div 64"
    by (simp_all add: div_mult2_eq [symmetric])
  moreover have "v div 2 ^ 16 = 256 * (v div 2 ^ 16 div 256) + v div 2 ^ 16 mod 256" by simp
  moreover have "v div 2 ^ 16 mod 256 < 256" by simp
  ultimately show ?thesis
    by (metis refused_by_prefix private_octets_prefix)
qed

lemma parse_int10_js_nat [simp]: "parse_int10 (js_nat n) = Some (int n)"
proof -
  have dig: "list_all js_digit (js_nat n)" using js_nat_digits by (auto simp: list_all_iff)
  obtain c cs where c: "js_nat n = c # cs" by (cases "js_nat n") simp_all
  have "js_digit c" using dig c by simp
  then have u: "48 \<le> unat c" "unat c \<le> 57" by (simp_all add: js_digit_def word_le_nat_alt)
  have "\<not> js_ws c" "c \<noteq> 43" "c \<noteq> 45" using u by (auto simp: js_ws_def)
  moreover have "takeWhile js_digit cs = cs" using dig c by (simp add: takeWhile_eq_all_conv list_all_iff)
  moreover have "js_number (c # cs) = n" using c by (metis js_number_js_nat)
  ultimately show ?thesis using \<open>js_digit c\<close> by (simp add: parse_int10_def c js_trimStart_def Let_def takeWhile_eq_all_conv [THEN iffD2])
qed

lemma js_nat_no: "\<not> js_digit c \<Longrightarrow> c \<notin> set (js_nat n)"
  using js_nat_digits by blast

lemma not_digit_dot [simp]: "\<not> js_digit dot" "\<not> js_digit colon"
  by (simp_all add: js_digit_def word_le_nat_alt)

lemma split_quad: "ps \<noteq> [] \<Longrightarrow> js_split dot (js_join [dot] (map js_nat ps)) = map js_nat ps"
  by (rule js_split_join) (auto simp: js_nat_no)

lemma private_quad:
  assumes "list_all (\<lambda>n. n < 2 ^ 53) [a, b, c, d]"
  shows "private_ipv4 (quad_text [a, b, c, d]) \<longleftrightarrow> private_octets (int a) (int b)"
proof -
  have "js_split dot (quad_text [a, b, c, d]) = map js_nat [a, b, c, d]"
    unfolding quad_text_def by (rule split_quad) simp
  then show ?thesis using assms by (simp add: private_ipv4_def is_finite_int_def)
qed

lemma no_colon_join: "colon \<notin> set (js_join [dot] (map js_nat ps))"
  by (induction ps rule: induct_list012) (auto simp: js_nat_no)

text \<open>The text of an address.\<close>

definition ipv4_text :: "nat \<Rightarrow> jstr" where
  "ipv4_text v = quad_text [v div 2 ^ 24 mod 256, v div 2 ^ 16 mod 256, v div 2 ^ 8 mod 256, v mod 256]"

lemma private_ipv4_text:
  assumes "v < 2 ^ 32"
  shows "private_ipv4 (ipv4_text v) \<longleftrightarrow> refused_ipv4 v"
proof -
  have "v div 2 ^ 24 mod 256 = v div 2 ^ 24" using assms by (simp add: less_mult_imp_div_less)
  then show ?thesis
    using private_quad [of "v div 2 ^ 24 mod 256" "v div 2 ^ 16 mod 256" "v div 2 ^ 8 mod 256" "v mod 256"]
      private_octets_network [of v]
    by (simp add: ipv4_text_def order_less_trans [OF mod_less_divisor])
qed

text \<open>The addresses of the C library: all parts but the last are octets, the last one fills the rest.\<close>

definition inet_aton :: "nat list \<Rightarrow> nat option" where
  "inet_aton ps =
     (if ps \<noteq> [] \<and> length ps \<le> 4 \<and> list_all (\<lambda>p. p < 256) (butlast ps) \<and> last ps < 256 ^ (5 - length ps)
      then Some (foldl (\<lambda>v p. 256 * v + p) 0 (butlast ps) * 256 ^ (5 - length ps) + last ps) else None)"

lemma dotted_value: "dottedQuadFromValue v = (if v < 2 ^ 32 then Some (ipv4_text v) else None)"
  by (auto simp: dottedQuadFromValue_def ipv4_text_def and_255 drop_bit_eq_div)

lemma upto_four:
  assumes "length ps \<le> 4"
  obtains "ps = []" | a where "ps = [a]" | a b where "ps = [a, b]" | a b c where "ps = [a, b, c]"
    | a b c d where "ps = [a, b, c, d]"
  using assms by (cases ps; cases "tl ps"; cases "tl (tl ps)"; cases "tl (tl (tl ps))") auto

lemma inet_aton_bound: "inet_aton ps = Some v \<Longrightarrow> length ps \<le> 4 \<and> v < 2 ^ 32"
proof -
  assume a: "inet_aton ps = Some v"
  then have len: "length ps \<le> 4" by (simp add: inet_aton_def split: if_splits)
  then show ?thesis using a
    by (cases rule: upto_four) (auto simp: inet_aton_def split: if_splits)
qed

lemma canonical_values_aton:
  assumes "length ps \<le> 4"
  shows "canonical_values ps = map_option ipv4_text (inet_aton ps)"
proof -
  show ?thesis using assms
    by (cases rule: upto_four) (auto simp: canonical_values_def inet_aton_def dotted_value push_bit_eq_mult algebra_simps)
qed

lemma parse_js_nat: "parseIpv4Part (js_nat n) = Part n"
proof -
  have dig: "list_all js_digit (js_nat n)" using js_nat_digits by (auto simp: list_all_iff)
  show ?thesis
  proof (cases "n = 0")
    case True
    then show ?thesis by (subst True, subst js_nat.simps) (simp add: parseIpv4Part_def js_number_def)
  next
    case False
    then show ?thesis using js_nat_leading [OF False] dig by (simp add: parseIpv4Part_def)
  qed
qed

lemma digit_hostname: "js_digit c \<Longrightarrow> hex_digit_i c \<noteq> None"
  by (auto simp: hex_digit_i_def hex_digit_def js_digit_def word_le_nat_alt)

text \<open>A host written in numbers is judged by its network.  For any decimal parts, the host they form is
  read as the C library reads it: if that is an address, its dotted form is refused exactly when the
  address lies in one of the refused networks; if it is none, it is no address for the guard either.\<close>

theorem numeric_hosts_guarded_by_network:
  "case canonicalNumericIpv4 (js_join [dot] (map js_nat ps)) of
     Inr (Some t) \<Rightarrow> (\<exists>v. inet_aton ps = Some v \<and> t = ipv4_text v \<and> isPrivateIpAddress lower t = refused_ipv4 v)
   | Inr None \<Rightarrow> inet_aton ps = None
   | Inl _ \<Rightarrow> False"
proof (cases "ps = []")
  case True
  then show ?thesis by (simp add: canonicalNumericIpv4_def hostname_chars_def inet_aton_def)
next
  case False
  let ?h = "js_join [dot] (map js_nat ps)"
  have "set ?h \<subseteq> {c. js_digit c} \<union> {dot}"
    by (induction ps rule: induct_list012) (auto dest: js_nat_digits)
  then have "list_all (\<lambda>c. hex_digit_i c \<noteq> None \<or> c \<in> {120, 88, dot}) ?h"
    using digit_hostname by (auto simp: list_all_iff)
  moreover have "?h \<noteq> []" using False by (induction ps rule: induct_list012) auto
  ultimately have host: "hostname_chars ?h" by (simp add: hostname_chars_def)
  have parts: "js_split dot ?h = map js_nat ps" by (rule split_quad [OF False])
  have nums: "map parseIpv4Part (map js_nat ps) = map Part ps" by (simp add: parse_js_nat)
  have canon: "canonicalNumericIpv4 ?h = Inr (if 4 < length ps then None else canonical_values ps)"
    unfolding canonicalNumericIpv4_def Let_def parts nums using host by (simp add: o_def image_iff)
  show ?thesis
  proof (cases "inet_aton ps")
    case None
    then show ?thesis using canon canonical_values_aton [of ps] by auto
  next
    case (Some v)
    note len = inet_aton_bound [OF Some, THEN conjunct1] and lt = inet_aton_bound [OF Some, THEN conjunct2]
    have res: "canonicalNumericIpv4 ?h = Inr (Some (ipv4_text v))"
      using canon canonical_values_aton [OF len] Some len by simp
    have "colon \<notin> set (ipv4_text v)" unfolding ipv4_text_def quad_text_def by (rule no_colon_join)
    then have "isPrivateIpAddress lower (ipv4_text v) = refused_ipv4 v"
      using private_ipv4_text [OF lt] by (simp add: isPrivateIpAddress_def)
    then show ?thesis using res Some by simp
  qed
qed

subsection \<open>IPv6: what the guard refuses\<close>

text \<open>An address as its eight hextets: unspecified, loopback, fe80::/10, fc00::/7, and the addresses that
  embed a refused IPv4 address: mapped, compatible, 6to4 and NAT64.\<close>

definition refused_ipv6 :: "nat list \<Rightarrow> bool" where
  "refused_ipv6 h =
     (let zero = (\<lambda>i n. take n (drop i h) = replicate n 0); ipv4 = (\<lambda>i. refused_ipv4 (h ! i * 2 ^ 16 + h ! Suc i))
      in zero 0 8 \<or> zero 0 7 \<and> h ! 7 = 1 \<or> h ! 0 div 2 ^ 6 = 0xfe80 div 2 ^ 6 \<or> h ! 0 div 2 ^ 9 = 0xfc00 div 2 ^ 9 \<or>
         zero 0 5 \<and> h ! 5 = 0xffff \<and> ipv4 6 \<or> zero 0 6 \<and> ipv4 6 \<or> h ! 0 = 0x2002 \<and> ipv4 1 \<or>
         h ! 0 = 0x64 \<and> h ! 1 = 0xff9b \<and> zero 2 4 \<and> ipv4 6)"

lemma high_bits:
  assumes "h < 2 ^ 16" "k \<le> 16"
  shows "(h::nat) AND push_bit k (mask (16 - k)) = push_bit k (h div 2 ^ k)"
proof -
  have "h AND push_bit k (mask (16 - k)) = push_bit k (drop_bit k h)"
  proof (rule bit_eqI)
    fix n
    have "bit h n \<Longrightarrow> n < 16" using assms(1) by (metis bit_take_bit_iff take_bit_nat_eq_self)
    then show "bit (h AND push_bit k (mask (16 - k))) n = bit (push_bit k (drop_bit k h)) n"
      using assms(2) by (auto simp: bit_simps)
  qed
  then show ?thesis by (simp add: drop_bit_eq_div)
qed

lemma masks:
  assumes "h < (2 ^ 16 :: nat)"
  shows "h AND 0xffc0 = 0xfe80 \<longleftrightarrow> h div 2 ^ 6 = 0xfe80 div 2 ^ 6"
    and "h AND 0xfe00 = 0xfc00 \<longleftrightarrow> h div 2 ^ 9 = 0xfc00 div 2 ^ 9"
  using high_bits [OF assms, of 6] high_bits [OF assms, of 9]
  by (simp_all add: push_bit_eq_mult mask_eq_exp_minus_1)

lemma hextets_text:
  assumes "h < 2 ^ 16" "l < (2 ^ 16 :: nat)"
  shows "ipv4FromHextets h l = ipv4_text (h * 2 ^ 16 + l)"
proof -
  let ?v = "h * 65536 + l"
  have q: "?v div 65536 = h" using assms by simp
  have "?v div 16777216 = ?v div 65536 div 256" by (simp add: div_mult2_eq [symmetric])
  then have "?v div 16777216 mod 256 = h div 256" using q assms(1) by (simp add: less_mult_imp_div_less)
  moreover have "?v div 65536 mod 256 = h mod 256" using q by simp
  moreover have "?v div 256 mod 256 = l div 256"
  proof -
    have "?v = l + (h * 256) * 256" by simp
    then have "?v div 256 = h * 256 + l div 256" by (simp only: div_mult_self1 [of 256])
    moreover have "l div 256 < 256" using assms(2) by (simp add: less_mult_imp_div_less)
    ultimately show ?thesis by simp
  qed
  moreover have "?v mod 256 = l mod 256"
  proof -
    have "?v = l + (h * 256) * 256" by simp
    then show ?thesis by (simp only: mod_mult_self1)
  qed
  ultimately show ?thesis by (simp add: ipv4FromHextets_def ipv4_text_def drop_bit_eq_div and_255)
qed

lemma private_hextet_pair:
  assumes "h < 2 ^ 16" "l < 2 ^ 16"
  shows "private_ipv4 (ipv4FromHextets h l) \<longleftrightarrow> refused_ipv4 (h * 2 ^ 16 + l)"
proof -
  have "h * 2 ^ 16 + l < 2 ^ 32" using assms by simp
  then show ?thesis by (simp only: hextets_text [OF assms] private_ipv4_text)
qed

lemma hex_digit_less: "hex_digit c = Some d \<Longrightarrow> d < 16"
  by (auto simp: hex_digit_def word_le_nat_alt split: if_splits)

lemma based_number_less:
  "list_all (\<lambda>c. hex_digit c \<noteq> None) p \<Longrightarrow> based_number hex_digit 16 p < 16 ^ length p"
proof (induction p rule: rev_induct)
  case (snoc c p)
  then obtain d where d: "hex_digit c = Some d" by auto
  have "based_number hex_digit 16 (p @ [c]) = 16 * based_number hex_digit 16 p + d"
    by (simp add: based_number_def d)
  then show ?case using snoc hex_digit_less [OF d] by simp
qed (simp add: based_number_def)

lemma hextet_less: "hex_part p \<Longrightarrow> based_number hex_digit 16 p < 2 ^ 16"
proof -
  assume p: "hex_part p"
  have "based_number hex_digit 16 p < 16 ^ length p"
    by (rule based_number_less) (use p in \<open>simp add: hex_part_def\<close>)
  also have "(16::nat) ^ length p \<le> 16 ^ 4"
    by (rule power_increasing) (use p in \<open>simp_all add: hex_part_def\<close>)
  finally show ?thesis by simp
qed

lemma refused_hextets:
  assumes len: "length h = 8" and lt: "\<forall>x \<in> set h. x < 2 ^ 16"
  shows "private_hextets h \<or> embedded_private h \<longleftrightarrow> refused_ipv6 h"
proof -
  obtain a b c d e f g i where h: "h = [a, b, c, d, e, f, g, i]"
    using len by (auto simp: length_Suc_conv numeral_eq_Suc)
  have "a < 2 ^ 16" "b < 2 ^ 16" "c < 2 ^ 16" "g < 2 ^ 16" "i < 2 ^ 16" using lt h by simp_all
  note m = masks [OF this(1)] and pairs = private_hextet_pair [OF this(4,5)] private_hextet_pair [OF this(2,3)]
  have "private_hextets h \<longleftrightarrow>
      a = 0 \<and> b = 0 \<and> c = 0 \<and> d = 0 \<and> e = 0 \<and> f = 0 \<and> g = 0 \<and> i = 0 \<or>
      a = 0 \<and> b = 0 \<and> c = 0 \<and> d = 0 \<and> e = 0 \<and> f = 0 \<and> g = 0 \<and> i = 1 \<or>
      a div 2 ^ 6 = 0xfe80 div 2 ^ 6 \<or> a div 2 ^ 9 = 0xfc00 div 2 ^ 9"
    unfolding private_hextets_def h by (simp only: nth_Cons_0 m) simp
  moreover have "embedded_private h \<longleftrightarrow>
      a = 0 \<and> b = 0 \<and> c = 0 \<and> d = 0 \<and> e = 0 \<and> f = 0xffff \<and> refused_ipv4 (g * 2 ^ 16 + i) \<or>
      a = 0 \<and> b = 0 \<and> c = 0 \<and> d = 0 \<and> e = 0 \<and> f = 0 \<and> refused_ipv4 (g * 2 ^ 16 + i) \<or>
      a = 0x2002 \<and> refused_ipv4 (b * 2 ^ 16 + c) \<or>
      a = 0x64 \<and> b = 0xff9b \<and> c = 0 \<and> d = 0 \<and> e = 0 \<and> f = 0 \<and> refused_ipv4 (g * 2 ^ 16 + i)"
    unfolding embedded_private_def h pairs [symmetric]
    by (cases "f = 0xffff"; cases "f = 0"; cases "a = 0x2002"; simp; blast)
  moreover have "replicate 4 0 = [0, 0, 0, 0 :: nat]" "replicate 5 0 = [0, 0, 0, 0, 0 :: nat]"
      "replicate 6 0 = [0, 0, 0, 0, 0, 0 :: nat]" "replicate 7 0 = [0, 0, 0, 0, 0, 0, 0 :: nat]"
      "replicate 8 0 = [0, 0, 0, 0, 0, 0, 0, 0 :: nat]"
    by (simp_all add: numeral_eq_Suc)
  ultimately show ?thesis unfolding refused_ipv6_def h Let_def by simp
qed

subsection \<open>IPv6 texts in hexadecimal\<close>

abbreviation hextet :: "jstr \<Rightarrow> nat" where "hextet \<equiv> based_number hex_digit 16"
abbreviation colons :: "jstr list \<Rightarrow> jstr" where "colons \<equiv> js_join [colon]"

lemma hex_part_chars: "hex_part p \<Longrightarrow> c \<in> set p \<Longrightarrow> c \<noteq> dot \<and> c \<noteq> colon \<and> c \<noteq> 37"
  by (auto simp: hex_part_def list_all_iff hex_digit_def word_le_nat_alt split: if_splits)

lemma hex_part_no [simp]: "hex_part p \<Longrightarrow> dot \<notin> set p" "hex_part p \<Longrightarrow> colon \<notin> set p" "hex_part p \<Longrightarrow> 37 \<notin> set p"
  using hex_part_chars by blast+

lemma colons_chars: "list_all hex_part ts \<Longrightarrow> dot \<notin> set (colons ts) \<and> 37 \<notin> set (colons ts)"
  by (induction ts rule: induct_list012) auto

lemma strip_zone_id: "37 \<notin> set s \<Longrightarrow> strip_zone s = s"
  by (induction s) auto

lemma concat_single: "\<forall>x \<in> set xs. f x = [g x] \<Longrightarrow> concat (map f xs) = map g xs"
  by (induction xs) auto

lemma parse_side_Nil [simp]: "parse_side [] = []"
  by (simp add: parse_side_def)

lemma parse_side_hex: "list_all hex_part ts \<Longrightarrow> parse_side (colons ts) = map (Some \<circ> hextet) ts"
proof (cases "ts = []")
  case False
  assume hex: "list_all hex_part ts"
  have "colons ts \<noteq> []" using False hex by (cases ts rule: remdups_adj.cases) (auto simp: hex_part_def)
  moreover have "js_split colon (colons ts) = ts"
    by (rule js_split_join [OF False]) (use hex in \<open>auto simp: list_all_iff\<close>)
  moreover have "concat (map expand_part ts) = map (\<lambda>t. Some (hextet t)) ts"
    by (rule concat_single) (use hex in \<open>auto simp: expand_part_def list_all_iff\<close>)
  ultimately show ?thesis by (simp add: parse_side_def o_def)
qed simp

text \<open>No two colons side by side.\<close>

fun single_colons :: "jstr \<Rightarrow> bool" where
  "single_colons (c # d # cs) = (\<not> (c = colon \<and> d = colon) \<and> single_colons (d # cs))"
| "single_colons cs = True"

lemma single_colons_append:
  "colon \<notin> set p \<Longrightarrow> single_colons s \<Longrightarrow> single_colons (p @ s)"
proof (induction p)
  case (Cons c p)
  then show ?case by (cases "p @ s") auto
qed simp

lemma single_colons_join: "list_all hex_part ts \<Longrightarrow> single_colons (colons ts)"
proof (induction ts rule: induct_list012)
  case (2 x)
  then show ?case using single_colons_append [of x "[]"] by simp
next
  case (3 x y zs)
  obtain c cs where y: "y = c # cs" using 3 by (cases y) (auto simp: hex_part_def)
  have "c \<noteq> colon" using 3(3) y by (auto dest: hex_part_chars)
  moreover obtain r where r: "colons (y # zs) = c # r" using y by (cases zs) auto
  ultimately have "single_colons (colon # colons (y # zs))" using 3 by simp
  then show ?case using 3(3) by (simp add: single_colons_append)
qed simp

lemma split_dcolon_single: "single_colons s \<Longrightarrow> split_dcolon s = [s]"
  by (induction s rule: split_dcolon.induct) auto

lemma split_dcolon_double:
  "single_colons s \<Longrightarrow> s = [] \<or> last s \<noteq> colon \<Longrightarrow> split_dcolon (s @ colon # colon # t) = s # split_dcolon t"
proof (induction s rule: split_dcolon.induct)
  case (2 c)
  then show ?case by simp
next
  case (3 c d cs)
  then show ?case by simp
qed simp

lemma colons_last: "list_all hex_part ts \<Longrightarrow> colons ts = [] \<or> last (colons ts) \<noteq> colon"
proof (induction ts rule: induct_list012)
  case (2 x)
  then show ?case by (auto dest: hex_part_chars last_in_set)
next
  case (3 x y zs)
  then have "colons (y # zs) \<noteq> []" by (cases zs) (auto simp: hex_part_def)
  then show ?case using 3 by simp
qed simp

lemma hextets_some: "None \<notin> set (map (Some \<circ> f) ts)" "map the (map (Some \<circ> f) ts) = map f ts"
  by auto

lemma expand_full:
  assumes "list_all hex_part ts" "length ts = 8" "lower (colons ts) = colons ts"
  shows "expandIpv6 lower (colons ts) = Some (map hextet ts)"
  using assms colons_chars [OF assms(1)]
  by (simp add: expandIpv6_def strip_zone_id split_dcolon_single single_colons_join parse_side_hex o_def image_iff Let_def)

lemma expand_compressed:
  assumes hex: "list_all hex_part ts" "list_all hex_part us" and len: "length ts + length us \<le> 8"
    and low: "lower (colons ts @ [colon, colon] @ colons us) = colons ts @ [colon, colon] @ colons us"
  shows "expandIpv6 lower (colons ts @ [colon, colon] @ colons us) =
     Some (map hextet ts @ replicate (8 - length ts - length us) 0 @ map hextet us)"
proof -
  have "37 \<notin> set (colons ts @ [colon, colon] @ colons us)" using colons_chars hex by simp
  moreover have "split_dcolon (colons ts @ colon # colon # colons us) = [colons ts, colons us]"
    using split_dcolon_double [OF single_colons_join [OF hex(1)] colons_last [OF hex(1)]] 
      split_dcolon_single [OF single_colons_join [OF hex(2)]] by simp
  ultimately show ?thesis using low len
    by (simp add: expandIpv6_def strip_zone_id parse_side_hex hex o_def image_iff)
qed

text \<open>An address written with hexadecimal parts only, in full or with one \<open>::\<close>.\<close>

definition hex_spelling :: "jstr list \<Rightarrow> jstr list option \<Rightarrow> bool" where
  "hex_spelling ts us \<longleftrightarrow> list_all hex_part ts \<and>
     (case us of None \<Rightarrow> length ts = 8 | Some vs \<Rightarrow> list_all hex_part vs \<and> length ts + length vs \<le> 8)"

definition hex_address :: "jstr list \<Rightarrow> jstr list option \<Rightarrow> jstr" where
  "hex_address ts us = (case us of None \<Rightarrow> colons ts | Some vs \<Rightarrow> colons ts @ [colon, colon] @ colons vs)"

definition hex_hextets :: "jstr list \<Rightarrow> jstr list option \<Rightarrow> nat list" where
  "hex_hextets ts us =
     (case us of
        None \<Rightarrow> map hextet ts
      | Some vs \<Rightarrow> map hextet ts @ replicate (8 - length ts - length vs) 0 @ map hextet vs)"

lemma expand_hex:
  assumes "hex_spelling ts us" "lower (hex_address ts us) = hex_address ts us"
  shows "expandIpv6 lower (hex_address ts us) = Some (hex_hextets ts us)"
proof (cases us)
  case None
  then show ?thesis using assms by (simp add: hex_spelling_def hex_address_def hex_hextets_def expand_full)
next
  case (Some vs)
  then show ?thesis using assms expand_compressed [of ts vs lower]
    by (simp add: hex_spelling_def hex_address_def hex_hextets_def)
qed

lemma hextets_bounds:
  assumes "hex_spelling ts us"
  shows "length (hex_hextets ts us) = 8 \<and> (\<forall>x \<in> set (hex_hextets ts us). x < 2 ^ 16)"
  using assms hextet_less by (cases us) (auto simp: hex_spelling_def hex_hextets_def list_all_iff)

lemma mapped_quad_None: "dot \<notin> set s \<Longrightarrow> mapped_quad s = None"
proof (induction s)
  case (Cons c cs)
  have "dot \<notin> set (drop 7 (c # cs))" using Cons.prems in_set_dropD by fast
  then have "\<not> decimal_quad (drop 7 (c # cs))" by (simp add: decimal_quad_def js_split_no_sep)
  then show ?case using Cons by simp
qed simp

lemma hex_mapped_expand:
  assumes m: "hex_mapped s = Some (hi, lo)" and low: "lower s = s"
  shows "expandIpv6 lower s = Some [0, 0, 0, 0, 0, 0xffff, hi, lo]"
proof -
  obtain h l where hl: "js_split colon (drop 7 s) = [h, l]" "hex_part h" "hex_part l" "hi = hextet h" "lo = hextet l"
    using m by (auto simp: hex_mapped_def split: if_splits list.splits)
  have "length mapped_prefix = 7" by (simp add: mapped_prefix_def js_def)
  then have pre7: "take 7 s = mapped_prefix"
    using m by (simp add: hex_mapped_def js_startsWith_def split: if_splits)
  have "drop 7 s = colons [h, l]" using hl(1) js_join_split by metis
  then have s: "s = mapped_prefix @ colons [h, l]" using pre7 by (metis append_take_drop_id)
  have pre: "mapped_prefix = [colon, colon] @ js ''ffff'' @ [colon]" by (simp add: mapped_prefix_def js_def)
  have spell: "s = colons [] @ [colon, colon] @ colons [js ''ffff'', h, l]" unfolding s pre by simp
  have f: "hex_part (js ''ffff'')" "hextet (js ''ffff'') = 0xffff"
    by (simp_all add: hex_part_def js_def hex_digit_def word_le_nat_alt based_number_def)
  have "expandIpv6 lower s = Some (map hextet [] @ replicate (8 - 0 - 3) 0 @ map hextet [js ''ffff'', h, l])"
    using expand_compressed [of "[]" "[js ''ffff'', h, l]" lower] f(1) hl(2,3) low unfolding spell by simp
  moreover have "replicate 5 0 = [0, 0, 0, 0, 0 :: nat]" by (simp add: numeral_eq_Suc)
  ultimately show ?thesis using f(2) hl(4,5) by simp
qed

text \<open>C36: An IPv6 host written in hexadecimal is judged by its address.  However it is written, in full or
  with one run of zeros left out and with or without leading zeros in its parts, the guard refuses it
  exactly when it is the unspecified or the loopback address, link-local or unique-local, or carries a
  refused IPv4 address as a mapped, compatible, 6to4 or NAT64 address.\<close>

theorem hex_addresses_guarded_exactly:
  assumes spell: "hex_spelling ts us" and low: "lower (hex_address ts us) = hex_address ts us"
  shows "isPrivateIpAddress lower (hex_address ts us) \<longleftrightarrow> refused_ipv6 (hex_hextets ts us)"
proof -
  let ?a = "hex_address ts us" and ?h = "hex_hextets ts us"
  have ex: "expandIpv6 lower ?a = Some ?h" using expand_hex [OF spell, of lower] low by simp
  have refused: "private_hextets ?h \<or> embedded_private ?h \<longleftrightarrow> refused_ipv6 ?h"
    using refused_hextets hextets_bounds [OF spell] by blast
  have colon: "colon \<in> set ?a"
  proof (cases us)
    case None
    then obtain t u us' where "ts = t # u # us'"
      using spell by (auto simp: hex_spelling_def numeral_eq_Suc length_Suc_conv)
    then show ?thesis using None by (simp add: hex_address_def)
  qed (simp add: hex_address_def)
  have "dot \<notin> set ?a" using spell colons_chars
    by (auto simp: hex_spelling_def hex_address_def split: option.splits)
  note quad = mapped_quad_None [OF this]
  show ?thesis
  proof (cases "hex_mapped ?a")
    case None
    then show ?thesis using colon low ex refused quad
      by (simp add: isPrivateIpAddress_def isPrivateIpv6Address_def embeddedPrivateIpv4_def Let_def) blast
  next
    case (Some p)
    obtain hi lo where p: "p = (hi, lo)" by (cases p)
    have "?h = [0, 0, 0, 0, 0, 0xffff, hi, lo]" using hex_mapped_expand [OF Some [unfolded p], of lower] low ex by simp
    then have "embedded_private ?h \<longleftrightarrow> private_ipv4 (ipv4FromHextets hi lo)" by (simp add: embedded_private_def)
    then show ?thesis using colon low ex refused Some p
      by (simp add: isPrivateIpAddress_def isPrivateIpv6Address_def Let_def) blast
  qed
qed

lemma replicate_two: "replicate 2 x = [x, x]"
  by (simp add: numeral_2_eq_2)

lemma hex_addresses_guarded_exactly_witness:
  "isPrivateIpAddress (\<lambda>s. s) (js ''2002:7f00:1::ffff:808:808'')"
proof -
  let ?ts = "[js ''2002'', js ''7f00'', js ''1'']" and ?us = "Some [js ''ffff'', js ''808'', js ''808'']"
  have "hex_spelling ?ts ?us" by (simp add: hex_spelling_def hex_part_def js_def hex_digit_def word_le_nat_alt)
  from hex_addresses_guarded_exactly [OF this, of "\<lambda>s. s"]
  have "isPrivateIpAddress (\<lambda>s. s) (hex_address ?ts ?us) \<longleftrightarrow> refused_ipv6 (hex_hextets ?ts ?us)" by simp
  moreover have "hex_address ?ts ?us = js ''2002:7f00:1::ffff:808:808''" by (simp add: hex_address_def js_def)
  moreover have "hex_hextets ?ts ?us = [0x2002, 0x7f00, 1, 0, 0, 0xffff, 0x808, 0x808]"
    by (simp add: hex_hextets_def js_def hex_digit_def word_le_nat_alt based_number_def replicate_two)
  ultimately show ?thesis
    by (simp add: refused_ipv6_def Let_def refused_ipv4_def refused_networks_def in_network_def)
qed

text \<open>The 6to4 address of 127.0.0.1 with the tail \<open>ffff:8.8.8.8\<close>.\<close>

definition dotted_6to4 :: jstr where
  "dotted_6to4 = colons [js ''2002'', js ''7f00'', js ''1''] @ [colon, colon] @ colons [js ''ffff'', js ''8.8.8.8'']"

lemma hex_demo:
  "hex_part (js ''2002'')" "hextet (js ''2002'') = 0x2002" "hex_part (js ''7f00'')" "hextet (js ''7f00'') = 0x7f00"
  "hex_part (js ''1'')" "hextet (js ''1'') = 1" "hex_part (js ''ffff'')" "hextet (js ''ffff'') = 0xffff"
  by (simp_all add: hex_part_def js_def hex_digit_def word_le_nat_alt based_number_def)

lemma eights: "js ''8.8.8.8'' = quad_text [8, 8, 8, 8]" "js_split dot (js ''8.8.8.8'') = map js_nat [8, 8, 8, 8]"
proof -
  have "js_nat 8 = [56]" by (subst js_nat.simps) simp
  then show "js ''8.8.8.8'' = quad_text [8, 8, 8, 8]" "js_split dot (js ''8.8.8.8'') = map js_nat [8, 8, 8, 8]"
    by (simp_all add: quad_text_def js_def)
qed

lemma expand_dotted_6to4: "expandIpv6 (\<lambda>s. s) dotted_6to4 = Some [0x2002, 0x7f00, 1, 0, 0, 0xffff, 0x808, 0x808]"
proof -
  have pieces: "split_dcolon dotted_6to4 = [colons [js ''2002'', js ''7f00'', js ''1''], colons [js ''ffff'', js ''8.8.8.8'']]"
    by (simp add: dotted_6to4_def js_def)
  have zone: "strip_zone dotted_6to4 = dotted_6to4" by (rule strip_zone_id) (simp add: dotted_6to4_def js_def)
  have left: "parse_side (colons [js ''2002'', js ''7f00'', js ''1'']) = [Some 0x2002, Some 0x7f00, Some 1]"
    using parse_side_hex [of "[js ''2002'', js ''7f00'', js ''1'']"] hex_demo by simp
  have split: "js_split colon (colons [js ''ffff'', js ''8.8.8.8'']) = [js ''ffff'', js ''8.8.8.8'']"
    by (rule js_split_join) (simp_all add: js_def)
  have "expand_part (js ''ffff'') = [Some 0xffff]" using hex_demo by (simp add: expand_part_def)
  moreover have "dot \<in> set (js ''8.8.8.8'')" by (simp add: js_def)
  then have "expand_part (js ''8.8.8.8'') = [Some 0x808, Some 0x808]" using eights(2) by (simp add: expand_part_def)
  moreover have "colons [js ''ffff'', js ''8.8.8.8''] \<noteq> []" by simp
  ultimately have right: "parse_side (colons [js ''ffff'', js ''8.8.8.8'']) = [Some 0xffff, Some 0x808, Some 0x808]"
    unfolding parse_side_def split by simp
  show ?thesis unfolding expandIpv6_def zone pieces
    by (simp add: left right replicate_two Let_def del: js_join.simps)
qed

text \<open>The same address in a dotted spelling passes the guard.  The 6to4 address of 127.0.0.1 with the
  tail \<open>ffff:8.8.8.8\<close> matches the pattern of mapped addresses, which is not anchored at the start: only
  8.8.8.8 is looked at, and the 6to4 part is never checked, although the address expands to hextets that
  are refused when they are written in hexadecimal.\<close>

theorem dotted_tail_hides_6to4:
  "\<not> isPrivateIpAddress (\<lambda>s. s) dotted_6to4 \<and>
   (case expandIpv6 (\<lambda>s. s) dotted_6to4 of None \<Rightarrow> False | Some h \<Rightarrow> refused_ipv6 h)"
proof -
  have "hex_mapped dotted_6to4 = None"
    by (simp add: hex_mapped_def dotted_6to4_def mapped_prefix_def js_startsWith_def js_def)
  moreover have "mapped_quad dotted_6to4 = Some (js ''8.8.8.8'')"
    by (simp add: dotted_6to4_def mapped_prefix_def js_startsWith_def js_def decimal_quad_def js_digit_def word_le_nat_alt)
  moreover have "colon \<in> set dotted_6to4" by (simp add: dotted_6to4_def)
  moreover have "\<not> private_ipv4 (js ''8.8.8.8'')"
    unfolding eights(1) using private_quad [of 8 8 8 8] by (simp add: private_octets_def)
  moreover have "\<not> private_hextets [0x2002, 0x7f00, 1, 0, 0, 0xffff, 0x808, 0x808]"
    using masks(1) [where h = "0x2002"] masks(2) [where h = "0x2002"] by (simp add: private_hextets_def)
  moreover have "refused_ipv6 [0x2002, 0x7f00, 1, 0, 0, 0xffff, 0x808, 0x808]"
    by (simp add: refused_ipv6_def Let_def refused_ipv4_def refused_networks_def in_network_def)
  ultimately show ?thesis
    by (simp add: isPrivateIpAddress_def isPrivateIpv6Address_def expand_dotted_6to4)
qed

end
