(* ===== verification/Url_Fetch.thy ===== *)
theory Url_Fetch
  imports Url_Guards
begin

text \<open>
  Loading a page behind the address guard: \<open>assertSafeFetchUrl\<close>, \<open>readResponseTextWithLimit\<close> and \<open>loadPage\<close> of
  \<open>packages/coding-agent/src/core/tools/fetch-url.ts\<close>.  The \<open>URL\<close> class, the resolver, the network and the
  decoder are parameters, gathered in one record; an aborted or failed request has no response.
\<close>

subsection \<open>Normalising a URL\<close>

definition ascii_letter :: "code_unit \<Rightarrow> bool" where
  "ascii_letter c \<longleftrightarrow> 65 \<le> c \<and> c \<le> 90 \<or> 97 \<le> c \<and> c \<le> 122"

definition lower_ascii :: "code_unit \<Rightarrow> code_unit" where
  "lower_ascii c = (if 65 \<le> c \<and> c \<le> 90 then c + 32 else c)"

text \<open>\<open>/^(https?):\/([^/])/i\<close>: the length of \<open>$1:/\<close>, when it matches.\<close>

definition collapsed_scheme :: "jstr \<Rightarrow> nat option" where
  "collapsed_scheme url =
     (let matches = (\<lambda>p. map lower_ascii (take (length p) url) = p \<and>
                          (case drop (length p) url of [] \<Rightarrow> False | c # _ \<Rightarrow> c \<noteq> 47))
      in if matches (js ''https:/'') then Some 7 else if matches (js ''http:/'') then Some 6 else None)"

definition repairCollapsedScheme :: "jstr \<Rightarrow> jstr" where
  "repairCollapsedScheme url =
     (case collapsed_scheme url of None \<Rightarrow> url | Some n \<Rightarrow> take n url @ js ''/'' @ drop n url)"

definition has_scheme :: "jstr \<Rightarrow> bool" where
  "has_scheme url \<longleftrightarrow>
     url \<noteq> [] \<and> ascii_letter (hd url) \<and>
     js_startsWith (dropWhile (\<lambda>c. ascii_letter c \<or> js_digit c \<or> c \<in> set (js ''+.-'')) url) (js ''://'')"

definition normalizeUrlForCache :: "jstr \<Rightarrow> jstr" where
  "normalizeUrlForCache url =
     (let repaired = repairCollapsedScheme url
      in if has_scheme repaired then repaired else js ''https://'' @ repaired)"

subsection \<open>The surroundings\<close>

record url_parts =
  up_protocol :: jstr
  up_hostname :: jstr

record safe_address =
  sa_address :: jstr
  sa_family :: nat
  sa_pinned :: bool

record fetch_response =
  rs_status :: nat
  rs_location :: "jstr option"
  rs_contentLength :: "jstr option"
  rs_contentType :: "jstr option"
  rs_url :: jstr
  rs_body :: "8 word list list option"
  rs_buffer :: "8 word list"

text \<open>\<open>new URL(u)\<close>, \<open>new URL(l, u).href\<close>, \<open>lookup\<close> and the request at the n-th hop, and the decoder.\<close>

record fetch_env =
  fe_url :: "jstr \<Rightarrow> url_parts option"
  fe_join :: "jstr \<Rightarrow> jstr \<Rightarrow> jstr option"
  fe_lower :: "jstr \<Rightarrow> jstr"
  fe_isIP :: "jstr \<Rightarrow> bool"
  fe_lookup :: "nat \<Rightarrow> jstr \<Rightarrow> (jstr \<times> nat) list option"
  fe_respond :: "nat \<Rightarrow> jstr \<Rightarrow> safe_address option \<Rightarrow> fetch_response option"
  fe_decode :: "8 word list \<Rightarrow> jstr"
  fe_allowPrivate :: bool

datatype fetch_failure =
  InvalidUrl | UnsupportedProtocol jstr | RefusedUrl jstr | NumberOutOfRange | Unresolved jstr | NoAddresses jstr
  | RequestFailed | ResponseTooLarge | TooManyRedirects jstr

record loaded_page =
  lp_ok :: bool
  lp_status :: nat
  lp_content :: jstr
  lp_contentType :: jstr
  lp_finalUrl :: jstr

definition MAX_URL_REDIRECTS :: nat where "MAX_URL_REDIRECTS = 5"
definition MAX_URL_RESPONSE_BYTES :: nat where "MAX_URL_RESPONSE_BYTES = 10 * 1024 * 1024"

subsection \<open>The check before each request\<close>

definition clean_hostname :: "(jstr \<Rightarrow> jstr) \<Rightarrow> jstr \<Rightarrow> jstr" where
  "clean_hostname lower h =
     (let h = (if h \<noteq> [] \<and> hd h = 91 then tl h else h);
          h = (if h \<noteq> [] \<and> last h = 93 then butlast h else h);
          h = (if h \<noteq> [] \<and> last h = dot then butlast h else h)
      in lower h)"

definition js_endsWith :: "jstr \<Rightarrow> jstr \<Rightarrow> bool" where
  "js_endsWith s p \<longleftrightarrow> length p \<le> length s \<and> drop (length s - length p) s = p"

definition refused_name :: "jstr \<Rightarrow> bool" where
  "refused_name h \<longleftrightarrow> h = js ''localhost'' \<or> js_endsWith h (js ''.localhost'') \<or> h = js ''metadata.google.internal''"

definition assertSafeFetchUrl :: "fetch_env \<Rightarrow> nat \<Rightarrow> jstr \<Rightarrow> fetch_failure + safe_address option" where
  "assertSafeFetchUrl env hop url =
     (case fe_url env url of
        None \<Rightarrow> Inl InvalidUrl
      | Some parsed \<Rightarrow>
          (if up_protocol parsed \<notin> {js ''http:'', js ''https:''} then Inl (UnsupportedProtocol (up_protocol parsed))
           else if fe_allowPrivate env then Inr None
           else (let hostname = clean_hostname (fe_lower env) (up_hostname parsed)
                 in if refused_name hostname then Inl (RefusedUrl url)
                    else (case normalizeIpLiteralHost (fe_isIP env) hostname of
                            Inl _ \<Rightarrow> Inl NumberOutOfRange
                          | Inr (Some (c # cs)) \<Rightarrow>
                              (if isPrivateIpAddress (fe_lower env) (c # cs) then Inl (RefusedUrl url)
                               else Inr (Some \<lparr>sa_address = c # cs, sa_family = ipFamily (c # cs), sa_pinned = False\<rparr>))
                          | Inr _ \<Rightarrow>
                              (case fe_lookup env hop hostname of
                                 None \<Rightarrow> Inl (Unresolved hostname)
                               | Some [] \<Rightarrow> Inl (NoAddresses hostname)
                               | Some (a # as) \<Rightarrow>
                                   (if list_ex (\<lambda>(x, f). isPrivateIpAddress (fe_lower env) x) (a # as)
                                    then Inl (RefusedUrl url)
                                    else Inr (Some \<lparr>sa_address = fst a, sa_family = (if snd a = 6 then 6 else 4),
                                                    sa_pinned = True\<rparr>)))))))"

subsection \<open>Reading the body\<close>

text \<open>The chunks that are read until the limit is passed; \<open>None\<close> when it is.\<close>

fun read_chunks_limit :: "nat \<Rightarrow> nat \<Rightarrow> 8 word list list \<Rightarrow> 8 word list option" where
  "read_chunks_limit limit got [] = Some []"
| "read_chunks_limit limit got (c # cs) =
     (let got = got + length c
      in if limit < got then None else map_option ((@) c) (read_chunks_limit limit got cs))"

definition readResponseTextWithLimit :: "fetch_env \<Rightarrow> fetch_response \<Rightarrow> jstr option" where
  "readResponseTextWithLimit env r =
     map_option (fe_decode env)
       (case rs_body r of
          None \<Rightarrow> (if MAX_URL_RESPONSE_BYTES < length (rs_buffer r) then None else Some (rs_buffer r))
        | Some chunks \<Rightarrow> read_chunks_limit MAX_URL_RESPONSE_BYTES 0 chunks)"

subsection \<open>Following redirects\<close>

definition text_or :: "jstr option \<Rightarrow> jstr \<Rightarrow> jstr" where
  "text_or v d = (case v of None \<Rightarrow> d | Some s \<Rightarrow> s)"

definition redirects_to :: "fetch_response \<Rightarrow> jstr option" where
  "redirects_to r =
     (if 300 \<le> rs_status r \<and> rs_status r < 400 \<and> rs_location r \<noteq> Some [] then rs_location r else None)"

definition page_of :: "fetch_env \<Rightarrow> jstr \<Rightarrow> fetch_response \<Rightarrow> fetch_failure + loaded_page" where
  "page_of env url r =
     (let declared = parse_int10 (text_or (rs_contentLength r) (js ''0''))
      in if (case declared of None \<Rightarrow> False | Some n \<Rightarrow> int MAX_URL_RESPONSE_BYTES < n) then Inl ResponseTooLarge
         else (case readResponseTextWithLimit env r of
                 None \<Rightarrow> Inl ResponseTooLarge
               | Some content \<Rightarrow>
                   Inr \<lparr>lp_ok = (200 \<le> rs_status r \<and> rs_status r < 300), lp_status = rs_status r, lp_content = content,
                        lp_contentType = text_or (rs_contentType r) [],
                        lp_finalUrl = (if rs_url r = [] then url else rs_url r)\<rparr>))"

text \<open>The requests that are made, each with the address it was allowed for, and the result.\<close>

fun load_loop ::
  "fetch_env \<Rightarrow> jstr \<Rightarrow> nat \<Rightarrow> nat \<Rightarrow> jstr \<Rightarrow> (jstr \<times> safe_address option) list \<times> (fetch_failure + loaded_page)" where
  "load_loop env original 0 hop url = ([], Inl (TooManyRedirects original))"
| "load_loop env original (Suc left) hop url =
     (case assertSafeFetchUrl env hop url of
        Inl e \<Rightarrow> ([], Inl e)
      | Inr address \<Rightarrow>
          (case fe_respond env hop url address of
             None \<Rightarrow> ([(url, address)], Inl RequestFailed)
           | Some r \<Rightarrow>
               (case redirects_to r of
                  None \<Rightarrow> ([(url, address)], page_of env url r)
                | Some location \<Rightarrow>
                    (case fe_join env location url of
                       None \<Rightarrow> ([(url, address)], Inl InvalidUrl)
                     | Some url' \<Rightarrow>
                         (case load_loop env original left (Suc hop) url' of
                            (requests, res) \<Rightarrow> ((url, address) # requests, res))))))"

definition loadPage :: "fetch_env \<Rightarrow> jstr \<Rightarrow> (jstr \<times> safe_address option) list \<times> (fetch_failure + loaded_page)" where
  "loadPage env url =
     (let url = normalizeUrlForCache url in load_loop env url (MAX_URL_REDIRECTS + 1) 0 url)"

subsection \<open>What is requested\<close>

text \<open>A request is admissible: HTTP, and either private reads are allowed, or it goes to a public address,
  which is the address the host itself spells or one the resolver gave for it.\<close>

definition admissible :: "fetch_env \<Rightarrow> jstr \<times> safe_address option \<Rightarrow> bool" where
  "admissible env request =
     (case fe_url env (fst request) of
        None \<Rightarrow> False
      | Some parts \<Rightarrow>
          up_protocol parts \<in> {js ''http:'', js ''https:''} \<and>
          (case snd request of
             None \<Rightarrow> fe_allowPrivate env
           | Some a \<Rightarrow>
               (let host = clean_hostname (fe_lower env) (up_hostname parts)
                in \<not> refused_name host \<and> \<not> isPrivateIpAddress (fe_lower env) (sa_address a) \<and>
                   (if sa_pinned a then (\<exists>hop as. fe_lookup env hop host = Some as \<and> sa_address a \<in> fst ` set as)
                    else normalizeIpLiteralHost (fe_isIP env) host = Inr (Some (sa_address a))))))"

lemma checked_admissible:
  assumes "assertSafeFetchUrl env hop url = Inr a"
  shows "admissible env (url, a)"
proof -
  obtain parts where p: "fe_url env url = Some parts" "up_protocol parts \<in> {js ''http:'', js ''https:''}"
    using assms by (auto simp: assertSafeFetchUrl_def split: option.splits if_splits)
  let ?h = "clean_hostname (fe_lower env) (up_hostname parts)"
  show ?thesis
  proof (cases "fe_allowPrivate env")
    case True
    then show ?thesis using assms p by (auto simp: assertSafeFetchUrl_def admissible_def)
  next
    case False
    then have name: "\<not> refused_name ?h" using assms p by (auto simp: assertSafeFetchUrl_def Let_def)
    show ?thesis
    proof (cases "\<exists>c cs. normalizeIpLiteralHost (fe_isIP env) ?h = Inr (Some (c # cs))")
      case True
      then obtain c cs where "normalizeIpLiteralHost (fe_isIP env) ?h = Inr (Some (c # cs))" by blast
      then show ?thesis using assms p False name
        by (auto simp: assertSafeFetchUrl_def admissible_def Let_def split: if_splits)
    next
      case no: False
      then have look: "case fe_lookup env hop ?h of
          Some (x # xs) \<Rightarrow> \<not> list_ex (\<lambda>(x, f). isPrivateIpAddress (fe_lower env) x) (x # xs) \<and>
            a = Some \<lparr>sa_address = fst x, sa_family = (if snd x = 6 then 6 else 4), sa_pinned = True\<rparr>
        | _ \<Rightarrow> False"
        using assms p False name
        by (auto simp: assertSafeFetchUrl_def Let_def split: sum.splits option.splits list.splits if_splits)
      then obtain x xs where x: "fe_lookup env hop ?h = Some (x # xs)"
        by (auto split: option.splits list.splits)
      then have "\<not> isPrivateIpAddress (fe_lower env) (fst x)"
          "a = Some \<lparr>sa_address = fst x, sa_family = (if snd x = 6 then 6 else 4), sa_pinned = True\<rparr>"
        using look by (auto simp: case_prod_beta)
      then show ?thesis using p name x by (force simp: admissible_def Let_def)
    qed
  qed
qed

lemma loop_admissible:
  "load_loop env original left hop url = (requests, res) \<Longrightarrow> length requests \<le> left \<and> list_all (admissible env) requests"
proof (induction left arbitrary: hop url requests)
  case (Suc left)
  show ?case
  proof (cases "assertSafeFetchUrl env hop url")
    case (Inl e)
    then show ?thesis using Suc.prems by auto
  next
    case (Inr a)
    note adm = checked_admissible [OF Inr]
    obtain t where "requests = [(url, a)] \<or>
        (requests = (url, a) # t \<and> (\<exists>url'. load_loop env original left (Suc hop) url' = (t, res)))"
      using Suc.prems Inr by (auto split: option.splits prod.splits)
    then show ?thesis using adm Suc.IH by auto
  qed
qed simp

lemma read_chunks_limit_le:
  "read_chunks_limit limit got cs = Some bs \<Longrightarrow> got \<le> limit \<Longrightarrow> got + length bs \<le> limit \<and> bs = concat cs"
  by (induction cs arbitrary: got bs) (auto simp: Let_def split: if_splits, fastforce+)


end
