(* ===== verification/Llm_Messages.thy ===== *)
theory Llm_Messages
  imports Json
begin

text \<open>
  The messages of the coding agent (\<open>packages/coding-agent/src/core/messages.ts\<close>): what of a message a
  provider sees, the conversion of a transcript to provider messages, and the repair of the pairing
  between tool calls and tool results.  A message is the JSON object the session file holds, since
  the code guards against contents that do not have their declared type.  The text of a number
  (\<open>num_text\<close>) is a parameter.
\<close>

subsection \<open>Roles and contents\<close>

abbreviation has_role :: "json \<Rightarrow> string \<Rightarrow> bool" where
  "has_role m r \<equiv> jfield m ''role'' = Some (JStr (js r))"

abbreviation has_type :: "json \<Rightarrow> string \<Rightarrow> bool" where
  "has_type b t \<equiv> jfield b ''type'' = Some (JStr (js t))"

definition normalizeMessageContent :: "json \<Rightarrow> json" where
  "normalizeMessageContent m =
     (if (has_role m ''user'' \<or> has_role m ''assistant'' \<or> has_role m ''toolResult'' \<or> has_role m ''custom'') \<and>
         nullish (jfield m ''content'')
      then jput ''content'' (JArr []) m else m)"

text \<open>A string with something other than white space.\<close>

definition visible_text :: "json option \<Rightarrow> bool" where
  "visible_text v = (case jstring v of None \<Rightarrow> False | Some s \<Rightarrow> js_trim s \<noteq> [])"

definition userLikeContentBlockIsLlmVisible :: "json \<Rightarrow> bool" where
  "userLikeContentBlockIsLlmVisible b \<longleftrightarrow>
     is_object b \<and>
     (if has_type b ''image'' then True
      else if has_type b ''text'' then visible_text (jfield b ''text'')
      else visible_text (jfield b ''type''))"

definition userLikeContentIsLlmVisible :: "json option \<Rightarrow> nat list \<Rightarrow> bool" where
  "userLikeContentIsLlmVisible content deleted =
     (case content of
        Some (JStr s) \<Rightarrow> js_trim s \<noteq> []
      | Some (JArr bs) \<Rightarrow>
          list_ex (\<lambda>(b, i). i \<notin> set deleted \<and> userLikeContentBlockIsLlmVisible b) (zip bs [0..<length bs])
      | _ \<Rightarrow> False)"

definition not_excluded :: "json \<Rightarrow> bool" where
  "not_excluded m \<longleftrightarrow> jfield m ''excludeFromContext'' \<noteq> Some (JBool True)"

definition messageStartsLlmUserTurn :: "json \<Rightarrow> nat list \<Rightarrow> bool" where
  "messageStartsLlmUserTurn m deleted =
     (if has_role m ''user'' then userLikeContentIsLlmVisible (jfield m ''content'') deleted
      else if has_role m ''custom''
      then not_excluded m \<and> userLikeContentIsLlmVisible (jfield m ''content'') deleted
      else if has_role m ''branchSummary'' then truthy_string (jstring (jfield m ''summary''))
      else if has_role m ''bashExecution'' then not_excluded m
      else False)"

definition messageIsLlmVisible :: "json \<Rightarrow> nat list \<Rightarrow> bool" where
  "messageIsLlmVisible m deleted \<longleftrightarrow>
     has_role m ''assistant'' \<or> has_role m ''toolResult'' \<or> messageStartsLlmUserTurn m deleted"

definition filterUserLikeContentBlocks :: "json list \<Rightarrow> json list" where
  "filterUserLikeContentBlocks bs = filter userLikeContentBlockIsLlmVisible bs"

definition redacted_block :: "json \<Rightarrow> json" where
  "redacted_block b =
     (if is_object b \<and> has_type b ''redacted_thinking'' then
        (case jstring (jfield b ''data'') of
           None \<Rightarrow> b
         | Some d \<Rightarrow> jobj [(''type'', Some (JStr (js ''thinking''))), (''thinking'', Some (JStr [])),
                          (''thinkingSignature'', Some (JStr d)), (''redacted'', Some (JBool True))])
      else b)"

definition normalizeRawRedactedThinking :: "json \<Rightarrow> json" where
  "normalizeRawRedactedThinking m =
     (case jfield m ''content'' of
        Some (JArr bs) \<Rightarrow>
          (if has_role m ''assistant'' \<and> map redacted_block bs \<noteq> bs
           then jput ''content'' (JArr (map redacted_block bs)) m else m)
      | _ \<Rightarrow> m)"

subsection \<open>Shell executions and branch summaries\<close>

text \<open>A template's \<open>${m.name}\<close>, for a property that is a string.\<close>

definition string_field :: "json \<Rightarrow> string \<Rightarrow> jstr" where
  "string_field m name = (case jstring (jfield m name) of None \<Rightarrow> js ''undefined'' | Some s \<Rightarrow> s)"

definition exit_note :: "(js_num \<Rightarrow> jstr) \<Rightarrow> json \<Rightarrow> jstr" where
  "exit_note num_text m =
     (if jfield m ''cancelled'' = Some (JBool True) then [js_LF, js_LF] @ js ''(command cancelled)''
      else (case jnumber (jfield m ''exitCode'') of
              None \<Rightarrow> []
            | Some n \<Rightarrow> (if n = JFinite 0 then []
                         else [js_LF, js_LF] @ js ''Command exited with code '' @ num_text n)))"

definition bashExecutionToText :: "(js_num \<Rightarrow> jstr) \<Rightarrow> json \<Rightarrow> jstr" where
  "bashExecutionToText num_text m =
     js ''Ran `'' @ string_field m ''command'' @ js ''`'' @ [js_LF] @
     (if truthy_string (jstring (jfield m ''output''))
      then js ''```'' @ [js_LF] @ string_field m ''output'' @ [js_LF] @ js ''```'' else js ''(no output)'') @
     exit_note num_text m @
     (if jfield m ''truncated'' = Some (JBool True) \<and> truthy_string (jstring (jfield m ''fullOutputPath''))
      then [js_LF, js_LF] @ js ''[Output truncated. Full output: '' @ string_field m ''fullOutputPath'' @ js '']''
      else [])"

definition BRANCH_SUMMARY_PREFIX :: jstr where
  "BRANCH_SUMMARY_PREFIX =
     js ''The following is a summary of a branch that this conversation came back from:'' @
     [js_LF, js_LF] @ js ''<summary>'' @ [js_LF]"

definition BRANCH_SUMMARY_SUFFIX :: jstr where
  "BRANCH_SUMMARY_SUFFIX = js ''</summary>''"

subsection \<open>Tool calls and their results\<close>

definition tool_call :: "json \<Rightarrow> (jstr \<times> jstr) option" where
  "tool_call b =
     (if is_object b \<and> has_type b ''toolCall'' then
        (case jstring (jfield b ''id'') of
           None \<Rightarrow> None
         | Some i \<Rightarrow> map_option (\<lambda>n. (i, n)) (jstring (jfield b ''name'')))
      else None)"

definition collectAssistantToolCalls :: "json \<Rightarrow> (jstr \<times> jstr) list" where
  "collectAssistantToolCalls m =
     (case jfield m ''content'' of Some (JArr bs) \<Rightarrow> List.map_filter tool_call bs | _ \<Rightarrow> [])"

definition getToolResultCallId :: "json \<Rightarrow> jstr option" where
  "getToolResultCallId m = (if has_role m ''toolResult'' then jstring (jfield m ''toolCallId'') else None)"

definition text_block :: "jstr \<Rightarrow> json" where
  "text_block s = jobj [(''type'', Some (JStr (js ''text''))), (''text'', Some (JStr s))]"

definition interrupted_text :: jstr where
  "interrupted_text =
     js ''Tool execution was interrupted after it started; its result is unavailable. '' @
     js ''Inspect side effects before deciding whether to retry it.''"

definition interrupted_result :: "json option \<Rightarrow> jstr \<times> jstr \<Rightarrow> json" where
  "interrupted_result time c =
     jobj [(''role'', Some (JStr (js ''toolResult''))), (''toolCallId'', Some (JStr (fst c))),
           (''toolName'', Some (JStr (snd c))), (''content'', Some (JArr [text_block interrupted_text])),
           (''isError'', Some (JBool True)), (''timestamp'', time)]"

text \<open>The variables of the repair loop.\<close>

record repair =
  rp_allowed :: "jstr list option"
  rp_answered :: "jstr list option"
  rp_calls :: "(jstr \<times> jstr) list"
  rp_time :: "json option"
  rp_changed :: bool
  rp_out :: "json list"

definition repair_start :: repair where
  "repair_start = \<lparr>rp_allowed = None, rp_answered = None, rp_calls = [], rp_time = Some (JNum (JFinite 0)),
                   rp_changed = False, rp_out = []\<rparr>"

definition flushUnanswered :: "repair \<Rightarrow> repair" where
  "flushUnanswered s =
     (let unanswered = filter (\<lambda>c. \<not> (case rp_answered s of None \<Rightarrow> False | Some a \<Rightarrow> fst c \<in> set a)) (rp_calls s)
      in s\<lparr>rp_out := rp_out s @ map (interrupted_result (rp_time s)) unanswered,
           rp_changed := (rp_changed s \<or> unanswered \<noteq> []),
           rp_allowed := None, rp_answered := None, rp_calls := []\<rparr>)"

definition answers :: "repair \<Rightarrow> json \<Rightarrow> jstr option" where
  "answers s m =
     (case (getToolResultCallId m, rp_allowed s, rp_answered s) of
        (Some i, Some al, Some an) \<Rightarrow> (if i \<noteq> [] \<and> i \<in> set al \<and> i \<notin> set an then Some i else None)
      | _ \<Rightarrow> None)"

definition repair_step :: "json \<Rightarrow> repair \<Rightarrow> repair" where
  "repair_step m s =
     (if has_role m ''assistant'' then
        (let s = flushUnanswered s; announced = collectAssistantToolCalls m
         in s\<lparr>rp_calls := (if jfield m ''stopReason'' = Some (JStr (js ''toolUse'')) then announced else []),
              rp_allowed := Some (map fst announced), rp_answered := Some [],
              rp_time := jfield m ''timestamp'', rp_out := rp_out s @ [m]\<rparr>)
      else if has_role m ''toolResult'' then
        (case answers s m of
           Some i \<Rightarrow> s\<lparr>rp_answered := map_option (\<lambda>a. a @ [i]) (rp_answered s), rp_out := rp_out s @ [m]\<rparr>
         | None \<Rightarrow> s\<lparr>rp_changed := True\<rparr>)
      else (let s = flushUnanswered s in s\<lparr>rp_out := rp_out s @ [m]\<rparr>))"

definition repairOrphanToolResults :: "bool \<Rightarrow> json list \<Rightarrow> json list" where
  "repairOrphanToolResults repairTrailing ms =
     (let s = fold repair_step ms repair_start;
          s = (if repairTrailing then flushUnanswered s else s)
      in if rp_changed s then rp_out s else ms)"

subsection \<open>Conversion to provider messages\<close>

definition user_message :: "json list \<Rightarrow> json option \<Rightarrow> json" where
  "user_message blocks time =
     jobj [(''role'', Some (JStr (js ''user''))), (''content'', Some (JArr blocks)), (''timestamp'', time)]"

definition provider_message :: "(js_num \<Rightarrow> jstr) \<Rightarrow> json \<Rightarrow> json option" where
  "provider_message num_text raw =
     (let m = normalizeRawRedactedThinking (normalizeMessageContent raw);
          time = jfield m ''timestamp''
      in if has_role m ''bashExecution'' then
           (if messageStartsLlmUserTurn m []
            then Some (user_message [text_block (bashExecutionToText num_text m)] time) else None)
         else if has_role m ''custom'' then
           (if messageStartsLlmUserTurn m []
            then Some (user_message
                   (case jfield m ''content'' of
                      Some (JStr s) \<Rightarrow> [text_block s]
                    | Some (JArr bs) \<Rightarrow> filterUserLikeContentBlocks bs
                    | _ \<Rightarrow> []) time)
            else None)
         else if has_role m ''branchSummary'' then
           (if messageStartsLlmUserTurn m []
            then Some (user_message
                   [text_block (BRANCH_SUMMARY_PREFIX @ string_field m ''summary'' @ BRANCH_SUMMARY_SUFFIX)] time)
            else None)
         else if has_role m ''user'' then
           (if messageStartsLlmUserTurn m []
            then Some (case jfield m ''content'' of
                         Some (JArr bs) \<Rightarrow> jput ''content'' (JArr (filterUserLikeContentBlocks bs)) m
                       | _ \<Rightarrow> m)
            else None)
         else if has_role m ''assistant'' \<or> has_role m ''toolResult'' then Some m
         else None)"

definition convertToLlm :: "(js_num \<Rightarrow> jstr) \<Rightarrow> json list \<Rightarrow> json list" where
  "convertToLlm num_text ms = repairOrphanToolResults False (List.map_filter (provider_message num_text) ms)"

subsection \<open>The repair, turn by turn\<close>

abbreviation is_assistant :: "json \<Rightarrow> bool" where "is_assistant m \<equiv> has_role m ''assistant''"
abbreviation is_result :: "json \<Rightarrow> bool" where "is_result m \<equiv> has_role m ''toolResult''"

abbreviation announced :: "json \<Rightarrow> jstr list" where
  "announced m \<equiv> map fst (collectAssistantToolCalls m)"

text \<open>The calls that were admitted to run, and the ids that a run of results answers.\<close>

definition admitted :: "json \<Rightarrow> (jstr \<times> jstr) list" where
  "admitted m =
     (if jfield m ''stopReason'' = Some (JStr (js ''toolUse'')) then collectAssistantToolCalls m else [])"

definition result_ids :: "json list \<Rightarrow> jstr list" where
  "result_ids rs = List.map_filter getToolResultCallId rs"

text \<open>The first result of each announced call.\<close>

fun kept_results :: "jstr list \<Rightarrow> jstr list \<Rightarrow> json list \<Rightarrow> json list" where
  "kept_results al an [] = []"
| "kept_results al an (r # rs) =
     (case getToolResultCallId r of
        None \<Rightarrow> kept_results al an rs
      | Some i \<Rightarrow> (if i \<noteq> [] \<and> i \<in> set al \<and> i \<notin> set an then r # kept_results al (an @ [i]) rs
                   else kept_results al an rs))"

definition missing_results :: "json \<Rightarrow> json list \<Rightarrow> json list" where
  "missing_results m rs =
     map (interrupted_result (jfield m ''timestamp'')) (filter (\<lambda>c. fst c \<notin> set (result_ids rs)) (admitted m))"

text \<open>The repaired transcript, written per turn: a message that is not a result, and the results after it.\<close>

function repaired :: "bool \<Rightarrow> json list \<Rightarrow> json list" where
  "repaired t [] = []"
| "repaired t (m # ms) =
     (let rs = takeWhile (\<lambda>m. is_result m) ms; rest = dropWhile (\<lambda>m. is_result m) ms;
          ks = kept_results (announced m) [] rs
      in if is_result m then repaired t ms
         else m # (if is_assistant m then ks @ (if rest = [] \<and> \<not> t then [] else missing_results m ks) else []) @
              repaired t rest)"
  by pat_completeness auto
termination
  by (relation "measure (\<lambda>(t, ms). length ms)") (auto simp: less_Suc_eq_le length_dropWhile_le)

text \<open>
  What a provider requires: every result stands behind the message that announced its call, once,
  and a turn that used tools is answered before the next turn begins (with \<open>t\<close>, also the last one).
\<close>

function well_paired :: "bool \<Rightarrow> json list \<Rightarrow> bool" where
  "well_paired t [] \<longleftrightarrow> True"
| "well_paired t (m # ms) \<longleftrightarrow>
     \<not> is_result m \<and>
     (let rs = takeWhile (\<lambda>m. is_result m) ms; rest = dropWhile (\<lambda>m. is_result m) ms
      in (if is_assistant m
          then list_all (\<lambda>r. \<exists>i \<in> set (announced m). getToolResultCallId r = Some i) rs \<and> distinct (result_ids rs) \<and>
               (if rest = [] \<and> \<not> t then True else set (map fst (admitted m)) \<subseteq> set (result_ids rs))
          else rs = []) \<and>
         well_paired t rest)"
  by pat_completeness auto
termination
  by (relation "measure (\<lambda>(t, ms). length ms)") (auto simp: less_Suc_eq_le length_dropWhile_le)

lemma result_ids_simps [simp]:
  "result_ids [] = []"
  "result_ids (r # rs) = (case getToolResultCallId r of None \<Rightarrow> result_ids rs | Some i \<Rightarrow> i # result_ids rs)"
  "result_ids (xs @ ys) = result_ids xs @ result_ids ys"
  by (simp_all add: result_ids_def map_filter_def split: option.splits)

text \<open>A run of results, inside a turn and outside of one.\<close>

lemma step_result:
  "is_result r \<Longrightarrow> repair_step r s =
     (case answers s r of Some i \<Rightarrow> s\<lparr>rp_answered := map_option (\<lambda>a. a @ [i]) (rp_answered s), rp_out := rp_out s @ [r]\<rparr>
      | None \<Rightarrow> s\<lparr>rp_changed := True\<rparr>)"
  by (simp add: repair_step_def)

lemma fold_results_outside:
  "list_all (\<lambda>m. is_result m) rs \<Longrightarrow> rp_allowed s = None \<Longrightarrow>
   fold repair_step rs s = s\<lparr>rp_changed := (rp_changed s \<or> rs \<noteq> [])\<rparr>"
proof (induction rs arbitrary: s)
  case (Cons r rs)
  then have "answers s r = None" by (simp add: answers_def split: option.splits)
  then show ?case using Cons by (simp add: step_result)
qed simp

lemma fold_results_inside:
  "list_all (\<lambda>m. is_result m) rs \<Longrightarrow> rp_allowed s = Some al \<Longrightarrow> rp_answered s = Some an \<Longrightarrow>
   fold repair_step rs s =
     (let ks = kept_results al an rs
      in s\<lparr>rp_answered := Some (an @ result_ids ks), rp_changed := (rp_changed s \<or> ks \<noteq> rs), rp_out := rp_out s @ ks\<rparr>)"
proof (induction rs arbitrary: s an)
  case (Cons r rs)
  have len: "length (kept_results al an rs) \<le> length rs" for an
    by (induction rs arbitrary: an) (auto split: option.splits simp: le_SucI)
  then have ne: "kept_results al an rs \<noteq> r # rs" for an
    by (metis Suc_n_not_le_n length_Cons)
  show ?case
  proof (cases "answers s r")
    case None
    then have "kept_results al an (r # rs) = kept_results al an rs"
      using Cons.prems by (auto simp: answers_def split: option.splits if_splits)
    then show ?thesis
      using Cons.prems None ne by (simp add: step_result Cons.IH Let_def)
  next
    case (Some i)
    then have "getToolResultCallId r = Some i" and
      "kept_results al an (r # rs) = r # kept_results al (an @ [i]) rs"
      using Cons.prems by (auto simp: answers_def split: option.splits if_splits)
    then show ?thesis
      using Cons.prems Some by (simp add: step_result Cons.IH [where an = "an @ [i]"] Let_def)
  qed
qed (simp add: Let_def)

text \<open>Between two turns nothing is pending.\<close>

definition between_turns :: "repair \<Rightarrow> bool" where
  "between_turns s \<longleftrightarrow> rp_allowed s = None \<and> rp_answered s = None \<and> rp_calls s = []"

lemma flush_between [simp]: "between_turns s \<Longrightarrow> flushUnanswered s = s"
  by (simp add: flushUnanswered_def between_turns_def)

lemma between_flush [simp]: "between_turns (flushUnanswered s)"
  by (simp add: flushUnanswered_def between_turns_def Let_def)

lemma between_start [simp]: "between_turns repair_start"
  by (simp add: between_turns_def repair_start_def)

lemma flush_flush [simp]: "flushUnanswered (flushUnanswered s) = flushUnanswered s"
  by (rule flush_between) simp

lemma step_after_flush:
  "\<not> is_result m \<Longrightarrow> repair_step m (flushUnanswered s) = repair_step m s"
  by (simp add: repair_step_def)

lemma fold_after_flush:
  "rest \<noteq> [] \<Longrightarrow> \<not> is_result (hd rest) \<Longrightarrow> fold repair_step rest (flushUnanswered s) = fold repair_step rest s"
  by (cases rest) (simp_all add: step_after_flush)

lemma turn_of_assistant:
  assumes "between_turns s" "is_assistant m" "list_all (\<lambda>m. is_result m) rs"
  defines "s1 \<equiv> fold repair_step (m # rs) s" and "ks \<equiv> kept_results (announced m) [] rs"
  shows "rp_out s1 = rp_out s @ m # ks" "rp_changed s1 \<longleftrightarrow> rp_changed s \<or> ks \<noteq> rs"
    "rp_out (flushUnanswered s1) = rp_out s @ m # ks @ missing_results m ks"
    "rp_changed (flushUnanswered s1) \<longleftrightarrow> rp_changed s \<or> ks \<noteq> rs \<or> missing_results m ks \<noteq> []"
proof -
  let ?s = "s\<lparr>rp_calls := admitted m, rp_allowed := Some (announced m), rp_answered := Some [],
              rp_time := jfield m ''timestamp'', rp_out := rp_out s @ [m]\<rparr>"
  have "repair_step m s = ?s"
    using assms(1,2) by (simp add: repair_step_def admitted_def Let_def)
  then have s1: "s1 = ?s\<lparr>rp_answered := Some (result_ids ks), rp_changed := (rp_changed s \<or> ks \<noteq> rs),
                         rp_out := rp_out s @ m # ks\<rparr>"
    unfolding s1_def ks_def by (simp add: fold_results_inside [OF assms(3), of ?s "announced m" "[]"] Let_def)
  show "rp_out s1 = rp_out s @ m # ks" "rp_changed s1 \<longleftrightarrow> rp_changed s \<or> ks \<noteq> rs"
    by (simp_all add: s1)
  show "rp_out (flushUnanswered s1) = rp_out s @ m # ks @ missing_results m ks"
    "rp_changed (flushUnanswered s1) \<longleftrightarrow> rp_changed s \<or> ks \<noteq> rs \<or> missing_results m ks \<noteq> []"
    by (simp_all add: s1 flushUnanswered_def missing_results_def)
qed

lemma results_split:
  "list_all (\<lambda>m. is_result m) (takeWhile (\<lambda>m. is_result m) ms)"
  "dropWhile (\<lambda>m. is_result m) ms \<noteq> [] \<Longrightarrow> \<not> is_result (hd (dropWhile (\<lambda>m. is_result m) ms))"
  using hd_dropWhile [of "\<lambda>m. is_result m" ms] by (auto simp: list_all_iff dest: set_takeWhileD)

lemma fold_results_then:
  "fold repair_step ms s =
     fold repair_step (dropWhile (\<lambda>m. is_result m) ms) (fold repair_step (takeWhile (\<lambda>m. is_result m) ms) s)"
  by (metis comp_apply fold_append takeWhile_dropWhile_id)

text \<open>The loop computes the turns.\<close>

lemma loop_repaired:
  assumes "between_turns s"
  shows "let s' = (if t then flushUnanswered else id) (fold repair_step ms s)
         in rp_out s' = rp_out s @ repaired t ms \<and>
            (\<not> rp_changed s' \<longrightarrow> \<not> rp_changed s \<and> repaired t ms = ms)"
  using assms
proof (induction t ms arbitrary: s rule: repaired.induct)
  case (2 t m ms)
  let ?rs = "takeWhile (\<lambda>m. is_result m) ms" and ?rest = "dropWhile (\<lambda>m. is_result m) ms"
  let ?fin = "\<lambda>s. (if t then flushUnanswered else id) s"
  note rs = results_split [of ms]
  show ?case
  proof (cases "is_result m")
    case True
    have "repair_step m s = s\<lparr>rp_changed := True\<rparr>" "between_turns (s\<lparr>rp_changed := True\<rparr>)"
      using 2 True by (simp_all add: step_result answers_def between_turns_def split: option.splits)
    then show ?thesis
      using 2(1) [OF refl refl refl True, of "s\<lparr>rp_changed := True\<rparr>"] True by (simp add: Let_def)
  next
    case other: False
    note IH = 2(2) [OF refl refl refl other]
    show ?thesis
    proof (cases "is_assistant m")
      case True
      let ?ks = "kept_results (announced m) [] ?rs"
      let ?s1 = "fold repair_step (m # ?rs) s"
      note turn = turn_of_assistant [OF 2(3) True rs(1)]
      have all: "fold repair_step (m # ms) s = fold repair_step ?rest ?s1"
        using fold_results_then [of ms "repair_step m s"] by simp
      show ?thesis
      proof (cases "?rest = []")
        case True
        have "?rs = ms" using takeWhile_dropWhile_id [of "\<lambda>m. is_result m" ms] unfolding True by simp
        moreover have "fold repair_step (m # ms) s = ?s1" using all unfolding True by simp
        moreover have "repaired t (m # ms) = m # ?ks @ (if t then missing_results m ?ks else [])"
          unfolding repaired.simps(2) Let_def True using other \<open>is_assistant m\<close> by simp
        ultimately show ?thesis
          using turn by (cases t) (auto simp: Let_def simp del: repaired.simps fold_simps)
      next
        case False
        define s2 where "s2 = flushUnanswered ?s1"
        have s2: "between_turns s2" by (simp add: s2_def)
        define s' where "s' = ?fin (fold repair_step ?rest s2)"
        have "fold repair_step (m # ms) s = fold repair_step ?rest s2"
          unfolding s2_def all by (rule fold_after_flush [OF False rs(2) [OF False], symmetric])
        then have loop: "?fin (fold repair_step (m # ms) s) = s'" by (simp only: s'_def)
        have out: "repaired t (m # ms) = m # ?ks @ missing_results m ?ks @ repaired t ?rest"
          unfolding repaired.simps(2) Let_def using False other \<open>is_assistant m\<close>
          by (simp del: dropWhile_eq_Nil_conv)
        note loop_ok = IH [OF s2, folded s'_def, unfolded Let_def]
        have same: "?ks @ [] @ ?rest = ms" if "?ks = ?rs"
          unfolding that by (simp only: append_Nil takeWhile_dropWhile_id)
        show ?thesis
          unfolding loop out Let_def
        proof (intro conjI impI)
          show "rp_out s' = rp_out s @ m # ?ks @ missing_results m ?ks @ repaired t ?rest"
            using loop_ok turn(3) by (simp only: s2_def append_assoc append_Cons)
          assume "\<not> rp_changed s'"
          then have quiet: "\<not> rp_changed s2" "repaired t ?rest = ?rest" using loop_ok by blast+
          then have kept: "\<not> rp_changed s" "?ks = ?rs" "missing_results m ?ks = []"
            using turn(4) unfolding s2_def by blast+
          show "\<not> rp_changed s" by (rule kept)
          show "m # ?ks @ missing_results m ?ks @ repaired t ?rest = m # ms"
            unfolding kept(3) quiet(2) same [OF kept(2)] ..
        qed
      qed
    next
      case False
      have "repair_step m s = s\<lparr>rp_out := rp_out s @ [m]\<rparr>"
        using 2(3) other False by (simp add: repair_step_def)
      moreover have "rp_allowed (s\<lparr>rp_out := rp_out s @ [m]\<rparr>) = None"
        using 2(3) by (simp add: between_turns_def)
      moreover define s2 where "s2 = s\<lparr>rp_out := rp_out s @ [m], rp_changed := (rp_changed s \<or> ?rs \<noteq> [])\<rparr>"
      ultimately have loop: "fold repair_step (m # ms) s = fold repair_step ?rest s2"
        using fold_results_then [of ms "repair_step m s"] fold_results_outside [OF rs(1)] by simp
      have out: "repaired t (m # ms) = m # repaired t ?rest"
        unfolding repaired.simps(2) Let_def using other False by (simp del: dropWhile_eq_Nil_conv)
      have "between_turns s2"
        using 2(3) by (simp add: s2_def between_turns_def)
      note loop_ok = IH [OF this, unfolded Let_def]
      have same: "?rest = ms" if "?rs = []"
        using that by (metis append_Nil takeWhile_dropWhile_id)
      show ?thesis
        unfolding loop out Let_def
      proof (intro conjI impI)
        show "rp_out (?fin (fold repair_step ?rest s2)) = rp_out s @ m # repaired t ?rest"
          using loop_ok [THEN conjunct1] by (simp only:) (simp add: s2_def)
        assume "\<not> rp_changed (?fin (fold repair_step ?rest s2))"
        then have quiet: "\<not> rp_changed s2" "repaired t ?rest = ?rest" using loop_ok by blast+
        from quiet(1) have kept: "\<not> rp_changed s" "?rs = []" by (simp_all add: s2_def)
        show "\<not> rp_changed s" by (rule kept)
        show "m # repaired t ?rest = m # ms" unfolding quiet(2) by (simp only: same [OF kept(2)])
      qed
    qed
  qed
qed (simp add: Let_def)

lemma repair_is_repaired: "repairOrphanToolResults t ms = repaired t ms"
  using loop_repaired [OF between_start, of t ms]
  by (auto simp: repairOrphanToolResults_def Let_def repair_start_def split: if_splits)

subsection \<open>The repaired transcript is well paired\<close>

lemma kept_results_results:
  "list_all (\<lambda>m. is_result m) rs \<Longrightarrow> list_all (\<lambda>m. is_result m) (kept_results al an rs)"
  by (induction al an rs rule: kept_results.induct) (auto split: option.splits)

lemma kept_results_ids:
  "list_all (\<lambda>r. \<exists>i \<in> set al. getToolResultCallId r = Some i) (kept_results al an rs) \<and>
   distinct (result_ids (kept_results al an rs)) \<and> set (result_ids (kept_results al an rs)) \<inter> set an = {}"
  by (induction al an rs rule: kept_results.induct) (auto split: option.splits)

lemma kept_results_all:
  "list_all (\<lambda>r. \<exists>i \<in> set al. getToolResultCallId r = Some i) rs \<Longrightarrow> distinct (an @ result_ids rs) \<Longrightarrow>
   [] \<notin> set al \<Longrightarrow> kept_results al an rs = rs"
  by (induction al an rs rule: kept_results.induct) (auto split: option.splits)

lemma interrupted_id [simp]: "getToolResultCallId (interrupted_result time c) = Some (fst c)"
  by (simp add: getToolResultCallId_def interrupted_result_def)

lemma interrupted_is_result [simp]: "is_result (interrupted_result time c)"
  by (simp add: interrupted_result_def)

lemma missing_results_results: "list_all (\<lambda>m. is_result m) (missing_results m rs)"
  by (simp add: missing_results_def list_all_iff)

lemma result_ids_missing:
  "result_ids (missing_results m rs) = filter (\<lambda>i. i \<notin> set (result_ids rs)) (map fst (admitted m))"
  by (simp add: missing_results_def result_ids_def map_filter_def comp_def filter_map)

lemma missing_results_Nil: "missing_results m rs = [] \<longleftrightarrow> set (map fst (admitted m)) \<subseteq> set (result_ids rs)"
  by (auto simp: missing_results_def filter_empty_conv)

lemma admitted_announced: "admitted m = [] \<or> admitted m = collectAssistantToolCalls m"
  by (simp add: admitted_def)

lemma repaired_head:
  assumes "ms = [] \<or> \<not> is_result (hd ms)"
  shows "repaired t ms = [] \<longleftrightarrow> ms = []" "repaired t ms = [] \<or> \<not> is_result (hd (repaired t ms))"
  using assms by (cases ms; simp add: Let_def)+

text \<open>Runs of results in front of a message that is not one.\<close>

lemma turn_split:
  assumes "list_all (\<lambda>m. is_result m) rs" "ms = [] \<or> \<not> is_result (hd ms)"
  shows "takeWhile (\<lambda>m. is_result m) (rs @ ms) = rs" "dropWhile (\<lambda>m. is_result m) (rs @ ms) = ms"
proof -
  have "takeWhile (\<lambda>m. is_result m) ms = [] \<and> dropWhile (\<lambda>m. is_result m) ms = ms"
    using assms(2) by (cases ms) auto
  then show "takeWhile (\<lambda>m. is_result m) (rs @ ms) = rs" "dropWhile (\<lambda>m. is_result m) (rs @ ms) = ms"
    using assms(1) by (auto simp: list_all_iff)
qed

text \<open>The announced ids of every assistant message are distinct and not empty.\<close>

definition usable_ids :: "json list \<Rightarrow> bool" where
  "usable_ids ms \<longleftrightarrow> list_all (\<lambda>m. is_assistant m \<longrightarrow> distinct (announced m) \<and> [] \<notin> set (announced m)) ms"

lemma usable_ids_split: "usable_ids ms \<Longrightarrow> usable_ids (dropWhile P ms)"
  by (auto simp: usable_ids_def list_all_iff dest: set_dropWhileD)

lemma rest_of_turn: "dropWhile (\<lambda>m. is_result m) ms = [] \<or> \<not> is_result (hd (dropWhile (\<lambda>m. is_result m) ms))"
  using results_split(2) by blast

lemma well_paired_turn:
  assumes "list_all (\<lambda>m. is_result m) rs" "rest = [] \<or> \<not> is_result (hd rest)"
  shows "well_paired t (m # rs @ rest) \<longleftrightarrow> \<not> is_result m \<and>
     (if is_assistant m
      then list_all (\<lambda>r. \<exists>i \<in> set (announced m). getToolResultCallId r = Some i) rs \<and> distinct (result_ids rs) \<and>
           (rest = [] \<and> \<not> t \<or> set (map fst (admitted m)) \<subseteq> set (result_ids rs))
      else rs = []) \<and> well_paired t rest"
  unfolding well_paired.simps turn_split [OF assms] Let_def by argo

lemma repaired_turn:
  "\<not> is_result m \<Longrightarrow> repaired t (m # ms) =
     (let rs = takeWhile (\<lambda>m. is_result m) ms; rest = dropWhile (\<lambda>m. is_result m) ms;
          ks = kept_results (announced m) [] rs
      in m # (if is_assistant m then ks @ (if rest = [] \<and> \<not> t then [] else missing_results m ks) else []) @
         repaired t rest)"
  unfolding repaired.simps Let_def by argo

lemma turn_answers:
  fixes rs :: "json list"
  assumes "is_assistant m" "distinct (announced m)"
  defines "ks \<equiv> kept_results (announced m) [] rs"
  shows "list_all (\<lambda>r. \<exists>i \<in> set (announced m). getToolResultCallId r = Some i) (ks @ missing_results m ks)"
    "distinct (result_ids (ks @ missing_results m ks))"
    "set (map fst (admitted m)) \<subseteq> set (result_ids (ks @ missing_results m ks))"
proof -
  note ks = kept_results_ids [of "announced m" "[]" rs, folded ks_def]
  have sub: "set (map fst (admitted m)) \<subseteq> set (announced m)" "distinct (map fst (admitted m))"
    using admitted_announced [of m] assms(2) by auto
  have "list_all (\<lambda>r. \<exists>i \<in> set (announced m). getToolResultCallId r = Some i) (missing_results m ks)"
    using admitted_announced [of m] by (force simp: missing_results_def list_all_iff)
  then show "list_all (\<lambda>r. \<exists>i \<in> set (announced m). getToolResultCallId r = Some i) (ks @ missing_results m ks)"
    using ks by simp
  show "distinct (result_ids (ks @ missing_results m ks))"
    using ks sub by (auto simp: result_ids_missing)
  show "set (map fst (admitted m)) \<subseteq> set (result_ids (ks @ missing_results m ks))"
    by (auto simp: result_ids_missing)
qed

lemma repaired_well_paired:
  "usable_ids ms \<Longrightarrow> well_paired t (repaired t ms)"
proof (induction t ms rule: repaired.induct)
  case (2 t m ms)
  let ?rs = "takeWhile (\<lambda>m. is_result m) ms" and ?rest = "dropWhile (\<lambda>m. is_result m) ms"
  have use: "usable_ids ms" "is_assistant m \<Longrightarrow> distinct (announced m)"
    using 2(3) by (auto simp: usable_ids_def)
  show ?case
  proof (cases "is_result m")
    case True
    then show ?thesis using 2(1) [OF refl refl refl True use(1)] by simp
  next
    case False
    define ks where "ks = kept_results (announced m) [] ?rs"
    have IH: "well_paired t (repaired t ?rest)"
      using 2(2) [OF refl refl refl False usable_ids_split [OF use(1)]] .
    have hd: "repaired t ?rest = [] \<or> \<not> is_result (hd (repaired t ?rest))"
      and nil: "repaired t ?rest = [] \<longleftrightarrow> ?rest = []"
      using repaired_head [OF rest_of_turn, of t ms] by simp_all
    have res: "list_all (\<lambda>m. is_result m) ks" "list_all (\<lambda>m. is_result m) (ks @ missing_results m ks)"
      using kept_results_results [OF results_split(1)] missing_results_results by (simp_all add: ks_def)
    have eq: "repaired t (m # ms) = m # (if is_assistant m then ks @
        (if ?rest = [] \<and> \<not> t then [] else missing_results m ks) else []) @ repaired t ?rest"
      using repaired_turn [OF False, of t ms] by (simp only: ks_def Let_def)
    show ?thesis
    proof (cases "is_assistant m")
      case True
      note ok = turn_answers [OF True use(2) [OF True], of ?rs, folded ks_def]
      show ?thesis
      proof (cases "?rest = [] \<and> \<not> t")
        case True
        then have "repaired t ?rest = []" using nil by blast
        then have "repaired t (m # ms) = m # ks @ []"
          using eq True \<open>is_assistant m\<close> by (simp del: repaired.simps dropWhile_eq_Nil_conv)
        then show ?thesis
          using \<open>is_assistant m\<close> True False ok(1,2) well_paired_turn [OF res(1), of "[]" t m]
          by (simp del: well_paired.simps(2) repaired.simps)
      next
        case more: False
        then have "repaired t (m # ms) = m # (ks @ missing_results m ks) @ repaired t ?rest"
          unfolding eq if_P [OF True] if_not_P [OF more] by (simp only: append_assoc)
        then show ?thesis
          using well_paired_turn [OF res(2) hd, of t m] IH ok True False
          by (simp del: well_paired.simps(2) repaired.simps)
      qed
    next
      case other: False
      then show ?thesis
        using eq IH False well_paired_turn [OF _ hd, of "[]" t m] by (simp del: well_paired.simps(2) repaired.simps)
    qed
  qed
qed simp

lemma well_paired_repaired:
  "usable_ids ms \<Longrightarrow> well_paired t ms \<Longrightarrow> repaired t ms = ms"
proof (induction t ms rule: repaired.induct)
  case (2 t m ms)
  let ?rs = "takeWhile (\<lambda>m. is_result m) ms" and ?rest = "dropWhile (\<lambda>m. is_result m) ms"
  have use: "usable_ids ms" "is_assistant m \<Longrightarrow> [] \<notin> set (announced m)"
    using 2(3) by (auto simp: usable_ids_def)
  note parts = 2(4) [unfolded well_paired.simps(2) Let_def]
  note no = parts [THEN conjunct1] and turn_ok = parts [THEN conjunct2, THEN conjunct1]
  have IH: "repaired t ?rest = ?rest"
    using 2(2) [OF refl refl refl no usable_ids_split [OF use(1)]] parts by blast
  have turn: "repaired t (m # ms) = m # (if is_assistant m
          then kept_results (announced m) [] ?rs @
               (if ?rest = [] \<and> \<not> t then [] else missing_results m (kept_results (announced m) [] ?rs))
          else []) @ ?rest"
    using repaired_turn [OF no, of t ms] IH by (simp only: Let_def)
  show ?case
  proof (cases "is_assistant m")
    case True
    then have ids: "list_all (\<lambda>r. \<exists>i \<in> set (announced m). getToolResultCallId r = Some i) ?rs" "distinct (result_ids ?rs)"
      and all: "?rest = [] \<and> \<not> t \<or> set (map fst (admitted m)) \<subseteq> set (result_ids ?rs)"
      using turn_ok unfolding if_P [OF True] by (auto split: if_splits)
    have keep: "kept_results (announced m) [] ?rs = ?rs"
      using kept_results_all ids use(2) [OF True] by simp
    have answered: "(if ?rest = [] \<and> \<not> t then [] else missing_results m ?rs) = []"
      using all missing_results_Nil [of m ?rs] by argo
    show ?thesis
      unfolding turn if_P [OF True] keep answered by (simp only: append_Nil2 takeWhile_dropWhile_id)
  next
    case False
    then have "?rs = []" using turn_ok by (simp only: if_False)
    then show ?thesis using turn False takeWhile_dropWhile_id [of "\<lambda>m. is_result m" ms]
      by (simp del: repaired.simps dropWhile_eq_Nil_conv)
  qed
qed simp

lemma repaired_others:
  "filter (\<lambda>m. \<not> is_result m) (repaired t ms) = filter (\<lambda>m. \<not> is_result m) ms"
proof (induction t ms rule: repaired.induct)
  case (2 t m ms)
  let ?rs = "takeWhile (\<lambda>m. is_result m) ms" and ?rest = "dropWhile (\<lambda>m. is_result m) ms"
  have none: "list_all (\<lambda>m. is_result m) rs \<Longrightarrow> filter (\<lambda>m. \<not> is_result m) rs = []" for rs
    by (auto simp: list_all_iff filter_empty_conv)
  have ms: "filter (\<lambda>m. \<not> is_result m) ms = filter (\<lambda>m. \<not> is_result m) ?rest"
    using none [OF results_split(1)] takeWhile_dropWhile_id [of "\<lambda>m. is_result m" ms]
    by (metis append_Nil filter_append)
  show ?case
  proof (cases "is_result m")
    case True
    then show ?thesis using 2(1) [OF refl refl refl True] by simp
  next
    case False
    have "filter (\<lambda>m. \<not> is_result m) (repaired t (m # ms)) = m # filter (\<lambda>m. \<not> is_result m) (repaired t ?rest)"
      unfolding repaired_turn [OF False] Let_def
      using none [OF kept_results_results [OF results_split(1)]] none [OF missing_results_results] False
      by simp
    then show ?thesis using 2(2) [OF refl refl refl False] ms False by simp
  qed
qed simp

subsection \<open>What a provider receives\<close>

lemma redacted_tool_call: "tool_call (redacted_block b) = tool_call b"
  by (auto simp: redacted_block_def tool_call_def split: option.split)

lemma announced_normalized:
  "collectAssistantToolCalls (normalizeRawRedactedThinking (normalizeMessageContent m)) = collectAssistantToolCalls m"
proof -
  have "collectAssistantToolCalls (normalizeMessageContent m) = collectAssistantToolCalls m"
    by (auto simp: normalizeMessageContent_def collectAssistantToolCalls_def nullish_def map_filter_def
        dest: jfield_SomeD)
  moreover have "collectAssistantToolCalls (normalizeRawRedactedThinking n) = collectAssistantToolCalls n" for n
    by (auto simp: normalizeRawRedactedThinking_def collectAssistantToolCalls_def map_filter_def comp_def
        redacted_tool_call filter_map dest: jfield_SomeD split: option.split json.split)
  ultimately show ?thesis by simp
qed

lemma js_trim_nonblank: "c \<in> set s \<Longrightarrow> \<not> js_ws c \<Longrightarrow> js_trim s \<noteq> []"
proof -
  assume c: "c \<in> set s" "\<not> js_ws c"
  then have "c \<in> set (js_trimStart s)"
    unfolding js_trimStart_def by (induction s) auto
  then have "c \<in> set (dropWhile js_ws (rev (js_trimStart s)))"
    using c(2) by (metis set_rev set_takeWhileD Un_iff set_append takeWhile_dropWhile_id)
  then show "js_trim s \<noteq> []"
    unfolding js_trim_def js_trimEnd_def by (metis empty_iff list.set(1) rev_is_Nil_conv)
qed

text \<open>A message that a provider accepts: a user message has contents, and all of them are visible.\<close>

definition provider_ready :: "json \<Rightarrow> bool" where
  "provider_ready m \<longleftrightarrow>
     is_assistant m \<or> is_result m \<or>
     has_role m ''user'' \<and>
     (case jfield m ''content'' of
        Some (JStr s) \<Rightarrow> js_trim s \<noteq> []
      | Some (JArr bs) \<Rightarrow> bs \<noteq> [] \<and> list_all userLikeContentBlockIsLlmVisible bs
      | _ \<Rightarrow> False)"

lemma visible_content:
  "userLikeContentIsLlmVisible v [] \<longleftrightarrow>
     (case v of Some (JStr s) \<Rightarrow> js_trim s \<noteq> []
      | Some (JArr bs) \<Rightarrow> filterUserLikeContentBlocks bs \<noteq> [] | _ \<Rightarrow> False)"
proof -
  have "list_ex (\<lambda>(b, i). P b) (zip bs [j..<j + length bs]) \<longleftrightarrow> filter P bs \<noteq> []" for P and bs :: "json list" and j
  proof (induction bs arbitrary: j)
    case (Cons b bs)
    show ?case using Cons.IH [of "Suc j"] by (auto simp: upt_conv_Cons simp del: upt_Suc)
  qed simp
  from this [of userLikeContentBlockIsLlmVisible _ 0] show ?thesis
    by (auto simp: userLikeContentIsLlmVisible_def filterUserLikeContentBlocks_def split: option.splits json.splits)
qed

lemma text_block_visible: "userLikeContentBlockIsLlmVisible (text_block s) \<longleftrightarrow> js_trim s \<noteq> []"
  by (simp add: userLikeContentBlockIsLlmVisible_def text_block_def visible_text_def)
    (simp add: jobj_def)

lemma user_message_ready [simp]:
  "provider_ready (user_message bs time) \<longleftrightarrow> bs \<noteq> [] \<and> list_all userLikeContentBlockIsLlmVisible bs"
  by (simp add: provider_ready_def user_message_def)

lemma user_message_role [simp]: "has_role (user_message bs time) r \<longleftrightarrow> r = ''user''"
  by (auto simp: user_message_def)

lemma bash_text_visible: "js_trim (bashExecutionToText nt m) \<noteq> []"
  by (rule js_trim_nonblank [of "of_char (CHR ''R'')"])
    (simp_all add: bashExecutionToText_def js_def js_ws_def)

lemma summary_text_visible: "js_trim (BRANCH_SUMMARY_PREFIX @ s) \<noteq> []"
  by (rule js_trim_nonblank [of "of_char (CHR ''T'')"])
    (simp_all add: BRANCH_SUMMARY_PREFIX_def js_def js_ws_def)

abbreviation normalized :: "json \<Rightarrow> json" where
  "normalized m \<equiv> normalizeRawRedactedThinking (normalizeMessageContent m)"

lemma normalized_role [simp]: "jfield (normalized m) ''role'' = jfield m ''role''"
  by (auto simp: normalizeRawRedactedThinking_def normalizeMessageContent_def split: option.split json.split)

lemma jput_known: "jfield m k = Some w \<Longrightarrow> jfield (jput n v m) k' = (if k' = n then Some v else jfield m k')"
  by (cases m) auto

lemma filtered_visible: "list_all userLikeContentBlockIsLlmVisible (filterUserLikeContentBlocks bs)"
  by (simp add: filterUserLikeContentBlocks_def list_all_iff)

lemma provider_message_cases:
  assumes "provider_message nt raw = Some m"
  obtains "has_role m ''user''" "\<not> is_result raw" "\<not> is_assistant raw" "provider_ready m"
  | "m = normalized raw" "is_assistant raw \<or> is_result raw"
proof -
  let ?m = "normalized raw"
  have role: "jfield ?m ''role'' = jfield raw ''role''" by simp
  show thesis
  proof (cases "is_assistant raw \<or> is_result raw")
    case True
    then have "m = ?m" using assms by (auto simp: provider_message_def Let_def simp del: normalized_role simp: role)
    then show thesis using that(2) True by blast
  next
    case no: False
    then have starts: "messageStartsLlmUserTurn ?m []"
      using assms by (auto simp: provider_message_def Let_def split: if_splits)
    show thesis
    proof (cases "has_role raw ''user''")
      case True
      then have vis: "userLikeContentIsLlmVisible (jfield ?m ''content'') []"
        using starts by (simp add: messageStartsLlmUserTurn_def)
      have m: "m = (case jfield ?m ''content'' of
           Some (JArr bs) \<Rightarrow> jput ''content'' (JArr (filterUserLikeContentBlocks bs)) ?m | _ \<Rightarrow> ?m)"
        using assms True starts by (simp add: provider_message_def Let_def)
      have "has_role m ''user'' \<and> provider_ready m"
      proof (cases "jfield ?m ''content''")
        case (Some v)
        then show ?thesis
          using vis True role unfolding m provider_ready_def visible_content
          by (cases v) (simp_all add: jput_known filtered_visible del: normalized_role jfield_jput)
      qed (use vis visible_content in simp)
      then show thesis using that(1) no by blast
    next
      case False
      then have "has_role m ''user'' \<and> provider_ready m"
        using assms no starts
        by (auto simp: provider_message_def Let_def messageStartsLlmUserTurn_def visible_content filtered_visible
            text_block_visible bash_text_visible summary_text_visible split: if_splits option.splits json.splits)
      then show thesis using that(1) no by blast
    qed
  qed
qed

lemma provider_message_ready: "provider_message nt raw = Some m \<Longrightarrow> provider_ready m"
  by (erule provider_message_cases) (auto simp: provider_ready_def)

lemma provider_message_roles:
  assumes "provider_message nt raw = Some m"
  shows "is_result m \<longleftrightarrow> is_result raw" "is_assistant m \<longleftrightarrow> is_assistant raw"
    "is_assistant m \<Longrightarrow> announced m = announced raw"
proof -
  have other: "\<not> is_result m \<and> \<not> is_assistant m" if "has_role m ''user''"
    using that by simp
  show "is_result m \<longleftrightarrow> is_result raw" "is_assistant m \<longleftrightarrow> is_assistant raw"
    using assms other by (cases rule: provider_message_cases; metis normalized_role)+
  show "announced m = announced raw" if "is_assistant m"
    using assms other that by (cases rule: provider_message_cases; metis announced_normalized)
qed

lemma usable_ids_others: "usable_ids (filter (\<lambda>m. \<not> is_result m) ms) \<longleftrightarrow> usable_ids ms"
  by (auto simp: usable_ids_def list_all_iff)

lemma mem_map_filter: "y \<in> set (List.map_filter f xs) \<longleftrightarrow> (\<exists>x \<in> set xs. f x = Some y)"
  by (induction xs) (auto simp: map_filter_def)

lemma usable_ids_provider:
  assumes "usable_ids ms"
  shows "usable_ids (List.map_filter (provider_message nt) ms)"
  unfolding usable_ids_def list_all_iff
proof (intro ballI impI)
  fix m assume "m \<in> set (List.map_filter (provider_message nt) ms)" and m: "is_assistant m"
  then obtain raw where "raw \<in> set ms" and raw: "provider_message nt raw = Some m"
    by (auto simp only: mem_map_filter)
  moreover have "is_assistant raw" "announced m = announced raw"
    using provider_message_roles(2,3) [OF raw] m by simp_all
  ultimately show "distinct (announced m) \<and> [] \<notin> set (announced m)"
    using assms unfolding usable_ids_def list_all_iff by metis
qed

text \<open>C3: C0: The repair returns a transcript that every provider accepts: each result stands behind the
  message that announced its call and answers it once, every turn that used tools is answered
  before the next one begins, all other messages are kept in their order, and repairing again
  changes nothing.  The answers are the first recorded result of each call, or a note that the
  call was interrupted (\<open>repaired\<close>).  Calls have distinct ids.
\<close>

theorem repair_pairs_tool_calls:
  assumes "usable_ids ms"
  shows "let out = repairOrphanToolResults t ms
         in out = repaired t ms \<and> well_paired t out \<and>
            filter (\<lambda>m. \<not> is_result m) out = filter (\<lambda>m. \<not> is_result m) ms \<and>
            repairOrphanToolResults t out = out"
proof -
  have "usable_ids (repaired t ms)"
    using assms usable_ids_others repaired_others by metis
  then show ?thesis
    using repaired_well_paired [OF assms] well_paired_repaired
    by (simp only: Let_def repair_is_repaired repaired_others simp_thms)
qed

definition demo_call :: "string \<Rightarrow> json" where
  "demo_call i = jobj [(''type'', Some (JStr (js ''toolCall''))), (''id'', Some (JStr (js i))),
                       (''name'', Some (JStr (js ''bash'')))]"

definition demo_tool_result :: "string \<Rightarrow> json" where
  "demo_tool_result i = jobj [(''role'', Some (JStr (js ''toolResult''))), (''toolCallId'', Some (JStr (js i)))]"

definition demo_transcript :: "json list" where
  "demo_transcript =
     [jobj [(''role'', Some (JStr (js ''assistant''))), (''stopReason'', Some (JStr (js ''toolUse''))),
            (''content'', Some (JArr [demo_call ''a'', demo_call ''b'']))],
      demo_tool_result ''b'', demo_tool_result ''b'', demo_tool_result ''c'',
      jobj [(''role'', Some (JStr (js ''user''))), (''content'', Some (JStr (js ''go on'')))]]"

lemma demo_transcript_usable: "usable_ids demo_transcript"
  by code_simp

theorem repair_pairs_tool_calls_witness:
  "well_paired False (repairOrphanToolResults False demo_transcript) \<and>
   length (filter (\<lambda>m. \<not> is_result m) (repairOrphanToolResults False demo_transcript)) = 2"
proof -
  have "length (filter (\<lambda>m. \<not> is_result m) demo_transcript) = 2" by code_simp
  then show ?thesis
    using repair_pairs_tool_calls [OF demo_transcript_usable, of False] unfolding Let_def by metis
qed



end
