(* ===== verification/Session_Entries.thy ===== *)
theory Session_Entries
  imports Transcript_Serialization
begin

text \<open>
  The entries of a session file (\<open>core/session-manager-types.ts\<close>), how they are made
  (\<open>session-manager-entries.ts\<close>, \<open>session-manager-validation.ts\<close>), the ownership marker of workflow
  sessions (\<open>session-manager-classification.ts\<close>) and the migration of old files
  (\<open>session-manager-migrations.ts\<close>).  A message is a JSON object.  Each call that makes an entry is
  given the values that \<open>randomUUID\<close> returns during it (\<open>uuids\<close>) and the current time as text.
\<close>

subsection \<open>Entries\<close>

record custom_message =
  cm_customType :: jstr
  cm_content :: "json option"
  cm_display :: bool
  cm_details :: "json option"
  cm_excludeFromContext :: bool
  cm_stageAdmissionKey :: "jstr option"
  cm_protectedReconciliation :: "jstr option"

record compaction =
  co_summary :: jstr
  co_firstKeptEntryId :: "jstr option"
  co_tokensBefore :: js_num
  co_details :: "json option"
  co_fromHook :: bool
  co_firstKeptEntryIndex :: "js_num option"

record branch_summary =
  bs_fromId :: jstr
  bs_summary :: jstr
  bs_details :: "json option"
  bs_usage :: "json option"
  bs_fromHook :: "bool option"

datatype entry_body =
    MessageEntry json
  | ThinkingLevelChange jstr
  | ModelChange jstr jstr
  | CompactionEntry compaction
  | ContextCompaction json
  | BranchSummary branch_summary
  | CustomEntry jstr "json option"
  | CustomMessageEntry custom_message
  | LabelEntry jstr "jstr option"
  | SessionInfo "jstr option"

record session_entry =
  se_id :: jstr
  se_parentId :: "jstr option"
  se_timestamp :: jstr
  se_body :: entry_body

record session_header =
  sh_version :: "nat option"
  sh_id :: jstr
  sh_timestamp :: jstr
  sh_cwd :: jstr
  sh_parentSession :: "jstr option"
  sh_internal :: "json option"
  sh_workflow :: "json option"

datatype file_entry = Header session_header | Entry session_entry

definition CURRENT_SESSION_VERSION :: nat where "CURRENT_SESSION_VERSION = 3"

definition getEntriesWithoutHeader :: "file_entry list \<Rightarrow> session_entry list" where
  "getEntriesWithoutHeader fs = List.map_filter (\<lambda>f. case f of Header h \<Rightarrow> None | Entry e \<Rightarrow> Some e) fs"

fun first_header :: "file_entry list \<Rightarrow> session_header option" where
  "first_header [] = None"
| "first_header (Header h # fs) = Some h"
| "first_header (Entry e # fs) = first_header fs"

subsection \<open>Identifiers\<close>

text \<open>A hundred attempts with eight characters, then a whole UUID.\<close>

fun generateId_loop :: "nat \<Rightarrow> nat \<Rightarrow> (jstr \<Rightarrow> bool) \<Rightarrow> (nat \<Rightarrow> jstr) \<Rightarrow> jstr" where
  "generateId_loop i 0 has uuids = uuids i"
| "generateId_loop i (Suc k) has uuids =
     (let candidate = take 8 (uuids i) in if \<not> has candidate then candidate else generateId_loop (Suc i) k has uuids)"

definition generateId :: "(jstr \<Rightarrow> bool) \<Rightarrow> (nat \<Rightarrow> jstr) \<Rightarrow> jstr" where
  "generateId has uuids = generateId_loop 0 100 has uuids"

definition alnum :: "code_unit \<Rightarrow> bool" where
  "alnum c \<longleftrightarrow> js_digit c \<or> 65 \<le> c \<and> c \<le> 90 \<or> 97 \<le> c \<and> c \<le> 122"

text \<open>\<open>/^[A-Za-z0-9](?:[A-Za-z0-9._-]*[A-Za-z0-9])?$/\<close>: dot, underscore and hyphen only inside.\<close>

definition valid_session_id :: "jstr \<Rightarrow> bool" where
  "valid_session_id s \<longleftrightarrow>
     s \<noteq> [] \<and> alnum (hd s) \<and> alnum (last s) \<and> list_all (\<lambda>c. alnum c \<or> c \<in> set (js ''._-'')) s"

definition quoted :: "string \<Rightarrow> jstr" where
  "quoted c = [39] @ js c @ [39]"

definition assertValidSessionId :: "jstr \<Rightarrow> jstr + unit" where
  "assertValidSessionId s =
     (if valid_session_id s then Inr ()
      else Inl (js ''Session id must be non-empty, contain only alphanumeric characters, '' @ quoted ''-'' @ js '', '' @
                quoted ''_'' @ js '', and '' @ quoted ''.'' @
                js '', and start and end with an alphanumeric character''))"

subsection \<open>Ownership by a workflow\<close>

definition isNonEmptyString :: "json option \<Rightarrow> bool" where
  "isNonEmptyString v = (case v of Some (JStr s) \<Rightarrow> 0 < length (js_trim s) | _ \<Rightarrow> False)"

definition validSessionWorkflowMetadata :: "json option \<Rightarrow> json option" where
  "validSessionWorkflowMetadata v =
     (case v of
        Some (JObj fs) \<Rightarrow>
          (if isNonEmptyString (jfield (JObj fs) ''runId'') \<and> isNonEmptyString (jfield (JObj fs) ''stageId'') \<and>
              isNonEmptyString (jfield (JObj fs) ''stageName'') then v else None)
      | _ \<Rightarrow> None)"

definition classifiedWorkflowMetadata :: "session_header option \<Rightarrow> json option" where
  "classifiedWorkflowMetadata header =
     (case header of
        None \<Rightarrow> None
      | Some h \<Rightarrow> (if sh_internal h \<noteq> Some (JBool True) then None
                  else validSessionWorkflowMetadata (sh_workflow h)))"

definition isClassifiedWorkflowSession :: "session_header option \<Rightarrow> bool" where
  "isClassifiedWorkflowSession header \<longleftrightarrow> classifiedWorkflowMetadata header \<noteq> None"

definition workflowSessionMetadataFromEnv :: "(jstr \<Rightarrow> json option) \<Rightarrow> jstr option \<Rightarrow> json option" where
  "workflowSessionMetadataFromEnv parse serialized =
     (case serialized of
        None \<Rightarrow> None
      | Some s \<Rightarrow> (if s = [] then None else validSessionWorkflowMetadata (parse s)))"

definition createSessionHeader ::
    "jstr \<Rightarrow> jstr \<Rightarrow> jstr \<Rightarrow> jstr option \<Rightarrow> bool option \<Rightarrow> json option \<Rightarrow> session_header" where
  "createSessionHeader i cwd timestamp parentSession internal workflow =
     (let validWorkflow = (if internal = Some True then validSessionWorkflowMetadata workflow else None)
      in \<lparr>sh_version = Some CURRENT_SESSION_VERSION, sh_id = i, sh_timestamp = timestamp, sh_cwd = cwd,
          sh_parentSession = parentSession,
          sh_internal = (if validWorkflow \<noteq> None then Some (JBool True) else None),
          sh_workflow = validWorkflow\<rparr>)"

subsection \<open>Making entries\<close>

definition entryBase ::
    "(jstr \<Rightarrow> bool) \<Rightarrow> jstr option \<Rightarrow> (nat \<Rightarrow> jstr) \<Rightarrow> jstr \<Rightarrow> entry_body \<Rightarrow> session_entry" where
  "entryBase has parentId uuids now body =
     \<lparr>se_id = generateId has uuids, se_parentId = parentId, se_timestamp = now, se_body = body\<rparr>"

definition compaction_body :: "jstr \<Rightarrow> jstr option \<Rightarrow> js_num \<Rightarrow> json \<Rightarrow> entry_body" where
  "compaction_body compactedText firstKept tokensBefore details =
     CompactionEntry \<lparr>co_summary = compactedText, co_firstKeptEntryId = firstKept, co_tokensBefore = tokensBefore,
       co_details = Some details, co_fromHook = (jfield details ''rung'' = Some (JStr (js ''extension''))),
       co_firstKeptEntryIndex = None\<rparr>"

definition session_info_body :: "jstr \<Rightarrow> entry_body" where
  "session_info_body name = SessionInfo (Some (js_trim name))"

definition custom_message_body ::
    "jstr \<Rightarrow> json \<Rightarrow> bool \<Rightarrow> json option \<Rightarrow> bool option \<Rightarrow> jstr option \<Rightarrow> jstr option \<Rightarrow> entry_body" where
  "custom_message_body customType content display details excludeFromContext reconciliation admissionKey =
     CustomMessageEntry \<lparr>cm_customType = customType, cm_content = Some content, cm_display = display,
       cm_details = details, cm_excludeFromContext = (excludeFromContext = Some True),
       cm_stageAdmissionKey = admissionKey, cm_protectedReconciliation = reconciliation\<rparr>"

definition branch_summary_body ::
    "jstr option \<Rightarrow> jstr \<Rightarrow> json option \<Rightarrow> json option \<Rightarrow> bool option \<Rightarrow> entry_body" where
  "branch_summary_body branchFromId summary details usage fromHook =
     BranchSummary \<lparr>bs_fromId = (case branchFromId of None \<Rightarrow> js ''root'' | Some i \<Rightarrow> i), bs_summary = summary,
       bs_details = details, bs_usage = usage, bs_fromHook = fromHook\<rparr>"

definition createLabelEntry ::
    "jstr \<Rightarrow> jstr option \<Rightarrow> (jstr \<Rightarrow> bool) \<Rightarrow> jstr option \<Rightarrow> (nat \<Rightarrow> jstr) \<Rightarrow> jstr \<Rightarrow> session_entry" where
  "createLabelEntry targetId label has parentId uuids timestamp =
     entryBase has parentId uuids timestamp (LabelEntry targetId label)"

text \<open>The latest title; an empty one clears it.\<close>

fun latest_name :: "session_entry list \<Rightarrow> jstr option" where
  "latest_name [] = None"
| "latest_name (e # es) =
     (case se_body e of
        SessionInfo name \<Rightarrow>
          (case name of None \<Rightarrow> None | Some n \<Rightarrow> if js_trim n = [] then None else Some (js_trim n))
      | _ \<Rightarrow> latest_name es)"

definition getLatestSessionName :: "session_entry list \<Rightarrow> jstr option" where
  "getLatestSessionName es = latest_name (rev es)"

definition hasAssistantMessage :: "file_entry list \<Rightarrow> bool" where
  "hasAssistantMessage fs \<longleftrightarrow>
     list_ex (\<lambda>f. case f of
                Entry e \<Rightarrow> (case se_body e of MessageEntry m \<Rightarrow> has_role m ''assistant'' | _ \<Rightarrow> False)
              | Header h \<Rightarrow> False) fs"

subsection \<open>Migration\<close>

text \<open>
  An entry of a version 1 file has no id (here: the empty one) and a compaction names the first kept
  entry by its position in the file.
\<close>

definition index_of_num :: "js_num \<Rightarrow> nat option" where
  "index_of_num n =
     (case n of JNonFinite \<Rightarrow> None | JFinite q \<Rightarrow> (if 0 \<le> q \<and> of_int \<lfloor>q\<rfloor> = q then Some (nat \<lfloor>q\<rfloor>) else None))"

definition entry_id_at :: "file_entry list \<Rightarrow> nat \<Rightarrow> jstr option" where
  "entry_id_at fs n =
     (if n < length fs then (case fs ! n of Header h \<Rightarrow> None | Entry e \<Rightarrow> Some (se_id e)) else None)"

text \<open>The file as the loop sees it: the lines already migrated, the current one and the rest.\<close>

definition convert_first_kept :: "file_entry list \<Rightarrow> entry_body \<Rightarrow> entry_body" where
  "convert_first_kept fs body =
     (case body of
        CompactionEntry c \<Rightarrow>
          (case co_firstKeptEntryIndex c of
             None \<Rightarrow> body
           | Some n \<Rightarrow>
               CompactionEntry
                 (c\<lparr>co_firstKeptEntryId :=
                      (case Option.bind (index_of_num n) (entry_id_at fs) of
                         None \<Rightarrow> co_firstKeptEntryId c | Some i \<Rightarrow> Some i),
                    co_firstKeptEntryIndex := None\<rparr>))
      | _ \<Rightarrow> body)"

text \<open>The set of used ids is passed to \<open>generateId\<close>, but nothing is ever added to it.\<close>

fun migrateV1_loop :: "(nat \<Rightarrow> nat \<Rightarrow> jstr) \<Rightarrow> jstr option \<Rightarrow> file_entry list \<Rightarrow> file_entry list \<Rightarrow> file_entry list" where
  "migrateV1_loop uuids prevId out [] = out"
| "migrateV1_loop uuids prevId out (Header h # fs) =
     migrateV1_loop uuids prevId (out @ [Header (h\<lparr>sh_version := Some 2\<rparr>)]) fs"
| "migrateV1_loop uuids prevId out (Entry e # fs) =
     (let i = generateId (\<lambda>x. x \<in> set []) (uuids (length out));
          e = e\<lparr>se_id := i, se_parentId := prevId\<rparr>;
          e = e\<lparr>se_body := convert_first_kept (out @ Entry e # fs) (se_body e)\<rparr>
      in migrateV1_loop uuids (Some i) (out @ [Entry e]) fs)"

definition migrateV1ToV2 :: "(nat \<Rightarrow> nat \<Rightarrow> jstr) \<Rightarrow> file_entry list \<Rightarrow> file_entry list" where
  "migrateV1ToV2 uuids fs = migrateV1_loop uuids None [] fs"

definition rename_hook_message :: "json \<Rightarrow> json" where
  "rename_hook_message m =
     (if has_role m ''hookMessage'' then jput ''role'' (JStr (js ''custom'')) m else m)"

definition migrateV2ToV3 :: "file_entry list \<Rightarrow> file_entry list" where
  "migrateV2ToV3 fs =
     map (\<lambda>f. case f of
            Header h \<Rightarrow> Header (h\<lparr>sh_version := Some 3\<rparr>)
          | Entry e \<Rightarrow> Entry (case se_body e of
                               MessageEntry m \<Rightarrow> e\<lparr>se_body := MessageEntry (rename_hook_message m)\<rparr>
                             | _ \<Rightarrow> e)) fs"

definition migrateToCurrentVersion :: "(nat \<Rightarrow> nat \<Rightarrow> jstr) \<Rightarrow> file_entry list \<Rightarrow> file_entry list \<times> bool" where
  "migrateToCurrentVersion uuids fs =
     (let version = (case Option.bind (first_header fs) sh_version of None \<Rightarrow> 1 | Some v \<Rightarrow> v)
      in if CURRENT_SESSION_VERSION \<le> version then (fs, False)
         else (let fs = (if version < 2 then migrateV1ToV2 uuids fs else fs);
                   fs = (if version < 3 then migrateV2ToV3 fs else fs)
               in (fs, True)))"

end
