(* ===== verification/Session_History.thy ===== *)
theory Session_History
  imports Session_Entries
begin

text \<open>
  Reading a session (\<open>core/session-manager-history.ts\<close>): the index of its entries, the path from the
  root to an entry, and the context that the path gives.  \<open>date_ms\<close> is \<open>new Date(text).getTime()\<close>.
\<close>

subsection \<open>Messages of the context\<close>

definition createCustomMessage ::
    "(jstr \<Rightarrow> js_num) \<Rightarrow> jstr \<Rightarrow> json option \<Rightarrow> bool \<Rightarrow> json option \<Rightarrow> jstr \<Rightarrow> bool \<Rightarrow> jstr option \<Rightarrow> json" where
  "createCustomMessage date_ms customType content display details timestamp excluded admissionKey =
     jobj [(''role'', Some (JStr (js ''custom''))), (''customType'', Some (JStr customType)),
           (''content'', if nullish content then Some (JArr []) else content), (''display'', Some (JBool display)),
           (''details'', details), (''stageAdmissionKey'', map_option JStr admissionKey),
           (''timestamp'', Some (JNum (date_ms timestamp))),
           (''excludeFromContext'', if excluded then Some (JBool True) else None)]"

definition createBranchSummaryMessage :: "(jstr \<Rightarrow> js_num) \<Rightarrow> jstr \<Rightarrow> jstr \<Rightarrow> jstr \<Rightarrow> json" where
  "createBranchSummaryMessage date_ms summary fromId timestamp =
     jobj [(''role'', Some (JStr (js ''branchSummary''))), (''summary'', Some (JStr summary)),
           (''fromId'', Some (JStr fromId)), (''timestamp'', Some (JNum (date_ms timestamp)))]"

definition VERBATIM_COMPACTION_PREFIX :: jstr where
  "VERBATIM_COMPACTION_PREFIX =
     js ''The earlier conversation was compacted. Below is the verbatim transcript of the retained lines; '' @
     js ''elided spans are marked \"(filtered N lines)\".'' @ [js_LF, js_LF]"

definition merge_block :: "chunk list \<Rightarrow> chunk \<Rightarrow> chunk list" where
  "merge_block content block =
     (case (rev content, block) of
        (TextChunk l # r, TextChunk t) \<Rightarrow> rev r @ [TextChunk (l @ t)]
      | _ \<Rightarrow> content @ [block])"

fun chunk_json :: "chunk \<Rightarrow> json" where
  "chunk_json (TextChunk t) = text_block t"
| "chunk_json (ImageChunk b) = b"

definition createVerbatimCompactionMessage ::
    "(jstr \<Rightarrow> js_num) \<Rightarrow> jstr \<Rightarrow> js_num \<Rightarrow> jstr \<Rightarrow> json option \<Rightarrow> chunk list \<Rightarrow> json" where
  "createVerbatimCompactionMessage date_ms compactedText tokensBefore timestamp details tail =
     (let content = foldl merge_block [TextChunk (VERBATIM_COMPACTION_PREFIX @ compactedText)] tail
      in createCustomMessage date_ms (js ''compaction'') (Some (JArr (map chunk_json content))) True
           (if nullish details then Some (jobj [(''tokensBefore'', Some (JNum tokensBefore))]) else details)
           timestamp False None)"

definition contextMessageFromEntry :: "(jstr \<Rightarrow> js_num) \<Rightarrow> session_entry \<Rightarrow> json option" where
  "contextMessageFromEntry date_ms e =
     (case se_body e of
        MessageEntry m \<Rightarrow> Some (normalizeMessageContent m)
      | CustomMessageEntry c \<Rightarrow>
          Some (createCustomMessage date_ms (cm_customType c) (cm_content c) (cm_display c) (cm_details c)
                  (se_timestamp e) (cm_excludeFromContext c) (cm_stageAdmissionKey c))
      | BranchSummary b \<Rightarrow>
          (if 0 < length (bs_summary b)
           then Some (createBranchSummaryMessage date_ms (bs_summary b) (bs_fromId b) (se_timestamp e)) else None)
      | _ \<Rightarrow> None)"

definition serializeKeptTail ::
    "(js_num \<Rightarrow> jstr) \<Rightarrow> (json \<Rightarrow> jstr) \<Rightarrow> (jstr \<Rightarrow> js_num) \<Rightarrow> session_entry list \<Rightarrow> chunk list" where
  "serializeKeptTail num_text stringify date_ms entries =
     (let messages = List.map_filter (contextMessageFromEntry date_ms) entries
      in if messages = [] then [] else serializeRetainedTranscript stringify (convertToLlm num_text messages))"

subsection \<open>The boundary of the latest compaction\<close>

definition is_verbatim_boundary :: "session_entry \<Rightarrow> bool" where
  "is_verbatim_boundary e \<longleftrightarrow>
     (case se_body e of
        CompactionEntry c \<Rightarrow>
          (case co_details c of
             None \<Rightarrow> False | Some d \<Rightarrow> jfield d ''strategy'' = Some (JStr (js ''verbatim-lines'')))
      | _ \<Rightarrow> False)"

definition getLatestCompactionBoundaryEntry :: "session_entry list \<Rightarrow> session_entry option" where
  "getLatestCompactionBoundaryEntry entries = find is_verbatim_boundary (rev entries)"

definition sessionEntryToContextMessages :: "(jstr \<Rightarrow> js_num) \<Rightarrow> session_entry \<Rightarrow> json list" where
  "sessionEntryToContextMessages date_ms e =
     (case se_body e of
        CompactionEntry c \<Rightarrow>
          (if is_verbatim_boundary e
           then [createVerbatimCompactionMessage date_ms (co_summary c) (co_tokensBefore c) (se_timestamp e) (co_details c) []]
           else [])
      | _ \<Rightarrow> (case contextMessageFromEntry date_ms e of None \<Rightarrow> [] | Some m \<Rightarrow> [m]))"

definition normalizeDerivedSessionEntries :: "session_entry list \<Rightarrow> session_entry list" where
  "normalizeDerivedSessionEntries entries =
     map (\<lambda>e. case se_body e of MessageEntry m \<Rightarrow> e\<lparr>se_body := MessageEntry (normalizeMessageContent m)\<rparr> | _ \<Rightarrow> e)
       entries"

definition find_index :: "('a \<Rightarrow> bool) \<Rightarrow> 'a list \<Rightarrow> nat option" where
  "find_index p xs = (let n = length (takeWhile (\<lambda>x. \<not> p x) xs) in if n = length xs then None else Some n)"

definition kept_from :: "session_entry list \<Rightarrow> nat \<Rightarrow> compaction \<Rightarrow> session_entry list" where
  "kept_from path boundaryIndex c =
     (case find_index (\<lambda>e. Some (se_id e) = co_firstKeptEntryId c) (take boundaryIndex path) of
        None \<Rightarrow> []
      | Some k \<Rightarrow> drop k (take boundaryIndex path))"

definition compaction_of :: "session_entry \<Rightarrow> compaction" where
  "compaction_of e =
     (case se_body e of
        CompactionEntry c \<Rightarrow> c
      | _ \<Rightarrow> \<lparr>co_summary = [], co_firstKeptEntryId = None, co_tokensBefore = JNonFinite, co_details = None,
               co_fromHook = False, co_firstKeptEntryIndex = None\<rparr>)"

subsection \<open>The index\<close>

type_synonym entry_index = "(jstr, session_entry) jmap"

record session_index =
  ix_byId :: entry_index
  ix_labelsById :: "(jstr, jstr) jmap"
  ix_labelTimestampsById :: "(jstr, jstr) jmap"
  ix_leafId :: "jstr option"

definition set_label :: "jstr \<Rightarrow> jstr option \<Rightarrow> jstr \<Rightarrow> (jstr, jstr) jmap \<times> (jstr, jstr) jmap \<Rightarrow>
    (jstr, jstr) jmap \<times> (jstr, jstr) jmap" where
  "set_label target label timestamp ls =
     (if truthy_string label
      then (jm_set target (the label) (fst ls), jm_set target timestamp (snd ls))
      else (jm_delete target (fst ls), jm_delete target (snd ls)))"

definition index_step :: "session_entry \<Rightarrow> session_index \<Rightarrow> session_index" where
  "index_step e ix =
     (let ix = ix\<lparr>ix_byId := jm_set (se_id e) e (ix_byId ix), ix_leafId := Some (se_id e)\<rparr>
      in (case se_body e of
            LabelEntry target label \<Rightarrow>
              (case set_label target label (se_timestamp e) (ix_labelsById ix, ix_labelTimestampsById ix) of
                 (ls, ts) \<Rightarrow> ix\<lparr>ix_labelsById := ls, ix_labelTimestampsById := ts\<rparr>)
          | _ \<Rightarrow> ix))"

definition empty_index :: session_index where
  "empty_index = \<lparr>ix_byId = [], ix_labelsById = [], ix_labelTimestampsById = [], ix_leafId = None\<rparr>"

definition buildSessionIndex :: "file_entry list \<Rightarrow> session_index" where
  "buildSessionIndex fs = fold index_step (getEntriesWithoutHeader fs) empty_index"

subsection \<open>Paths\<close>

text \<open>\<open>id ? byId.get(id) : undefined\<close>.\<close>

definition get_entry :: "entry_index \<Rightarrow> jstr option \<Rightarrow> session_entry option" where
  "get_entry byId i = (case i of None \<Rightarrow> None | Some k \<Rightarrow> if k = [] then None else jm_get byId k)"

text \<open>The walk to the root; on a cycle it does not return.\<close>

partial_function (option) branch_loop ::
    "entry_index \<Rightarrow> session_entry option \<Rightarrow> session_entry list \<Rightarrow> session_entry list option" where
  [code]: "branch_loop byId current path =
     (case current of
        None \<Rightarrow> Some (rev path)
      | Some e \<Rightarrow> branch_loop byId (get_entry byId (se_parentId e)) (path @ [e]))"

definition getBranchPath :: "jstr option \<Rightarrow> entry_index \<Rightarrow> session_entry list option" where
  "getBranchPath fromId byId = branch_loop byId (get_entry byId fromId) []"

subsection \<open>The context\<close>

text \<open>The argument \<open>leafId\<close>: \<open>undefined\<close>, \<open>null\<close> or an id.\<close>

datatype leaf_arg = LeafUndefined | LeafNull | LeafId jstr

definition leaf_arg_of :: "jstr option \<Rightarrow> leaf_arg" where
  "leaf_arg_of i = (case i of None \<Rightarrow> LeafNull | Some k \<Rightarrow> LeafId k)"

definition last_entry :: "session_entry list \<Rightarrow> session_entry option" where
  "last_entry es = (if es = [] then None else Some (last es))"

definition buildContextEntries ::
    "session_entry list \<Rightarrow> leaf_arg \<Rightarrow> entry_index \<Rightarrow> session_entry list option" where
  "buildContextEntries entries leafId byId =
     (let leaf = (case leafId of
                    LeafNull \<Rightarrow> None
                  | LeafUndefined \<Rightarrow> last_entry entries
                  | LeafId k \<Rightarrow> (if k = [] then last_entry entries else jm_get byId k))
      in (case leaf of
            None \<Rightarrow> Some []
          | Some l \<Rightarrow>
              map_option (\<lambda>p.
                let path = normalizeDerivedSessionEntries p
                in (case getLatestCompactionBoundaryEntry path of
                      None \<Rightarrow> path
                    | Some boundary \<Rightarrow>
                        (let boundaryIndex = the (find_index (\<lambda>e. se_id e = se_id boundary) path)
                         in boundary # kept_from path boundaryIndex (compaction_of boundary) @
                            drop (boundaryIndex + 1) path)))
                (getBranchPath (Some (se_id l)) byId)))"

record session_context =
  sc_messages :: "json list"
  sc_thinkingLevel :: jstr
  sc_model :: "(json option \<times> json option) option"

definition settings_step :: "session_entry \<Rightarrow> jstr \<times> (json option \<times> json option) option \<Rightarrow>
    jstr \<times> (json option \<times> json option) option" where
  "settings_step e st =
     (case se_body e of
        ThinkingLevelChange l \<Rightarrow> (l, snd st)
      | ModelChange p m \<Rightarrow> (fst st, Some (Some (JStr p), Some (JStr m)))
      | MessageEntry m \<Rightarrow>
          (if has_role m ''assistant'' then (fst st, Some (jfield m ''provider'', jfield m ''model'')) else st)
      | _ \<Rightarrow> st)"

definition context_messages ::
    "(js_num \<Rightarrow> jstr) \<Rightarrow> (json \<Rightarrow> jstr) \<Rightarrow> (jstr \<Rightarrow> js_num) \<Rightarrow> session_entry list \<Rightarrow> json list" where
  "context_messages num_text stringify date_ms path =
     (case getLatestCompactionBoundaryEntry path of
        None \<Rightarrow> List.map_filter (contextMessageFromEntry date_ms) path
      | Some boundary \<Rightarrow>
          (let boundaryIndex = the (find_index (\<lambda>e. se_id e = se_id boundary) path);
               c = compaction_of boundary;
               keptTail = serializeKeptTail num_text stringify date_ms (kept_from path boundaryIndex c);
               separator = (if keptTail \<noteq> [] \<and> co_summary c \<noteq> [] then [TextChunk [js_LF, js_LF]] else [])
           in createVerbatimCompactionMessage date_ms (co_summary c) (co_tokensBefore c) (se_timestamp boundary)
                (co_details c) (separator @ keptTail) #
              List.map_filter (contextMessageFromEntry date_ms) (drop (boundaryIndex + 1) path)))"

definition empty_context :: session_context where
  "empty_context = \<lparr>sc_messages = [], sc_thinkingLevel = js ''off'', sc_model = None\<rparr>"

definition buildSessionContext ::
    "(js_num \<Rightarrow> jstr) \<Rightarrow> (json \<Rightarrow> jstr) \<Rightarrow> (jstr \<Rightarrow> js_num) \<Rightarrow>
     session_entry list \<Rightarrow> leaf_arg \<Rightarrow> entry_index \<Rightarrow> session_context option" where
  "buildSessionContext num_text stringify date_ms entries leafId byId =
     (let found = (case leafId of LeafId k \<Rightarrow> (if k = [] then None else jm_get byId k) | _ \<Rightarrow> None);
          leaf = (if leafId = LeafNull then None
                  else (case found of None \<Rightarrow> last_entry entries | Some l \<Rightarrow> Some l))
      in (case leaf of
            None \<Rightarrow> Some empty_context
          | Some l \<Rightarrow>
              map_option (\<lambda>p.
                let path = normalizeDerivedSessionEntries p;
                    settings = fold settings_step path (js ''off'', None)
                in \<lparr>sc_messages = context_messages num_text stringify date_ms path,
                    sc_thinkingLevel = fst settings, sc_model = snd settings\<rparr>)
                (getBranchPath (Some (se_id l)) byId)))"

end
