(* ===== verification/Session_Manager.thy ===== *)
theory Session_Manager
  imports Session_History
begin

text \<open>
  The session manager (\<open>core/session-manager-core.ts\<close>) and its file (\<open>session-manager-storage.ts\<close>,
  \<open>session-manager-archive.ts\<close>).  A file is the list of its lines that parse; a write either succeeds
  or fails and leaves the file as it was (\<open>ok\<close>).
\<close>

subsection \<open>State\<close>

type_synonym session_files = "(jstr, file_entry list) jmap"

record session_manager =
  sm_sessionId :: jstr
  sm_sessionFile :: "jstr option"
  sm_sessionDir :: jstr
  sm_cwd :: jstr
  sm_persist :: bool
  sm_flushed :: bool
  sm_fileEntries :: "file_entry list"
  sm_byId :: entry_index
  sm_labelsById :: "(jstr, jstr) jmap"
  sm_labelTimestampsById :: "(jstr, jstr) jmap"
  sm_leafId :: "jstr option"

type_synonym session_world = "session_manager \<times> session_files"

text \<open>What a call returns: an error or a value, and the state it leaves.\<close>

type_synonym 'a session_call = "(jstr + 'a) \<times> session_world"

subsection \<open>Files\<close>

definition loadEntriesFromFile :: "jstr \<Rightarrow> session_files \<Rightarrow> file_entry list" where
  "loadEntriesFromFile path files =
     (case jm_get files path of
        Some (Header h # fs) \<Rightarrow> Header h # fs
      | _ \<Rightarrow> [])"

definition readSessionHeader :: "jstr \<Rightarrow> session_files \<Rightarrow> session_header option" where
  "readSessionHeader path files = (case jm_get files path of Some (Header h # fs) \<Rightarrow> Some h | _ \<Rightarrow> None)"

definition writeSessionEntries :: "jstr \<Rightarrow> file_entry list \<Rightarrow> session_files \<Rightarrow> session_files" where
  "writeSessionEntries path entries files = jm_set path entries files"

definition appendSessionEntries :: "jstr \<Rightarrow> file_entry list \<Rightarrow> session_files \<Rightarrow> session_files" where
  "appendSessionEntries path entries files =
     jm_set path ((case jm_get files path of None \<Rightarrow> [] | Some fs \<Rightarrow> fs) @ entries) files"

definition persistAppendedEntry ::
    "jstr \<Rightarrow> file_entry list \<Rightarrow> file_entry \<Rightarrow> bool \<Rightarrow> bool \<Rightarrow> session_files \<Rightarrow> (bool \<times> session_files) option" where
  "persistAppendedEntry path entries entry flushed ok files =
     (if \<not> hasAssistantMessage entries then Some (False, files)
      else if \<not> ok then None
      else Some (True, appendSessionEntries path (if flushed then [entry] else entries) files))"

definition write_error :: jstr where "write_error = js ''write failed''"

definition rewriteFile :: "bool \<Rightarrow> session_world \<Rightarrow> session_files option" where
  "rewriteFile ok w =
     (if \<not> sm_persist (fst w) then Some (snd w)
      else (case sm_sessionFile (fst w) of
              None \<Rightarrow> Some (snd w)
            | Some path \<Rightarrow> (if ok then Some (writeSessionEntries path (sm_fileEntries (fst w)) (snd w)) else None)))"

subsection \<open>Appending\<close>

definition persist_entry :: "session_entry \<Rightarrow> bool \<Rightarrow> session_world \<Rightarrow> session_world option" where
  "persist_entry e ok w =
     (case w of (s, files) \<Rightarrow>
        (if \<not> sm_persist s then Some w
         else (case sm_sessionFile s of
                 None \<Rightarrow> Some w
               | Some path \<Rightarrow>
                   map_option (\<lambda>(flushed, files'). (s\<lparr>sm_flushed := flushed\<rparr>, files'))
                     (persistAppendedEntry path (sm_fileEntries s) (Entry e) (sm_flushed s) ok files))))"

definition publish :: "session_entry \<Rightarrow> session_manager \<Rightarrow> session_manager" where
  "publish e s =
     s\<lparr>sm_fileEntries := sm_fileEntries s @ [Entry e], sm_byId := jm_set (se_id e) e (sm_byId s),
       sm_leafId := Some (se_id e)\<rparr>"

definition unpublish :: "session_entry \<Rightarrow> jstr option \<Rightarrow> session_manager \<Rightarrow> session_manager" where
  "unpublish e previousLeafId s =
     s\<lparr>sm_fileEntries := butlast (sm_fileEntries s), sm_byId := jm_delete (se_id e) (sm_byId s),
       sm_leafId := previousLeafId\<rparr>"

definition appendEntry :: "session_entry \<Rightarrow> bool \<Rightarrow> session_world \<Rightarrow> jstr session_call" where
  "appendEntry e ok w =
     (let s = publish e (fst w)
      in (case persist_entry e ok (s, snd w) of
            Some w' \<Rightarrow> (Inr (se_id e), w')
          | None \<Rightarrow> (Inl write_error, (unpublish e (sm_leafId (fst w)) s, snd w))))"

abbreviation has_entry :: "session_manager \<Rightarrow> jstr \<Rightarrow> bool" where
  "has_entry s i \<equiv> i \<in> set (jm_keys (sm_byId s))"

text \<open>
  \<open>appendMessage\<close>, \<open>appendThinkingLevelChange\<close>, \<open>appendModelChange\<close>, \<open>appendCustomEntry\<close>, \<open>appendSessionInfo\<close>
  and \<open>appendCustomMessageEntry\<close> differ in the body only.
\<close>

definition append_body :: "entry_body \<Rightarrow> (nat \<Rightarrow> jstr) \<Rightarrow> jstr \<Rightarrow> bool \<Rightarrow> session_world \<Rightarrow> jstr session_call" where
  "append_body body uuids now ok w =
     appendEntry (entryBase (has_entry (fst w)) (sm_leafId (fst w)) uuids now body) ok w"

definition appendMessage :: "json \<Rightarrow> (nat \<Rightarrow> jstr) \<Rightarrow> jstr \<Rightarrow> bool \<Rightarrow> session_world \<Rightarrow> jstr session_call" where
  "appendMessage m = append_body (MessageEntry m)"

definition appendSessionInfo :: "jstr \<Rightarrow> (nat \<Rightarrow> jstr) \<Rightarrow> jstr \<Rightarrow> bool \<Rightarrow> session_world \<Rightarrow> jstr session_call" where
  "appendSessionInfo name = append_body (session_info_body name)"

definition appendThinkingLevelChange :: "jstr \<Rightarrow> (nat \<Rightarrow> jstr) \<Rightarrow> jstr \<Rightarrow> bool \<Rightarrow> session_world \<Rightarrow> jstr session_call" where
  "appendThinkingLevelChange level = append_body (ThinkingLevelChange level)"

definition appendModelChange :: "jstr \<Rightarrow> jstr \<Rightarrow> (nat \<Rightarrow> jstr) \<Rightarrow> jstr \<Rightarrow> bool \<Rightarrow> session_world \<Rightarrow> jstr session_call" where
  "appendModelChange provider modelId = append_body (ModelChange provider modelId)"

definition appendCustomEntry ::
    "jstr \<Rightarrow> json option \<Rightarrow> (nat \<Rightarrow> jstr) \<Rightarrow> jstr \<Rightarrow> bool \<Rightarrow> session_world \<Rightarrow> jstr session_call" where
  "appendCustomEntry customType data = append_body (CustomEntry customType data)"

definition appendCustomMessageEntry ::
    "jstr \<Rightarrow> json \<Rightarrow> bool \<Rightarrow> json option \<Rightarrow> bool option \<Rightarrow> jstr option \<Rightarrow> jstr option \<Rightarrow>
     (nat \<Rightarrow> jstr) \<Rightarrow> jstr \<Rightarrow> bool \<Rightarrow> session_world \<Rightarrow> jstr session_call" where
  "appendCustomMessageEntry customType content display details excludeFromContext reconciliation admissionKey =
     append_body (custom_message_body customType content display details excludeFromContext reconciliation admissionKey)"

definition not_found :: "jstr \<Rightarrow> jstr" where
  "not_found i = js ''Entry '' @ i @ js '' not found''"

definition appendCompaction ::
    "jstr \<Rightarrow> jstr option \<Rightarrow> js_num \<Rightarrow> json \<Rightarrow> (nat \<Rightarrow> jstr) \<Rightarrow> jstr \<Rightarrow> bool \<Rightarrow> session_world \<Rightarrow> jstr session_call" where
  "appendCompaction compactedText firstKept tokensBefore details uuids now ok w =
     (case firstKept of
        Some k \<Rightarrow>
          (if \<not> has_entry (fst w) k then (Inl (not_found k), w)
           else append_body (compaction_body compactedText firstKept tokensBefore details) uuids now ok w)
      | None \<Rightarrow> append_body (compaction_body compactedText firstKept tokensBefore details) uuids now ok w)"

definition appendLabelChange ::
    "jstr \<Rightarrow> jstr option \<Rightarrow> (nat \<Rightarrow> jstr) \<Rightarrow> jstr \<Rightarrow> bool \<Rightarrow> session_world \<Rightarrow> jstr session_call" where
  "appendLabelChange targetId label uuids now ok w =
     (if \<not> has_entry (fst w) targetId then (Inl (not_found targetId), w)
      else (case append_body (LabelEntry targetId label) uuids now ok w of
              (Inl e, w') \<Rightarrow> (Inl e, w')
            | (Inr i, (s, files)) \<Rightarrow>
                (case set_label targetId label now (sm_labelsById s, sm_labelTimestampsById s) of
                   (ls, ts) \<Rightarrow> (Inr i, (s\<lparr>sm_labelsById := ls, sm_labelTimestampsById := ts\<rparr>, files)))))"

subsection \<open>Branches\<close>

definition branch :: "jstr \<Rightarrow> session_world \<Rightarrow> unit session_call" where
  "branch branchFromId w =
     (if \<not> has_entry (fst w) branchFromId then (Inl (not_found branchFromId), w)
      else (Inr (), ((fst w)\<lparr>sm_leafId := Some branchFromId\<rparr>, snd w)))"

definition resetLeaf :: "session_world \<Rightarrow> unit session_call" where
  "resetLeaf w = (Inr (), ((fst w)\<lparr>sm_leafId := None\<rparr>, snd w))"

definition branchWithSummary ::
    "jstr option \<Rightarrow> jstr \<Rightarrow> json option \<Rightarrow> bool option \<Rightarrow> json option \<Rightarrow> (nat \<Rightarrow> jstr) \<Rightarrow> jstr \<Rightarrow> bool \<Rightarrow>
     session_world \<Rightarrow> jstr session_call" where
  "branchWithSummary branchFromId summary details fromHook usage uuids now ok w =
     (if branchFromId \<noteq> None \<and> \<not> has_entry (fst w) (the branchFromId)
      then (Inl (not_found (the branchFromId)), w)
      else append_body (branch_summary_body branchFromId summary details usage fromHook) uuids now ok
             ((fst w)\<lparr>sm_leafId := branchFromId\<rparr>, snd w))"

definition getEntries :: "session_manager \<Rightarrow> session_entry list" where
  "getEntries s = getEntriesWithoutHeader (sm_fileEntries s)"

definition getHeader :: "session_manager \<Rightarrow> session_header option" where
  "getHeader s = first_header (sm_fileEntries s)"

definition getChildren :: "jstr \<Rightarrow> session_manager \<Rightarrow> session_entry list" where
  "getChildren parentId s = filter (\<lambda>e. se_parentId e = Some parentId) (jm_values (sm_byId s))"

definition getSessionName :: "session_manager \<Rightarrow> jstr option" where
  "getSessionName s = getLatestSessionName (getEntries s)"

definition getBranch :: "jstr option \<Rightarrow> session_manager \<Rightarrow> session_entry list option" where
  "getBranch fromId s = getBranchPath (case fromId of None \<Rightarrow> sm_leafId s | Some i \<Rightarrow> Some i) (sm_byId s)"

definition session_context_of ::
    "(js_num \<Rightarrow> jstr) \<Rightarrow> (json \<Rightarrow> jstr) \<Rightarrow> (jstr \<Rightarrow> js_num) \<Rightarrow> session_manager \<Rightarrow> session_context option" where
  "session_context_of num_text stringify date_ms s =
     buildSessionContext num_text stringify date_ms (getEntries s) (leaf_arg_of (sm_leafId s)) (sm_byId s)"

subsection \<open>New and branched sessions\<close>

definition build_index :: "session_manager \<Rightarrow> session_manager" where
  "build_index s =
     (let ix = buildSessionIndex (sm_fileEntries s)
      in s\<lparr>sm_byId := ix_byId ix, sm_labelsById := ix_labelsById ix,
           sm_labelTimestampsById := ix_labelTimestampsById ix, sm_leafId := ix_leafId ix\<rparr>)"

definition createSessionFilePath :: "(jstr \<Rightarrow> jstr \<Rightarrow> jstr) \<Rightarrow> jstr \<Rightarrow> jstr \<Rightarrow> jstr \<Rightarrow> jstr" where
  "createSessionFilePath join_path sessionDir timestamp sessionId =
     join_path sessionDir
       (map (\<lambda>c. if c \<in> set (js '':.'') then of_char (CHR ''-'') else c) timestamp @ js ''_'' @ sessionId @ js ''.jsonl'')"

record new_session_options =
  no_id :: "jstr option"
  no_parentSession :: "jstr option"
  no_internal :: "bool option"
  no_workflow :: "json option"

definition no_options :: new_session_options where
  "no_options = \<lparr>no_id = None, no_parentSession = None, no_internal = None, no_workflow = None\<rparr>"

text \<open>\<open>sid\<close> is the fresh session id, used unless the options name one.\<close>

definition newSession ::
    "(jstr \<Rightarrow> jstr \<Rightarrow> jstr) \<Rightarrow> new_session_options \<Rightarrow> jstr \<Rightarrow> jstr \<Rightarrow> session_world \<Rightarrow> jstr option session_call" where
  "newSession join_path opts sid now w =
     (case (case no_id opts of None \<Rightarrow> Inr () | Some i \<Rightarrow> assertValidSessionId i) of
        Inl e \<Rightarrow> (Inl e, w)
      | Inr u \<Rightarrow>
          (let s = fst w;
               i = (case no_id opts of None \<Rightarrow> sid | Some i \<Rightarrow> i);
               header = createSessionHeader i (sm_cwd s) now (no_parentSession opts) (no_internal opts) (no_workflow opts);
               s = s\<lparr>sm_sessionId := i, sm_fileEntries := [Header header], sm_byId := [], sm_labelsById := [],
                     sm_labelTimestampsById := [], sm_leafId := None, sm_flushed := False\<rparr>;
               s = (if sm_persist s
                    then s\<lparr>sm_sessionFile := Some (createSessionFilePath join_path (sm_sessionDir s) now i)\<rparr> else s)
           in (Inr (sm_sessionFile s), (s, snd w))))"

type_synonym label_to_write = "jstr \<times> jstr \<times> jstr"

definition collectLabelsForPath ::
    "jstr list \<Rightarrow> (jstr, jstr) jmap \<Rightarrow> (jstr, jstr) jmap \<Rightarrow> label_to_write list" where
  "collectLabelsForPath pathEntryIds labels timestamps =
     map (\<lambda>(target, label). (target, label, the (jm_get timestamps target)))
       (filter (\<lambda>(target, label). target \<in> set pathEntryIds) labels)"

fun buildPersistedLabelEntries ::
    "(nat \<Rightarrow> nat \<Rightarrow> jstr) \<Rightarrow> nat \<Rightarrow> jstr list \<Rightarrow> jstr option \<Rightarrow> label_to_write list \<Rightarrow> session_entry list" where
  "buildPersistedLabelEntries uuids n ids parentId [] = []"
| "buildPersistedLabelEntries uuids n ids parentId ((target, label, timestamp) # ls) =
     (let e = createLabelEntry target (Some label) (\<lambda>i. i \<in> set ids) parentId (uuids n) timestamp
      in e # buildPersistedLabelEntries uuids (Suc n) (js_set_add (se_id e) ids) (Some (se_id e)) ls)"

fun buildInMemoryLabelEntries ::
    "(nat \<Rightarrow> nat \<Rightarrow> jstr) \<Rightarrow> jstr list \<Rightarrow> jstr option \<Rightarrow> session_entry list \<Rightarrow> label_to_write list \<Rightarrow> session_entry list" where
  "buildInMemoryLabelEntries uuids pathEntryIds parentId made [] = made"
| "buildInMemoryLabelEntries uuids pathEntryIds parentId made ((target, label, timestamp) # ls) =
     (let e = \<lparr>se_id = generateId (\<lambda>i. i \<in> set (pathEntryIds @ map se_id made)) (uuids (length made)),
               se_parentId = parentId, se_timestamp = timestamp, se_body = LabelEntry target (Some label)\<rparr>
      in buildInMemoryLabelEntries uuids pathEntryIds (Some (se_id e)) (made @ [e]) ls)"

definition is_label :: "session_entry \<Rightarrow> bool" where
  "is_label e \<longleftrightarrow> (case se_body e of LabelEntry t l \<Rightarrow> True | _ \<Rightarrow> False)"

text \<open>The entries of the branched session; \<open>id || null\<close> of the last entry of the path is its parent.\<close>

definition branched_entries ::
    "(nat \<Rightarrow> nat \<Rightarrow> jstr) \<Rightarrow> bool \<Rightarrow> session_entry list \<Rightarrow> (jstr, jstr) jmap \<Rightarrow> (jstr, jstr) jmap \<Rightarrow> session_entry list" where
  "branched_entries uuids persist path labels timestamps =
     (let pathWithoutLabels = filter (\<lambda>e. \<not> is_label e) path;
          ids = remdups (map se_id pathWithoutLabels);
          labelsToWrite = collectLabelsForPath ids labels timestamps;
          lastEntryId = (if pathWithoutLabels = [] then None
                         else if se_id (last pathWithoutLabels) = [] then None
                         else Some (se_id (last pathWithoutLabels)));
          labelEntries = (if persist then buildPersistedLabelEntries uuids 0 ids lastEntryId labelsToWrite
                          else buildInMemoryLabelEntries uuids ids lastEntryId [] labelsToWrite)
      in pathWithoutLabels @ labelEntries)"

definition branched_header :: "session_manager \<Rightarrow> jstr \<Rightarrow> jstr \<Rightarrow> session_header" where
  "branched_header s sid now =
     (let workflow = classifiedWorkflowMetadata (getHeader s)
      in createSessionHeader sid (sm_cwd s) now (if sm_persist s then sm_sessionFile s else None)
           (Some (workflow \<noteq> None)) workflow)"

text \<open>The outer option: the walk to the root may not return.\<close>

definition createBranchedSession ::
    "(jstr \<Rightarrow> jstr \<Rightarrow> jstr) \<Rightarrow> jstr \<Rightarrow> (nat \<Rightarrow> nat \<Rightarrow> jstr) \<Rightarrow> jstr \<Rightarrow> jstr \<Rightarrow> bool \<Rightarrow> session_world \<Rightarrow>
     jstr option session_call option" where
  "createBranchedSession join_path leafId uuids sid now ok w =
     map_option (\<lambda>path.
       let s = fst w
       in if path = [] then (Inl (not_found leafId), w)
          else (let file = createSessionFilePath join_path (sm_sessionDir s) now sid;
                    entries = Header (branched_header s sid now) #
                      map Entry (branched_entries uuids (sm_persist s) path (sm_labelsById s) (sm_labelTimestampsById s));
                    s' = build_index (s\<lparr>sm_fileEntries := entries, sm_sessionId := sid,
                           sm_sessionFile := (if sm_persist s then Some file else sm_sessionFile s)\<rparr>)
                in if \<not> sm_persist s then (Inr None, (s', snd w))
                   else if \<not> hasAssistantMessage entries then (Inr (Some file), (s'\<lparr>sm_flushed := False\<rparr>, snd w))
                   else (case rewriteFile ok (s', snd w) of
                           None \<Rightarrow> (Inl write_error, (s', snd w))
                         | Some files \<Rightarrow> (Inr (Some file), (s'\<lparr>sm_flushed := True\<rparr>, files)))))
       (getBranch (Some leafId) (fst w))"

subsection \<open>Opening, flushing and marking\<close>

definition flush :: "bool \<Rightarrow> session_world \<Rightarrow> unit session_call" where
  "flush ok w =
     (if \<not> sm_persist (fst w) \<or> sm_sessionFile (fst w) = None then (Inr (), w)
      else (case rewriteFile ok w of
              None \<Rightarrow> (Inl write_error, w)
            | Some files \<Rightarrow> (Inr (), ((fst w)\<lparr>sm_flushed := True\<rparr>, files))))"

fun mark_header :: "json \<Rightarrow> file_entry list \<Rightarrow> file_entry list" where
  "mark_header meta [] = []"
| "mark_header meta (Header h # fs) = Header (h\<lparr>sh_internal := Some (JBool True), sh_workflow := Some meta\<rparr>) # fs"
| "mark_header meta (Entry e # fs) = Entry e # mark_header meta fs"

definition markSessionInternal :: "json option \<Rightarrow> bool \<Rightarrow> session_world \<Rightarrow> unit session_call" where
  "markSessionInternal workflow ok w =
     (let s = fst w
      in if getHeader s = None \<or> classifiedWorkflowMetadata (getHeader s) \<noteq> None then (Inr (), w)
         else (case validSessionWorkflowMetadata workflow of
                 None \<Rightarrow> (Inr (), w)
               | Some meta \<Rightarrow>
                   (let s' = s\<lparr>sm_fileEntries := mark_header meta (sm_fileEntries s)\<rparr>
                    in if \<not> sm_flushed s then (Inr (), (s', snd w))
                       else (case rewriteFile ok (s', snd w) of
                               None \<Rightarrow> (Inl write_error, (s', snd w))
                             | Some files \<Rightarrow> (Inr (), (s', files))))))"

definition setSessionFile ::
    "(jstr \<Rightarrow> jstr \<Rightarrow> jstr) \<Rightarrow> jstr \<Rightarrow> (nat \<Rightarrow> nat \<Rightarrow> jstr) \<Rightarrow> jstr \<Rightarrow> jstr \<Rightarrow> bool \<Rightarrow> session_world \<Rightarrow>
     unit session_call" where
  "setSessionFile join_path path uuids sid now ok w =
     (let s = (fst w)\<lparr>sm_sessionFile := Some path\<rparr>; files = snd w;
          fresh = (fst (snd (newSession join_path no_options sid now (s, files))))\<lparr>sm_sessionFile := Some path\<rparr>
      in (case jm_get files path of
            None \<Rightarrow> (Inr (), (fresh, files))
          | Some raw \<Rightarrow>
              (let entries = loadEntriesFromFile path files
               in if entries = [] then
                    (if raw \<noteq> [] then (Inl (js ''Session file is not a valid Orphus session: '' @ path),
                                       (s\<lparr>sm_fileEntries := []\<rparr>, files))
                     else (case rewriteFile ok (fresh, files) of
                             None \<Rightarrow> (Inl write_error, (fresh, files))
                           | Some files' \<Rightarrow> (Inr (), (fresh\<lparr>sm_flushed := True\<rparr>, files'))))
                  else (let sid' = (case first_header entries of None \<Rightarrow> sid | Some h \<Rightarrow> sh_id h);
                            (migrated, changed) = migrateToCurrentVersion uuids entries;
                            s1 = s\<lparr>sm_fileEntries := migrated, sm_sessionId := sid'\<rparr>
                        in (case (if changed then rewriteFile ok (s1, files) else Some files) of
                              None \<Rightarrow> (Inl write_error, (s1, files))
                            | Some files' \<Rightarrow> (Inr (), ((build_index s1)\<lparr>sm_flushed := True\<rparr>, files')))))))"

text \<open>A copy of a session file under a new header; the writes succeed.\<close>

definition forkSessionFromFile ::
    "(jstr \<Rightarrow> jstr \<Rightarrow> jstr) \<Rightarrow> jstr \<Rightarrow> jstr \<Rightarrow> jstr \<Rightarrow> new_session_options \<Rightarrow> jstr \<Rightarrow> jstr \<Rightarrow> session_files \<Rightarrow>
     (jstr + jstr) \<times> session_files" where
  "forkSessionFromFile join_path sourcePath targetCwd dir opts sid now files =
     (let source = loadEntriesFromFile sourcePath files
      in if source = [] then
           (Inl (js ''Cannot fork: source session file is empty or invalid: '' @ sourcePath), files)
         else if first_header source = None then
           (Inl (js ''Cannot fork: source session has no header: '' @ sourcePath), files)
         else (case (case no_id opts of None \<Rightarrow> Inr () | Some i \<Rightarrow> assertValidSessionId i) of
                 Inl e \<Rightarrow> (Inl e, files)
               | Inr u \<Rightarrow>
                   (let i = (case no_id opts of None \<Rightarrow> sid | Some i \<Rightarrow> i);
                        path = createSessionFilePath join_path dir now i;
                        header = createSessionHeader i targetCwd now (Some sourcePath) (no_internal opts) (no_workflow opts)
                    in (Inr path,
                        fold (\<lambda>f files. case f of Header h \<Rightarrow> files | Entry e \<Rightarrow> appendSessionEntries path [Entry e] files)
                          source (appendSessionEntries path [Header header] files)))))"

end
