(* ===== verification/Session_Tree.thy ===== *)
theory Session_Tree
  imports Session_Manager
begin

text \<open>
  What holds of every session: its entries form a tree whose parents come first, the index is that of
  the entries, walks to the root return, and the file holds what memory holds.
\<close>

subsection \<open>Trees\<close>

text \<open>Ids are new and not empty; a parent comes earlier.\<close>

fun tree_from :: "jstr list \<Rightarrow> session_entry list \<Rightarrow> bool" where
  "tree_from seen [] \<longleftrightarrow> True"
| "tree_from seen (e # es) \<longleftrightarrow>
     se_id e \<noteq> [] \<and> se_id e \<notin> set seen \<and> (case se_parentId e of None \<Rightarrow> True | Some p \<Rightarrow> p \<in> set seen) \<and>
     tree_from (seen @ [se_id e]) es"

abbreviation ids_of :: "session_entry list \<Rightarrow> jstr list" where "ids_of es \<equiv> map se_id es"

abbreviation index_of :: "session_entry list \<Rightarrow> entry_index" where "index_of es \<equiv> map (\<lambda>e. (se_id e, e)) es"

lemma tree_from_append: "tree_from seen (xs @ ys) \<longleftrightarrow> tree_from seen xs \<and> tree_from (seen @ ids_of xs) ys"
  by (induction xs arbitrary: seen) simp_all

lemma tree_from_ids:
  "tree_from seen es \<Longrightarrow> distinct (ids_of es) \<and> [] \<notin> set (ids_of es) \<and> set (ids_of es) \<inter> set seen = {}"
  by (induction es arbitrary: seen) fastforce+

lemma tree_from_snoc:
  "tree_from [] (es @ [e]) \<longleftrightarrow> tree_from [] es \<and> se_id e \<noteq> [] \<and> se_id e \<notin> set (ids_of es) \<and>
     (case se_parentId e of None \<Rightarrow> True | Some p \<Rightarrow> p \<in> set (ids_of es))"
  by (simp add: tree_from_append)

lemma index_keys [simp]: "jm_keys (index_of es) = ids_of es"
  by (simp add: comp_def)

lemma index_get: "distinct (ids_of es) \<Longrightarrow> e \<in> set es \<Longrightarrow> jm_get (index_of es) (se_id e) = Some e"
  by (intro map_of_is_SomeI) (auto simp: comp_def)

lemma index_get_Some: "jm_get (index_of es) i = Some e \<Longrightarrow> e \<in> set es \<and> se_id e = i"
  by (drule map_of_SomeD) auto

lemma index_snoc: "se_id e \<notin> set (ids_of es) \<Longrightarrow> jm_set (se_id e) e (index_of es) = index_of (es @ [e])"
  by (simp add: jm_set_fresh image_comp)

subsection \<open>Labels and the index\<close>

definition label_step :: "session_entry \<Rightarrow> (jstr, jstr) jmap \<times> (jstr, jstr) jmap \<Rightarrow>
    (jstr, jstr) jmap \<times> (jstr, jstr) jmap" where
  "label_step e ls =
     (case se_body e of LabelEntry target label \<Rightarrow> set_label target label (se_timestamp e) ls | _ \<Rightarrow> ls)"

definition labels_of :: "session_entry list \<Rightarrow> (jstr, jstr) jmap \<times> (jstr, jstr) jmap" where
  "labels_of es = fold label_step es ([], [])"

lemma labels_of_snoc: "labels_of (es @ [e]) = label_step e (labels_of es)"
  by (simp add: labels_of_def)

definition last_id :: "session_entry list \<Rightarrow> jstr option" where
  "last_id es = (if es = [] then None else Some (se_id (last es)))"

abbreviation session_lines :: "session_header \<Rightarrow> session_entry list \<Rightarrow> file_entry list" where
  "session_lines h es \<equiv> Header h # map Entry es"

lemma entries_of_lines [simp]: "getEntriesWithoutHeader (session_lines h es) = es"
  by (induction es) (simp_all add: getEntriesWithoutHeader_def map_filter_def)

lemma index_of_lines:
  assumes "tree_from [] es"
  shows "buildSessionIndex (session_lines h es) =
    \<lparr>ix_byId = index_of es, ix_labelsById = fst (labels_of es), ix_labelTimestampsById = snd (labels_of es),
     ix_leafId = last_id es\<rparr>"
proof -
  have "fold index_step es empty_index =
    \<lparr>ix_byId = index_of es, ix_labelsById = fst (labels_of es), ix_labelTimestampsById = snd (labels_of es),
     ix_leafId = last_id es\<rparr>"
    using assms
  proof (induction es rule: rev_induct)
    case (snoc e es)
    then have tree: "tree_from [] es" and new: "se_id e \<notin> set (ids_of es)"
      by (simp_all add: tree_from_snoc)
    show ?case
      using snoc.IH [OF tree] index_snoc [OF new]
      by (simp add: index_step_def labels_of_snoc label_step_def last_id_def Let_def
          split: entry_body.split prod.split)
  qed (simp add: empty_index_def labels_of_def last_id_def)
  then show ?thesis by (simp add: buildSessionIndex_def)
qed

subsection \<open>The walk to the root\<close>

text \<open>The path in the tree, by recursion on the entries before an id.\<close>

fun path_in :: "session_entry list \<Rightarrow> jstr option \<Rightarrow> session_entry list" where
  "path_in [] i = []"
| "path_in (e # es) i = (if Some (se_id e) = i then path_in es (se_parentId e) @ [e] else path_in es i)"

text \<open>\<open>path_in\<close> takes the entries newest first.\<close>

lemma path_in_None [simp]: "path_in es None = []"
  by (induction es) simp_all

lemma path_in_fresh: "i \<notin> set (ids_of es) \<Longrightarrow> path_in es (Some i) = []"
  by (induction es) auto

lemma branch_loop_tree:
  assumes "tree_from [] es" "case i of None \<Rightarrow> True | Some k \<Rightarrow> k \<in> set (ids_of es)" "set (index_of es) \<subseteq> set byId"
    and "jm_wf byId"
  shows "branch_loop byId (get_entry byId i) acc = Some (path_in (rev es) i @ rev acc)"
  using assms(1-3)
proof (induction es arbitrary: i acc rule: rev_induct)
  case Nil
  then show ?case by (cases i) (simp_all add: branch_loop.simps get_entry_def)
next
  case (snoc e es)
  then have tree: "tree_from [] es" and ne: "se_id e \<noteq> []"
    and par: "case se_parentId e of None \<Rightarrow> True | Some p \<Rightarrow> p \<in> set (ids_of es)"
    by (simp_all add: tree_from_snoc)
  have pre: "set (index_of es) \<subseteq> set byId" using snoc.prems(3) by simp
  show ?case
  proof (cases "i = Some (se_id e)")
    case True
    have "(se_id e, e) \<in> set byId" using snoc.prems(3) by simp
    then have "get_entry byId i = Some e"
      using assms(4) ne by (simp add: True get_entry_def)
    then show ?thesis
      using snoc.IH [OF tree par pre, of "acc @ [e]"] True by (simp add: branch_loop.simps)
  next
    case False
    then have "case i of None \<Rightarrow> True | Some k \<Rightarrow> k \<in> set (ids_of es)"
      using snoc.prems(2) by (auto split: option.splits)
    from snoc.IH [OF tree this pre] show ?thesis using False by auto
  qed
qed

lemma branch_path_tree:
  assumes "tree_from [] es" "case i of None \<Rightarrow> True | Some k \<Rightarrow> k \<in> set (ids_of es)"
  shows "getBranchPath i (index_of es) = Some (path_in (rev es) i)"
  using branch_loop_tree [OF assms, of "index_of es" "[]"] tree_from_ids [OF assms(1)]
  by (simp add: getBranchPath_def comp_def)

text \<open>A path runs from a root to its entry, each entry the parent of the next.\<close>

fun linked :: "jstr option \<Rightarrow> session_entry list \<Rightarrow> bool" where
  "linked parent [] \<longleftrightarrow> True"
| "linked parent (e # es) \<longleftrightarrow> se_parentId e = parent \<and> linked (Some (se_id e)) es"

lemma linked_append: "linked p (xs @ ys) \<longleftrightarrow> linked p xs \<and> linked (if xs = [] then p else last_id xs) ys"
  by (induction xs arbitrary: p) (auto simp: last_id_def)

lemma path_in_props:
  "tree_from [] es \<Longrightarrow> case i of None \<Rightarrow> True | Some k \<Rightarrow> k \<in> set (ids_of es) \<Longrightarrow>
   linked None (path_in (rev es) i) \<and> last_id (path_in (rev es) i) = i \<and>
   set (path_in (rev es) i) \<subseteq> set es \<and> distinct (path_in (rev es) i)"
proof (induction es arbitrary: i rule: rev_induct)
  case (snoc e es)
  then have tree: "tree_from [] es" and new: "se_id e \<notin> set (ids_of es)"
    and par: "case se_parentId e of None \<Rightarrow> True | Some p \<Rightarrow> p \<in> set (ids_of es)"
    by (simp_all add: tree_from_snoc)
  show ?case
  proof (cases "i = Some (se_id e)")
    case True
    note IH = snoc.IH [OF tree par]
    then show ?thesis using True new
      by (cases "path_in (rev es) (se_parentId e) = []") (auto simp: linked_append last_id_def)
  next
    case False
    then have "case i of None \<Rightarrow> True | Some k \<Rightarrow> k \<in> set (ids_of es)"
      using snoc.prems(2) by (auto split: option.splits)
    from snoc.IH [OF tree this] show ?thesis using False by auto
  qed
qed (auto simp: last_id_def split: option.splits)

subsection \<open>The state of a session\<close>

text \<open>\<open>randomUUID\<close> returns 36 characters, and the one tried last is not the id of an entry.\<close>

definition usable_uuids :: "jstr list \<Rightarrow> (nat \<Rightarrow> jstr) \<Rightarrow> bool" where
  "usable_uuids ids uuids \<longleftrightarrow> (\<forall>k. length (uuids k) = 36) \<and> uuids 100 \<notin> set ids"

lemma generateId_loop_cases:
  "generateId_loop i k has uuids = uuids (i + k) \<or>
   \<not> has (generateId_loop i k has uuids) \<and> (\<exists>j. generateId_loop i k has uuids = take 8 (uuids j))"
proof (induction k arbitrary: i)
  case (Suc k)
  from Suc [of "Suc i"] show ?case by (auto simp: Let_def)
qed simp

lemma generateId_fresh:
  assumes "usable_uuids ids uuids"
  shows "generateId (\<lambda>i. i \<in> set ids) uuids \<notin> set ids" "generateId (\<lambda>i. i \<in> set ids) uuids \<noteq> []"
    "generateId (\<lambda>i. i \<in> set ids) uuids = uuids 100 \<or> length (generateId (\<lambda>i. i \<in> set ids) uuids) = 8"
proof -
  have len: "length (uuids k) = 36" for k using assms by (simp add: usable_uuids_def)
  then have "uuids k \<noteq> []" for k by (metis list.size(3) zero_neq_numeral)
  then show "generateId (\<lambda>i. i \<in> set ids) uuids \<notin> set ids" "generateId (\<lambda>i. i \<in> set ids) uuids \<noteq> []"
    "generateId (\<lambda>i. i \<in> set ids) uuids = uuids 100 \<or> length (generateId (\<lambda>i. i \<in> set ids) uuids) = 8"
    using generateId_loop_cases [of 0 100 "\<lambda>i. i \<in> set ids" uuids] assms len
    by (auto simp: generateId_def usable_uuids_def)
qed

definition session_ok :: "session_header \<Rightarrow> session_entry list \<Rightarrow> session_manager \<Rightarrow> bool" where
  "session_ok h es s \<longleftrightarrow>
     sm_fileEntries s = session_lines h es \<and> sh_version h = Some CURRENT_SESSION_VERSION \<and>
     tree_from [] es \<and> sm_byId s = index_of es \<and>
     (sm_labelsById s, sm_labelTimestampsById s) = labels_of es \<and>
     (case sm_leafId s of None \<Rightarrow> True | Some k \<Rightarrow> k \<in> set (ids_of es))"

text \<open>The file holds the session once an assistant has answered, and does not exist before.\<close>

definition durable :: "session_manager \<Rightarrow> session_files \<Rightarrow> bool" where
  "durable s files \<longleftrightarrow>
     (sm_persist s \<longrightarrow>
        sm_sessionFile s \<noteq> None \<and> sm_flushed s = hasAssistantMessage (sm_fileEntries s) \<and>
        jm_get files (the (sm_sessionFile s)) = (if sm_flushed s then Some (sm_fileEntries s) else None))"

definition world_ok :: "session_world \<Rightarrow> bool" where
  "world_ok w \<longleftrightarrow> (\<exists>h es. session_ok h es (fst w)) \<and> durable (fst w) (snd w)"

lemma hasAssistant_append: "hasAssistantMessage (xs @ ys) \<longleftrightarrow> hasAssistantMessage xs \<or> hasAssistantMessage ys"
  by (simp add: hasAssistantMessage_def)

text \<open>A new entry is a leaf below the current one.\<close>

lemma entry_base_tree:
  assumes "session_ok h es s" "usable_uuids (ids_of es) uuids"
    and "case parent of None \<Rightarrow> True | Some k \<Rightarrow> k \<in> set (ids_of es)"
  shows "tree_from [] (es @ [entryBase (has_entry s) parent uuids now body])"
  using assms generateId_fresh [OF assms(2)]
  by (simp add: tree_from_snoc entryBase_def session_ok_def comp_def)

lemma appendEntry_cases:
  assumes "session_ok h es s" "tree_from [] (es @ [e])"
  shows "(\<exists>s' files'. appendEntry e ok (s, files) = (Inr (se_id e), (s', files')) \<and>
            persist_entry e ok (publish e s, files) = Some (s', files') \<and>
            s' = (publish e s)\<lparr>sm_flushed := sm_flushed s'\<rparr>) \<or>
         appendEntry e ok (s, files) = (Inl write_error, (s, files))"
proof (cases "persist_entry e ok (publish e s, files)")
  case None
  have "unpublish e (sm_leafId s) (publish e s) = s"
    using assms jm_delete_fresh [of "se_id e" "index_of es"]
    by (cases s) (simp add: unpublish_def publish_def session_ok_def index_snoc jm_delete_append tree_from_snoc image_comp)
  then show ?thesis using None by (simp add: appendEntry_def Let_def)
next
  case (Some w')
  then have "\<exists>fl files'. w' = ((publish e s)\<lparr>sm_flushed := fl\<rparr>, files')"
    by (cases "publish e s") (auto simp: persist_entry_def split: if_splits option.splits)
  then show ?thesis using Some by (auto simp: appendEntry_def Let_def)
qed

lemma publish_ok:
  assumes "session_ok h es s" "tree_from [] (es @ [e])" "\<not> is_label e"
  shows "session_ok h (es @ [e]) ((publish e s)\<lparr>sm_flushed := fl\<rparr>)"
  using assms
  by (cases "se_body e")
    (auto simp: session_ok_def publish_def index_snoc tree_from_snoc labels_of_snoc label_step_def is_label_def)

lemma publish_label_ok:
  assumes "session_ok h es s" "tree_from [] (es @ [e])" "se_body e = LabelEntry target label"
    and "set_label target label (se_timestamp e) (sm_labelsById s, sm_labelTimestampsById s) = (ls, ts)"
  shows "session_ok h (es @ [e])
           ((publish e s)\<lparr>sm_flushed := fl, sm_labelsById := ls, sm_labelTimestampsById := ts\<rparr>)"
  using assms
  by (auto simp: session_ok_def publish_def index_snoc tree_from_snoc labels_of_snoc label_step_def)

lemma publish_durable:
  assumes "durable s files" "persist_entry e ok (publish e s, files) = Some (s', files')"
  shows "durable (s'\<lparr>sm_labelsById := ls, sm_labelTimestampsById := ts\<rparr>) files'" "durable s' files'"
proof -
  show "durable s' files'"
  proof (cases "sm_persist s")
    case True
    then obtain f where f: "sm_sessionFile s = Some f"
      using assms(1) by (auto simp: durable_def)
    show ?thesis
      using assms True f
      by (cases s)
        (auto simp: durable_def persist_entry_def persistAppendedEntry_def publish_def hasAssistant_append
          appendSessionEntries_def update_conv' split: if_splits)
  qed (use assms in \<open>auto simp: durable_def persist_entry_def publish_def\<close>)
  then show "durable (s'\<lparr>sm_labelsById := ls, sm_labelTimestampsById := ts\<rparr>) files'"
    by (simp add: durable_def)
qed

subsection \<open>Operations keep it\<close>

abbreviation entry_ids :: "session_world \<Rightarrow> jstr list" where "entry_ids w \<equiv> jm_keys (sm_byId (fst w))"

lemma world_ok_append:
  assumes "world_ok w" "usable_uuids (entry_ids w) uuids" "\<And>t l. body \<noteq> LabelEntry t l"
    and "case parent of None \<Rightarrow> True | Some k \<Rightarrow> k \<in> set (entry_ids w)"
    and "appendEntry (entryBase (has_entry (fst w)) parent uuids now body) ok w = (r, w')"
  shows "world_ok w'"
proof -
  let ?e = "entryBase (has_entry (fst w)) parent uuids now body"
  obtain h es where ok: "session_ok h es (fst w)" and dur: "durable (fst w) (snd w)"
    using assms(1) by (auto simp: world_ok_def)
  have keys: "entry_ids w = ids_of es" using ok by (simp add: session_ok_def comp_def)
  have tree: "tree_from [] (es @ [?e])"
    using entry_base_tree [OF ok] assms(2,4) unfolding keys by blast
  have nolabel: "\<not> is_label ?e" using assms(3) by (cases body) (auto simp: is_label_def entryBase_def)
  have app: "appendEntry ?e ok (fst w, snd w) = (r, w')" using assms(5) by simp
  show ?thesis
    using appendEntry_cases [OF ok tree, of ok "snd w"]
  proof (elim disjE exE conjE)
    fix s' files'
    assume a: "appendEntry ?e ok (fst w, snd w) = (Inr (se_id ?e), s', files')"
      and p: "persist_entry ?e ok (publish ?e (fst w), snd w) = Some (s', files')"
      and s': "s' = publish ?e (fst w)\<lparr>sm_flushed := sm_flushed s'\<rparr>"
    have "w' = (s', files')" using app a by simp
    moreover have "session_ok h (es @ [?e]) s'" by (subst s') (rule publish_ok [OF ok tree nolabel])
    ultimately show ?thesis using publish_durable(2) [OF dur p] unfolding world_ok_def by auto
  next
    assume "appendEntry ?e ok (fst w, snd w) = (Inl write_error, fst w, snd w)"
    then show ?thesis using app assms(1) by simp
  qed
qed

lemma leaf_known: "world_ok w \<Longrightarrow> case sm_leafId (fst w) of None \<Rightarrow> True | Some k \<Rightarrow> k \<in> set (entry_ids w)"
  by (auto simp: world_ok_def session_ok_def image_comp split: option.split)

lemma world_ok_append_body:
  assumes "world_ok w" "usable_uuids (entry_ids w) uuids" "\<And>t l. body \<noteq> LabelEntry t l"
    and "append_body body uuids now ok w = (r, w')"
  shows "world_ok w'"
  using world_ok_append [OF assms(1-3) leaf_known [OF assms(1)]] assms(4) by (simp add: append_body_def)

lemma world_ok_compaction:
  assumes "world_ok w" "usable_uuids (entry_ids w) uuids"
    and "appendCompaction compactedText firstKept tokensBefore details uuids now ok w = (r, w')"
  shows "world_ok w'"
proof -
  let ?b = "compaction_body compactedText firstKept tokensBefore details"
  have "w' = w \<or> append_body ?b uuids now ok w = (r, w')"
    using assms(3) by (auto simp: appendCompaction_def split: option.splits if_splits)
  moreover have "?b \<noteq> LabelEntry t l" for t l by (simp add: compaction_body_def)
  ultimately show ?thesis using world_ok_append_body [OF assms(1,2)] assms(1) by blast
qed

lemma world_ok_leaf:
  assumes "world_ok (s, files)" "case i of None \<Rightarrow> True | Some k \<Rightarrow> has_entry s k"
  shows "world_ok (s\<lparr>sm_leafId := i\<rparr>, files)"
proof -
  obtain h es where ok: "session_ok h es s" and dur: "durable s files"
    using assms(1) by (auto simp: world_ok_def)
  have "session_ok h es (s\<lparr>sm_leafId := i\<rparr>)"
    using ok assms(2) by (auto simp: session_ok_def image_comp split: option.split)
  then show ?thesis using dur by (auto simp: world_ok_def durable_def)
qed

lemma world_ok_summary:
  assumes "world_ok w" "usable_uuids (entry_ids w) uuids"
    and "branchWithSummary branchFromId summary details fromHook usage uuids now ok w = (r, w')"
  shows "world_ok w'"
proof (cases "branchFromId \<noteq> None \<and> \<not> has_entry (fst w) (the branchFromId)")
  case True
  then show ?thesis using assms(1,3) by (simp add: branchWithSummary_def)
next
  case False
  let ?w = "((fst w)\<lparr>sm_leafId := branchFromId\<rparr>, snd w)"
  have "world_ok ?w"
    by (rule world_ok_leaf) (use assms(1) False in \<open>cases branchFromId; simp\<close>)+
  then show ?thesis
    using world_ok_append_body [of ?w uuids "branch_summary_body branchFromId summary details usage fromHook" now ok r w']
      assms(2,3) False
    by (auto simp: branchWithSummary_def branch_summary_body_def split: if_splits)
qed

lemma world_ok_label:
  assumes "world_ok w" "usable_uuids (entry_ids w) uuids"
    and "appendLabelChange targetId label uuids now ok w = (r, w')"
  shows "world_ok w'"
proof (cases "has_entry (fst w) targetId")
  case True
  let ?e = "entryBase (has_entry (fst w)) (sm_leafId (fst w)) uuids now (LabelEntry targetId label)"
  obtain h es where ok: "session_ok h es (fst w)" and dur: "durable (fst w) (snd w)"
    using assms(1) by (auto simp: world_ok_def)
  have keys: "entry_ids w = ids_of es" using ok by (simp add: session_ok_def comp_def)
  have tree: "tree_from [] (es @ [?e])"
    using entry_base_tree [OF ok] assms(2) leaf_known [OF assms(1)] unfolding keys by blast
  have call: "appendLabelChange targetId label uuids now ok w =
      (case appendEntry ?e ok (fst w, snd w) of
         (Inl e, w') \<Rightarrow> (Inl e, w')
       | (Inr i, (s, files)) \<Rightarrow>
           (case set_label targetId label now (sm_labelsById s, sm_labelTimestampsById s) of
              (ls, ts) \<Rightarrow> (Inr i, (s\<lparr>sm_labelsById := ls, sm_labelTimestampsById := ts\<rparr>, files))))"
    using True by (simp add: appendLabelChange_def append_body_def)
  show ?thesis
    using appendEntry_cases [OF ok tree, of ok "snd w"]
  proof (elim disjE exE conjE)
    fix s' files'
    assume a: "appendEntry ?e ok (fst w, snd w) = (Inr (se_id ?e), s', files')"
      and p: "persist_entry ?e ok (publish ?e (fst w), snd w) = Some (s', files')"
      and s': "s' = publish ?e (fst w)\<lparr>sm_flushed := sm_flushed s'\<rparr>"
    have same: "sm_labelsById s' = sm_labelsById (fst w)" "sm_labelTimestampsById s' = sm_labelTimestampsById (fst w)"
      by (subst s', simp add: publish_def)+
    obtain ls ts where sl: "set_label targetId label now (sm_labelsById (fst w), sm_labelTimestampsById (fst w)) = (ls, ts)"
      by (cases "set_label targetId label now (sm_labelsById (fst w), sm_labelTimestampsById (fst w))")
    have w': "w' = (s'\<lparr>sm_labelsById := ls, sm_labelTimestampsById := ts\<rparr>, files')"
      using assms(3) unfolding call a by (simp add: same sl)
    have "session_ok h (es @ [?e]) (s'\<lparr>sm_labelsById := ls, sm_labelTimestampsById := ts\<rparr>)"
    proof -
      have "se_body ?e = LabelEntry targetId label"
        and "set_label targetId label (se_timestamp ?e) (sm_labelsById (fst w), sm_labelTimestampsById (fst w)) = (ls, ts)"
        using sl by (simp_all only: entryBase_def session_entry.simps)
      from publish_label_ok [OF ok tree this] show ?thesis by (subst s')
    qed
    then show ?thesis using publish_durable(1) [OF dur p] unfolding w' world_ok_def by auto
  next
    assume "appendEntry ?e ok (fst w, snd w) = (Inl write_error, fst w, snd w)"
    then show ?thesis using assms(1,3) unfolding call by simp
  qed
qed (use assms in \<open>simp add: appendLabelChange_def\<close>)

lemma new_session_ok:
  assumes "newSession join_path opts sid now w = (Inr x, w')" "\<And>f. x = Some f \<Longrightarrow> jm_get (snd w) f = None"
  shows "world_ok w'"
proof -
  have "\<exists>h. session_ok h [] (fst w') \<and> \<not> sm_flushed (fst w') \<and> snd w' = snd w \<and>
      sm_fileEntries (fst w') = [Header h] \<and> (sm_persist (fst w') \<longrightarrow> sm_sessionFile (fst w') \<noteq> None) \<and>
      x = sm_sessionFile (fst w')"
    using assms(1)
    by (auto simp: newSession_def Let_def session_ok_def labels_of_def createSessionHeader_def split: sum.splits option.splits)
  moreover from this have "sm_persist (fst w') \<Longrightarrow> jm_get (snd w) (the (sm_sessionFile (fst w'))) = None"
    using assms(2) by auto
  ultimately show ?thesis by (auto simp: world_ok_def durable_def hasAssistantMessage_def)
qed

lemma mark_header_lines: "mark_header meta (session_lines h es) =
    session_lines (h\<lparr>sh_internal := Some (JBool True), sh_workflow := Some meta\<rparr>) es"
  by simp

lemma hasAssistant_lines: "hasAssistantMessage (session_lines h es) = hasAssistantMessage (map Entry es)"
  by (simp add: hasAssistantMessage_def)

lemma session_ok_header:
  "session_ok h es s \<Longrightarrow> sh_version h' = sh_version h \<Longrightarrow> session_ok h' es (s\<lparr>sm_fileEntries := session_lines h' es\<rparr>)"
  by (simp add: session_ok_def)

lemma rewriteFile_ok: "rewriteFile True (s, files) =
    Some (if sm_persist s \<and> sm_sessionFile s \<noteq> None
          then jm_set (the (sm_sessionFile s)) (sm_fileEntries s) files else files)"
  by (auto simp: rewriteFile_def writeSessionEntries_def split: option.split)

lemma world_ok_mark:
  assumes "world_ok w" "markSessionInternal workflow True w = (r, w')"
  shows "world_ok w'"
proof -
  obtain s files where w: "w = (s, files)" by (cases w)
  obtain h es where ok: "session_ok h es s" and dur: "durable s files"
    using assms(1) by (auto simp: world_ok_def w)
  have lines: "sm_fileEntries s = session_lines h es" using ok by (simp add: session_ok_def)
  consider "w' = w" | meta where "w' = (let h' = h\<lparr>sh_internal := Some (JBool True), sh_workflow := Some meta\<rparr>;
        s' = s\<lparr>sm_fileEntries := session_lines h' es\<rparr>
      in (s', if sm_flushed s \<and> sm_persist s \<and> sm_sessionFile s \<noteq> None
              then jm_set (the (sm_sessionFile s)) (session_lines h' es) files else files))"
    using assms(2) lines
    by (auto simp: w markSessionInternal_def rewriteFile_ok Let_def split: if_splits option.splits)
  then show ?thesis
  proof cases
    case (2 meta)
    let ?h = "h\<lparr>sh_internal := Some (JBool True), sh_workflow := Some meta\<rparr>"
    have "session_ok ?h es (fst w')" using session_ok_header [OF ok, of ?h] by (simp add: 2 Let_def)
    moreover have "durable (fst w') (snd w')"
      using dur hasAssistant_lines lines by (auto simp: 2 Let_def durable_def)
    ultimately show ?thesis unfolding world_ok_def by blast
  qed (use assms(1) in simp)
qed

lemma world_ok_flush:
  assumes "world_ok w" "hasAssistantMessage (sm_fileEntries (fst w))" "flush ok w = (r, w')"
  shows "world_ok w'"
proof -
  obtain s files where w: "w = (s, files)" by (cases w)
  obtain h es where ok: "session_ok h es s" and dur: "durable s files"
    using assms(1) by (auto simp: world_ok_def w)
  have "w' = w \<or> sm_persist s \<and>
      w' = (s\<lparr>sm_flushed := True\<rparr>, jm_set (the (sm_sessionFile s)) (sm_fileEntries s) files)"
    using assms(3)
    by (auto simp: w flush_def rewriteFile_def writeSessionEntries_def split: if_splits option.splits)
  moreover have "session_ok h es (s\<lparr>sm_flushed := True\<rparr>)" using ok by (simp add: session_ok_def)
  moreover have "durable (s\<lparr>sm_flushed := True\<rparr>) (jm_set (the (sm_sessionFile s)) (sm_fileEntries s) files)"
    if "sm_persist s"
    using dur that assms(2) by (simp add: durable_def w)
  ultimately show ?thesis using assms(1) unfolding world_ok_def by (metis fst_conv snd_conv)
qed

subsection \<open>Branched sessions\<close>

text \<open>The values of \<open>randomUUID\<close> for the labels of a branched session.\<close>

definition usable_label_uuids :: "jstr list \<Rightarrow> nat \<Rightarrow> (nat \<Rightarrow> nat \<Rightarrow> jstr) \<Rightarrow> bool" where
  "usable_label_uuids ids n uuids \<longleftrightarrow>
     (\<forall>k < n. usable_uuids ids (uuids k) \<and> (\<forall>m < k. uuids m 100 \<noteq> uuids k 100))"

lemma lengths_differ: "length xs = 36 \<Longrightarrow> length ys = 8 \<Longrightarrow> xs \<noteq> ys"
  by auto

lemma usable_uuids_mono: "usable_uuids ids u \<Longrightarrow> set ids' \<subseteq> set ids \<Longrightarrow> usable_uuids ids' u"
  by (auto simp: usable_uuids_def)

lemma persisted_labels_tree:
  assumes "\<And>k. n \<le> k \<Longrightarrow> k < n + length ls \<Longrightarrow> usable_uuids seen (uuids k)"
    and "\<And>m k. n \<le> m \<Longrightarrow> m < k \<Longrightarrow> k < n + length ls \<Longrightarrow> uuids m 100 \<noteq> uuids k 100"
    and "case parent of None \<Rightarrow> True | Some p \<Rightarrow> p \<in> set seen" "set ids = set seen"
  shows "tree_from seen (buildPersistedLabelEntries uuids n ids parent ls)"
  using assms
proof (induction ls arbitrary: n seen ids parent)
  case (Cons l ls)
  obtain target label timestamp where l: "l = (target, label, timestamp)" by (cases l)
  let ?e = "createLabelEntry target (Some label) (\<lambda>i. i \<in> set ids) parent (uuids n) timestamp"
  have e: "se_id ?e = generateId (\<lambda>i. i \<in> set seen) (uuids n)" "se_parentId ?e = parent"
    using Cons.prems(4) by (simp_all add: createLabelEntry_def entryBase_def)
  have use: "usable_uuids seen (uuids n)" using Cons.prems(1) by simp
  note fresh = generateId_fresh [OF use, folded e(1)]
  have "tree_from (seen @ [se_id ?e])
          (buildPersistedLabelEntries uuids (Suc n) (js_set_add (se_id ?e) ids) (Some (se_id ?e)) ls)"
  proof (rule Cons.IH)
    fix k assume k: "Suc n \<le> k" "k < Suc n + length ls"
    then have "usable_uuids seen (uuids k)" "uuids n 100 \<noteq> uuids k 100" using Cons.prems(1,2) by simp_all
    moreover have "length (uuids k 100) = 36"
      using \<open>usable_uuids seen (uuids k)\<close> by (simp add: usable_uuids_def)
    then have "uuids k 100 \<noteq> se_id ?e" if "length (se_id ?e) = 8"
      using that by (rule lengths_differ)
    ultimately show "usable_uuids (seen @ [se_id ?e]) (uuids k)"
      using fresh(3) by (auto simp: usable_uuids_def)
  next
    fix m k assume "Suc n \<le> m" "m < k" "k < Suc n + length ls"
    then show "uuids m 100 \<noteq> uuids k 100" using Cons.prems(2) by simp
  qed (use Cons.prems(4) in auto)
  then show ?case
    using fresh(1,2) e(2) Cons.prems(3) by (simp add: l Let_def)
qed simp

text \<open>The sets of used ids differ in how they are built, not in what they hold.\<close>

lemma in_memory_labels:
  "set ids = set pathIds \<union> set (ids_of made) \<Longrightarrow>
   buildInMemoryLabelEntries uuids pathIds parent made ls =
     made @ buildPersistedLabelEntries uuids (length made) ids parent ls"
proof (induction ls arbitrary: ids parent made)
  case (Cons l ls)
  obtain target label timestamp where l: "l = (target, label, timestamp)" by (cases l)
  let ?e = "createLabelEntry target (Some label) (\<lambda>i. i \<in> set ids) parent (uuids (length made)) timestamp"
  have has: "(\<lambda>i. i \<in> set (pathIds @ ids_of made)) = (\<lambda>i. i \<in> set ids)" using Cons.prems by auto
  have e: "?e = \<lparr>se_id = generateId (\<lambda>i. i \<in> set (pathIds @ ids_of made)) (uuids (length made)),
               se_parentId = parent, se_timestamp = timestamp, se_body = LabelEntry target (Some label)\<rparr>"
    unfolding has by (simp add: createLabelEntry_def entryBase_def)
  have "set (js_set_add (se_id ?e) ids) = set pathIds \<union> set (ids_of (made @ [?e]))" using Cons.prems by auto
  from Cons.IH [OF this, of "Some (se_id ?e)"]
  show ?case by (simp only: l buildInMemoryLabelEntries.simps buildPersistedLabelEntries.simps Let_def e) simp
qed simp

lemma linked_tree:
  "linked p xs \<Longrightarrow> case p of None \<Rightarrow> True | Some k \<Rightarrow> k \<in> set seen \<Longrightarrow> distinct (seen @ ids_of xs) \<Longrightarrow>
   [] \<notin> set (ids_of xs) \<Longrightarrow> tree_from seen xs"
  by (induction xs arbitrary: p seen) (auto split: option.splits)

text \<open>A path on which no label is followed by another kind of entry.\<close>

definition labels_last :: "session_entry list \<Rightarrow> bool" where
  "labels_last path \<longleftrightarrow> list_all is_label (dropWhile (\<lambda>e. \<not> is_label e) path)"

lemma labels_last_filter:
  assumes "labels_last path"
  shows "filter (\<lambda>e. \<not> is_label e) path = takeWhile (\<lambda>e. \<not> is_label e) path"
  using assms unfolding labels_last_def
proof (induction path)
  case (Cons e path)
  show ?case
  proof (cases "is_label e")
    case True
    then have "list_all is_label path" using Cons.prems by simp
    then have "filter (\<lambda>e. \<not> is_label e) path = []" by (induction path) simp_all
    then show ?thesis using True by simp
  qed (use Cons in simp)
qed simp

lemma branched_tree:
  assumes "linked None path" "distinct (ids_of path)" "[] \<notin> set (ids_of path)" "labels_last path"
    and "usable_label_uuids (ids_of path) (length labels) uuids"
  shows "tree_from [] (branched_entries uuids persist path labels timestamps)"
proof -
  let ?xs = "filter (\<lambda>e. \<not> is_label e) path" and ?ids = "remdups (ids_of (filter (\<lambda>e. \<not> is_label e) path))"
  let ?ls = "collectLabelsForPath ?ids labels timestamps"
  define parent where "parent = (if ?xs = [] then None else if se_id (last ?xs) = [] then None else Some (se_id (last ?xs)))"
  have pre: "path = ?xs @ dropWhile (\<lambda>e. \<not> is_label e) path"
    using labels_last_filter [OF assms(4)] by simp
  have xs: "linked None ?xs" "distinct (ids_of ?xs)" "[] \<notin> set (ids_of ?xs)"
  proof -
    show "linked None ?xs" using assms(1) pre linked_append by metis
    show "distinct (ids_of ?xs)" using assms(2) by (rule distinct_map_filter)
    show "[] \<notin> set (ids_of ?xs)" using assms(3) by auto
  qed
  have tree: "tree_from [] ?xs" by (rule linked_tree [OF xs(1)]) (use xs in simp_all)
  have par: "case parent of None \<Rightarrow> True | Some p \<Rightarrow> p \<in> set (ids_of ?xs)"
    by (simp add: parent_def del: set_filter)
  have len: "length ?ls \<le> length labels" by (simp add: collectLabelsForPath_def)
  have use: "usable_uuids (ids_of ?xs) (uuids k)" if "k < length ?ls" for k
    using assms(5) len that usable_uuids_mono [of "ids_of path" "uuids k" "ids_of ?xs"]
    by (auto simp: usable_label_uuids_def)
  have ne: "m < k \<Longrightarrow> k < length ?ls \<Longrightarrow> uuids m 100 \<noteq> uuids k 100" for m k
    using assms(5) len by (auto simp: usable_label_uuids_def)
  have labels: "tree_from (ids_of ?xs) (buildPersistedLabelEntries uuids 0 ?ids parent ?ls)"
    by (rule persisted_labels_tree) (use use ne par in simp_all)
  have "buildInMemoryLabelEntries uuids ?ids parent [] ?ls = buildPersistedLabelEntries uuids 0 ?ids parent ?ls"
    using in_memory_labels [of ?ids ?ids "[]"] by simp
  then have "branched_entries uuids persist path labels timestamps = ?xs @ buildPersistedLabelEntries uuids 0 ?ids parent ?ls"
    unfolding branched_entries_def Let_def parent_def by (cases persist) (simp_all only: if_True if_False)
  then show ?thesis using tree labels by (simp add: tree_from_append)
qed

lemma build_index_ok:
  assumes "tree_from [] es" "sm_fileEntries s = session_lines h es" "sh_version h = Some CURRENT_SESSION_VERSION"
  shows "session_ok h es (build_index s)"
  using assms index_of_lines [OF assms(1), of h]
  by (auto simp: session_ok_def build_index_def Let_def last_id_def)

lemma branch_of_session:
  assumes "session_ok h es s"
  shows "getBranch i s = Some (path_in (rev es) (case i of None \<Rightarrow> sm_leafId s | Some k \<Rightarrow> Some k))"
proof -
  define j where "j = (case i of None \<Rightarrow> sm_leafId s | Some k \<Rightarrow> Some k)"
  have ok: "tree_from [] es" "sm_byId s = index_of es" using assms by (simp_all add: session_ok_def)
  have "getBranchPath j (index_of es) = Some (path_in (rev es) j)"
  proof (cases "case j of None \<Rightarrow> True | Some k \<Rightarrow> k \<in> set (ids_of es)")
    case True
    show ?thesis by (rule branch_path_tree [OF ok(1) True])
  next
    case False
    then obtain k where k: "j = Some k" "k \<notin> set (ids_of es)" by (cases j) simp_all
    have "jm_get (index_of es) k = None"
    proof (rule ccontr)
      assume "jm_get (index_of es) k \<noteq> None"
      then obtain e where "jm_get (index_of es) k = Some e" by blast
      from index_get_Some [OF this] have "k \<in> set (ids_of es)" by auto
      then show False using k(2) by simp
    qed
    then have "get_entry (index_of es) (Some k) = None" by (simp add: get_entry_def)
    moreover have "path_in (rev es) (Some k) = []" using k(2) by (intro path_in_fresh) simp
    ultimately show ?thesis by (simp add: k(1) getBranchPath_def branch_loop.simps)
  qed
  then show ?thesis by (simp add: getBranch_def ok(2) j_def)
qed

lemma world_ok_branched:
  assumes "world_ok w" "createBranchedSession join_path leafId uuids sid now True w = Some (r, w')"
    and "\<And>path. getBranch (Some leafId) (fst w) = Some path \<Longrightarrow> labels_last path"
    and "usable_label_uuids (entry_ids w) (length (sm_labelsById (fst w))) uuids"
    and "\<And>f. r = Inr (Some f) \<Longrightarrow> jm_get (snd w) f = None"
  shows "world_ok w'"
proof -
  obtain s files where w: "w = (s, files)" by (cases w)
  obtain h es where ok: "session_ok h es s" and dur: "durable s files"
    using assms(1) by (auto simp: world_ok_def w)
  have keys: "entry_ids w = ids_of es" and tree: "tree_from [] es"
    using ok by (simp_all add: session_ok_def w comp_def)
  define path where "path = path_in (rev es) (Some leafId)"
  have br: "getBranch (Some leafId) s = Some path" using branch_of_session [OF ok] by (simp add: path_def)
  show ?thesis
  proof (cases "path = []")
    case True
    then show ?thesis using assms(1,2) br by (simp add: createBranchedSession_def w)
  next
    case False
    then have "leafId \<in> set (ids_of es)"
      using path_in_fresh [of leafId "rev es"] by (auto simp: path_def)
    then have p: "linked None path" "set path \<subseteq> set es" "distinct path"
      using path_in_props [OF tree, of "Some leafId"] by (simp_all add: path_def)
    have ids: "distinct (ids_of es)" "[] \<notin> set (ids_of es)" using tree_from_ids [OF tree] by simp_all
    then have "distinct (ids_of path)"
      using p(2,3) by (metis distinct_map inj_on_subset)
    moreover have "usable_label_uuids (ids_of path) (length (sm_labelsById s)) uuids"
      using assms(4) p(2) keys unfolding usable_label_uuids_def
      by (metis fst_conv image_mono list.set_map usable_uuids_mono w)
    moreover have "[] \<notin> set (ids_of path)" using ids(2) p(2) by auto
    ultimately have tree': "tree_from [] (branched_entries uuids persist path (sm_labelsById s) ts)" for persist ts
      using branched_tree [OF p(1)] assms(3) br by (auto simp: w)
    define s0 where "s0 = s\<lparr>sm_fileEntries := session_lines (branched_header s sid now)
        (branched_entries uuids (sm_persist s) path (sm_labelsById s) (sm_labelTimestampsById s)), sm_sessionId := sid,
        sm_sessionFile := (if sm_persist s then Some (createSessionFilePath join_path (sm_sessionDir s) now sid)
                           else sm_sessionFile s)\<rparr>"
    define s' where "s' = build_index s0"
    have ok': "session_ok (branched_header s sid now)
        (branched_entries uuids (sm_persist s) path (sm_labelsById s) (sm_labelTimestampsById s)) (s'\<lparr>sm_flushed := fl\<rparr>)" for fl
      using build_index_ok [OF tree', of s0] unfolding s'_def
      by (simp add: s0_def session_ok_def branched_header_def createSessionHeader_def Let_def)
    have same: "sm_fileEntries s' = sm_fileEntries s0" "sm_persist s' = sm_persist s"
      "sm_sessionFile s' = sm_sessionFile s0" "sm_flushed s' = sm_flushed s"
      by (simp_all add: s'_def build_index_def Let_def s0_def)
    let ?f = "createSessionFilePath join_path (sm_sessionDir s) now sid"
    have call: "(r, w') =
       (if \<not> sm_persist s then (Inr None, (s', files))
        else if \<not> hasAssistantMessage (sm_fileEntries s0) then (Inr (Some ?f), (s'\<lparr>sm_flushed := False\<rparr>, files))
        else (Inr (Some ?f), (s'\<lparr>sm_flushed := True\<rparr>, jm_set ?f (sm_fileEntries s0) files)))"
      using assms(2) br False rewriteFile_ok [of s' files]
      unfolding createBranchedSession_def w s'_def s0_def
      by (auto simp: Let_def build_index_def split: if_splits)
    have stored: "sm_persist s \<Longrightarrow> sm_sessionFile s' = Some ?f" by (simp add: same) (simp add: s0_def)
    have "\<exists>fl. fst w' = s'\<lparr>sm_flushed := fl\<rparr>"
      using call by (metis (no_types, lifting) fst_conv prod.inject session_manager.surjective session_manager.update_convs(6))
    moreover have "durable (fst w') (snd w')"
      using call assms(5) stored by (auto simp: durable_def same w split: if_splits)
    ultimately show ?thesis using ok' unfolding world_ok_def by metis
  qed
qed

end
