(* ===== verification/Session_Runs.thy ===== *)
theory Session_Runs
  imports Session_Tree
begin

text \<open>
  Sessions that arise by the operations of the manager: what holds of all of them, and what goes wrong
  in some that the code allows.
\<close>

subsection \<open>Sessions that can arise\<close>

definition blank_manager :: "jstr \<Rightarrow> jstr \<Rightarrow> bool \<Rightarrow> session_manager" where
  "blank_manager dir cwd persist =
     \<lparr>sm_sessionId = [], sm_sessionFile = None, sm_sessionDir = dir, sm_cwd = cwd, sm_persist = persist,
      sm_flushed = False, sm_fileEntries = [], sm_byId = [], sm_labelsById = [], sm_labelTimestampsById = [],
      sm_leafId = None\<rparr>"

text \<open>
  From a new session by the operations of the manager: appends that may fail, labels, branches, new
  sessions, and branched sessions of paths on which labels come last.  New files do not exist yet.
\<close>

inductive session_reach :: "(jstr \<Rightarrow> jstr \<Rightarrow> jstr) \<Rightarrow> session_world \<Rightarrow> bool" for join_path where
  create: "newSession join_path opts sid now (blank_manager dir cwd persist, files) = (Inr x, w) \<Longrightarrow>
    (\<And>f. x = Some f \<Longrightarrow> jm_get files f = None) \<Longrightarrow> session_reach join_path w"
| append: "session_reach join_path w \<Longrightarrow> usable_uuids (entry_ids w) uuids \<Longrightarrow> (\<And>t l. body \<noteq> LabelEntry t l) \<Longrightarrow>
    append_body body uuids now ok w = (r, w') \<Longrightarrow> session_reach join_path w'"
| compact: "session_reach join_path w \<Longrightarrow> usable_uuids (entry_ids w) uuids \<Longrightarrow>
    appendCompaction compactedText firstKept tokensBefore details uuids now ok w = (r, w') \<Longrightarrow>
    session_reach join_path w'"
| label: "session_reach join_path w \<Longrightarrow> usable_uuids (entry_ids w) uuids \<Longrightarrow>
    appendLabelChange targetId label uuids now ok w = (r, w') \<Longrightarrow> session_reach join_path w'"
| branch: "session_reach join_path w \<Longrightarrow> branch branchFromId w = (u, w') \<Longrightarrow> session_reach join_path w'"
| reset: "session_reach join_path w \<Longrightarrow> resetLeaf w = (u, w') \<Longrightarrow> session_reach join_path w'"
| summary: "session_reach join_path w \<Longrightarrow> usable_uuids (entry_ids w) uuids \<Longrightarrow>
    branchWithSummary from_id summary details fromHook usage uuids now ok w = (r, w') \<Longrightarrow> session_reach join_path w'"
| branched: "session_reach join_path w \<Longrightarrow>
    createBranchedSession join_path leafId labelUuids sid now True w = Some (x, w') \<Longrightarrow>
    (\<And>path. getBranch (Some leafId) (fst w) = Some path \<Longrightarrow> labels_last path) \<Longrightarrow>
    usable_label_uuids (entry_ids w) (length (sm_labelsById (fst w))) labelUuids \<Longrightarrow>
    (\<And>f. x = Inr (Some f) \<Longrightarrow> jm_get (snd w) f = None) \<Longrightarrow> session_reach join_path w'"
| renew: "session_reach join_path w \<Longrightarrow> newSession join_path opts sid now w = (Inr z, w') \<Longrightarrow>
    (\<And>f. z = Some f \<Longrightarrow> jm_get (snd w) f = None) \<Longrightarrow> session_reach join_path w'"
| mark: "session_reach join_path w \<Longrightarrow> markSessionInternal workflow True w = (u, w') \<Longrightarrow> session_reach join_path w'"
| flush: "session_reach join_path w \<Longrightarrow> hasAssistantMessage (sm_fileEntries (fst w)) \<Longrightarrow> flush ok w = (u, w') \<Longrightarrow>
    session_reach join_path w'"

lemma session_reach_ok: "session_reach join_path w \<Longrightarrow> world_ok w"
proof (induction rule: session_reach.induct)
  case (create opts sid now dir cwd persist files x w)
  show ?case by (rule new_session_ok [OF create(1)]) (simp add: create(2))
next
  case (append w uuids body now ok r w')
  then show ?case using world_ok_append_body by blast
next
  case (compact w uuids compactedText firstKept tokensBefore details now ok r w')
  then show ?case using world_ok_compaction by blast
next
  case (label w uuids targetId label now ok r w')
  then show ?case using world_ok_label by blast
next
  case (branch w branchFromId u w')
  then show ?case
    using world_ok_leaf [of "fst w" "snd w" "Some branchFromId"] by (auto simp: branch_def split: if_splits)
next
  case (reset w u w')
  then show ?case using world_ok_leaf [of "fst w" "snd w" None] by (auto simp: resetLeaf_def)
next
  case (summary w uuids from_id summary details fromHook usage now ok r w')
  then show ?case using world_ok_summary by blast
next
  case (branched w leafId labelUuids sid now x w')
  show ?case by (rule world_ok_branched [OF branched(6,2-5)])
next
  case (renew w opts sid now z w')
  show ?case by (rule new_session_ok [OF renew(2)]) (simp add: renew(3))
next
  case (mark w workflow u w')
  then show ?case using world_ok_mark by blast
next
  case (flush w ok u w')
  then show ?case using world_ok_flush by blast
qed

lemma session_reach_cases:
  assumes "session_reach join_path w"
  obtains h es where "session_ok h es (fst w)" "durable (fst w) (snd w)"
  using session_reach_ok [OF assms] by (auto simp: world_ok_def)

lemma session_ok_entries: "session_ok h es s \<Longrightarrow> getEntries s = es"
  by (simp add: session_ok_def getEntries_def)


subsection \<open>Files\<close>


subsection \<open>The context of a branch\<close>

definition context_of_path ::
    "(js_num \<Rightarrow> jstr) \<Rightarrow> (json \<Rightarrow> jstr) \<Rightarrow> (jstr \<Rightarrow> js_num) \<Rightarrow> session_entry list \<Rightarrow> session_context" where
  "context_of_path num_text stringify date_ms p =
     (let path = normalizeDerivedSessionEntries p; settings = fold settings_step path (js ''off'', None)
      in \<lparr>sc_messages = context_messages num_text stringify date_ms path,
          sc_thinkingLevel = fst settings, sc_model = snd settings\<rparr>)"

lemma context_of_session:
  assumes "session_ok h es s"
  shows "session_context_of nt sf dm s = Some (context_of_path nt sf dm (path_in (rev es) (sm_leafId s)))"
proof (cases "sm_leafId s")
  case None
  then show ?thesis
    by (simp add: session_context_of_def buildSessionContext_def leaf_arg_of_def context_of_path_def empty_context_def
        normalizeDerivedSessionEntries_def context_messages_def getLatestCompactionBoundaryEntry_def map_filter_def)
next
  case (Some k)
  have ok: "tree_from [] es" "sm_byId s = index_of es" "k \<in> set (ids_of es)"
    using assms Some by (simp_all add: session_ok_def)
  then obtain e where e: "e \<in> set es" "se_id e = k" by auto
  have "jm_get (index_of es) k = Some e" "k \<noteq> []"
    using index_get [of es e] tree_from_ids [OF ok(1)] e ok(3) by (simp, metis)
  moreover have "getBranchPath (Some k) (index_of es) = Some (path_in (rev es) (Some k))"
    using branch_path_tree [OF ok(1), of "Some k"] ok(3) by simp
  ultimately show ?thesis
    by (simp add: session_context_of_def buildSessionContext_def leaf_arg_of_def Some ok(2) e(2) context_of_path_def)
qed

lemma boundary_snoc:
  "\<not> is_verbatim_boundary e \<Longrightarrow>
   getLatestCompactionBoundaryEntry (p @ [e]) = getLatestCompactionBoundaryEntry p"
  by (simp add: getLatestCompactionBoundaryEntry_def)

lemma find_index_snoc: "find_index P xs = Some n \<Longrightarrow> find_index P (xs @ [x]) = Some n"
proof -
  assume n: "find_index P xs = Some n"
  then have ne: "length (takeWhile (\<lambda>x. \<not> P x) xs) \<noteq> length xs" and n': "n = length (takeWhile (\<lambda>x. \<not> P x) xs)"
    by (auto simp: find_index_def Let_def split: if_splits)
  then obtain y where "y \<in> set xs" "P y" by (metis takeWhile_eq_all_conv)
  then have "takeWhile (\<lambda>x. \<not> P x) (xs @ [x]) = takeWhile (\<lambda>x. \<not> P x) xs"
    by (intro takeWhile_append1) auto
  then show ?thesis using ne n' length_takeWhile_le [of "\<lambda>x. \<not> P x" xs] by (simp add: find_index_def Let_def)
qed

lemma find_index_found: "x \<in> set xs \<Longrightarrow> P x \<Longrightarrow> \<exists>n. find_index P xs = Some n \<and> n < length xs"
proof -
  assume "x \<in> set xs" "P x"
  then have "takeWhile (\<lambda>x. \<not> P x) xs \<noteq> xs" by (metis takeWhile_eq_all_conv)
  then have "length (takeWhile (\<lambda>x. \<not> P x) xs) \<noteq> length xs"
    by (metis takeWhile_eq_take take_all order_refl)
  then show ?thesis
    using length_takeWhile_le [of "\<lambda>x. \<not> P x" xs] by (auto simp: find_index_def Let_def)
qed

lemma map_filter_append [simp]: "List.map_filter f (xs @ ys) = List.map_filter f xs @ List.map_filter f ys"
  by (simp add: map_filter_def)

lemma context_messages_snoc:
  assumes "\<not> is_verbatim_boundary e"
  shows "context_messages nt sf dm (p @ [e]) =
           context_messages nt sf dm p @ List.map_filter (contextMessageFromEntry dm) [e]"
proof (cases "getLatestCompactionBoundaryEntry p")
  case None
  then show ?thesis by (simp add: context_messages_def boundary_snoc [OF assms])
next
  case (Some b)
  then have "b \<in> set p"
    by (auto simp: getLatestCompactionBoundaryEntry_def find_Some_iff) (metis nth_mem set_rev length_rev)
  then obtain n where n: "find_index (\<lambda>e. se_id e = se_id b) p = Some n" "n < length p"
    using find_index_found [of b p "\<lambda>e. se_id e = se_id b"] by auto
  have "kept_from (p @ [e]) n c = kept_from p n c" for c
    using n(2) by (simp add: kept_from_def split: option.split)
  then show ?thesis
    using n by (simp add: context_messages_def boundary_snoc [OF assms] Some find_index_snoc Let_def)
qed

lemma normalize_twice [simp]: "normalizeMessageContent (normalizeMessageContent m) = normalizeMessageContent m"
  by (cases m) (auto simp: normalizeMessageContent_def nullish_def)

lemma normalizeDerived_snoc:
  "normalizeDerivedSessionEntries (p @ [e]) = normalizeDerivedSessionEntries p @ normalizeDerivedSessionEntries [e]"
  by (simp add: normalizeDerivedSessionEntries_def)

lemma path_after_publish:
  assumes "tree_from [] (es @ [e])" "se_parentId e = i"
  shows "path_in (rev (es @ [e])) (Some (se_id e)) = path_in (rev es) i @ [e]"
  using assms by simp

lemma context_of_path_message:
  assumes "se_body e = MessageEntry m"
  shows "context_of_path nt sf dm (p @ [e]) =
    (context_of_path nt sf dm p)
      \<lparr>sc_messages := sc_messages (context_of_path nt sf dm p) @ [normalizeMessageContent m],
       sc_model := (if has_role m ''assistant'' then Some (jfield m ''provider'', jfield m ''model'')
                    else sc_model (context_of_path nt sf dm p))\<rparr>"
proof -
  define e' where "e' = e\<lparr>se_body := MessageEntry (normalizeMessageContent m)\<rparr>"
  have norm: "normalizeDerivedSessionEntries (p @ [e]) = normalizeDerivedSessionEntries p @ [e']"
    by (simp add: normalizeDerived_snoc normalizeDerivedSessionEntries_def assms e'_def)
  have role: "jfield (normalizeMessageContent m) k = jfield m k" if "k \<noteq> ''content''" for k
    using that by (simp add: normalizeMessageContent_def)
  have "\<not> is_verbatim_boundary e'" by (simp add: e'_def is_verbatim_boundary_def)
  note msgs = context_messages_snoc [OF this, of nt sf dm "normalizeDerivedSessionEntries p"]
  have "List.map_filter (contextMessageFromEntry dm) [e'] = [normalizeMessageContent m]"
    by (simp add: map_filter_def contextMessageFromEntry_def e'_def)
  then show ?thesis
    by (simp add: context_of_path_def norm msgs Let_def) (simp add: e'_def settings_step_def role)
qed

text \<open>C20: C0: A message that was appended is the next message of the context, after the messages that were
  there; an assistant message also selects its model.  Nothing else of the context changes.
\<close>

theorem appended_message_ends_context:
  assumes "session_reach join_path w" "usable_uuids (entry_ids w) uuids"
    and "appendMessage m uuids now ok w = (Inr i, w')"
  shows "\<exists>c. session_context_of num_text stringify date_ms (fst w) = Some c \<and>
    session_context_of num_text stringify date_ms (fst w') =
      Some (c\<lparr>sc_messages := sc_messages c @ [normalizeMessageContent m],
              sc_model := (if has_role m ''assistant'' then Some (jfield m ''provider'', jfield m ''model'')
                           else sc_model c)\<rparr>)"
proof -
  obtain h es where s: "session_ok h es (fst w)" by (rule session_reach_cases [OF assms(1)])
  let ?e = "entryBase (has_entry (fst w)) (sm_leafId (fst w)) uuids now (MessageEntry m)"
  have keys: "entry_ids w = ids_of es" using s by (simp add: session_ok_def comp_def)
  have tree: "tree_from [] (es @ [?e])"
    using entry_base_tree [OF s] assms(2) leaf_known [OF session_reach_ok [OF assms(1)]] unfolding keys by blast
  have plain: "\<not> is_label ?e" and body: "se_body ?e = MessageEntry m"
    by (simp_all add: is_label_def entryBase_def)
  have "appendEntry ?e ok (fst w, snd w) = (Inr i, w')"
    using assms(3) by (simp add: appendMessage_def append_body_def)
  then obtain fl where fl: "fst w' = (publish ?e (fst w))\<lparr>sm_flushed := fl\<rparr>"
    using appendEntry_cases [OF s tree, of ok "snd w"] by auto
  have ok': "session_ok h (es @ [?e]) (fst w')" unfolding fl by (rule publish_ok [OF s tree plain])
  let ?p = "path_in (rev es) (sm_leafId (fst w))"
  have leaf: "sm_leafId (fst w') = Some (se_id ?e)" by (simp add: fl publish_def)
  have path: "path_in (rev (es @ [?e])) (sm_leafId (fst w')) = ?p @ [?e]"
    unfolding leaf by (rule path_after_publish [OF tree]) (simp add: entryBase_def)
  show ?thesis
    unfolding context_of_session [OF s] context_of_session [OF ok'] path context_of_path_message [OF body]
    by (intro exI [of _ "context_of_path num_text stringify date_ms ?p"] conjI refl)
qed

subsection \<open>Failed writes\<close>


subsection \<open>Sessions that lose something\<close>

definition demo_uuid :: "char \<Rightarrow> nat \<Rightarrow> jstr" where
  "demo_uuid c k = replicate 36 (of_char c)"

definition demo_message :: "string \<Rightarrow> string \<Rightarrow> json" where
  "demo_message role content =
     jobj [(''role'', Some (JStr (js role))), (''content'', Some (JStr (js content)))]"

definition demo_id :: "char \<Rightarrow> jstr" where "demo_id c = replicate 8 (of_char c)"

definition demo_session :: "bool \<Rightarrow> session_files \<Rightarrow> session_world" where
  "demo_session persist files =
     snd (newSession (\<lambda>d f. d @ f) no_options (js ''s'') (js ''t'') (blank_manager (js ''d/'') (js ''/'') persist, files))"

text \<open>A question, a label on it, and an answer, which is a child of the label.\<close>

definition labelled_session :: session_world where
  "labelled_session =
     snd (appendMessage (demo_message ''assistant'' ''hi'') (demo_uuid (CHR ''c'')) (js ''t'') True
       (snd (appendLabelChange (demo_id (CHR ''a'')) (Some (js ''start'')) (demo_uuid (CHR ''b'')) (js ''t'') True
         (snd (appendMessage (demo_message ''user'' ''hello'') (demo_uuid (CHR ''a'')) (js ''t'') True
           (demo_session False []))))))"

text \<open>Labels are removed from the path of a branched session, but the entries behind a label keep it
  as their parent.  The branch of the new session therefore begins behind the label: the question
  that was asked before it is still in the session but no longer in the context.
\<close>

theorem branched_session_forgets_history:
  "(case createBranchedSession (\<lambda>d f. d @ f) (demo_id (CHR ''c'')) (\<lambda>n. demo_uuid (CHR ''d'')) (js ''s2'') (js ''t'') True
           labelled_session of
      Some (r, w) \<Rightarrow>
        map_option (map se_body) (getBranch None (fst labelled_session)) =
          Some [MessageEntry (demo_message ''user'' ''hello''), LabelEntry (demo_id (CHR ''a'')) (Some (js ''start'')),
                MessageEntry (demo_message ''assistant'' ''hi'')] \<and>
        map_option (map se_body) (getBranch (Some (demo_id (CHR ''c''))) (fst w)) =
          Some [MessageEntry (demo_message ''assistant'' ''hi'')] \<and>
        demo_id (CHR ''a'') \<in> set (map se_id (getEntries (fst w)))
    | None \<Rightarrow> False)"
  by code_simp

text \<open>A session whose file existed before an assistant answered is written twice.  Here an empty file
  is opened, which writes the header to it; the next message is not written and marks the whole
  session as unwritten, and the first answer appends everything, the header again included.
\<close>

theorem reopened_session_is_written_twice:
  "let w0 = snd (setSessionFile (\<lambda>d f. d @ f) (js ''f'') (\<lambda>n. demo_uuid (CHR ''x'')) (js ''s'') (js ''t'') True
              (fst (demo_session True []), [(js ''f'', [])]));
       w1 = snd (appendMessage (demo_message ''user'' ''hello'') (demo_uuid (CHR ''a'')) (js ''t'') True w0);
       w2 = snd (appendMessage (demo_message ''assistant'' ''hi'') (demo_uuid (CHR ''b'')) (js ''t'') True w1)
   in jm_get (snd w0) (js ''f'') = Some (sm_fileEntries (fst w0)) \<and>
      jm_get (snd w2) (js ''f'') = Some (sm_fileEntries (fst w0) @ sm_fileEntries (fst w2))"
  by code_simp

text \<open>A branch with a summary that cannot be written moves the leaf all the same: the next message
  is attached to the entry that was to be branched from.
\<close>

theorem failed_summary_moves_leaf:
  "let w0 = snd (appendMessage (demo_message ''assistant'' ''hi'') (demo_uuid (CHR ''b'')) (js ''t'') True
              (snd (appendMessage (demo_message ''user'' ''hello'') (demo_uuid (CHR ''a'')) (js ''t'') True
                (demo_session True []))));
       (r, w1) = branchWithSummary (Some (demo_id (CHR ''a''))) (js ''summary'') None None None
                   (demo_uuid (CHR ''c'')) (js ''t'') False w0
   in r = Inl write_error \<and> sm_leafId (fst w0) = Some (demo_id (CHR ''b'')) \<and> sm_leafId (fst w1) = Some (demo_id (CHR ''a''))"
  by code_simp

text \<open>If the file of a branched session cannot be written, the session goes on without it, and the
  next append makes a file that holds this entry alone: it has no header and cannot be opened.
\<close>

theorem unwritten_branch_loses_its_file:
  "let w0 = snd (appendMessage (demo_message ''assistant'' ''hi'') (demo_uuid (CHR ''b'')) (js ''t'') True
              (snd (appendMessage (demo_message ''user'' ''hello'') (demo_uuid (CHR ''a'')) (js ''t'') True
                (demo_session True []))))
   in (case createBranchedSession (\<lambda>d f. d @ f) (demo_id (CHR ''b'')) (\<lambda>n. demo_uuid (CHR ''d'')) (js ''s2'') (js ''t2'') False w0 of
         None \<Rightarrow> False
       | Some (r, w1) \<Rightarrow>
           (case appendMessage (demo_message ''user'' ''more'') (demo_uuid (CHR ''e'')) (js ''t'') True w1 of
              (r', w2) \<Rightarrow>
                r = Inl write_error \<and> r' = Inr (demo_id (CHR ''e'')) \<and>
                (case sm_sessionFile (fst w2) of
                   None \<Rightarrow> False
                 | Some f \<Rightarrow> jm_get (snd w2) f \<noteq> None \<and> loadEntriesFromFile f (snd w2) = [])))"
  by code_simp

subsection \<open>Migrated sessions\<close>

lemma generateId_unchecked: "generateId (\<lambda>x. False) uuids = take 8 (uuids 0)"
proof -
  have "generateId_loop 0 (Suc 99) (\<lambda>x. False) uuids = take 8 (uuids 0)"
    unfolding generateId_loop.simps Let_def by simp
  then show ?thesis by (simp add: generateId_def)
qed

lemma entries_of_append: "getEntriesWithoutHeader (xs @ ys) = getEntriesWithoutHeader xs @ getEntriesWithoutHeader ys"
  by (simp add: getEntriesWithoutHeader_def)

lemma migrateV1_chain:
  assumes "distinct (ids_of (getEntriesWithoutHeader out) @ map (\<lambda>n. take 8 (uuids n 0)) [length out..<length out + length fs])"
    and "\<And>n. take 8 (uuids n 0) \<noteq> []"
    and "tree_from [] (getEntriesWithoutHeader out)" "linked None (getEntriesWithoutHeader out)"
    and "last_id (getEntriesWithoutHeader out) = prev"
  shows "tree_from [] (getEntriesWithoutHeader (migrateV1_loop uuids prev out fs)) \<and>
         linked None (getEntriesWithoutHeader (migrateV1_loop uuids prev out fs)) \<and>
         length (migrateV1_loop uuids prev out fs) = length out + length fs"
  using assms(1,3-5,2)
proof (induction uuids prev out fs rule: migrateV1_loop.induct)
  case (2 uuids prev out h fs)
  have split: "[length out..<length out + length (Header h # fs)] = length out # [Suc (length out)..<Suc (length out) + length fs]"
    by (simp add: upt_conv_Cons del: upt_Suc)
  have "distinct (ids_of (getEntriesWithoutHeader out) @ map (\<lambda>n. take 8 (uuids n 0)) [Suc (length out)..<Suc (length out) + length fs])"
    using 2(2) unfolding split by auto
  moreover have "getEntriesWithoutHeader (out @ [Header g]) = getEntriesWithoutHeader out" for g
    by (simp add: getEntriesWithoutHeader_def map_filter_def)
  ultimately show ?case using 2 by simp
next
  case (3 uuids prev out e fs)
  let ?i = "take 8 (uuids (length out) 0)"
  define e' where "e' = e\<lparr>se_id := ?i, se_parentId := prev, se_body :=
    convert_first_kept (out @ Entry (e\<lparr>se_id := ?i, se_parentId := prev\<rparr>) # fs) (se_body e)\<rparr>"
  have e': "se_id e' = ?i" "se_parentId e' = prev" by (simp_all add: e'_def)
  have split: "[length out..<length out + length (Entry e # fs)] = length out # [Suc (length out)..<Suc (length out) + length fs]"
    by (simp add: upt_conv_Cons del: upt_Suc)
  have es: "getEntriesWithoutHeader (out @ [Entry e']) = getEntriesWithoutHeader out @ [e']"
    by (simp add: getEntriesWithoutHeader_def map_filter_def)
  have dist: "distinct (ids_of (getEntriesWithoutHeader (out @ [Entry e'])) @
      map (\<lambda>n. take 8 (uuids n 0)) [length (out @ [Entry e'])..<length (out @ [Entry e']) + length fs])"
    using 3(2) unfolding split es by (auto simp: e')
  have new: "?i \<notin> set (ids_of (getEntriesWithoutHeader out))" using 3(2) unfolding split by auto
  have "prev = None \<or> (\<exists>p. prev = Some p \<and> p \<in> set (ids_of (getEntriesWithoutHeader out)))"
    using 3(5) by (cases "getEntriesWithoutHeader out = []") (auto simp: last_id_def)
  then have tree: "tree_from [] (getEntriesWithoutHeader (out @ [Entry e']))"
    using 3(3) 3(6) [of "length out"] new unfolding es tree_from_snoc e' by auto
  have chain: "linked None (getEntriesWithoutHeader (out @ [Entry e']))" "last_id (getEntriesWithoutHeader (out @ [Entry e'])) = Some ?i"
    using 3(4,5) unfolding es by (auto simp: linked_append last_id_def e')
  have "migrateV1_loop uuids prev out (Entry e # fs) = migrateV1_loop uuids (Some ?i) (out @ [Entry e']) fs"
    by (simp add: generateId_unchecked Let_def e'_def)
  then show ?case
    using 3(1) [OF refl refl refl] dist tree chain 3(6) by (simp add: generateId_unchecked e'_def)
qed simp

lemma v2_ids: "tree_from seen (getEntriesWithoutHeader (migrateV2ToV3 fs)) \<longleftrightarrow> tree_from seen (getEntriesWithoutHeader fs)"
  "linked p (getEntriesWithoutHeader (migrateV2ToV3 fs)) \<longleftrightarrow> linked p (getEntriesWithoutHeader fs)"
proof -
  have step: "getEntriesWithoutHeader (f # fs) = (case f of Header h \<Rightarrow> [] | Entry e \<Rightarrow> [e]) @ getEntriesWithoutHeader fs" for f fs
    by (simp add: getEntriesWithoutHeader_def map_filter_def split: file_entry.split)
  have nil: "getEntriesWithoutHeader [] = []" by (simp add: getEntriesWithoutHeader_def map_filter_def)
  show "tree_from seen (getEntriesWithoutHeader (migrateV2ToV3 fs)) \<longleftrightarrow> tree_from seen (getEntriesWithoutHeader fs)"
    by (induction fs arbitrary: seen)
      (auto simp: nil step migrateV2ToV3_def split: file_entry.split entry_body.split)
  show "linked p (getEntriesWithoutHeader (migrateV2ToV3 fs)) \<longleftrightarrow> linked p (getEntriesWithoutHeader fs)"
    by (induction fs arbitrary: p)
      (auto simp: nil step migrateV2ToV3_def split: file_entry.split entry_body.split)
qed

text \<open>A version 1 file becomes a chain: every entry is the child of the one before it.  This needs
  the first random ids to be distinct.
\<close>

theorem migrated_session_is_a_chain:
  assumes "distinct (map (\<lambda>n. take 8 (uuids n 0)) [0..<length fs])" "\<And>n. take 8 (uuids n 0) \<noteq> []"
    and "Option.bind (first_header fs) sh_version \<in> {None, Some 1}"
  shows "let es = getEntriesWithoutHeader (fst (migrateToCurrentVersion uuids fs))
         in tree_from [] es \<and> linked None es"
proof -
  have "migrateToCurrentVersion uuids fs = (migrateV2ToV3 (migrateV1ToV2 uuids fs), True)"
    using assms(3) by (auto simp: migrateToCurrentVersion_def CURRENT_SESSION_VERSION_def)
  moreover have "getEntriesWithoutHeader [] = []" by (simp add: getEntriesWithoutHeader_def map_filter_def)
  ultimately show ?thesis
    using migrateV1_chain [of "[]" uuids fs None] assms(1,2)
    by (simp add: Let_def v2_ids migrateV1ToV2_def last_id_def)
qed

text \<open>An entry that is its own parent: the walk to the root does not return.\<close>

lemma self_parent_never_returns:
  assumes "get_entry byId (Some k) = Some e" "se_parentId e = Some k"
  shows "getBranchPath (Some k) byId = None"
proof (rule ccontr)
  assume "getBranchPath (Some k) byId \<noteq> None"
  then obtain p where "branch_loop byId (Some e) [] = Some p" using assms(1) by (auto simp: getBranchPath_def)
  moreover have "branch_loop b c acc = Some p \<Longrightarrow> \<not> (b = byId \<and> c = Some e)" for b c acc p
  proof (rule branch_loop.raw_induct [where P = "\<lambda>b c acc p. \<not> (b = byId \<and> c = Some e)"])
    fix loop :: "entry_index \<Rightarrow> session_entry option \<Rightarrow> session_entry list \<Rightarrow> session_entry list option" and b c acc p
    assume "\<And>b c acc p. loop b c acc = Some p \<Longrightarrow> \<not> (b = byId \<and> c = Some e)"
      and "(case c of None \<Rightarrow> Some (rev acc) | Some e \<Rightarrow> loop b (get_entry b (se_parentId e)) (acc @ [e])) = Some p"
    then show "\<not> (b = byId \<and> c = Some e)" using assms by fastforce
  qed
  ultimately show False by blast
qed

text \<open>The migration passes an empty set of used ids to the generator, so that nothing checks for
  collisions.  If the generator repeats itself, an entry becomes its own parent, and every walk from
  it runs forever.
\<close>

theorem migration_collision_never_returns:
  "let e = \<lparr>se_id = [], se_parentId = None, se_timestamp = js ''t'', se_body = MessageEntry (demo_message ''user'' ''hello'')\<rparr>;
       h = \<lparr>sh_version = None, sh_id = js ''s'', sh_timestamp = js ''t'', sh_cwd = js ''/'', sh_parentSession = None,
            sh_internal = None, sh_workflow = None\<rparr>;
       fs = fst (migrateToCurrentVersion (\<lambda>n. demo_uuid (CHR ''a'')) [Header h, Entry e, Entry e])
   in getBranchPath (Some (demo_id (CHR ''a''))) (ix_byId (buildSessionIndex fs)) = None"
proof -
  let ?e = "\<lparr>se_id = [], se_parentId = None, se_timestamp = js ''t'', se_body = MessageEntry (demo_message ''user'' ''hello'')\<rparr>"
  let ?h = "\<lparr>sh_version = None, sh_id = js ''s'', sh_timestamp = js ''t'', sh_cwd = js ''/'', sh_parentSession = None,
            sh_internal = None, sh_workflow = None\<rparr>"
  let ?fs = "fst (migrateToCurrentVersion (\<lambda>n. demo_uuid (CHR ''a'')) [Header ?h, Entry ?e, Entry ?e])"
  have "get_entry (ix_byId (buildSessionIndex ?fs)) (Some (demo_id (CHR ''a''))) =
      Some (?e\<lparr>se_id := demo_id (CHR ''a''), se_parentId := Some (demo_id (CHR ''a''))\<rparr>)"
    by code_simp
  then show ?thesis unfolding Let_def by (rule self_parent_never_returns) simp
qed

subsection \<open>Witnesses\<close>

definition demo_chat :: session_world where
  "demo_chat =
     snd (append_body (MessageEntry (demo_message ''assistant'' ''hi'')) (demo_uuid (CHR ''b'')) (js ''t'') True
       (snd (append_body (MessageEntry (demo_message ''user'' ''hello'')) (demo_uuid (CHR ''a'')) (js ''t'') True
         (demo_session True []))))"

lemma demo_uuid_usable: "replicate 36 (of_char c) \<notin> set ids \<Longrightarrow> usable_uuids ids (demo_uuid c)"
  by (simp add: usable_uuids_def demo_uuid_def)

lemma demo_session_reach: "session_reach (\<lambda>d f. d @ f) (demo_session True [])"
proof -
  let ?call = "newSession (\<lambda>d f. d @ f) no_options (js ''s'') (js ''t'') (blank_manager (js ''d/'') (js ''/'') True, [])"
  have "fst ?call = Inr (Some (js ''d/t_s.jsonl''))" by code_simp
  then have "?call = (Inr (Some (js ''d/t_s.jsonl'')), demo_session True [])"
    by (simp add: demo_session_def prod_eq_iff)
  then show ?thesis by (rule session_reach.create) simp
qed

lemma demo_step_reach:
  assumes "session_reach join_path w" "replicate 36 (of_char c) \<notin> set (entry_ids w)" "\<And>t l. body \<noteq> LabelEntry t l"
  shows "session_reach join_path (snd (append_body body (demo_uuid c) now ok w))"
  by (rule session_reach.append [OF assms(1) demo_uuid_usable [OF assms(2)] assms(3) surjective_pairing])

lemma demo_chat_reach: "session_reach (\<lambda>d f. d @ f) demo_chat"
  unfolding demo_chat_def
proof (intro demo_step_reach demo_session_reach)
  show "replicate 36 (of_char (CHR ''a'')) \<notin> set (entry_ids (demo_session True []))" by code_simp
  show "replicate 36 (of_char (CHR ''b'')) \<notin> set (entry_ids (snd (append_body
      (MessageEntry (demo_message ''user'' ''hello'')) (demo_uuid (CHR ''a'')) (js ''t'') True (demo_session True []))))"
    by code_simp
qed simp_all

lemma demo_chat_usable: "usable_uuids (entry_ids demo_chat) (demo_uuid (CHR ''c''))"
proof (rule demo_uuid_usable)
  show "replicate 36 (of_char (CHR ''c'')) \<notin> set (entry_ids demo_chat)" by code_simp
qed



theorem appended_message_ends_context_witness:
  "\<exists>c. session_context_of (\<lambda>n. []) (\<lambda>v. []) (\<lambda>t. JNonFinite) (fst demo_chat) = Some c \<and>
    map_option sc_messages (session_context_of (\<lambda>n. []) (\<lambda>v. []) (\<lambda>t. JNonFinite)
      (fst (snd (appendMessage (demo_message ''user'' ''bye'') (demo_uuid (CHR ''c'')) (js ''t'') True demo_chat)))) =
    Some (sc_messages c @ [demo_message ''user'' ''bye''])"
proof -
  let ?call = "appendMessage (demo_message ''user'' ''bye'') (demo_uuid (CHR ''c'')) (js ''t'') True demo_chat"
  have "fst ?call = Inr (demo_id (CHR ''c''))" by code_simp
  then have call: "?call = (Inr (demo_id (CHR ''c'')), snd ?call)" by (simp add: prod_eq_iff)
  have "normalizeMessageContent (demo_message ''user'' ''bye'') = demo_message ''user'' ''bye''" by code_simp
  with appended_message_ends_context [OF demo_chat_reach demo_chat_usable call, of "\<lambda>n. []" "\<lambda>v. []" "\<lambda>t. JNonFinite"]
  show ?thesis by auto
qed


theorem migrated_session_is_a_chain_witness:
  "linked None (getEntriesWithoutHeader (fst (migrateToCurrentVersion (\<lambda>n. demo_uuid (char_of (97 + n)))
     [Entry \<lparr>se_id = [], se_parentId = None, se_timestamp = [], se_body = SessionInfo None\<rparr>])))"
proof -
  have "take 8 (demo_uuid c 0) \<noteq> []" for c by (simp add: demo_uuid_def)
  then show ?thesis
    using migrated_session_is_a_chain [of "\<lambda>n. demo_uuid (char_of (97 + n))"
        "[Entry \<lparr>se_id = [], se_parentId = None, se_timestamp = [], se_body = SessionInfo None\<rparr>]"]
    by (simp add: Let_def)
qed

end
