(* ===== verification/Truncation.thy ===== *)
theory Truncation
  imports JS_Core
begin

unbundle bit_operations_syntax

text \<open>
  Truncation of tool outputs (\<open>packages/coding-agent/src/core/tools/truncate.ts\<close>): by lines and by
  UTF-8 bytes, from either end.  Limits are natural numbers.
\<close>

subsection \<open>UTF-8\<close>

type_synonym utf8_byte = "8 word"

definition scalar_bytes :: "nat \<Rightarrow> utf8_byte list" where
  "scalar_bytes n =
     (if n < 0x80 then [of_nat n]
      else if n < 0x800 then [of_nat (0xC0 + n div 64), of_nat (0x80 + n mod 64)]
      else if n < 0x10000
      then [of_nat (0xE0 + n div 4096), of_nat (0x80 + n div 64 mod 64), of_nat (0x80 + n mod 64)]
      else [of_nat (0xF0 + n div 262144), of_nat (0x80 + n div 4096 mod 64), of_nat (0x80 + n div 64 mod 64),
            of_nat (0x80 + n mod 64)])"

text \<open>The scalar values of a string; a surrogate without its partner becomes U+FFFD.\<close>

fun scalars :: "jstr \<Rightarrow> nat list" where
  "scalars [] = []"
| "scalars [c] = [if is_high_surrogate c \<or> is_low_surrogate c then 0xFFFD else unat c]"
| "scalars (c # d # s) =
     (if is_high_surrogate c \<and> is_low_surrogate d
      then (0x10000 + (unat c - 0xD800) * 1024 + (unat d - 0xDC00)) # scalars s
      else (if is_high_surrogate c \<or> is_low_surrogate c then 0xFFFD else unat c) # scalars (d # s))"

definition utf8 :: "jstr \<Rightarrow> utf8_byte list" where
  "utf8 s = concat (map scalar_bytes (scalars s))"

definition byteLength :: "jstr \<Rightarrow> nat" where
  "byteLength s = length (utf8 s)"

definition units_of_scalar :: "nat \<Rightarrow> jstr" where
  "units_of_scalar n =
     (if n < 0x10000 then [of_nat n]
      else [of_nat (0xD800 + (n - 0x10000) div 1024), of_nat (0xDC00 + (n - 0x10000) mod 1024)])"

text \<open>Decoding of well-formed bytes; the code decodes no others (lemma \<open>kept_tail_decodes\<close>).\<close>

fun decode_utf8 :: "utf8_byte list \<Rightarrow> jstr" where
  "decode_utf8 [] = []"
| "decode_utf8 (a # bs) =
     (let n = unat a; t = (\<lambda>i. unat (bs ! i) mod 64)
      in if n < 0x80 then units_of_scalar n @ decode_utf8 bs
         else if n < 0xE0 then units_of_scalar (n mod 32 * 64 + t 0) @ decode_utf8 (drop 1 bs)
         else if n < 0xF0 then units_of_scalar (n mod 16 * 4096 + t 0 * 64 + t 1) @ decode_utf8 (drop 2 bs)
         else units_of_scalar (n mod 8 * 262144 + t 0 * 4096 + t 1 * 64 + t 2) @ decode_utf8 (drop 3 bs))"

subsection \<open>Truncation\<close>

datatype truncated_by = ByLines | ByBytes

record truncation_result =
  tr_content :: jstr
  tr_truncated :: bool
  tr_truncatedBy :: "truncated_by option"
  tr_totalLines :: nat
  tr_totalBytes :: nat
  tr_outputLines :: nat
  tr_outputBytes :: nat
  tr_lastLinePartial :: bool
  tr_firstLineExceedsLimit :: bool
  tr_maxLines :: nat
  tr_maxBytes :: nat

definition DEFAULT_MAX_LINES :: nat where "DEFAULT_MAX_LINES = 3000"
definition DEFAULT_MAX_BYTES :: nat where "DEFAULT_MAX_BYTES = 50 * 1024"
definition GREP_MAX_LINE_LENGTH :: nat where "GREP_MAX_LINE_LENGTH = 512"

definition splitLinesForCounting :: "jstr \<Rightarrow> jstr list" where
  "splitLinesForCounting content =
     (if content = [] then []
      else if last content = js_LF then butlast (js_split js_LF content) else js_split js_LF content)"

definition untruncated :: "jstr \<Rightarrow> nat \<Rightarrow> nat \<Rightarrow> nat \<Rightarrow> nat \<Rightarrow> truncation_result" where
  "untruncated content totalLines totalBytes maxLines maxBytes =
     \<lparr>tr_content = content, tr_truncated = False, tr_truncatedBy = None, tr_totalLines = totalLines,
      tr_totalBytes = totalBytes, tr_outputLines = totalLines, tr_outputBytes = totalBytes,
      tr_lastLinePartial = False, tr_firstLineExceedsLimit = False, tr_maxLines = maxLines, tr_maxBytes = maxBytes\<rparr>"

text \<open>The loop over the lines: the lines taken, their bytes and why it stopped.\<close>

fun head_loop :: "nat \<Rightarrow> nat \<Rightarrow> nat \<Rightarrow> jstr list \<Rightarrow> jstr list \<Rightarrow> nat \<Rightarrow> jstr list \<times> nat \<times> truncated_by" where
  "head_loop maxLines maxBytes i [] out bytes = (out, bytes, ByLines)"
| "head_loop maxLines maxBytes i (line # rest) out bytes =
     (if maxLines \<le> i then (out, bytes, ByLines)
      else (let lineBytes = byteLength line + (if 0 < i then 1 else 0)
            in if maxBytes < bytes + lineBytes then (out, bytes, ByBytes)
               else head_loop maxLines maxBytes (Suc i) rest (out @ [line]) (bytes + lineBytes)))"

definition truncateHead :: "jstr \<Rightarrow> nat option \<Rightarrow> nat option \<Rightarrow> truncation_result" where
  "truncateHead content optLines optBytes =
     (let maxLines = (case optLines of None \<Rightarrow> DEFAULT_MAX_LINES | Some n \<Rightarrow> n);
          maxBytes = (case optBytes of None \<Rightarrow> DEFAULT_MAX_BYTES | Some n \<Rightarrow> n);
          totalBytes = byteLength content; lines = splitLinesForCounting content; totalLines = length lines
      in if totalLines \<le> maxLines \<and> totalBytes \<le> maxBytes
         then untruncated content totalLines totalBytes maxLines maxBytes
         else if maxBytes < byteLength (lines ! 0)
         then \<lparr>tr_content = [], tr_truncated = True, tr_truncatedBy = Some ByBytes, tr_totalLines = totalLines,
               tr_totalBytes = totalBytes, tr_outputLines = 0, tr_outputBytes = 0, tr_lastLinePartial = False,
               tr_firstLineExceedsLimit = True, tr_maxLines = maxLines, tr_maxBytes = maxBytes\<rparr>
         else (case head_loop maxLines maxBytes 0 lines [] 0 of
                 (out, bytes, stop) \<Rightarrow>
                   (let content' = js_join [js_LF] out
                    in \<lparr>tr_content = content', tr_truncated = True,
                        tr_truncatedBy = Some (if maxLines \<le> length out \<and> bytes \<le> maxBytes then ByLines else stop),
                        tr_totalLines = totalLines, tr_totalBytes = totalBytes, tr_outputLines = length out,
                        tr_outputBytes = byteLength content', tr_lastLinePartial = False,
                        tr_firstLineExceedsLimit = False, tr_maxLines = maxLines, tr_maxBytes = maxBytes\<rparr>)))"

text \<open>\<open>while (start < buf.length && (buf[start] & 0xc0) === 0x80) start++\<close>, as the bytes from \<open>start\<close>.\<close>

definition is_continuation :: "utf8_byte \<Rightarrow> bool" where
  "is_continuation b \<longleftrightarrow> b AND 0xC0 = 0x80"

definition truncateStringToBytesFromEnd :: "jstr \<Rightarrow> nat \<Rightarrow> jstr" where
  "truncateStringToBytesFromEnd s maxBytes =
     (let buf = utf8 s
      in if length buf \<le> maxBytes then s
         else decode_utf8 (dropWhile is_continuation (drop (length buf - maxBytes) buf)))"

text \<open>The loop from the last line up; the lines come last first.\<close>

fun tail_loop :: "nat \<Rightarrow> nat \<Rightarrow> jstr list \<Rightarrow> jstr list \<Rightarrow> nat \<Rightarrow> jstr list \<times> nat \<times> truncated_by \<times> bool" where
  "tail_loop maxLines maxBytes [] out bytes = (out, bytes, ByLines, False)"
| "tail_loop maxLines maxBytes (line # rest) out bytes =
     (if maxLines \<le> length out then (out, bytes, ByLines, False)
      else (let lineBytes = byteLength line + (if 0 < length out then 1 else 0)
            in if maxBytes < bytes + lineBytes then
                 (if out = []
                  then (let cut = truncateStringToBytesFromEnd line maxBytes
                        in ([cut], byteLength cut, ByBytes, True))
                  else (out, bytes, ByBytes, False))
               else tail_loop maxLines maxBytes rest (line # out) (bytes + lineBytes)))"

definition truncateTail :: "jstr \<Rightarrow> nat option \<Rightarrow> nat option \<Rightarrow> truncation_result" where
  "truncateTail content optLines optBytes =
     (let maxLines = (case optLines of None \<Rightarrow> DEFAULT_MAX_LINES | Some n \<Rightarrow> n);
          maxBytes = (case optBytes of None \<Rightarrow> DEFAULT_MAX_BYTES | Some n \<Rightarrow> n);
          totalBytes = byteLength content; lines = splitLinesForCounting content; totalLines = length lines
      in if totalLines \<le> maxLines \<and> totalBytes \<le> maxBytes
         then untruncated content totalLines totalBytes maxLines maxBytes
         else (case tail_loop maxLines maxBytes (rev lines) [] 0 of
                 (out, bytes, stop, partial) \<Rightarrow>
                   (let content' = js_join [js_LF] out
                    in \<lparr>tr_content = content', tr_truncated = True,
                        tr_truncatedBy = Some (if maxLines \<le> length out \<and> bytes \<le> maxBytes then ByLines else stop),
                        tr_totalLines = totalLines, tr_totalBytes = totalBytes, tr_outputLines = length out,
                        tr_outputBytes = byteLength content', tr_lastLinePartial = partial,
                        tr_firstLineExceedsLimit = False, tr_maxLines = maxLines, tr_maxBytes = maxBytes\<rparr>)))"

definition truncateLine :: "jstr \<Rightarrow> nat option \<Rightarrow> jstr \<times> bool" where
  "truncateLine line optChars =
     (let maxChars = (case optChars of None \<Rightarrow> GREP_MAX_LINE_LENGTH | Some n \<Rightarrow> n)
      in if length line \<le> maxChars then (line, False) else (take maxChars line @ js ''... [truncated]'', True))"

subsection \<open>Bytes of characters\<close>

lemma continuation_range: "is_continuation b \<longleftrightarrow> 128 \<le> unat b \<and> unat b < 192"
proof -
  have "b AND NOT (mask 6) = push_bit 6 (drop_bit 6 b)"
    by (rule bit_word_eqI) (auto simp: bit_simps)
  moreover have "(0xC0 :: utf8_byte) = NOT (mask 6)" by (simp add: mask_eq_exp_minus_1)
  moreover have "unat (push_bit 6 (drop_bit 6 b)) = unat b div 64 * 64"
  proof -
    have "unat b < 2 ^ LENGTH(8)" by (rule unsigned_less)
    then show ?thesis
      by (simp only: unsigned_push_bit_eq unsigned_drop_bit_eq) (simp add: push_bit_eq_mult drop_bit_eq_div take_bit_eq_mod)
  qed
  ultimately have "is_continuation b \<longleftrightarrow> push_bit 6 (drop_bit 6 b) = 0x80" "unat (push_bit 6 (drop_bit 6 b)) = unat b div 64 * 64"
    by (simp_all only: is_continuation_def)
  then have "is_continuation b \<longleftrightarrow> unat b div 64 * 64 = 128"
    by (simp only: word_unat_eq_iff) simp
  then show ?thesis by auto
qed

definition is_scalar :: "nat \<Rightarrow> bool" where
  "is_scalar n \<longleftrightarrow> n < 0x110000 \<and> \<not> (0xD800 \<le> n \<and> n < 0xE000)"

lemma unit_less: "unat (c :: code_unit) < 0x10000"
proof -
  have "unat c < 2 ^ LENGTH(16)" by (rule unsigned_less)
  then show ?thesis by simp
qed

lemma unit_scalar: "is_scalar (if is_high_surrogate c \<or> is_low_surrogate c then 0xFFFD else unat c)"
  using unit_less [of c] by (auto simp: is_scalar_def is_high_surrogate_def is_low_surrogate_def)

lemma pair_scalar:
  "is_high_surrogate c \<Longrightarrow> is_low_surrogate d \<Longrightarrow> is_scalar (0x10000 + (unat c - 0xD800) * 1024 + (unat d - 0xDC00))"
  by (auto simp: is_scalar_def is_high_surrogate_def is_low_surrogate_def)

lemma scalars_valid: "list_all is_scalar (scalars s)"
proof (induction s rule: scalars.induct)
  case (3 c d s)
  then show ?case using unit_scalar [of c] pair_scalar [of c d] by (auto simp del: of_nat_add)
qed (use unit_scalar in auto)

lemma unat_byte8: "n < 256 \<Longrightarrow> unat (of_nat n :: utf8_byte) = n"
  by (simp add: unat_of_nat)

lemma scalar_cases:
  assumes "n < 0x110000"
  obtains "n < 0x80" "scalar_bytes n = [of_nat n]"
  | p q where "n = p * 64 + q" "2 \<le> p" "p < 32" "q < 64" "scalar_bytes n = [of_nat (0xC0 + p), of_nat (0x80 + q)]"
  | p q r where "n = p * 4096 + q * 64 + r" "p < 16" "q < 64" "r < 64" "0x800 \<le> n" "n < 0x10000"
      "scalar_bytes n = [of_nat (0xE0 + p), of_nat (0x80 + q), of_nat (0x80 + r)]"
  | p q r t where "n = p * 262144 + q * 4096 + r * 64 + t" "p < 8" "q < 64" "r < 64" "t < 64" "0x10000 \<le> n"
      "scalar_bytes n = [of_nat (0xF0 + p), of_nat (0x80 + q), of_nat (0x80 + r), of_nat (0x80 + t)]"
proof -
  have a: "n = n div 64 * 64 + n mod 64" by simp
  have b: "n div 64 = n div 4096 * 64 + n div 64 mod 64"
    using div_mult_mod_eq [of "n div 64" 64] by (simp add: div_mult2_eq [symmetric])
  have c: "n div 4096 = n div 262144 * 64 + n div 4096 mod 64"
    using div_mult_mod_eq [of "n div 4096" 64] by (simp add: div_mult2_eq [symmetric])
  have m: "n mod 64 < 64" "n div 64 mod 64 < 64" "n div 4096 mod 64 < 64" by simp_all
  consider "n < 0x80" | "0x80 \<le> n" "n < 0x800" | "0x800 \<le> n" "n < 0x10000" | "0x10000 \<le> n" by linarith
  then show thesis
  proof cases
    case 1 then show thesis using that(1) by (simp add: scalar_bytes_def)
  next
    case 2 then show thesis
      using that(2) [of "n div 64" "n mod 64"] m a by (simp add: scalar_bytes_def less_mult_imp_div_less)
  next
    case 3
    have "n = n div 4096 * 4096 + n div 64 mod 64 * 64 + n mod 64" using a b by linarith
    with 3 show thesis
      using that(3) [of "n div 4096" "n div 64 mod 64" "n mod 64"] m by (simp add: scalar_bytes_def less_mult_imp_div_less)
  next
    case 4
    have "n = n div 262144 * 262144 + n div 4096 mod 64 * 4096 + n div 64 mod 64 * 64 + n mod 64" using a b c by linarith
    with 4 show thesis
      using that(4) [of "n div 262144" "n div 4096 mod 64" "n div 64 mod 64" "n mod 64"] m assms
      by (simp add: scalar_bytes_def less_mult_imp_div_less)
  qed
qed

lemma scalar_bytes_shape:
  assumes "n < 0x110000"
  shows "\<exists>a bs. scalar_bytes n = a # bs \<and> \<not> is_continuation a \<and> list_all is_continuation bs \<and> length bs \<le> 3"
  using assms by (cases rule: scalar_cases) (simp_all add: continuation_range unat_byte8 del: of_nat_add)

lemma low_bits:
  "q < 64 \<Longrightarrow> (128 + q) mod 64 = (q :: nat)"
  "q < 32 \<Longrightarrow> (192 + q) mod 32 = q"
  "q < 16 \<Longrightarrow> (224 + q) mod 16 = q"
  "q < 8 \<Longrightarrow> (240 + q) mod 8 = q"
  using mod_mult_self3 [of 2 64 q] mod_mult_self3 [of 6 32 q] mod_mult_self3 [of 14 16 q] mod_mult_self3 [of 30 8 q]
  by simp_all

lemma byte_values:
  "q < 64 \<Longrightarrow> unat (of_nat (128 + q) :: utf8_byte) = 128 + q"
  "q < 32 \<Longrightarrow> unat (of_nat (192 + q) :: utf8_byte) = 192 + q"
  "q < 16 \<Longrightarrow> unat (of_nat (224 + q) :: utf8_byte) = 224 + q"
  "q < 8 \<Longrightarrow> unat (of_nat (240 + q) :: utf8_byte) = 240 + q"
  by (rule unat_byte8; simp)+

lemma decode_utf8_cons:
  assumes "unat a = n"
  shows "decode_utf8 (a # bs) =
     (if n < 0x80 then units_of_scalar n @ decode_utf8 bs
      else if n < 0xE0 then units_of_scalar (n mod 32 * 64 + unat (bs ! 0) mod 64) @ decode_utf8 (drop 1 bs)
      else if n < 0xF0
      then units_of_scalar (n mod 16 * 4096 + unat (bs ! 0) mod 64 * 64 + unat (bs ! 1) mod 64) @ decode_utf8 (drop 2 bs)
      else units_of_scalar (n mod 8 * 262144 + unat (bs ! 0) mod 64 * 4096 + unat (bs ! 1) mod 64 * 64 +
             unat (bs ! 2) mod 64) @ decode_utf8 (drop 3 bs))"
  using assms unfolding decode_utf8.simps(2) Let_def by (simp only:)

lemma decode_scalar:
  assumes "n < 0x110000"
  shows "decode_utf8 (scalar_bytes n @ bs) = units_of_scalar n @ decode_utf8 bs"
  using assms
proof (cases rule: scalar_cases)
  case 1
  then show ?thesis by (simp add: decode_utf8_cons [OF unat_byte8] del: decode_utf8.simps)
next
  case (2 p q)
  have "scalar_bytes n @ bs = of_nat (192 + p) # of_nat (128 + q) # bs" using 2 by simp
  moreover have "unat (of_nat (192 + p) :: utf8_byte) = 192 + p" "unat (of_nat (128 + q) :: utf8_byte) = 128 + q"
    using 2 by (simp_all only: unat_byte8)
  ultimately show ?thesis using 2 low_bits by (simp add: decode_utf8_cons del: decode_utf8.simps of_nat_add)
next
  case (3 p q r)
  have "scalar_bytes n @ bs = of_nat (224 + p) # of_nat (128 + q) # of_nat (128 + r) # bs" using 3 by simp
  moreover have "unat (of_nat (224 + p) :: utf8_byte) = 224 + p" "unat (of_nat (128 + q) :: utf8_byte) = 128 + q"
    "unat (of_nat (128 + r) :: utf8_byte) = 128 + r"
    using 3 by (simp_all only: byte_values)
  ultimately show ?thesis using 3(1-4) low_bits by (simp add: decode_utf8_cons del: decode_utf8.simps of_nat_add)
next
  case (4 p q r t)
  have "scalar_bytes n @ bs = of_nat (240 + p) # of_nat (128 + q) # of_nat (128 + r) # of_nat (128 + t) # bs" using 4 by simp
  moreover have "unat (of_nat (240 + p) :: utf8_byte) = 240 + p" "unat (of_nat (128 + q) :: utf8_byte) = 128 + q"
    "unat (of_nat (128 + r) :: utf8_byte) = 128 + r" "unat (of_nat (128 + t) :: utf8_byte) = 128 + t"
    using 4 by (simp_all only: byte_values)
  ultimately show ?thesis using 4(1-5) low_bits by (simp add: decode_utf8_cons del: decode_utf8.simps of_nat_add)
qed

lemma decode_scalars:
  "list_all is_scalar ns \<Longrightarrow> decode_utf8 (concat (map scalar_bytes ns)) = concat (map units_of_scalar ns)"
  by (induction ns) (simp_all add: decode_scalar is_scalar_def del: decode_utf8.simps(2))

text \<open>Cutting at any byte and skipping continuation bytes leaves the bytes of the last characters, at most
  three bytes shorter.\<close>

lemma cut_at_character:
  assumes "list_all is_scalar ns"
  shows "\<exists>m i. i \<le> 3 \<and> dropWhile is_continuation (drop k (concat (map scalar_bytes ns))) = concat (map scalar_bytes (drop m ns)) \<and>
    concat (map scalar_bytes (drop m ns)) = drop (k + i) (concat (map scalar_bytes ns))"
  using assms
proof (induction ns arbitrary: k)
  case Nil
  show ?case by (auto intro!: exI [of _ 0])
next
  case (Cons n ns)
  from Cons.prems scalar_bytes_shape [of n] obtain a bs
    where n: "scalar_bytes n = a # bs" "\<not> is_continuation a" "list_all is_continuation bs" "length bs \<le> 3"
    by (auto simp: is_scalar_def)
  have first: "dropWhile is_continuation (concat (map scalar_bytes ns)) = concat (map scalar_bytes ns)"
  proof (cases ns)
    case (Cons n' ns')
    with Cons.prems scalar_bytes_shape [of n'] show ?thesis by (auto simp: is_scalar_def)
  qed simp
  consider "k = 0" | j where "k = Suc j" "j \<le> length bs" | j where "k = length (a # bs) + j"
  proof (cases "k \<le> length bs + 1")
    case True
    then show thesis using that(1) that(2) [of "k - 1"] by (cases k) simp_all
  next
    case False
    then show thesis using that(3) [of "k - length (a # bs)"] by simp
  qed
  then show ?case
  proof cases
    case 1
    then show ?thesis using n by (intro exI [of _ 0]) simp
  next
    case (2 j)
    have "list_all is_continuation (drop j bs)" using n(3) by (auto simp: list_all_iff dest: in_set_dropD)
    then have "dropWhile is_continuation (drop j bs @ concat (map scalar_bytes ns)) = concat (map scalar_bytes ns)"
      by (simp add: list_all_iff dropWhile_append2 first)
    with 2 n show ?thesis by (intro exI [of _ 1] exI [of _ "length bs - j"]) simp
  next
    case (3 j)
    from Cons.IH [of j] Cons.prems obtain m i where "i \<le> 3"
      "dropWhile is_continuation (drop j (concat (map scalar_bytes ns))) = concat (map scalar_bytes (drop m ns))"
      "concat (map scalar_bytes (drop m ns)) = drop (j + i) (concat (map scalar_bytes ns))" by auto
    with 3 n show ?thesis by (intro exI [of _ "Suc m"] exI [of _ i]) simp
  qed
qed

lemma scalars_units:
  "list_all is_scalar ns \<Longrightarrow> scalars (concat (map units_of_scalar ns)) = ns"
proof (induction ns)
  case (Cons n ns)
  show ?case
  proof (cases "n < 0x10000")
    case True
    then have "unat (of_nat n :: code_unit) = n" by (simp add: unat_of_nat)
    with True Cons.prems have c: "\<not> is_high_surrogate (of_nat n)" "\<not> is_low_surrogate (of_nat n)"
      "unat (of_nat n :: code_unit) = n"
      by (auto simp: is_scalar_def is_high_surrogate_def is_low_surrogate_def)
    have "scalars (of_nat n # s) = n # scalars s" for s using c by (cases s) simp_all
    then show ?thesis using True Cons by (simp add: units_of_scalar_def)
  next
    case False
    define h l where "h = (n - 0x10000) div 1024" and "l = (n - 0x10000) mod 1024"
    have "n - 0x10000 = h * 1024 + l" by (simp add: h_def l_def)
    with False Cons.prems have hl: "n = 0x10000 + h * 1024 + l" "h < 1024" "l < 1024"
      by (auto simp: is_scalar_def l_def)
    have "unat (of_nat (0xD800 + h) :: code_unit) = 0xD800 + h" "unat (of_nat (0xDC00 + l) :: code_unit) = 0xDC00 + l"
      using hl by (simp_all only: unat_of_nat) simp_all
    moreover have "units_of_scalar n = [of_nat (0xD800 + h), of_nat (0xDC00 + l)]"
      using False by (simp add: units_of_scalar_def h_def l_def)
    ultimately show ?thesis
      using Cons hl by (simp add: is_high_surrogate_def is_low_surrogate_def del: of_nat_add)
  qed
qed simp

lemma utf8_of_units: "list_all is_scalar ns \<Longrightarrow> utf8 (concat (map units_of_scalar ns)) = concat (map scalar_bytes ns)"
  by (simp add: utf8_def scalars_units)

lemma kept_tail_decodes:
  assumes "maxBytes < byteLength s"
  obtains j where "utf8 (truncateStringToBytesFromEnd s maxBytes) = drop j (utf8 s)"
    "byteLength (truncateStringToBytesFromEnd s maxBytes) \<le> maxBytes"
    "maxBytes \<le> byteLength (truncateStringToBytesFromEnd s maxBytes) + 3"
proof -
  define k where "k = byteLength s - maxBytes"
  obtain m i where i: "i \<le> 3" and cut: "dropWhile is_continuation (drop k (utf8 s)) = concat (map scalar_bytes (drop m (scalars s)))"
    and rest: "concat (map scalar_bytes (drop m (scalars s))) = drop (k + i) (utf8 s)"
    using cut_at_character [OF scalars_valid, of k s] unfolding utf8_def by blast
  have valid: "list_all is_scalar (drop m (scalars s))"
    using scalars_valid [of s] by (auto simp: list_all_iff dest: in_set_dropD)
  have "truncateStringToBytesFromEnd s maxBytes = decode_utf8 (dropWhile is_continuation (drop k (utf8 s)))"
    using assms by (simp add: truncateStringToBytesFromEnd_def Let_def k_def byteLength_def)
  then have "utf8 (truncateStringToBytesFromEnd s maxBytes) = drop (k + i) (utf8 s)"
    unfolding cut decode_scalars [OF valid] by (simp add: utf8_of_units [OF valid] rest)
  then show thesis using that i assms by (auto simp: byteLength_def k_def)
qed

subsection \<open>Bytes of joined lines\<close>

lemma scalars_LF: "scalars (a @ js_LF # b) = scalars a @ 10 # scalars b"
proof (induction a rule: scalars.induct)
  case 1
  show ?case by (cases b) (simp_all add: is_high_surrogate_def is_low_surrogate_def)
next
  case (2 c)
  have "scalars (js_LF # b) = 10 # scalars b"
    by (cases b) (simp_all add: is_high_surrogate_def is_low_surrogate_def)
  then show ?case by (simp add: is_high_surrogate_def is_low_surrogate_def)
qed simp_all

lemma byteLength_Nil [simp]: "byteLength [] = 0"
  by (simp add: byteLength_def utf8_def)

lemma byteLength_LF: "byteLength (a @ js_LF # b) = byteLength a + 1 + byteLength b"
  by (simp add: byteLength_def utf8_def scalars_LF scalar_bytes_def)

definition joined :: "jstr list \<Rightarrow> jstr" where
  "joined ls = js_join [js_LF] ls"

lemma joined_simps [simp]: "joined [] = []" "joined [a] = a" "joined (a # b # ls) = a @ js_LF # joined (b # ls)"
  by (simp_all add: joined_def)

lemma joined_Cons: "ls \<noteq> [] \<Longrightarrow> joined (a # ls) = a @ js_LF # joined ls"
  by (cases ls) simp_all

lemma joined_LF_snoc: "ls \<noteq> [] \<Longrightarrow> joined (ls @ [a]) = joined ls @ js_LF # a"
  by (simp add: joined_def js_join_append)

lemma cost_snoc: "byteLength (joined (ls @ [a])) = byteLength (joined ls) + (byteLength a + (if 0 < length ls then 1 else 0))"
  by (cases "ls = []") (simp_all add: joined_LF_snoc byteLength_LF)

lemma cost_Cons: "byteLength (joined (a # ls)) = byteLength (joined ls) + (byteLength a + (if 0 < length ls then 1 else 0))"
  by (cases "ls = []") (simp_all add: joined_Cons byteLength_LF)

subsection \<open>The loops\<close>

text \<open>The lines kept, as a number of lines: as many as the line limit allows, or one fewer than exceeds the byte limit.\<close>

definition cut_after :: "nat \<Rightarrow> nat \<Rightarrow> (nat \<Rightarrow> jstr) \<Rightarrow> nat \<Rightarrow> nat \<Rightarrow> truncated_by \<Rightarrow> bool" where
  "cut_after maxLines maxBytes kept count k stop \<longleftrightarrow>
     k \<le> maxLines \<and> k \<le> count \<and> byteLength (kept k) \<le> maxBytes \<and>
     (stop = ByLines \<and> k = min maxLines count \<or>
      stop = ByBytes \<and> k < count \<and> maxBytes < byteLength (kept (Suc k)))"

lemma head_loop_cut:
  assumes "head_loop maxLines maxBytes (length out) rest out (byteLength (joined out)) = (out', bytes, stop)"
    and "length out \<le> maxLines" "byteLength (joined out) \<le> maxBytes"
  shows "\<exists>k. out' = take k (out @ rest) \<and> bytes = byteLength (joined out') \<and>
    cut_after maxLines maxBytes (\<lambda>k. joined (take k (out @ rest))) (length (out @ rest)) k stop"
  using assms
proof (induction rest arbitrary: out)
  case Nil
  then show ?case by (intro exI [of _ "length out"]) (auto simp: cut_after_def)
next
  case (Cons line rest)
  let ?more = "byteLength (joined out) + (byteLength line + (if 0 < length out then 1 else 0))"
  consider "maxLines \<le> length out" | "length out < maxLines" "maxBytes < ?more" | "length out < maxLines" "?more \<le> maxBytes"
    by linarith
  then show ?case
  proof cases
    case 1
    with Cons.prems show ?thesis by (intro exI [of _ "length out"]) (auto simp: cut_after_def)
  next
    case 2
    with Cons.prems show ?thesis
      by (intro exI [of _ "length out"]) (auto simp: cut_after_def Let_def cost_snoc)
  next
    case 3
    then have "head_loop maxLines maxBytes (length (out @ [line])) rest (out @ [line]) (byteLength (joined (out @ [line]))) =
        (out', bytes, stop)"
      using Cons.prems(1) by (simp add: Let_def cost_snoc del: One_nat_def)
    from Cons.IH [OF this] 3 show ?thesis by (simp add: cost_snoc)
  qed
qed

lemma tail_loop_cut:
  assumes "tail_loop maxLines maxBytes rest out (byteLength (joined out)) = (out', bytes, stop, part)"
    and "length out \<le> maxLines" "byteLength (joined out) \<le> maxBytes"
  shows "bytes = byteLength (joined out') \<and> (if part then out = [] \<and> rest \<noteq> [] \<and> maxBytes < byteLength (hd rest) \<and> 0 < maxLines \<and>
       out' = [truncateStringToBytesFromEnd (hd rest) maxBytes] \<and> stop = ByBytes
     else (\<exists>k. out' = rev (take k (rev out @ rest)) \<and> (0 < k \<or> stop = ByLines) \<and>
       cut_after maxLines maxBytes (\<lambda>k. joined (rev (take k (rev out @ rest)))) (length (rev out @ rest)) k stop))"
  using assms
proof (induction rest arbitrary: out)
  case Nil
  then show ?case by (auto simp: cut_after_def intro!: exI [of _ "length out"])
next
  case (Cons line rest)
  let ?more = "byteLength (joined out) + (byteLength line + (if 0 < length out then 1 else 0))"
  consider "maxLines \<le> length out" | "length out < maxLines" "maxBytes < ?more" "out = []"
    | "length out < maxLines" "maxBytes < ?more" "out \<noteq> []" | "length out < maxLines" "?more \<le> maxBytes"
    by linarith
  then show ?case
  proof cases
    case 1
    with Cons.prems show ?thesis by (auto simp: cut_after_def intro!: exI [of _ "length out"])
  next
    case 2
    with Cons.prems show ?thesis by (auto simp: Let_def)
  next
    case 3
    with Cons.prems show ?thesis
      by (auto simp: cut_after_def Let_def cost_Cons intro!: exI [of _ "length out"])
  next
    case 4
    then have "tail_loop maxLines maxBytes rest (line # out) (byteLength (joined (line # out))) = (out', bytes, stop, part)"
      using Cons.prems(1) by (simp add: Let_def cost_Cons del: One_nat_def)
    from Cons.IH [OF this] 4 show ?thesis by (auto simp: cost_Cons split: if_splits)
  qed
qed

lemma split_at_end: "s \<noteq> [] \<Longrightarrow> last s = c \<Longrightarrow> butlast (js_split c s) \<noteq> []"
proof
  assume s: "s \<noteq> []" "last s = c" and "butlast (js_split c s) = []"
  then obtain l where l: "js_split c s = [l]" by (cases "js_split c s") (auto split: if_splits)
  then have "s = l" using js_join_split [of c s] by simp
  moreover have "c \<notin> set l" using js_split_members [of l c s] l by simp
  ultimately show False using s last_in_set [of s] by auto
qed

lemma split_nonempty: "content \<noteq> [] \<Longrightarrow> splitLinesForCounting content \<noteq> []"
  using split_at_end [of content js_LF] by (simp add: splitLinesForCounting_def)

lemma over_a_limit_nonempty:
  "ml < length (splitLinesForCounting content) \<or> mb < byteLength content \<Longrightarrow> splitLinesForCounting content \<noteq> []"
  using split_nonempty [of content] by (cases "content = []") (auto simp: splitLinesForCounting_def)

lemma truncateHead_limits:
  "truncateHead content optLines optBytes =
   truncateHead content (Some (case optLines of None \<Rightarrow> 3000 | Some n \<Rightarrow> n)) (Some (case optBytes of None \<Rightarrow> 51200 | Some n \<Rightarrow> n))"
  by (simp add: truncateHead_def DEFAULT_MAX_LINES_def DEFAULT_MAX_BYTES_def split: option.split)

lemma truncateTail_limits:
  "truncateTail content optLines optBytes =
   truncateTail content (Some (case optLines of None \<Rightarrow> 3000 | Some n \<Rightarrow> n)) (Some (case optBytes of None \<Rightarrow> 51200 | Some n \<Rightarrow> n))"
  by (simp add: truncateTail_def DEFAULT_MAX_LINES_def DEFAULT_MAX_BYTES_def split: option.split)

definition head_kept :: "jstr \<Rightarrow> nat \<Rightarrow> jstr" where
  "head_kept content k = js_join [js_LF] (take k (splitLinesForCounting content))"

definition tail_kept :: "jstr \<Rightarrow> nat \<Rightarrow> jstr" where
  "tail_kept content k =
     js_join [js_LF] (drop (length (splitLinesForCounting content) - k) (splitLinesForCounting content))"

lemma truncateHead_cases:
  fixes content ml mb
  defines "r \<equiv> truncateHead content (Some ml) (Some mb)" and "lines \<equiv> splitLinesForCounting content"
  obtains (whole) "length lines \<le> ml" "byteLength content \<le> mb"
      "r = untruncated content (length lines) (byteLength content) ml mb"
  | (first) "ml < length lines \<or> mb < byteLength content" "mb < byteLength (head_kept content 1)" "tr_truncated r"
      "tr_content r = []" "tr_outputLines r = 0" "tr_outputBytes r = 0" "tr_truncatedBy r = Some ByBytes"
  | (lines) k stop where "ml < length lines \<or> mb < byteLength content" "tr_truncated r" "tr_content r = head_kept content k"
      "tr_outputLines r = k" "tr_outputBytes r = byteLength (tr_content r)"
      "tr_truncatedBy r = Some (if ml \<le> k then ByLines else stop)"
      "cut_after ml mb (head_kept content) (length lines) k stop"
proof -
  obtain out bytes stop where loop: "head_loop ml mb 0 lines [] 0 = (out, bytes, stop)" by (metis prod_cases3)
  then obtain k where k: "out = take k lines" "bytes = byteLength (joined out)"
      "cut_after ml mb (\<lambda>k. joined (take k lines)) (length lines) k stop"
    using head_loop_cut [of ml mb "[]" lines out bytes stop] by auto
  have kept: "(\<lambda>k. joined (take k lines)) = head_kept content" by (simp add: fun_eq_iff head_kept_def joined_def lines_def)
  have len: "length out = k" "bytes \<le> mb" "js_join [js_LF] out = head_kept content k"
    using k by (simp_all add: cut_after_def joined_def head_kept_def lines_def)
  note defs = r_def truncateHead_def Let_def lines_def [symmetric] loop len
  consider "length lines \<le> ml" "byteLength content \<le> mb"
    | "ml < length lines \<or> mb < byteLength content" "mb < byteLength (lines ! 0)"
    | "ml < length lines \<or> mb < byteLength content" "byteLength (lines ! 0) \<le> mb" by linarith
  then show thesis
  proof cases
    case 1
    with whole show thesis by (simp add: defs)
  next
    case 2
    from 2(1) have "lines \<noteq> []" using over_a_limit_nonempty [of ml content mb] by (simp add: lines_def)
    then have "head_kept content 1 = lines ! 0" by (cases lines) (simp_all add: head_kept_def lines_def [symmetric])
    with 2 first show thesis by (auto simp: defs not_le)
  next
    case 3
    with k(3) lines [of k stop] show thesis by (auto simp: kept defs not_le)
  qed
qed

lemma truncateHead_bounds:
  fixes content ml mb
  defines "r \<equiv> truncateHead content (Some ml) (Some mb)" and "lines \<equiv> splitLinesForCounting content"
  shows "tr_outputBytes r = byteLength (tr_content r) \<and> tr_outputBytes r \<le> mb \<and> tr_outputLines r \<le> ml \<and>
    (if tr_truncated r
     then (ml < length lines \<or> mb < byteLength content) \<and> tr_content r = head_kept content (tr_outputLines r) \<and>
       (tr_outputLines r = min ml (length lines) \<or> mb < byteLength (head_kept content (Suc (tr_outputLines r))))
     else tr_content r = content \<and> tr_outputLines r = length lines)"
proof (cases rule: truncateHead_cases [of content ml mb, folded r_def lines_def])
  case 1
  then show ?thesis by (simp add: untruncated_def)
next
  case 2
  then show ?thesis by (simp add: head_kept_def)
next
  case (3 k stop)
  then show ?thesis by (auto simp: cut_after_def)
qed

text \<open>Truncation from the head returns the text unchanged when it is within both limits, and
  otherwise its longest run of complete first lines that is within them: no more lines than the line
  limit, no more UTF-8 bytes than the byte limit, never part of a line, and one line more would be over a
  limit.  The line count and byte count it reports are those of the text it returns.
\<close>

theorem truncateHead_keeps_longest_head:
  shows "let r = truncateHead content optLines optBytes; lines = splitLinesForCounting content;
           lineLimit = (case optLines of None \<Rightarrow> 3000 | Some n \<Rightarrow> n);
           byteLimit = (case optBytes of None \<Rightarrow> 51200 | Some n \<Rightarrow> n)
         in tr_outputBytes r = byteLength (tr_content r) \<and> tr_outputBytes r \<le> byteLimit \<and>
            tr_outputLines r \<le> lineLimit \<and>
            (if tr_truncated r
             then (lineLimit < length lines \<or> byteLimit < byteLength content) \<and>
               tr_content r = js_join [js_LF] (take (tr_outputLines r) lines) \<and>
               (tr_outputLines r = min lineLimit (length lines) \<or>
                byteLimit < byteLength (js_join [js_LF] (take (Suc (tr_outputLines r)) lines)))
             else tr_content r = content \<and> tr_outputLines r = length lines)"
  using truncateHead_bounds [of content "case optLines of None \<Rightarrow> 3000 | Some n \<Rightarrow> n" "case optBytes of None \<Rightarrow> 51200 | Some n \<Rightarrow> n"]
  unfolding truncateHead_limits [symmetric] Let_def head_kept_def .

lemma truncateTail_cases:
  fixes content ml mb
  defines "r \<equiv> truncateTail content (Some ml) (Some mb)" and "lines \<equiv> splitLinesForCounting content"
  obtains (whole) "length lines \<le> ml" "byteLength content \<le> mb"
      "r = untruncated content (length lines) (byteLength content) ml mb"
  | (part) "mb < byteLength (last lines)" "0 < ml" "tr_truncated r" "tr_lastLinePartial r"
      "tr_content r = truncateStringToBytesFromEnd (last lines) mb" "tr_outputLines r = 1"
      "tr_outputBytes r = byteLength (tr_content r)" "tr_truncatedBy r = Some (if ml \<le> 1 then ByLines else ByBytes)"
  | (lines) k stop where "ml < length lines \<or> mb < byteLength content" "tr_truncated r" "\<not> tr_lastLinePartial r"
      "tr_content r = tail_kept content k" "tr_outputLines r = k" "tr_outputBytes r = byteLength (tr_content r)"
      "tr_truncatedBy r = Some (if ml \<le> k then ByLines else stop)" "0 < k \<or> stop = ByLines"
      "cut_after ml mb (tail_kept content) (length lines) k stop"
proof -
  obtain out bytes stop partial where loop: "tail_loop ml mb (rev lines) [] 0 = (out, bytes, stop, partial)" by (metis prod_cases4)
  note cut = tail_loop_cut [of ml mb "rev lines" "[]" out bytes stop partial, simplified, OF loop]
  note defs = r_def truncateTail_def Let_def lines_def [symmetric] loop
  consider "length lines \<le> ml" "byteLength content \<le> mb" | "ml < length lines \<or> mb < byteLength content" "partial"
    | "ml < length lines \<or> mb < byteLength content" "\<not> partial" by linarith
  then show thesis
  proof cases
    case 1
    with whole show thesis by (simp add: defs)
  next
    case 2
    with cut have c: "mb < byteLength (last lines)" "0 < ml" "out = [truncateStringToBytesFromEnd (last lines) mb]"
      "bytes = byteLength (truncateStringToBytesFromEnd (last lines) mb)" "stop = ByBytes" by (auto simp: hd_rev)
    with kept_tail_decodes [OF c(1)] have "bytes \<le> mb" by metis
    with 2 c part show thesis by (auto simp: defs)
  next
    case 3
    with cut obtain k where k: "out = rev (take k (rev lines))" "bytes = byteLength (joined out)" "0 < k \<or> stop = ByLines"
      "cut_after ml mb (\<lambda>k. joined (rev (take k (rev lines)))) (length lines) k stop" by auto
    have kept: "(\<lambda>k. joined (rev (take k (rev lines)))) = tail_kept content"
      by (simp add: fun_eq_iff tail_kept_def joined_def lines_def take_rev)
    have len: "length out = k" "bytes \<le> mb" "js_join [js_LF] out = tail_kept content k"
      using k by (simp_all add: cut_after_def joined_def tail_kept_def lines_def take_rev min_def)
    with 3 k lines [of k stop] show thesis by (auto simp: kept defs)
  qed
qed

lemma truncateTail_bounds:
  fixes content ml mb
  defines "r \<equiv> truncateTail content (Some ml) (Some mb)" and "lines \<equiv> splitLinesForCounting content"
  shows "tr_outputBytes r = byteLength (tr_content r) \<and> tr_outputBytes r \<le> mb \<and> tr_outputLines r \<le> ml \<and>
    (if tr_lastLinePartial r
     then mb < byteLength (last lines) \<and> mb \<le> tr_outputBytes r + 3 \<and> tr_outputLines r = 1 \<and>
       (\<exists>j. utf8 (tr_content r) = drop j (utf8 (last lines)))
     else if tr_truncated r
     then (ml < length lines \<or> mb < byteLength content) \<and> tr_content r = tail_kept content (tr_outputLines r) \<and>
       (tr_outputLines r = min ml (length lines) \<or> mb < byteLength (tail_kept content (Suc (tr_outputLines r))))
     else tr_content r = content \<and> tr_outputLines r = length lines)"
proof (cases rule: truncateTail_cases [of content ml mb, folded r_def lines_def])
  case 1
  then show ?thesis by (simp add: untruncated_def)
next
  case 2
  then show ?thesis using kept_tail_decodes [OF 2(1)] by (metis Suc_leI One_nat_def)
next
  case (3 k stop)
  then show ?thesis by (auto simp: cut_after_def)
qed


lemma joined_take_le: "byteLength (joined (take k ls)) \<le> byteLength (joined ls)"
proof (induction ls arbitrary: k)
  case (Cons a ls)
  then show ?case using Cons [of "k - 1"] by (cases k) (auto simp: cost_Cons)
qed simp

lemma truncateHead_totals:
  "tr_totalLines (truncateHead content (Some ml) (Some mb)) = length (splitLinesForCounting content)"
  "tr_totalBytes (truncateHead content (Some ml) (Some mb)) = byteLength content"
  "tr_maxLines (truncateHead content (Some ml) (Some mb)) = ml"
  "tr_maxBytes (truncateHead content (Some ml) (Some mb)) = mb"
  by (simp_all add: truncateHead_def Let_def untruncated_def split: prod.split)

lemma head_cut_by_final_newline:
  fixes s
  defines "r \<equiv> truncateHead (s @ [js_LF]) (Some (length (js_split js_LF s))) (Some (byteLength s))"
  shows "tr_truncated r \<and> tr_truncatedBy r = Some ByLines"
proof -
  define ml mb where "ml = length (js_split js_LF s)" and "mb = byteLength s"
  have counts: "splitLinesForCounting (s @ [js_LF]) = js_split js_LF s" "byteLength (s @ [js_LF]) = mb + 1"
    using byteLength_LF [of s "[]"] by (simp_all add: splitLinesForCounting_def js_split_snoc_sep mb_def)
  have fits: "byteLength (head_kept (s @ [js_LF]) k) \<le> mb" for k
    using joined_take_le [of k "js_split js_LF s"] by (simp add: head_kept_def counts joined_def mb_def)
  show ?thesis
  proof (cases rule: truncateHead_cases [of "s @ [js_LF]" ml mb])
    case whole
    then show ?thesis by (simp add: counts)
  next
    case first
    then show ?thesis using fits [of 1] by simp
  next
    case (lines k stop)
    then show ?thesis using fits [of "Suc k"] by (auto simp: cut_after_def r_def ml_def mb_def)
  qed
qed

lemma tail_cut_to_one_line:
  fixes t n
  defines "r \<equiv> truncateTail t (Some 1) (Some n)"
  shows "tr_truncatedBy r = (if tr_truncated r then Some ByLines else None)"
proof (cases rule: truncateTail_cases [of t 1 n])
  case whole
  then show ?thesis by (simp add: untruncated_def r_def)
next
  case part
  then show ?thesis by (simp add: r_def)
next
  case (lines k stop)
  then show ?thesis by (auto simp: cut_after_def r_def)
qed

text \<open>The reason reported for a cut can be the wrong limit.  A text that has exactly as many lines as the
  line limit, and whose only excess is the final newline over the byte limit, is reported as cut by
  lines; and with a line limit of one, everything cut from the tail is, also a single line cut
  to the byte limit.
\<close>

theorem limit_reported_wrongly:
  shows "let r = truncateHead (s @ [js_LF]) (Some (length (js_split js_LF s))) (Some (byteLength s))
         in tr_truncated r \<and> tr_truncatedBy r = Some ByLines \<and> tr_totalLines r = tr_maxLines r \<and>
            tr_maxBytes r < tr_totalBytes r"
    and "let r = truncateTail t (Some 1) (Some n) in tr_truncatedBy r = (if tr_truncated r then Some ByLines else None)"
  using head_cut_by_final_newline [of s] tail_cut_to_one_line [of t n] byteLength_LF [of s "[]"]
  by (simp_all add: Let_def truncateHead_totals splitLinesForCounting_def js_split_snoc_sep)

end
