(* ===== verification/Edit_Matching.thy ===== *)
theory Edit_Matching
  imports JS_Core "HOL-Library.Multiset"
begin

text \<open>
  Text edits (\<open>packages/coding-agent/src/core/tools/edit-diff.ts\<close> and \<open>edit-diff-preserve.ts\<close>): line
  endings, exact and fuzzy matching, and the replacement of the matches, in the exact text or, where a match was
  fuzzy, line by line over the original.  \<open>String.prototype.normalize\<close> with form NFKC is the parameter \<open>nfkc\<close>.
\<close>

subsection \<open>Line endings\<close>

fun js_find :: "jstr \<Rightarrow> jstr \<Rightarrow> nat option" where
  "js_find p [] = (if p = [] then Some 0 else None)"
| "js_find p (x # s) = (if js_startsWith (x # s) p then Some 0 else map_option Suc (js_find p s))"

datatype line_ending = LF_ending | CRLF_ending

definition detectLineEnding :: "jstr \<Rightarrow> line_ending" where
  "detectLineEnding content =
     (case js_find [js_LF] content of
        None \<Rightarrow> LF_ending
      | Some lfIdx \<Rightarrow>
          (case js_find [js_CR, js_LF] content of
             None \<Rightarrow> LF_ending
           | Some crlfIdx \<Rightarrow> if crlfIdx < lfIdx then CRLF_ending else LF_ending))"

fun crlf_to_LF :: "jstr \<Rightarrow> jstr" where
  "crlf_to_LF [] = []"
| "crlf_to_LF [c] = [c]"
| "crlf_to_LF (c # d # s) = (if c = js_CR \<and> d = js_LF then js_LF # crlf_to_LF s else c # crlf_to_LF (d # s))"

definition normalizeToLF :: "jstr \<Rightarrow> jstr" where
  "normalizeToLF text = map (\<lambda>c. if c = js_CR then js_LF else c) (crlf_to_LF text)"

definition restoreLineEndings :: "jstr \<Rightarrow> line_ending \<Rightarrow> jstr" where
  "restoreLineEndings text ending =
     (case ending of
        CRLF_ending \<Rightarrow> concat (map (\<lambda>c. if c = js_LF then [js_CR, js_LF] else [c]) text)
      | LF_ending \<Rightarrow> text)"

definition stripBom :: "jstr \<Rightarrow> jstr \<times> jstr" where
  "stripBom content = (if js_startsWith content [0xFEFF] then ([0xFEFF], drop 1 content) else ([], content))"

subsection \<open>Matching\<close>

definition ascii_quote :: "code_unit \<Rightarrow> code_unit" where
  "ascii_quote c = (if c \<in> set [0x2018, 0x2019, 0x201A, 0x201B] then 0x27 else c)"

definition ascii_double_quote :: "code_unit \<Rightarrow> code_unit" where
  "ascii_double_quote c = (if c \<in> set [0x201C, 0x201D, 0x201E, 0x201F] then 0x22 else c)"

definition ascii_dash :: "code_unit \<Rightarrow> code_unit" where
  "ascii_dash c = (if c \<in> set [0x2010, 0x2011, 0x2012, 0x2013, 0x2014, 0x2015, 0x2212] then 0x2D else c)"

definition ascii_space :: "code_unit \<Rightarrow> code_unit" where
  "ascii_space c = (if c = 0xA0 \<or> 0x2002 \<le> c \<and> c \<le> 0x200A \<or> c \<in> set [0x202F, 0x205F, 0x3000] then 0x20 else c)"

definition normalizeForFuzzyMatch :: "(jstr \<Rightarrow> jstr) \<Rightarrow> jstr \<Rightarrow> jstr" where
  "normalizeForFuzzyMatch nfkc text =
     map ascii_space (map ascii_dash (map ascii_double_quote (map ascii_quote
       (js_join [js_LF] (map js_trimEnd (js_split js_LF (nfkc text)))))))"

record fuzzy_match_result =
  fm_found :: bool
  fm_index :: int
  fm_matchLength :: nat
  fm_usedFuzzyMatch :: bool
  fm_contentForReplacement :: jstr

definition fuzzyFindText :: "(jstr \<Rightarrow> jstr) \<Rightarrow> jstr \<Rightarrow> jstr \<Rightarrow> fuzzy_match_result" where
  "fuzzyFindText nfkc content oldText =
     (case js_find oldText content of
        Some i \<Rightarrow> \<lparr>fm_found = True, fm_index = int i, fm_matchLength = length oldText, fm_usedFuzzyMatch = False,
                  fm_contentForReplacement = content\<rparr>
      | None \<Rightarrow>
          (let fuzzyContent = normalizeForFuzzyMatch nfkc content; fuzzyOldText = normalizeForFuzzyMatch nfkc oldText
           in case js_find fuzzyOldText fuzzyContent of
                None \<Rightarrow> \<lparr>fm_found = False, fm_index = -1, fm_matchLength = 0, fm_usedFuzzyMatch = False,
                         fm_contentForReplacement = content\<rparr>
              | Some i \<Rightarrow> \<lparr>fm_found = True, fm_index = int i, fm_matchLength = length fuzzyOldText, fm_usedFuzzyMatch = True,
                         fm_contentForReplacement = fuzzyContent\<rparr>))"

text \<open>\<open>s.split(p)\<close>; for the empty string the code units.\<close>

function split_string :: "jstr \<Rightarrow> jstr \<Rightarrow> jstr list" where
  "split_string p s =
     (if p = [] then map (\<lambda>c. [c]) s
      else case js_find p s of None \<Rightarrow> [s] | Some i \<Rightarrow> take i s # split_string p (drop (i + length p) s))"
  by auto

lemma js_find_bound: "js_find p s = Some i \<Longrightarrow> i + length p \<le> length s"
proof (induction s arbitrary: i)
  case (Cons x s)
  then show ?case
    by (auto simp: js_startsWith_def min_def split: if_splits)
      (metis Suc_le_mono length_Cons length_take min.cobounded1)
qed (auto split: if_splits)

termination split_string
proof (relation "measure (\<lambda>(p, s). length s)")
  fix p s :: jstr and i
  assume "p \<noteq> []" "js_find p s = Some i"
  with js_find_bound [of p s i] show "((p, drop (i + length p) s), p, s) \<in> measure (\<lambda>(p, s). length s)"
    by (cases p) auto
qed simp

declare split_string.simps [simp del]

definition countOccurrences :: "(jstr \<Rightarrow> jstr) \<Rightarrow> jstr \<Rightarrow> jstr \<Rightarrow> int" where
  "countOccurrences nfkc content oldText =
     int (length (split_string (normalizeForFuzzyMatch nfkc oldText) (normalizeForFuzzyMatch nfkc content))) - 1"

subsection \<open>Replacement\<close>

record text_replacement =
  rp_matchIndex :: nat
  rp_matchLength :: nat
  rp_newText :: jstr

record matched_edit = text_replacement +
  me_editIndex :: nat

definition replace_at :: "nat \<Rightarrow> 'a text_replacement_scheme \<Rightarrow> jstr \<Rightarrow> jstr" where
  "replace_at offset r result =
     (let matchIndex = int (rp_matchIndex r) - int offset
      in take (nat matchIndex) result @ rp_newText r @ drop (nat (matchIndex + int (rp_matchLength r))) result)"

definition applyReplacements :: "jstr \<Rightarrow> 'a text_replacement_scheme list \<Rightarrow> nat \<Rightarrow> jstr" where
  "applyReplacements content replacements offset = foldr (replace_at offset) replacements content"

fun splitLinesWithEndings :: "jstr \<Rightarrow> jstr list" where
  "splitLinesWithEndings [] = []"
| "splitLinesWithEndings (c # s) =
     (if c = js_LF then [c] # splitLinesWithEndings s
      else case splitLinesWithEndings s of [] \<Rightarrow> [[c]] | l # ls \<Rightarrow> (c # l) # ls)"

type_synonym line_span = "nat \<times> nat"

fun line_spans :: "nat \<Rightarrow> jstr list \<Rightarrow> line_span list" where
  "line_spans offset [] = []"
| "line_spans offset (line # ls) = (offset, offset + length line) # line_spans (offset + length line) ls"

definition getLineSpans :: "jstr \<Rightarrow> line_span list" where
  "getLineSpans content = line_spans 0 (splitLinesWithEndings content)"

datatype edit_error =
    EmptyOldText nat nat
  | NotFound nat nat
  | Duplicate nat nat int
  | Overlap nat nat
  | NoChange nat
  | OutsideBase
  | LineCountDiffers

definition getReplacementLineRange :: "line_span list \<Rightarrow> 'a text_replacement_scheme \<Rightarrow> edit_error + nat \<times> nat" where
  "getReplacementLineRange lines r =
     (let replacementStart = rp_matchIndex r; replacementEnd = rp_matchIndex r + rp_matchLength r;
          startLine = length (takeWhile (\<lambda>(s, e). \<not> (s \<le> replacementStart \<and> replacementStart < e)) lines)
      in if length lines \<le> startLine then Inl OutsideBase
         else (let endLine = startLine + length (takeWhile (\<lambda>(s, e). e < replacementEnd) (drop startLine lines))
               in if length lines \<le> endLine then Inl OutsideBase else Inr (startLine, endLine + 1)))"

record 'a line_group =
  lg_startLine :: nat
  lg_endLine :: nat
  lg_replacements :: "'a list"

fun group_replacements ::
  "line_span list \<Rightarrow> 'a text_replacement_scheme list \<Rightarrow> 'a text_replacement_scheme line_group list \<Rightarrow>
     edit_error + 'a text_replacement_scheme line_group list" where
  "group_replacements baseLines [] groups = Inr groups"
| "group_replacements baseLines (r # rs) groups =
     (case getReplacementLineRange baseLines r of
        Inl e \<Rightarrow> Inl e
      | Inr (startLine, endLine) \<Rightarrow>
          group_replacements baseLines rs
            (if groups \<noteq> [] \<and> startLine < lg_endLine (last groups)
             then butlast groups @
               [last groups\<lparr>lg_endLine := max (lg_endLine (last groups)) endLine,
                            lg_replacements := lg_replacements (last groups) @ [r]\<rparr>]
             else groups @ [\<lparr>lg_startLine = startLine, lg_endLine = endLine, lg_replacements = [r]\<rparr>]))"

definition js_slice :: "nat \<Rightarrow> nat \<Rightarrow> 'a list \<Rightarrow> 'a list" where
  "js_slice a b xs = take (b - a) (drop a xs)"

fun write_groups ::
  "jstr list \<Rightarrow> jstr \<Rightarrow> line_span list \<Rightarrow> 'a text_replacement_scheme line_group list \<Rightarrow> nat \<Rightarrow> jstr \<Rightarrow> jstr" where
  "write_groups originalLines baseContent baseLines [] originalLineIndex result =
     result @ concat (drop originalLineIndex originalLines)"
| "write_groups originalLines baseContent baseLines (g # gs) originalLineIndex result =
     (let kept = concat (js_slice originalLineIndex (lg_startLine g) originalLines);
          groupStartOffset = fst (baseLines ! lg_startLine g);
          groupEndOffset = snd (baseLines ! (lg_endLine g - 1))
      in write_groups originalLines baseContent baseLines gs (lg_endLine g)
           (result @ kept @
            applyReplacements (js_slice groupStartOffset groupEndOffset baseContent) (lg_replacements g) groupStartOffset))"

definition applyReplacementsPreservingUnchangedLines ::
  "jstr \<Rightarrow> jstr \<Rightarrow> 'a text_replacement_scheme list \<Rightarrow> edit_error + jstr" where
  "applyReplacementsPreservingUnchangedLines originalContent baseContent replacements =
     (let originalLines = splitLinesWithEndings originalContent; baseLines = getLineSpans baseContent
      in if length originalLines \<noteq> length baseLines then Inl LineCountDiffers
         else (case group_replacements baseLines (sort_key rp_matchIndex replacements) [] of
                 Inl e \<Rightarrow> Inl e
               | Inr groups \<Rightarrow> Inr (write_groups originalLines baseContent baseLines groups 0 [])))"

subsection \<open>Edits\<close>

record edit =
  ed_oldText :: jstr
  ed_newText :: jstr

definition normalize_edit :: "edit \<Rightarrow> edit" where
  "normalize_edit e = \<lparr>ed_oldText = normalizeToLF (ed_oldText e), ed_newText = normalizeToLF (ed_newText e)\<rparr>"

fun match_edits :: "(jstr \<Rightarrow> jstr) \<Rightarrow> jstr \<Rightarrow> nat \<Rightarrow> nat \<Rightarrow> edit list \<Rightarrow> edit_error + matched_edit list" where
  "match_edits nfkc baseContent editTotal i [] = Inr []"
| "match_edits nfkc baseContent editTotal i (e # es) =
     (let matchResult = fuzzyFindText nfkc baseContent (ed_oldText e)
      in if \<not> fm_found matchResult then Inl (NotFound i editTotal)
         else (let occurrences = countOccurrences nfkc baseContent (ed_oldText e)
               in if 1 < occurrences then Inl (Duplicate i editTotal occurrences)
                  else (case match_edits nfkc baseContent editTotal (Suc i) es of
                          Inl err \<Rightarrow> Inl err
                        | Inr ms \<Rightarrow>
                            Inr (\<lparr>rp_matchIndex = nat (fm_index matchResult), rp_matchLength = fm_matchLength matchResult,
                                  rp_newText = ed_newText e, me_editIndex = i\<rparr> # ms))))"

fun overlapping :: "matched_edit list \<Rightarrow> edit_error option" where
  "overlapping (p # c # ms) =
     (if rp_matchIndex c < rp_matchIndex p + rp_matchLength p then Some (Overlap (me_editIndex p) (me_editIndex c))
      else overlapping (c # ms))"
| "overlapping ms = None"

definition applyEditsToNormalizedContent ::
  "(jstr \<Rightarrow> jstr) \<Rightarrow> jstr \<Rightarrow> edit list \<Rightarrow> edit_error + jstr \<times> jstr" where
  "applyEditsToNormalizedContent nfkc normalizedContent edits =
     (let normalizedEdits = map normalize_edit edits; editTotal = length normalizedEdits;
          i = length (takeWhile (\<lambda>e. ed_oldText e \<noteq> []) normalizedEdits)
      in if i < editTotal then Inl (EmptyOldText i editTotal)
         else (let usedFuzzyMatch =
                     list_ex (\<lambda>e. fm_usedFuzzyMatch (fuzzyFindText nfkc normalizedContent (ed_oldText e))) normalizedEdits;
                   replacementBaseContent =
                     (if usedFuzzyMatch then normalizeForFuzzyMatch nfkc normalizedContent else normalizedContent)
               in case match_edits nfkc replacementBaseContent editTotal 0 normalizedEdits of
                    Inl err \<Rightarrow> Inl err
                  | Inr ms \<Rightarrow>
                      (let matchedEdits = sort_key rp_matchIndex ms
                       in case overlapping matchedEdits of
                            Some err \<Rightarrow> Inl err
                          | None \<Rightarrow>
                              (case (if usedFuzzyMatch
                                     then applyReplacementsPreservingUnchangedLines normalizedContent replacementBaseContent
                                            matchedEdits
                                     else Inr (applyReplacements replacementBaseContent matchedEdits 0)) of
                                 Inl err \<Rightarrow> Inl err
                               | Inr newContent \<Rightarrow>
                                   if normalizedContent = newContent then Inl (NoChange editTotal)
                                   else Inr (normalizedContent, newContent)))))"

text \<open>The messages of the errors.\<close>

definition edit_error_message :: "jstr \<Rightarrow> edit_error \<Rightarrow> jstr" where
  "edit_error_message path err =
     (case err of
        EmptyOldText i n \<Rightarrow>
          (if n = 1 then js ''oldText must not be empty in '' @ path @ js ''.''
           else js ''edits['' @ js_nat i @ js ''].oldText must not be empty in '' @ path @ js ''.'')
      | NotFound i n \<Rightarrow>
          (if n = 1
           then js ''Could not find the exact text in '' @ path @
                js ''. The old text must match exactly including all whitespace and newlines.''
           else js ''Could not find edits['' @ js_nat i @ js ''] in '' @ path @
                js ''. The oldText must match exactly including all whitespace and newlines.'')
      | Duplicate i n k \<Rightarrow>
          (if n = 1
           then js ''Found '' @ js_int k @ js '' occurrences of the text in '' @ path @
                js ''. The text must be unique. Please provide more context to make it unique.''
           else js ''Found '' @ js_int k @ js '' occurrences of edits['' @ js_nat i @ js ''] in '' @ path @
                js ''. Each oldText must be unique. Please provide more context to make it unique.'')
      | Overlap i j \<Rightarrow>
          js ''edits['' @ js_nat i @ js ''] and edits['' @ js_nat j @ js ''] overlap in '' @ path @
          js ''. Merge them into one edit or target disjoint regions.''
      | NoChange n \<Rightarrow>
          (if n = 1
           then js ''No changes made to '' @ path @
                js ''. The replacement produced identical content. This might indicate an issue with special characters or the text not existing as expected.''
           else js ''No changes made to '' @ path @ js ''. The replacements produced identical content.'')
      | OutsideBase \<Rightarrow> js ''Replacement range is outside the base content.''
      | LineCountDiffers \<Rightarrow> js ''Cannot preserve unchanged lines because the base content has a different line count.'')"

subsection \<open>Facts about slices and finding\<close>

lemma js_find_Some:
  "js_find p s = Some i \<Longrightarrow> js_slice i (i + length p) s = p"
proof (induction s arbitrary: i)
  case (Cons x s)
  then show ?case by (auto simp: js_slice_def js_startsWith_def split: if_splits)
qed (auto simp: js_slice_def split: if_splits)

lemma js_slice_slice: "a \<le> b \<Longrightarrow> b \<le> c \<Longrightarrow> js_slice a b s @ js_slice b c s = js_slice a c s"
  by (simp add: js_slice_def) (metis add_diff_assoc2 add_diff_inverse_nat drop_drop le_add_diff_inverse2 not_le take_add)

lemma js_slice_all: "js_slice a (length s) s = drop a s"
  by (simp add: js_slice_def)

lemma length_js_slice: "b \<le> length s \<Longrightarrow> length (js_slice a b s) = b - a"
  by (simp add: js_slice_def)

subsection \<open>Replacing disjoint matches\<close>

text \<open>\<open>weave gs xs\<close> is the text of the gaps \<open>gs\<close> with \<open>xs\<close> between them.\<close>

fun weave :: "jstr list \<Rightarrow> jstr list \<Rightarrow> jstr" where
  "weave (g # gs) (x # xs) = g @ x @ weave gs xs"
| "weave gs [] = concat gs"
| "weave [] xs = concat xs"

fun chain :: "nat \<Rightarrow> nat \<Rightarrow> 'a text_replacement_scheme list \<Rightarrow> bool" where
  "chain a b [] \<longleftrightarrow> a \<le> b"
| "chain a b (r # rs) \<longleftrightarrow> a \<le> rp_matchIndex r \<and> chain (rp_matchIndex r + rp_matchLength r) b rs"

definition rp_end :: "'a text_replacement_scheme \<Rightarrow> nat" where
  "rp_end r = rp_matchIndex r + rp_matchLength r"

lemma chain_le: "chain a b rs \<Longrightarrow> a \<le> b"
  by (induction rs arbitrary: a) force+

lemma chain_append: "chain a c (xs @ ys) \<longleftrightarrow> (\<exists>b. chain a b xs \<and> chain b c ys)"
proof (induction xs arbitrary: a)
  case Nil
  then show ?case by (cases ys) (auto intro: order_trans dest: chain_le)
qed auto

lemma chain_weaken: "chain a b rs \<Longrightarrow> b \<le> c \<Longrightarrow> chain a c rs"
  by (induction rs arbitrary: a) auto

lemma chain_start: "chain a b rs \<Longrightarrow> rs \<noteq> [] \<Longrightarrow> a' \<le> rp_matchIndex (hd rs) \<Longrightarrow> chain a' b rs"
  by (cases rs) auto

lemma chain_snoc: "chain a b (rs @ [r]) \<longleftrightarrow> chain a (rp_matchIndex r) rs \<and> rp_end r \<le> b"
  by (auto simp: chain_append rp_end_def intro: chain_weaken)

fun replaced_run :: "jstr \<Rightarrow> nat \<Rightarrow> nat \<Rightarrow> 'a text_replacement_scheme list \<Rightarrow> jstr" where
  "replaced_run c a b [] = js_slice a b c"
| "replaced_run c a b (r # rs) = js_slice a (rp_matchIndex r) c @ rp_newText r @ replaced_run c (rp_matchIndex r + rp_matchLength r) b rs"

lemma apply_run:
  "off \<le> a \<Longrightarrow> chain a b rs \<Longrightarrow> b \<le> length c \<Longrightarrow>
     foldr (replace_at off) rs (js_slice off b c) = js_slice off a c @ replaced_run c a b rs"
proof (induction rs arbitrary: a)
  case Nil
  then show ?case by (simp add: js_slice_slice)
next
  case (Cons r rs)
  let ?m = "rp_matchIndex r" and ?e = "rp_matchIndex r + rp_matchLength r"
  have le: "off \<le> a" "a \<le> ?m" "?e \<le> b" "b \<le> length c" using Cons.prems chain_le by auto
  have IH: "foldr (replace_at off) rs (js_slice off b c) = js_slice off ?e c @ replaced_run c ?e b rs"
    using Cons le by (intro Cons.IH) auto
  have split: "js_slice off ?e c = js_slice off ?m c @ js_slice ?m ?e c"
    using le by (simp add: js_slice_slice)
  have len: "length (js_slice off ?m c) = ?m - off" "length (js_slice off ?e c) = ?e - off" using le by (simp_all add: length_js_slice)
  have "nat (int ?m - int off) = ?m - off" "nat (int ?m - int off + int (rp_matchLength r)) = ?e - off" using le by auto
  then have "foldr (replace_at off) (r # rs) (js_slice off b c) = js_slice off ?m c @ rp_newText r @ replaced_run c ?e b rs"
    using len by (simp add: IH replace_at_def Let_def) (simp add: split)
  also have "js_slice off ?m c = js_slice off a c @ js_slice a ?m c" using le by (simp add: js_slice_slice)
  finally show ?case by simp
qed

definition replaced_text :: "jstr \<Rightarrow> 'a text_replacement_scheme \<Rightarrow> jstr" where
  "replaced_text c r = js_slice (rp_matchIndex r) (rp_matchIndex r + rp_matchLength r) c"

lemma run_weave:
  assumes "chain a b rs" "b \<le> length c"
  shows "\<exists>gaps. length gaps = Suc (length rs) \<and> js_slice a b c = weave gaps (map (replaced_text c) rs) \<and>
    replaced_run c a b rs = weave gaps (map rp_newText rs) \<and>
    length (hd gaps) = (if rs = [] then b else rp_matchIndex (hd rs)) - a \<and>
    length (last gaps) = b - (if rs = [] then a else rp_end (last rs))"
  using assms
proof (induction rs arbitrary: a)
  case Nil
  then show ?case by (intro exI [of _ "[js_slice a b c]"]) (simp add: length_js_slice)
next
  case (Cons r rs)
  let ?m = "rp_matchIndex r" and ?e = "rp_matchIndex r + rp_matchLength r"
  have le: "a \<le> ?m" "?e \<le> b" using Cons.prems chain_le by auto
  from Cons obtain gaps where g: "length gaps = Suc (length rs)" "js_slice ?e b c = weave gaps (map (replaced_text c) rs)"
    "replaced_run c ?e b rs = weave gaps (map rp_newText rs)"
    "length (last gaps) = b - (if rs = [] then ?e else rp_end (last rs))" by force
  have "js_slice a b c = js_slice a ?m c @ replaced_text c r @ js_slice ?e b c"
    using le by (simp add: replaced_text_def js_slice_slice)
  with g le Cons.prems show ?case
    by (intro exI [of _ "js_slice a ?m c # gaps"]) (auto simp: length_js_slice rp_end_def)
qed

subsection \<open>Matched edits\<close>

lemma list_all2_with:
  "list_all2 P xs ys \<Longrightarrow> (\<And>x. x \<in> set xs \<Longrightarrow> Q x) \<Longrightarrow> (\<And>x y. P x y \<Longrightarrow> Q x \<Longrightarrow> R x y) \<Longrightarrow> list_all2 R xs ys"
  by (induction rule: list_all2_induct) auto

lemma match_edits_found:
  "match_edits nfkc base n i es = Inr ms \<Longrightarrow>
     list_all2 (\<lambda>e m. fm_found (fuzzyFindText nfkc base (ed_oldText e)) \<and>
       rp_matchIndex m = nat (fm_index (fuzzyFindText nfkc base (ed_oldText e))) \<and>
       rp_matchLength m = fm_matchLength (fuzzyFindText nfkc base (ed_oldText e)) \<and> rp_newText m = ed_newText e) es ms"
  by (induction nfkc base n i es arbitrary: ms rule: match_edits.induct)
    (auto simp: Let_def split: if_splits sum.splits)

lemma match_edits_unique:
  "match_edits nfkc base n i es = Inr ms \<Longrightarrow> e \<in> set es \<Longrightarrow> countOccurrences nfkc base (ed_oldText e) \<le> 1"
  by (induction nfkc base n i es arbitrary: ms rule: match_edits.induct)
    (auto simp: Let_def split: if_splits sum.splits)

lemma exact_match:
  assumes "fm_found (fuzzyFindText nfkc base old)" "\<not> fm_usedFuzzyMatch (fuzzyFindText nfkc base old)"
    and "rp_matchIndex m = nat (fm_index (fuzzyFindText nfkc base old))"
    and "rp_matchLength m = fm_matchLength (fuzzyFindText nfkc base old)"
  shows "replaced_text base m = old \<and> rp_end m \<le> length base"
proof -
  obtain i where i: "js_find old base = Some i"
    using assms(1,2) by (auto simp: fuzzyFindText_def Let_def split: option.splits)
  with assms(3,4) have "rp_matchIndex m = i" "rp_matchLength m = length old" by (simp_all add: fuzzyFindText_def)
  with js_find_Some [OF i] js_find_bound [OF i] show ?thesis by (simp add: replaced_text_def rp_end_def)
qed

lemma overlapping_chain:
  "overlapping ms = None \<Longrightarrow> (\<And>m. m \<in> set ms \<Longrightarrow> rp_end m \<le> b) \<Longrightarrow> a \<le> b \<Longrightarrow>
     (ms \<noteq> [] \<Longrightarrow> a \<le> rp_matchIndex (hd ms)) \<Longrightarrow> chain a b ms"
proof (induction ms arbitrary: a rule: overlapping.induct)
  case (1 p c ms)
  then have "chain (rp_end p) b (c # ms)" by (intro "1.IH") (auto simp: rp_end_def split: if_splits)
  with 1 show ?case by (simp add: rp_end_def)
qed (auto simp: rp_end_def)

lemma apply_edits_steps:
  assumes "applyEditsToNormalizedContent nfkc content edits = Inr (base, new)"
  obtains ms where "match_edits nfkc (if list_ex (\<lambda>e. fm_usedFuzzyMatch (fuzzyFindText nfkc content (ed_oldText e))) (map normalize_edit edits)
        then normalizeForFuzzyMatch nfkc content else content) (length edits) 0 (map normalize_edit edits) = Inr ms"
    "overlapping (sort_key rp_matchIndex ms) = None" "base = content" "content \<noteq> new"
    "(if list_ex (\<lambda>e. fm_usedFuzzyMatch (fuzzyFindText nfkc content (ed_oldText e))) (map normalize_edit edits)
      then applyReplacementsPreservingUnchangedLines content (normalizeForFuzzyMatch nfkc content) (sort_key rp_matchIndex ms)
      else Inr (applyReplacements content (sort_key rp_matchIndex ms) 0)) = Inr new"
  using assms
  by (auto simp: applyEditsToNormalizedContent_def Let_def split: if_splits sum.splits option.splits)

text \<open>C7: C0: When every old text occurs as it is, a successful edit replaces one occurrence of each and
  nothing else: the content is some gaps with the old texts between them, in the order they stand
  in the file, and the result is the same gaps with the new texts.  (Line breaks of the edits are
  read as line feeds.)
\<close>

theorem exact_edits_replace_one_place_each:
  assumes "applyEditsToNormalizedContent nfkc content edits = Inr (base, new)"
    and "\<forall>e\<in>set edits. js_find (normalizeToLF (ed_oldText e)) content \<noteq> None"
  shows "\<exists>es gaps. mset es = mset (map normalize_edit edits) \<and> length gaps = Suc (length es) \<and>
    content = weave gaps (map ed_oldText es) \<and> new = weave gaps (map ed_newText es)"
proof -
  have exact: "\<not> fm_usedFuzzyMatch (fuzzyFindText nfkc content (ed_oldText (normalize_edit e)))" if "e \<in> set edits" for e
    using assms(2) that by (auto simp: fuzzyFindText_def normalize_edit_def)
  then have no: "\<not> list_ex (\<lambda>e. fm_usedFuzzyMatch (fuzzyFindText nfkc content (ed_oldText e))) (map normalize_edit edits)"
    by (simp add: list_ex_iff)
  from apply_edits_steps [OF assms(1), unfolded if_not_P [OF no]] obtain ms where
    ms: "match_edits nfkc content (length edits) 0 (map normalize_edit edits) = Inr ms"
    "overlapping (sort_key rp_matchIndex ms) = None" "new = applyReplacements content (sort_key rp_matchIndex ms) 0" by auto
  let ?s = "sort_key rp_matchIndex ms" and ?e = "\<lambda>m. \<lparr>ed_oldText = replaced_text content m, ed_newText = rp_newText m\<rparr>"
  have all: "list_all2 (\<lambda>e m. ?e m = e \<and> rp_end m \<le> length content) (map normalize_edit edits) ms"
  proof (rule list_all2_with [OF match_edits_found [OF ms(1)]])
    show "\<not> fm_usedFuzzyMatch (fuzzyFindText nfkc content (ed_oldText e))" if "e \<in> set (map normalize_edit edits)" for e
      using exact that by auto
  qed (use exact_match [of nfkc content] in auto)
  then have es: "map ?e ms = map normalize_edit edits" "\<And>m. m \<in> set ms \<Longrightarrow> rp_end m \<le> length content"
    by (auto simp: list_all2_conv_all_nth in_set_conv_nth intro!: nth_equalityI)
  have "chain 0 (length content) ?s" using ms(2) es(2) by (intro overlapping_chain) auto
  from run_weave [OF this order_refl] apply_run [of 0 0 "length content" ?s content, OF _ this] obtain gaps where
    "length gaps = Suc (length ?s)" "content = weave gaps (map (replaced_text content) ?s)" "new = weave gaps (map rp_newText ?s)"
    by (auto simp: ms(3) applyReplacements_def js_slice_def)
  moreover have "mset (map ?e ?s) = mset (map normalize_edit edits)" by (simp add: es(1) [symmetric])
  ultimately show ?thesis by (intro exI [of _ "map ?e ?s"] exI [of _ gaps]) (simp add: comp_def)
qed

subsection \<open>Lines\<close>

lemma lines_concat [simp]: "concat (splitLinesWithEndings s) = s"
  by (induction s) (auto split: list.splits)

lemma lines_nonempty: "l \<in> set (splitLinesWithEndings s) \<Longrightarrow> l \<noteq> []"
  by (induction s) (auto split: list.splits if_splits)

definition line_start :: "jstr list \<Rightarrow> nat \<Rightarrow> nat" where
  "line_start ls i = length (concat (take i ls))"

lemma line_start_mono: "i \<le> j \<Longrightarrow> line_start ls i \<le> line_start ls j"
  by (auto simp: line_start_def le_iff_add take_add)

lemma line_start_end [simp]: "line_start (splitLinesWithEndings s) (length (splitLinesWithEndings s)) = length s"
  by (simp add: line_start_def)

lemma line_start_bound: "line_start (splitLinesWithEndings s) i \<le> length s"
proof -
  have "concat (take i (splitLinesWithEndings s)) @ concat (drop i (splitLinesWithEndings s)) = s"
    by (metis append_take_drop_id concat_append lines_concat)
  then show ?thesis unfolding line_start_def by (metis le_add1 length_append)
qed

lemma line_start_Suc: "i < length ls \<Longrightarrow> line_start ls (Suc i) = line_start ls i + length (ls ! i)"
  by (simp add: line_start_def take_Suc_conv_app_nth)

lemma length_line_spans [simp]: "length (line_spans offset ls) = length ls"
  by (induction ls arbitrary: offset) auto

lemma nth_line_spans:
  "i < length ls \<Longrightarrow> line_spans offset ls ! i = (offset + line_start ls i, offset + line_start ls (Suc i))"
proof (induction ls arbitrary: offset i)
  case (Cons l ls)
  then show ?case by (cases i) (auto simp: line_start_def)
qed simp

lemma length_getLineSpans: "length (getLineSpans s) = length (splitLinesWithEndings s)"
  by (simp add: getLineSpans_def)

lemma slice_lines:
  assumes "a \<le> b"
  shows "js_slice (line_start (splitLinesWithEndings s) a) (line_start (splitLinesWithEndings s) b) s =
    concat (js_slice a b (splitLinesWithEndings s))"
proof -
  let ?ls = "splitLinesWithEndings s"
  have "concat (take b ?ls) = concat (take a ?ls) @ concat (js_slice a b ?ls)"
    using assms by (metis concat_append js_slice_def le_add_diff_inverse take_add)
  moreover have "s = concat (take b ?ls) @ concat (drop b ?ls)" by (metis append_take_drop_id concat_append lines_concat)
  ultimately have "s = concat (take a ?ls) @ concat (js_slice a b ?ls) @ concat (drop b ?ls)"
      "line_start ?ls b = line_start ?ls a + length (concat (js_slice a b ?ls))"
    by (simp_all add: line_start_def)
  then show ?thesis unfolding js_slice_def [of _ _ s] by (metis add_diff_cancel_left' append_eq_conv_conj line_start_def append_assoc)
qed

lemma replacement_range:
  assumes "getReplacementLineRange (getLineSpans s) r = Inr (a, b)"
  defines "pos \<equiv> line_start (splitLinesWithEndings s)"
  shows "a < b \<and> b \<le> length (splitLinesWithEndings s) \<and> pos a \<le> rp_matchIndex r \<and> rp_matchIndex r < pos (Suc a) \<and>
    rp_end r \<le> pos b \<and> pos (b - 1) \<le> rp_end r"
proof -
  let ?ls = "splitLinesWithEndings s" and ?spans = "getLineSpans s"
  let ?P = "\<lambda>(s, e). \<not> (s \<le> rp_matchIndex r \<and> rp_matchIndex r < e)" and ?Q = "\<lambda>(s, e). e < rp_end r"
  define k where "k = length (takeWhile ?Q (drop a ?spans))"
  have a: "a = length (takeWhile ?P ?spans)" "a < length ?spans" and b: "b = Suc (a + k)" "a + k < length ?spans"
    using assms(1) by (auto simp: getReplacementLineRange_def Let_def k_def rp_end_def split: if_splits)
  have nth: "?spans ! i = (pos i, pos (Suc i))" if "i < length ?spans" for i
    using that nth_line_spans [of i ?ls 0] by (simp add: getLineSpans_def pos_def)
  have "\<not> ?P (?spans ! a)" using a nth_length_takeWhile [of ?P ?spans] by simp
  then have start: "pos a \<le> rp_matchIndex r" "rp_matchIndex r < pos (Suc a)" using nth [OF a(2)] by auto
  have "\<not> ?Q (drop a ?spans ! k)" using b nth_length_takeWhile [of ?Q "drop a ?spans"] by (simp add: k_def)
  then have fin: "rp_end r \<le> pos b" using b nth [of "a + k"] by auto
  have "pos (b - 1) \<le> rp_end r"
  proof (cases k)
    case 0
    then show ?thesis using start b by (simp add: rp_end_def)
  next
    case (Suc j)
    then have "j < length (takeWhile ?Q (drop a ?spans))" by (simp add: k_def)
    then have "?Q (drop a ?spans ! j)" by (metis nth_mem set_takeWhileD takeWhile_nth)
    then show ?thesis using b Suc nth [of "a + j"] by auto
  qed
  with start fin b show ?thesis by (simp add: length_getLineSpans)
qed

subsection \<open>Keeping the other lines\<close>

text \<open>
  \<open>rewritten os bs es t\<close>: the text \<open>t\<close> comes from the lines \<open>os\<close> of the original and the lines \<open>bs\<close>
  of its normal form by the replacements \<open>es\<close> (old and new texts in order).  Every line is kept as it
  is in the original, or lies in a run of lines from the one in which a replacement begins to the
  one in which it, or a later one that meets the same run, ends; in such a run the text of the
  normal form is kept outside the replaced places.
\<close>

inductive rewritten :: "jstr list \<Rightarrow> jstr list \<Rightarrow> (jstr \<times> jstr) list \<Rightarrow> jstr \<Rightarrow> bool" where
  rewritten_Nil: "rewritten [] [] [] []"
| rewritten_keep: "rewritten os bs es t \<Longrightarrow> rewritten (l # os) (b # bs) es (l @ t)"
| rewritten_run:
    "rewritten os bs es t \<Longrightarrow> length os1 = length bs1 \<Longrightarrow> bs1 \<noteq> [] \<Longrightarrow> es1 \<noteq> [] \<Longrightarrow> length gaps = Suc (length es1) \<Longrightarrow>
     concat bs1 = weave gaps (map fst es1) \<Longrightarrow> length (hd gaps) < length (hd bs1) \<Longrightarrow>
     length (last gaps) \<le> length (last bs1) \<Longrightarrow>
     rewritten (os1 @ os) (bs1 @ bs) (es1 @ es) (weave gaps (map snd es1) @ t)"

lemma rewritten_keeps:
  "length ks = length kb \<Longrightarrow> rewritten os bs es t \<Longrightarrow> rewritten (ks @ os) (kb @ bs) es (concat ks @ t)"
  by (induction ks kb rule: list_induct2) (auto intro: rewritten_keep)

definition good_group :: "jstr \<Rightarrow> 'a text_replacement_scheme line_group \<Rightarrow> bool" where
  "good_group s g \<longleftrightarrow>
     (let ls = splitLinesWithEndings s; a = lg_startLine g; b = lg_endLine g; rs = lg_replacements g
      in a < b \<and> b \<le> length ls \<and> rs \<noteq> [] \<and> chain (line_start ls a) (line_start ls b) rs \<and>
         rp_matchIndex (hd rs) < line_start ls (Suc a) \<and> line_start ls (b - 1) \<le> rp_end (last rs))"

fun good_groups :: "jstr \<Rightarrow> nat \<Rightarrow> 'a text_replacement_scheme line_group list \<Rightarrow> bool" where
  "good_groups s i [] \<longleftrightarrow> i \<le> length (splitLinesWithEndings s)"
| "good_groups s i (g # gs) \<longleftrightarrow> i \<le> lg_startLine g \<and> good_group s g \<and> good_groups s (lg_endLine g) gs"

lemma good_groups_snoc:
  "good_groups s i (gs @ [g]) \<longleftrightarrow>
     good_groups s i gs \<and> (if gs = [] then i else lg_endLine (last gs)) \<le> lg_startLine g \<and> good_group s g"
  by (induction gs arbitrary: i) (auto simp: good_group_def Let_def)

lemma write_groups_rewritten:
  assumes "good_groups s i gs" "length orig = length (splitLinesWithEndings s)"
  shows "\<exists>t. write_groups orig s (getLineSpans s) gs i result = result @ t \<and>
    rewritten (drop i orig) (drop i (splitLinesWithEndings s))
      (map (\<lambda>r. (replaced_text s r, rp_newText r)) (concat (map lg_replacements gs))) t"
  using assms(1)
proof (induction gs arbitrary: i result)
  case Nil
  then show ?case
    using rewritten_keeps [of "drop i orig" "drop i (splitLinesWithEndings s)" "[]" "[]" "[]" "[]"] assms(2)
    by (auto intro: rewritten_Nil)
next
  case (Cons g gs)
  let ?ls = "splitLinesWithEndings s" and ?a = "lg_startLine g" and ?b = "lg_endLine g" and ?rs = "lg_replacements g"
  let ?pos = "line_start ?ls" and ?pair = "\<lambda>r. (replaced_text s r, rp_newText r)"
  have i: "i \<le> ?a" and g: "?a < ?b" "?b \<le> length ?ls" "?rs \<noteq> []" "chain (?pos ?a) (?pos ?b) ?rs"
      "rp_matchIndex (hd ?rs) < ?pos (Suc ?a)" "?pos (?b - 1) \<le> rp_end (last ?rs)"
    using Cons.prems by (auto simp: good_group_def Let_def)
  have spans: "fst (getLineSpans s ! ?a) = ?pos ?a" "snd (getLineSpans s ! (?b - 1)) = ?pos ?b"
    using g nth_line_spans [of ?a ?ls 0] nth_line_spans [of "?b - 1" ?ls 0] by (simp_all add: getLineSpans_def)
  have b: "?pos ?b \<le> length s" by (rule line_start_bound)
  obtain gaps where gaps: "length gaps = Suc (length ?rs)" "js_slice (?pos ?a) (?pos ?b) s = weave gaps (map (replaced_text s) ?rs)"
      "replaced_run s (?pos ?a) (?pos ?b) ?rs = weave gaps (map rp_newText ?rs)"
      "length (hd gaps) = rp_matchIndex (hd ?rs) - ?pos ?a" "length (last gaps) = ?pos ?b - rp_end (last ?rs)"
    using run_weave [OF g(4) b] g(3) by auto
  have written: "applyReplacements (js_slice (?pos ?a) (?pos ?b) s) ?rs (?pos ?a) = weave gaps (map rp_newText ?rs)"
    using apply_run [OF order_refl g(4) b] gaps(3) by (simp add: applyReplacements_def js_slice_def)
  let ?run = "js_slice ?a ?b ?ls"
  have run: "?run \<noteq> []" "hd ?run = ?ls ! ?a" "last ?run = ?ls ! (?b - 1)" "concat ?run = js_slice (?pos ?a) (?pos ?b) s"
      "length ?run = ?b - ?a"
    using g(1,2) slice_lines [of ?a ?b s] by (auto simp: js_slice_def hd_drop_conv_nth last_conv_nth)
  have next_line: "?pos (Suc ?a) = ?pos ?a + length (?ls ! ?a)" "?pos ?b = ?pos (?b - 1) + length (?ls ! (?b - 1))"
    using g(1,2) line_start_Suc [of ?a ?ls] line_start_Suc [of "?b - 1" ?ls] by simp_all
  have "?pos ?a \<le> rp_matchIndex (hd ?rs)" using g(3,4) by (cases ?rs) simp_all
  then have short: "length (hd gaps) < length (hd ?run)" "length (last gaps) \<le> length (last ?run)"
    unfolding run(2,3) gaps(4,5) using g(5,6) next_line by linarith+
  obtain t where t: "write_groups orig s (getLineSpans s) gs ?b (result @ concat (js_slice i ?a orig) @ weave gaps (map rp_newText ?rs)) =
      (result @ concat (js_slice i ?a orig) @ weave gaps (map rp_newText ?rs)) @ t"
      "rewritten (drop ?b orig) (drop ?b ?ls) (map ?pair (concat (map lg_replacements gs))) t"
    using Cons.IH [of ?b] Cons.prems by fastforce
  have "rewritten (js_slice ?a ?b orig @ drop ?b orig) (?run @ drop ?b ?ls)
      (map ?pair ?rs @ map ?pair (concat (map lg_replacements gs))) (weave gaps (map snd (map ?pair ?rs)) @ t)"
    using t(2) gaps run short g assms(2) by (intro rewritten_run) (auto simp: js_slice_def comp_def)
  then have "rewritten (js_slice i ?a orig @ js_slice ?a ?b orig @ drop ?b orig) (js_slice i ?a ?ls @ ?run @ drop ?b ?ls)
      (map ?pair (concat (map lg_replacements (g # gs)))) (concat (js_slice i ?a orig) @ weave gaps (map rp_newText ?rs) @ t)"
    using assms(2) by (intro rewritten_keeps) (auto simp: js_slice_def comp_def)
  moreover have "js_slice i ?a xs @ js_slice ?a ?b xs @ drop ?b xs = drop i xs" for xs :: "jstr list"
    using i g(1) by (simp add: js_slice_def) (metis append_assoc append_take_drop_id drop_drop le_add_diff_inverse2 less_imp_le)
  ultimately show ?case using t(1) by (simp add: Let_def spans [unfolded One_nat_def] written)
qed

lemma group_replacements_good:
  assumes "group_replacements (getLineSpans s) rs gs = Inr gs'" "good_groups s 0 gs"
    and "chain 0 (length s) (concat (map lg_replacements gs) @ rs)"
  shows "good_groups s 0 gs' \<and> concat (map lg_replacements gs') = concat (map lg_replacements gs) @ rs"
  using assms
proof (induction rs arbitrary: gs)
  case (Cons r rs)
  let ?ls = "splitLinesWithEndings s"
  let ?pos = "line_start ?ls"
  obtain a b where range: "getReplacementLineRange (getLineSpans s) r = Inr (a, b)"
    using Cons.prems(1) by (auto split: sum.splits prod.splits)
  note r = replacement_range [OF range]
  define merge where "merge \<longleftrightarrow> gs \<noteq> [] \<and> a < lg_endLine (last gs)"
  let ?g = "last gs\<lparr>lg_endLine := max (lg_endLine (last gs)) b, lg_replacements := lg_replacements (last gs) @ [r]\<rparr>"
  define gs1 where "gs1 = (if merge then butlast gs @ [?g] else gs @ [\<lparr>lg_startLine = a, lg_endLine = b, lg_replacements = [r]\<rparr>])"
  have next_call: "group_replacements (getLineSpans s) rs gs1 = Inr gs'"
    using Cons.prems(1) range by (auto simp: gs1_def merge_def split: if_splits)
  have before: "chain 0 (rp_matchIndex r) (concat (map lg_replacements gs))"
    using Cons.prems(3) by (auto simp: chain_append intro: chain_weaken)
  have fits: "chain (?pos a) (?pos b) [r]" using r by (simp add: rp_end_def)
  have all: "concat (map lg_replacements gs1) = concat (map lg_replacements gs) @ [r]"
  proof (cases merge)
    case True
    then have "map lg_replacements gs = map lg_replacements (butlast gs) @ [lg_replacements (last gs)]"
      by (metis append_butlast_last_id list.simps(8,9) map_append merge_def)
    with True show ?thesis by (simp add: gs1_def)
  qed (simp add: gs1_def)
  have "good_groups s 0 gs1"
  proof (cases merge)
    case False
    then show ?thesis using r fits Cons.prems(2) by (auto simp: gs1_def merge_def good_groups_snoc good_group_def)
  next
    case True
    then obtain hs g where gs: "gs = hs @ [g]" by (cases gs rule: rev_cases) (auto simp: merge_def)
    have g: "good_groups s 0 hs" "(if hs = [] then 0 else lg_endLine (last hs)) \<le> lg_startLine g" "good_group s g"
      using Cons.prems(2) by (simp_all add: gs good_groups_snoc)
    let ?e = "max (lg_endLine g) b"
    from g(3) have group: "lg_replacements g \<noteq> []" "?pos (lg_startLine g) \<le> rp_matchIndex (hd (lg_replacements g))"
        "?pos (lg_endLine g - 1) \<le> rp_end (last (lg_replacements g))"
      by (cases "lg_replacements g"; simp add: good_group_def Let_def)+
    from before obtain m where "chain m (rp_matchIndex r) (lg_replacements g)" by (auto simp: gs chain_append)
    from chain_start [OF this group(1,2)] have up_to: "chain (?pos (lg_startLine g)) (rp_matchIndex r) (lg_replacements g)" .
    then have "rp_end (last (lg_replacements g)) \<le> rp_matchIndex r"
      using group(1) by (metis append_butlast_last_id chain_snoc)
    then have "?pos (lg_endLine g - 1) \<le> rp_end r" using group(3) by (simp add: rp_end_def)
    with r have "?pos (?e - 1) \<le> rp_end r" by (auto simp: max_def)
    moreover have "rp_end r \<le> ?pos ?e" using r line_start_mono [of b ?e ?ls] by simp
    with up_to have "chain (?pos (lg_startLine g)) (?pos ?e) (lg_replacements g @ [r])" by (simp add: chain_snoc)
    ultimately have "good_group s (g\<lparr>lg_endLine := ?e, lg_replacements := lg_replacements g @ [r]\<rparr>)"
      using g(3) r by (auto simp: good_group_def Let_def)
    with True g show ?thesis by (simp add: gs1_def gs good_groups_snoc)
  qed
  with Cons.IH [OF next_call] Cons.prems(3) show ?case by (simp add: all)
qed simp

lemma preserving_rewrites:
  assumes "applyReplacementsPreservingUnchangedLines orig s rs = Inr t" "chain 0 (length s) (sort_key rp_matchIndex rs)"
  shows "rewritten (splitLinesWithEndings orig) (splitLinesWithEndings s)
    (map (\<lambda>r. (replaced_text s r, rp_newText r)) (sort_key rp_matchIndex rs)) t"
proof -
  obtain gs where len: "length (splitLinesWithEndings orig) = length (splitLinesWithEndings s)"
    and gs: "group_replacements (getLineSpans s) (sort_key rp_matchIndex rs) [] = Inr gs"
    and t: "t = write_groups (splitLinesWithEndings orig) s (getLineSpans s) gs 0 []"
    using assms(1) by (auto simp: applyReplacementsPreservingUnchangedLines_def Let_def length_getLineSpans
        split: if_splits sum.splits)
  from group_replacements_good [OF gs] assms(2) have good: "good_groups s 0 gs"
    "concat (map lg_replacements gs) = sort_key rp_matchIndex rs" by simp_all
  from write_groups_rewritten [OF good(1) len, of "[]"] show ?thesis by (auto simp: good(2) t)
qed

subsection \<open>The normal form of a text\<close>

definition fuzzy_unit :: "code_unit \<Rightarrow> code_unit" where
  "fuzzy_unit c = ascii_space (ascii_dash (ascii_double_quote (ascii_quote c)))"

lemma fuzzy_stages:
  "ascii_quote c = c \<or> ascii_quote c = 0x27" "ascii_double_quote c = c \<or> ascii_double_quote c = 0x22"
  "ascii_dash c = c \<or> ascii_dash c = 0x2D" "ascii_space c = c \<or> js_ws c \<and> ascii_space c = 0x20"
proof -
  show "ascii_space c = c \<or> js_ws c \<and> ascii_space c = 0x20"
  proof (cases "0x2002 \<le> c \<and> c \<le> 0x200A")
    case True
    then have "c \<in> set [0x2002, 0x2003, 0x2004, 0x2005, 0x2006, 0x2007, 0x2008, 0x2009, 0x200A]"
      by (simp add: word_le_nat_alt word_unat_eq_iff) presburger
    then have "js_ws c" by (auto simp: js_ws_def)
    with True show ?thesis by (simp add: ascii_space_def)
  qed (auto simp: ascii_space_def js_ws_def)
qed (simp_all add: ascii_quote_def ascii_double_quote_def ascii_dash_def)

lemma fuzzy_fixed:
  "ascii_double_quote 0x27 = 0x27" "ascii_dash 0x27 = 0x27" "ascii_space 0x27 = 0x27" "ascii_dash 0x22 = 0x22"
  "ascii_space 0x22 = 0x22" "ascii_space 0x2D = 0x2D" "fuzzy_unit 0x27 = 0x27" "fuzzy_unit 0x22 = 0x22"
  "fuzzy_unit 0x2D = 0x2D" "fuzzy_unit 0x20 = 0x20" "fuzzy_unit 10 = 10"
  by (simp_all add: fuzzy_unit_def ascii_space_def ascii_dash_def ascii_double_quote_def ascii_quote_def)

lemma fuzzy_unit_cases:
  "fuzzy_unit c = c \<or> fuzzy_unit c = 0x27 \<or> fuzzy_unit c = 0x22 \<or> fuzzy_unit c = 0x2D \<or> js_ws c \<and> fuzzy_unit c = 0x20"
  unfolding fuzzy_unit_def using fuzzy_stages [of c] fuzzy_fixed by metis

lemma fuzzy_unit_idem [simp]: "fuzzy_unit (fuzzy_unit c) = fuzzy_unit c"
  using fuzzy_unit_cases [of c] fuzzy_fixed by metis

lemma fuzzy_unit_LF [simp]: "fuzzy_unit c = js_LF \<longleftrightarrow> c = js_LF"
  using fuzzy_unit_cases [of c] fuzzy_fixed by auto

lemma fuzzy_unit_ws: "js_ws (fuzzy_unit c) \<Longrightarrow> js_ws c"
  using fuzzy_unit_cases [of c] by (auto simp: js_ws_def)

lemma normalizeForFuzzyMatch_lines:
  "normalizeForFuzzyMatch nfkc s = js_join [js_LF] (map (map fuzzy_unit \<circ> js_trimEnd) (js_split js_LF (nfkc s)))"
proof -
  have "map fuzzy_unit (js_join [js_LF] ls) = js_join [js_LF] (map (map fuzzy_unit) ls)" for ls
    by (induction ls rule: induct_list012) (auto simp: fuzzy_fixed)
  then show ?thesis by (simp add: normalizeForFuzzyMatch_def fuzzy_unit_def [abs_def] comp_def)
qed

lemma trimEnd_fuzzy: "js_trimEnd (map fuzzy_unit (js_trimEnd l)) = map fuzzy_unit (js_trimEnd l)"
proof -
  have "dropWhile js_ws (map fuzzy_unit t) = map fuzzy_unit t" if "dropWhile js_ws t = t" for t
    using that fuzzy_unit_ws by (cases t) (auto split: if_splits dest: dropWhile_eq_Cons_conv [THEN iffD1])
  then show ?thesis by (simp add: js_trimEnd_def rev_map dropWhile_idem)
qed

lemma normal_form_stable:
  assumes "nfkc (normalizeForFuzzyMatch nfkc s) = normalizeForFuzzyMatch nfkc s"
  shows "normalizeForFuzzyMatch nfkc (normalizeForFuzzyMatch nfkc s) = normalizeForFuzzyMatch nfkc s"
proof -
  let ?ls = "map (map fuzzy_unit \<circ> js_trimEnd) (js_split js_LF (nfkc s))"
  have "js_LF \<notin> set l" if "l \<in> set ?ls" for l
    using that js_split_members [of _ js_LF "nfkc s"] set_js_trimEnd by fastforce
  then have "js_split js_LF (normalizeForFuzzyMatch nfkc s) = ?ls"
    unfolding normalizeForFuzzyMatch_lines by (intro js_split_join) auto
  then show ?thesis
    using assms by (subst normalizeForFuzzyMatch_lines) (simp add: trimEnd_fuzzy comp_def normalizeForFuzzyMatch_lines [of nfkc s])
qed

subsection \<open>Fuzzy edits\<close>

lemma sort_key_sorted [simp]: "sort_key f (sort_key f xs) = sort_key f xs"
  by (rule properties_for_sort_key) auto

lemma list_all2_permuted:
  assumes "list_all2 R xs ys" "mset ys' = mset ys"
  obtains xs' where "mset xs' = mset xs" "list_all2 R xs' ys'"
proof -
  have "list_all2 (\<lambda>y x. R x y) ys xs" using assms(1) by (simp add: list_all2_conv_all_nth)
  from list_all2_reorder_left_invariance [OF this assms(2)] that show thesis by (auto simp: list_all2_conv_all_nth)
qed

text \<open>The text that a match replaces in the base: the old text, or its normal form.\<close>

lemma fuzzy_match:
  assumes "nfkc (normalizeForFuzzyMatch nfkc s) = normalizeForFuzzyMatch nfkc s"
  defines "base \<equiv> normalizeForFuzzyMatch nfkc s"
  assumes "fm_found (fuzzyFindText nfkc base old)"
    and "rp_matchIndex m = nat (fm_index (fuzzyFindText nfkc base old))"
    and "rp_matchLength m = fm_matchLength (fuzzyFindText nfkc base old)"
  shows "replaced_text base m \<in> {old, normalizeForFuzzyMatch nfkc old} \<and> rp_end m \<le> length base"
proof (cases "js_find old base")
  case (Some i)
  with assms exact_match [of nfkc base old m] show ?thesis by (simp add: fuzzyFindText_def)
next
  case None
  have "normalizeForFuzzyMatch nfkc base = base" using assms(1) unfolding base_def by (rule normal_form_stable)
  with None assms obtain i where i: "js_find (normalizeForFuzzyMatch nfkc old) base = Some i"
    "rp_matchIndex m = i" "rp_matchLength m = length (normalizeForFuzzyMatch nfkc old)"
    by (auto simp: fuzzyFindText_def Let_def split: option.splits)
  with js_find_Some [OF i(1)] js_find_bound [OF i(1)] show ?thesis by (simp add: replaced_text_def rp_end_def)
qed

lemma inexact_success_is_fuzzy:
  assumes "applyEditsToNormalizedContent nfkc content edits = Inr (base, new)"
    and "\<exists>e\<in>set edits. js_find (normalizeToLF (ed_oldText e)) content = None"
  shows "list_ex (\<lambda>e. fm_usedFuzzyMatch (fuzzyFindText nfkc content (ed_oldText e))) (map normalize_edit edits)" (is ?some)
proof (rule ccontr)
  assume no: "\<not> ?some"
  from apply_edits_steps [OF assms(1), unfolded if_not_P [OF no]]
  obtain ms where ms: "match_edits nfkc content (length edits) 0 (map normalize_edit edits) = Inr ms" by metis
  from assms(2) obtain e where e: "e \<in> set (map normalize_edit edits)" "js_find (ed_oldText e) content = None"
    by (force simp: normalize_edit_def)
  then have "\<not> fm_found (fuzzyFindText nfkc content (ed_oldText e))"
    using no by (auto simp: list_ex_iff fuzzyFindText_def Let_def split: option.splits)
  with e(1) match_edits_found [OF ms] show False by (auto simp: list_all2_conv_all_nth in_set_conv_nth)
qed


definition demo_edit :: "jstr \<Rightarrow> jstr \<Rightarrow> edit" where
  "demo_edit old new = \<lparr>ed_oldText = old, ed_newText = new\<rparr>"

theorem exact_edits_replace_one_place_each_witness:
  "\<exists>es gaps. mset es = mset (map normalize_edit [demo_edit (js ''beta'') (js ''two''), demo_edit (js ''alpha'') (js ''one'')]) \<and>
    length gaps = Suc (length es) \<and> js ''alpha beta'' = weave gaps (map ed_oldText es) \<and>
    js ''one two'' = weave gaps (map ed_newText es)"
proof -
  let ?edits = "[demo_edit (js ''beta'') (js ''two''), demo_edit (js ''alpha'') (js ''one'')]"
  have run: "applyEditsToNormalizedContent (\<lambda>s. s) (js ''alpha beta'') ?edits = Inr (js ''alpha beta'', js ''one two'')"
    by code_simp
  have found: "\<forall>e\<in>set ?edits. js_find (normalizeToLF (ed_oldText e)) (js ''alpha beta'') \<noteq> None" by code_simp
  show ?thesis by (rule exact_edits_replace_one_place_each [OF run found])
qed

definition demo_quoted :: jstr where
  "demo_quoted = js ''say '' @ [0x2018] @ js ''hi'' @ [0x2019] @ js ''  '' @ [js_LF] @ js ''rest  '' @ [js_LF]"

definition demo_unquoted :: jstr where
  "demo_unquoted = js ''say '' @ [0x27] @ js ''hi'' @ [0x27]"

definition demo_rewritten :: jstr where
  "demo_rewritten = js ''bye'' @ [js_LF] @ js ''rest  '' @ [js_LF]"


subsection \<open>Texts that cannot be edited\<close>

lemma length_lines:
  "length (splitLinesWithEndings s) = length (js_split js_LF s) - (if last (js_split js_LF s) = [] then 1 else 0) \<and>
   (splitLinesWithEndings s = [] \<longleftrightarrow> js_split js_LF s = [[]])"
proof (induction s)
  case (Cons c s)
  then show ?case by (cases "splitLinesWithEndings s"; cases "js_split js_LF s") (auto split: if_splits)
qed simp

lemma trimEnd_blank: "list_all js_ws w \<Longrightarrow> js_trimEnd w = []"
  by (simp add: js_trimEnd_def list_all_iff)

text \<open>In a text whose last line is white space without a final line break no edit succeeds that needs
  fuzzy matching: the normal form has one line less, which the replacement refuses.
\<close>

theorem blank_last_line_blocks_fuzzy_edits:
  assumes "\<exists>e\<in>set edits. js_find (normalizeToLF (ed_oldText e)) content = None"
    and "content = front @ js_LF # w" "w \<noteq> []" "list_all js_ws w" "js_LF \<notin> set w" "nfkc content = content"
  shows "\<exists>err. applyEditsToNormalizedContent nfkc content edits = Inl err"
proof (cases "applyEditsToNormalizedContent nfkc content edits")
  case (Inr r)
  obtain base new where r: "r = (base, new)" by (cases r)
  let ?B = "normalizeForFuzzyMatch nfkc content"
  have parts: "js_split js_LF content = js_split js_LF front @ [w]"
    using assms(2,5) split_at_sep [of js_LF front w] by (simp add: js_split_no_sep)
  let ?ls = "map (map fuzzy_unit \<circ> js_trimEnd) (js_split js_LF content)"
  have "js_LF \<notin> set l" if "l \<in> set ?ls" for l
    using that js_split_members [of _ js_LF content] set_js_trimEnd by fastforce
  then have "js_split js_LF ?B = ?ls"
    unfolding normalizeForFuzzyMatch_lines assms(6) by (intro js_split_join) auto
  then have "length (splitLinesWithEndings ?B) < length (splitLinesWithEndings content)"
    using length_lines [of ?B] length_lines [of content] parts assms(3) trimEnd_blank [OF assms(4)] by simp
  moreover obtain ms where
    "applyReplacementsPreservingUnchangedLines content ?B (sort_key rp_matchIndex ms :: matched_edit list) = Inr new"
    using apply_edits_steps [OF Inr [unfolded r], unfolded if_P [OF inexact_success_is_fuzzy [OF Inr [unfolded r] assms(1)]]]
    by metis
  ultimately show ?thesis
    by (simp add: applyReplacementsPreservingUnchangedLines_def Let_def length_getLineSpans)
qed simp

theorem blank_last_line_blocks_fuzzy_edits_witness:
  "\<exists>err. applyEditsToNormalizedContent (\<lambda>s. s) (demo_quoted @ js ''  '') [demo_edit demo_unquoted (js ''bye'')] = Inl err"
  by (rule blank_last_line_blocks_fuzzy_edits [where front = "butlast demo_quoted" and w = "js ''  ''"]) code_simp+

text \<open>An old text of white space only, without line breaks, is never unique in a text of more than
  two characters (in normal form): it is normalized to nothing, and what is counted as its
  occurrences is the number of characters less one.
\<close>

theorem blank_old_text_is_never_unique:
  assumes "old \<noteq> []" "list_all js_ws old" "js_LF \<notin> set old" "js_CR \<notin> set old" "nfkc old = old"
    and "js_find old content \<noteq> None" "2 < length (normalizeForFuzzyMatch nfkc content)"
  shows "applyEditsToNormalizedContent nfkc content [\<lparr>ed_oldText = old, ed_newText = t\<rparr>] =
    Inl (Duplicate 0 1 (int (length (normalizeForFuzzyMatch nfkc content)) - 1))"
proof -
  have "crlf_to_LF s = s" if "js_CR \<notin> set s" for s
    using that by (induction s rule: crlf_to_LF.induct) auto
  then have "normalizeToLF old = old" using assms(4) by (auto simp: normalizeToLF_def intro!: map_idI)
  then have e: "normalize_edit \<lparr>ed_oldText = old, ed_newText = t\<rparr> = \<lparr>ed_oldText = old, ed_newText = normalizeToLF t\<rparr>"
    by (simp add: normalize_edit_def)
  have "normalizeForFuzzyMatch nfkc old = []"
    using assms by (simp add: normalizeForFuzzyMatch_lines js_split_no_sep trimEnd_blank)
  then have "countOccurrences nfkc content old = int (length (normalizeForFuzzyMatch nfkc content)) - 1"
    by (simp add: countOccurrences_def split_string.simps [of "[]"])
  with assms show ?thesis
    by (auto simp: applyEditsToNormalizedContent_def Let_def e fuzzyFindText_def)
qed

theorem blank_old_text_is_never_unique_witness:
  "applyEditsToNormalizedContent (\<lambda>s. s) (js ''one two'') [\<lparr>ed_oldText = js '' '', ed_newText = js ''_''\<rparr>] =
    Inl (Duplicate 0 1 6)"
proof -
  have "int (length (normalizeForFuzzyMatch (\<lambda>s. s) (js ''one two''))) - 1 = 6" by code_simp
  moreover have "applyEditsToNormalizedContent (\<lambda>s. s) (js ''one two'') [\<lparr>ed_oldText = js '' '', ed_newText = js ''_''\<rparr>] =
      Inl (Duplicate 0 1 (int (length (normalizeForFuzzyMatch (\<lambda>s. s) (js ''one two''))) - 1))"
    by (rule blank_old_text_is_never_unique) code_simp+
  ultimately show ?thesis by simp
qed

text \<open>Occurrences that overlap are counted once: an old text that stands at two places of the file is
  taken for unique, and the first place is edited.
\<close>

theorem overlapping_places_count_once:
  assumes "nfkc (js ''aaa'') = js ''aaa''" "nfkc (js ''aa'') = js ''aa''"
  shows "applyEditsToNormalizedContent nfkc (js ''aaa'') [\<lparr>ed_oldText = js ''aa'', ed_newText = js ''b''\<rparr>] =
      Inr (js ''aaa'', js ''ba'') \<and>
    js_slice 0 2 (js ''aaa'') = js ''aa'' \<and> js_slice 1 3 (js ''aaa'') = js ''aa''"
proof -
  have find: "js ''aa'' \<noteq> []" "js_find (js ''aa'') (js ''aaa'') = Some 0" "normalizeToLF (js ''aa'') = js ''aa''" "normalizeToLF (js ''b'') = js ''b''"
    by code_simp+
  have "normalizeForFuzzyMatch nfkc (js ''aaa'') = js ''aaa''" "normalizeForFuzzyMatch nfkc (js ''aa'') = js ''aa''"
    unfolding normalizeForFuzzyMatch_def assms by code_simp+
  moreover have "int (length (split_string (js ''aa'') (js ''aaa''))) - 1 = 1" by code_simp
  ultimately have one: "countOccurrences nfkc (js ''aaa'') (js ''aa'') = 1" by (simp only: countOccurrences_def)
  have "applyReplacements (js ''aaa'') [\<lparr>rp_matchIndex = 0, rp_matchLength = 2, rp_newText = js ''b'', me_editIndex = 0\<rparr>] 0 = js ''ba''"
    by code_simp
  then have "applyEditsToNormalizedContent nfkc (js ''aaa'') [\<lparr>ed_oldText = js ''aa'', ed_newText = js ''b''\<rparr>] =
      Inr (js ''aaa'', js ''ba'')"
    using find one
    by (simp add: applyEditsToNormalizedContent_def Let_def normalize_edit_def fuzzyFindText_def numeral_2_eq_2)
  moreover have "js_slice 0 2 (js ''aaa'') = js ''aa''" "js_slice 1 3 (js ''aaa'') = js ''aa''" by code_simp+
  ultimately show ?thesis by simp
qed

theorem overlapping_places_count_once_witness:
  "applyEditsToNormalizedContent (\<lambda>s. s) (js ''aaa'') [\<lparr>ed_oldText = js ''aa'', ed_newText = js ''b''\<rparr>] =
    Inr (js ''aaa'', js ''ba'')"
  using overlapping_places_count_once [of "\<lambda>s. s"] by simp

subsection \<open>Line endings survive\<close>

lemma js_find_first:
  "c \<notin> set p \<Longrightarrow> js_find (c # r) (p @ c # r @ q) = Some (length p)"
  "c \<notin> set s \<Longrightarrow> js_find (c # r) s = None"
  by (induction p) (auto simp: js_startsWith_def, induction s, auto simp: js_startsWith_def)

lemma crlf_to_LF_other: "c \<noteq> js_CR \<Longrightarrow> crlf_to_LF (c # s) = c # crlf_to_LF s"
  by (cases s) auto

lemma normalize_restored: "js_CR \<notin> set t \<Longrightarrow> normalizeToLF (restoreLineEndings t ending) = t"
proof -
  assume t: "js_CR \<notin> set t"
  have "crlf_to_LF (concat (map (\<lambda>c. if c = js_LF then [js_CR, js_LF] else [c]) t)) = t"
    using t by (induction t) (auto simp: crlf_to_LF_other)
  moreover have "crlf_to_LF t = t" using t by (induction t) (auto simp: crlf_to_LF_other)
  ultimately show ?thesis
    using t by (auto simp: normalizeToLF_def restoreLineEndings_def intro!: map_idI split: line_ending.splits)
qed

lemma detect_restored:
  assumes "js_CR \<notin> set t" "js_LF \<in> set t"
  shows "detectLineEnding (restoreLineEndings t ending) = ending"
proof -
  from assms(2) obtain p q where t: "t = p @ js_LF # q" "js_LF \<notin> set p" by (meson split_list_first)
  let ?r = "concat \<circ> map (\<lambda>c. if c = js_LF then [js_CR, js_LF] else [c])"
  have p: "?r p = p" using t(2) by (induction p) auto
  show ?thesis
  proof (cases ending)
    case LF_ending
    then show ?thesis using assms js_find_first(2) [of js_CR t "[js_LF]"]
      by (auto simp: detectLineEnding_def restoreLineEndings_def split: option.splits)
  next
    case CRLF_ending
    then have whole: "restoreLineEndings t ending = p @ js_CR # js_LF # ?r q"
      using p t by (simp add: restoreLineEndings_def)
    have "js_find [js_CR, js_LF] (p @ js_CR # js_LF # ?r q) = Some (length p)"
      using js_find_first(1) [of js_CR p "[js_LF]" "?r q"] assms(1) t by simp
    moreover have "js_find [js_LF] (p @ js_CR # js_LF # ?r q) = Some (Suc (length p))"
      using js_find_first(1) [of js_LF "p @ [js_CR]" "[]" "?r q"] t by simp
    ultimately show ?thesis by (simp add: whole [unfolded CRLF_ending] detectLineEnding_def CRLF_ending)
  qed
qed

text \<open>A text whose line ends are all of one kind gets them back after an edit: normalizing it to line
  feeds and restoring the line end that was found in it gives the text; and the byte order mark and the
  rest make up the content.
\<close>

theorem line_endings_survive:
  assumes "js_CR \<notin> set t" and "s = restoreLineEndings t ending"
  shows "restoreLineEndings (normalizeToLF s) (detectLineEnding s) = s \<and> normalizeToLF s = t \<and>
    fst (stripBom s) @ snd (stripBom s) = s"
proof -
  have bom: "fst (stripBom s) @ snd (stripBom s) = s"
    by (cases s) (auto simp: stripBom_def js_startsWith_def)
  show ?thesis
  proof (cases "js_LF \<in> set t")
    case True
    with assms bom show ?thesis by (simp add: detect_restored normalize_restored)
  next
    case False
    then have "concat (map (\<lambda>c. if c = js_LF then [js_CR, js_LF] else [c]) t) = t" by (induction t) auto
    then have "restoreLineEndings t e = t" for e by (cases e) (simp_all add: restoreLineEndings_def)
    with assms bom normalize_restored [OF assms(1)] show ?thesis by metis
  qed
qed

theorem line_endings_survive_witness:
  "let windows = js ''a'' @ [js_CR, js_LF] @ js ''b''
   in restoreLineEndings (normalizeToLF windows) (detectLineEnding windows) = windows"
proof -
  have "restoreLineEndings (js ''a'' @ [js_LF] @ js ''b'') CRLF_ending = js ''a'' @ [js_CR, js_LF] @ js ''b''"
    "js_CR \<notin> set (js ''a'' @ [js_LF] @ js ''b'')" by code_simp+
  from line_endings_survive [OF this(2) this(1) [symmetric]] show ?thesis unfolding Let_def by (rule conjunct1)
qed

end
