(* ===== verification/Diff_Rows.thy ===== *)
theory Diff_Rows
  imports Edit_Matching
begin

text \<open>
  The diff shown for an edit (\<open>generateDiffString\<close> in \<open>packages/coding-agent/src/core/tools/edit-diff.ts\<close>):
  numbered rows of the changed lines with some lines of context.  The parts that \<open>Diff.diffLines\<close> returns
  are an argument.
\<close>

record diff_part =
  dp_added :: bool
  dp_removed :: bool
  dp_value :: jstr

datatype diff_row = AddedRow nat jstr | RemovedRow nat jstr | ContextRow nat jstr | ElidedRow

definition padStart :: "nat \<Rightarrow> jstr \<Rightarrow> jstr" where
  "padStart width s = replicate (width - length s) js_space @ s"

definition row_text :: "nat \<Rightarrow> diff_row \<Rightarrow> jstr" where
  "row_text width row =
     (case row of
        AddedRow n line \<Rightarrow> js ''+'' @ padStart width (js_nat n) @ js '' '' @ line
      | RemovedRow n line \<Rightarrow> js ''-'' @ padStart width (js_nat n) @ js '' '' @ line
      | ContextRow n line \<Rightarrow> js '' '' @ padStart width (js_nat n) @ js '' '' @ line
      | ElidedRow \<Rightarrow> js '' '' @ padStart width [] @ js '' ...'')"

record diff_state =
  ds_output :: "diff_row list"
  ds_oldLineNum :: nat
  ds_newLineNum :: nat
  ds_lastWasChange :: bool
  ds_firstChangedLine :: "nat option"

definition part_lines :: "diff_part \<Rightarrow> jstr list" where
  "part_lines part =
     (let raw = js_split js_LF (dp_value part) in if last raw = [] then butlast raw else raw)"

definition is_change :: "diff_part \<Rightarrow> bool" where
  "is_change part \<longleftrightarrow> dp_added part \<or> dp_removed part"

fun show_change :: "bool \<Rightarrow> jstr list \<Rightarrow> diff_state \<Rightarrow> diff_state" where
  "show_change added [] s = s"
| "show_change added (line # ls) s =
     show_change added ls
       (if added
        then s\<lparr>ds_output := ds_output s @ [AddedRow (ds_newLineNum s) line], ds_newLineNum := ds_newLineNum s + 1\<rparr>
        else s\<lparr>ds_output := ds_output s @ [RemovedRow (ds_oldLineNum s) line], ds_oldLineNum := ds_oldLineNum s + 1\<rparr>)"

fun show_context :: "jstr list \<Rightarrow> diff_state \<Rightarrow> diff_state" where
  "show_context [] s = s"
| "show_context (line # ls) s =
     show_context ls
       (s\<lparr>ds_output := ds_output s @ [ContextRow (ds_oldLineNum s) line], ds_oldLineNum := ds_oldLineNum s + 1,
          ds_newLineNum := ds_newLineNum s + 1\<rparr>)"

definition skip_lines :: "nat \<Rightarrow> diff_state \<Rightarrow> diff_state" where
  "skip_lines n s = s\<lparr>ds_oldLineNum := ds_oldLineNum s + n, ds_newLineNum := ds_newLineNum s + n\<rparr>"

definition elide :: "nat \<Rightarrow> diff_state \<Rightarrow> diff_state" where
  "elide n s = skip_lines n (s\<lparr>ds_output := ds_output s @ [ElidedRow]\<rparr>)"

definition context_part :: "nat \<Rightarrow> bool \<Rightarrow> jstr list \<Rightarrow> diff_state \<Rightarrow> diff_state" where
  "context_part contextLines nextPartIsChange raw s =
     (if ds_lastWasChange s \<and> nextPartIsChange then
        (if length raw \<le> contextLines * 2 then show_context raw s
         else (let leadingLines = take contextLines raw; trailingLines = drop (length raw - contextLines) raw;
                   skippedLines = length raw - length leadingLines - length trailingLines
               in show_context trailingLines (elide skippedLines (show_context leadingLines s))))
      else if ds_lastWasChange s then
        (let shownLines = take contextLines raw; skippedLines = length raw - length shownLines; s1 = show_context shownLines s
         in if 0 < skippedLines then elide skippedLines s1 else s1)
      else if nextPartIsChange then
        (let skippedLines = length raw - contextLines; s1 = (if 0 < skippedLines then elide skippedLines s else s)
         in show_context (drop skippedLines raw) s1)
      else skip_lines (length raw) s)"

definition diff_step :: "nat \<Rightarrow> bool \<Rightarrow> diff_part \<Rightarrow> diff_state \<Rightarrow> diff_state" where
  "diff_step contextLines nextPartIsChange part s =
     (if is_change part
      then (show_change (dp_added part) (part_lines part)
              (s\<lparr>ds_firstChangedLine :=
                   (case ds_firstChangedLine s of None \<Rightarrow> Some (ds_newLineNum s) | Some n \<Rightarrow> Some n)\<rparr>))\<lparr>ds_lastWasChange := True\<rparr>
      else (context_part contextLines nextPartIsChange (part_lines part) s)\<lparr>ds_lastWasChange := False\<rparr>)"

fun diff_loop :: "nat \<Rightarrow> diff_part list \<Rightarrow> diff_state \<Rightarrow> diff_state" where
  "diff_loop contextLines [] s = s"
| "diff_loop contextLines (part # parts) s =
     diff_loop contextLines parts
       (diff_step contextLines (case parts of [] \<Rightarrow> False | p # _ \<Rightarrow> is_change p) part s)"

definition diff_start :: diff_state where
  "diff_start = \<lparr>ds_output = [], ds_oldLineNum = 1, ds_newLineNum = 1, ds_lastWasChange = False, ds_firstChangedLine = None\<rparr>"

definition generateDiffString :: "jstr \<Rightarrow> jstr \<Rightarrow> nat \<Rightarrow> diff_part list \<Rightarrow> jstr \<times> nat option" where
  "generateDiffString oldContent newContent contextLines parts =
     (let maxLineNum = max (length (js_split js_LF oldContent)) (length (js_split js_LF newContent));
          lineNumWidth = length (js_nat maxLineNum); s = diff_loop contextLines parts diff_start
      in (js_join [js_LF] (map (row_text lineNumWidth) (ds_output s)), ds_firstChangedLine s))"

text \<open>
  The preview: \<open>access\<close> is what the access check answered (the text of its error), \<open>readFile\<close> what reading
  answered, \<open>diffLines\<close> the function of the \<open>diff\<close> package.
\<close>

definition computeEditsDiff ::
  "(jstr \<Rightarrow> jstr) \<Rightarrow> (jstr \<Rightarrow> jstr \<Rightarrow> diff_part list) \<Rightarrow> jstr \<Rightarrow> edit list \<Rightarrow> jstr option \<Rightarrow> jstr + jstr \<Rightarrow>
     jstr + jstr \<times> nat option" where
  "computeEditsDiff nfkc diffLines path edits access readFile =
     (case access of
        Some errorMessage \<Rightarrow> Inl (js ''Could not edit file: '' @ path @ js ''. '' @ errorMessage @ js ''.'')
      | None \<Rightarrow>
          (case readFile of
             Inl errorMessage \<Rightarrow> Inl errorMessage
           | Inr rawContent \<Rightarrow>
               (case applyEditsToNormalizedContent nfkc (normalizeToLF (snd (stripBom rawContent))) edits of
                  Inl err \<Rightarrow> Inl (edit_error_message path err)
                | Inr (baseContent, newContent) \<Rightarrow>
                    Inr (generateDiffString baseContent newContent 4 (diffLines baseContent newContent)))))"

subsection \<open>Rows are numbered\<close>

text \<open>
  What the \<open>diff\<close> package documents of the parts: the values of the parts that are not additions make up the old
  text, those that are not removals the new one, and in both all but the last value end in a line break.
\<close>

definition whole_lines :: "jstr list \<Rightarrow> bool" where
  "whole_lines vs \<longleftrightarrow> list_all (\<lambda>v. v \<noteq> [] \<and> last v = js_LF) (butlast vs)"

definition parts_of :: "jstr \<Rightarrow> jstr \<Rightarrow> diff_part list \<Rightarrow> bool" where
  "parts_of old new parts \<longleftrightarrow>
     list_all (\<lambda>p. \<not> (dp_added p \<and> dp_removed p)) parts \<and>
     concat (map dp_value (filter (\<lambda>p. \<not> dp_added p) parts)) = old \<and>
     concat (map dp_value (filter (\<lambda>p. \<not> dp_removed p) parts)) = new \<and>
     whole_lines (map dp_value (filter (\<lambda>p. \<not> dp_added p) parts)) \<and>
     whole_lines (map dp_value (filter (\<lambda>p. \<not> dp_removed p) parts))"

definition lines_of :: "jstr \<Rightarrow> jstr list" where
  "lines_of v = (let raw = js_split js_LF v in if last raw = [] then butlast raw else raw)"

lemma part_lines_of: "part_lines p = lines_of (dp_value p)"
  by (simp add: part_lines_def lines_of_def)

lemma lines_of_values: "whole_lines vs \<Longrightarrow> concat (map lines_of vs) = lines_of (concat vs)"
proof (induction vs rule: induct_list012)
  case (3 v w vs)
  then obtain u where v: "v = u @ [js_LF]" by (cases v rule: rev_cases) (auto simp: whole_lines_def)
  have "lines_of (u @ js_LF # x) = js_split js_LF u @ lines_of x" for x
    by (simp add: lines_of_def Let_def split_at_sep butlast_append)
  from this [of "[]"] this [of "concat (w # vs)"] have "lines_of (v @ concat (w # vs)) = lines_of v @ lines_of (concat (w # vs))"
    by (simp add: v lines_of_def)
  with 3 show ?case by (simp add: whole_lines_def)
qed (simp_all add: lines_of_def)

lemma length_lines_of: "length (lines_of v) \<le> length (js_split js_LF v)"
  by (simp add: lines_of_def Let_def)

lemma nth_lines_of: "i < length (lines_of v) \<Longrightarrow> lines_of v ! i = js_split js_LF v ! i \<and> i < length (js_split js_LF v)"
  by (auto simp: lines_of_def Let_def nth_butlast split: if_splits)

text \<open>The lines of the old and new text that were passed, and the rows that number them.\<close>

definition numbered_row :: "jstr list \<Rightarrow> jstr list \<Rightarrow> diff_row \<Rightarrow> bool" where
  "numbered_row old new row =
     (case row of
        AddedRow n line \<Rightarrow> 0 < n \<and> n \<le> length new \<and> new ! (n - 1) = line
      | RemovedRow n line \<Rightarrow> 0 < n \<and> n \<le> length old \<and> old ! (n - 1) = line
      | ContextRow n line \<Rightarrow> 0 < n \<and> n \<le> length old \<and> old ! (n - 1) = line
      | ElidedRow \<Rightarrow> True)"

definition added_lines :: "diff_row list \<Rightarrow> jstr list" where
  "added_lines rows = concat (map (\<lambda>row. case row of AddedRow n line \<Rightarrow> [line] | _ \<Rightarrow> []) rows)"

definition removed_lines :: "diff_row list \<Rightarrow> jstr list" where
  "removed_lines rows = concat (map (\<lambda>row. case row of RemovedRow n line \<Rightarrow> [line] | _ \<Rightarrow> []) rows)"

definition passed :: "jstr list \<Rightarrow> jstr list \<Rightarrow> jstr list \<Rightarrow> jstr list \<Rightarrow> diff_state \<Rightarrow> bool" where
  "passed old new added removed s \<longleftrightarrow>
     ds_oldLineNum s = Suc (length old) \<and> ds_newLineNum s = Suc (length new) \<and>
     list_all (numbered_row old new) (ds_output s) \<and> added_lines (ds_output s) = added \<and> removed_lines (ds_output s) = removed"

lemma numbered_row_append: "numbered_row old new row \<Longrightarrow> numbered_row (old @ x) (new @ y) row"
  by (auto simp: numbered_row_def nth_append split: diff_row.splits)

lemma passed_fields [simp]:
  "passed old new added removed (s\<lparr>ds_lastWasChange := b\<rparr>) = passed old new added removed s"
  "passed old new added removed (s\<lparr>ds_firstChangedLine := f\<rparr>) = passed old new added removed s"
  by (simp_all add: passed_def)

lemma passed_row:
  assumes "passed old new added removed s" "numbered_row (old @ x) (new @ y) row"
  shows "passed (old @ x) (new @ y) (added @ added_lines [row]) (removed @ removed_lines [row])
    (s\<lparr>ds_output := ds_output s @ [row], ds_oldLineNum := ds_oldLineNum s + length x, ds_newLineNum := ds_newLineNum s + length y\<rparr>)"
  using assms numbered_row_append
  by (auto simp: passed_def added_lines_def removed_lines_def list_all_iff)

lemma passed_change:
  "passed old new added removed s \<Longrightarrow>
     passed (if b then old else old @ ls) (if b then new @ ls else new) (if b then added @ ls else added)
       (if b then removed else removed @ ls) (show_change b ls s)"
proof (induction b ls s arbitrary: old new added removed rule: show_change.induct)
  case (2 b line ls s)
  show ?case
  proof (cases b)
    case True
    with passed_row [OF 2(2), of "[]" "[line]" "AddedRow (ds_newLineNum s) line"] 2(2)
    have "passed old (new @ [line]) (added @ [line]) removed
        (s\<lparr>ds_output := ds_output s @ [AddedRow (ds_newLineNum s) line], ds_newLineNum := ds_newLineNum s + 1\<rparr>)"
      by (auto simp: passed_def numbered_row_def added_lines_def removed_lines_def)
    with 2(1) True show ?thesis by fastforce
  next
    case False
    with passed_row [OF 2(2), of "[line]" "[]" "RemovedRow (ds_oldLineNum s) line"] 2(2)
    have "passed (old @ [line]) new added (removed @ [line])
        (s\<lparr>ds_output := ds_output s @ [RemovedRow (ds_oldLineNum s) line], ds_oldLineNum := ds_oldLineNum s + 1\<rparr>)"
      by (auto simp: passed_def numbered_row_def added_lines_def removed_lines_def)
    with 2(1) False show ?thesis by fastforce
  qed
qed simp

lemma passed_context:
  "passed old new added removed s \<Longrightarrow> passed (old @ ls) (new @ ls) added removed (show_context ls s)"
proof (induction ls s arbitrary: old new rule: show_context.induct)
  case (2 line ls s)
  from passed_row [OF 2(2), of "[line]" "[line]" "ContextRow (ds_oldLineNum s) line"] 2(2)
  have "passed (old @ [line]) (new @ [line]) added removed
      (s\<lparr>ds_output := ds_output s @ [ContextRow (ds_oldLineNum s) line], ds_oldLineNum := ds_oldLineNum s + 1,
         ds_newLineNum := ds_newLineNum s + 1\<rparr>)"
    by (auto simp: passed_def numbered_row_def added_lines_def removed_lines_def)
  from 2(1) [OF this] show ?case by simp
qed simp

lemma passed_skip:
  assumes "passed old new added removed s"
  shows "passed (old @ ls) (new @ ls) added removed (skip_lines (length ls) s)"
    "passed (old @ ls) (new @ ls) added removed (elide (length ls) s)"
  using assms numbered_row_append
  by (auto simp: passed_def skip_lines_def elide_def list_all_iff numbered_row_def added_lines_def removed_lines_def)

lemma passed_context_part:
  assumes "passed old new added removed s"
  shows "passed (old @ raw) (new @ raw) added removed (context_part k b raw s)"
proof -
  have take_drop: "old @ raw = (old @ take i raw) @ drop i raw" "new @ raw = (new @ take i raw) @ drop i raw" for i by simp_all
  consider "ds_lastWasChange s" "b" "length raw \<le> k * 2" | "ds_lastWasChange s" "b" "k * 2 < length raw"
    | "ds_lastWasChange s" "\<not> b" | "\<not> ds_lastWasChange s" "b" | "\<not> ds_lastWasChange s" "\<not> b" by linarith
  then show ?thesis
  proof cases
    case 1
    then show ?thesis using passed_context [OF assms] by (simp add: context_part_def)
  next
    case 2
    let ?skip = "take (length raw - 2 * k) (drop k raw)" and ?trail = "drop (length raw - k) raw"
    have "drop (length raw - 2 * k) (drop k raw) = ?trail" using 2 by (simp add: add.commute)
    then have raw: "raw = take k raw @ ?skip @ ?trail" by (metis append_take_drop_id)
    have len: "length ?skip = length raw - length (take k raw) - length ?trail" using 2 by simp
    from passed_context [OF passed_skip(2) [OF passed_context [OF assms]], of "take k raw" ?skip ?trail]
    have "passed (old @ raw) (new @ raw) added removed
        (show_context ?trail (elide (length raw - length (take k raw) - length ?trail) (show_context (take k raw) s)))"
      unfolding len append_assoc raw [symmetric] .
    with 2 show ?thesis by (simp add: context_part_def Let_def)
  next
    case 3
    show ?thesis
      using passed_context [OF assms, of "take k raw"] passed_skip(2) [OF passed_context [OF assms], of "take k raw" "drop k raw"] 3
      by (auto simp: context_part_def Let_def)
  next
    case 4
    show ?thesis
      using passed_context [OF assms, of raw] 4
        passed_context [OF passed_skip(2) [OF assms, of "take (length raw - k) raw"], of "drop (length raw - k) raw"]
      by (auto simp: context_part_def Let_def)
  next
    case 5
    then show ?thesis using passed_skip(1) [OF assms] by (simp add: context_part_def)
  qed
qed

lemma passed_loop:
  assumes "passed old new added removed s" "list_all (\<lambda>p. \<not> (dp_added p \<and> dp_removed p)) parts"
  shows "passed (old @ concat (map part_lines (filter (\<lambda>p. \<not> dp_added p) parts)))
    (new @ concat (map part_lines (filter (\<lambda>p. \<not> dp_removed p) parts)))
    (added @ concat (map part_lines (filter dp_added parts))) (removed @ concat (map part_lines (filter dp_removed parts)))
    (diff_loop k parts s)"
  using assms
proof (induction parts arbitrary: s old new added removed)
  case (Cons p ps)
  let ?b = "case ps of [] \<Rightarrow> False | p # _ \<Rightarrow> is_change p" and ?ls = "part_lines p"
  consider "dp_added p" "\<not> dp_removed p" | "dp_removed p" "\<not> dp_added p" | "\<not> dp_added p" "\<not> dp_removed p"
    using Cons.prems(2) by auto
  then show ?case
  proof cases
    case 1
    then have "passed old (new @ ?ls) (added @ ?ls) removed (diff_step k ?b p s)"
      using passed_change [of old new added removed _ True ?ls] Cons.prems(1) by (simp add: diff_step_def is_change_def)
    from Cons.IH [OF this] 1 Cons.prems(2) show ?thesis by simp
  next
    case 2
    then have "passed (old @ ?ls) new added (removed @ ?ls) (diff_step k ?b p s)"
      using passed_change [of old new added removed _ False ?ls] Cons.prems(1) by (simp add: diff_step_def is_change_def)
    from Cons.IH [OF this] 2 Cons.prems(2) show ?thesis by simp
  next
    case 3
    then have "passed (old @ ?ls) (new @ ?ls) added removed (diff_step k ?b p s)"
      using passed_context_part [OF Cons.prems(1)] by (simp add: diff_step_def is_change_def)
    from Cons.IH [OF this] 3 Cons.prems(2) show ?thesis by simp
  qed
qed simp

text \<open>C25: C0: Every row of the diff carries the number of its line: a row marked + with n is line n of the new text,
  a row marked - or a row of context is line n of the old text; and all changed lines are shown, in
  order, each once.
\<close>

theorem diff_rows_are_the_lines:
  fixes contextLines
  assumes "parts_of old new parts"
  defines "rows \<equiv> ds_output (diff_loop contextLines parts diff_start)"
  shows "list_all (numbered_row (js_split js_LF old) (js_split js_LF new)) rows \<and>
    added_lines rows = concat (map part_lines (filter dp_added parts)) \<and>
    removed_lines rows = concat (map part_lines (filter dp_removed parts)) \<and>
    fst (generateDiffString old new contextLines parts) =
      js_join [js_LF] (map (row_text (length (js_nat (max (length (js_split js_LF old)) (length (js_split js_LF new)))))) rows)"
proof -
  let ?olds = "filter (\<lambda>p. \<not> dp_added p) parts" and ?news = "filter (\<lambda>p. \<not> dp_removed p) parts"
  have lines: "concat (map part_lines ?olds) = lines_of old" "concat (map part_lines ?news) = lines_of new"
    using assms(1) lines_of_values [of "map dp_value ?olds"] lines_of_values [of "map dp_value ?news"]
    by (simp_all add: parts_of_def part_lines_of [abs_def] comp_def)
  have "passed [] [] [] [] diff_start"
    by (simp add: passed_def diff_start_def added_lines_def removed_lines_def)
  from passed_loop [OF this, of parts contextLines] assms(1)
  have "passed (lines_of old) (lines_of new) (concat (map part_lines (filter dp_added parts)))
      (concat (map part_lines (filter dp_removed parts))) (diff_loop contextLines parts diff_start)"
    by (simp add: parts_of_def lines)
  moreover have "numbered_row (js_split js_LF old) (js_split js_LF new) row"
    if "numbered_row (lines_of old) (lines_of new) row" for row
    using that nth_lines_of [of _ old] nth_lines_of [of _ new] length_lines_of [of old] length_lines_of [of new]
    by (cases row) (auto simp: numbered_row_def Suc_le_eq [symmetric])
  ultimately show ?thesis
    by (auto simp: passed_def rows_def generateDiffString_def Let_def elim: list.pred_mono_strong)
qed

definition demo_parts :: "diff_part list" where
  "demo_parts =
     [\<lparr>dp_added = False, dp_removed = False, dp_value = js ''a'' @ [js_LF]\<rparr>,
      \<lparr>dp_added = False, dp_removed = True, dp_value = js ''b'' @ [js_LF]\<rparr>,
      \<lparr>dp_added = True, dp_removed = False, dp_value = js ''c'' @ [js_LF]\<rparr>,
      \<lparr>dp_added = False, dp_removed = False, dp_value = js ''d''\<rparr>]"

theorem diff_rows_are_the_lines_witness:
  "fst (generateDiffString (js ''a'' @ [js_LF] @ js ''b'' @ [js_LF] @ js ''d'') (js ''a'' @ [js_LF] @ js ''c'' @ [js_LF] @ js ''d'') 4 demo_parts) =
    js_join [js_LF] [js '' 1 a'', js ''-2 b'', js ''+2 c'', js '' 3 d''] \<and>
   added_lines (ds_output (diff_loop 4 demo_parts diff_start)) = [js ''c'']"
proof -
  have parts: "parts_of (js ''a'' @ [js_LF] @ js ''b'' @ [js_LF] @ js ''d'') (js ''a'' @ [js_LF] @ js ''c'' @ [js_LF] @ js ''d'') demo_parts"
    by code_simp
  have "concat (map part_lines (filter dp_added demo_parts)) = [js ''c'']" by code_simp
  moreover have "fst (generateDiffString (js ''a'' @ [js_LF] @ js ''b'' @ [js_LF] @ js ''d'') (js ''a'' @ [js_LF] @ js ''c'' @ [js_LF] @ js ''d'') 4 demo_parts) =
      js_join [js_LF] [js '' 1 a'', js ''-2 b'', js ''+2 c'', js '' 3 d'']"
    by code_simp
  ultimately show ?thesis using diff_rows_are_the_lines [OF parts, of 4] by simp
qed

end
