(* ===== verification/File_Mutation_Queue.thy ===== *)
theory File_Mutation_Queue
  imports JS_Core "HOL-Library.List_Lexorder"
begin

text \<open>
  Serialization of file mutations (\<open>packages/coding-agent/src/core/tools/file-mutation-queue.ts\<close>) and its use
  for several files at once (\<open>withFileMutationQueues\<close> in \<open>edit.ts\<close>).

  An operation is one call of \<open>withFileMutationQueue\<close>; its number is its place among the calls.  The promise of
  a queue entry is named by the operation that made it.  What the event loop may do next is an event: a call, the end of a
  registration with what \<open>realpath\<close> answered, the start of an operation whose predecessor settled,
  the end of a body.
\<close>

subsection \<open>State\<close>

datatype op_phase = Registering | Waiting | Running | Settled

record queue_op =
  qo_path :: jstr
  qo_rest :: "jstr list"
  qo_phase :: op_phase
  qo_key :: "jstr option"
  qo_current :: "nat option"
  qo_inner :: "nat option"

record queue_state =
  mq_ops :: "queue_op list"
  mq_registration :: "nat list"
  mq_queues :: "(jstr, nat) jmap"

definition mq_init :: queue_state where
  "mq_init = \<lparr>mq_ops = [], mq_registration = [], mq_queues = []\<rparr>"

abbreviation mq_op :: "queue_state \<Rightarrow> nat \<Rightarrow> queue_op" where
  "mq_op s i \<equiv> mq_ops s ! i"

definition update_op :: "nat \<Rightarrow> (queue_op \<Rightarrow> queue_op) \<Rightarrow> queue_state \<Rightarrow> queue_state" where
  "update_op i f s = s\<lparr>mq_ops := (mq_ops s)[i := f (mq_op s i)]\<rparr>"

subsection \<open>Operations\<close>

text \<open>The answer of \<open>realpath\<close>, and the key made of it.\<close>

datatype realpath_answer = RealPath jstr | MissingPath | RealPathError

definition getMutationQueueKey :: "jstr \<Rightarrow> realpath_answer \<Rightarrow> jstr option" where
  "getMutationQueueKey resolvedPath answer =
     (case answer of RealPath p \<Rightarrow> Some p | MissingPath \<Rightarrow> Some resolvedPath | RealPathError \<Rightarrow> None)"

text \<open>The call: a registration is appended.  \<open>rest\<close> are the paths that the body locks in turn.\<close>

definition withFileMutationQueue :: "jstr \<Rightarrow> jstr list \<Rightarrow> queue_state \<Rightarrow> queue_state" where
  "withFileMutationQueue path rest s =
     s\<lparr>mq_ops := mq_ops s @
          [\<lparr>qo_path = path, qo_rest = rest, qo_phase = Registering, qo_key = None, qo_current = None, qo_inner = None\<rparr>],
       mq_registration := mq_registration s @ [length (mq_ops s)]\<rparr>"

definition withFileMutationQueues :: "jstr list \<Rightarrow> queue_state \<Rightarrow> queue_state" where
  "withFileMutationQueues filePaths s =
     (case takeWhile (\<lambda>p. p \<noteq> []) (sort (remdups filePaths)) of [] \<Rightarrow> s | path # rest \<Rightarrow> withFileMutationQueue path rest s)"

definition register_mutation :: "nat \<Rightarrow> realpath_answer \<Rightarrow> queue_state \<Rightarrow> queue_state" where
  "register_mutation i answer s =
     (let s1 = s\<lparr>mq_registration := tl (mq_registration s)\<rparr>
      in case getMutationQueueKey (qo_path (mq_op s i)) answer of
           None \<Rightarrow> update_op i (qo_phase_update (\<lambda>_. Settled)) s1
         | Some key \<Rightarrow>
             update_op i (\<lambda>x. x\<lparr>qo_phase := Waiting, qo_key := Some key, qo_current := jm_get (mq_queues s) key\<rparr>)
               (s1\<lparr>mq_queues := jm_set key i (mq_queues s)\<rparr>))"

text \<open>The chained promise of an operation settles when its predecessor's has and the operation has released.\<close>

function chain_settled :: "queue_op list \<Rightarrow> nat \<Rightarrow> bool" where
  "chain_settled ops i \<longleftrightarrow>
     i < length ops \<and> qo_phase (ops ! i) = Settled \<and>
     (case qo_current (ops ! i) of None \<Rightarrow> True | Some j \<Rightarrow> if j < i then chain_settled ops j else False)"
  by auto
termination by (relation "measure snd") auto

declare chain_settled.simps [simp del]

definition may_start :: "queue_state \<Rightarrow> nat \<Rightarrow> bool" where
  "may_start s i \<longleftrightarrow>
     (case qo_current (mq_op s i) of None \<Rightarrow> True | Some j \<Rightarrow> chain_settled (mq_ops s) j)"

definition start_body :: "nat \<Rightarrow> queue_state \<Rightarrow> queue_state" where
  "start_body i s =
     (let s1 = update_op i (qo_phase_update (\<lambda>_. Running)) s
      in case qo_rest (mq_op s i) of
           [] \<Rightarrow> s1
         | path # rest \<Rightarrow>
             withFileMutationQueue path rest (update_op i (qo_inner_update (\<lambda>_. Some (length (mq_ops s)))) s1))"

definition body_done :: "queue_state \<Rightarrow> nat \<Rightarrow> bool" where
  "body_done s i \<longleftrightarrow> (case qo_inner (mq_op s i) of None \<Rightarrow> True | Some j \<Rightarrow> qo_phase (mq_op s j) = Settled)"

definition release_mutation :: "nat \<Rightarrow> queue_state \<Rightarrow> queue_state" where
  "release_mutation i s =
     (let s1 = update_op i (qo_phase_update (\<lambda>_. Settled)) s
      in case qo_key (mq_op s i) of
           Some key \<Rightarrow> if jm_get (mq_queues s) key = Some i then s1\<lparr>mq_queues := jm_delete key (mq_queues s)\<rparr> else s1
         | None \<Rightarrow> s1)"

datatype mq_event = Called "jstr list" | Registered nat realpath_answer | Started nat | Finished nat

definition mq_step :: "queue_state \<Rightarrow> mq_event \<Rightarrow> queue_state option" where
  "mq_step s ev =
     (case ev of
        Called paths \<Rightarrow> Some (withFileMutationQueues paths s)
      | Registered i answer \<Rightarrow>
          (case mq_registration s of [] \<Rightarrow> None | j # _ \<Rightarrow> if i = j then Some (register_mutation i answer s) else None)
      | Started i \<Rightarrow>
          (if i < length (mq_ops s) \<and> qo_phase (mq_op s i) = Waiting \<and> may_start s i then Some (start_body i s) else None)
      | Finished i \<Rightarrow>
          (if i < length (mq_ops s) \<and> qo_phase (mq_op s i) = Running \<and> body_done s i then Some (release_mutation i s) else None))"

fun mq_run :: "queue_state \<Rightarrow> mq_event list \<Rightarrow> queue_state option" where
  "mq_run s [] = Some s"
| "mq_run s (ev # evs) = (case mq_step s ev of None \<Rightarrow> None | Some s' \<Rightarrow> mq_run s' evs)"


subsection \<open>Invariant\<close>

definition registered :: "queue_state \<Rightarrow> nat" where
  "registered s = length (mq_ops s) - length (mq_registration s)"

definition has_key :: "queue_state \<Rightarrow> jstr \<Rightarrow> nat \<Rightarrow> bool" where
  "has_key s k i \<longleftrightarrow> i < length (mq_ops s) \<and> qo_key (mq_op s i) = Some k"

definition is_phase :: "queue_state \<Rightarrow> op_phase \<Rightarrow> nat \<Rightarrow> bool" where
  "is_phase s p i \<longleftrightarrow> i < length (mq_ops s) \<and> qo_phase (mq_op s i) = p"

definition earlier_settled :: "queue_state \<Rightarrow> nat \<Rightarrow> bool" where
  "earlier_settled s j \<longleftrightarrow> (\<forall>k i. has_key s k j \<and> has_key s k i \<and> i < j \<longrightarrow> is_phase s Settled i)"

text \<open>Registrations happen in the order of the calls, and each is in the phase that its data shows.\<close>

definition registration_inv :: "queue_state \<Rightarrow> bool" where
  "registration_inv s \<longleftrightarrow>
     mq_registration s = [registered s..<length (mq_ops s)] \<and>
     (\<forall>i<length (mq_ops s). (qo_phase (mq_op s i) = Registering \<longleftrightarrow> registered s \<le> i) \<and>
        (qo_phase (mq_op s i) = Registering \<longrightarrow> qo_key (mq_op s i) = None) \<and>
        (qo_phase (mq_op s i) \<in> {Waiting, Running} \<longrightarrow> qo_key (mq_op s i) \<noteq> None) \<and>
        (qo_phase (mq_op s i) \<in> {Registering, Waiting} \<longrightarrow> qo_inner (mq_op s i) = None))"

text \<open>The map holds, per key, the last operation while it is unsettled.\<close>

definition queues_inv :: "queue_state \<Rightarrow> bool" where
  "queues_inv s \<longleftrightarrow>
     (\<forall>k j. jm_get (mq_queues s) k = Some j \<longrightarrow>
        has_key s k j \<and> \<not> is_phase s Settled j \<and> (\<forall>i. has_key s k i \<longrightarrow> i \<le> j)) \<and>
     (\<forall>k i. jm_get (mq_queues s) k = None \<and> has_key s k i \<longrightarrow> is_phase s Settled i)"

definition chain_inv :: "queue_state \<Rightarrow> bool" where
  "chain_inv s \<longleftrightarrow>
     (\<forall>k j i. has_key s k j \<and> qo_current (mq_op s j) = Some i \<longrightarrow>
        i < j \<and> has_key s k i \<and> (\<forall>l. has_key s k l \<and> l < j \<longrightarrow> l \<le> i)) \<and>
     (\<forall>k j i. has_key s k j \<and> qo_current (mq_op s j) = None \<and> has_key s k i \<and> i < j \<longrightarrow> is_phase s Settled i)"

definition order_inv :: "queue_state \<Rightarrow> bool" where
  "order_inv s \<longleftrightarrow> (\<forall>j. is_phase s Running j \<or> is_phase s Settled j \<longrightarrow> earlier_settled s j)"

definition inner_inv :: "queue_state \<Rightarrow> bool" where
  "inner_inv s \<longleftrightarrow>
     (\<forall>i j. i < length (mq_ops s) \<and> qo_inner (mq_op s i) = Some j \<longrightarrow>
        i < j \<and> j < length (mq_ops s) \<and> qo_rest (mq_op s i) = qo_path (mq_op s j) # qo_rest (mq_op s j) \<and>
        (is_phase s Settled i \<longrightarrow> is_phase s Settled j)) \<and>
     (\<forall>i. is_phase s Running i \<and> qo_inner (mq_op s i) = None \<longrightarrow> qo_rest (mq_op s i) = [])"

definition mq_inv :: "queue_state \<Rightarrow> bool" where
  "mq_inv s \<longleftrightarrow> registration_inv s \<and> queues_inv s \<and> chain_inv s \<and> order_inv s \<and> inner_inv s"

lemma mq_inv_init: "mq_inv mq_init"
  by (simp add: mq_inv_def registration_inv_def queues_inv_def chain_inv_def order_inv_def inner_inv_def has_key_def
      is_phase_def mq_init_def registered_def)

lemma chain_facts:
  assumes "mq_inv s" "has_key s k j"
  shows "qo_current (mq_op s j) = Some i \<Longrightarrow> i < j \<and> has_key s k i \<and> (\<forall>l. has_key s k l \<and> l < j \<longrightarrow> l \<le> i)"
    and "qo_current (mq_op s j) = None \<Longrightarrow> has_key s k i \<Longrightarrow> i < j \<Longrightarrow> is_phase s Settled i"
  using assms unfolding mq_inv_def chain_inv_def by blast+

lemma queue_facts:
  assumes "mq_inv s"
  shows "jm_get (mq_queues s) k = Some j \<Longrightarrow> has_key s k j \<and> \<not> is_phase s Settled j \<and> (\<forall>i. has_key s k i \<longrightarrow> i \<le> j)"
    and "jm_get (mq_queues s) k = None \<Longrightarrow> has_key s k i \<Longrightarrow> is_phase s Settled i"
  using assms unfolding mq_inv_def queues_inv_def by blast+

lemma order_facts:
  assumes "mq_inv s" "has_key s k j" "has_key s k i" "i < j"
  shows "is_phase s Running j \<Longrightarrow> is_phase s Settled i" "is_phase s Settled j \<Longrightarrow> is_phase s Settled i"
  using assms unfolding mq_inv_def order_inv_def earlier_settled_def by blast+

lemma inner_facts:
  assumes "mq_inv s"
  shows "i < length (mq_ops s) \<Longrightarrow> qo_inner (mq_op s i) = Some j \<Longrightarrow>
      i < j \<and> j < length (mq_ops s) \<and> qo_rest (mq_op s i) = qo_path (mq_op s j) # qo_rest (mq_op s j) \<and>
      (is_phase s Settled i \<longrightarrow> is_phase s Settled j)"
    and "is_phase s Running i \<Longrightarrow> qo_inner (mq_op s i) = None \<Longrightarrow> qo_rest (mq_op s i) = []"
  using assms unfolding mq_inv_def inner_inv_def by blast+

lemma inner_invI:
  assumes "\<And>i j. i < length (mq_ops s) \<Longrightarrow> qo_inner (mq_op s i) = Some j \<Longrightarrow>
      i < j \<and> j < length (mq_ops s) \<and> qo_rest (mq_op s i) = qo_path (mq_op s j) # qo_rest (mq_op s j) \<and>
      (is_phase s Settled i \<longrightarrow> is_phase s Settled j)"
    and "\<And>i. is_phase s Running i \<Longrightarrow> qo_inner (mq_op s i) = None \<Longrightarrow> qo_rest (mq_op s i) = []"
  shows "inner_inv s"
  using assms unfolding inner_inv_def by blast

lemma order_invI:
  assumes "\<And>k i j. has_key s k j \<Longrightarrow> has_key s k i \<Longrightarrow> i < j \<Longrightarrow> is_phase s Running j \<or> is_phase s Settled j \<Longrightarrow> is_phase s Settled i"
  shows "order_inv s"
  using assms unfolding order_inv_def earlier_settled_def by blast

lemma chain_inv_mono:
  assumes inv: "mq_inv s"
    and same: "\<And>k j. has_key s' k j \<longleftrightarrow> has_key s k j"
    and cur: "\<And>k j. has_key s k j \<Longrightarrow> qo_current (mq_op s' j) = qo_current (mq_op s j)"
    and mono: "\<And>j. is_phase s Settled j \<Longrightarrow> is_phase s' Settled j"
  shows "chain_inv s'"
  unfolding chain_inv_def same
proof (intro conjI allI impI, goal_cases)
  case (1 k j i) then show ?case using chain_facts(1) [OF inv, of k j i] cur by auto
next
  case (2 k j i) then show ?case using chain_facts(1) [OF inv, of k j i] cur by auto
next
  case (3 k j i l) then show ?case using chain_facts(1) [OF inv, of k j i] cur by auto
next
  case (4 k j i) then show ?case using chain_facts(2) [OF inv, of k j i] cur mono by auto
qed

lemma has_key_unique: "has_key s k j \<Longrightarrow> has_key s k' j \<longleftrightarrow> k' = k"
  by (auto simp: has_key_def)

lemma earlier_settled_iff: "has_key s k j \<Longrightarrow> earlier_settled s j \<longleftrightarrow> (\<forall>i. has_key s k i \<and> i < j \<longrightarrow> is_phase s Settled i)"
  by (auto simp: earlier_settled_def has_key_unique)

lemma settled_chain:
  assumes "mq_inv s" "has_key s k j" "is_phase s Settled j"
  shows "chain_settled (mq_ops s) j"
  using assms(2,3)
proof (induction j rule: less_induct)
  case (less j)
  have "i < j \<and> chain_settled (mq_ops s) i" if cur: "qo_current (mq_op s j) = Some i" for i
  proof -
    from chain_facts(1) [OF assms(1) less.prems(1) cur] have i: "i < j" "has_key s k i" by blast+
    from assms(1) less.prems(2) have "earlier_settled s j" by (simp add: mq_inv_def order_inv_def)
    with i have "is_phase s Settled i" by (simp add: earlier_settled_iff [OF less.prems(1)])
    with i less.IH show ?thesis by blast
  qed
  then show ?case using less.prems
    by (subst chain_settled.simps) (auto simp: has_key_def is_phase_def split: option.splits)
qed

lemma may_start_iff:
  assumes "mq_inv s" "has_key s k j"
  shows "may_start s j \<longleftrightarrow> earlier_settled s j"
proof (cases "qo_current (mq_op s j)")
  case None
  then show ?thesis
    using chain_facts(2) [OF assms None] by (simp add: may_start_def earlier_settled_iff [OF assms(2)])
next
  case (Some i)
  from chain_facts(1) [OF assms Some] have i: "i < j" "has_key s k i" "\<And>l. has_key s k l \<Longrightarrow> l < j \<Longrightarrow> l \<le> i"
    by blast+
  show ?thesis
  proof
    assume "may_start s j"
    then have settled: "is_phase s Settled i" using Some by (simp add: may_start_def chain_settled.simps is_phase_def)
    then have "earlier_settled s i" using assms(1) by (simp add: mq_inv_def order_inv_def)
    then have "is_phase s Settled l" if "has_key s k l" "l < j" for l
      using settled i(3) [OF that] that(1) by (cases "l = i") (auto simp: earlier_settled_iff [OF i(2)])
    then show "earlier_settled s j" by (simp add: earlier_settled_iff [OF assms(2)])
  next
    assume "earlier_settled s j"
    then have "is_phase s Settled i" using i by (simp add: earlier_settled_iff [OF assms(2)])
    then show "may_start s j" using settled_chain [OF assms(1) i(2)] Some by (simp add: may_start_def)
  qed
qed


subsection \<open>Every step keeps the invariant\<close>

lemma length_update_op [simp]: "length (mq_ops (update_op i f s)) = length (mq_ops s)"
  by (simp add: update_op_def)

lemma mq_op_update [simp]:
  "i < length (mq_ops s) \<Longrightarrow> mq_ops (update_op i f s) ! j = (if j = i then f (mq_op s i) else mq_op s j)"
  by (simp add: update_op_def nth_list_update)

lemma update_op_fields [simp]:
  "mq_registration (update_op i f s) = mq_registration s" "mq_queues (update_op i f s) = mq_queues s"
  by (simp_all add: update_op_def)

lemma called_fields [simp]:
  "length (mq_ops (withFileMutationQueue path rest s)) = Suc (length (mq_ops s))"
  "mq_registration (withFileMutationQueue path rest s) = mq_registration s @ [length (mq_ops s)]"
  "mq_queues (withFileMutationQueue path rest s) = mq_queues s"
  by (simp_all add: withFileMutationQueue_def)

lemma mq_op_called:
  "mq_ops (withFileMutationQueue path rest s) ! j =
     (if j < length (mq_ops s) then mq_op s j
      else ([\<lparr>qo_path = path, qo_rest = rest, qo_phase = Registering, qo_key = None, qo_current = None, qo_inner = None\<rparr>] !
              (j - length (mq_ops s))))"
  by (simp add: withFileMutationQueue_def nth_append)

lemma has_key_called [simp]: "has_key (withFileMutationQueue path rest s) k i \<longleftrightarrow> has_key s k i"
  by (auto simp: has_key_def mq_op_called less_Suc_eq)

lemma is_phase_called [simp]:
  "is_phase (withFileMutationQueue path rest s) p i \<longleftrightarrow> is_phase s p i \<or> p = Registering \<and> i = length (mq_ops s)"
  by (auto simp: is_phase_def mq_op_called less_Suc_eq)

lemma has_key_less: "has_key s k i \<Longrightarrow> i < length (mq_ops s)"
  by (simp add: has_key_def)

lemma is_phase_less: "is_phase s p i \<Longrightarrow> i < length (mq_ops s)"
  by (simp add: is_phase_def)

lemma registration_length: "registration_inv s \<Longrightarrow> length (mq_registration s) \<le> length (mq_ops s)"
  unfolding registration_inv_def by (metis diff_le_self length_upt)

lemma registered_called [simp]: "registered (withFileMutationQueue path rest s) = registered s"
  by (simp add: registered_def)

lemma called_inv: "mq_inv s \<Longrightarrow> mq_inv (withFileMutationQueue path rest s)"
proof -
  assume inv: "mq_inv s"
  let ?s = "withFileMutationQueue path rest s"
  have reg: "registration_inv s" using inv by (simp add: mq_inv_def)
  have le: "registered s \<le> length (mq_ops s)" by (simp add: registered_def)
  have "registration_inv ?s"
    using reg le unfolding registration_inv_def by (auto simp: mq_op_called less_Suc_eq)
  moreover have "queues_inv ?s" using inv by (simp add: mq_inv_def queues_inv_def)
  moreover have "chain_inv ?s"
    by (rule chain_inv_mono [OF inv]) (auto simp: mq_op_called dest: has_key_less)
  moreover have "order_inv ?s" using order_facts [OF inv] by (intro order_invI) auto
  moreover have "inner_inv ?s"
  proof (rule inner_invI, goal_cases)
    case (1 i j)
    then have "i < length (mq_ops s)" "qo_inner (mq_op s i) = Some j"
      by (auto simp: mq_op_called less_Suc_eq split: if_splits)
    from inner_facts(1) [OF inv this] this show ?case by (simp add: mq_op_called)
  next
    case (2 i)
    then have "is_phase s Running i" by simp
    with 2 inner_facts(2) [OF inv this] is_phase_less [OF this] show ?case by (simp add: mq_op_called)
  qed
  ultimately show ?thesis by (simp add: mq_inv_def)
qed

lemma phase_changed:
  "i < length (mq_ops s) \<Longrightarrow> is_phase (update_op i (qo_phase_update (\<lambda>_. q)) s) p j \<longleftrightarrow> (if j = i then p = q else is_phase s p j)"
  "i < length (mq_ops s) \<Longrightarrow> has_key (update_op i (qo_phase_update f) s) k j \<longleftrightarrow> has_key s k j"
  by (auto simp: is_phase_def has_key_def)

lemma release_fields:
  assumes "i < length (mq_ops s)"
  shows "mq_ops (release_mutation i s) = mq_ops (update_op i (qo_phase_update (\<lambda>_. Settled)) s)"
    "mq_registration (release_mutation i s) = mq_registration s"
    "jm_get (mq_queues (release_mutation i s)) k = (if jm_get (mq_queues s) k = Some i \<and> has_key s k i then None else jm_get (mq_queues s) k)"
  using assms by (auto simp: release_mutation_def Let_def has_key_def split: option.splits)

lemma release_keys:
  assumes "i < length (mq_ops s)"
  shows "has_key (release_mutation i s) k j \<longleftrightarrow> has_key s k j" "is_phase (release_mutation i s) p j \<longleftrightarrow> (if j = i then p = Settled else is_phase s p j)"
  using assms by (auto simp: has_key_def is_phase_def release_fields)

lemma release_inv:
  assumes inv: "mq_inv s" and i: "is_phase s Running i" "body_done s i"
  shows "mq_inv (release_mutation i s)"
proof -
  let ?s = "release_mutation i s"
  have lt: "i < length (mq_ops s)" using i(1) by (simp add: is_phase_def)
  note fields = release_fields [OF lt] release_keys [OF lt]
  have settled_mono: "is_phase ?s Settled j" if "is_phase s Settled j" for j using that by (simp add: fields)
  have earlier: "is_phase s Settled j" if "has_key s k i" "has_key s k j" "j < i" for k j
    using inv i(1) that by (auto simp: mq_inv_def order_inv_def earlier_settled_iff [OF that(1)])
  have "registered ?s = registered s" by (simp add: registered_def fields)
  then have "registration_inv ?s"
    using inv i(1) lt by (auto simp: mq_inv_def registration_inv_def fields is_phase_def)
  moreover have "queues_inv ?s"
    unfolding queues_inv_def
  proof (intro conjI allI impI, goal_cases)
    case (3 k j i') then show ?case using queue_facts(1) [OF inv] by (auto simp: fields split: if_splits)
  next
    case (4 k j)
    then show ?case using queue_facts [OF inv, of k] earlier [of k j] by (auto simp: fields le_less split: if_splits)
  qed (use queue_facts(1) [OF inv] in \<open>auto simp: fields split: if_splits\<close>)
  moreover have "chain_inv ?s"
    by (rule chain_inv_mono [OF inv]) (use lt settled_mono in \<open>simp_all add: fields\<close>)
  moreover have "order_inv ?s"
    using order_facts [OF inv] i(1) by (intro order_invI) (auto simp: fields split: if_splits)
  moreover have "inner_inv ?s"
  proof (rule inner_invI, goal_cases)
    case (1 a j)
    then have a: "a < length (mq_ops s)" "qo_inner (mq_op s a) = Some j" using lt by (simp_all add: fields split: if_splits)
    have "is_phase s Settled j" if "a = i" using i(2) that a inner_facts(1) [OF inv a] by (simp add: body_done_def is_phase_def)
    with inner_facts(1) [OF inv a] lt show ?case by (auto simp: fields)
  next
    case (2 a)
    then have "is_phase s Running a" "qo_inner (mq_op s a) = None" using lt by (auto simp: fields split: if_splits)
    from inner_facts(2) [OF inv this] lt show ?case by (auto simp: fields)
  qed
  ultimately show ?thesis by (simp add: mq_inv_def)
qed


lemma start_fields:
  assumes "i < length (mq_ops s)"
  shows "length (mq_ops (start_body i s)) = length (mq_ops s) + (if qo_rest (mq_op s i) = [] then 0 else 1)"
    "j < length (mq_ops s) \<Longrightarrow> mq_op (start_body i s) j =
       (if j = i
        then (mq_op s i)\<lparr>qo_phase := Running,
               qo_inner := if qo_rest (mq_op s i) = [] then qo_inner (mq_op s i) else Some (length (mq_ops s))\<rparr>
        else mq_op s j)"
    "qo_rest (mq_op s i) \<noteq> [] \<Longrightarrow> mq_op (start_body i s) (length (mq_ops s)) =
       \<lparr>qo_path = hd (qo_rest (mq_op s i)), qo_rest = tl (qo_rest (mq_op s i)), qo_phase = Registering, qo_key = None,
        qo_current = None, qo_inner = None\<rparr>"
    "mq_registration (start_body i s) =
       mq_registration s @ (if qo_rest (mq_op s i) = [] then [] else [length (mq_ops s)])"
    "mq_queues (start_body i s) = mq_queues s"
  using assms by (auto simp: start_body_def Let_def mq_op_called split: list.splits)

lemma start_keys:
  assumes "i < length (mq_ops s)"
  shows "has_key (start_body i s) k j \<longleftrightarrow> has_key s k j"
    "is_phase (start_body i s) p j \<longleftrightarrow>
       (if j = i then p = Running else is_phase s p j) \<or> qo_rest (mq_op s i) \<noteq> [] \<and> p = Registering \<and> j = length (mq_ops s)"
proof -
  consider "j < length (mq_ops s)" | "j = length (mq_ops s)" | "length (mq_ops s) < j" by linarith
  then show "has_key (start_body i s) k j \<longleftrightarrow> has_key s k j"
    "is_phase (start_body i s) p j \<longleftrightarrow>
       (if j = i then p = Running else is_phase s p j) \<or> qo_rest (mq_op s i) \<noteq> [] \<and> p = Registering \<and> j = length (mq_ops s)"
    using assms by (cases; auto simp: has_key_def is_phase_def start_fields [OF assms])+
qed

lemma registration_facts:
  assumes "mq_inv s" "i < length (mq_ops s)"
  shows "qo_phase (mq_op s i) = Registering \<longleftrightarrow> registered s \<le> i"
    "qo_phase (mq_op s i) = Registering \<Longrightarrow> qo_key (mq_op s i) = None"
    "qo_phase (mq_op s i) = Waiting \<or> qo_phase (mq_op s i) = Running \<Longrightarrow> qo_key (mq_op s i) \<noteq> None"
    "qo_phase (mq_op s i) = Waiting \<or> qo_phase (mq_op s i) = Registering \<Longrightarrow> qo_inner (mq_op s i) = None"
    "mq_registration s = [registered s..<length (mq_ops s)]"
  using assms unfolding mq_inv_def registration_inv_def by blast+

lemma registration_invI:
  assumes "mq_registration s = [registered s..<length (mq_ops s)]"
    and "\<And>i. i < length (mq_ops s) \<Longrightarrow> (qo_phase (mq_op s i) = Registering \<longleftrightarrow> registered s \<le> i) \<and>
        (qo_phase (mq_op s i) = Registering \<longrightarrow> qo_key (mq_op s i) = None) \<and>
        (qo_phase (mq_op s i) = Waiting \<or> qo_phase (mq_op s i) = Running \<longrightarrow> qo_key (mq_op s i) \<noteq> None) \<and>
        (qo_phase (mq_op s i) = Waiting \<or> qo_phase (mq_op s i) = Registering \<longrightarrow> qo_inner (mq_op s i) = None)"
  shows "registration_inv s"
  using assms unfolding registration_inv_def by blast

lemma keyed_registered: "mq_inv s \<Longrightarrow> has_key s k j \<Longrightarrow> j < registered s"
  using registration_facts(1,2) [of s j] by (force simp: has_key_def not_le)

lemma start_inv:
  assumes inv: "mq_inv s" and i: "is_phase s Waiting i" "may_start s i"
  shows "mq_inv (start_body i s)"
proof -
  let ?s = "start_body i s" and ?n = "length (mq_ops s)"
  have lt: "i < ?n" using i(1) by (simp add: is_phase_def)
  note fields = start_fields [OF lt] start_keys [OF lt]
  have phase: "qo_phase (mq_op s i) = Waiting" using i(1) by (simp add: is_phase_def)
  then have inner: "qo_inner (mq_op s i) = None" "qo_key (mq_op s i) \<noteq> None" "i < registered s"
    using registration_facts [OF inv lt] by auto
  have regd: "registered ?s = registered s" "registered s \<le> ?n" by (simp_all add: registered_def fields)
  have "registration_inv ?s"
  proof (rule registration_invI, goal_cases)
    case 1
    then show ?case using registration_facts(5) [OF inv lt] regd by (simp add: fields)
  next
    case (2 j)
    show ?case
    proof (cases "j < ?n")
      case True
      with registration_facts [OF inv True] inner phase show ?thesis by (auto simp: fields regd)
    next
      case False
      with 2 have "j = ?n" "qo_rest (mq_op s i) \<noteq> []" by (auto simp: fields split: if_splits)
      then show ?thesis using regd by (simp add: fields)
    qed
  qed
  moreover have "queues_inv ?s"
    unfolding queues_inv_def
  proof (intro conjI allI impI, goal_cases)
    case (2 k j)
    then show ?case using queue_facts(1) [OF inv, of k j] by (auto simp: fields)
  next
    case (4 k j)
    then have "is_phase s Settled j" using queue_facts(2) [OF inv, of k j] by (simp add: fields)
    then show ?case using phase by (auto simp: fields is_phase_def)
  qed (use queue_facts(1) [OF inv] in \<open>auto simp: fields\<close>)
  moreover have "chain_inv ?s"
    by (rule chain_inv_mono [OF inv]) (use lt phase in \<open>auto simp: fields is_phase_def dest: has_key_less\<close>)
  moreover have "order_inv ?s"
  proof (rule order_invI, goal_cases)
    case (1 k a j)
    have "is_phase s Settled a"
    proof (cases "j = i")
      case True
      with 1 i(2) show ?thesis
        using may_start_iff [OF inv, of k i] earlier_settled_iff [of s k i] by (auto simp: fields)
    next
      case False
      with 1 order_facts [OF inv, of k j a] show ?thesis by (auto simp: fields)
    qed
    then show ?case using phase by (auto simp: fields is_phase_def)
  qed
  moreover have "inner_inv ?s"
  proof (rule inner_invI, goal_cases)
    case (1 a j)
    show ?case
    proof (cases "a = i")
      case True
      with 1 lt inner(1) have "j = ?n" "qo_rest (mq_op s i) \<noteq> []" by (auto simp: fields split: if_splits)
      with True lt show ?thesis by (simp add: fields)
    next
      case False
      with 1 have a: "a < ?n" "qo_inner (mq_op s a) = Some j"
        by (cases "a < ?n"; auto simp: fields less_Suc_eq split: if_splits)+
      from inner_facts(1) [OF inv a] have "j < ?n" by simp
      with inner_facts(1) [OF inv a] False a phase show ?thesis by (auto simp: fields is_phase_def)
    qed
  next
    case (2 a)
    show ?case
    proof (cases "a = i")
      case True
      with 2 lt show ?thesis by (auto simp: fields split: if_splits)
    next
      case False
      with 2 have "is_phase s Running a" by (auto simp: fields)
      with 2 False inner_facts(2) [OF inv this] is_phase_less [OF this] show ?thesis by (auto simp: fields)
    qed
  qed
  ultimately show ?thesis by (simp add: mq_inv_def)
qed


lemma register_fields:
  assumes "i < length (mq_ops s)"
  shows "length (mq_ops (register_mutation i answer s)) = length (mq_ops s)"
    "mq_op (register_mutation i answer s) j =
       (if j = i
        then (case getMutationQueueKey (qo_path (mq_op s i)) answer of
                None \<Rightarrow> (mq_op s i)\<lparr>qo_phase := Settled\<rparr>
              | Some key \<Rightarrow> (mq_op s i)\<lparr>qo_phase := Waiting, qo_key := Some key, qo_current := jm_get (mq_queues s) key\<rparr>)
        else mq_op s j)"
    "mq_registration (register_mutation i answer s) = tl (mq_registration s)"
    "jm_get (mq_queues (register_mutation i answer s)) k =
       (if getMutationQueueKey (qo_path (mq_op s i)) answer = Some k then Some i else jm_get (mq_queues s) k)"
  using assms by (auto simp: register_mutation_def Let_def update_op_def nth_list_update split: option.splits)

lemma register_inv:
  assumes inv: "mq_inv s" and i: "mq_registration s = i # is"
  shows "mq_inv (register_mutation i answer s)"
proof -
  let ?s = "register_mutation i answer s" and ?n = "length (mq_ops s)"
  let ?key = "getMutationQueueKey (qo_path (mq_op s i)) answer"
  have upt: "mq_registration s = [registered s..<?n]" using inv by (simp add: mq_inv_def registration_inv_def)
  with i have first: "i = registered s" "i < ?n" by (metis upt_eq_Cons_conv)+
  note fields = register_fields [OF first(2)]
  have old: "qo_phase (mq_op s i) = Registering" "qo_key (mq_op s i) = None" "qo_inner (mq_op s i) = None"
    using registration_facts [OF inv first(2)] first by auto
  have "length (mq_registration s) = ?n - i" using upt first by simp
  then have regd: "registered ?s = Suc i" using first(2) unfolding registered_def fields by simp
  have keys: "has_key ?s k j \<longleftrightarrow> (if j = i then ?key = Some k else has_key s k j)" for k j
    using first(2) old by (auto simp: has_key_def fields split: option.splits)
  have phases: "is_phase ?s p j \<longleftrightarrow> (if j = i then p = (if ?key = None then Settled else Waiting) else is_phase s p j)" for p j
    using first(2) by (auto simp: is_phase_def fields split: option.splits)
  have before: "j < i" if "has_key s k j" for k j using keyed_registered [OF inv that] first by simp
  have "registration_inv ?s"
  proof (rule registration_invI, goal_cases)
    case 1
    show ?case unfolding fields regd upt first(1) [symmetric] by (simp add: tl_upt)
  next
    case (2 j)
    then have j: "j < ?n" by (simp add: fields)
    show ?case
    proof (cases "j = i")
      case True
      then show ?thesis using old(3) unfolding fields regd by (auto split: option.splits)
    next
      case False
      then have "registered s \<le> j \<longleftrightarrow> Suc i \<le> j" unfolding first(1) [symmetric] by auto
      with False registration_facts [OF inv j] show ?thesis unfolding fields regd by auto
    qed
  qed
  moreover have "queues_inv ?s"
    unfolding queues_inv_def
  proof (intro conjI allI impI, goal_cases)
    case (1 k j) then show ?case using queue_facts(1) [OF inv, of k j] before by (auto simp: fields keys split: if_splits)
  next
    case (2 k j) then show ?case using queue_facts(1) [OF inv, of k j] before by (auto simp: fields phases split: if_splits)
  next
    case (3 k j a) then show ?case using queue_facts(1) [OF inv, of k j] before by (force simp: fields keys split: if_splits)
  next
    case (4 k j) then show ?case using queue_facts(2) [OF inv, of k j] by (auto simp: fields keys phases split: if_splits)
  qed
  moreover have "chain_inv ?s"
    unfolding chain_inv_def
  proof (intro conjI allI impI, goal_cases)
    case (1 k j a) then show ?case using chain_facts(1) [OF inv, of k j a] queue_facts(1) [OF inv, of k a] before
      by (auto simp: keys fields split: if_splits option.splits)
  next
    case (2 k j a) then show ?case using chain_facts(1) [OF inv, of k j a] queue_facts(1) [OF inv, of k a] before
      by (auto simp: keys fields split: if_splits option.splits)
  next
    case (3 k j a l) then show ?case
      using chain_facts(1) [OF inv, of k j a] queue_facts(1) [OF inv, of k a] before [of k j] before [of k l]
      by (auto simp: keys fields split: if_splits option.splits)
  next
    case (4 k j a) then show ?case
      using chain_facts(2) [OF inv, of k j a] queue_facts(2) [OF inv, of k a] before [of k j] before [of k a]
      by (auto simp: keys fields phases split: if_splits option.splits)
  qed
  moreover have "order_inv ?s"
  proof (rule order_invI, goal_cases)
    case (1 k a j)
    then have "j \<noteq> i" by (auto simp: keys phases split: if_splits)
    with 1 order_facts [OF inv, of k j a] before [of k j] show ?case by (auto simp: keys phases split: if_splits)
  qed
  moreover have "inner_inv ?s"
  proof (rule inner_invI, goal_cases)
    case (1 a j)
    then have a: "a < ?n" "a \<noteq> i" "qo_inner (mq_op s a) = Some j" using old by (auto simp: fields split: if_splits option.splits)
    from inner_facts(1) [OF inv a(1,3)] a old(1) show ?case by (auto simp: fields phases is_phase_def split: option.splits)
  next
    case (2 a)
    then have "a \<noteq> i" "is_phase s Running a" by (auto simp: phases split: if_splits)
    with 2 inner_facts(2) [OF inv this(2)] show ?case by (simp add: fields)
  qed
  ultimately show ?thesis by (simp add: mq_inv_def)
qed

lemma mq_step_inv: "mq_step s ev = Some s' \<Longrightarrow> mq_inv s \<Longrightarrow> mq_inv s'"
  by (auto simp: mq_step_def withFileMutationQueues_def is_phase_def intro: called_inv register_inv start_inv release_inv
      split: mq_event.splits list.splits if_splits)

lemma mq_run_inv: "mq_run s evs = Some s' \<Longrightarrow> mq_inv s \<Longrightarrow> mq_inv s'"
  by (induction s evs rule: mq_run.induct) (auto split: option.splits dest: mq_step_inv)


subsection \<open>Exclusion and order\<close>

text \<open>The contract of a lock that serves its claims in order, and what its users have of it.\<close>

locale served_in_order =
  fixes reachable :: "'s \<Rightarrow> bool" and claims :: "'s \<Rightarrow> 'k \<Rightarrow> 'i::linorder \<Rightarrow> bool"
    and holding :: "'s \<Rightarrow> 'i \<Rightarrow> bool" and over :: "'s \<Rightarrow> 'i \<Rightarrow> bool"
  assumes in_order: "reachable s \<Longrightarrow> claims s k i \<Longrightarrow> claims s k j \<Longrightarrow> i < j \<Longrightarrow> holding s j \<Longrightarrow> over s i"
    and holding_not_over: "holding s i \<Longrightarrow> \<not> over s i"
begin

lemma one_holder:
  assumes "reachable s" "claims s k i" "claims s k j" "holding s i" "holding s j"
  shows "i = j"
  using assms in_order [of s k i j] in_order [of s k j i] holding_not_over by (cases i j rule: linorder_cases) auto

lemma first_holder:
  assumes "reachable s" "claims s k i" "claims s k j" "holding s i" "\<not> over s j"
  shows "i \<le> j"
  using assms in_order [of s k j i] by (meson not_le)

end

interpretation mutations: served_in_order mq_inv has_key "\<lambda>s. is_phase s Running" "\<lambda>s. is_phase s Settled"
  by unfold_locales (use order_facts in blast, simp add: is_phase_def)


definition demo_file :: jstr where
  "demo_file = js ''/f''"


subsection \<open>Progress\<close>

definition is_call :: "mq_event \<Rightarrow> bool" where
  "is_call ev \<longleftrightarrow> (case ev of Called paths \<Rightarrow> True | _ \<Rightarrow> False)"

text \<open>A path that is its own key: no link on the way.\<close>

definition unlinked :: "queue_op \<Rightarrow> bool" where
  "unlinked x \<longleftrightarrow> qo_key x = None \<or> qo_key x = Some (qo_path x)"

definition task_sorted :: "queue_state \<Rightarrow> bool" where
  "task_sorted s \<longleftrightarrow> (\<forall>i<length (mq_ops s). sorted_wrt (<) (qo_path (mq_op s i) # qo_rest (mq_op s i)))"

definition op_work :: "queue_op \<Rightarrow> nat" where
  "op_work x =
     (case qo_phase x of Registering \<Rightarrow> 3 + 3 * length (qo_rest x) | Waiting \<Rightarrow> 2 + 3 * length (qo_rest x) | Running \<Rightarrow> 1 | Settled \<Rightarrow> 0)"

definition mutation_work :: "queue_state \<Rightarrow> nat" where
  "mutation_work s = (\<Sum>x\<leftarrow>mq_ops s. op_work x)"

lemma sorted_takeWhile_wrt: "sorted_wrt P xs \<Longrightarrow> sorted_wrt P (takeWhile Q xs)"
  by (metis sorted_wrt_append takeWhile_dropWhile_id)

lemma task_sorted_called: "task_sorted s \<Longrightarrow> sorted_wrt (<) (path # rest) \<Longrightarrow> task_sorted (withFileMutationQueue path rest s)"
  by (auto simp: task_sorted_def mq_op_called less_Suc_eq)

lemma task_sorted_step: "mq_step s ev = Some s' \<Longrightarrow> task_sorted s \<Longrightarrow> mq_inv s \<Longrightarrow> task_sorted s'"
proof (cases ev)
  case (Called paths)
  assume s: "mq_step s ev = Some s'" "task_sorted s"
  let ?l = "takeWhile (\<lambda>p. p \<noteq> []) (sort (remdups paths))"
  have "sorted_wrt (<) ?l" by (intro sorted_takeWhile_wrt) (simp add: strict_sorted_iff)
  with s Called show ?thesis by (auto simp: mq_step_def withFileMutationQueues_def intro!: task_sorted_called split: list.splits)
next
  case (Registered i answer)
  assume s: "mq_step s ev = Some s'" "task_sorted s" "mq_inv s"
  with Registered have i: "mq_registration s = i # tl (mq_registration s)" "s' = register_mutation i answer s"
    by (auto simp: mq_step_def split: list.splits if_splits)
  moreover have "i < length (mq_ops s)" using i(1) s(3) by (auto simp: mq_inv_def registration_inv_def dest: upt_eq_Cons_conv [THEN iffD1])
  ultimately show ?thesis using s(2) by (auto simp: task_sorted_def register_fields split: option.splits)
next
  case (Started i)
  assume s: "mq_step s ev = Some s'" "task_sorted s"
  with Started have i: "i < length (mq_ops s)" "s' = start_body i s" by (auto simp: mq_step_def split: if_splits)
  show ?thesis
    unfolding task_sorted_def i(2)
  proof (intro allI impI)
    fix j assume j: "j < length (mq_ops (start_body i s))"
    show "sorted_wrt (<) (qo_path (mq_op (start_body i s) j) # qo_rest (mq_op (start_body i s) j))"
    proof (cases "j < length (mq_ops s)")
      case True
      with s(2) show ?thesis by (simp add: task_sorted_def start_fields [OF i(1)])
    next
      case False
      with j have n: "j = length (mq_ops s)" "qo_rest (mq_op s i) \<noteq> []" by (auto simp: start_fields [OF i(1)] split: if_splits)
      have "sorted_wrt (<) (qo_rest (mq_op s i))" using s(2) i(1) by (simp add: task_sorted_def)
      with n show ?thesis by (cases "qo_rest (mq_op s i)") (simp_all add: start_fields [OF i(1)])
    qed
  qed
next
  case (Finished i)
  assume s: "mq_step s ev = Some s'" "task_sorted s"
  with Finished have i: "i < length (mq_ops s)" "s' = release_mutation i s" by (auto simp: mq_step_def split: if_splits)
  with s(2) show ?thesis by (simp add: task_sorted_def release_fields)
qed

lemma task_sorted_run: "mq_run s evs = Some s' \<Longrightarrow> task_sorted s \<Longrightarrow> mq_inv s \<Longrightarrow> task_sorted s'"
  by (induction s evs rule: mq_run.induct) (auto split: option.splits dest: mq_step_inv task_sorted_step)


lemma work_update:
  "i < length (mq_ops s) \<Longrightarrow> mutation_work (update_op i f s) + op_work (mq_op s i) = mutation_work s + op_work (f (mq_op s i))"
proof -
  assume i: "i < length (mq_ops s)"
  then have "mq_ops s = take i (mq_ops s) @ mq_op s i # drop (Suc i) (mq_ops s)" by (rule id_take_nth_drop)
  then have "mutation_work s = (\<Sum>x\<leftarrow>take i (mq_ops s). op_work x) + op_work (mq_op s i) + (\<Sum>x\<leftarrow>drop (Suc i) (mq_ops s). op_work x)"
    unfolding mutation_work_def by (metis map_append list.simps(9) sum_list.append sum_list.Cons add.assoc)
  moreover have "mutation_work (update_op i f s) = (\<Sum>x\<leftarrow>take i (mq_ops s). op_work x) + op_work (f (mq_op s i)) + (\<Sum>x\<leftarrow>drop (Suc i) (mq_ops s). op_work x)"
    using i by (simp add: mutation_work_def update_op_def upd_conv_take_nth_drop)
  ultimately show ?thesis by simp
qed

lemma work_called: "mutation_work (withFileMutationQueue path rest s) = mutation_work s + 3 + 3 * length rest"
  by (simp add: mutation_work_def withFileMutationQueue_def op_work_def)

lemma work_cong [simp]: "mutation_work (s\<lparr>mq_registration := r\<rparr>) = mutation_work s" "mutation_work (s\<lparr>mq_queues := q\<rparr>) = mutation_work s"
  by (simp_all add: mutation_work_def)

lemma work_step: "mq_step s ev = Some s' \<Longrightarrow> mq_inv s \<Longrightarrow> \<not> is_call ev \<Longrightarrow> mutation_work s' < mutation_work s"
proof (cases ev)
  case (Registered i answer)
  assume s: "mq_step s ev = Some s'" "mq_inv s"
  with Registered have i: "mq_registration s = i # tl (mq_registration s)" "s' = register_mutation i answer s"
    by (auto simp: mq_step_def split: list.splits if_splits)
  moreover have "i < length (mq_ops s)" "registered s = i"
    using i(1) s(2) by (auto simp: mq_inv_def registration_inv_def dest: upt_eq_Cons_conv [THEN iffD1])
  moreover have "op_work (mq_op s i) = 3 + 3 * length (qo_rest (mq_op s i))"
    using registration_facts(1) [OF s(2), of i] calculation(3,4) by (simp add: op_work_def)
  moreover define f where "f x = (case getMutationQueueKey (qo_path (mq_op s i)) answer of
      None \<Rightarrow> x\<lparr>qo_phase := Settled\<rparr>
    | Some key \<Rightarrow> x\<lparr>qo_phase := Waiting, qo_key := Some key, qo_current := jm_get (mq_queues s) key\<rparr>)" for x :: queue_op
  moreover have "mq_ops (register_mutation i answer s) = mq_ops (update_op i f s)"
    using calculation(3) by (intro nth_equalityI) (auto simp: register_fields f_def split: option.split)
  moreover from this have "mutation_work s' = mutation_work (update_op i f s)" using i(2) by (simp add: mutation_work_def)
  moreover have "op_work (f (mq_op s i)) < 3 + 3 * length (qo_rest (mq_op s i))"
    by (simp add: f_def op_work_def split: option.split)
  ultimately show ?thesis using work_update [of i s f] by linarith
next
  case (Started i)
  assume s: "mq_step s ev = Some s'"
  with Started have i: "i < length (mq_ops s)" "s' = start_body i s" "qo_phase (mq_op s i) = Waiting"
    by (auto simp: mq_step_def split: if_splits)
  let ?s = "update_op i (qo_phase_update (\<lambda>_. Running)) s"
  have one: "mutation_work ?s + 2 + 3 * length (qo_rest (mq_op s i)) = mutation_work s + 1"
    using work_update [OF i(1), of "qo_phase_update (\<lambda>_. Running)"] i(3) by (simp add: op_work_def)
  show ?thesis
  proof (cases "qo_rest (mq_op s i)")
    case Nil
    with one show ?thesis by (simp add: i(2) start_body_def)
  next
    case (Cons path rest)
    have "mutation_work (update_op i (qo_inner_update f) ?s) = mutation_work ?s" for f
      using work_update [of i ?s "qo_inner_update f"] i(1) by (simp add: op_work_def)
    with one Cons show ?thesis by (simp add: i(2) start_body_def Let_def work_called)
  qed
next
  case (Finished i)
  assume s: "mq_step s ev = Some s'"
  with Finished have i: "i < length (mq_ops s)" "s' = release_mutation i s" "qo_phase (mq_op s i) = Running"
    by (auto simp: mq_step_def split: if_splits)
  have "mutation_work s' = mutation_work (update_op i (qo_phase_update (\<lambda>_. Settled)) s)" by (simp add: i mutation_work_def release_fields)
  with work_update [OF i(1), of "qo_phase_update (\<lambda>_. Settled)"] i(3) show ?thesis by (simp add: op_work_def)
qed (simp add: is_call_def)

lemma work_run: "mq_run s evs = Some s' \<Longrightarrow> mq_inv s \<Longrightarrow> list_all (\<lambda>ev. \<not> is_call ev) evs \<Longrightarrow> length evs + mutation_work s' \<le> mutation_work s"
proof (induction s evs rule: mq_run.induct)
  case (2 s ev evs)
  then obtain s1 where s1: "mq_step s ev = Some s1" "mq_run s1 evs = Some s'" by (auto split: option.splits)
  with 2 mq_step_inv [OF s1(1)] work_step [OF s1(1)] show ?case by fastforce
qed simp

lemma finite_maximum:
  fixes f :: "'a \<Rightarrow> 'b::linorder"
  assumes "finite A" "A \<noteq> {}"
  obtains m where "m \<in> A" "\<And>a. a \<in> A \<Longrightarrow> f a \<le> f m"
proof -
  have "Max (f ` A) \<in> f ` A" using assms by (intro Max_in) auto
  then obtain m where "m \<in> A" "Max (f ` A) = f m" by auto
  with that assms(1) Max_ge [of "f ` A"] show thesis by (metis finite_imageI imageI)
qed

lemma mutation_progress:
  assumes inv: "mq_inv s" and sorted: "task_sorted s" and plain: "list_all unlinked (mq_ops s)"
    and busy: "i < length (mq_ops s)" "qo_phase (mq_op s i) \<noteq> Settled"
  shows "\<exists>ev. \<not> is_call ev \<and> mq_step s ev \<noteq> None"
proof (cases "mq_registration s")
  case (Cons r rs)
  then show ?thesis by (intro exI [of _ "Registered r MissingPath"]) (simp add: is_call_def mq_step_def)
next
  case Nil
  let ?U = "{i. is_phase s Waiting i \<or> is_phase s Running i}"
  have all: "registered s = length (mq_ops s)" using Nil by (simp add: registered_def)
  have keyed: "has_key s (qo_path (mq_op s j)) j" if "j \<in> ?U" for j
    using that registration_facts(3) [OF inv, of j] plain
    by (auto simp: is_phase_def has_key_def list_all_length unlinked_def)
  have "finite ?U" by (rule finite_subset [of _ "{..<length (mq_ops s)}"]) (auto simp: is_phase_def)
  moreover have unsettled: "j \<in> ?U" if "j < length (mq_ops s)" "qo_phase (mq_op s j) \<noteq> Settled" for j
    using that registration_facts(1) [OF inv that(1)] all by (cases "qo_phase (mq_op s j)") (auto simp: is_phase_def)
  moreover from this [OF busy] have "?U \<noteq> {}" by blast
  ultimately obtain m where m: "m \<in> ?U" "\<And>j. j \<in> ?U \<Longrightarrow> qo_path (mq_op s j) \<le> qo_path (mq_op s m)"
    using finite_maximum [of ?U "\<lambda>j. qo_path (mq_op s j)"] by blast
  let ?K = "qo_path (mq_op s m)"
  define j where "j = (LEAST j. j \<in> ?U \<and> qo_path (mq_op s j) = ?K)"
  have j: "j \<in> ?U" "qo_path (mq_op s j) = ?K" and least: "\<And>l. l < j \<Longrightarrow> \<not> (l \<in> ?U \<and> qo_path (mq_op s l) = ?K)"
    using LeastI [of "\<lambda>j. j \<in> ?U \<and> qo_path (mq_op s j) = ?K" m] m(1) not_less_Least unfolding j_def by blast+
  have kj: "has_key s ?K j" using keyed [OF j(1)] j(2) by simp
  have lt: "j < length (mq_ops s)" using kj by (rule has_key_less)
  show ?thesis
  proof (cases "is_phase s Waiting j")
    case True
    have "is_phase s Settled l" if "has_key s ?K l" "l < j" for l
    proof (rule ccontr)
      assume "\<not> is_phase s Settled l"
      with that have "l \<in> ?U" using unsettled [of l] by (auto simp: has_key_def is_phase_def)
      moreover from this that have "qo_path (mq_op s l) = ?K" using keyed [of l] by (auto simp: has_key_def)
      ultimately show False using least that(2) by blast
    qed
    then have "may_start s j" using may_start_iff [OF inv kj] earlier_settled_iff [OF kj] by blast
    with True show ?thesis by (intro exI [of _ "Started j"]) (auto simp: is_call_def mq_step_def is_phase_def)
  next
    case False
    then have run: "is_phase s Running j" using j(1) by blast
    have "body_done s j"
    proof (cases "qo_inner (mq_op s j)")
      case (Some n)
      from inner_facts(1) [OF inv lt Some] have n: "n < length (mq_ops s)" "qo_rest (mq_op s j) = qo_path (mq_op s n) # qo_rest (mq_op s n)"
        by blast+
      have "qo_path (mq_op s j) < qo_path (mq_op s n)" using sorted lt n(2) by (auto simp: task_sorted_def)
      then have "n \<notin> ?U" using m(2) j(2) by (metis not_le)
      with unsettled [OF n(1)] Some show ?thesis by (auto simp: body_done_def)
    qed (simp add: body_done_def)
    with run show ?thesis by (intro exI [of _ "Finished j"]) (auto simp: is_call_def mq_step_def is_phase_def)
  qed
qed


text \<open>C10: C0: While no file is reached over a link, mutations never get stuck: between calls only boundedly many
  steps are possible, and as long as some mutation is not over one of them is.  This covers tasks that
  lock several files in turn, because they take them in the order of their paths.
\<close>

theorem mutations_never_get_stuck:
  assumes "mq_run mq_init evs = Some s" "mq_run s evs' = Some s'" "list_all (\<lambda>ev. \<not> is_call ev) evs'"
    and "list_all unlinked (mq_ops s')"
  shows "length evs' \<le> mutation_work s \<and>
    (list_all (\<lambda>x. qo_phase x = Settled) (mq_ops s') \<or> (\<exists>ev. \<not> is_call ev \<and> mq_step s' ev \<noteq> None))"
proof -
  have inv: "mq_inv s" "mq_inv s'" using mq_run_inv [OF assms(1) mq_inv_init] mq_run_inv [OF assms(2)] by blast+
  have "task_sorted mq_init" by (simp add: task_sorted_def mq_init_def)
  from task_sorted_run [OF assms(1) this mq_inv_init] have "task_sorted s'" by (rule task_sorted_run [OF assms(2) _ inv(1)])
  with mutation_progress [OF inv(2) _ assms(4)] have "list_all (\<lambda>x. qo_phase x = Settled) (mq_ops s') \<or> (\<exists>ev. \<not> is_call ev \<and> mq_step s' ev \<noteq> None)"
    by (auto simp: list_all_length)
  with work_run [OF assms(2) inv(1) assms(3)] show ?thesis by simp
qed

definition demo_calls :: "mq_event list" where
  "demo_calls = [Called [js ''/b'', js ''/a''], Called [js ''/b'']]"

definition demo_progress :: "mq_event list" where
  "demo_progress = [Registered 0 MissingPath, Registered 1 MissingPath, Started 0, Started 1, Registered 2 (RealPath (js ''/b''))]"

theorem mutations_never_get_stuck_witness:
  "\<exists>ev. \<not> is_call ev \<and> mq_step (the (mq_run (the (mq_run mq_init demo_calls)) demo_progress)) ev \<noteq> None"
proof -
  let ?s = "the (mq_run mq_init demo_calls)"
  let ?s' = "the (mq_run ?s demo_progress)"
  have "mq_run mq_init demo_calls = Some ?s" by code_simp
  moreover have "mq_run ?s demo_progress = Some ?s'" "list_all (\<lambda>ev. \<not> is_call ev) demo_progress"
    "list_all unlinked (mq_ops ?s')" by code_simp+
  moreover have "\<not> list_all (\<lambda>x. qo_phase x = Settled) (mq_ops ?s')" by code_simp
  ultimately show ?thesis using mutations_never_get_stuck [of demo_calls ?s demo_progress ?s'] by blast
qed

text \<open>A task that edits one file under two names, one of them a link, waits for itself: after the
  first name is locked and the second registered under the same key, nothing can happen any more.
\<close>

theorem linked_names_deadlock:
  assumes "a \<noteq> []" "a < b"
  shows "\<exists>s. mq_run mq_init [Called [a, b], Registered 0 (RealPath file), Started 0, Registered 1 (RealPath file)] = Some s \<and>
    qo_phase (mq_op s 1) = Waiting \<and> (\<forall>ev. \<not> is_call ev \<longrightarrow> mq_step s ev = None)"
proof -
  have sorted: "sort (remdups [a, b]) = [a, b]" using assms by auto
  have "b \<noteq> []" using assms by auto
  then have run: "mq_run mq_init [Called [a, b], Registered 0 (RealPath file), Started 0, Registered 1 (RealPath file)] = Some
      \<lparr>mq_ops =
         [\<lparr>qo_path = a, qo_rest = [b], qo_phase = Running, qo_key = Some file, qo_current = None, qo_inner = Some 1\<rparr>,
          \<lparr>qo_path = b, qo_rest = [], qo_phase = Waiting, qo_key = Some file, qo_current = Some 0, qo_inner = None\<rparr>],
       mq_registration = [], mq_queues = [(file, 1)]\<rparr>"
    using assms(1)
    by (simp add: mq_step_def withFileMutationQueues_def sorted del: sort_key_simps remdups.simps)
      (simp add: mq_step_def withFileMutationQueue_def register_mutation_def getMutationQueueKey_def update_op_def start_body_def
        may_start_def mq_init_def Let_def)
  show ?thesis
    unfolding run
    by (intro exI conjI, rule refl)
      (auto simp: mq_step_def is_call_def may_start_def body_done_def chain_settled.simps less_Suc_eq split: mq_event.split)
qed

theorem linked_names_deadlock_witness:
  "\<exists>s. mq_run mq_init [Called [js ''/a'', js ''/b''], Registered 0 (RealPath demo_file), Started 0, Registered 1 (RealPath demo_file)] = Some s \<and>
    qo_phase (mq_op s 1) = Waiting"
proof -
  have "js ''/a'' \<noteq> []" "js ''/a'' < js ''/b''" by code_simp+
  from linked_names_deadlock [OF this, of demo_file] show ?thesis by blast
qed

end
