(* ===== verification/Json_Text.thy ===== *)
theory Json_Text
  imports Json
begin

text \<open>
  The texts of JSON values: \<open>JSON.stringify(value, null, 2)\<close> and \<open>JSON.parse\<close> (ECMA-262, sections 25.5.1 and
  25.5.2).  The text of a number and the number of a text are the parameters \<open>numText\<close> and \<open>numVal\<close>.
\<close>

subsection \<open>Writing\<close>

abbreviation js_quote :: code_unit where "js_quote \<equiv> 0x22"
abbreviation js_backslash :: code_unit where "js_backslash \<equiv> 0x5C"

definition hex_digit :: "nat \<Rightarrow> code_unit" where
  "hex_digit n = (if n < 10 then of_nat (48 + n) else of_nat (87 + n))"

definition unicode_escape :: "code_unit \<Rightarrow> jstr" where
  "unicode_escape c =
     (let n = unat c
      in [js_backslash, 0x75, hex_digit (n div 4096), hex_digit (n div 256 mod 16), hex_digit (n div 16 mod 16),
          hex_digit (n mod 16)])"

definition quote_unit :: "code_unit \<Rightarrow> jstr" where
  "quote_unit c =
     (if c = 8 then [js_backslash, 0x62] else if c = 9 then [js_backslash, 0x74]
      else if c = 10 then [js_backslash, 0x6E] else if c = 12 then [js_backslash, 0x66]
      else if c = 13 then [js_backslash, 0x72] else if c = js_quote then [js_backslash, js_quote]
      else if c = js_backslash then [js_backslash, js_backslash]
      else if unat c < 0x20 \<or> is_high_surrogate c \<or> is_low_surrogate c then unicode_escape c
      else [c])"

fun quote_units :: "jstr \<Rightarrow> jstr" where
  "quote_units [] = []"
| "quote_units [c] = quote_unit c"
| "quote_units (c # d # s) =
     (if is_high_surrogate c \<and> is_low_surrogate d then c # d # quote_units s else quote_unit c @ quote_units (d # s))"

definition json_quote :: "jstr \<Rightarrow> jstr" where
  "json_quote s = js_quote # quote_units s @ [js_quote]"

definition json_line :: "nat \<Rightarrow> jstr" where
  "json_line indent = js_LF # replicate indent js_space"

definition json_block :: "nat \<Rightarrow> code_unit \<Rightarrow> code_unit \<Rightarrow> jstr list \<Rightarrow> jstr" where
  "json_block indent left right parts =
     (if parts = [] then [left, right]
      else [left] @ json_line (indent + 2) @ js_join (0x2C # json_line (indent + 2)) parts @ json_line indent @ [right])"

function json_pretty :: "(js_num \<Rightarrow> jstr) \<Rightarrow> nat \<Rightarrow> json \<Rightarrow> jstr" where
  "json_pretty numText indent JNull = js ''null''"
| "json_pretty numText indent (JBool b) = (if b then js ''true'' else js ''false'')"
| "json_pretty numText indent (JNum n) = numText n"
| "json_pretty numText indent (JStr s) = json_quote s"
| "json_pretty numText indent (JArr vs) = json_block indent 0x5B 0x5D (map (json_pretty numText (indent + 2)) vs)"
| "json_pretty numText indent (JObj fs) =
     json_block indent 0x7B 0x7D
       (map (\<lambda>(k, v). json_quote k @ [0x3A, js_space] @ json_pretty numText (indent + 2) v) fs)"
  by pat_completeness auto
termination
proof (relation "measure (\<lambda>(_, _, v). size v)")
  fix fs :: "(jstr \<times> json) list" and p k v
  fix numText :: "js_num \<Rightarrow> jstr" and indent :: nat
  assume "p \<in> set fs" "(k, v) = p"
  then show "((numText, indent + 2, v), (numText, indent, JObj fs)) \<in> measure (\<lambda>(_, _, v). size v)"
    by (induction fs) auto
qed (auto simp: less_Suc_eq_le size_list_estimation')

subsection \<open>Reading\<close>

definition json_ws :: "code_unit \<Rightarrow> bool" where
  "json_ws c \<longleftrightarrow> c = 9 \<or> c = 10 \<or> c = 13 \<or> c = 32"

definition skip_ws :: "jstr \<Rightarrow> jstr" where
  "skip_ws s = dropWhile json_ws s"

definition hex_value :: "code_unit \<Rightarrow> nat option" where
  "hex_value c =
     (let n = unat c
      in if 48 \<le> n \<and> n \<le> 57 then Some (n - 48)
         else if 97 \<le> n \<and> n \<le> 102 then Some (n - 87)
         else if 65 \<le> n \<and> n \<le> 70 then Some (n - 55)
         else None)"

definition hex4_value :: "jstr \<Rightarrow> code_unit option" where
  "hex4_value s =
     (case map hex_value s of
        [Some a, Some b, Some c, Some d] \<Rightarrow> Some (of_nat (a * 4096 + b * 256 + c * 16 + d))
      | _ \<Rightarrow> None)"

definition simple_escape :: "code_unit \<Rightarrow> code_unit option" where
  "simple_escape e =
     map_of [(js_quote, js_quote), (js_backslash, js_backslash), (0x2F, 0x2F), (0x62, 8), (0x66, 12), (0x6E, 10), (0x72, 13),
             (0x74, 9)] e"

text \<open>The characters of a string behind its opening quote, and what follows the closing one.\<close>

function parse_chars :: "jstr \<Rightarrow> (jstr \<times> jstr) option" where
  "parse_chars [] = None"
| "parse_chars (c # s) =
     (if c = js_quote then Some ([], s)
      else if c = js_backslash then
        (case s of
           [] \<Rightarrow> None
         | e # s1 \<Rightarrow>
             (if e = 0x75 then
                (case hex4_value (take 4 s1) of
                   None \<Rightarrow> None
                 | Some u \<Rightarrow> map_option (\<lambda>(t, r). (u # t, r)) (parse_chars (drop 4 s1)))
              else
                (case simple_escape e of
                   None \<Rightarrow> None
                 | Some u \<Rightarrow> map_option (\<lambda>(t, r). (u # t, r)) (parse_chars s1))))
      else if unat c < 0x20 then None
      else map_option (\<lambda>(t, r). (c # t, r)) (parse_chars s))"
  by pat_completeness auto
termination by (relation "measure length") auto

text \<open>A number: \<open>-?(0|[1-9][0-9]*)(\.[0-9]+)?([eE][+-]?[0-9]+)?\<close>; the length of the longest prefix.\<close>

definition digits :: "jstr \<Rightarrow> jstr" where
  "digits s = takeWhile js_digit s"

definition number_end :: "jstr \<Rightarrow> nat option" where
  "number_end s =
     (let sign = (if take 1 s = [0x2D] then 1 else 0);
          whole = (if take 1 (drop sign s) = [0x30] then 1 else length (digits (drop sign s)));
          a = sign + whole;
          fraction = (if take 1 (drop a s) = [0x2E] \<and> digits (drop (a + 1) s) \<noteq> []
                      then 1 + length (digits (drop (a + 1) s)) else 0);
          b = a + fraction;
          esign = (if take 1 (drop (b + 1) s) \<in> set [[0x2B], [0x2D]] then 1 else 0);
          exponent = (if take 1 (drop b s) \<in> set [[0x65], [0x45]] \<and> digits (drop (b + 1 + esign) s) \<noteq> []
                      then 1 + esign + length (digits (drop (b + 1 + esign) s)) else 0)
      in if whole = 0 then None else Some (b + exponent))"

text \<open>Every call consumes a character, so the length of the text is fuel enough.\<close>

fun parse_value :: "(jstr \<Rightarrow> js_num) \<Rightarrow> nat \<Rightarrow> jstr \<Rightarrow> (json \<times> jstr) option"
  and parse_members :: "(jstr \<Rightarrow> js_num) \<Rightarrow> nat \<Rightarrow> (jstr \<times> json) list \<Rightarrow> jstr \<Rightarrow> (json \<times> jstr) option"
  and parse_elements :: "(jstr \<Rightarrow> js_num) \<Rightarrow> nat \<Rightarrow> json list \<Rightarrow> jstr \<Rightarrow> (json \<times> jstr) option" where
  "parse_value numVal 0 s = None"
| "parse_value numVal (Suc n) s =
     (case skip_ws s of
        [] \<Rightarrow> None
      | c # r \<Rightarrow>
          (if c = js_quote then map_option (\<lambda>(t, r). (JStr t, r)) (parse_chars r)
           else if c = 0x7B then
             (case skip_ws r of
                [] \<Rightarrow> None
              | d # r1 \<Rightarrow> if d = 0x7D then Some (JObj [], r1) else parse_members numVal n [] r)
           else if c = 0x5B then
             (case skip_ws r of
                [] \<Rightarrow> None
              | d # r1 \<Rightarrow> if d = 0x5D then Some (JArr [], r1) else parse_elements numVal n [] r)
           else if js_startsWith (c # r) (js ''true'') then Some (JBool True, drop 4 (c # r))
           else if js_startsWith (c # r) (js ''false'') then Some (JBool False, drop 5 (c # r))
           else if js_startsWith (c # r) (js ''null'') then Some (JNull, drop 4 (c # r))
           else (case number_end (c # r) of
                   None \<Rightarrow> None
                 | Some k \<Rightarrow> Some (JNum (numVal (take k (c # r))), drop k (c # r)))))"
| "parse_members numVal 0 fs s = None"
| "parse_members numVal (Suc n) fs s =
     (case skip_ws s of
        [] \<Rightarrow> None
      | c # r \<Rightarrow>
          (if c \<noteq> js_quote then None
           else (case parse_chars r of
                   None \<Rightarrow> None
                 | Some (k, r1) \<Rightarrow>
                     (case skip_ws r1 of
                        [] \<Rightarrow> None
                      | d # r2 \<Rightarrow>
                          (if d \<noteq> 0x3A then None
                           else (case parse_value numVal n r2 of
                                   None \<Rightarrow> None
                                 | Some (v, r3) \<Rightarrow>
                                     (case skip_ws r3 of
                                        [] \<Rightarrow> None
                                      | e # r4 \<Rightarrow>
                                          (if e = 0x2C then parse_members numVal n (jm_set k v fs) r4
                                           else if e = 0x7D then Some (JObj (jm_set k v fs), r4)
                                           else None))))))))"
| "parse_elements numVal 0 vs s = None"
| "parse_elements numVal (Suc n) vs s =
     (case parse_value numVal n s of
        None \<Rightarrow> None
      | Some (v, r) \<Rightarrow>
          (case skip_ws r of
             [] \<Rightarrow> None
           | e # r1 \<Rightarrow>
               (if e = 0x2C then parse_elements numVal n (vs @ [v]) r1
                else if e = 0x5D then Some (JArr (vs @ [v]), r1)
                else None)))"

definition JSON_parse :: "(jstr \<Rightarrow> js_num) \<Rightarrow> jstr \<Rightarrow> json option" where
  "JSON_parse numVal s =
     (case parse_value numVal (Suc (length s)) s of
        None \<Rightarrow> None
      | Some (v, r) \<Rightarrow> if skip_ws r = [] then Some v else None)"


subsection \<open>What is written reads back\<close>

text \<open>Values whose text does not depend on the parameters: no numbers, and each name of an object once.\<close>

fun json_plain :: "json \<Rightarrow> bool" where
  "json_plain (JNum n) \<longleftrightarrow> False"
| "json_plain (JArr vs) \<longleftrightarrow> list_all json_plain vs"
| "json_plain (JObj fs) \<longleftrightarrow> distinct (map fst fs) \<and> list_all (\<lambda>(k, v). json_plain v) fs"
| "json_plain v \<longleftrightarrow> True"

lemma hex_value_digit: "n < 16 \<Longrightarrow> hex_value (hex_digit n) = Some n"
proof -
  assume n: "n < 16"
  then have "unat (hex_digit n) = (if n < 10 then 48 + n else 87 + n)"
    by (simp add: hex_digit_def unat_of_nat del: of_nat_add)
  with n show ?thesis by (auto simp: hex_value_def Let_def)
qed

lemma hex4_value_escape:
  "hex4_value [hex_digit (unat c div 4096), hex_digit (unat c div 256 mod 16), hex_digit (unat c div 16 mod 16), hex_digit (unat c mod 16)]
   = Some c"
proof -
  have "unat c < 2 ^ LENGTH(16)" by (rule unsigned_less)
  then have "unat c div 4096 < 16" by (simp add: less_mult_imp_div_less)
  moreover have "unat c div 4096 * 4096 + unat c div 256 mod 16 * 256 + unat c div 16 mod 16 * 16 + unat c mod 16 = unat c"
  proof -
    have "unat c div 256 = unat c div 4096 * 16 + unat c div 256 mod 16" "unat c div 16 = unat c div 256 * 16 + unat c div 16 mod 16"
      using div_mult_mod_eq [of "unat c div 256" 16] div_mult_mod_eq [of "unat c div 16" 16]
      by (simp_all add: div_mult2_eq [symmetric])
    then show ?thesis using div_mult_mod_eq [of "unat c" 16] by linarith
  qed
  ultimately show ?thesis by (simp add: hex4_value_def hex_value_digit del: of_nat_add)
qed

lemma parse_quote_unit:
  "parse_chars (quote_unit c @ r) = map_option (\<lambda>(t, r). (c # t, r)) (parse_chars r)"
proof -
  consider "c \<in> set [8, 9, 10, 12, 13, js_quote, js_backslash]"
    | "c \<notin> set [8, 9, 10, 12, 13, js_quote, js_backslash]" "unat c < 0x20 \<or> is_high_surrogate c \<or> is_low_surrogate c"
    | "c \<notin> set [8, 9, 10, 12, 13, js_quote, js_backslash]" "\<not> unat c < 0x20" "\<not> is_high_surrogate c" "\<not> is_low_surrogate c"
    by blast
  then show ?thesis
  proof cases
    case 1
    then show ?thesis by (auto simp: quote_unit_def simple_escape_def)
  next
    case 2
    then have "quote_unit c = unicode_escape c" by (simp add: quote_unit_def)
    then show ?thesis by (simp add: unicode_escape_def Let_def hex4_value_escape)
  next
    case 3
    then show ?thesis by (simp add: quote_unit_def)
  qed
qed

lemma parse_plain_unit:
  "is_high_surrogate c \<or> is_low_surrogate c \<Longrightarrow> parse_chars (c # r) = map_option (\<lambda>(t, r). (c # t, r)) (parse_chars r)"
  by (auto simp: is_high_surrogate_def is_low_surrogate_def)

lemma parse_quoted: "parse_chars (quote_units s @ js_quote # rest) = Some (s, rest)"
proof (induction s rule: quote_units.induct)
  case (2 c)
  show ?case using parse_quote_unit [of c "js_quote # rest"] by simp
next
  case (3 c d s)
  then show ?case
    using parse_quote_unit [of c "quote_units (d # s) @ js_quote # rest"]
    by (auto simp: parse_plain_unit simp del: parse_chars.simps(2))
qed simp

lemma skip_ws_line [simp]: "skip_ws (json_line n @ s) = skip_ws s"
proof -
  have "dropWhile json_ws (replicate n js_space @ s) = dropWhile json_ws s" by (induction n) (simp_all add: json_ws_def)
  then show ?thesis by (simp add: skip_ws_def json_line_def json_ws_def)
qed

lemma skip_ws_Cons [simp]: "\<not> json_ws c \<Longrightarrow> skip_ws (c # s) = c # s"
  by (simp add: skip_ws_def)

lemma skip_ws_space [simp]: "skip_ws (js_space # s) = skip_ws s"
  by (simp add: skip_ws_def json_ws_def)

lemma json_ws_simps [simp]:
  "\<not> json_ws js_quote" "\<not> json_ws 0x7B" "\<not> json_ws 0x7D" "\<not> json_ws 0x5B" "\<not> json_ws 0x5D" "\<not> json_ws 0x2C" "\<not> json_ws 0x3A"
  by (simp_all add: json_ws_def)

lemma skip_ws_idem [simp]: "skip_ws (skip_ws s) = skip_ws s"
  by (simp add: skip_ws_def dropWhile_idem)

lemma parse_value_skip: "parse_value numVal n (skip_ws s) = parse_value numVal n s"
  by (cases n) simp_all

lemma parse_value_space: "parse_value numVal n (js_space # s) = parse_value numVal n s"
  by (cases n) simp_all

lemma parse_value_line: "parse_value numVal n (json_line i @ s) = parse_value numVal n s"
  by (cases n) simp_all


lemma json_quote_text: "json_quote k @ r = js_quote # quote_units k @ js_quote # r"
  by (simp add: json_quote_def)

text \<open>The parts of an object, and of an array, one by one.\<close>

lemma parse_members_text:
  assumes "\<And>k v n rest. (k, v) \<in> set fs \<Longrightarrow> length (text v) \<le> n \<Longrightarrow> parse_value numVal n (text v @ rest) = Some (v, rest)"
    and "fs \<noteq> []" "length (js_join (0x2C # json_line i) (map (\<lambda>(k, v). json_quote k @ [0x3A, js_space] @ text v) fs)) \<le> n"
  shows "parse_members numVal n acc
      (json_line i @ js_join (0x2C # json_line i) (map (\<lambda>(k, v). json_quote k @ [0x3A, js_space] @ text v) fs) @
       json_line j @ 0x7D # rest) =
    Some (JObj (fold (\<lambda>(k, v). jm_set k v) fs acc), rest)"
  using assms
proof (induction fs arbitrary: n acc)
  case (Cons f fs)
  obtain k v where f: "f = (k, v)" by (cases f)
  obtain m where n: "n = Suc m" using Cons.prems(3) by (cases n) (cases fs; auto simp: f json_quote_def)+
  have v: "length (text v) \<le> m" using Cons.prems(3) by (cases fs) (auto simp: f n json_quote_def)
  note elem = Cons.prems(1) [of k v, OF _ v]
  show ?case
  proof (cases fs)
    case Nil
    then show ?thesis
      using elem by (simp add: f n json_quote_text parse_quoted parse_value_space)
  next
    case (Cons g gs)
    have "length (js_join (0x2C # json_line i) (map (\<lambda>(k, v). json_quote k @ [0x3A, js_space] @ text v) fs)) \<le> m"
      using Cons.prems(3) by (auto simp: f n Cons json_quote_def)
    then have "parse_members numVal m (jm_set k v acc)
        (json_line i @ js_join (0x2C # json_line i) (map (\<lambda>(k, v). json_quote k @ [0x3A, js_space] @ text v) fs) @
         json_line j @ 0x7D # rest) =
      Some (JObj (fold (\<lambda>(k, v). jm_set k v) fs (jm_set k v acc)), rest)"
      using Cons Cons.prems(1) by (intro Cons.IH) auto
    with Cons elem show ?thesis by (simp add: f n json_quote_text parse_quoted parse_value_space)
  qed
qed simp


lemma parse_elements_text:
  assumes "\<And>v n rest. v \<in> set vs \<Longrightarrow> length (text v) \<le> n \<Longrightarrow> parse_value numVal n (text v @ rest) = Some (v, rest)"
    and "\<And>v. v \<in> set vs \<Longrightarrow> text v \<noteq> []"
    and "vs \<noteq> []" "length (js_join (0x2C # json_line i) (map text vs)) < n"
  shows "parse_elements numVal n acc (json_line i @ js_join (0x2C # json_line i) (map text vs) @ json_line j @ 0x5D # rest) =
    Some (JArr (acc @ vs), rest)"
  using assms
proof (induction vs arbitrary: n acc)
  case (Cons v vs)
  obtain m where n: "n = Suc m" using Cons.prems(4) by (cases n) auto
  have v: "length (text v) \<le> m" using Cons.prems(4) by (cases vs) (auto simp: n)
  note elem = Cons.prems(1) [of v, OF _ v]
  show ?case
  proof (cases vs)
    case Nil
    then show ?thesis using elem by (simp add: n parse_value_line)
  next
    case (Cons w ws)
    have "length (js_join (0x2C # json_line i) (map text vs)) < m"
      using Cons.prems(4) Cons.prems(2) [of v] by (auto simp: n Cons)
    then have "parse_elements numVal m (acc @ [v])
        (json_line i @ js_join (0x2C # json_line i) (map text vs) @ json_line j @ 0x5D # rest) = Some (JArr ((acc @ [v]) @ vs), rest)"
      using Cons Cons.prems(1,2) by (intro Cons.IH) auto
    with Cons elem show ?thesis by (simp add: n parse_value_line)
  qed
qed simp

lemma fold_jm_set: "distinct (map fst acc @ map fst fs) \<Longrightarrow> fold (\<lambda>(k, v). jm_set k v) fs acc = acc @ fs"
proof (induction fs arbitrary: acc)
  case (Cons f fs)
  obtain k v where f: "f = (k, v)" by (cases f)
  with Cons have "jm_set k v acc = acc @ [(k, v)]" by (intro jm_set_fresh) auto
  with Cons f show ?case by simp
qed simp

lemma json_block_text:
  "parts \<noteq> [] \<Longrightarrow> json_block i l r parts @ rest =
     l # json_line (i + 2) @ js_join (0x2C # json_line (i + 2)) parts @ json_line i @ r # rest"
  by (simp add: json_block_def)

lemma json_pretty_head: "json_plain v \<Longrightarrow> \<exists>c t. json_pretty numText i v = c # t \<and> \<not> json_ws c \<and> c \<noteq> 0x5D \<and> c \<noteq> 0x7D"
  by (cases v) (auto simp: json_quote_def json_block_def js_def json_ws_def)

lemma parse_pretty:
  assumes "json_plain v" "length (json_pretty numText i v) \<le> n"
  shows "parse_value numVal n (json_pretty numText i v @ rest) = Some (v, rest)"
  using assms
proof (induction numText i v arbitrary: n rest rule: json_pretty.induct)
  case (1 numText i)
  then obtain m where "n = Suc m" by (cases n) auto
  then show ?case by (simp add: js_def js_startsWith_def json_ws_def)
next
  case (2 numText i b)
  then obtain m where "n = Suc m" by (cases n) (auto split: if_splits)
  then show ?case by (simp add: js_def js_startsWith_def json_ws_def)
next
  case (4 numText i s)
  then obtain m where "n = Suc m" by (cases n) (auto simp: json_quote_def)
  then show ?case by (simp add: json_quote_text parse_quoted)
next
  case (5 numText i vs)
  let ?text = "json_pretty numText (i + 2)"
  obtain m where n: "n = Suc m" using 5(3) by (cases n) (auto simp: json_block_def split: if_splits)
  show ?case
  proof (cases "vs = []")
    case True
    then show ?thesis by (simp add: n json_block_def)
  next
    case False
    have plain: "json_plain v" if "v \<in> set vs" for v using 5(2) that by (simp add: list_all_iff)
    have "length (js_join (0x2C # json_line (i + 2)) (map ?text vs)) < m"
      using 5(3) False by (simp add: n json_block_def json_line_def)
    then have elements: "parse_elements numVal m []
        (json_line (i + 2) @ js_join (0x2C # json_line (i + 2)) (map ?text vs) @ json_line i @ 0x5D # rest) = Some (JArr ([] @ vs), rest)"
      using 5(1) plain False json_pretty_head [OF plain] by (intro parse_elements_text) fastforce+
    obtain v ws c t where v: "vs = v # ws" "?text v = c # t" "\<not> json_ws c" "c \<noteq> 0x5D"
      using False json_pretty_head [OF plain, of _ numText "i + 2"] by (cases vs) fastforce+
    have "\<exists>u. skip_ws (json_line (i + 2) @ js_join (0x2C # json_line (i + 2)) (map ?text vs) @ json_line i @ 0x5D # rest) = c # u"
      using v by (cases ws) simp_all
    then show ?thesis using elements False v(4) by (auto simp: n json_block_text)
  qed
next
  case (6 numText i fs)
  let ?text = "json_pretty numText (i + 2)"
  let ?part = "\<lambda>(k, v). json_quote k @ [0x3A, js_space] @ ?text v"
  obtain m where n: "n = Suc m" using 6(3) by (cases n) (auto simp: json_block_def split: if_splits)
  show ?case
  proof (cases "fs = []")
    case True
    then show ?thesis by (simp add: n json_block_def)
  next
    case False
    have plain: "json_plain v" if "(k, v) \<in> set fs" for k v using 6(2) that by (auto simp: list_all_iff)
    have "length (js_join (0x2C # json_line (i + 2)) (map ?part fs)) \<le> m"
      using 6(3) False by (simp add: n json_block_def json_line_def)
    then have members: "parse_members numVal m []
        (json_line (i + 2) @ js_join (0x2C # json_line (i + 2)) (map ?part fs) @ json_line i @ 0x7D # rest) =
      Some (JObj (fold (\<lambda>(k, v). jm_set k v) fs []), rest)"
      using 6(1) plain False by (intro parse_members_text) auto
    have "fold (\<lambda>(k, v). jm_set k v) fs [] = [] @ fs" using 6(2) by (intro fold_jm_set) simp
    moreover have "\<exists>u. skip_ws (json_line (i + 2) @ js_join (0x2C # json_line (i + 2)) (map ?part fs) @ json_line i @ 0x7D # rest) =
        js_quote # u"
      using False by (cases fs; cases "tl fs") (auto simp: json_quote_def)
    ultimately show ?thesis using members False by (auto simp: n json_block_text)
  qed
qed simp_all

text \<open>
  \<open>JSON.parse\<close> gives back what \<open>JSON.stringify\<close> with an indentation of two wrote, for values without
  numbers; nothing but white space may follow.
\<close>

lemma json_text_reads_back:
  assumes "json_plain v" "list_all json_ws blank"
  shows "JSON_parse numVal (json_pretty numText 0 v @ blank) = Some v"
proof -
  have "skip_ws blank = []" using assms(2) by (simp add: skip_ws_def list_all_iff)
  then show ?thesis
    using parse_pretty [OF assms(1), of numText 0 "Suc (length (json_pretty numText 0 v @ blank))" numVal blank]
    by (simp add: JSON_parse_def)
qed

end
