(* ===== verification/Todo_Text.thy ===== *)
theory Todo_Text
  imports Json_Text
begin

text \<open>
  The text of a todo (\<open>packages/coding-agent/src/core/tools/todos-storage.ts\<close>, \<open>todos-model.ts\<close>): a JSON object
  in front, found by a scan for its closing brace, and a body behind it.
\<close>

subsection \<open>Todos\<close>

record todo_front =
  td_id :: jstr
  td_title :: jstr
  td_tags :: "jstr list"
  td_status :: jstr
  td_created_at :: jstr
  td_assigned :: "jstr option"

record todo = todo_front +
  td_body :: jstr

definition ascii_lower :: "code_unit \<Rightarrow> code_unit" where
  "ascii_lower c = (if 0x41 \<le> unat c \<and> unat c \<le> 0x5A then c + 0x20 else c)"

definition ascii_upper :: "code_unit \<Rightarrow> code_unit" where
  "ascii_upper c = (if 0x61 \<le> unat c \<and> unat c \<le> 0x7A then c - 0x20 else c)"

definition TODO_ID_PREFIX :: jstr where
  "TODO_ID_PREFIX = js ''TODO-''"

definition formatTodoId :: "jstr \<Rightarrow> jstr" where
  "formatTodoId i = TODO_ID_PREFIX @ i"

text \<open>Only ASCII letters have upper case forms that make up the prefix.\<close>

definition normalizeTodoId :: "jstr \<Rightarrow> jstr" where
  "normalizeTodoId i =
     (let trimmed = js_trim i;
          trimmed = (if js_startsWith trimmed (js ''#'') then drop 1 trimmed else trimmed)
      in if js_startsWith (map ascii_upper trimmed) TODO_ID_PREFIX then drop (length TODO_ID_PREFIX) trimmed else trimmed)"

definition todo_hex :: "code_unit \<Rightarrow> bool" where
  "todo_hex c \<longleftrightarrow> hex_value c \<noteq> None"

definition validateTodoId :: "jstr \<Rightarrow> jstr + jstr" where
  "validateTodoId i =
     (let normalized = normalizeTodoId i
      in if length normalized \<noteq> 8 \<or> \<not> list_all todo_hex normalized
         then Inl (js ''Invalid todo id. Expected TODO-<hex>.'')
         else Inr (map ascii_lower normalized))"

definition displayTodoId :: "jstr \<Rightarrow> jstr" where
  "displayTodoId i = formatTodoId (normalizeTodoId i)"

definition isTodoClosed :: "jstr \<Rightarrow> bool" where
  "isTodoClosed status \<longleftrightarrow> map ascii_lower status \<in> set [js ''closed'', js ''done'']"

definition getTodoStatus :: "'a todo_front_scheme \<Rightarrow> jstr" where
  "getTodoStatus t = (if td_status t = [] then js ''open'' else td_status t)"

definition clearAssignmentIfClosed :: "'a todo_front_scheme \<Rightarrow> 'a todo_front_scheme" where
  "clearAssignmentIfClosed t = (if isTodoClosed (getTodoStatus t) then t\<lparr>td_assigned := None\<rparr> else t)"

subsection \<open>Reading\<close>

definition js_nonblank :: "jstr \<Rightarrow> bool" where
  "js_nonblank s \<longleftrightarrow> js_trim s \<noteq> []"

definition default_front :: "jstr \<Rightarrow> todo_front" where
  "default_front idFallback =
     \<lparr>td_id = idFallback, td_title = [], td_tags = [], td_status = js ''open'', td_created_at = [], td_assigned = None\<rparr>"

definition string_tags :: "json list \<Rightarrow> jstr list" where
  "string_tags vs = concat (map (\<lambda>v. case v of JStr s \<Rightarrow> [s] | _ \<Rightarrow> []) vs)"

definition with_string :: "json option \<Rightarrow> (jstr \<Rightarrow> 'a \<Rightarrow> 'a) \<Rightarrow> 'a \<Rightarrow> 'a" where
  "with_string v f d = (case v of Some (JStr s) \<Rightarrow> f s d | _ \<Rightarrow> d)"

definition with_array :: "json option \<Rightarrow> (json list \<Rightarrow> 'a \<Rightarrow> 'a) \<Rightarrow> 'a \<Rightarrow> 'a" where
  "with_array v f d = (case v of Some (JArr vs) \<Rightarrow> f vs d | _ \<Rightarrow> d)"

definition front_of_json :: "jstr \<Rightarrow> json \<Rightarrow> todo_front" where
  "front_of_json idFallback parsed =
     (let d = default_front idFallback;
          d = with_string (jfield parsed ''id'') (\<lambda>s d. if s \<noteq> [] then d\<lparr>td_id := s\<rparr> else d) d;
          d = with_string (jfield parsed ''title'') (\<lambda>s d. d\<lparr>td_title := s\<rparr>) d;
          d = with_string (jfield parsed ''status'') (\<lambda>s d. if s \<noteq> [] then d\<lparr>td_status := s\<rparr> else d) d;
          d = with_string (jfield parsed ''created_at'') (\<lambda>s d. d\<lparr>td_created_at := s\<rparr>) d;
          d = with_string (jfield parsed ''assigned_to_session'') (\<lambda>s d. if js_nonblank s then d\<lparr>td_assigned := Some s\<rparr> else d) d
      in with_array (jfield parsed ''tags'') (\<lambda>vs d. d\<lparr>td_tags := string_tags vs\<rparr>) d)"

definition parseFrontMatter :: "(jstr \<Rightarrow> js_num) \<Rightarrow> jstr \<Rightarrow> jstr \<Rightarrow> todo_front" where
  "parseFrontMatter numVal s idFallback =
     (let trimmed = js_trim s
      in if trimmed = [] then default_front idFallback
         else (case JSON_parse numVal trimmed of
                 None \<Rightarrow> default_front idFallback
               | Some parsed \<Rightarrow> if is_object parsed then front_of_json idFallback parsed else default_front idFallback))"

text \<open>The scan: position, depth, whether in a string, whether behind a backslash there.\<close>

fun object_end :: "nat \<Rightarrow> int \<Rightarrow> bool \<Rightarrow> bool \<Rightarrow> jstr \<Rightarrow> nat option" where
  "object_end i depth inString escaped [] = None"
| "object_end i depth inString escaped (c # s) =
     (if inString then
        (if escaped then object_end (Suc i) depth True False s
         else if c = js_backslash then object_end (Suc i) depth True True s
         else if c = js_quote then object_end (Suc i) depth False False s
         else object_end (Suc i) depth True False s)
      else if c = js_quote then object_end (Suc i) depth True escaped s
      else if c = 0x7B then object_end (Suc i) (depth + 1) False escaped s
      else if c = 0x7D then (if depth - 1 = 0 then Some i else object_end (Suc i) (depth - 1) False escaped s)
      else object_end (Suc i) depth False escaped s)"

definition findJsonObjectEnd :: "jstr \<Rightarrow> nat option" where
  "findJsonObjectEnd content = object_end 0 0 False False content"

text \<open>\<open>replace(/^\r?\n+/, "")\<close>.\<close>

definition strip_blank_lines :: "jstr \<Rightarrow> jstr" where
  "strip_blank_lines s =
     (let t = (if js_startsWith s [js_CR] then drop 1 s else s)
      in if js_startsWith t [js_LF] then dropWhile (\<lambda>c. c = js_LF) t else s)"

definition splitFrontMatter :: "jstr \<Rightarrow> jstr \<times> jstr" where
  "splitFrontMatter content =
     (if \<not> js_startsWith content (js ''{'') then ([], content)
      else (case findJsonObjectEnd content of
              None \<Rightarrow> ([], content)
            | Some endIndex \<Rightarrow> (take (endIndex + 1) content, strip_blank_lines (drop (endIndex + 1) content))))"

definition parseTodoContent :: "(jstr \<Rightarrow> js_num) \<Rightarrow> jstr \<Rightarrow> jstr \<Rightarrow> todo" where
  "parseTodoContent numVal content idFallback =
     (case splitFrontMatter content of
        (frontMatter, body) \<Rightarrow>
          (let parsed = parseFrontMatter numVal frontMatter idFallback
           in \<lparr>td_id = idFallback, td_title = td_title parsed, td_tags = td_tags parsed, td_status = td_status parsed,
               td_created_at = td_created_at parsed, td_assigned = td_assigned parsed, td_body = body\<rparr>))"

subsection \<open>Writing\<close>

definition front_json :: "'a todo_front_scheme \<Rightarrow> json" where
  "front_json t =
     jobj [(''id'', Some (JStr (td_id t))), (''title'', Some (JStr (td_title t))),
           (''tags'', Some (JArr (map JStr (td_tags t)))), (''status'', Some (JStr (td_status t))),
           (''created_at'', Some (JStr (td_created_at t))),
           (''assigned_to_session'', case td_assigned t of None \<Rightarrow> None | Some s \<Rightarrow> if s = [] then None else Some (JStr s))]"

definition serializeTodo :: "todo \<Rightarrow> jstr" where
  "serializeTodo t =
     (let frontMatter = json_pretty (\<lambda>_. []) 0 (front_json t);
          trimmedBody = js_trimEnd (dropWhile (\<lambda>c. c = js_LF) (td_body t))
      in if trimmedBody = [] then frontMatter @ [js_LF] else frontMatter @ [js_LF, js_LF] @ trimmedBody @ [js_LF])"

text \<open>A string after it was written and read as UTF-8: halves of pairs without their partner are replaced.\<close>

fun utf8_text :: "jstr \<Rightarrow> jstr" where
  "utf8_text [] = []"
| "utf8_text [c] = [if is_high_surrogate c \<or> is_low_surrogate c then 0xFFFD else c]"
| "utf8_text (c # d # s) =
     (if is_high_surrogate c \<and> is_low_surrogate d then c # d # utf8_text s
      else (if is_high_surrogate c \<or> is_low_surrogate c then 0xFFFD else c) # utf8_text (d # s))"

definition stored_text :: "todo \<Rightarrow> jstr" where
  "stored_text t = utf8_text (serializeTodo t)"

definition appended_body :: "jstr \<Rightarrow> jstr \<Rightarrow> jstr" where
  "appended_body body added =
     (let spacer = (if js_trim body \<noteq> [] then [js_LF, js_LF] else [])
      in js_trimEnd body @ spacer @ js_trim added @ [js_LF])"


subsection \<open>The scan finds the object\<close>

definition scan_neutral :: "int \<Rightarrow> jstr \<Rightarrow> bool" where
  "scan_neutral d p \<longleftrightarrow>
     (\<forall>i rest. object_end i d False False (p @ rest) = object_end (i + length p) d False False rest)"

lemma scan_neutral_append: "scan_neutral d p \<Longrightarrow> scan_neutral d q \<Longrightarrow> scan_neutral d (p @ q)"
  by (simp add: scan_neutral_def add.assoc)

lemma scan_neutral_plain: "js_quote \<notin> set p \<Longrightarrow> 0x7B \<notin> set p \<Longrightarrow> 0x7D \<notin> set p \<Longrightarrow> scan_neutral d p"
proof (induction p)
  case (Cons c p)
  then show ?case by (simp add: scan_neutral_def)
qed (simp add: scan_neutral_def)

lemma scan_neutral_join: "list_all (scan_neutral d) ps \<Longrightarrow> scan_neutral d sep \<Longrightarrow> scan_neutral d (js_join sep ps)"
  by (induction sep ps rule: js_join.induct) (auto intro!: scan_neutral_append scan_neutral_plain)

lemma hex_digit_plain: "n < 16 \<Longrightarrow> hex_digit n \<noteq> js_quote \<and> hex_digit n \<noteq> js_backslash"
  using hex_value_digit [of n] by (auto simp: hex_value_def Let_def split: if_splits)

lemma scan_escaped:
  "object_end i d True False (js_backslash # e # r) = object_end (i + 2) d True False r"
  by simp

lemma scan_string_unit:
  "c \<noteq> js_quote \<Longrightarrow> c \<noteq> js_backslash \<Longrightarrow> object_end i d True False (c # r) = object_end (i + 1) d True False r"
  by simp

lemma scan_quote_unit: "object_end i d True False (quote_unit c @ r) = object_end (i + length (quote_unit c)) d True False r"
proof (cases "quote_unit c = unicode_escape c")
  case True
  have "unat c < 2 ^ LENGTH(16)" by (rule unsigned_less)
  then have "unat c div 4096 < 16" by (simp add: less_mult_imp_div_less)
  then have plain: "hex_digit n \<noteq> js_quote" "hex_digit n \<noteq> js_backslash"
    if "n \<in> {unat c div 4096, unat c div 256 mod 16, unat c div 16 mod 16, unat c mod 16}" for n
    using that hex_digit_plain [of n] by auto
  show ?thesis
    unfolding True unicode_escape_def Let_def append_Cons append_Nil
    by (simp only: scan_escaped scan_string_unit plain insert_iff simp_thms list.size) simp
next
  case False
  then show ?thesis by (auto simp: quote_unit_def split: if_splits)
qed

lemma scan_quoted:
  "object_end i d True False (quote_units s @ js_quote # r) = object_end (i + length (quote_units s) + 1) d False False r"
proof (induction s arbitrary: i rule: quote_units.induct)
  case (2 c)
  show ?case using scan_quote_unit [of i d c "js_quote # r"] by simp
next
  case (3 c d' s)
  show ?case
  proof (cases "is_high_surrogate c \<and> is_low_surrogate d'")
    case True
    then have "c \<noteq> js_quote" "c \<noteq> js_backslash" "d' \<noteq> js_quote" "d' \<noteq> js_backslash"
      by (auto simp: is_high_surrogate_def is_low_surrogate_def)
    with True 3(1) show ?thesis by simp
  next
    case False
    then have units: "quote_units (c # d' # s) = quote_unit c @ quote_units (d' # s)"
      by (simp only: quote_units.simps if_False)
    show ?thesis
      unfolding units append_assoc scan_quote_unit 3(2) [OF False] length_append by (simp only: add.assoc)
  qed
qed simp

lemma scan_neutral_quote: "scan_neutral d (json_quote s)"
  by (simp add: scan_neutral_def json_quote_def scan_quoted)

lemma scan_neutral_line: "scan_neutral d (json_line n)"
  by (rule scan_neutral_plain) (auto simp: json_line_def)

lemma scan_neutral_sep: "scan_neutral d (0x2C # json_line n)"
  using scan_neutral_append [of d "[0x2C]", OF scan_neutral_plain scan_neutral_line, of n] by simp

text \<open>The inside of a block, and blocks.\<close>

definition block_inside :: "nat \<Rightarrow> jstr list \<Rightarrow> jstr" where
  "block_inside i parts =
     (if parts = [] then [] else json_line (i + 2) @ js_join (0x2C # json_line (i + 2)) parts @ json_line i)"

lemma json_block_inside: "json_block i l r parts = l # block_inside i parts @ [r]"
  by (simp add: json_block_def block_inside_def)

lemma scan_neutral_inside: "list_all (scan_neutral d) parts \<Longrightarrow> scan_neutral d (block_inside i parts)"
  by (auto simp: block_inside_def intro!: scan_neutral_append scan_neutral_join scan_neutral_line scan_neutral_sep scan_neutral_plain)

lemma scan_object:
  assumes "scan_neutral (d + 1) inside"
  shows "object_end i d False False (0x7B # inside @ 0x7D # rest) =
    (if d = 0 then Some (i + 1 + length inside) else object_end (i + length inside + 2) d False False rest)"
  using assms by (simp add: scan_neutral_def)

lemma scan_neutral_pretty: "json_plain v \<Longrightarrow> 0 < d \<Longrightarrow> scan_neutral d (json_pretty numText i v)"
proof (induction numText i v arbitrary: d rule: json_pretty.induct)
  case (5 numText i vs)
  then have "list_all (scan_neutral d) (map (json_pretty numText (i + 2)) vs)" by (auto simp: list_all_iff)
  from scan_neutral_inside [OF this, of i] show ?case
    using scan_neutral_append [OF scan_neutral_plain [of "[0x5B]"] scan_neutral_append [OF _ scan_neutral_plain [of "[0x5D]"]]]
    by (simp add: json_block_inside)
next
  case (6 numText i fs)
  have "scan_neutral (d + 1) (json_quote k @ [0x3A, js_space] @ json_pretty numText (i + 2) v)" if "(k, v) \<in> set fs" for k v
    using 6 that by (intro scan_neutral_append scan_neutral_quote) (auto simp: list_all_iff intro: scan_neutral_plain)
  then have "scan_neutral (d + 1) (block_inside i (map (\<lambda>(k, v). json_quote k @ [0x3A, js_space] @ json_pretty numText (i + 2) v) fs))"
    by (intro scan_neutral_inside) (auto simp: list_all_iff)
  from scan_object [OF this] 6(3) show ?case by (simp add: json_block_inside scan_neutral_def)
qed (auto simp: js_def intro!: scan_neutral_plain scan_neutral_quote)

lemma object_end_pretty:
  assumes "json_plain (JObj fs)"
  shows "findJsonObjectEnd (json_pretty numText 0 (JObj fs) @ rest) = Some (length (json_pretty numText 0 (JObj fs)) - 1)"
proof -
  let ?part = "\<lambda>(k, v). json_quote k @ [0x3A, js_space] @ json_pretty numText (Suc (Suc 0)) v"
  have colon: "scan_neutral 1 [0x3A, js_space]" by (rule scan_neutral_plain) simp_all
  have "scan_neutral 1 (?part f)" if "f \<in> set fs" for f
  proof -
    obtain k v where f: "f = (k, v)" by (cases f)
    with assms that have "json_plain v" by (auto simp: list_all_iff)
    then have "scan_neutral 1 (json_pretty numText (Suc (Suc 0)) v)" by (simp add: scan_neutral_pretty)
    with scan_neutral_append [OF scan_neutral_quote scan_neutral_append [OF colon]] show ?thesis by (simp only: f split)
  qed
  then have "scan_neutral (0 + 1) (block_inside 0 (map ?part fs))" by (intro scan_neutral_inside) (simp add: list_all_iff)
  from scan_object [OF this, of 0 rest] show ?thesis by (simp add: findJsonObjectEnd_def json_block_inside)
qed

subsection \<open>Text that survives the encoding\<close>

definition whole_text :: "jstr \<Rightarrow> bool" where
  "whole_text p \<longleftrightarrow> (\<forall>r. utf8_text (p @ r) = p @ utf8_text r)"

lemma whole_Nil: "whole_text []"
  by (simp add: whole_text_def)

lemma whole_append: "whole_text p \<Longrightarrow> whole_text q \<Longrightarrow> whole_text (p @ q)"
  by (simp add: whole_text_def)

lemma whole_unit: "\<not> is_high_surrogate c \<Longrightarrow> \<not> is_low_surrogate c \<Longrightarrow> whole_text [c]"
  unfolding whole_text_def
proof
  fix r
  assume "\<not> is_high_surrogate c" "\<not> is_low_surrogate c"
  then show "utf8_text ([c] @ r) = [c] @ utf8_text r" by (cases r) simp_all
qed

lemma whole_Cons: "\<not> is_high_surrogate c \<Longrightarrow> \<not> is_low_surrogate c \<Longrightarrow> whole_text p \<Longrightarrow> whole_text (c # p)"
  using whole_append [OF whole_unit, of c p] by simp

lemma whole_pair: "is_high_surrogate c \<Longrightarrow> is_low_surrogate d \<Longrightarrow> whole_text p \<Longrightarrow> whole_text (c # d # p)"
  by (simp add: whole_text_def)

lemma small_unit: "unat c < 0xD800 \<Longrightarrow> \<not> is_high_surrogate c \<and> \<not> is_low_surrogate c"
  by (simp add: is_high_surrogate_def is_low_surrogate_def)

lemma whole_small: "(\<forall>c\<in>set p. unat c < 0xD800) \<Longrightarrow> whole_text p"
  by (induction p) (auto intro: whole_Cons whole_Nil dest: small_unit)

lemma hex_digit_small: "n < 16 \<Longrightarrow> unat (hex_digit n) < 0xD800"
  by (simp add: hex_digit_def unat_of_nat del: of_nat_add)

lemma whole_quote_unit: "whole_text (quote_unit c)"
proof -
  have "unat c < 2 ^ LENGTH(16)" by (rule unsigned_less)
  then have "unat c div 4096 < 16" by (simp add: less_mult_imp_div_less)
  then have "whole_text (unicode_escape c)"
    using hex_digit_small [of "unat c div 4096"] hex_digit_small [of "unat c div 256 mod 16"]
      hex_digit_small [of "unat c div 16 mod 16"] hex_digit_small [of "unat c mod 16"]
    by (intro whole_small) (simp add: unicode_escape_def Let_def)
  moreover have "whole_text (quote_unit c)" if "quote_unit c \<noteq> unicode_escape c"
    using that by (auto simp: quote_unit_def is_high_surrogate_def is_low_surrogate_def intro!: whole_Cons whole_Nil split: if_splits)
  ultimately show ?thesis by metis
qed

lemma whole_quoted: "whole_text (quote_units s)"
  by (induction s rule: quote_units.induct) (auto intro: whole_pair whole_append whole_quote_unit whole_Nil)

lemma whole_quote: "whole_text (json_quote s)"
  unfolding json_quote_def
  using whole_append [OF whole_small [of "[js_quote]"] whole_append [OF whole_quoted whole_small [of "[js_quote]"]]] by simp

lemma whole_line: "whole_text (json_line n)"
  by (rule whole_small) (auto simp: json_line_def)

lemma whole_join: "list_all whole_text ps \<Longrightarrow> whole_text sep \<Longrightarrow> whole_text (js_join sep ps)"
  by (induction sep ps rule: js_join.induct) (auto intro!: whole_append whole_Nil)

lemma whole_block:
  assumes "list_all whole_text parts" "whole_text [l]" "whole_text [r]"
  shows "whole_text (json_block i l r parts)"
proof -
  have "whole_text (0x2C # json_line (i + 2))" using whole_append [OF whole_small [of "[0x2C]"] whole_line] by simp
  with assms have "whole_text ([l] @ json_line (i + 2) @ js_join (0x2C # json_line (i + 2)) parts @ json_line i @ [r])"
    by (intro whole_append whole_join whole_line)
  then show ?thesis using whole_append [OF assms(2,3)] by (simp add: json_block_def)
qed

lemma whole_pretty: "json_plain v \<Longrightarrow> whole_text (json_pretty numText i v)"
proof (induction numText i v rule: json_pretty.induct)
  case (5 numText i vs)
  then have "whole_text (json_block i 0x5B 0x5D (map (json_pretty numText (i + 2)) vs))"
    by (intro whole_block) (auto simp: list_all_iff intro: whole_small)
  then show ?case by simp
next
  case (6 numText i fs)
  have colon: "whole_text [0x3A, js_space]" by (rule whole_small) simp
  have "whole_text (json_quote k @ [0x3A, js_space] @ json_pretty numText (i + 2) v)" if "(k, v) \<in> set fs" for k v
    using 6 that by (intro whole_append whole_quote colon) (auto simp: list_all_iff)
  then have "whole_text (json_block i 0x7B 0x7D (map (\<lambda>(k, v). json_quote k @ [0x3A, js_space] @ json_pretty numText (i + 2) v) fs))"
    by (intro whole_block) (auto simp: list_all_iff intro: whole_small)
  then show ?case by simp
qed (auto simp: js_def intro!: whole_small whole_quote)

lemma utf8_text_append_plain: "\<not> is_high_surrogate c \<Longrightarrow> \<not> is_low_surrogate c \<Longrightarrow> utf8_text (p @ [c]) = utf8_text p @ [c]"
proof (induction p rule: utf8_text.induct)
  case (3 a b s)
  then show ?case by (cases s) simp_all
qed simp_all

lemma utf8_text_idem [simp]: "utf8_text (utf8_text p) = utf8_text p"
proof (induction p rule: utf8_text.induct)
  case (3 c d s)
  then show ?case
    using whole_unit [of "0xFFFD"] whole_unit [of c]
    by (auto simp: whole_text_def is_high_surrogate_def is_low_surrogate_def)
qed (simp_all add: is_high_surrogate_def is_low_surrogate_def)

lemma utf8_text_eq_Nil [simp]: "utf8_text p = [] \<longleftrightarrow> p = []"
  by (cases p rule: utf8_text.cases) simp_all

subsection \<open>What is stored reads back\<close>

definition stored_body :: "jstr \<Rightarrow> jstr" where
  "stored_body b =
     (let t = js_trimEnd (dropWhile (\<lambda>c. c = js_LF) b) in if t = [] then [] else utf8_text t @ [js_LF])"

definition stored_todo :: "jstr \<Rightarrow> todo \<Rightarrow> todo" where
  "stored_todo i t =
     t\<lparr>td_id := i, td_status := getTodoStatus t,
       td_assigned := (case td_assigned t of Some s \<Rightarrow> if js_nonblank s then Some s else None | None \<Rightarrow> None),
       td_body := stored_body (td_body t)\<rparr>"

lemma js_trimEnd_hd: "js_trimEnd s \<noteq> [] \<Longrightarrow> hd (js_trimEnd s) = hd s"
  by (metis hd_append2 js_trimEnd_prefix)

lemma js_trimEnd_last: "js_trimEnd s \<noteq> [] \<Longrightarrow> \<not> js_ws (last (js_trimEnd s))"
  by (metis hd_dropWhile js_trimEnd_def last_rev rev_is_Nil_conv)

lemma utf8_text_hd: "hd (utf8_text p) = js_LF \<Longrightarrow> p \<noteq> [] \<Longrightarrow> hd p = js_LF"
  by (cases p rule: utf8_text.cases) (auto split: if_splits)

lemma utf8_text_last: "p \<noteq> [] \<Longrightarrow> last (utf8_text p) \<in> {last p, 0xFFFD}"
  by (induction p rule: utf8_text.induct) auto

lemma trimmed_body_hd:
  assumes "js_trimEnd (dropWhile (\<lambda>c. c = js_LF) b) \<noteq> []"
  shows "hd (js_trimEnd (dropWhile (\<lambda>c. c = js_LF) b)) \<noteq> js_LF"
proof -
  have "dropWhile (\<lambda>c. c = js_LF) b \<noteq> []"
  proof
    assume "dropWhile (\<lambda>c. c = js_LF) b = []"
    with assms show False by (simp only: js_trimEnd_def) simp
  qed
  then show ?thesis using js_trimEnd_hd [OF assms] hd_dropWhile [of "\<lambda>c. c = js_LF" b] by simp
qed

lemma LF_plain [simp]: "\<not> is_high_surrogate js_LF" "\<not> is_low_surrogate js_LF"
  by (simp_all add: is_high_surrogate_def is_low_surrogate_def)

lemma trimEnd_LF: "u \<noteq> [] \<Longrightarrow> \<not> js_ws (last u) \<Longrightarrow> js_trimEnd (u @ [js_LF]) = u"
  by (cases u rule: rev_cases) (simp_all add: js_trimEnd_def js_ws_def [of js_LF])

lemma dropWhile_LF_id: "t \<noteq> [] \<Longrightarrow> hd t \<noteq> js_LF \<Longrightarrow> dropWhile (\<lambda>c. c = js_LF) (t @ r) = t @ r"
  by (cases t) auto

lemma json_plain_front: "json_plain (front_json t)"
  by (simp add: front_json_def jobj_def map_filter_def list_all_iff js_eq_iff split: option.split)

lemma stored_text_parts:
  "\<exists>gap. stored_text t = json_pretty (\<lambda>_. []) 0 (front_json t) @ gap \<and> strip_blank_lines gap = stored_body (td_body t)"
proof -
  let ?b = "js_trimEnd (dropWhile (\<lambda>c. c = js_LF) (td_body t))"
  let ?gap = "if ?b = [] then [js_LF] else [js_LF, js_LF] @ ?b @ [js_LF]"
  have "whole_text (json_pretty (\<lambda>_. []) 0 (front_json t))" by (rule whole_pretty [OF json_plain_front])
  then have front: "stored_text t = json_pretty (\<lambda>_. []) 0 (front_json t) @ utf8_text ?gap"
    by (auto simp: stored_text_def serializeTodo_def Let_def whole_text_def)
  have "strip_blank_lines (utf8_text ?gap) = stored_body (td_body t)"
  proof (cases "?b = []")
    case True
    then show ?thesis
      by (simp add: stored_body_def strip_blank_lines_def js_startsWith_def)
  next
    case False
    have "utf8_text (?b @ [js_LF]) = utf8_text ?b @ [js_LF]"
      by (rule utf8_text_append_plain) simp_all
    moreover have "whole_text [js_LF, js_LF]" by (rule whole_small) simp
    ultimately have gap: "utf8_text ?gap = js_LF # js_LF # utf8_text ?b @ [js_LF]" using False by (simp add: whole_text_def)
    have "hd (utf8_text ?b) \<noteq> js_LF" using utf8_text_hd trimmed_body_hd [OF False] False by blast
    then have "dropWhile (\<lambda>c. c = js_LF) (utf8_text ?b @ [js_LF]) = utf8_text ?b @ [js_LF]"
      using False by (intro dropWhile_LF_id) simp_all
    then show ?thesis unfolding gap using False by (simp add: stored_body_def strip_blank_lines_def js_startsWith_def)
  qed
  with front show ?thesis by blast
qed

lemma front_json_object: "\<exists>fs. front_json t = JObj fs \<and> fs \<noteq> []"
  by (simp add: front_json_def jobj_def map_filter_def)

lemma string_tags_map [simp]: "string_tags (map JStr ts) = ts"
  by (simp add: string_tags_def comp_def)

lemma front_of_front_json:
  "front_of_json i (front_json t) =
     \<lparr>td_id = (if td_id t = [] then i else td_id t), td_title = td_title t, td_tags = td_tags t, td_status = getTodoStatus t,
      td_created_at = td_created_at t,
      td_assigned = (case td_assigned t of Some s \<Rightarrow> if js_nonblank s then Some s else None | None \<Rightarrow> None)\<rparr>"
proof -
  have "\<not> js_nonblank []" by (simp add: js_nonblank_def js_trim_def js_trimStart_def js_trimEnd_def)
  then show ?thesis
    by (cases "td_assigned t") (auto simp: front_of_json_def with_string_def with_array_def default_front_def Let_def front_json_def getTodoStatus_def)
qed

lemma split_front_pretty:
  assumes "json_plain (JObj fs)"
  shows "splitFrontMatter (json_pretty numText 0 (JObj fs) @ gap) = (json_pretty numText 0 (JObj fs), strip_blank_lines gap)"
proof -
  have "json_pretty numText 0 (JObj fs) \<noteq> []" "js_startsWith (json_pretty numText 0 (JObj fs) @ gap) (js ''{'')"
    by (simp_all add: json_block_inside js_startsWith_def js_def)
  then show ?thesis using object_end_pretty [OF assms] by (simp add: splitFrontMatter_def del: json_pretty.simps)
qed

lemma trim_pretty_object: "js_trim (json_pretty numText 0 (JObj fs)) = json_pretty numText 0 (JObj fs)"
  by (rule js_trim_id) (simp add: json_block_inside js_ws_def)

lemma parse_front_pretty:
  "parseFrontMatter numVal (json_pretty (\<lambda>_. []) 0 (front_json t)) i = front_of_json i (front_json t)"
proof -
  obtain fs where fs: "front_json t = JObj fs" using front_json_object by blast
  then have "json_pretty (\<lambda>_. []) 0 (front_json t) \<noteq> []" by (simp add: json_block_inside)
  moreover have "JSON_parse numVal (json_pretty (\<lambda>_. []) 0 (front_json t)) = Some (front_json t)"
    using json_text_reads_back [OF json_plain_front, of "[]"] by simp
  moreover have "is_object (front_json t)" by (simp add: fs)
  ultimately show ?thesis using trim_pretty_object [of "\<lambda>_. []" fs] by (simp add: parseFrontMatter_def fs Let_def del: json_pretty.simps)
qed

lemma parse_stored_text: "parseTodoContent numVal (stored_text t) i = stored_todo i t"
proof -
  obtain gap where gap: "stored_text t = json_pretty (\<lambda>_. []) 0 (front_json t) @ gap" "strip_blank_lines gap = stored_body (td_body t)"
    using stored_text_parts by blast
  obtain fs where fs: "front_json t = JObj fs" using front_json_object by blast
  have "splitFrontMatter (stored_text t) = (json_pretty (\<lambda>_. []) 0 (front_json t), stored_body (td_body t))"
    using split_front_pretty [of fs] json_plain_front [of t] gap by (simp add: fs)
  then show ?thesis
    by (simp add: parseTodoContent_def parse_front_pretty front_of_front_json stored_todo_def Let_def)
qed

lemma stored_body_idem [simp]: "stored_body (stored_body b) = stored_body b"
proof (cases "js_trimEnd (dropWhile (\<lambda>c. c = js_LF) b) = []")
  case True
  then show ?thesis by (simp add: stored_body_def js_trimEnd_def)
next
  case False
  let ?t = "js_trimEnd (dropWhile (\<lambda>c. c = js_LF) b)"
  have b: "stored_body b = utf8_text ?t @ [js_LF]" using False by (simp add: stored_body_def)
  have "hd (utf8_text ?t) \<noteq> js_LF" using utf8_text_hd trimmed_body_hd [OF False] False by blast
  then have "dropWhile (\<lambda>c. c = js_LF) (stored_body b) = utf8_text ?t @ [js_LF]"
    unfolding b using False by (intro dropWhile_LF_id) simp_all
  moreover have "js_trimEnd (utf8_text ?t @ [js_LF]) = utf8_text ?t"
  proof (rule trimEnd_LF)
    have "\<not> js_ws 0xFFFD" by (simp add: js_ws_def)
    then show "\<not> js_ws (last (utf8_text ?t))" using js_trimEnd_last [OF False] utf8_text_last [OF False] by auto
  qed (use False in simp)
  ultimately show ?thesis using False by (simp add: b stored_body_def [of "utf8_text t @ [js_LF]" for t] Let_def)
qed

lemma js_nonblank_Nil [simp]: "\<not> js_nonblank []"
  by (simp add: js_nonblank_def js_trim_def js_trimStart_def js_trimEnd_def)

lemma stored_todo_idem: "stored_todo i (stored_todo j t) = stored_todo i t"
  by (auto simp: stored_todo_def getTodoStatus_def js_def split: option.split)

text \<open>C12: C0: A todo file reads back as the todo that was written, under the identifier of the file, with an empty
  status read as open, a blank assignment as none, blank lines in front of the body and white space behind it
  dropped, and halves of surrogate pairs replaced; writing what was read and reading again changes nothing more.
\<close>

theorem stored_todo_reads_back:
  "parseTodoContent numVal (stored_text t) i = stored_todo i t \<and>
   parseTodoContent numVal (stored_text (parseTodoContent numVal (stored_text t) j)) i = parseTodoContent numVal (stored_text t) i"
  by (simp add: parse_stored_text stored_todo_idem)

end
