(* ===== verification/Todo_Store.thy ===== *)
theory Todo_Store
  imports Todo_Text
begin

text \<open>
  The todo tool (\<open>packages/coding-agent/src/core/tools/todos-locks.ts\<close>, \<open>todos-mutations.ts\<close>, \<open>todos-storage.ts\<close>,
  \<open>todos-execute.ts\<close>, \<open>todos-render.ts\<close>): one action of the tool at a time on the directory of the todos and
  their lock files.
\<close>

subsection \<open>The directory and what a call knows\<close>

text \<open>An entry of the directory with its text (no text: not a regular file) and its time of modification.\<close>

record dir_file =
  df_text :: "jstr option"
  df_mtime :: int

type_synonym todo_dir = "(jstr, dir_file) jmap"

record todo_env =
  te_now :: int
  te_iso :: "int \<Rightarrow> jstr"
  te_session :: jstr
  te_session_file :: "jstr option"
  te_pid :: js_num
  te_hasUI :: bool
  te_confirm :: bool
  te_open_error :: "jstr option"
  te_random :: "jstr list"

text \<open>What does not change from call to call: the number of a text, the texts of a number and of any value.\<close>

record todo_host =
  th_numVal :: "jstr \<Rightarrow> js_num"
  th_numText :: "js_num \<Rightarrow> jstr"
  th_string :: "json \<Rightarrow> jstr"
  th_locale :: "jstr \<Rightarrow> jstr \<Rightarrow> int"
  th_io_error :: "jstr \<Rightarrow> jstr"

text \<open>A call of an operation throws, or answers with an error, or with its result.\<close>

datatype 'a outcome = Thrown jstr | Refused jstr | Settled 'a

definition getTodoPath :: "jstr \<Rightarrow> jstr" where
  "getTodoPath i = i @ js ''.md''"

definition getLockPath :: "jstr \<Rightarrow> jstr" where
  "getLockPath i = i @ js ''.lock''"

definition existsSync :: "todo_dir \<Rightarrow> jstr \<Rightarrow> bool" where
  "existsSync dir p \<longleftrightarrow> jm_get dir p \<noteq> None"

definition file_text :: "todo_dir \<Rightarrow> jstr \<Rightarrow> jstr option" where
  "file_text dir p = Option.bind (jm_get dir p) df_text"

definition unlink :: "jstr \<Rightarrow> todo_dir \<Rightarrow> todo_dir" where
  "unlink p dir = (if file_text dir p = None then dir else jm_delete p dir)"

subsection \<open>Locks\<close>

definition LOCK_TTL_MS :: int where
  "LOCK_TTL_MS = 30 * 60 * 1000"

definition lock_text :: "todo_host \<Rightarrow> todo_env \<Rightarrow> jstr \<Rightarrow> jstr" where
  "lock_text h e i =
     json_pretty (th_numText h) 0
       (jobj [(''id'', Some (JStr i)), (''pid'', Some (JNum (te_pid e))), (''session'', map_option JStr (te_session_file e)),
              (''created_at'', Some (JStr (te_iso e (te_now e))))])"

definition readLockInfo :: "todo_host \<Rightarrow> todo_dir \<Rightarrow> jstr \<Rightarrow> json option" where
  "readLockInfo h dir lockPath = Option.bind (file_text dir lockPath) (JSON_parse (th_numVal h))"

fun json_falsy :: "json \<Rightarrow> bool" where
  "json_falsy JNull \<longleftrightarrow> True"
| "json_falsy (JBool b) \<longleftrightarrow> \<not> b"
| "json_falsy (JNum n) \<longleftrightarrow> n = JFinite 0"
| "json_falsy (JStr s) \<longleftrightarrow> s = []"
| "json_falsy _ \<longleftrightarrow> False"

definition lock_owner :: "todo_host \<Rightarrow> json option \<Rightarrow> jstr" where
  "lock_owner h info =
     (case Option.bind info (\<lambda>v. jfield v ''session'') of
        None \<Rightarrow> []
      | Some v \<Rightarrow> if json_falsy v then [] else js '' (session '' @ (case v of JStr s \<Rightarrow> s | _ \<Rightarrow> th_string h v) @ js '')'')"

primrec acquire_attempts :: "nat \<Rightarrow> todo_host \<Rightarrow> todo_env \<Rightarrow> jstr \<Rightarrow> todo_dir \<Rightarrow> todo_dir \<times> jstr option" where
  "acquire_attempts 0 h e i dir = (dir, Some (js ''Failed to acquire lock for todo '' @ displayTodoId i @ js ''.''))"
| "acquire_attempts (Suc n) h e i dir =
     (let lockPath = getLockPath i
      in case te_open_error e of
           Some m \<Rightarrow> (dir, Some (js ''Failed to acquire lock: '' @ m))
         | None \<Rightarrow>
             (case jm_get dir lockPath of
                None \<Rightarrow> (jm_set lockPath \<lparr>df_text = Some (lock_text h e i), df_mtime = te_now e\<rparr> dir, None)
              | Some f \<Rightarrow>
                  (if te_now e - df_mtime f \<le> LOCK_TTL_MS
                   then (dir, Some (js ''Todo '' @ displayTodoId i @ js '' is locked'' @ lock_owner h (readLockInfo h dir lockPath) @
                           js ''. Try again later.''))
                   else if \<not> te_hasUI e
                   then (dir, Some (js ''Todo '' @ displayTodoId i @ js '' lock is stale; rerun in interactive mode to steal it.''))
                   else if \<not> te_confirm e
                   then (dir, Some (js ''Todo '' @ displayTodoId i @ js '' remains locked.''))
                   else acquire_attempts n h e i (unlink lockPath dir))))"

definition acquireLock :: "todo_host \<Rightarrow> todo_env \<Rightarrow> jstr \<Rightarrow> todo_dir \<Rightarrow> todo_dir \<times> jstr option" where
  "acquireLock h e i dir = acquire_attempts 2 h e i dir"

definition withTodoLock ::
  "todo_host \<Rightarrow> todo_env \<Rightarrow> jstr \<Rightarrow> (todo_dir \<Rightarrow> todo_dir \<times> 'a outcome) \<Rightarrow> todo_dir \<Rightarrow> todo_dir \<times> 'a outcome" where
  "withTodoLock h e i fn dir =
     (case acquireLock h e i dir of
        (dir, Some message) \<Rightarrow> (dir, Refused message)
      | (dir, None) \<Rightarrow> (case fn dir of (dir, r) \<Rightarrow> (unlink (getLockPath i) dir, r)))"

subsection \<open>Files\<close>

definition writeTodoFile :: "todo_host \<Rightarrow> todo_env \<Rightarrow> jstr \<Rightarrow> todo \<Rightarrow> todo_dir \<Rightarrow> todo_dir \<times> todo outcome" where
  "writeTodoFile h e p t dir =
     (if existsSync dir p \<and> file_text dir p = None then (dir, Thrown (th_io_error h p))
      else (jm_set p \<lparr>df_text = Some (stored_text t), df_mtime = te_now e\<rparr> dir, Settled t))"

text \<open>\<open>None\<close> for a todo that does not exist.\<close>

definition ensureTodoExists :: "todo_host \<Rightarrow> jstr \<Rightarrow> todo_dir \<Rightarrow> todo option outcome" where
  "ensureTodoExists h i dir =
     (case jm_get dir (getTodoPath i) of
        None \<Rightarrow> Settled None
      | Some f \<Rightarrow> (case df_text f of
                     None \<Rightarrow> Thrown (th_io_error h (getTodoPath i))
                   | Some content \<Rightarrow> Settled (Some (parseTodoContent (th_numVal h) content i))))"

text \<open>Ten tries; the exception is the answer \<open>None\<close>.\<close>

definition generateTodoId :: "todo_env \<Rightarrow> todo_dir \<Rightarrow> jstr option" where
  "generateTodoId e dir = find (\<lambda>i. \<not> existsSync dir (getTodoPath i)) (take 10 (te_random e))"

definition appendTodoBody :: "todo_host \<Rightarrow> todo_env \<Rightarrow> jstr \<Rightarrow> todo \<Rightarrow> jstr \<Rightarrow> todo_dir \<Rightarrow> todo_dir \<times> todo outcome" where
  "appendTodoBody h e p t added dir = writeTodoFile h e p (t\<lparr>td_body := appended_body (td_body t) added\<rparr>) dir"

subsection \<open>Claiming, releasing, deleting\<close>

definition todo_missing :: "jstr \<Rightarrow> jstr" where
  "todo_missing i = js ''Todo '' @ displayTodoId i @ js '' not found''"

text \<open>
  The steps the three have in common: the identifier, whether there is a todo, and the lock, with what is done to
  the todo as an argument.
\<close>

definition on_todo ::
  "todo_host \<Rightarrow> todo_env \<Rightarrow> jstr \<Rightarrow> (jstr \<Rightarrow> todo \<Rightarrow> todo_dir \<Rightarrow> todo_dir \<times> todo outcome) \<Rightarrow> todo_dir \<Rightarrow> todo_dir \<times> todo outcome" where
  "on_todo h e i change dir =
     (case validateTodoId i of
        Inl message \<Rightarrow> (dir, Refused message)
      | Inr normalizedId \<Rightarrow>
          (if \<not> existsSync dir (getTodoPath normalizedId) then (dir, Refused (todo_missing i))
           else withTodoLock h e normalizedId
             (\<lambda>dir. case ensureTodoExists h normalizedId dir of
                Thrown message \<Rightarrow> (dir, Thrown message)
              | Refused message \<Rightarrow> (dir, Refused message)
              | Settled None \<Rightarrow> (dir, Refused (todo_missing i))
              | Settled (Some existing) \<Rightarrow> change normalizedId existing dir) dir))"

definition claimTodoAssignment :: "todo_host \<Rightarrow> todo_env \<Rightarrow> jstr \<Rightarrow> bool \<Rightarrow> todo_dir \<Rightarrow> todo_dir \<times> todo outcome" where
  "claimTodoAssignment h e i force =
     on_todo h e i
       (\<lambda>normalizedId existing dir.
          if isTodoClosed (td_status existing) then (dir, Refused (js ''Todo '' @ displayTodoId i @ js '' is closed''))
          else if truthy_string (td_assigned existing) \<and> td_assigned existing \<noteq> Some (te_session e) \<and> \<not> force
          then (dir, Refused (js ''Todo '' @ displayTodoId i @ js '' is already assigned to session '' @
                  the (td_assigned existing) @ js ''. Use force to override.''))
          else if td_assigned existing \<noteq> Some (te_session e)
          then writeTodoFile h e (getTodoPath normalizedId) (existing\<lparr>td_assigned := Some (te_session e)\<rparr>) dir
          else (dir, Settled existing))"

definition releaseTodoAssignment :: "todo_host \<Rightarrow> todo_env \<Rightarrow> jstr \<Rightarrow> bool \<Rightarrow> todo_dir \<Rightarrow> todo_dir \<times> todo outcome" where
  "releaseTodoAssignment h e i force =
     on_todo h e i
       (\<lambda>normalizedId existing dir.
          if \<not> truthy_string (td_assigned existing) then (dir, Settled existing)
          else if td_assigned existing \<noteq> Some (te_session e) \<and> \<not> force
          then (dir, Refused (js ''Todo '' @ displayTodoId i @ js '' is assigned to session '' @
                  the (td_assigned existing) @ js ''. Use force to release.''))
          else writeTodoFile h e (getTodoPath normalizedId) (existing\<lparr>td_assigned := None\<rparr>) dir)"

definition deleteTodo :: "todo_host \<Rightarrow> todo_env \<Rightarrow> jstr \<Rightarrow> todo_dir \<Rightarrow> todo_dir \<times> todo outcome" where
  "deleteTodo h e i =
     on_todo h e i (\<lambda>normalizedId existing dir. (unlink (getTodoPath normalizedId) dir, Settled existing))"

subsection \<open>Lists\<close>

definition assigned_open :: "todo_front \<Rightarrow> bool" where
  "assigned_open t \<longleftrightarrow> \<not> isTodoClosed (td_status t) \<and> truthy_string (td_assigned t)"

definition todo_before :: "todo_host \<Rightarrow> todo_front \<Rightarrow> todo_front \<Rightarrow> int" where
  "todo_before h a b =
     (let aClosed = isTodoClosed (td_status a); bClosed = isTodoClosed (td_status b)
      in if aClosed \<noteq> bClosed then (if aClosed then 1 else -1)
         else (let aAssigned = assigned_open a; bAssigned = assigned_open b
               in if aAssigned \<noteq> bAssigned then (if aAssigned then -1 else 1)
                  else th_locale h (td_created_at a) (td_created_at b)))"

text \<open>\<open>sort\<close> with a comparator, which keeps the order of equal elements.\<close>

primrec insert_before :: "('a \<Rightarrow> 'a \<Rightarrow> int) \<Rightarrow> 'a \<Rightarrow> 'a list \<Rightarrow> 'a list" where
  "insert_before cmp x [] = [x]"
| "insert_before cmp x (y # ys) = (if cmp x y \<le> 0 then x # y # ys else y # insert_before cmp x ys)"

definition sort_by :: "('a \<Rightarrow> 'a \<Rightarrow> int) \<Rightarrow> 'a list \<Rightarrow> 'a list" where
  "sort_by cmp xs = foldr (insert_before cmp) xs []"

definition sortTodos :: "todo_host \<Rightarrow> todo_front list \<Rightarrow> todo_front list" where
  "sortTodos h todos = sort_by (todo_before h) todos"

definition splitTodosByAssignment :: "todo_front list \<Rightarrow> todo_front list \<times> todo_front list \<times> todo_front list" where
  "splitTodosByAssignment todos =
     (filter (\<lambda>t. \<not> isTodoClosed (getTodoStatus t) \<and> truthy_string (td_assigned t)) todos,
      filter (\<lambda>t. \<not> isTodoClosed (getTodoStatus t) \<and> \<not> truthy_string (td_assigned t)) todos,
      filter (\<lambda>t. isTodoClosed (getTodoStatus t)) todos)"

definition js_endsWith :: "jstr \<Rightarrow> jstr \<Rightarrow> bool" where
  "js_endsWith s p \<longleftrightarrow> js_startsWith (rev s) (rev p)"

definition listed_todo :: "todo_host \<Rightarrow> jstr \<times> dir_file \<Rightarrow> todo_front list" where
  "listed_todo h f =
     (case f of (entry, file) \<Rightarrow>
        (if \<not> js_endsWith entry (js ''.md'') then []
         else (case df_text file of
                 None \<Rightarrow> []
               | Some content \<Rightarrow>
                   (let i = take (length entry - 3) entry
                    in [(parseFrontMatter (th_numVal h) (fst (splitFrontMatter content)) i)\<lparr>td_id := i\<rparr>]))))"

definition listTodos :: "todo_host \<Rightarrow> todo_dir \<Rightarrow> todo_front list" where
  "listTodos h dir = sortTodos h (concat (map (listed_todo h) dir))"

subsection \<open>The tool\<close>

datatype todo_action = T_List | T_List_All | T_Get | T_Create | T_Update | T_Append | T_Delete | T_Claim | T_Release

record todo_params =
  tp_action :: todo_action
  tp_id :: "jstr option"
  tp_title :: "jstr option"
  tp_status :: "jstr option"
  tp_tags :: "jstr list option"
  tp_body :: "jstr option"
  tp_force :: "bool option"

datatype todo_details =
    TodosListed (listed_all: bool) (listed: "todo_front list") (listed_for: jstr)
  | TodoDone todo_action todo
  | TodoFailed todo_action jstr

record todo_result =
  tr_text :: jstr
  tr_details :: todo_details

definition todo_fields :: "'a todo_front_scheme \<Rightarrow> (string \<times> json option) list" where
  "todo_fields t =
     [(''id'', Some (JStr (formatTodoId (td_id t)))), (''title'', Some (JStr (td_title t))),
      (''tags'', Some (JArr (map JStr (td_tags t)))), (''status'', Some (JStr (td_status t))),
      (''created_at'', Some (JStr (td_created_at t))), (''assigned_to_session'', map_option JStr (td_assigned t))]"

definition serializeTodoForAgent :: "todo \<Rightarrow> jstr" where
  "serializeTodoForAgent t = json_pretty (\<lambda>_. []) 0 (jobj (todo_fields t @ [(''body'', Some (JStr (td_body t)))]))"

definition serializeTodoListForAgent :: "todo_front list \<Rightarrow> jstr" where
  "serializeTodoListForAgent todos =
     (case splitTodosByAssignment todos of
        (assignedTodos, openTodos, closedTodos) \<Rightarrow>
          (let mapTodo = (\<lambda>t. jobj (todo_fields t))
           in json_pretty (\<lambda>_. []) 0
                (jobj [(''assigned'', Some (JArr (map mapTodo assignedTodos))), (''open'', Some (JArr (map mapTodo openTodos))),
                       (''closed'', Some (JArr (map mapTodo closedTodos)))])))"

definition todoActionResult :: "todo_action \<Rightarrow> jstr \<Rightarrow> jstr \<Rightarrow> todo_result" where
  "todoActionResult action message detailsError = \<lparr>tr_text = message, tr_details = TodoFailed action detailsError\<rparr>"

definition idRequiredResult :: "todo_action \<Rightarrow> todo_result" where
  "idRequiredResult action = todoActionResult action (js ''Error: id required'') (js ''id required'')"

definition todoSuccessResult :: "todo_action \<Rightarrow> todo \<Rightarrow> todo_result" where
  "todoSuccessResult action t = \<lparr>tr_text = serializeTodoForAgent t, tr_details = TodoDone action t\<rparr>"

text \<open>What the tool makes of the outcome of an operation; \<open>Inl\<close> rejects.\<close>

definition outcome_result :: "todo_action \<Rightarrow> todo outcome \<Rightarrow> jstr + todo_result" where
  "outcome_result action r =
     (case r of
        Thrown message \<Rightarrow> Inl message
      | Refused message \<Rightarrow> Inr (todoActionResult action message message)
      | Settled t \<Rightarrow> Inr (todoSuccessResult action t))"

definition executeListAction :: "todo_host \<Rightarrow> todo_env \<Rightarrow> todo_dir \<Rightarrow> todo_result" where
  "executeListAction h e dir =
     (case splitTodosByAssignment (listTodos h dir) of
        (assignedTodos, openTodos, _) \<Rightarrow>
          (let listedTodos = assignedTodos @ openTodos
           in \<lparr>tr_text = serializeTodoListForAgent listedTodos, tr_details = TodosListed False listedTodos (te_session e)\<rparr>))"

definition executeListAllAction :: "todo_host \<Rightarrow> todo_env \<Rightarrow> todo_dir \<Rightarrow> todo_result" where
  "executeListAllAction h e dir =
     (let todos = listTodos h dir
      in \<lparr>tr_text = serializeTodoListForAgent todos, tr_details = TodosListed True todos (te_session e)\<rparr>)"

definition executeGetAction :: "todo_host \<Rightarrow> todo_params \<Rightarrow> todo_dir \<Rightarrow> jstr + todo_result" where
  "executeGetAction h p dir =
     (if \<not> truthy_string (tp_id p) then Inr (idRequiredResult T_Get)
      else (case validateTodoId (the (tp_id p)) of
              Inl message \<Rightarrow> Inr (todoActionResult T_Get message message)
            | Inr normalizedId \<Rightarrow>
                (case ensureTodoExists h normalizedId dir of
                   Thrown message \<Rightarrow> Inl message
                 | Refused message \<Rightarrow> Inr (todoActionResult T_Get message message)
                 | Settled None \<Rightarrow>
                     Inr (todoActionResult T_Get (js ''Todo '' @ formatTodoId normalizedId @ js '' not found'') (js ''not found''))
                 | Settled (Some t) \<Rightarrow> Inr (todoSuccessResult T_Get t))))"

definition executeCreateAction :: "todo_host \<Rightarrow> todo_env \<Rightarrow> todo_params \<Rightarrow> todo_dir \<Rightarrow> todo_dir \<times> (jstr + todo_result)" where
  "executeCreateAction h e p dir =
     (if \<not> truthy_string (tp_title p) then (dir, Inr (todoActionResult T_Create (js ''Error: title required'') (js ''title required'')))
      else (case generateTodoId e dir of
              None \<Rightarrow> (dir, Inl (js ''Failed to generate unique todo id''))
            | Some i \<Rightarrow>
                (let t = \<lparr>td_id = i, td_title = the (tp_title p), td_tags = (case tp_tags p of None \<Rightarrow> [] | Some ts \<Rightarrow> ts),
                     td_status = (case tp_status p of None \<Rightarrow> js ''open'' | Some st \<Rightarrow> st), td_created_at = te_iso e (te_now e),
                     td_assigned = None, td_body = (case tp_body p of None \<Rightarrow> [] | Some b \<Rightarrow> b)\<rparr>
                 in case withTodoLock h e i (writeTodoFile h e (getTodoPath i) t) dir of
                      (dir, r) \<Rightarrow> (dir, outcome_result T_Create r))))"

text \<open>\<open>if (value !== undefined)\<close> with an assignment.\<close>

definition if_given :: "'b option \<Rightarrow> ('b \<Rightarrow> 'a \<Rightarrow> 'a) \<Rightarrow> 'a \<Rightarrow> 'a" where
  "if_given v assign t = (case v of None \<Rightarrow> t | Some x \<Rightarrow> assign x t)"

definition updated_todo :: "todo_env \<Rightarrow> todo_params \<Rightarrow> jstr \<Rightarrow> todo \<Rightarrow> todo" where
  "updated_todo e p normalizedId existing =
     (let t = existing\<lparr>td_id := normalizedId\<rparr>;
          t = if_given (tp_title p) (\<lambda>title t. t\<lparr>td_title := title\<rparr>) t;
          t = if_given (tp_status p) (\<lambda>status t. t\<lparr>td_status := status\<rparr>) t;
          t = if_given (tp_tags p) (\<lambda>tags t. t\<lparr>td_tags := tags\<rparr>) t;
          t = if_given (tp_body p) (\<lambda>body t. t\<lparr>td_body := body\<rparr>) t;
          t = (if td_created_at t = [] then t\<lparr>td_created_at := te_iso e (te_now e)\<rparr> else t)
      in clearAssignmentIfClosed t)"

text \<open>Updating and appending: as above, with the answers of the tool.\<close>

definition execute_on_todo ::
  "todo_action \<Rightarrow> todo_host \<Rightarrow> todo_env \<Rightarrow> todo_params \<Rightarrow> (jstr \<Rightarrow> todo \<Rightarrow> todo_dir \<Rightarrow> todo_dir \<times> todo outcome) \<Rightarrow>
   todo_dir \<Rightarrow> todo_dir \<times> (jstr + todo_result)" where
  "execute_on_todo action h e p change dir =
     (if \<not> truthy_string (tp_id p) then (dir, Inr (idRequiredResult action))
      else (case validateTodoId (the (tp_id p)) of
              Inl message \<Rightarrow> (dir, Inr (todoActionResult action message message))
            | Inr normalizedId \<Rightarrow>
                (let missing = js ''Todo '' @ formatTodoId normalizedId @ js '' not found''
                 in if \<not> existsSync dir (getTodoPath normalizedId) then (dir, Inr (todoActionResult action missing (js ''not found'')))
                    else (case withTodoLock h e normalizedId
                                 (\<lambda>dir. case ensureTodoExists h normalizedId dir of
                                    Thrown message \<Rightarrow> (dir, Thrown message)
                                  | Refused message \<Rightarrow> (dir, Refused message)
                                  | Settled None \<Rightarrow> (dir, Refused missing)
                                  | Settled (Some existing) \<Rightarrow> change normalizedId existing dir) dir of
                            (dir, r) \<Rightarrow> (dir, outcome_result action r)))))"

definition executeUpdateAction :: "todo_host \<Rightarrow> todo_env \<Rightarrow> todo_params \<Rightarrow> todo_dir \<Rightarrow> todo_dir \<times> (jstr + todo_result)" where
  "executeUpdateAction h e p =
     execute_on_todo T_Update h e p
       (\<lambda>normalizedId existing. writeTodoFile h e (getTodoPath normalizedId) (updated_todo e p normalizedId existing))"

definition executeAppendAction :: "todo_host \<Rightarrow> todo_env \<Rightarrow> todo_params \<Rightarrow> todo_dir \<Rightarrow> todo_dir \<times> (jstr + todo_result)" where
  "executeAppendAction h e p =
     execute_on_todo T_Append h e p
       (\<lambda>normalizedId existing dir.
          case tp_body p of
            None \<Rightarrow> (dir, Settled existing)
          | Some body \<Rightarrow> if js_trim body = [] then (dir, Settled existing)
                         else appendTodoBody h e (getTodoPath normalizedId) existing body dir)"

definition executeClaimAction :: "todo_host \<Rightarrow> todo_env \<Rightarrow> todo_params \<Rightarrow> todo_dir \<Rightarrow> todo_dir \<times> (jstr + todo_result)" where
  "executeClaimAction h e p dir =
     (if \<not> truthy_string (tp_id p) then (dir, Inr (idRequiredResult T_Claim))
      else (case claimTodoAssignment h e (the (tp_id p)) (tp_force p = Some True) dir of
              (dir, r) \<Rightarrow> (dir, outcome_result T_Claim r)))"

definition executeReleaseAction :: "todo_host \<Rightarrow> todo_env \<Rightarrow> todo_params \<Rightarrow> todo_dir \<Rightarrow> todo_dir \<times> (jstr + todo_result)" where
  "executeReleaseAction h e p dir =
     (if \<not> truthy_string (tp_id p) then (dir, Inr (idRequiredResult T_Release))
      else (case releaseTodoAssignment h e (the (tp_id p)) (tp_force p = Some True) dir of
              (dir, r) \<Rightarrow> (dir, outcome_result T_Release r)))"

definition executeDeleteAction :: "todo_host \<Rightarrow> todo_env \<Rightarrow> todo_params \<Rightarrow> todo_dir \<Rightarrow> todo_dir \<times> (jstr + todo_result)" where
  "executeDeleteAction h e p dir =
     (if \<not> truthy_string (tp_id p) then (dir, Inr (idRequiredResult T_Delete))
      else (case validateTodoId (the (tp_id p)) of
              Inl message \<Rightarrow> (dir, Inr (todoActionResult T_Delete message message))
            | Inr validated \<Rightarrow> (case deleteTodo h e validated dir of (dir, r) \<Rightarrow> (dir, outcome_result T_Delete r))))"

definition executeTodoToolAction :: "todo_host \<Rightarrow> todo_env \<Rightarrow> todo_params \<Rightarrow> todo_dir \<Rightarrow> todo_dir \<times> (jstr + todo_result)" where
  "executeTodoToolAction h e p dir =
     (case tp_action p of
        T_List \<Rightarrow> (dir, Inr (executeListAction h e dir))
      | T_List_All \<Rightarrow> (dir, Inr (executeListAllAction h e dir))
      | T_Get \<Rightarrow> (dir, executeGetAction h p dir)
      | T_Create \<Rightarrow> executeCreateAction h e p dir
      | T_Update \<Rightarrow> executeUpdateAction h e p dir
      | T_Append \<Rightarrow> executeAppendAction h e p dir
      | T_Claim \<Rightarrow> executeClaimAction h e p dir
      | T_Release \<Rightarrow> executeReleaseAction h e p dir
      | T_Delete \<Rightarrow> executeDeleteAction h e p dir)"

subsection \<open>What a call touches\<close>

definition only_at :: "jstr \<Rightarrow> todo_dir \<Rightarrow> todo_dir \<Rightarrow> bool" where
  "only_at p dir d \<longleftrightarrow> (\<forall>q. q \<noteq> p \<longrightarrow> jm_get d q = jm_get dir q)"

definition touches_todo :: "jstr \<Rightarrow> todo_dir \<Rightarrow> todo_dir \<Rightarrow> bool" where
  "touches_todo i dir d \<longleftrightarrow>
     (\<forall>q. q \<noteq> getTodoPath i \<longrightarrow> q \<noteq> getLockPath i \<longrightarrow> jm_get d q = jm_get dir q) \<and>
     (jm_get d (getLockPath i) = None \<or> jm_get d (getLockPath i) = jm_get dir (getLockPath i))"

lemma path_simps [simp]:
  "getTodoPath i = getTodoPath j \<longleftrightarrow> i = j" "getLockPath i \<noteq> getTodoPath j" "getTodoPath j \<noteq> getLockPath i"
proof -
  have "last (getLockPath i) \<noteq> last (getTodoPath j)" by (simp add: getLockPath_def getTodoPath_def js_def)
  then show "getLockPath i \<noteq> getTodoPath j" "getTodoPath j \<noteq> getLockPath i" by metis+
qed (simp add: getTodoPath_def)

lemma only_at_refl [simp]: "only_at p dir dir"
  by (simp add: only_at_def)

lemma only_at_trans: "only_at p a b \<Longrightarrow> only_at p b c \<Longrightarrow> only_at p a c"
  by (simp add: only_at_def)

lemma only_at_unlink: "only_at p dir (unlink p dir)"
  by (simp add: only_at_def unlink_def)

lemma only_at_write: "writeTodoFile h e p t dir = (d, r) \<Longrightarrow> only_at p dir d"
  by (auto simp: writeTodoFile_def only_at_def split: if_splits)

lemma touches_refl [simp]: "touches_todo i dir dir"
  by (simp add: touches_todo_def)

lemma acquire_attempts_only:
  "acquire_attempts n h e i dir = (d, r) \<Longrightarrow> only_at (getLockPath i) dir d \<and>
    (r = None \<longrightarrow> file_text d (getLockPath i) \<noteq> None) \<and>
    (r \<noteq> None \<longrightarrow> jm_get d (getLockPath i) = None \<or> jm_get d (getLockPath i) = jm_get dir (getLockPath i))"
proof (induction n arbitrary: dir)
  case (Suc n)
  show ?case
  proof (cases "acquire_attempts n h e i (unlink (getLockPath i) dir) = (d, r)")
    case True
    have "jm_get (unlink (getLockPath i) dir) (getLockPath i) \<in> {None, jm_get dir (getLockPath i)}" by (simp add: unlink_def)
    with Suc.IH [OF True] only_at_trans [OF only_at_unlink] show ?thesis by (metis insertE singletonD)
  next
    case False
    with Suc.prems show ?thesis
      by (auto simp: Let_def only_at_def file_text_def split: option.splits if_splits)
  qed
qed auto

lemma acquireLock_only:
  assumes "acquireLock h e i dir = (d, r)"
  shows "only_at (getLockPath i) dir d" "r = None \<Longrightarrow> file_text d (getLockPath i) \<noteq> None"
    "r \<noteq> None \<Longrightarrow> jm_get d (getLockPath i) = None \<or> jm_get d (getLockPath i) = jm_get dir (getLockPath i)"
  using acquire_attempts_only [OF assms [unfolded acquireLock_def]] by auto

lemma withTodoLock_touches:
  assumes "withTodoLock h e i fn dir = (d, r)" "\<And>a b r. fn a = (b, r) \<Longrightarrow> only_at (getTodoPath i) a b"
  shows "touches_todo i dir d"
proof (cases "acquireLock h e i dir")
  case (Pair a m)
  note lock = acquireLock_only [OF Pair]
  show ?thesis
  proof (cases m)
    case None
    obtain b r' where b: "fn a = (b, r')" by (cases "fn a")
    with assms(1) None Pair have d: "d = unlink (getLockPath i) b" by (simp add: withTodoLock_def)
    have "jm_get b (getLockPath i) = jm_get a (getLockPath i)" using assms(2) [OF b] by (simp add: only_at_def)
    then have "file_text b (getLockPath i) \<noteq> None" using lock(2) [OF None] by (simp only: file_text_def not_False_eq_True)
    then have "jm_get d (getLockPath i) = None" by (auto simp: d unlink_def)
    moreover have "jm_get d q = jm_get dir q" if "q \<noteq> getTodoPath i" "q \<noteq> getLockPath i" for q
      using that lock(1) assms(2) [OF b] by (simp add: d unlink_def only_at_def)
    ultimately show ?thesis by (simp add: touches_todo_def)
  next
    case (Some message)
    with assms(1) Pair have "d = a" by (simp add: withTodoLock_def)
    with lock(1) lock(3) Some show ?thesis by (auto simp: touches_todo_def only_at_def)
  qed
qed

lemma locked_change_touches:
  assumes "withTodoLock h e i
      (\<lambda>dir. case ensureTodoExists h i dir of
         Thrown message \<Rightarrow> (dir, Thrown message)
       | Refused message \<Rightarrow> (dir, Refused message)
       | Settled None \<Rightarrow> (dir, Refused missing)
       | Settled (Some existing) \<Rightarrow> change i existing dir) dir = (d, r)"
    and "\<And>t a b r. change i t a = (b, r) \<Longrightarrow> only_at (getTodoPath i) a b"
  shows "touches_todo i dir d"
  using assms(1)
proof (rule withTodoLock_touches)
  fix a b r
  assume "(case ensureTodoExists h i a of
         Thrown message \<Rightarrow> (a, Thrown message)
       | Refused message \<Rightarrow> (a, Refused message)
       | Settled None \<Rightarrow> (a, Refused missing)
       | Settled (Some existing) \<Rightarrow> change i existing a) = (b, r)"
  then show "only_at (getTodoPath i) a b" using assms(2) by (auto split: outcome.splits option.splits)
qed

lemma on_todo_touches:
  assumes "on_todo h e i change dir = (d, r)" "\<And>j t a b r. change j t a = (b, r) \<Longrightarrow> only_at (getTodoPath j) a b"
  shows "\<exists>j. touches_todo j dir d"
proof (cases "validateTodoId i")
  case (Inr j)
  show ?thesis
  proof (cases "existsSync dir (getTodoPath j)")
    case True
    with assms(1) Inr have "withTodoLock h e j
        (\<lambda>dir. case ensureTodoExists h j dir of
           Thrown message \<Rightarrow> (dir, Thrown message)
         | Refused message \<Rightarrow> (dir, Refused message)
         | Settled None \<Rightarrow> (dir, Refused (todo_missing i))
         | Settled (Some existing) \<Rightarrow> change j existing dir) dir = (d, r)" by (simp add: on_todo_def)
    then have "touches_todo j dir d" by (rule locked_change_touches) (rule assms(2))
    then show ?thesis ..
  qed (use assms(1) Inr in \<open>auto simp: on_todo_def intro: touches_refl\<close>)
qed (use assms(1) in \<open>auto simp: on_todo_def intro: touches_refl\<close>)

lemma execute_on_todo_touches:
  assumes "execute_on_todo action h e p change dir = (d, r)" "\<And>j t a b r. change j t a = (b, r) \<Longrightarrow> only_at (getTodoPath j) a b"
  shows "\<exists>j. touches_todo j dir d"
proof (cases "truthy_string (tp_id p) \<and> (\<exists>j. validateTodoId (the (tp_id p)) = Inr j \<and> existsSync dir (getTodoPath j))")
  case True
  then obtain j where j: "validateTodoId (the (tp_id p)) = Inr j" "existsSync dir (getTodoPath j)" by blast
  with assms(1) True obtain r' where "withTodoLock h e j
      (\<lambda>dir. case ensureTodoExists h j dir of
         Thrown message \<Rightarrow> (dir, Thrown message)
       | Refused message \<Rightarrow> (dir, Refused message)
       | Settled None \<Rightarrow> (dir, Refused (js ''Todo '' @ formatTodoId j @ js '' not found''))
       | Settled (Some existing) \<Rightarrow> change j existing dir) dir = (d, r')"
    by (auto simp: execute_on_todo_def Let_def split: prod.splits)
  then have "touches_todo j dir d" by (rule locked_change_touches) (rule assms(2))
  then show ?thesis ..
next
  case False
  with assms(1) have "d = dir" by (auto simp: execute_on_todo_def Let_def split: if_splits sum.splits)
  then show ?thesis by simp
qed

text \<open>What is done to a todo stays in its file.\<close>

lemma changes_only:
  "claimTodoAssignment h e i force dir = (d, r) \<Longrightarrow> \<exists>j. touches_todo j dir d"
  "releaseTodoAssignment h e i force dir = (d, r) \<Longrightarrow> \<exists>j. touches_todo j dir d"
  "deleteTodo h e i dir = (d, r) \<Longrightarrow> \<exists>j. touches_todo j dir d"
  unfolding claimTodoAssignment_def releaseTodoAssignment_def deleteTodo_def
  by (erule on_todo_touches; auto intro: only_at_write only_at_unlink split: if_splits)+

text \<open>A call of the todo tool touches the file and the lock of one todo and no other entry of the directory, and
  leaves no lock of its own behind, whether it succeeds, is refused or throws: behind it the lock is gone or the one
  that was there before.
\<close>

theorem tool_calls_leave_no_lock:
  assumes "executeTodoToolAction h e p dir = (dir', r)"
  shows "\<exists>i. touches_todo i dir dir'"
proof -
  have "\<exists>i. touches_todo i dir dir'" if "executeCreateAction h e p dir = (dir', r)"
  proof -
    have "\<exists>i. touches_todo i dir dir'" if "withTodoLock h e i (writeTodoFile h e (getTodoPath i) t) dir = (dir', r')" for i t r'
      by (rule exI, rule withTodoLock_touches [OF that]) (rule only_at_write)
    with that show ?thesis
      by (auto simp: executeCreateAction_def Let_def intro: touches_refl split: if_splits option.splits prod.splits)
  qed
  moreover have "\<exists>i. touches_todo i dir dir'" if "executeUpdateAction h e p dir = (dir', r)"
    using that unfolding executeUpdateAction_def by (rule execute_on_todo_touches) (rule only_at_write)
  moreover have "\<exists>i. touches_todo i dir dir'" if "executeAppendAction h e p dir = (dir', r)"
    using that unfolding executeAppendAction_def
    by (rule execute_on_todo_touches) (auto simp: appendTodoBody_def intro: only_at_write split: option.splits if_splits)
  moreover have "\<exists>i. touches_todo i dir dir'"
    if "executeClaimAction h e p dir = (dir', r) \<or> executeReleaseAction h e p dir = (dir', r) \<or> executeDeleteAction h e p dir = (dir', r)"
    using that unfolding executeClaimAction_def executeReleaseAction_def executeDeleteAction_def
    by (auto intro: touches_refl dest: changes_only split: if_splits prod.splits sum.splits)
  ultimately show ?thesis
    using assms touches_refl by (cases "tp_action p") (auto simp: executeTodoToolAction_def)
qed

subsection \<open>Claims\<close>

definition claimed_by :: "todo_host \<Rightarrow> jstr \<Rightarrow> jstr \<Rightarrow> todo_dir \<Rightarrow> bool" where
  "claimed_by h i s dir \<longleftrightarrow>
     (case ensureTodoExists h i dir of
        Settled (Some t) \<Rightarrow> td_assigned t = Some s \<and> \<not> isTodoClosed (td_status t)
      | _ \<Rightarrow> False)"

definition aimed_at :: "jstr \<Rightarrow> todo_params \<Rightarrow> bool" where
  "aimed_at i p \<longleftrightarrow> (case tp_id p of None \<Rightarrow> False | Some j \<Rightarrow> validateTodoId j = Inr i)"

definition respects_claim :: "jstr \<Rightarrow> jstr \<Rightarrow> todo_env \<times> todo_params \<Rightarrow> bool" where
  "respects_claim s i = (\<lambda>(e, p).
     \<not> aimed_at i p \<or> te_session e \<noteq> s \<and>
       (case tp_action p of
          T_Delete \<Rightarrow> False
        | T_Claim \<Rightarrow> tp_force p \<noteq> Some True
        | T_Release \<Rightarrow> tp_force p \<noteq> Some True
        | T_Update \<Rightarrow> (case tp_status p of None \<Rightarrow> True | Some st \<Rightarrow> \<not> isTodoClosed st)
        | _ \<Rightarrow> True))"

fun todo_run :: "todo_host \<Rightarrow> (todo_env \<times> todo_params) list \<Rightarrow> todo_dir \<Rightarrow> todo_dir \<times> (jstr + todo_result) list" where
  "todo_run h [] dir = (dir, [])"
| "todo_run h ((e, p) # calls) dir =
     (case executeTodoToolAction h e p dir of
        (dir, r) \<Rightarrow> (case todo_run h calls dir of (dir, rs) \<Rightarrow> (dir, r # rs)))"

definition did_nothing_to :: "jstr \<Rightarrow> todo_env \<times> todo_params \<Rightarrow> jstr + todo_result \<Rightarrow> bool" where
  "did_nothing_to i = (\<lambda>(e, p) r.
     aimed_at i p \<and> (tp_action p = T_Claim \<or> tp_action p = T_Release) \<longrightarrow>
       (case r of Inl message \<Rightarrow> True | Inr result \<Rightarrow> (case tr_details result of TodoFailed a m \<Rightarrow> True | _ \<Rightarrow> False)))"

lemma claimed_cong: "jm_get d (getTodoPath i) = jm_get dir (getTodoPath i) \<Longrightarrow> claimed_by h i s d = claimed_by h i s dir"
  by (simp add: claimed_by_def ensureTodoExists_def)

lemma claimed_only_at: "only_at p dir d \<Longrightarrow> p \<noteq> getTodoPath i \<Longrightarrow> claimed_by h i s d = claimed_by h i s dir"
  by (rule claimed_cong) (simp add: only_at_def)

lemma claimed_todo: "claimed_by h i s dir \<Longrightarrow> ensureTodoExists h i dir = Settled (Some t) \<Longrightarrow> td_assigned t = Some s \<and> \<not> isTodoClosed (td_status t)"
  by (simp add: claimed_by_def)

lemma with_string_keeps: "P d \<Longrightarrow> (\<And>t d. P d \<Longrightarrow> P (f t d)) \<Longrightarrow> P (with_string v f d)"
  by (simp add: with_string_def split: option.split json.split)

lemma with_array_keeps: "P d \<Longrightarrow> (\<And>t d. P d \<Longrightarrow> P (f t d)) \<Longrightarrow> P (with_array v f d)"
  by (simp add: with_array_def split: option.split json.split)

definition nonblank_assigned :: "'a todo_front_scheme \<Rightarrow> bool" where
  "nonblank_assigned d \<longleftrightarrow> (\<forall>s. td_assigned d = Some s \<longrightarrow> js_nonblank s)"

lemma nonblank_simps [simp]:
  "nonblank_assigned (d\<lparr>td_id := x\<rparr>) = nonblank_assigned d" "nonblank_assigned (d\<lparr>td_title := x\<rparr>) = nonblank_assigned d"
  "nonblank_assigned (d\<lparr>td_tags := y\<rparr>) = nonblank_assigned d"
  "nonblank_assigned (d\<lparr>td_status := x\<rparr>) = nonblank_assigned d" "nonblank_assigned (d\<lparr>td_created_at := x\<rparr>) = nonblank_assigned d"
  "nonblank_assigned (d\<lparr>td_assigned := Some s\<rparr>) = js_nonblank s" "nonblank_assigned (default_front i)"
  by (simp_all add: nonblank_assigned_def default_front_def)

lemma front_nonblank: "nonblank_assigned (front_of_json i v)"
  unfolding front_of_json_def Let_def
  by (intro with_array_keeps [where P = nonblank_assigned] with_string_keeps [where P = nonblank_assigned]) simp_all

lemma parsed_nonblank: "nonblank_assigned (parseTodoContent nv c i)"
  using front_nonblank [unfolded nonblank_assigned_def]
  by (auto simp: parseTodoContent_def parseFrontMatter_def Let_def nonblank_assigned_def default_front_def
    split: prod.splits option.splits)

lemma existing_nonblank: "ensureTodoExists h i dir = Settled (Some t) \<Longrightarrow> td_assigned t = Some s \<Longrightarrow> js_nonblank s"
  by (use parsed_nonblank in \<open>auto simp: ensureTodoExists_def nonblank_assigned_def split: option.splits\<close>)

lemma claimed_write:
  assumes "claimed_by h i s dir" "td_assigned t = Some s" "js_nonblank s" "\<not> isTodoClosed (getTodoStatus t)"
    and "writeTodoFile h e (getTodoPath i) t dir = (d, r)"
  shows "claimed_by h i s d"
  using assms
  by (auto simp: writeTodoFile_def claimed_by_def ensureTodoExists_def parse_stored_text stored_todo_def split: if_splits)

lemma withTodoLock_claim:
  assumes "withTodoLock h e j fn dir = (d, r)" "claimed_by h i s dir"
    and "\<And>a b r. claimed_by h i s a \<Longrightarrow> fn a = (b, r) \<Longrightarrow> claimed_by h i s b \<and> Q r"
    and "\<And>m. Q (Refused m)"
  shows "claimed_by h i s d \<and> Q r"
proof (cases "acquireLock h e j dir")
  case (Pair a m)
  have a: "claimed_by h i s a" using acquireLock_only(1) [OF Pair] assms(2) claimed_only_at path_simps(2) by blast
  show ?thesis
  proof (cases m)
    case None
    obtain b r' where b: "fn a = (b, r')" by (cases "fn a")
    with assms(1) None Pair have d: "d = unlink (getLockPath j) b" "r = r'" by (simp_all add: withTodoLock_def)
    with assms(3) [OF a b] claimed_only_at [OF only_at_unlink path_simps(2)] show ?thesis by simp
  qed (use assms(1,4) Pair a in \<open>auto simp: withTodoLock_def\<close>)
qed

text \<open>A change of a todo, where it is read under the lock: what is read of the claimed todo is claimed.\<close>

lemma locked_change_claim:
  assumes "withTodoLock h e j
      (\<lambda>dir. case ensureTodoExists h j dir of
         Thrown message \<Rightarrow> (dir, Thrown message)
       | Refused message \<Rightarrow> (dir, Refused message)
       | Settled None \<Rightarrow> (dir, Refused missing)
       | Settled (Some existing) \<Rightarrow> change j existing dir) dir = (d, r)"
    and "claimed_by h i s dir"
    and change: "\<And>t a b r. claimed_by h i s a \<Longrightarrow> (j = i \<Longrightarrow> td_assigned t = Some s \<and> js_nonblank s \<and> \<not> isTodoClosed (td_status t)) \<Longrightarrow>
      change j t a = (b, r) \<Longrightarrow> claimed_by h i s b \<and> Q r"
    and Q: "\<And>m. Q (Refused m)" "\<And>m. Q (Thrown m)"
  shows "claimed_by h i s d \<and> Q r"
  using assms(1,2)
proof (rule withTodoLock_claim [where Q = Q, OF _ _ _ Q(1)])
  fix a b r
  assume a: "claimed_by h i s a" and eq: "(case ensureTodoExists h j a of
         Thrown message \<Rightarrow> (a, Thrown message)
       | Refused message \<Rightarrow> (a, Refused message)
       | Settled None \<Rightarrow> (a, Refused missing)
       | Settled (Some existing) \<Rightarrow> change j existing a) = (b, r)"
  show "claimed_by h i s b \<and> Q r"
  proof (cases "\<exists>t. ensureTodoExists h j a = Settled (Some t)")
    case True
    then obtain t where t: "ensureTodoExists h j a = Settled (Some t)" by blast
    show ?thesis
    proof (rule change [OF a])
      assume "j = i"
      with t claimed_todo [OF a] existing_nonblank [of h i a t s]
      show "td_assigned t = Some s \<and> js_nonblank s \<and> \<not> isTodoClosed (td_status t)" by auto
    qed (use eq t in simp)
  qed (use eq a Q in \<open>auto split: outcome.splits option.splits\<close>)
qed

lemma on_todo_claim:
  assumes "on_todo h e x change dir = (d, r)" "claimed_by h i s dir"
    and "\<And>j t a b r. validateTodoId x = Inr j \<Longrightarrow> claimed_by h i s a \<Longrightarrow>
      (j = i \<Longrightarrow> td_assigned t = Some s \<and> js_nonblank s \<and> \<not> isTodoClosed (td_status t)) \<Longrightarrow>
      change j t a = (b, r) \<Longrightarrow> claimed_by h i s b \<and> Q r"
    and "\<And>m. Q (Refused m)" "\<And>m. Q (Thrown m)"
  shows "claimed_by h i s d \<and> Q r"
proof (cases "validateTodoId x")
  case (Inr j)
  show ?thesis
  proof (cases "existsSync dir (getTodoPath j)")
    case True
    with assms(1) Inr have "withTodoLock h e j
        (\<lambda>dir. case ensureTodoExists h j dir of
           Thrown message \<Rightarrow> (dir, Thrown message)
         | Refused message \<Rightarrow> (dir, Refused message)
         | Settled None \<Rightarrow> (dir, Refused (todo_missing x))
         | Settled (Some existing) \<Rightarrow> change j existing dir) dir = (d, r)" by (simp add: on_todo_def)
    then show ?thesis using assms(2) by (rule locked_change_claim) (rule assms(3) [OF Inr] assms(4,5); assumption)+
  qed (use assms(1,2,4) Inr in \<open>auto simp: on_todo_def\<close>)
qed (use assms(1,2,4) in \<open>auto simp: on_todo_def\<close>)

lemma execute_on_todo_claim:
  assumes "execute_on_todo action h e p change dir = (d, r)" "claimed_by h i s dir"
    and "\<And>j t a b r. validateTodoId (the (tp_id p)) = Inr j \<Longrightarrow> tp_id p \<noteq> None \<Longrightarrow> claimed_by h i s a \<Longrightarrow>
      (j = i \<Longrightarrow> td_assigned t = Some s \<and> js_nonblank s \<and> \<not> isTodoClosed (td_status t)) \<Longrightarrow>
      change j t a = (b, r) \<Longrightarrow> claimed_by h i s b"
  shows "claimed_by h i s d"
proof (cases "truthy_string (tp_id p) \<and> (\<exists>j. validateTodoId (the (tp_id p)) = Inr j \<and> existsSync dir (getTodoPath j))")
  case True
  then obtain j where j: "validateTodoId (the (tp_id p)) = Inr j" "existsSync dir (getTodoPath j)" by blast
  with assms(1) True obtain r' where "withTodoLock h e j
      (\<lambda>dir. case ensureTodoExists h j dir of
         Thrown message \<Rightarrow> (dir, Thrown message)
       | Refused message \<Rightarrow> (dir, Refused message)
       | Settled None \<Rightarrow> (dir, Refused (js ''Todo '' @ formatTodoId j @ js '' not found''))
       | Settled (Some existing) \<Rightarrow> change j existing dir) dir = (d, r')"
    by (auto simp: execute_on_todo_def Let_def split: prod.splits)
  then have "claimed_by h i s d \<and> True"
    using assms(2)
  proof (rule locked_change_claim)
    fix t a b r
    assume "claimed_by h i s a" "j = i \<Longrightarrow> td_assigned t = Some s \<and> js_nonblank s \<and> \<not> isTodoClosed (td_status t)" "change j t a = (b, r)"
    moreover have "tp_id p \<noteq> None" using True by (auto simp: truthy_string_def)
    ultimately show "claimed_by h i s b \<and> True" using assms(3) [OF j(1)] by blast
  qed simp_all
  then show ?thesis ..
next
  case False
  with assms(1) have "d = dir" by (auto simp: execute_on_todo_def Let_def split: if_splits sum.splits)
  with assms(2) show ?thesis by simp
qed

lemma claimed_exists: "claimed_by h i s dir \<Longrightarrow> existsSync dir (getTodoPath i)"
  by (auto simp: claimed_by_def ensureTodoExists_def existsSync_def split: option.splits)

lemma claimed_write_other: "claimed_by h i s dir \<Longrightarrow> writeTodoFile h e (getTodoPath j) t dir = (d, r) \<Longrightarrow> j \<noteq> i \<Longrightarrow> claimed_by h i s d"
  using claimed_only_at [OF only_at_write] by (metis path_simps(1))

lemma create_claim:
  assumes "executeCreateAction h e p dir = (d, r)" "claimed_by h i s dir"
  shows "claimed_by h i s d"
proof (cases "\<exists>j t r'. j \<noteq> i \<and> withTodoLock h e j (writeTodoFile h e (getTodoPath j) t) dir = (d, r')")
  case True
  then obtain j t r' where j: "j \<noteq> i" "withTodoLock h e j (writeTodoFile h e (getTodoPath j) t) dir = (d, r')" by blast
  from j(2) assms(2) have "claimed_by h i s d \<and> True" by (rule withTodoLock_claim) (use claimed_write_other j(1) in blast)+
  then show ?thesis ..
next
  case False
  have "j \<noteq> i" if "generateTodoId e dir = Some j" for j
    using that claimed_exists [OF assms(2)] by (auto simp: generateTodoId_def find_Some_iff)
  with False assms show ?thesis
    by (auto simp: executeCreateAction_def Let_def split: if_splits option.splits prod.splits)
qed

lemma if_given_same: "(\<And>x t. F (assign x t) = F t) \<Longrightarrow> F (if_given v assign t) = F t"
  by (simp add: if_given_def split: option.split)

lemma if_given_simps [simp]: "if_given None assign t = t" "if_given (Some x) assign t = assign x t"
  by (simp_all add: if_given_def)

lemmas if_given_fields = if_given_same [where F = td_assigned] if_given_same [where F = td_status]

lemma updated_claim:
  assumes "td_assigned t = Some s" "\<not> isTodoClosed (td_status t)" "case tp_status p of None \<Rightarrow> True | Some st \<Rightarrow> \<not> isTodoClosed st"
  shows "td_assigned (updated_todo e p j t) = Some s \<and> \<not> isTodoClosed (getTodoStatus (updated_todo e p j t))"
proof -
  define u where "u = if_given (tp_status p) (\<lambda>status t. t\<lparr>td_status := status\<rparr>) (if_given (tp_title p) (\<lambda>title t. t\<lparr>td_title := title\<rparr>) (t\<lparr>td_id := j\<rparr>))"
  have "\<not> isTodoClosed (js ''open'')" by code_simp
  moreover have "\<not> isTodoClosed (td_status u)" using assms(2,3) by (cases "tp_status p") (simp_all add: u_def if_given_fields)
  moreover have "td_assigned u = Some s" using assms(1) by (simp add: u_def if_given_fields)
  ultimately show ?thesis
    by (simp add: updated_todo_def Let_def u_def [symmetric] clearAssignmentIfClosed_def getTodoStatus_def if_given_fields)
qed

lemma update_claim:
  assumes "executeUpdateAction h e p dir = (d, r)" "claimed_by h i s dir" "respects_claim s i (e, p)" "tp_action p = T_Update"
  shows "claimed_by h i s d"
  using assms(1) [unfolded executeUpdateAction_def] assms(2)
proof (rule execute_on_todo_claim)
  fix j t a b r
  assume j: "validateTodoId (the (tp_id p)) = Inr j" "tp_id p \<noteq> None" and a: "claimed_by h i s a"
    and t: "j = i \<Longrightarrow> td_assigned t = Some s \<and> js_nonblank s \<and> \<not> isTodoClosed (td_status t)"
    and w: "writeTodoFile h e (getTodoPath j) (updated_todo e p j t) a = (b, r)"
  show "claimed_by h i s b"
  proof (cases "j = i")
    case True
    have "case tp_status p of None \<Rightarrow> True | Some st \<Rightarrow> \<not> isTodoClosed st"
      using assms(3,4) j True by (auto simp: respects_claim_def aimed_at_def)
    with t [OF True] have "td_assigned (updated_todo e p j t) = Some s \<and> \<not> isTodoClosed (getTodoStatus (updated_todo e p j t))"
      by (intro updated_claim) blast+
    then show ?thesis using claimed_write [OF a _ _ _ w [unfolded True]] t [OF True] True by blast
  qed (rule claimed_write_other [OF a w])
qed

lemma append_claim:
  assumes "executeAppendAction h e p dir = (d, r)" "claimed_by h i s dir"
  shows "claimed_by h i s d"
  using assms(1) [unfolded executeAppendAction_def] assms(2)
proof (rule execute_on_todo_claim)
  fix j t a b r
  assume a: "claimed_by h i s a" and t: "j = i \<Longrightarrow> td_assigned t = Some s \<and> js_nonblank s \<and> \<not> isTodoClosed (td_status t)"
    and w: "(case tp_body p of None \<Rightarrow> (a, Settled t)
      | Some body \<Rightarrow> if js_trim body = [] then (a, Settled t) else appendTodoBody h e (getTodoPath j) t body a) = (b, r)"
  have "claimed_by h i s b" if "writeTodoFile h e (getTodoPath j) (t\<lparr>td_body := x\<rparr>) a = (b, r)" for x
  proof (cases "j = i")
    case True
    have "\<not> isTodoClosed (js ''open'')" by code_simp
    then have "\<not> isTodoClosed (getTodoStatus (t\<lparr>td_body := x\<rparr>))" using t [OF True] by (simp add: getTodoStatus_def)
    then show ?thesis using claimed_write [OF a _ _ _ that [unfolded True]] t [OF True] by simp
  qed (rule claimed_write_other [OF a that])
  then show "claimed_by h i s b" using a w by (cases "tp_body p") (simp_all add: appendTodoBody_def split: if_splits)
qed

lemma lower_unit: "65 \<le> unat (c :: code_unit) \<Longrightarrow> unat c \<le> 70 \<Longrightarrow> unat (c + 0x20) = unat c + 32"
  by (simp add: unat_word_ariths)

lemma hex_unit_plain: "todo_hex c \<Longrightarrow> todo_hex (ascii_lower c) \<and> \<not> js_ws c \<and> c \<noteq> 0x23 \<and> ascii_upper c \<noteq> 0x54"
  by (auto simp: todo_hex_def hex_value_def Let_def ascii_lower_def ascii_upper_def js_ws_def lower_unit split: if_splits)

lemma hex_lower_idem: "todo_hex c \<Longrightarrow> ascii_lower (ascii_lower c) = ascii_lower c"
  by (auto simp: todo_hex_def hex_value_def Let_def ascii_lower_def lower_unit split: if_splits)

lemma normalize_hex:
  assumes "length n = 8" "list_all todo_hex n"
  shows "normalizeTodoId n = n"
proof -
  have "n \<noteq> []" using assms(1) by auto
  with assms(2) have hex: "todo_hex (hd n)" "todo_hex (last n)" by (simp_all add: list_all_iff)
  have "js_trim n = n" using hex hex_unit_plain by (intro js_trim_id) blast
  moreover have "\<not> js_startsWith n (js ''#'')"
    using hex_unit_plain [OF hex(1)] assms(1) by (cases n) (auto simp: js_startsWith_def js_def)
  moreover have "\<not> js_startsWith (map ascii_upper n) TODO_ID_PREFIX"
    using hex_unit_plain [OF hex(1)] assms(1) by (cases n) (auto simp: js_startsWith_def js_def TODO_ID_PREFIX_def)
  ultimately show ?thesis by (simp add: normalizeTodoId_def)
qed

lemma validate_idem:
  assumes "validateTodoId x = Inr n"
  shows "validateTodoId n = Inr n"
proof -
  let ?m = "normalizeTodoId x"
  have m: "length ?m = 8" "list_all todo_hex ?m" "n = map ascii_lower ?m"
    using assms by (auto simp: validateTodoId_def Let_def split: if_splits)
  have n: "length n = 8" "list_all todo_hex n" "map ascii_lower n = n"
    using m hex_unit_plain hex_lower_idem by (auto simp: list_all_iff)
  then show ?thesis by (simp add: validateTodoId_def normalize_hex)
qed

definition not_settled :: "'a outcome \<Rightarrow> bool" where
  "not_settled r \<longleftrightarrow> (case r of Settled t \<Rightarrow> False | _ \<Rightarrow> True)"

lemma outcome_refused:
  "not_settled r \<Longrightarrow> case outcome_result action r of Inl m \<Rightarrow> True | Inr res \<Rightarrow> (case tr_details res of TodoFailed a m \<Rightarrow> True | _ \<Rightarrow> False)"
  by (cases r) (simp_all add: not_settled_def outcome_result_def todoActionResult_def)

lemma claim_claim:
  assumes "claimTodoAssignment h e x force dir = (d, r)" "claimed_by h i s dir"
    and "validateTodoId x = Inr i \<Longrightarrow> te_session e \<noteq> s \<and> \<not> force"
  shows "claimed_by h i s d \<and> (validateTodoId x = Inr i \<longrightarrow> not_settled r)"
  using assms(1) [unfolded claimTodoAssignment_def] assms(2)
proof (rule on_todo_claim)
  fix j t a b r
  assume x: "validateTodoId x = Inr j" and a: "claimed_by h i s a"
    and t: "j = i \<Longrightarrow> td_assigned t = Some s \<and> js_nonblank s \<and> \<not> isTodoClosed (td_status t)"
    and eq: "(if isTodoClosed (td_status t) then (a, Refused (js ''Todo '' @ displayTodoId x @ js '' is closed''))
      else if truthy_string (td_assigned t) \<and> td_assigned t \<noteq> Some (te_session e) \<and> \<not> force
      then (a, Refused (js ''Todo '' @ displayTodoId x @ js '' is already assigned to session '' @ the (td_assigned t) @ js ''. Use force to override.''))
      else if td_assigned t \<noteq> Some (te_session e) then writeTodoFile h e (getTodoPath j) (t\<lparr>td_assigned := Some (te_session e)\<rparr>) a
      else (a, Settled t)) = (b, r)"
  show "claimed_by h i s b \<and> (validateTodoId x = Inr i \<longrightarrow> not_settled r)"
  proof (cases "j = i")
    case True
    with t assms(3) x have "truthy_string (td_assigned t)" "td_assigned t \<noteq> Some (te_session e)" "\<not> force" "\<not> isTodoClosed (td_status t)"
      by (auto simp: truthy_string_def)
    with eq a show ?thesis by (auto simp: not_settled_def)
  next
    case False
    with x have "validateTodoId x \<noteq> Inr i" by simp
    moreover have "claimed_by h i s b" using eq a claimed_write_other [OF a _ False] by (auto split: if_splits)
    ultimately show ?thesis by simp
  qed
qed (simp_all add: not_settled_def)

lemma release_claim:
  assumes "releaseTodoAssignment h e x force dir = (d, r)" "claimed_by h i s dir"
    and "validateTodoId x = Inr i \<Longrightarrow> te_session e \<noteq> s \<and> \<not> force"
  shows "claimed_by h i s d \<and> (validateTodoId x = Inr i \<longrightarrow> not_settled r)"
  using assms(1) [unfolded releaseTodoAssignment_def] assms(2)
proof (rule on_todo_claim)
  fix j t a b r
  assume x: "validateTodoId x = Inr j" and a: "claimed_by h i s a"
    and t: "j = i \<Longrightarrow> td_assigned t = Some s \<and> js_nonblank s \<and> \<not> isTodoClosed (td_status t)"
    and eq: "(if \<not> truthy_string (td_assigned t) then (a, Settled t)
      else if td_assigned t \<noteq> Some (te_session e) \<and> \<not> force
      then (a, Refused (js ''Todo '' @ displayTodoId x @ js '' is assigned to session '' @ the (td_assigned t) @ js ''. Use force to release.''))
      else writeTodoFile h e (getTodoPath j) (t\<lparr>td_assigned := None\<rparr>) a) = (b, r)"
  show "claimed_by h i s b \<and> (validateTodoId x = Inr i \<longrightarrow> not_settled r)"
  proof (cases "j = i")
    case True
    with t assms(3) x have "truthy_string (td_assigned t)" "td_assigned t \<noteq> Some (te_session e)" "\<not> force"
      by (auto simp: truthy_string_def)
    with eq a show ?thesis by (auto simp: not_settled_def)
  next
    case False
    with x have "validateTodoId x \<noteq> Inr i" by simp
    moreover have "claimed_by h i s b" using eq a claimed_write_other [OF a _ False] by (auto split: if_splits)
    ultimately show ?thesis by simp
  qed
qed (simp_all add: not_settled_def)

lemma delete_claim:
  assumes "deleteTodo h e x dir = (d, r)" "claimed_by h i s dir" "validateTodoId x \<noteq> Inr i"
  shows "claimed_by h i s d"
proof -
  have "claimed_by h i s d \<and> True"
    using assms(1) [unfolded deleteTodo_def] assms(2)
  proof (rule on_todo_claim)
    fix j t a b r
    assume j: "validateTodoId x = Inr j" and a: "claimed_by h i s a" and eq: "(unlink (getTodoPath j) a, Settled t) = (b, r)"
    have "getTodoPath j \<noteq> getTodoPath i" using assms(3) j by auto
    with claimed_only_at [OF only_at_unlink] a eq show "claimed_by h i s b \<and> True" by blast
  qed simp_all
  then show ?thesis ..
qed

lemma tool_claim:
  assumes "executeTodoToolAction h e p dir = (d, r)" "claimed_by h i s dir" "respects_claim s i (e, p)"
  shows "claimed_by h i s d \<and> did_nothing_to i (e, p) r"
proof (cases "tp_action p")
  case T_Create
  with assms create_claim show ?thesis by (auto simp: executeTodoToolAction_def did_nothing_to_def)
next
  case T_Update
  with assms update_claim show ?thesis by (auto simp: executeTodoToolAction_def did_nothing_to_def)
next
  case T_Append
  with assms append_claim show ?thesis by (auto simp: executeTodoToolAction_def did_nothing_to_def)
next
  case T_Delete
  then have x: "\<not> aimed_at i p" using assms(3) by (simp add: respects_claim_def)
  have "claimed_by h i s d"
  proof (cases "\<exists>j r'. tp_id p \<noteq> None \<and> validateTodoId (the (tp_id p)) = Inr j \<and> deleteTodo h e j dir = (d, r')")
    case True
    then obtain j r' where j: "tp_id p \<noteq> None" "validateTodoId (the (tp_id p)) = Inr j" "deleteTodo h e j dir = (d, r')" by blast
    with x have "j \<noteq> i" by (auto simp: aimed_at_def)
    with validate_idem [OF j(2)] show ?thesis by (intro delete_claim [OF j(3) assms(2)]) simp
  next
    case False
    with assms(1,2) T_Delete show ?thesis
      by (auto simp: executeTodoToolAction_def executeDeleteAction_def truthy_string_def split: if_splits sum.splits prod.splits)
  qed
  with T_Delete show ?thesis by (simp add: did_nothing_to_def)
next
  case T_Claim
  show ?thesis
  proof (cases "truthy_string (tp_id p)")
    case True
    then obtain x where x: "tp_id p = Some x" by (auto simp: truthy_string_def)
    with assms(1) T_Claim True obtain r' where r: "claimTodoAssignment h e x (tp_force p = Some True) dir = (d, r')" "r = outcome_result T_Claim r'"
      by (auto simp: executeTodoToolAction_def executeClaimAction_def split: prod.splits)
    have "claimed_by h i s d \<and> (validateTodoId x = Inr i \<longrightarrow> not_settled r')"
      using r(1) assms(2) by (rule claim_claim) (use assms(3) T_Claim x in \<open>simp add: respects_claim_def aimed_at_def\<close>)
    then show ?thesis using outcome_refused [of r' T_Claim] by (simp add: did_nothing_to_def aimed_at_def x r(2))
  next
    case False
    with assms T_Claim show ?thesis
      by (auto simp: executeTodoToolAction_def executeClaimAction_def did_nothing_to_def idRequiredResult_def todoActionResult_def)
  qed
next
  case T_Release
  show ?thesis
  proof (cases "truthy_string (tp_id p)")
    case True
    then obtain x where x: "tp_id p = Some x" by (auto simp: truthy_string_def)
    with assms(1) T_Release True obtain r' where r: "releaseTodoAssignment h e x (tp_force p = Some True) dir = (d, r')" "r = outcome_result T_Release r'"
      by (auto simp: executeTodoToolAction_def executeReleaseAction_def split: prod.splits)
    have "claimed_by h i s d \<and> (validateTodoId x = Inr i \<longrightarrow> not_settled r')"
      using r(1) assms(2) by (rule release_claim) (use assms(3) T_Release x in \<open>simp add: respects_claim_def aimed_at_def\<close>)
    then show ?thesis using outcome_refused [of r' T_Release] by (simp add: did_nothing_to_def aimed_at_def x r(2))
  next
    case False
    with assms T_Release show ?thesis
      by (auto simp: executeTodoToolAction_def executeReleaseAction_def did_nothing_to_def idRequiredResult_def todoActionResult_def)
  qed
qed (use assms in \<open>auto simp: executeTodoToolAction_def did_nothing_to_def\<close>)

text \<open>C11: C0: Once a session holds a claim on an open todo, any sequence of calls leaves it assigned to that session and
  open, as long as no call on this todo comes from the session itself, forces, deletes it, or updates it to a closed
  status; and every claim and release of it among the calls fails.
\<close>

theorem claims_are_kept:
  assumes "claimed_by h i s dir" "list_all (respects_claim s i) calls" "todo_run h calls dir = (dir', results)"
  shows "claimed_by h i s dir' \<and> list_all2 (did_nothing_to i) calls results"
  using assms
proof (induction calls arbitrary: dir results)
  case (Cons c calls)
  obtain e p where c: "c = (e, p)" by (cases c)
  obtain d r where d: "executeTodoToolAction h e p dir = (d, r)" by (cases "executeTodoToolAction h e p dir")
  obtain rs where rs: "todo_run h calls d = (dir', rs)" "results = r # rs"
    using Cons.prems(3) d c by (auto split: prod.splits)
  have "claimed_by h i s d \<and> did_nothing_to i c r" using tool_claim [OF d Cons.prems(1)] Cons.prems(2) c by simp
  with Cons.IH [OF _ _ rs(1)] Cons.prems(2) rs(2) show ?case by simp
qed simp

definition example_host :: todo_host where
  "example_host = \<lparr>th_numVal = (\<lambda>_. JNonFinite), th_numText = (\<lambda>_. js ''0''), th_string = (\<lambda>_. []),
     th_locale = (\<lambda>a b. int (length a) - int (length b)), th_io_error = (\<lambda>p. js ''EISDIR: '' @ p)\<rparr>"

definition example_env :: "string \<Rightarrow> todo_env" where
  "example_env session = \<lparr>te_now = 100, te_iso = (\<lambda>_. js ''1970-01-01''), te_session = js session, te_session_file = None,
     te_pid = JFinite 1, te_hasUI = True, te_confirm = True, te_open_error = None, te_random = [js ''00ff00ff'']\<rparr>"

definition example_params :: "todo_action \<Rightarrow> todo_params" where
  "example_params action = \<lparr>tp_action = action, tp_id = Some (js ''TODO-0000000A''), tp_title = Some (js ''new''),
     tp_status = None, tp_tags = None, tp_body = Some (js ''more''), tp_force = None\<rparr>"

definition example_dir :: todo_dir where
  "example_dir =
     [(js ''0000000a.md'', \<lparr>df_text = Some (stored_text \<lparr>td_id = js ''0000000a'', td_title = js ''write'', td_tags = [], td_status = js ''open'',
          td_created_at = js ''1970'', td_assigned = Some (js ''A''), td_body = []\<rparr>), df_mtime = 0\<rparr>),
      (js ''0000000a.lock'', \<lparr>df_text = Some [], df_mtime = - 2000000\<rparr>)]"

theorem claims_are_kept_witness:
  "\<exists>dir' results. todo_run example_host (map (\<lambda>a. (example_env ''B'', example_params a)) [T_Claim, T_Update, T_Append, T_Release]) example_dir =
      (dir', results) \<and> claimed_by example_host (js ''0000000a'') (js ''A'') dir' \<and>
    list_all2 (did_nothing_to (js ''0000000a''))
      (map (\<lambda>a. (example_env ''B'', example_params a)) [T_Claim, T_Update, T_Append, T_Release]) results"
proof -
  let ?calls = "map (\<lambda>a. (example_env ''B'', example_params a)) [T_Claim, T_Update, T_Append, T_Release]"
  obtain dir' results where run: "todo_run example_host ?calls example_dir = (dir', results)" by fastforce
  have "claimed_by example_host (js ''0000000a'') (js ''A'') dir' \<and> list_all2 (did_nothing_to (js ''0000000a'')) ?calls results"
  proof (rule claims_are_kept [OF _ _ run])
    have nonblank: "js_nonblank (js ''A'')" and not_closed: "\<not> isTodoClosed (js ''open'')" by code_simp+
    have path: "js ''0000000a.md'' = getTodoPath (js ''0000000a'')" by (simp add: getTodoPath_def js_append [symmetric] del: js_append)
    show "claimed_by example_host (js ''0000000a'') (js ''A'') example_dir"
      by (simp add: claimed_by_def ensureTodoExists_def example_dir_def path parse_stored_text stored_todo_def nonblank not_closed getTodoStatus_def)
    show "list_all (respects_claim (js ''A'') (js ''0000000a'')) ?calls"
      by (simp add: respects_claim_def example_env_def example_params_def)
  qed
  with run show ?thesis by blast
qed

theorem tool_calls_leave_no_lock_witness:
  "\<exists>i. touches_todo i example_dir (fst (executeTodoToolAction example_host (example_env ''B'') (example_params T_Update) example_dir))"
  by (rule tool_calls_leave_no_lock [OF prod.collapse [symmetric]])

subsection \<open>What is listed\<close>

definition by_date :: "todo_host \<Rightarrow> todo_front list \<Rightarrow> todo_front list" where
  "by_date h ts = sort_by (\<lambda>a b. th_locale h (td_created_at a) (td_created_at b)) ts"

definition unassigned_open :: "todo_front \<Rightarrow> bool" where
  "unassigned_open t \<longleftrightarrow> \<not> isTodoClosed (td_status t) \<and> \<not> truthy_string (td_assigned t)"

lemma sort_by_simps: "sort_by c [] = []" "sort_by c (x # xs) = insert_before c x (sort_by c xs)"
  by (simp_all add: sort_by_def)

lemma set_insert_before [simp]: "set (insert_before c x ys) = insert x (set ys)"
  by (induction ys) auto

lemma set_sort_by [simp]: "set (sort_by c xs) = set xs"
  by (induction xs) (simp_all add: sort_by_simps)

lemma insert_in_group:
  "\<forall>a\<in>set A. c x a = d x a \<Longrightarrow> \<forall>y\<in>set R. c x y \<le> 0 \<Longrightarrow> insert_before c x (A @ R) = insert_before d x A @ R"
proof (induction A)
  case Nil
  then show ?case by (cases R) simp_all
qed simp

lemma insert_behind: "\<forall>a\<in>set A. 0 < c x a \<Longrightarrow> insert_before c x (A @ R) = A @ insert_before c x R"
  by (induction A) auto

lemma todo_groups:
  "assigned_open t \<Longrightarrow> \<not> unassigned_open t \<and> \<not> isTodoClosed (td_status t)"
  "unassigned_open t \<Longrightarrow> \<not> assigned_open t \<and> \<not> isTodoClosed (td_status t)"
  "isTodoClosed (td_status t) \<Longrightarrow> \<not> assigned_open t \<and> \<not> unassigned_open t"
  by (simp_all add: assigned_open_def unassigned_open_def)

lemma set_by_date [simp]: "set (by_date h ts) = set ts"
  by (simp add: by_date_def)

lemma filter_groups:
  "filter assigned_open (by_date h (filter assigned_open ts)) = by_date h (filter assigned_open ts)"
  "filter assigned_open (by_date h (filter unassigned_open ts)) = []"
  "filter assigned_open (by_date h (filter (\<lambda>t. isTodoClosed (td_status t)) ts)) = []"
  "filter unassigned_open (by_date h (filter assigned_open ts)) = []"
  "filter unassigned_open (by_date h (filter unassigned_open ts)) = by_date h (filter unassigned_open ts)"
  "filter unassigned_open (by_date h (filter (\<lambda>t. isTodoClosed (td_status t)) ts)) = []"
  by (auto simp: filter_id_conv filter_empty_conv dest: todo_groups)

lemma sortTodos_groups:
  "sortTodos h ts = by_date h (filter assigned_open ts) @ by_date h (filter unassigned_open ts) @
     by_date h (filter (\<lambda>t. isTodoClosed (td_status t)) ts)"
proof (induction ts)
  case (Cons t ts)
  let ?c = "todo_before h" and ?d = "\<lambda>a b. th_locale h (td_created_at a) (td_created_at b)"
  let ?A = "by_date h (filter assigned_open ts)" and ?B = "by_date h (filter unassigned_open ts)"
    and ?C = "by_date h (filter (\<lambda>t. isTodoClosed (td_status t)) ts)"
  have sort: "sortTodos h (t # ts) = insert_before ?c t (?A @ ?B @ ?C)"
    using Cons by (simp add: sortTodos_def sort_by_simps)
  have insert: "by_date h (u # us) = insert_before ?d u (by_date h us)" for u us by (simp add: by_date_def sort_by_simps)
  consider "assigned_open t" | "unassigned_open t" | "isTodoClosed (td_status t)"
    by (auto simp: assigned_open_def unassigned_open_def)
  then show ?case
  proof cases
    case 1
    have "insert_before ?c t (?A @ ?B @ ?C) = insert_before ?d t ?A @ ?B @ ?C"
      using 1 by (intro insert_in_group) (auto simp: todo_before_def assigned_open_def unassigned_open_def Let_def)
    with 1 todo_groups(1) [OF 1] sort insert show ?thesis by simp
  next
    case 2
    have "insert_before ?c t (?A @ ?B @ ?C) = ?A @ insert_before ?c t (?B @ ?C)"
      using 2 by (intro insert_behind) (auto simp: todo_before_def assigned_open_def unassigned_open_def Let_def)
    moreover have "insert_before ?c t (?B @ ?C) = insert_before ?d t ?B @ ?C"
      using 2 by (intro insert_in_group) (auto simp: todo_before_def assigned_open_def unassigned_open_def Let_def)
    ultimately show ?thesis using 2 todo_groups(2) [OF 2] sort insert by simp
  next
    case 3
    have "insert_before ?c t (?A @ ?B @ ?C) = ?A @ ?B @ insert_before ?c t (?C @ [])"
    proof -
      have "insert_before ?c t ((?A @ ?B) @ ?C) = (?A @ ?B) @ insert_before ?c t ?C"
        using 3 by (intro insert_behind) (auto simp: todo_before_def assigned_open_def unassigned_open_def Let_def)
      then show ?thesis by simp
    qed
    moreover have "insert_before ?c t (?C @ []) = insert_before ?d t ?C @ []"
      using 3 by (intro insert_in_group) (auto simp: todo_before_def assigned_open_def unassigned_open_def Let_def)
    ultimately show ?thesis using 3 todo_groups(3) [OF 3] sort insert by simp
  qed
qed (simp add: sortTodos_def by_date_def sort_by_simps)

lemma front_status: "td_status (front_of_json i v) \<noteq> []"
proof -
  have "(\<lambda>d :: todo_front. td_status d \<noteq> []) (front_of_json i v)"
    unfolding front_of_json_def Let_def
    by (intro with_array_keeps [where P = "\<lambda>d :: todo_front. td_status d \<noteq> []"] with_string_keeps [where P = "\<lambda>d :: todo_front. td_status d \<noteq> []"])
      (simp_all add: default_front_def js_def)
  then show ?thesis .
qed

lemma listed_status: "t \<in> set (listed_todo h f) \<Longrightarrow> getTodoStatus t = td_status t"
  using front_status
  by (auto simp: listed_todo_def parseFrontMatter_def Let_def getTodoStatus_def default_front_def js_def
    split: prod.splits if_splits option.splits)

text \<open>C26: C0: The list of the tool holds each readable todo of the directory that is not closed once, the assigned ones
  first, both groups by their date of creation; the full list has the closed ones behind them.
\<close>

theorem open_todos_are_listed:
  "listed (tr_details (executeListAction h e dir)) =
     by_date h (filter assigned_open (concat (map (listed_todo h) dir))) @
     by_date h (filter unassigned_open (concat (map (listed_todo h) dir))) \<and>
   listed (tr_details (executeListAllAction h e dir)) =
     listed (tr_details (executeListAction h e dir)) @
     by_date h (filter (\<lambda>t. isTodoClosed (td_status t)) (concat (map (listed_todo h) dir)))"
proof -
  let ?fs = "concat (map (listed_todo h) dir)"
  have status: "getTodoStatus t = td_status t" if "t \<in> set (listTodos h dir)" for t
    using that listed_status by (auto simp: listTodos_def sortTodos_def)
  have "filter (\<lambda>t. \<not> isTodoClosed (getTodoStatus t) \<and> truthy_string (td_assigned t)) (listTodos h dir) = filter assigned_open (listTodos h dir)"
    using status by (intro filter_cong) (auto simp: assigned_open_def)
  moreover have "filter (\<lambda>t. \<not> isTodoClosed (getTodoStatus t) \<and> \<not> truthy_string (td_assigned t)) (listTodos h dir) = filter unassigned_open (listTodos h dir)"
    using status by (intro filter_cong) (auto simp: unassigned_open_def)
  moreover have "filter assigned_open (listTodos h dir) = by_date h (filter assigned_open ?fs)"
    by (simp add: listTodos_def sortTodos_groups filter_groups)
  moreover have "filter unassigned_open (listTodos h dir) = by_date h (filter unassigned_open ?fs)"
    by (simp add: listTodos_def sortTodos_groups filter_groups)
  ultimately have "listed (tr_details (executeListAction h e dir)) = by_date h (filter assigned_open ?fs) @ by_date h (filter unassigned_open ?fs)"
    by (simp only: executeListAction_def splitTodosByAssignment_def Let_def prod.case) simp
  moreover have "listed (tr_details (executeListAllAction h e dir)) = sortTodos h ?fs"
    by (simp add: executeListAllAction_def listTodos_def Let_def)
  ultimately show ?thesis by (simp add: sortTodos_groups)
qed

end
