(* ===== verification/Todo_Locks.thy ===== *)
theory Todo_Locks
  imports Todo_Store
begin

text \<open>
  The lock of one todo (\<open>acquireLock\<close> and the release in \<open>packages/coding-agent/src/core/tools/todos-locks.ts\<close>)
  as sessions share it: one step per call of the file system or question to the user, in any order.  Opening the
  lock and writing its text are one step, and what is done under the lock is a step that leaves it alone.
\<close>

subsection \<open>One session\<close>

datatype lock_phase =
    LP_Open nat
  | LP_Stat nat
  | LP_Read
  | LP_Ask nat
  | LP_Unlink nat
  | LP_Body
  | LP_Release
  | LP_Over "jstr option"

definition holds_lock :: "lock_phase \<Rightarrow> bool" where
  "holds_lock ph \<longleftrightarrow> ph = LP_Body \<or> ph = LP_Release"

fun lock_next :: "todo_host \<Rightarrow> todo_env \<Rightarrow> jstr \<Rightarrow> int \<Rightarrow> lock_phase \<times> todo_dir \<Rightarrow> lock_phase \<times> todo_dir" where
  "lock_next h e i clock (LP_Open 0, dir) =
     (LP_Over (Some (js ''Failed to acquire lock for todo '' @ displayTodoId i @ js ''.'')), dir)"
| "lock_next h e i clock (LP_Open (Suc n), dir) =
     (case te_open_error e of
        Some m \<Rightarrow> (LP_Over (Some (js ''Failed to acquire lock: '' @ m)), dir)
      | None \<Rightarrow>
          (if jm_get dir (getLockPath i) = None
           then (LP_Body, jm_set (getLockPath i) \<lparr>df_text = Some (lock_text h e i), df_mtime = clock\<rparr> dir)
           else (LP_Stat n, dir)))"
| "lock_next h e i clock (LP_Stat n, dir) =
     (let lockAge = (case jm_get dir (getLockPath i) of Some f \<Rightarrow> te_now e - df_mtime f | None \<Rightarrow> LOCK_TTL_MS + 1)
      in if lockAge \<le> LOCK_TTL_MS then (LP_Read, dir)
         else if \<not> te_hasUI e
         then (LP_Over (Some (js ''Todo '' @ displayTodoId i @ js '' lock is stale; rerun in interactive mode to steal it.'')), dir)
         else (LP_Ask n, dir))"
| "lock_next h e i clock (LP_Read, dir) =
     (LP_Over (Some (js ''Todo '' @ displayTodoId i @ js '' is locked'' @ lock_owner h (readLockInfo h dir (getLockPath i)) @
        js ''. Try again later.'')), dir)"
| "lock_next h e i clock (LP_Ask n, dir) =
     (if te_confirm e then (LP_Unlink n, dir)
      else (LP_Over (Some (js ''Todo '' @ displayTodoId i @ js '' remains locked.'')), dir))"
| "lock_next h e i clock (LP_Unlink n, dir) = (LP_Open n, unlink (getLockPath i) dir)"
| "lock_next h e i clock (LP_Body, dir) = (LP_Release, dir)"
| "lock_next h e i clock (LP_Release, dir) = (LP_Over None, unlink (getLockPath i) dir)"
| "lock_next h e i clock (LP_Over r, dir) = (LP_Over r, dir)"

lemma acquire_alone:
  "\<exists>k. (lock_next h e i (te_now e) ^^ k) (LP_Open n, dir) =
    (case acquire_attempts n h e i dir of (d, None) \<Rightarrow> (LP_Body, d) | (d, Some m) \<Rightarrow> (LP_Over (Some m), d))"
proof (induction n arbitrary: dir)
  case 0
  show ?case by (rule exI [of _ 1]) simp
next
  case (Suc n)
  let ?next = "lock_next h e i (te_now e)"
  consider m where "te_open_error e = Some m" | "te_open_error e = None" "jm_get dir (getLockPath i) = None"
    | f where "te_open_error e = None" "jm_get dir (getLockPath i) = Some f" by fastforce
  then show ?case
  proof cases
    case 1
    then show ?thesis by (intro exI [of _ 1]) simp
  next
    case 2
    then show ?thesis by (intro exI [of _ 1]) (simp add: Let_def)
  next
    case (3 f)
    then have first: "?next (LP_Open (Suc n), dir) = (LP_Stat n, dir)" by simp
    show ?thesis
    proof (cases "te_now e - df_mtime f \<le> LOCK_TTL_MS")
      case True
      with 3 first show ?thesis by (intro exI [of _ 3]) (simp add: numeral_eq_Suc Let_def)
    next
      case old: False
      show ?thesis
      proof (cases "te_hasUI e \<and> te_confirm e")
        case True
        obtain k where k: "(?next ^^ k) (LP_Open n, unlink (getLockPath i) dir) =
            (case acquire_attempts n h e i (unlink (getLockPath i) dir) of (d, None) \<Rightarrow> (LP_Body, d) | (d, Some m) \<Rightarrow> (LP_Over (Some m), d))"
          using Suc.IH by blast
        have "(?next ^^ 4) (LP_Open (Suc n), dir) = (LP_Open n, unlink (getLockPath i) dir)"
          using 3 old True by (simp add: numeral_eq_Suc Let_def)
        with k have "(?next ^^ (k + 4)) (LP_Open (Suc n), dir) =
            (case acquire_attempts n h e i (unlink (getLockPath i) dir) of (d, None) \<Rightarrow> (LP_Body, d) | (d, Some m) \<Rightarrow> (LP_Over (Some m), d))"
          by (simp only: funpow_add comp_apply)
        moreover have "acquire_attempts (Suc n) h e i dir = acquire_attempts n h e i (unlink (getLockPath i) dir)"
          using 3 old True by (simp add: Let_def)
        ultimately show ?thesis by metis
      next
        case False
        with 3 old show ?thesis
          by (intro exI [of _ "if te_hasUI e then 3 else 2"]) (simp add: numeral_eq_Suc Let_def)
      qed
    qed
  qed
qed

subsection \<open>Several sessions\<close>

record lock_state =
  lk_dir :: todo_dir
  lk_phase :: "nat \<Rightarrow> lock_phase"

definition lock_init :: "todo_dir \<Rightarrow> lock_state" where
  "lock_init dir = \<lparr>lk_dir = dir, lk_phase = (\<lambda>_. LP_Open 2)\<rparr>"

definition lock_step :: "todo_host \<Rightarrow> (nat \<Rightarrow> todo_env) \<Rightarrow> jstr \<Rightarrow> nat \<times> int \<Rightarrow> lock_state \<Rightarrow> lock_state" where
  "lock_step h E i = (\<lambda>(p, clock) s.
     case lock_next h (E p) i clock (lk_phase s p, lk_dir s) of
       (ph, dir) \<Rightarrow> \<lparr>lk_dir = dir, lk_phase = (lk_phase s)(p := ph)\<rparr>)"

definition lock_run :: "todo_host \<Rightarrow> (nat \<Rightarrow> todo_env) \<Rightarrow> jstr \<Rightarrow> (nat \<times> int) list \<Rightarrow> lock_state \<Rightarrow> lock_state" where
  "lock_run h E i steps s = fold (lock_step h E i) steps s"

definition lock_inv :: "jstr \<Rightarrow> lock_state \<Rightarrow> bool" where
  "lock_inv i s \<longleftrightarrow>
     (\<forall>p n. lk_phase s p \<noteq> LP_Unlink n) \<and>
     (\<forall>p. holds_lock (lk_phase s p) \<longrightarrow> file_text (lk_dir s) (getLockPath i) \<noteq> None) \<and>
     (\<forall>p q. holds_lock (lk_phase s p) \<longrightarrow> holds_lock (lk_phase s q) \<longrightarrow> p = q)"

text \<open>Without a session that steals, a step keeps the holders, or gives or takes the lock.\<close>

lemma lock_next_cases:
  assumes "lock_next h e i clock (ph, dir) = (ph', d)" "\<not> te_confirm e" "\<forall>n. ph \<noteq> LP_Unlink n"
  shows "(\<forall>n. ph' \<noteq> LP_Unlink n) \<and>
    (d = dir \<and> holds_lock ph' = holds_lock ph \<or>
     jm_get dir (getLockPath i) = None \<and> file_text d (getLockPath i) \<noteq> None \<and> holds_lock ph' \<or>
     holds_lock ph \<and> \<not> holds_lock ph')"
proof (cases ph)
  case (LP_Open n)
  with assms(1) show ?thesis by (cases n) (auto simp: holds_lock_def file_text_def split: option.splits if_splits)
qed (use assms in \<open>auto simp: holds_lock_def Let_def split: option.splits if_splits\<close>)

lemma lock_step_inv:
  assumes "lock_inv i s" "\<forall>p. \<not> te_confirm (E p)"
  shows "lock_inv i (lock_step h E i pc s)"
proof -
  obtain p clock where pc: "pc = (p, clock)" by (cases pc)
  obtain ph d where n: "lock_next h (E p) i clock (lk_phase s p, lk_dir s) = (ph, d)"
    by (cases "lock_next h (E p) i clock (lk_phase s p, lk_dir s)")
  have s': "lk_dir (lock_step h E i pc s) = d" "lk_phase (lock_step h E i pc s) = (lk_phase s)(p := ph)"
    by (simp_all add: lock_step_def pc n)
  have phases: "\<forall>q n. lk_phase s q \<noteq> LP_Unlink n"
    and files: "\<And>q. holds_lock (lk_phase s q) \<Longrightarrow> file_text (lk_dir s) (getLockPath i) \<noteq> None"
    and one: "\<And>q r. holds_lock (lk_phase s q) \<Longrightarrow> holds_lock (lk_phase s r) \<Longrightarrow> q = r"
    using assms(1) unfolding lock_inv_def by blast+
  have "\<not> te_confirm (E p)" "\<forall>n. lk_phase s p \<noteq> LP_Unlink n" using phases assms(2) by blast+
  from lock_next_cases [OF n this]
  consider "\<forall>n. ph \<noteq> LP_Unlink n" "d = lk_dir s" "holds_lock ph = holds_lock (lk_phase s p)"
    | "\<forall>n. ph \<noteq> LP_Unlink n" "jm_get (lk_dir s) (getLockPath i) = None" "file_text d (getLockPath i) \<noteq> None" "holds_lock ph"
    | "\<forall>n. ph \<noteq> LP_Unlink n" "holds_lock (lk_phase s p)" "\<not> holds_lock ph"
    by (elim conjE disjE) simp_all
  then show ?thesis
  proof cases
    case 1
    have holds: "holds_lock (((lk_phase s)(p := ph)) q) = holds_lock (lk_phase s q)" for q using 1(3) by simp
    have "((lk_phase s)(p := ph)) q \<noteq> LP_Unlink n" for q n using 1(1) phases by simp
    then show ?thesis unfolding lock_inv_def s' holds 1(2) using files one by blast
  next
    case 2
    have none: "\<not> holds_lock (lk_phase s q)" for q using files [of q] 2(2) by (auto simp: file_text_def)
    then have "holds_lock (((lk_phase s)(p := ph)) q) \<Longrightarrow> q = p" for q by (cases "q = p") simp_all
    moreover have "((lk_phase s)(p := ph)) q \<noteq> LP_Unlink n" for q n using 2(1) phases by simp
    ultimately show ?thesis unfolding lock_inv_def s' using 2(3) by blast
  next
    case 3
    have "\<not> holds_lock (((lk_phase s)(p := ph)) q)" for q using 3(3) one [OF 3(2), of q] by auto
    moreover have "((lk_phase s)(p := ph)) q \<noteq> LP_Unlink n" for q n using 3(1) phases by simp
    ultimately show ?thesis unfolding lock_inv_def s' by blast
  qed
qed

lemma lock_run_inv: "lock_inv i s \<Longrightarrow> \<forall>p. \<not> te_confirm (E p) \<Longrightarrow> lock_inv i (lock_run h E i steps s)"
  by (induction steps arbitrary: s) (simp_all add: lock_run_def lock_step_inv)

lemma lock_init_inv: "lock_inv i (lock_init dir)"
  by (simp add: lock_inv_def lock_init_def holds_lock_def)

text \<open>C13: C0: As long as no user agrees to steal the lock of a todo, at most one of any number of sessions holds it, in
  every order of their steps, and the lock file is there while one does.
\<close>

theorem locks_exclude_without_steals:
  assumes "\<forall>p. \<not> te_confirm (E p)"
    and "holds_lock (lk_phase (lock_run h E i steps (lock_init dir)) p)"
    and "holds_lock (lk_phase (lock_run h E i steps (lock_init dir)) q)"
  shows "p = q \<and> existsSync (lk_dir (lock_run h E i steps (lock_init dir))) (getLockPath i)"
proof -
  note inv = lock_run_inv [OF lock_init_inv assms(1), of i h steps dir, unfolded lock_inv_def]
  then have "p = q" "file_text (lk_dir (lock_run h E i steps (lock_init dir))) (getLockPath i) \<noteq> None" using assms(2,3) by blast+
  then show ?thesis by (cases "jm_get (lk_dir (lock_run h E i steps (lock_init dir))) (getLockPath i)") (simp_all add: existsSync_def file_text_def)
qed

text \<open>Two sessions that both find a stale lock and are both told to steal it both hold it: the second removes the
  lock that the first has just taken.
\<close>

theorem two_steals_share_the_lock:
  assumes "jm_get dir (getLockPath i) = Some f" "df_text f \<noteq> None"
    and "\<forall>p. te_open_error (E p) = None \<and> te_hasUI (E p) \<and> te_confirm (E p) \<and> LOCK_TTL_MS < te_now (E p) - df_mtime f"
  shows "let s = lock_run h E i [(0, t), (0, t), (0, t), (1, t), (1, t), (1, t), (0, t), (0, t), (1, t), (1, t)] (lock_init dir)
    in lk_phase s 0 = LP_Body \<and> lk_phase s 1 = LP_Body"
proof -
  have open2: "lock_next h (E p) i t (LP_Open 2, dir) = (LP_Stat (Suc 0), dir)" for p
    using assms by (simp add: numeral_2_eq_2)
  have stat: "lock_next h (E p) i t (LP_Stat (Suc 0), dir) = (LP_Ask (Suc 0), dir)" for p
    using assms by (simp add: Let_def not_le)
  have ask: "lock_next h (E p) i t (LP_Ask (Suc 0), d) = (LP_Unlink (Suc 0), d)" for p d
    using assms by simp
  have free: "jm_get (unlink (getLockPath i) d) (getLockPath i) = None" if "file_text d (getLockPath i) \<noteq> None" for d
    using that by (auto simp: unlink_def)
  have "file_text dir (getLockPath i) \<noteq> None" using assms by (simp add: file_text_def)
  note gone = free [OF this]
  have take: "lock_next h (E p) i t (LP_Open (Suc 0), d) =
      (LP_Body, jm_set (getLockPath i) \<lparr>df_text = Some (lock_text h (E p) i), df_mtime = t\<rparr> d)"
    if "jm_get d (getLockPath i) = None" for p d
    using assms that by simp
  have again: "jm_get (unlink (getLockPath i) (jm_set (getLockPath i) \<lparr>df_text = Some x, df_mtime = t\<rparr> d)) (getLockPath i) = None" for x d
    by (rule free) (simp add: file_text_def)
  show ?thesis
    by (simp add: lock_run_def lock_init_def lock_step_def open2 stat ask take [OF gone] take [OF again] del: lock_next.simps(2,3,5))
qed

text \<open>A session that keeps the lock past its time to live loses it to one that steals it, and then removes the lock
  of the thief: a third session enters beside the thief without asking.
\<close>

theorem overdue_release_frees_the_thief:
  assumes "jm_get dir (getLockPath i) = None" "\<forall>p. te_open_error (E p) = None"
    and "te_hasUI (E 1)" "te_confirm (E 1)" "LOCK_TTL_MS < te_now (E 1) - t"
  shows "let s = lock_run h E i [(0, t), (1, t), (1, t), (1, t), (1, t), (1, t'), (0, t'), (0, t'), (2, t')] (lock_init dir)
    in lk_phase s 0 = LP_Over None \<and> lk_phase s 1 = LP_Body \<and> lk_phase s 2 = LP_Body"
proof -
  show ?thesis
    using assms
    by (simp add: lock_run_def lock_init_def lock_step_def numeral_2_eq_2 Let_def not_le unlink_def file_text_def)
qed

definition lock_env :: "bool \<Rightarrow> int \<Rightarrow> todo_env" where
  "lock_env confirm now = \<lparr>te_now = now, te_iso = (\<lambda>_. []), te_session = js ''S'', te_session_file = None, te_pid = JFinite 1,
     te_hasUI = True, te_confirm = confirm, te_open_error = None, te_random = []\<rparr>"

definition lock_host :: todo_host where
  "lock_host = \<lparr>th_numVal = (\<lambda>_. JNonFinite), th_numText = (\<lambda>_. js ''1''), th_string = (\<lambda>_. []), th_locale = (\<lambda>_ _. 0),
     th_io_error = (\<lambda>p. p)\<rparr>"

theorem locks_exclude_without_steals_witness:
  "existsSync (lk_dir (lock_run lock_host (\<lambda>p. lock_env False 0) (js ''a'') [(0, 0), (1, 0)] (lock_init []))) (getLockPath (js ''a''))"
proof -
  let ?s = "lock_run lock_host (\<lambda>p. lock_env False 0) (js ''a'') [(0, 0), (1, 0)] (lock_init [])"
  have "holds_lock (lk_phase ?s 0)"
    by (simp add: lock_run_def lock_init_def lock_step_def lock_env_def numeral_2_eq_2 holds_lock_def)
  with locks_exclude_without_steals [of "\<lambda>p. lock_env False 0" lock_host "js ''a''" "[(0, 0), (1, 0)]" "[]" 0 0] show ?thesis
    by (simp add: lock_env_def)
qed

theorem two_steals_share_the_lock_witness:
  "let s = lock_run lock_host (\<lambda>p. lock_env True 2000000) (js ''a'')
      [(0, 2000000), (0, 2000000), (0, 2000000), (1, 2000000), (1, 2000000), (1, 2000000), (0, 2000000), (0, 2000000), (1, 2000000), (1, 2000000)]
      (lock_init [(getLockPath (js ''a''), \<lparr>df_text = Some [], df_mtime = 0\<rparr>)])
    in lk_phase s 0 = LP_Body \<and> lk_phase s 1 = LP_Body"
  by (rule two_steals_share_the_lock [where f = "\<lparr>df_text = Some [], df_mtime = 0\<rparr>"]) (simp_all add: lock_env_def LOCK_TTL_MS_def)

theorem overdue_release_frees_the_thief_witness:
  "let s = lock_run lock_host (\<lambda>p. lock_env (p = 1) (2000000 * int p)) (js ''a'')
      [(0, 0), (1, 0), (1, 0), (1, 0), (1, 0), (1, 2000000), (0, 2000000), (0, 2000000), (2, 2000000)] (lock_init [])
    in lk_phase s 0 = LP_Over None \<and> lk_phase s 1 = LP_Body \<and> lk_phase s 2 = LP_Body"
  by (rule overdue_release_frees_the_thief) (simp_all add: lock_env_def LOCK_TTL_MS_def)

end
