(* ===== verification/Project_Trust.thy ===== *)
theory Project_Trust
  imports Todo_Text
begin

text \<open>
  Which project folders are trusted (\<open>packages/coding-agent/src/core/trust-manager.ts\<close>, \<open>project-trust.ts\<close>): the
  store of decisions, the choices a user has, and how a session decides.  \<open>canonicalizePath(resolvePath(p))\<close> (the
  operating system's answer), \<open>existsSync\<close>, the home directory and the lock file library are parameters; paths are
  POSIX paths.
\<close>

subsection \<open>Paths\<close>

abbreviation js_slash :: code_unit where "js_slash \<equiv> 0x2F"

text \<open>\<open>path.posix.dirname\<close>: the last part is cut off with the slash in front of it.\<close>

definition dirname :: "jstr \<Rightarrow> jstr" where
  "dirname p =
     (case p of
        [] \<Rightarrow> js ''.''
      | c # s \<Rightarrow>
          (let rest = dropWhile (\<lambda>c. c \<noteq> js_slash) (dropWhile (\<lambda>c. c = js_slash) (rev s))
           in if rest = [] then (if c = js_slash then js ''/'' else js ''.'')
              else if c = js_slash \<and> length rest = 1 then js ''//''
              else take (length rest) p))"

text \<open>\<open>path.join\<close> for a normal directory and plain names.\<close>

definition path_join :: "jstr \<Rightarrow> jstr \<Rightarrow> jstr" where
  "path_join d name = (if d \<noteq> [] \<and> last d = js_slash then d @ name else d @ [js_slash] @ name)"

lemma dirname_root [simp]: "dirname (js ''/'') = js ''/''" "dirname (js ''.'') = js ''.''" "dirname (js ''//'') = js ''/''"
  by (simp_all add: dirname_def js_def)

lemma dirname_Cons:
  "dirname (c # s) =
     (let rest = dropWhile (\<lambda>c. c \<noteq> js_slash) (dropWhile (\<lambda>c. c = js_slash) (rev s))
      in if rest = [] then (if c = js_slash then js ''/'' else js ''.'')
         else if c = js_slash \<and> length rest = 1 then js ''//''
         else take (length rest) (c # s))"
  by (simp add: dirname_def)

lemma dirname_shorter: "length (dirname p) < length p \<or> dirname p = js ''/'' \<or> dirname p = js ''.''"
proof (cases p)
  case (Cons c s)
  define rest where "rest = dropWhile (\<lambda>c. c \<noteq> js_slash) (dropWhile (\<lambda>c. c = js_slash) (rev s))"
  have "length rest \<le> length (dropWhile (\<lambda>c. c = js_slash) (rev s))" by (simp add: rest_def length_dropWhile_le)
  then have le: "length rest \<le> length s" by (metis le_trans length_dropWhile_le length_rev)
  have two: "length s \<noteq> 1" if "rest \<noteq> []"
  proof
    assume "length s = 1"
    then obtain d where "s = [d]" by (cases s) auto
    then have "rest = []" by (simp add: rest_def)
    with that show False by blast
  qed
  have "dirname p = (if rest = [] then (if c = js_slash then js ''/'' else js ''.'')
      else if c = js_slash \<and> length rest = 1 then js ''//'' else take (length rest) (c # s))"
    by (simp only: Cons dirname_Cons rest_def Let_def)
  moreover have "length (js ''//'') < length (c # s)" if "rest \<noteq> []"
  proof -
    have "s \<noteq> []" using that by (auto simp: rest_def)
    with two [OF that] have "1 < length s" by (cases s) (auto simp: Suc_lessI)
    then show ?thesis by (simp add: js_def)
  qed
  ultimately show ?thesis using le by (auto simp: Cons)
qed (simp add: dirname_def)

text \<open>The walk from a directory to the root stops.\<close>

definition dir_height :: "jstr \<Rightarrow> nat" where
  "dir_height p = (if dirname p = p then 0 else Suc (length p))"

lemma dir_height_less [simp]: "dirname p \<noteq> p \<Longrightarrow> dir_height (dirname p) < dir_height p"
  using dirname_shorter [of p] by (auto simp: dir_height_def)

subsection \<open>The store\<close>

type_synonym trust_data = "(jstr, bool option) jmap"

record trust_host =
  pt_canonical :: "jstr \<Rightarrow> jstr"
  pt_exists :: "jstr \<Rightarrow> bool"
  pt_home :: jstr
  pt_numVal :: "jstr \<Rightarrow> js_num"
  pt_parse_error :: "jstr \<Rightarrow> jstr"
  pt_config_dirs :: "jstr list"
  pt_path :: jstr

definition normalizeCwd :: "trust_host \<Rightarrow> jstr \<Rightarrow> jstr" where
  "normalizeCwd h cwd = pt_canonical h cwd"

function nearest_entry :: "trust_data \<Rightarrow> jstr \<Rightarrow> (jstr \<times> bool) option" where
  "nearest_entry data currentDir =
     (case jm_get data currentDir of
        Some (Some decision) \<Rightarrow> Some (currentDir, decision)
      | _ \<Rightarrow> (let parentDir = dirname currentDir
              in if parentDir = currentDir then None else nearest_entry data parentDir))"
  by pat_completeness auto
termination by (relation "measure (\<lambda>(_, p). dir_height p)") auto

declare nearest_entry.simps [simp del]

definition findNearestTrustEntry :: "trust_host \<Rightarrow> trust_data \<Rightarrow> jstr \<Rightarrow> (jstr \<times> bool) option" where
  "findNearestTrustEntry h data cwd = nearest_entry data (normalizeCwd h cwd)"

definition getProjectTrustPath :: "trust_host \<Rightarrow> jstr \<Rightarrow> jstr" where
  "getProjectTrustPath h cwd = normalizeCwd h cwd"

definition getProjectTrustParentPath :: "trust_host \<Rightarrow> jstr \<Rightarrow> jstr option" where
  "getProjectTrustParentPath h cwd =
     (let trustPath = getProjectTrustPath h cwd; parentDir = dirname trustPath
      in if parentDir = trustPath then None else Some parentDir)"

record trust_option =
  to_label :: jstr
  to_trusted :: bool
  to_updates :: "(jstr \<times> bool option) list"
  to_savedPath :: "jstr option"

definition getProjectTrustOptions :: "trust_host \<Rightarrow> jstr \<Rightarrow> bool \<Rightarrow> trust_option list" where
  "getProjectTrustOptions h cwd includeSessionOnly =
     (let trustPath = getProjectTrustPath h cwd
      in [\<lparr>to_label = js ''Trust'', to_trusted = True, to_updates = [(trustPath, Some True)], to_savedPath = Some trustPath\<rparr>] @
         (case getProjectTrustParentPath h cwd of
            None \<Rightarrow> []
          | Some parentPath \<Rightarrow>
              [\<lparr>to_label = js ''Trust parent folder ('' @ parentPath @ js '')'', to_trusted = True,
                to_updates = [(parentPath, Some True), (trustPath, None)], to_savedPath = Some parentPath\<rparr>]) @
         (if includeSessionOnly
          then [\<lparr>to_label = js ''Trust (this session only)'', to_trusted = True, to_updates = [], to_savedPath = None\<rparr>] else []) @
         [\<lparr>to_label = js ''Do not trust'', to_trusted = False, to_updates = [(trustPath, Some False)], to_savedPath = Some trustPath\<rparr>] @
         (if includeSessionOnly
          then [\<lparr>to_label = js ''Do not trust (this session only)'', to_trusted = False, to_updates = [], to_savedPath = None\<rparr>] else []))"

definition stripJsonBom :: "jstr \<Rightarrow> jstr" where
  "stripJsonBom s = (if s \<noteq> [] \<and> hd s = 0xFEFF then tl s else s)"

text \<open>
  The entries of the file in its order; \<open>data["__proto__"]\<close> is no property of its own.  That an object lists names
  that are numerals first is left out: no path is one.
\<close>

fun trust_entries :: "jstr \<Rightarrow> (jstr \<times> json) list \<Rightarrow> trust_data \<Rightarrow> jstr + trust_data" where
  "trust_entries path [] data = Inr data"
| "trust_entries path ((key, v) # entries) data =
     (let store = (\<lambda>x. trust_entries path entries (if key = js ''__proto__'' then data else jm_set key x data))
      in case v of
           JBool b \<Rightarrow> store (Some b)
         | JNull \<Rightarrow> store None
         | _ \<Rightarrow> Inl (js ''Invalid trust store '' @ path @ js '': value for '' @ json_quote key @ js '' must be true, false, or null''))"

definition readTrustFile :: "trust_host \<Rightarrow> jstr option \<Rightarrow> jstr + trust_data" where
  "readTrustFile h file =
     (case file of
        None \<Rightarrow> Inr []
      | Some content \<Rightarrow>
          (case JSON_parse (pt_numVal h) (stripJsonBom content) of
             None \<Rightarrow> Inl (js ''Failed to read trust store '' @ pt_path h @ js '': '' @ pt_parse_error h (stripJsonBom content))
           | Some (JObj entries) \<Rightarrow> trust_entries (pt_path h) entries []
           | Some _ \<Rightarrow> Inl (js ''Invalid trust store '' @ pt_path h @ js '': expected an object'')))"

text \<open>\<open>Object.keys(data).sort()\<close>: by code units.\<close>

fun units_le :: "jstr \<Rightarrow> jstr \<Rightarrow> bool" where
  "units_le [] t \<longleftrightarrow> True"
| "units_le (c # s) [] \<longleftrightarrow> False"
| "units_le (c # s) (d # t) \<longleftrightarrow> (if c = d then units_le s t else unat c < unat d)"

primrec insert_entry :: "jstr \<times> 'v \<Rightarrow> (jstr \<times> 'v) list \<Rightarrow> (jstr \<times> 'v) list" where
  "insert_entry e [] = [e]"
| "insert_entry e (x # xs) = (if units_le (fst e) (fst x) then e # x # xs else x # insert_entry e xs)"

definition sort_entries :: "(jstr \<times> 'v) list \<Rightarrow> (jstr \<times> 'v) list" where
  "sort_entries es = foldr insert_entry es []"

definition trust_json :: "bool option \<Rightarrow> json" where
  "trust_json v = (case v of None \<Rightarrow> JNull | Some b \<Rightarrow> JBool b)"

definition writeTrustFile :: "trust_data \<Rightarrow> jstr" where
  "writeTrustFile data =
     utf8_text (json_pretty (\<lambda>_. []) 0 (JObj (map (\<lambda>(key, v). (key, trust_json v)) (sort_entries data))) @ [js_LF])"

text \<open>What \<open>lockSync\<close> answers to each of at most ten tries: nothing, or the code and message of its error.\<close>

fun acquire_trust :: "nat \<Rightarrow> (string \<times> jstr) option list \<Rightarrow> jstr option" where
  "acquire_trust attempt [] = None"
| "acquire_trust attempt (None # answers) = None"
| "acquire_trust attempt (Some (code, message) # answers) =
     (if code \<noteq> ''ELOCKED'' \<or> attempt = 10 then Some message else acquire_trust (Suc attempt) answers)"

definition acquireTrustLockSync :: "(string \<times> jstr) option list \<Rightarrow> jstr option" where
  "acquireTrustLockSync answers = acquire_trust 1 answers"

definition withTrustFileLock :: "(string \<times> jstr) option list \<Rightarrow> (jstr option \<Rightarrow> jstr option \<times> (jstr + 'a)) \<Rightarrow> jstr option \<Rightarrow> jstr option \<times> (jstr + 'a)" where
  "withTrustFileLock answers fn file =
     (case acquireTrustLockSync answers of Some message \<Rightarrow> (file, Inl message) | None \<Rightarrow> fn file)"

definition trust_getEntry :: "trust_host \<Rightarrow> (string \<times> jstr) option list \<Rightarrow> jstr \<Rightarrow> jstr option \<Rightarrow> jstr option \<times> (jstr + (jstr \<times> bool) option)" where
  "trust_getEntry h answers cwd =
     withTrustFileLock answers
       (\<lambda>file. (file, case readTrustFile h file of Inl message \<Rightarrow> Inl message | Inr data \<Rightarrow> Inr (findNearestTrustEntry h data cwd)))"

definition trust_get :: "trust_host \<Rightarrow> (string \<times> jstr) option list \<Rightarrow> jstr \<Rightarrow> jstr option \<Rightarrow> jstr option \<times> (jstr + bool option)" where
  "trust_get h answers cwd file =
     (case trust_getEntry h answers cwd file of
        (file, Inl message) \<Rightarrow> (file, Inl message)
      | (file, Inr e) \<Rightarrow> (file, Inr (map_option snd e)))"

definition update_trust :: "trust_host \<Rightarrow> jstr \<times> bool option \<Rightarrow> trust_data \<Rightarrow> trust_data" where
  "update_trust h = (\<lambda>(path, decision) data.
     let key = normalizeCwd h path
     in case decision of None \<Rightarrow> jm_delete key data | Some b \<Rightarrow> jm_set key (Some b) data)"

definition trust_setMany :: "trust_host \<Rightarrow> (string \<times> jstr) option list \<Rightarrow> (jstr \<times> bool option) list \<Rightarrow> jstr option \<Rightarrow> jstr option \<times> (jstr + unit)" where
  "trust_setMany h answers decisions =
     withTrustFileLock answers
       (\<lambda>file. case readTrustFile h file of
          Inl message \<Rightarrow> (file, Inl message)
        | Inr data \<Rightarrow> (Some (writeTrustFile (fold (update_trust h) decisions data)), Inr ()))"

definition trust_set :: "trust_host \<Rightarrow> (string \<times> jstr) option list \<Rightarrow> jstr \<Rightarrow> bool option \<Rightarrow> jstr option \<Rightarrow> jstr option \<times> (jstr + unit)" where
  "trust_set h answers cwd decision = trust_setMany h answers [(cwd, decision)]"

subsection \<open>What needs trust\<close>

definition TRUST_REQUIRING_PROJECT_CONFIG_RESOURCES :: "jstr list" where
  "TRUST_REQUIRING_PROJECT_CONFIG_RESOURCES =
     [js ''settings.json'', js ''extensions'', js ''skills'', js ''prompts'', js ''themes'', js ''SYSTEM.md'', js ''APPEND_SYSTEM.md'']"

definition hasProjectConfigDir :: "trust_host \<Rightarrow> jstr \<Rightarrow> bool" where
  "hasProjectConfigDir h cwd \<longleftrightarrow> list_ex (\<lambda>name. pt_exists h (path_join (pt_canonical h cwd) name)) (pt_config_dirs h)"

definition hasTrustRequiringConfigResources :: "trust_host \<Rightarrow> jstr \<Rightarrow> bool" where
  "hasTrustRequiringConfigResources h cwd \<longleftrightarrow>
     (let projectCwd = pt_canonical h cwd
      in list_ex (\<lambda>name. let configDir = path_join projectCwd name
           in list_ex (\<lambda>entry. pt_exists h (path_join configDir entry)) TRUST_REQUIRING_PROJECT_CONFIG_RESOURCES) (pt_config_dirs h))"

definition skills_dir :: "trust_host \<Rightarrow> jstr \<Rightarrow> jstr" where
  "skills_dir h d = pt_canonical h (path_join (path_join d (js ''.agents'')) (js ''skills''))"

definition project_skills :: "trust_host \<Rightarrow> jstr \<Rightarrow> bool" where
  "project_skills h d \<longleftrightarrow> skills_dir h d \<noteq> skills_dir h (pt_home h) \<and> pt_exists h (skills_dir h d)"

definition contextFileNames :: "jstr list" where
  "contextFileNames = [js ''AGENTS.md'', js ''AGENTS.MD'', js ''CLAUDE.md'', js ''CLAUDE.MD'']"

definition context_files :: "trust_host \<Rightarrow> jstr \<Rightarrow> bool" where
  "context_files h d \<longleftrightarrow> list_ex (\<lambda>name. pt_exists h (path_join d name)) contextFileNames"

function skills_above :: "trust_host \<Rightarrow> jstr \<Rightarrow> bool" where
  "skills_above h currentDir =
     (if project_skills h currentDir then True
      else (let parentDir = dirname currentDir in if parentDir = currentDir then False else skills_above h parentDir))"
  by pat_completeness auto
termination by (relation "measure (\<lambda>(_, p). dir_height p)") auto

function inputs_above :: "trust_host \<Rightarrow> jstr \<Rightarrow> bool" where
  "inputs_above h currentDir =
     (if context_files h currentDir then True
      else if project_skills h currentDir then True
      else (let parentDir = dirname currentDir in if parentDir = currentDir then False else inputs_above h parentDir))"
  by pat_completeness auto
termination by (relation "measure (\<lambda>(_, p). dir_height p)") auto

declare skills_above.simps [simp del] inputs_above.simps [simp del]

definition hasTrustRequiringProjectResources :: "trust_host \<Rightarrow> jstr \<Rightarrow> bool" where
  "hasTrustRequiringProjectResources h cwd \<longleftrightarrow>
     (if hasTrustRequiringConfigResources h cwd then True else skills_above h (pt_canonical h cwd))"

definition hasProjectTrustInputs :: "trust_host \<Rightarrow> jstr \<Rightarrow> bool" where
  "hasProjectTrustInputs h cwd \<longleftrightarrow>
     (let currentDir = pt_canonical h cwd
      in if hasTrustRequiringConfigResources h currentDir then True else inputs_above h currentDir)"

subsection \<open>The decision of a session\<close>

datatype default_trust = Trust_Always | Trust_Never | Trust_Ask

text \<open>
  What a session asks with: the answer of an extension (\<open>yes\<close> or not, and whether to remember it), the label the
  user picks, and the answers of the lock file library for reading and for writing.
\<close>

record trust_request =
  tq_cwd :: jstr
  tq_override :: "bool option"
  tq_default :: "default_trust option"
  tq_extension :: "(bool \<times> bool) option"
  tq_hasUI :: bool
  tq_selected :: "jstr option"
  tq_read_lock :: "(string \<times> jstr) option list"
  tq_write_lock :: "(string \<times> jstr) option list"

definition selectProjectTrustOption :: "trust_host \<Rightarrow> trust_request \<Rightarrow> trust_option option" where
  "selectProjectTrustOption h q = find (\<lambda>opt. Some (to_label opt) = tq_selected q) (getProjectTrustOptions h (tq_cwd q) True)"

definition saveProjectTrustPromptResult :: "trust_host \<Rightarrow> trust_request \<Rightarrow> trust_option \<Rightarrow> jstr option \<Rightarrow> jstr option \<times> (jstr + unit)" where
  "saveProjectTrustPromptResult h q r file =
     (if to_updates r \<noteq> [] then trust_setMany h (tq_write_lock q) (to_updates r) file else (file, Inr ()))"

definition answer_behind :: "jstr option \<times> (jstr + unit) \<Rightarrow> bool \<Rightarrow> jstr option \<times> (jstr + bool)" where
  "answer_behind r trusted = (case r of (file, Inl message) \<Rightarrow> (file, Inl message) | (file, Inr _) \<Rightarrow> (file, Inr trusted))"

definition ask_for_trust :: "trust_host \<Rightarrow> trust_request \<Rightarrow> jstr option \<Rightarrow> jstr option \<times> (jstr + bool)" where
  "ask_for_trust h q file =
     (if \<not> tq_hasUI q then (file, Inr False)
      else (case selectProjectTrustOption h q of
              Some selected \<Rightarrow> answer_behind (saveProjectTrustPromptResult h q selected file) (to_trusted selected)
            | None \<Rightarrow> (file, Inr False)))"

definition resolveProjectTrusted :: "trust_host \<Rightarrow> trust_request \<Rightarrow> jstr option \<Rightarrow> jstr option \<times> (jstr + bool)" where
  "resolveProjectTrusted h q file =
     (case tq_override q of
        Some trusted \<Rightarrow> (file, Inr trusted)
      | None \<Rightarrow>
          (if \<not> hasProjectTrustInputs h (tq_cwd q) then (file, Inr True)
           else (case tq_extension q of
                   Some (trusted, remember) \<Rightarrow>
                     (if remember then answer_behind (trust_set h (tq_write_lock q) (tq_cwd q) (Some trusted) file) trusted
                      else (file, Inr trusted))
                 | None \<Rightarrow>
                     (case trust_get h (tq_read_lock q) (tq_cwd q) file of
                        (file, Inl message) \<Rightarrow> (file, Inl message)
                      | (file, Inr (Some decision)) \<Rightarrow> (file, Inr decision)
                      | (file, Inr None) \<Rightarrow>
                          (case (case tq_default q of None \<Rightarrow> Trust_Ask | Some d \<Rightarrow> d) of
                             Trust_Always \<Rightarrow> (file, Inr True)
                           | Trust_Never \<Rightarrow> (file, Inr False)
                           | Trust_Ask \<Rightarrow> ask_for_trust h q file)))))"

subsection \<open>Ancestors\<close>

function ancestors :: "jstr \<Rightarrow> jstr list" where
  "ancestors p = p # (if dirname p = p then [] else ancestors (dirname p))"
  by pat_completeness auto
termination by (relation "measure dir_height") auto

declare ancestors.simps [simp del]

lemma self_ancestor [simp]: "p \<in> set (ancestors p)"
  by (subst ancestors.simps) simp

lemma ancestor_dirname: "q \<in> set (ancestors p) \<Longrightarrow> dirname q \<in> set (ancestors p)"
proof (induction p rule: ancestors.induct)
  case (1 p)
  show ?case
  proof (cases "dirname p = p")
    case True
    with 1(2) show ?thesis by (simp add: ancestors.simps [of p])
  next
    case False
    with 1 show ?thesis by (subst ancestors.simps) (auto simp: ancestors.simps [of p])
  qed
qed

lemma nearest_entry_find:
  "nearest_entry data p =
     map_option (\<lambda>q. (q, the (the (jm_get data q)))) (find (\<lambda>q. \<exists>b. jm_get data q = Some (Some b)) (ancestors p))"
proof (induction data p rule: nearest_entry.induct)
  case (1 data p)
  show ?case
  proof (cases "\<exists>b. jm_get data p = Some (Some b)")
    case True
    then show ?thesis by (subst nearest_entry.simps) (auto simp: ancestors.simps [of p])
  next
    case False
    with 1 show ?thesis by (subst nearest_entry.simps) (auto simp: ancestors.simps [of p] Let_def split: option.splits)
  qed
qed

lemma nearest_entry_cong:
  assumes "\<And>q. q \<in> set (ancestors p) \<Longrightarrow> jm_get data q = jm_get data' q"
  shows "nearest_entry data p = nearest_entry data' p"
proof -
  have "find (\<lambda>q. \<exists>b. jm_get data q = Some (Some b)) (ancestors p) = find (\<lambda>q. \<exists>b. jm_get data' q = Some (Some b)) (ancestors p)"
    using assms by (intro find_cong) simp_all
  moreover have "q \<in> set (ancestors p)" if "find (\<lambda>q. \<exists>b. jm_get data' q = Some (Some b)) (ancestors p) = Some q" for q
    using that by (auto simp: find_Some_iff)
  ultimately show ?thesis
    using assms by (auto simp: nearest_entry_find intro!: option.map_cong)
qed

lemma skills_above_iff: "skills_above h p \<longleftrightarrow> (\<exists>d\<in>set (ancestors p). project_skills h d)"
proof (induction h p rule: skills_above.induct)
  case (1 h p)
  then show ?case by (subst skills_above.simps) (auto simp: ancestors.simps [of p] Let_def)
qed

lemma inputs_above_iff: "inputs_above h p \<longleftrightarrow> (\<exists>d\<in>set (ancestors p). context_files h d \<or> project_skills h d)"
proof (induction h p rule: inputs_above.induct)
  case (1 h p)
  then show ?case by (subst inputs_above.simps) (auto simp: ancestors.simps [of p] Let_def)
qed

text \<open>What is gated by trust is what a session asks about: project resources are found if and only if the project's
  own configuration directories hold one or the project or a folder above it has skills other than the user's own,
  and whenever they are found the session decides by trust, as it also does for context files in those folders.
\<close>

theorem gated_resources_are_asked_about:
  assumes "pt_canonical h (pt_canonical h cwd) = pt_canonical h cwd"
  shows "(hasTrustRequiringProjectResources h cwd \<longleftrightarrow>
      hasTrustRequiringConfigResources h cwd \<or> (\<exists>d\<in>set (ancestors (pt_canonical h cwd)). project_skills h d)) \<and>
    (hasProjectTrustInputs h cwd \<longleftrightarrow>
      hasTrustRequiringProjectResources h cwd \<or> (\<exists>d\<in>set (ancestors (pt_canonical h cwd)). context_files h d))"
proof -
  have "hasTrustRequiringConfigResources h (pt_canonical h cwd) = hasTrustRequiringConfigResources h cwd"
    by (simp add: hasTrustRequiringConfigResources_def assms)
  then show ?thesis
    by (auto simp: hasTrustRequiringProjectResources_def hasProjectTrustInputs_def skills_above_iff inputs_above_iff Let_def)
qed

subsection \<open>The file\<close>

definition trust_wf :: "trust_data \<Rightarrow> bool" where
  "trust_wf data \<longleftrightarrow> jm_wf data \<and> jm_get data (js ''__proto__'') = None"

lemma set_insert_entry [simp]: "set (insert_entry e es) = insert e (set es)"
  by (induction es) auto

lemma set_sort_entries [simp]: "set (sort_entries es) = set es"
  by (induction es) (auto simp: sort_entries_def)

lemma distinct_insert_entry: "distinct (map fst (insert_entry e es)) \<longleftrightarrow> fst e \<notin> fst ` set es \<and> distinct (map fst es)"
  by (induction es) auto

lemma distinct_sort_entries: "distinct (map fst es) \<Longrightarrow> distinct (map fst (sort_entries es))"
proof (induction es)
  case (Cons e es)
  then show ?case using set_sort_entries [of es] by (simp add: sort_entries_def distinct_insert_entry)
qed (simp add: sort_entries_def)

lemma map_of_sort_entries: "distinct (map fst es) \<Longrightarrow> map_of (sort_entries es) = map_of es"
  by (intro map_of_inject_set [THEN iffD2]) (simp_all add: distinct_sort_entries)

lemma trust_entries_wf: "trust_wf data \<Longrightarrow> trust_entries path entries data = Inr data' \<Longrightarrow> trust_wf data'"
proof (induction path entries data rule: trust_entries.induct)
  case (2 path key v entries data)
  have "trust_wf (jm_set key x data)" if "key \<noteq> js ''__proto__''" for x
    using that 2(2) by (auto simp: trust_wf_def)
  with 2 show ?case by (auto simp: Let_def split: json.splits if_splits)
qed simp

lemma read_trust_wf: "readTrustFile h file = Inr data \<Longrightarrow> trust_wf data"
proof -
  have "trust_wf []" by (simp add: trust_wf_def)
  then show "readTrustFile h file = Inr data \<Longrightarrow> trust_wf data"
    by (auto simp: readTrustFile_def intro: trust_entries_wf split: option.splits json.splits)
qed

lemma trust_entries_data:
  "distinct (jm_keys acc @ map fst es) \<Longrightarrow> js ''__proto__'' \<notin> fst ` set es \<Longrightarrow>
    trust_entries path (map (\<lambda>(key, v). (key, trust_json v)) es) acc = Inr (acc @ es)"
proof (induction es arbitrary: acc)
  case (Cons e es)
  obtain key v where e: "e = (key, v)" by (cases e)
  with Cons.prems have "jm_set key v acc = acc @ [(key, v)]" by (intro jm_set_fresh) auto
  moreover have "trust_entries path (map (\<lambda>(key, v). (key, trust_json v)) es) (acc @ [(key, v)]) = Inr ((acc @ [(key, v)]) @ es)"
    using Cons.prems e by (intro Cons.IH) auto
  ultimately show ?case using Cons.prems(2) by (cases v) (auto simp: e trust_json_def Let_def)
qed simp

lemma read_written:
  assumes "trust_wf data"
  shows "\<exists>data'. readTrustFile h (Some (writeTrustFile data)) = Inr data' \<and> trust_wf data' \<and> jm_get data' = jm_get data"
proof -
  let ?fs = "map (\<lambda>(key, v). (key, trust_json v)) (sort_entries data)"
  have keys: "map fst ?fs = map fst (sort_entries data)" by (simp add: comp_def case_prod_beta)
  have distinct: "distinct (map fst (sort_entries data))"
    using assms by (intro distinct_sort_entries) (simp add: trust_wf_def)
  have "list_all (\<lambda>(k, v). json_plain v) ?fs" by (auto simp: list_all_iff trust_json_def split: option.split)
  with distinct have plain: "json_plain (JObj ?fs)" by (simp only: json_plain.simps keys simp_thms)
  have "utf8_text (json_pretty (\<lambda>_. []) 0 (JObj ?fs) @ [js_LF]) = json_pretty (\<lambda>_. []) 0 (JObj ?fs) @ [js_LF]"
    using whole_pretty [OF plain, of "\<lambda>_. []" 0] by (simp add: whole_text_def del: json_pretty.simps)
  then have w: "writeTrustFile data = json_pretty (\<lambda>_. []) 0 (JObj ?fs) @ [js_LF]" by (simp only: writeTrustFile_def)
  have "stripJsonBom (json_pretty (\<lambda>_. []) 0 (JObj ?fs) @ [js_LF]) = json_pretty (\<lambda>_. []) 0 (JObj ?fs) @ [js_LF]"
    by (simp add: stripJsonBom_def json_block_def)
  moreover have "JSON_parse (pt_numVal h) (json_pretty (\<lambda>_. []) 0 (JObj ?fs) @ [js_LF]) = Some (JObj ?fs)"
    by (rule json_text_reads_back [OF plain]) (simp add: json_ws_def)
  moreover have "trust_entries (pt_path h) ?fs [] = Inr ([] @ sort_entries data)"
    using assms distinct by (intro trust_entries_data) (auto simp: trust_wf_def map_of_eq_None_iff)
  ultimately have "readTrustFile h (Some (writeTrustFile data)) = Inr (sort_entries data)"
    unfolding w readTrustFile_def by (simp del: json_pretty.simps)
  moreover have "jm_get (sort_entries data) = jm_get data"
    using assms by (intro map_of_sort_entries) (simp add: trust_wf_def)
  moreover from this calculation have "trust_wf (sort_entries data)" using read_trust_wf by blast
  ultimately show ?thesis by blast
qed

lemma update_trust_wf:
  "trust_wf data \<Longrightarrow> normalizeCwd h (fst u) \<noteq> js ''__proto__'' \<Longrightarrow> trust_wf (update_trust h u data)"
  by (cases u) (auto simp: update_trust_def trust_wf_def Let_def split: option.split)

lemma updates_wf:
  "trust_wf data \<Longrightarrow> list_all (\<lambda>u. normalizeCwd h (fst u) \<noteq> js ''__proto__'') us \<Longrightarrow> trust_wf (fold (update_trust h) us data)"
  by (induction us arbitrary: data) (simp_all add: update_trust_wf)

subsection \<open>What is remembered\<close>

definition absolute :: "jstr \<Rightarrow> bool" where
  "absolute p \<longleftrightarrow> p \<noteq> [] \<and> hd p = js_slash"

lemma absolute_proto: "absolute p \<Longrightarrow> p \<noteq> js ''__proto__''"
  by (auto simp: absolute_def js_def)

lemma absolute_dirname: "absolute p \<Longrightarrow> absolute (dirname p)"
proof (cases p)
  case (Cons c s)
  assume "absolute p"
  then have "c = js_slash" by (simp add: Cons absolute_def)
  then show ?thesis
    by (auto simp: Cons dirname_Cons Let_def absolute_def js_def)
qed (simp add: absolute_def)

text \<open>What the operating system answers about a folder: its real path is absolute, and it and the folder above are real.\<close>

definition real_folder :: "trust_host \<Rightarrow> jstr \<Rightarrow> bool" where
  "real_folder h cwd \<longleftrightarrow>
     (let p = pt_canonical h cwd in absolute p \<and> pt_canonical h p = p \<and> pt_canonical h (dirname p) = dirname p)"

lemma setMany_read:
  assumes "acquireTrustLockSync a = None" "readTrustFile h file = Inr data"
    and "list_all (\<lambda>u. normalizeCwd h (fst u) \<noteq> js ''__proto__'') us"
  shows "\<exists>file' data'. trust_setMany h a us file = (file', Inr ()) \<and> readTrustFile h file' = Inr data' \<and>
    jm_get data' = jm_get (fold (update_trust h) us data)"
proof -
  have "trust_wf (fold (update_trust h) us data)" using updates_wf [OF read_trust_wf [OF assms(2)] assms(3)] .
  from read_written [OF this] show ?thesis
    by (auto simp: trust_setMany_def withTrustFileLock_def assms(1,2))
qed

lemma getEntry_read:
  "acquireTrustLockSync b = None \<Longrightarrow> readTrustFile h file = Inr data \<Longrightarrow>
    trust_getEntry h b cwd file = (file, Inr (nearest_entry data (normalizeCwd h cwd)))"
  by (simp add: trust_getEntry_def withTrustFileLock_def findNearestTrustEntry_def)

lemma nearest_self: "jm_get data p = Some (Some b) \<Longrightarrow> nearest_entry data p = Some (p, b)"
  by (subst nearest_entry.simps) simp

lemma nearest_up: "jm_get data p = None \<Longrightarrow> dirname p \<noteq> p \<Longrightarrow> nearest_entry data p = nearest_entry data (dirname p)"
  by (subst nearest_entry.simps) (simp add: Let_def)

lemma option_saved:
  assumes "opt \<in> set (getProjectTrustOptions h cwd extra)" "to_savedPath opt = Some p"
  obtains "p = normalizeCwd h cwd" "to_updates opt = [(p, Some (to_trusted opt))]"
  | "p = dirname (normalizeCwd h cwd)" "dirname (normalizeCwd h cwd) \<noteq> normalizeCwd h cwd" "to_trusted opt"
    "to_updates opt = [(p, Some True), (normalizeCwd h cwd, None)]"
  using assms
  by (auto simp: getProjectTrustOptions_def getProjectTrustPath_def getProjectTrustParentPath_def Let_def split: if_splits)

lemma choice_remembered:
  assumes "real_folder h cwd" "acquireTrustLockSync a = None" "readTrustFile h file = Inr data"
    and "opt \<in> set (getProjectTrustOptions h cwd extra)" "to_savedPath opt = Some p"
  shows "\<exists>file' data'. trust_setMany h a (to_updates opt) file = (file', Inr ()) \<and> readTrustFile h file' = Inr data' \<and>
    nearest_entry data' (normalizeCwd h cwd) = Some (p, to_trusted opt) \<and>
    (\<forall>d. p \<notin> set (ancestors d) \<longrightarrow> nearest_entry data' d = nearest_entry data d)"
proof -
  let ?t = "normalizeCwd h cwd"
  have real: "absolute ?t" "normalizeCwd h ?t = ?t" "normalizeCwd h (dirname ?t) = dirname ?t"
    using assms(1) by (simp_all add: real_folder_def normalizeCwd_def Let_def)
  note ok = absolute_proto [OF real(1)] absolute_proto [OF absolute_dirname [OF real(1)]]
  from assms(4,5) show ?thesis
  proof (cases rule: option_saved)
    case 1
    have "list_all (\<lambda>u. normalizeCwd h (fst u) \<noteq> js ''__proto__'') (to_updates opt)" using ok by (simp add: 1 real(2))
    from setMany_read [OF assms(2,3) this] obtain file' data' where
      s: "trust_setMany h a (to_updates opt) file = (file', Inr ())" "readTrustFile h file' = Inr data'"
        "jm_get data' = jm_get (fold (update_trust h) (to_updates opt) data)" by blast
    have get: "jm_get data' q = (if q = ?t then Some (Some (to_trusted opt)) else jm_get data q)" for q
      by (simp add: s(3) 1 real(2) update_trust_def)
    have "nearest_entry data' d = nearest_entry data d" if "p \<notin> set (ancestors d)" for d
      using that get 1(1) by (intro nearest_entry_cong) auto
    moreover have "nearest_entry data' ?t = Some (p, to_trusted opt)" unfolding 1(1) by (rule nearest_self) (simp add: get)
    ultimately show ?thesis using s(1,2) by blast
  next
    case 2
    have "list_all (\<lambda>u. normalizeCwd h (fst u) \<noteq> js ''__proto__'') (to_updates opt)" using ok by (simp add: 2 real(2,3))
    from setMany_read [OF assms(2,3) this] obtain file' data' where
      s: "trust_setMany h a (to_updates opt) file = (file', Inr ())" "readTrustFile h file' = Inr data'"
        "jm_get data' = jm_get (fold (update_trust h) (to_updates opt) data)" by blast
    have get: "jm_get data' q = (if q = ?t then None else if q = dirname ?t then Some (Some True) else jm_get data q)" for q
      by (simp add: s(3) 2 real(2,3) update_trust_def)
    have "nearest_entry data' d = nearest_entry data d" if "p \<notin> set (ancestors d)" for d
      using that get 2(1) ancestor_dirname [of ?t d] by (intro nearest_entry_cong) auto
    moreover have "nearest_entry data' (dirname ?t) = Some (dirname ?t, True)" by (rule nearest_self) (simp add: get 2(2))
    moreover have "nearest_entry data' ?t = nearest_entry data' (dirname ?t)" by (rule nearest_up) (simp_all add: get 2(2))
    ultimately show ?thesis using s(1,2) 2(1,3) by auto
  qed
qed

text \<open>C14: C0: Each choice that is saved is remembered: written to the store and read back, it decides for the folder, under
  the path shown as saved, and folders that are not at or under that path are decided as before.
\<close>

theorem trust_choice_is_remembered:
  assumes "real_folder h cwd" "acquireTrustLockSync a = None" "acquireTrustLockSync b = None" "readTrustFile h file = Inr data"
    and "opt \<in> set (getProjectTrustOptions h cwd extra)" "to_savedPath opt = Some p"
  shows "\<exists>file'. trust_setMany h a (to_updates opt) file = (file', Inr ()) \<and>
    trust_getEntry h b cwd file' = (file', Inr (Some (p, to_trusted opt))) \<and>
    (\<forall>d. p \<notin> set (ancestors (normalizeCwd h d)) \<longrightarrow> snd (trust_getEntry h b d file') = snd (trust_getEntry h b d file))"
proof -
  from choice_remembered [OF assms(1,2,4,5,6)] obtain file' data' where
    f: "trust_setMany h a (to_updates opt) file = (file', Inr ())" "readTrustFile h file' = Inr data'"
      "nearest_entry data' (normalizeCwd h cwd) = Some (p, to_trusted opt)"
      "\<forall>d. p \<notin> set (ancestors d) \<longrightarrow> nearest_entry data' d = nearest_entry data d" by blast
  show ?thesis
    using f(1,3,4) by (simp add: getEntry_read [OF assms(3) f(2)] getEntry_read [OF assms(3,4)])
qed

lemma to_updates_saved: "opt \<in> set (getProjectTrustOptions h cwd extra) \<Longrightarrow> to_savedPath opt = Some p \<Longrightarrow> to_updates opt \<noteq> []"
  by (auto simp: getProjectTrustOptions_def Let_def split: if_splits option.splits)

text \<open>C15: C0: An answer that a user gives and saves holds in later sessions: whatever their default and whether or not they
  have a user interface, they decide for the folder as the user did, without asking and without changing the store.
\<close>

theorem answers_hold_in_later_sessions:
  assumes "real_folder h (tq_cwd q)" "hasProjectTrustInputs h (tq_cwd q)" "readTrustFile h file = Inr data"
    and "findNearestTrustEntry h data (tq_cwd q) = None"
    and "tq_override q = None" "tq_extension q = None" "tq_default q \<noteq> Some Trust_Always" "tq_default q \<noteq> Some Trust_Never" "tq_hasUI q"
    and "acquireTrustLockSync (tq_read_lock q) = None" "acquireTrustLockSync (tq_write_lock q) = None"
    and "selectProjectTrustOption h q = Some opt" "to_savedPath opt = Some p"
  shows "\<exists>file'. resolveProjectTrusted h q file = (file', Inr (to_trusted opt)) \<and>
    (\<forall>q'. tq_cwd q' = tq_cwd q \<longrightarrow> tq_override q' = None \<longrightarrow> tq_extension q' = None \<longrightarrow>
       acquireTrustLockSync (tq_read_lock q') = None \<longrightarrow> resolveProjectTrusted h q' file' = (file', Inr (to_trusted opt)))"
proof -
  have opt: "opt \<in> set (getProjectTrustOptions h (tq_cwd q) True)"
    using assms(12) by (auto simp: selectProjectTrustOption_def find_Some_iff)
  from choice_remembered [OF assms(1,11,3) opt assms(13)] obtain file' data' where
    f: "trust_setMany h (tq_write_lock q) (to_updates opt) file = (file', Inr ())" "readTrustFile h file' = Inr data'"
      "nearest_entry data' (normalizeCwd h (tq_cwd q)) = Some (p, to_trusted opt)" by blast
  have "(case tq_default q of None \<Rightarrow> Trust_Ask | Some d \<Rightarrow> d) = Trust_Ask"
    using assms(7,8) by (cases "tq_default q") (auto intro: default_trust.exhaust)
  then have "resolveProjectTrusted h q file = (file', Inr (to_trusted opt))"
    using assms(2,4,5,6,9,12) to_updates_saved [OF opt assms(13)] f(1)
    by (simp add: resolveProjectTrusted_def trust_get_def getEntry_read [OF assms(10,3)] findNearestTrustEntry_def ask_for_trust_def
      saveProjectTrustPromptResult_def answer_behind_def)
  moreover have "resolveProjectTrusted h q' file' = (file', Inr (to_trusted opt))"
    if "tq_cwd q' = tq_cwd q" "tq_override q' = None" "tq_extension q' = None" "acquireTrustLockSync (tq_read_lock q') = None" for q'
    using that assms(2) by (simp add: resolveProjectTrusted_def trust_get_def getEntry_read [OF that(4) f(2)] f(3))
  ultimately show ?thesis by blast
qed

definition trust_example :: trust_host where
  "trust_example = \<lparr>pt_canonical = (\<lambda>p. p), pt_exists = (\<lambda>p. p = js ''/w/AGENTS.md''), pt_home = js ''/home'', pt_numVal = (\<lambda>_. JNonFinite),
     pt_parse_error = (\<lambda>_. []), pt_config_dirs = [js ''.orphus''], pt_path = js ''/home/trust.json''\<rparr>"

definition trust_example_request :: trust_request where
  "trust_example_request = \<lparr>tq_cwd = js ''/w/p'', tq_override = None, tq_default = None, tq_extension = None, tq_hasUI = True,
     tq_selected = Some (js ''Trust parent folder (/w)''), tq_read_lock = [Some (''ELOCKED'', []), None], tq_write_lock = []\<rparr>"

theorem gated_resources_are_asked_about_witness:
  "hasProjectTrustInputs trust_example (js ''/w/p'') \<longleftrightarrow>
     hasTrustRequiringProjectResources trust_example (js ''/w/p'') \<or>
     (\<exists>d\<in>set (ancestors (pt_canonical trust_example (js ''/w/p''))). context_files trust_example d)"
  using gated_resources_are_asked_about [of trust_example "js ''/w/p''"] by (simp add: trust_example_def)

theorem trust_choice_is_remembered_witness:
  "\<exists>file'. trust_setMany trust_example [] [(js ''/w/p'', Some True)] None = (file', Inr ()) \<and>
     trust_getEntry trust_example [] (js ''/w/p'') file' = (file', Inr (Some (js ''/w/p'', True)))"
proof -
  let ?opt = "\<lparr>to_label = js ''Trust'', to_trusted = True, to_updates = [(js ''/w/p'', Some True)], to_savedPath = Some (js ''/w/p'')\<rparr>"
  have "real_folder trust_example (js ''/w/p'')" "acquireTrustLockSync [] = None" "readTrustFile trust_example None = Inr []"
    by code_simp+
  moreover have "?opt \<in> set (getProjectTrustOptions trust_example (js ''/w/p'') False)"
    by (simp add: getProjectTrustOptions_def getProjectTrustPath_def normalizeCwd_def trust_example_def Let_def)
  ultimately show ?thesis
    using trust_choice_is_remembered [of trust_example "js ''/w/p''" "[]" "[]" None "[]" ?opt False "js ''/w/p''"] by auto
qed

theorem answers_hold_in_later_sessions_witness:
  "\<exists>file'. resolveProjectTrusted trust_example trust_example_request None = (file', Inr True)"
proof -
  let ?opt = "\<lparr>to_label = js ''Trust parent folder (/w)'', to_trusted = True, to_updates = [(js ''/w'', Some True), (js ''/w/p'', None)],
    to_savedPath = Some (js ''/w'')\<rparr>"
  have "real_folder trust_example (tq_cwd trust_example_request)" "hasProjectTrustInputs trust_example (tq_cwd trust_example_request)"
    "readTrustFile trust_example None = Inr []" "findNearestTrustEntry trust_example [] (tq_cwd trust_example_request) = None"
    "acquireTrustLockSync (tq_read_lock trust_example_request) = None" "acquireTrustLockSync (tq_write_lock trust_example_request) = None"
    "selectProjectTrustOption trust_example trust_example_request = Some ?opt"
    by code_simp+
  then show ?thesis
    using answers_hold_in_later_sessions [of trust_example trust_example_request None "[]" ?opt "js ''/w''"]
    by (auto simp: trust_example_request_def)
qed

end
