(* ===== verification/Stage_Ui_Broker.thy ===== *)
theory Stage_Ui_Broker
  imports JS_Core "HOL-Library.Multiset"
begin

text \<open>
  The broker of custom user interfaces that stages of a workflow ask for
  (\<open>packages/workflows/src/shared/stage-ui-broker.ts\<close>): requests wait for an answer from an attached host or from
  \<open>workflow send\<close>, at most one per stage.  Calls of the store, of hosts, of listeners and of promises are logged; a
  host may throw when it is to show a request.  A host that answers while it is shown the request is an answer right
  behind the step.  Requests are named by their number, in the order they were made.
\<close>

subsection \<open>State\<close>

record ui_request =
  ur_id :: nat
  ur_runId :: jstr
  ur_stageId :: jstr

text \<open>An adapter: the prompt's identifier and the result it builds from an answer (which may throw).\<close>

record ('a, 'v) prompt_adapter =
  pa_prompt :: jstr
  pa_buildResult :: "'a \<Rightarrow> 'v option"

datatype 'v settlement = Resolved_With 'v | Rejected_With jstr

datatype store_call =
    SC_Input jstr jstr jstr
  | SC_Clear_Input jstr jstr
  | SC_Awaiting jstr jstr bool

datatype host_call = HC_Show nat nat | HC_Hide nat nat "jstr option"

record ('a, 'v) ui_broker =
  ub_pending :: "(jstr, ui_request) jmap"
  ub_hosts :: "(jstr, nat) jmap"
  ub_adapters :: "(jstr, ('a, 'v) prompt_adapter) jmap"
  ub_resolvedPromptIds :: "(jstr, jstr) jmap"
  ub_requests :: "ui_request list"
  ub_settled :: "(nat \<times> 'v settlement) list"
  ub_store :: "store_call list"
  ub_host_calls :: "host_call list"
  ub_notified :: "(jstr \<times> jstr \<times> jstr \<times> 'v \<times> jstr option) list"

definition ui_init :: "('a, 'v) ui_broker" where
  "ui_init = \<lparr>ub_pending = [], ub_hosts = [], ub_adapters = [], ub_resolvedPromptIds = [], ub_requests = [], ub_settled = [],
     ub_store = [], ub_host_calls = [], ub_notified = []\<rparr>"

definition stage_key :: "jstr \<Rightarrow> jstr \<Rightarrow> jstr" where
  "stage_key runId stageId = runId @ [0] @ stageId"

definition request_key :: "ui_request \<Rightarrow> jstr" where
  "request_key r = stage_key (ur_runId r) (ur_stageId r)"

definition tell_store :: "store_call list \<Rightarrow> ('a, 'v) ui_broker \<Rightarrow> ('a, 'v) ui_broker" where
  "tell_store cs b = b\<lparr>ub_store := ub_store b @ cs\<rparr>"

subsection \<open>Settling\<close>

definition hideHost :: "nat option \<Rightarrow> ui_request \<Rightarrow> jstr option \<Rightarrow> ('a, 'v) ui_broker \<Rightarrow> ('a, 'v) ui_broker" where
  "hideHost host r reason b =
     (case host of None \<Rightarrow> b | Some n \<Rightarrow> b\<lparr>ub_host_calls := ub_host_calls b @ [HC_Hide n (ur_id r) reason]\<rparr>)"

definition ui_owns :: "('a, 'v) ui_broker \<Rightarrow> ui_request \<Rightarrow> bool" where
  "ui_owns b r \<longleftrightarrow> map_option ur_id (jm_get (ub_pending b) (request_key r)) = Some (ur_id r)"

definition ui_resolve :: "ui_request \<Rightarrow> 'v \<Rightarrow> jstr option \<Rightarrow> ('a, 'v) ui_broker \<Rightarrow> ('a, 'v) ui_broker" where
  "ui_resolve r v answerSource b =
     (if \<not> ui_owns b r then b
      else (let hostKey = request_key r;
                prompt = map_option pa_prompt (jm_get (ub_adapters b) hostKey);
                b = b\<lparr>ub_pending := jm_delete hostKey (ub_pending b), ub_adapters := jm_delete hostKey (ub_adapters b)\<rparr>;
                b = (case prompt of None \<Rightarrow> b
                     | Some i \<Rightarrow> b\<lparr>ub_resolvedPromptIds := jm_set hostKey i (ub_resolvedPromptIds b)\<rparr>);
                b = tell_store [SC_Clear_Input (ur_runId r) (ur_stageId r), SC_Awaiting (ur_runId r) (ur_stageId r) False] b;
                b = hideHost (jm_get (ub_hosts b) hostKey) r None b;
                b = (case prompt of None \<Rightarrow> b
                     | Some i \<Rightarrow> b\<lparr>ub_notified := ub_notified b @ [(ur_runId r, ur_stageId r, i, v, answerSource)]\<rparr>)
            in b\<lparr>ub_settled := ub_settled b @ [(ur_id r, Resolved_With v)]\<rparr>))"

definition ui_reject :: "ui_request \<Rightarrow> jstr \<Rightarrow> ('a, 'v) ui_broker \<Rightarrow> ('a, 'v) ui_broker" where
  "ui_reject r reason b =
     (if \<not> ui_owns b r then b
      else (let hostKey = request_key r;
                b = b\<lparr>ub_pending := jm_delete hostKey (ub_pending b), ub_adapters := jm_delete hostKey (ub_adapters b),
                  ub_resolvedPromptIds := jm_delete hostKey (ub_resolvedPromptIds b)\<rparr>;
                b = tell_store [SC_Clear_Input (ur_runId r) (ur_stageId r), SC_Awaiting (ur_runId r) (ur_stageId r) False] b;
                b = hideHost (jm_get (ub_hosts b) hostKey) r (Some reason) b
            in b\<lparr>ub_settled := ub_settled b @ [(ur_id r, Rejected_With reason)]\<rparr>))"

text \<open>\<open>throws\<close>: what the host throws when it is shown the request.\<close>

definition showHostOrReject :: "nat \<Rightarrow> jstr option \<Rightarrow> ui_request \<Rightarrow> ('a, 'v) ui_broker \<Rightarrow> ('a, 'v) ui_broker" where
  "showHostOrReject host throws r b =
     (let b = b\<lparr>ub_host_calls := ub_host_calls b @ [HC_Show host (ur_id r)]\<rparr>
      in case throws of None \<Rightarrow> b | Some error \<Rightarrow> ui_reject r error b)"

subsection \<open>Prompts\<close>

definition provideStagePrompt :: "jstr \<Rightarrow> jstr \<Rightarrow> ('a, 'v) prompt_adapter \<Rightarrow> ('a, 'v) ui_broker \<Rightarrow> ('a, 'v) ui_broker" where
  "provideStagePrompt runId stageId adapter b =
     (let hostKey = stage_key runId stageId
      in tell_store [SC_Input runId stageId (pa_prompt adapter)]
           (b\<lparr>ub_adapters := jm_set hostKey adapter (ub_adapters b), ub_resolvedPromptIds := jm_delete hostKey (ub_resolvedPromptIds b)\<rparr>))"

definition clearStagePrompt :: "jstr \<Rightarrow> jstr \<Rightarrow> ('a, 'v) ui_broker \<Rightarrow> ('a, 'v) ui_broker" where
  "clearStagePrompt runId stageId b =
     (let hostKey = stage_key runId stageId
      in if jm_get (ub_adapters b) hostKey \<noteq> None
         then tell_store [SC_Clear_Input runId stageId] (b\<lparr>ub_adapters := jm_delete hostKey (ub_adapters b)\<rparr>) else b)"

definition cancelStagePrompt :: "jstr \<Rightarrow> jstr \<Rightarrow> jstr \<Rightarrow> ('a, 'v) ui_broker \<Rightarrow> ('a, 'v) ui_broker" where
  "cancelStagePrompt runId stageId reason b =
     (case jm_get (ub_pending b) (stage_key runId stageId) of
        Some r \<Rightarrow> ui_reject r reason b
      | None \<Rightarrow> clearStagePrompt runId stageId b)"

definition peekStagePrompt :: "jstr \<Rightarrow> jstr \<Rightarrow> ('a, 'v) ui_broker \<Rightarrow> jstr option" where
  "peekStagePrompt runId stageId b =
     (let hostKey = stage_key runId stageId
      in case jm_get (ub_adapters b) hostKey of
           Some adapter \<Rightarrow> if jm_get (ub_pending b) hostKey \<noteq> None then Some (pa_prompt adapter) else None
         | None \<Rightarrow> None)"

text \<open>\<open>None\<close>: building the result threw.\<close>

definition answerStagePrompt :: "jstr \<Rightarrow> jstr \<Rightarrow> 'a \<Rightarrow> jstr option \<Rightarrow> ('a, 'v) ui_broker \<Rightarrow> ('a, 'v) ui_broker \<times> bool option" where
  "answerStagePrompt runId stageId answer answerSource b =
     (let hostKey = stage_key runId stageId
      in case (jm_get (ub_adapters b) hostKey, jm_get (ub_pending b) hostKey) of
           (Some adapter, Some r) \<Rightarrow>
             (case pa_buildResult adapter answer of
                None \<Rightarrow> (b, None)
              | Some v \<Rightarrow> (ui_resolve r v answerSource b, Some True))
         | _ \<Rightarrow> (b, Some False))"

definition wasStagePromptResolved :: "jstr \<Rightarrow> jstr \<Rightarrow> jstr \<Rightarrow> ('a, 'v) ui_broker \<Rightarrow> bool" where
  "wasStagePromptResolved runId stageId promptId b \<longleftrightarrow> jm_get (ub_resolvedPromptIds b) (stage_key runId stageId) = Some promptId"

subsection \<open>Hosts and requests\<close>

definition host_replaced :: "jstr \<Rightarrow> jstr" where
  "host_replaced stageId = js ''atomic-workflows: stage '' @ stageId @ js '' custom UI host replaced''"

definition registerHost :: "jstr \<Rightarrow> jstr \<Rightarrow> nat \<Rightarrow> jstr option \<Rightarrow> ('a, 'v) ui_broker \<Rightarrow> ('a, 'v) ui_broker" where
  "registerHost runId stageId host throws b =
     (let hostKey = stage_key runId stageId;
          previousHost = jm_get (ub_hosts b) hostKey;
          b = (case (previousHost, jm_get (ub_pending b) hostKey) of
                 (Some previous, Some r) \<Rightarrow>
                   if previous \<noteq> host then hideHost (Some previous) r (Some (host_replaced stageId)) b else b
               | _ \<Rightarrow> b);
          b = b\<lparr>ub_hosts := jm_set hostKey host (ub_hosts b)\<rparr>
      in case jm_get (ub_pending b) hostKey of Some r \<Rightarrow> showHostOrReject host throws r b | None \<Rightarrow> b)"

definition unregisterHost :: "jstr \<Rightarrow> jstr \<Rightarrow> nat \<Rightarrow> ('a, 'v) ui_broker \<Rightarrow> ('a, 'v) ui_broker" where
  "unregisterHost runId stageId host b =
     (let hostKey = stage_key runId stageId
      in if jm_get (ub_hosts b) hostKey \<noteq> Some host then b else b\<lparr>ub_hosts := jm_delete hostKey (ub_hosts b)\<rparr>)"

text \<open>A request's promise is rejected at once (\<open>Inl\<close>), or waits under its identifier (\<open>Inr\<close>).\<close>

definition requestCustomUi :: "jstr \<Rightarrow> jstr \<Rightarrow> jstr option \<Rightarrow> jstr option \<Rightarrow> ('a, 'v) ui_broker \<Rightarrow> ('a, 'v) ui_broker \<times> (jstr + nat)" where
  "requestCustomUi runId stageId aborted throws b =
     (case aborted of
        Some reason \<Rightarrow> (b, Inl reason)
      | None \<Rightarrow>
          (let hostKey = stage_key runId stageId
           in case jm_get (ub_pending b) hostKey of
                Some r \<Rightarrow> (b, Inl (js ''atomic-workflows: stage '' @ stageId @ js '' already has a pending custom UI request''))
              | None \<Rightarrow>
                  (let r = \<lparr>ur_id = length (ub_requests b), ur_runId = runId, ur_stageId = stageId\<rparr>;
                       b = tell_store [SC_Awaiting runId stageId True]
                         (b\<lparr>ub_requests := ub_requests b @ [r], ub_pending := jm_set hostKey r (ub_pending b)\<rparr>);
                       b = (case jm_get (ub_hosts b) hostKey of Some host \<Rightarrow> showHostOrReject host throws r b | None \<Rightarrow> b)
                   in (b, Inr (ur_id r)))))"

subsection \<open>Runs\<close>

datatype ('a, 'v) ui_event =
    UE_Provide jstr jstr "('a, 'v) prompt_adapter"
  | UE_Clear jstr jstr
  | UE_Cancel jstr jstr jstr
  | UE_Answer jstr jstr 'a "jstr option"
  | UE_Register jstr jstr nat "jstr option"
  | UE_Unregister jstr jstr nat
  | UE_Request jstr jstr "jstr option" "jstr option"
  | UE_Resolve nat 'v
  | UE_Abort nat jstr

fun ui_step :: "('a, 'v) ui_event \<Rightarrow> ('a, 'v) ui_broker \<Rightarrow> ('a, 'v) ui_broker" where
  "ui_step (UE_Provide r s a) b = provideStagePrompt r s a b"
| "ui_step (UE_Clear r s) b = clearStagePrompt r s b"
| "ui_step (UE_Cancel r s reason) b = cancelStagePrompt r s reason b"
| "ui_step (UE_Answer r s a src) b = fst (answerStagePrompt r s a src b)"
| "ui_step (UE_Register r s h throws) b = registerHost r s h throws b"
| "ui_step (UE_Unregister r s h) b = unregisterHost r s h b"
| "ui_step (UE_Request r s aborted throws) b = fst (requestCustomUi r s aborted throws b)"
| "ui_step (UE_Resolve n v) b = (if n < length (ub_requests b) then ui_resolve (ub_requests b ! n) v None b else b)"
| "ui_step (UE_Abort n reason) b = (if n < length (ub_requests b) then ui_reject (ub_requests b ! n) reason b else b)"

definition ui_run :: "('a, 'v) ui_event list \<Rightarrow> ('a, 'v) ui_broker \<Rightarrow> ('a, 'v) ui_broker" where
  "ui_run es b = fold ui_step es b"

text \<open>What the store was told last: whether a stage awaits input.\<close>

fun awaiting_after :: "store_call list \<Rightarrow> jstr \<Rightarrow> jstr \<Rightarrow> bool" where
  "awaiting_after [] r s \<longleftrightarrow> False"
| "awaiting_after (c # cs) r s \<longleftrightarrow>
     (case c of SC_Awaiting r' s' w \<Rightarrow> if r' = r \<and> s' = s then w else awaiting_after cs r s | _ \<Rightarrow> awaiting_after cs r s)"

definition stage_awaits :: "('a, 'v) ui_broker \<Rightarrow> jstr \<Rightarrow> jstr \<Rightarrow> bool" where
  "stage_awaits b r s \<longleftrightarrow> awaiting_after (rev (ub_store b)) r s"

definition ui_inv :: "('a, 'v) ui_broker \<Rightarrow> bool" where
  "ui_inv b \<longleftrightarrow>
     jm_wf (ub_pending b) \<and>
     (\<forall>k r. jm_get (ub_pending b) k = Some r \<longrightarrow> k = request_key r \<and> ur_id r < length (ub_requests b) \<and> r = ub_requests b ! ur_id r) \<and>
     (\<forall>n < length (ub_requests b). ur_id (ub_requests b ! n) = n) \<and>
     mset (map (ur_id \<circ> snd) (ub_pending b)) + mset (map fst (ub_settled b)) = mset [0..<length (ub_requests b)] \<and>
     (\<forall>r s. stage_awaits b r s \<longleftrightarrow> (\<exists>k q. jm_get (ub_pending b) k = Some q \<and> ur_runId q = r \<and> ur_stageId q = s))"

subsection \<open>Every request is settled once\<close>

lemma ui_init_inv: "ui_inv ui_init"
  by (simp add: ui_inv_def ui_init_def stage_awaits_def)

text \<open>Steps that leave requests alone.\<close>

lemma ui_inv_cong:
  assumes "ui_inv b" "ub_pending b' = ub_pending b" "ub_requests b' = ub_requests b" "ub_settled b' = ub_settled b"
    and "\<And>r s. stage_awaits b' r s = stage_awaits b r s"
  shows "ui_inv b'"
  using assms(1) unfolding ui_inv_def assms(2-5) .

lemma awaiting_skip: "list_all (\<lambda>c. case c of SC_Awaiting r s w \<Rightarrow> False | _ \<Rightarrow> True) cs \<Longrightarrow> awaiting_after (cs @ ds) r s = awaiting_after ds r s"
  by (induction cs) (auto split: store_call.splits)

lemma stage_awaits_tell:
  "list_all (\<lambda>c. case c of SC_Awaiting r s w \<Rightarrow> False | _ \<Rightarrow> True) cs \<Longrightarrow> stage_awaits (tell_store cs b) r s = stage_awaits b r s"
  by (simp add: stage_awaits_def tell_store_def awaiting_skip list_all_iff)

lemma mset_delete:
  "jm_wf m \<Longrightarrow> jm_get m k = Some r \<Longrightarrow> mset (map (f \<circ> snd) m) = add_mset (f r) (mset (map (f \<circ> snd) (jm_delete k m)))"
proof (induction m)
  case (Cons e m)
  obtain k' r' where e: "e = (k', r')" by (cases e)
  show ?case
  proof (cases "k' = k")
    case True
    with Cons.prems e have "jm_delete k m = m" "r' = r" by (auto intro: jm_delete_fresh)
    with True e show ?thesis by simp
  next
    case False
    with Cons e show ?thesis by simp
  qed
qed simp

lemma settle_inv:
  assumes b: "ui_inv b" and k: "jm_get (ub_pending b) k = Some r"
    and p: "ub_pending b' = jm_delete k (ub_pending b)" "ub_requests b' = ub_requests b" "ub_settled b' = ub_settled b @ [(ur_id r, x)]"
    and st: "ub_store b' = ub_store b @ [SC_Clear_Input (ur_runId r) (ur_stageId r), SC_Awaiting (ur_runId r) (ur_stageId r) False]"
  shows "ui_inv b'"
proof -
  have wf: "jm_wf (ub_pending b)" and
    req: "\<And>k r. jm_get (ub_pending b) k = Some r \<Longrightarrow> k = request_key r \<and> ur_id r < length (ub_requests b) \<and> r = ub_requests b ! ur_id r" and
    ids: "\<forall>n < length (ub_requests b). ur_id (ub_requests b ! n) = n" and
    ms: "mset (map (ur_id \<circ> snd) (ub_pending b)) + mset (map fst (ub_settled b)) = mset [0..<length (ub_requests b)]" and
    aw: "\<And>r s. stage_awaits b r s \<longleftrightarrow> (\<exists>k q. jm_get (ub_pending b) k = Some q \<and> ur_runId q = r \<and> ur_stageId q = s)"
    using b unfolding ui_inv_def by blast+
  have "mset (map (ur_id \<circ> snd) (ub_pending b')) + mset (map fst (ub_settled b')) = mset [0..<length (ub_requests b')]"
    using ms mset_delete [OF wf k, of ur_id] by (simp add: p)
  moreover have "stage_awaits b' r' s \<longleftrightarrow> (\<exists>k q. jm_get (ub_pending b') k = Some q \<and> ur_runId q = r' \<and> ur_stageId q = s)" for r' s
  proof (cases "r' = ur_runId r \<and> s = ur_stageId r")
    case True
    have "k' = k" if "jm_get (ub_pending b) k' = Some q" "ur_runId q = r'" "ur_stageId q = s" for k' q
      using req [OF that(1)] req [OF k] that(2,3) True by (simp add: request_key_def)
    with True show ?thesis by (auto simp: stage_awaits_def st p)
  next
    case False
    then have "stage_awaits b' r' s = stage_awaits b r' s" by (auto simp: stage_awaits_def st)
    moreover have "(jm_get (ub_pending b') k' = Some q \<and> ur_runId q = r' \<and> ur_stageId q = s) =
        (jm_get (ub_pending b) k' = Some q \<and> ur_runId q = r' \<and> ur_stageId q = s)" for k' q
      using False k by (auto simp: p)
    ultimately show ?thesis by (simp only: aw)
  qed
  moreover have "jm_wf (ub_pending b')" using wf by (simp add: p)
  moreover have "k' = request_key q \<and> ur_id q < length (ub_requests b') \<and> q = ub_requests b' ! ur_id q" if "jm_get (ub_pending b') k' = Some q" for k' q
    using that req by (auto simp: p split: if_splits)
  ultimately show ?thesis using ids unfolding ui_inv_def p(2) by blast
qed

lemma pending_request: "ui_inv b \<Longrightarrow> jm_get (ub_pending b) k = Some r \<Longrightarrow> r = ub_requests b ! ur_id r"
  unfolding ui_inv_def by blast

lemma ui_owns_pending:
  assumes "ui_inv b" "ui_owns b r" "r = ub_requests b ! ur_id r"
  shows "jm_get (ub_pending b) (request_key r) = Some r"
proof -
  obtain q where q: "jm_get (ub_pending b) (request_key r) = Some q" "ur_id q = ur_id r"
    using assms(2) by (auto simp: ui_owns_def)
  with pending_request [OF assms(1) q(1)] assms(3) show ?thesis by metis
qed

lemma hideHost_simps [simp]:
  "ub_pending (hideHost h r m b) = ub_pending b" "ub_requests (hideHost h r m b) = ub_requests b"
  "ub_settled (hideHost h r m b) = ub_settled b" "ub_store (hideHost h r m b) = ub_store b"
  by (cases h; simp add: hideHost_def)+

lemma ui_resolve_inv: "ui_inv b \<Longrightarrow> r = ub_requests b ! ur_id r \<Longrightarrow> ui_inv (ui_resolve r v src b)"
proof (cases "ui_owns b r")
  case True
  assume b: "ui_inv b" "r = ub_requests b ! ur_id r"
  show ?thesis
  proof (rule settle_inv [OF b(1) ui_owns_pending [OF b(1) True b(2)]])
    show "ub_settled (ui_resolve r v src b) = ub_settled b @ [(ur_id r, Resolved_With v)]"
      using True by (cases "jm_get (ub_adapters b) (request_key r)") (simp_all add: ui_resolve_def Let_def tell_store_def)
  qed (use True in \<open>cases "jm_get (ub_adapters b) (request_key r)"; simp add: ui_resolve_def Let_def tell_store_def\<close>)+
qed (simp add: ui_resolve_def)

lemma ui_reject_inv: "ui_inv b \<Longrightarrow> r = ub_requests b ! ur_id r \<Longrightarrow> ui_inv (ui_reject r reason b)"
proof (cases "ui_owns b r")
  case True
  assume b: "ui_inv b" "r = ub_requests b ! ur_id r"
  show ?thesis
  proof (rule settle_inv [OF b(1) ui_owns_pending [OF b(1) True b(2)]])
    show "ub_settled (ui_reject r reason b) = ub_settled b @ [(ur_id r, Rejected_With reason)]"
      using True by (cases "jm_get (ub_adapters b) (request_key r)") (simp_all add: ui_reject_def Let_def tell_store_def)
  qed (use True in \<open>cases "jm_get (ub_adapters b) (request_key r)"; simp add: ui_reject_def Let_def tell_store_def\<close>)+
qed (simp add: ui_reject_def)

lemma show_inv: "ui_inv b \<Longrightarrow> r = ub_requests b ! ur_id r \<Longrightarrow> ui_inv (showHostOrReject host throws r b)"
proof -
  assume b: "ui_inv b" "r = ub_requests b ! ur_id r"
  have "ui_inv (b\<lparr>ub_host_calls := ub_host_calls b @ [HC_Show host (ur_id r)]\<rparr>)"
    by (rule ui_inv_cong [OF b(1)]) (simp_all add: stage_awaits_def)
  with b(2) show ?thesis by (auto simp: showHostOrReject_def Let_def intro: ui_reject_inv split: option.split)
qed

lemma add_inv:
  assumes b: "ui_inv b" and free: "jm_get (ub_pending b) (stage_key runId stageId) = None"
    and r: "r = \<lparr>ur_id = length (ub_requests b), ur_runId = runId, ur_stageId = stageId\<rparr>"
  shows "ui_inv (tell_store [SC_Awaiting runId stageId True]
    (b\<lparr>ub_requests := ub_requests b @ [r], ub_pending := jm_set (stage_key runId stageId) r (ub_pending b)\<rparr>))"
    (is "ui_inv ?b'")
proof -
  let ?k = "stage_key runId stageId"
  have wf: "jm_wf (ub_pending b)" and
    req: "\<And>k r. jm_get (ub_pending b) k = Some r \<Longrightarrow> k = request_key r \<and> ur_id r < length (ub_requests b) \<and> r = ub_requests b ! ur_id r" and
    ids: "\<forall>n < length (ub_requests b). ur_id (ub_requests b ! n) = n" and
    ms: "mset (map (ur_id \<circ> snd) (ub_pending b)) + mset (map fst (ub_settled b)) = mset [0..<length (ub_requests b)]" and
    aw: "\<And>r s. stage_awaits b r s \<longleftrightarrow> (\<exists>k q. jm_get (ub_pending b) k = Some q \<and> ur_runId q = r \<and> ur_stageId q = s)"
    using b unfolding ui_inv_def by blast+
  have get: "jm_get (ub_pending ?b') = (jm_get (ub_pending b))(?k \<mapsto> r)" by (rule ext) (simp add: tell_store_def)
  have "ub_pending ?b' = ub_pending b @ [(?k, r)]" using free by (auto simp: tell_store_def jm_set_fresh map_of_eq_None_iff)
  note p = this get
  have rid: "ur_id r = length (ub_requests b)" "ur_runId r = runId" "ur_stageId r = stageId" by (simp_all add: r)
  have q: "ub_requests ?b' = ub_requests b @ [r]" "ub_settled ?b' = ub_settled b" by (simp_all add: tell_store_def)
  have "mset (map (ur_id \<circ> snd) (ub_pending ?b')) + mset (map fst (ub_settled ?b')) = mset [0..<length (ub_requests ?b')]"
    using ms by (simp add: p(1) q rid)
  moreover have "jm_wf (ub_pending ?b')" using wf by (simp add: tell_store_def)
  moreover have "\<forall>n < length (ub_requests ?b'). ur_id (ub_requests ?b' ! n) = n" using ids by (simp add: q(1) nth_append rid less_Suc_eq)
  moreover have "k = request_key q \<and> ur_id q < length (ub_requests ?b') \<and> q = ub_requests ?b' ! ur_id q" if "jm_get (ub_pending ?b') k = Some q" for k q
  proof (cases "k = ?k")
    case True
    with that p(2) have "q = r" by simp
    with True show ?thesis by (simp add: rid q(1) request_key_def nth_append)
  next
    case False
    with that p(2) have "jm_get (ub_pending b) k = Some q" by simp
    from req [OF this] show ?thesis by (simp add: q(1) nth_append)
  qed
  moreover have "stage_awaits ?b' r' s \<longleftrightarrow> (\<exists>k q. jm_get (ub_pending ?b') k = Some q \<and> ur_runId q = r' \<and> ur_stageId q = s)" for r' s
  proof (cases "r' = runId \<and> s = stageId")
    case True
    then show ?thesis by (auto simp: stage_awaits_def tell_store_def p(2) rid)
  next
    case False
    then have "stage_awaits ?b' r' s = stage_awaits b r' s" by (auto simp: stage_awaits_def tell_store_def)
    moreover have "(jm_get (ub_pending ?b') k = Some q \<and> ur_runId q = r' \<and> ur_stageId q = s) =
        (jm_get (ub_pending b) k = Some q \<and> ur_runId q = r' \<and> ur_stageId q = s)" for k q
      using False free rid by (auto simp: p(2))
    ultimately show ?thesis by (simp only: aw)
  qed
  ultimately show ?thesis unfolding ui_inv_def by blast
qed

lemma request_inv: "ui_inv b \<Longrightarrow> ui_inv (fst (requestCustomUi runId stageId aborted throws b))"
proof (cases "aborted = None \<and> jm_get (ub_pending b) (stage_key runId stageId) = None")
  case True
  assume b: "ui_inv b"
  let ?r = "\<lparr>ur_id = length (ub_requests b), ur_runId = runId, ur_stageId = stageId\<rparr>"
  let ?b = "tell_store [SC_Awaiting runId stageId True]
    (b\<lparr>ub_requests := ub_requests b @ [?r], ub_pending := jm_set (stage_key runId stageId) ?r (ub_pending b)\<rparr>)"
  have "ui_inv ?b" using True by (intro add_inv [OF b _ refl]) simp
  moreover have "?r = ub_requests ?b ! ur_id ?r" by (simp add: tell_store_def)
  ultimately have "ui_inv (case jm_get (ub_hosts ?b) (stage_key runId stageId) of Some host \<Rightarrow> showHostOrReject host throws ?r ?b | None \<Rightarrow> ?b)"
    by (auto intro: show_inv split: option.split)
  with True show ?thesis by (simp add: requestCustomUi_def Let_def)
qed (auto simp: requestCustomUi_def Let_def split: option.splits)

lemma ui_register_inv:
  assumes b: "ui_inv b"
  shows "ui_inv (registerHost runId stageId host throws b)"
proof -
  let ?k = "stage_key runId stageId"
  define c where "c = (case (jm_get (ub_hosts b) ?k, jm_get (ub_pending b) ?k) of
      (Some previous, Some r) \<Rightarrow> if previous \<noteq> host then hideHost (Some previous) r (Some (host_replaced stageId)) b else b | _ \<Rightarrow> b)"
  define d where "d = c\<lparr>ub_hosts := jm_set ?k host (ub_hosts c)\<rparr>"
  have "ub_pending c = ub_pending b" "ub_requests c = ub_requests b" "ub_settled c = ub_settled b" "ub_store c = ub_store b"
    by (auto simp: c_def split: option.split)
  then have "ub_pending d = ub_pending b" "ub_requests d = ub_requests b" "ub_settled d = ub_settled b" "ub_store d = ub_store b"
    by (simp_all add: d_def)
  then have d: "ui_inv d" by (intro ui_inv_cong [OF b]) (simp_all add: stage_awaits_def)
  have "registerHost runId stageId host throws b =
      (case jm_get (ub_pending d) ?k of Some r \<Rightarrow> showHostOrReject host throws r d | None \<Rightarrow> d)"
    by (simp only: registerHost_def Let_def c_def d_def)
  with d show ?thesis by (auto intro: show_inv pending_request split: option.split)
qed

lemma clear_inv: "ui_inv b \<Longrightarrow> ui_inv (clearStagePrompt runId stageId b)"
  by (auto simp: clearStagePrompt_def Let_def tell_store_def stage_awaits_def elim!: ui_inv_cong)

lemma ui_step_inv: "ui_inv b \<Longrightarrow> ui_inv (ui_step e b)"
proof (cases e)
  case (UE_Provide r s a)
  assume "ui_inv b"
  then show ?thesis
    by (auto simp: UE_Provide provideStagePrompt_def Let_def tell_store_def stage_awaits_def elim!: ui_inv_cong)
next
  case (UE_Unregister r s h)
  assume "ui_inv b"
  then show ?thesis by (auto simp: UE_Unregister unregisterHost_def Let_def stage_awaits_def elim!: ui_inv_cong)
next
  case (UE_Answer r s a src)
  assume "ui_inv b"
  then show ?thesis
    by (auto simp: UE_Answer answerStagePrompt_def Let_def intro: ui_resolve_inv pending_request split: option.split)
next
  case (UE_Cancel r s reason)
  assume "ui_inv b"
  then show ?thesis
    by (auto simp: UE_Cancel cancelStagePrompt_def intro: clear_inv ui_reject_inv pending_request split: option.split)
next
  case (UE_Resolve n v)
  assume b: "ui_inv b"
  then have "n < length (ub_requests b) \<Longrightarrow> ub_requests b ! n = ub_requests b ! ur_id (ub_requests b ! n)" by (simp add: ui_inv_def)
  with b show ?thesis by (simp add: UE_Resolve ui_resolve_inv)
next
  case (UE_Abort n reason)
  assume b: "ui_inv b"
  then have "n < length (ub_requests b) \<Longrightarrow> ub_requests b ! n = ub_requests b ! ur_id (ub_requests b ! n)" by (simp add: ui_inv_def)
  with b show ?thesis by (simp add: UE_Abort ui_reject_inv)
qed (simp_all add: clear_inv ui_register_inv request_inv)

lemma ui_run_inv: "ui_inv b \<Longrightarrow> ui_inv (ui_run es b)"
  by (induction es arbitrary: b) (simp_all add: ui_run_def ui_step_inv)

definition ui_reached :: "('a, 'v) ui_event list \<Rightarrow> ('a, 'v) ui_broker" where
  "ui_reached es = ui_run es ui_init"

lemma ui_reached_inv: "ui_inv (ui_reached es)"
  unfolding ui_reached_def by (rule ui_run_inv [OF ui_init_inv])

lemma settled_once:
  fixes b :: "('a, 'v) ui_broker"
  assumes inv: "ui_inv b"
  shows "mset (map (ur_id \<circ> snd) (ub_pending b)) + mset (map fst (ub_settled b)) = mset [0..<length (ub_requests b)] \<and>
    distinct (map (request_key \<circ> snd) (ub_pending b)) \<and>
    (\<forall>r s. stage_awaits b r s \<longleftrightarrow> (\<exists>q\<in>set (map snd (ub_pending b)). ur_runId q = r \<and> ur_stageId q = s))"
proof -
  from inv have wf: "jm_wf (ub_pending b)" and
    keys: "\<And>k q. jm_get (ub_pending b) k = Some q \<Longrightarrow> k = request_key q" and
    ms: "mset (map (ur_id \<circ> snd) (ub_pending b)) + mset (map fst (ub_settled b)) = mset [0..<length (ub_requests b)]" and
    aw: "\<And>r s. stage_awaits b r s \<longleftrightarrow> (\<exists>k q. jm_get (ub_pending b) k = Some q \<and> ur_runId q = r \<and> ur_stageId q = s)"
    unfolding ui_inv_def by blast+
  have get: "jm_get (ub_pending b) k = Some q \<longleftrightarrow> (k, q) \<in> set (ub_pending b)" for k q using wf by simp
  have "map (request_key \<circ> snd) (ub_pending b) = map fst (ub_pending b)" using keys get by auto
  with wf have "distinct (map (request_key \<circ> snd) (ub_pending b))" by (simp only:)
  moreover have "stage_awaits b r s \<longleftrightarrow> (\<exists>q\<in>set (map snd (ub_pending b)). ur_runId q = r \<and> ur_stageId q = s)" for r s
    unfolding aw get by force
  ultimately show ?thesis using ms by blast
qed

lemma answer_reaches:
  fixes b :: "('a, 'v) ui_broker"
  assumes inv: "ui_inv b"
  shows "case peekStagePrompt runId stageId b of
      None \<Rightarrow> answerStagePrompt runId stageId a src b = (b, Some False)
    | Some i \<Rightarrow> (\<exists>adapter q. jm_get (ub_adapters b) (stage_key runId stageId) = Some adapter \<and> pa_prompt adapter = i \<and>
        jm_get (ub_pending b) (stage_key runId stageId) = Some q \<and>
        (case pa_buildResult adapter a of
           None \<Rightarrow> answerStagePrompt runId stageId a src b = (b, None)
         | Some v \<Rightarrow> (case answerStagePrompt runId stageId a src b of (b', ok) \<Rightarrow>
             ok = Some True \<and> ub_settled b' = ub_settled b @ [(ur_id q, Resolved_With v)] \<and>
             wasStagePromptResolved runId stageId i b' \<and> peekStagePrompt runId stageId b' = None \<and>
             ub_notified b' = ub_notified b @ [(ur_runId q, ur_stageId q, i, v, src)])))"
proof (cases "\<exists>adapter q. jm_get (ub_adapters b) (stage_key runId stageId) = Some adapter \<and> jm_get (ub_pending b) (stage_key runId stageId) = Some q")
  case True
  then obtain adapter q where aq: "jm_get (ub_adapters b) (stage_key runId stageId) = Some adapter"
    "jm_get (ub_pending b) (stage_key runId stageId) = Some q" by blast
  from inv aq(2) have key: "stage_key runId stageId = request_key q" unfolding ui_inv_def by blast
  have owns: "ui_owns b q" using aq(2) by (simp add: ui_owns_def key)
  have told: "ub_notified (hideHost x q m c) = ub_notified c" "ub_adapters (hideHost x q m c) = ub_adapters c"
    "ub_resolvedPromptIds (hideHost x q m c) = ub_resolvedPromptIds c" for x m and c :: "('a, 'v) ui_broker"
    by (cases x; simp add: hideHost_def)+
  show ?thesis
    using aq owns
    by (cases "pa_buildResult adapter a")
      (simp_all add: peekStagePrompt_def answerStagePrompt_def Let_def ui_resolve_def told tell_store_def wasStagePromptResolved_def key)
next
  case False
  then show ?thesis by (auto simp: peekStagePrompt_def answerStagePrompt_def Let_def split: option.splits)
qed

text \<open>C28: C0: Whatever hosts, adapters, answers, aborts and cancellations do in whatever order, every request that was accepted
  is settled exactly once or still pending, a stage has at most one pending request, and the store was last told that
  a stage awaits input exactly while it has one.
\<close>

theorem ui_requests_settle_once:
  "mset (map (ur_id \<circ> snd) (ub_pending (ui_reached es))) + mset (map fst (ub_settled (ui_reached es))) =
     mset [0..<length (ub_requests (ui_reached es))] \<and>
    distinct (map (request_key \<circ> snd) (ub_pending (ui_reached es))) \<and>
    (\<forall>r s. stage_awaits (ui_reached es) r s \<longleftrightarrow> (\<exists>q\<in>set (map snd (ub_pending (ui_reached es))). ur_runId q = r \<and> ur_stageId q = s))"
  by (rule settled_once [OF ui_reached_inv])

text \<open>An answer from outside reaches the stage whose prompt it is given for: where a prompt with its adapter is pending,
  the promise of that request is resolved with the result built from the answer, the prompt counts as resolved, the
  request and adapter are gone and listeners are told once; where none is pending, or building
  the result throws, nothing changes.
\<close>

theorem answers_reach_their_prompt:
  "case peekStagePrompt runId stageId (ui_reached es) of
      None \<Rightarrow> answerStagePrompt runId stageId a src (ui_reached es) = (ui_reached es, Some False)
    | Some i \<Rightarrow> (\<exists>adapter q. jm_get (ub_adapters (ui_reached es)) (stage_key runId stageId) = Some adapter \<and> pa_prompt adapter = i \<and>
        jm_get (ub_pending (ui_reached es)) (stage_key runId stageId) = Some q \<and>
        (case pa_buildResult adapter a of
           None \<Rightarrow> answerStagePrompt runId stageId a src (ui_reached es) = (ui_reached es, None)
         | Some v \<Rightarrow> (case answerStagePrompt runId stageId a src (ui_reached es) of (b', ok) \<Rightarrow>
             ok = Some True \<and> ub_settled b' = ub_settled (ui_reached es) @ [(ur_id q, Resolved_With v)] \<and>
             wasStagePromptResolved runId stageId i b' \<and> peekStagePrompt runId stageId b' = None \<and>
             ub_notified b' = ub_notified (ui_reached es) @ [(ur_runId q, ur_stageId q, i, v, src)])))"
  by (rule answer_reaches [OF ui_reached_inv])

end
