(* ===== verification/Spec2Isabelle.thy ===== *)
theory Spec2Isabelle
  imports Bounded_Render Room_Store Digest Framing Broker Client Roundtable_Tool Compaction_Runner Intercom_Runs Workflow_Limiter Stage_Topology Workflow_Scheduler
    Inbound_Queue Reply_Tracking Terminal_Barrier Supervisor_Interview Url_Fetch
    Session_Runs Truncation Diff_Rows File_Mutation_Queue Todo_Locks Project_Trust Stage_Ui_Broker
begin

text \<open>
  Verification library for Orphus, a coding agent in TypeScript with a room bus for groups of agents
  (roundtable), a broker between agent sessions (intercom), and a workflow engine.  This library models
  the logic that these parts rest on, function by function, and proves what makes it correct.  Sources are
  under \<open>src/packages\<close>.  JavaScript values are modelled in \<open>JS_Core\<close> (strings as lists of UTF-16 code
  units, \<open>Map\<close> as an association list in insertion order, numbers as integers where the code stores
  integers) and \<open>Json\<close> (values of \<open>JSON.parse\<close>).  Errors are values of \<open>sum\<close> or \<open>option\<close> types,
  asynchronous code is a step per stretch between two awaits, and code that is not in the repository is a
  parameter.

  \<^bold>\<open>Roundtable\<close> (\<open>packages/roundtable\<close>).
  \<^item> \<open>Bounded_Render\<close>, \<open>Digest\<close>: \<open>bounded-render.ts\<close> and \<open>digest.ts\<close>; every rendering fits its budget,
    shows the items by priority and says what it left out.
  \<^item> \<open>Room_Store\<close>: \<open>broker/room-store.ts\<close>; rooms, members, cursors and retention.  The locale
    \<open>membership_store\<close> states what the broker relies on and is interpreted on the store.
  \<^item> \<open>Framing\<close>: \<open>broker/framing.ts\<close>; length-prefixed frames survive any split into chunks.
  \<^item> \<open>Broker\<close>, \<open>Client\<close>, \<open>Roundtable_Tool\<close>: \<open>broker/broker.ts\<close>, \<open>broker/client.ts\<close>,
    \<open>roundtable-tool.ts\<close>; steps of both ends, invariants over every run of the broker, what pushes disclose.

  \<^bold>\<open>Compaction\<close> (\<open>packages/coding-agent/src/core/compaction\<close>): a planner model names lines to delete from
  a numbered transcript.  The chain is \<open>Llm_Messages\<close> (\<open>core/messages.ts\<close>: what of a session a provider
  sees, and the repair that pairs tool calls with results), \<open>Transcript_Serialization\<close> (the text),
  \<open>Numbered_Region\<close> (numbering and protected lines), \<open>Planner_Prompt\<close> and \<open>Planner_Outcome\<close> (one request and
  its failures), \<open>Range_Records\<close> (the answer's grammar, also when cut off), \<open>Deleted_Ranges\<close> (validation and
  reconstruction), \<open>Region_Trim\<close> and \<open>Fallback_Planner\<close> (smaller requests, other models), and
  \<open>Compaction_Runner\<close> (the ladder).  The lemmas show that what remains is verbatim, that protected lines
  stay, that ranges of untrusted answers are safe, and which rung answers.

  \<^bold>\<open>Sessions\<close> (\<open>packages/coding-agent/src/core/session-manager-*.ts\<close>).  \<open>Session_Entries\<close> (entries and
  migration), \<open>Session_History\<close> (index, paths, contexts), \<open>Session_Manager\<close> (appends with rollback, labels,
  branches, files), \<open>Session_Tree\<close> (invariants) and \<open>Session_Runs\<close> (everything reachable by the operations):
  entries form a tree, restarts lose nothing once an assistant has answered, a failed append changes nothing.
  The walk to the root is a partial function, so \<open>None\<close> is a walk that does not return; it returns in
  every session made by the manager.

  \<^bold>\<open>Tools\<close> (\<open>packages/coding-agent/src/core/tools\<close>).
  \<^item> \<open>Url_Guards\<close>, \<open>Url_Fetch\<close>: \<open>url-ip-guards.ts\<close> and the loading of a page in \<open>fetch-url.ts\<close>; only public
    hosts are contacted; the loop over redirects counts down the code's own limit, so it needs no fuel of the
    model.
  \<^item> \<open>Truncation\<close>: \<open>truncate.ts\<close>, with UTF-8; the longest head or tail within both limits.
  \<^item> \<open>Edit_Matching\<close>, \<open>Diff_Rows\<close>: \<open>edit-diff.ts\<close>, \<open>edit-diff-preserve.ts\<close>; edits replace what they name and
    keep all other lines, the shown rows carry their numbers.
  \<^item> \<open>File_Mutation_Queue\<close>: \<open>file-mutation-queue.ts\<close> and \<open>withFileMutationQueues\<close> of \<open>edit.ts\<close>; mutations of
    one file run one at a time and in the order of the calls, and none waits for ever unless a task names one
    file twice over a link.  The locale \<open>served_in_order\<close> is the contract of a line of waiting calls and is
    interpreted on the states of the queue.
  \<^item> \<open>Json_Text\<close>, \<open>Todo_Text\<close>: \<open>JSON.stringify\<close> with indentation and \<open>JSON.parse\<close> (whose fuel, the length of
    the text, is enough because every call consumes a character), and the text of a todo in
    \<open>todos-storage.ts\<close>; what is stored reads back.
  \<^item> \<open>Todo_Store\<close>, \<open>Todo_Locks\<close>: \<open>todos-execute.ts\<close>, \<open>todos-mutations.ts\<close>, \<open>todos-locks.ts\<close> and
    \<open>todos-model.ts\<close>; the actions of the tool one at a time on the directory (claims are kept, calls touch one
    todo and leave no lock, lists are exact), and the lock of a todo step by step between sessions (exclusion
    without steals, and what stealing breaks).

  \<^bold>\<open>Trust\<close>.  \<open>Project_Trust\<close>: \<open>trust-manager.ts\<close> and \<open>project-trust.ts\<close> of \<open>coding-agent/src/core\<close>; saved
  choices are remembered, decide for the folders under them and no others, and hold in later sessions.  The
  walks to the root end because every step shortens the path.

  \<^bold>\<open>Intercom\<close> (\<open>packages/intercom\<close>).
  \<^item> \<open>Intercom_Target\<close>, \<open>Delivery_Caches\<close>, \<open>Intercom_Send\<close>, \<open>Intercom_Broker\<close>: \<open>types.ts\<close>, \<open>group.ts\<close>,
    \<open>session-target.ts\<close> and \<open>broker/*.ts\<close>.  The locale \<open>recent_memory\<close> is the contract of the two bounded
    memories and is interpreted on both.
  \<^item> \<open>Intercom_Isolation\<close>, \<open>Intercom_Runs\<close>: invariants over every run of the broker, above all that traffic
    stays in its group except for answers to a supervisor.
  \<^item> \<open>Inbound_Queue\<close>, \<open>Reply_Tracking\<close>, \<open>Terminal_Barrier\<close>: the receiving session (\<open>inbound-idle-queue.ts\<close>,
    \<open>inbound-message-admission.ts\<close>, \<open>reply-tracker.ts\<close>, \<open>reply-waiter.ts\<close>, \<open>terminal-ordering-barrier.ts\<close>);
    every reservation, ask and barrier is settled once.
  \<^item> \<open>Supervisor_Interview\<close>: requests and answers of \<open>intercom-utils.ts\<close>.

  \<^bold>\<open>Workflows\<close> (\<open>packages/workflows/src\<close>).
  \<^item> \<open>Workflow_Limiter\<close>: \<open>runs/shared/concurrency.ts\<close>, refined to a waiting line.
  \<^item> \<open>Workflow_Graph\<close>, \<open>Stage_Topology\<close>: \<open>engine/graph-inference.ts\<close> and
    \<open>durable/stage-topology-validation.ts\<close>; accepted topologies are ordered, the cycle search with one unit of
    fuel more than there are stages is exact.
  \<^item> \<open>Stage_Ui_Broker\<close>: \<open>shared/stage-ui-broker.ts\<close>; requests of stages for input are settled once, at most
    one is pending per stage, and answers from outside reach the prompt they are given for.
  \<^item> \<open>Workflow_Scheduler\<close>: \<open>runs/foreground/executor-scheduler.ts\<close>; cascade pauses and resumes, whose depth
    is bounded by the number of stages that can be held.

  Properties are numbered by the manifest; theorems about what the code does wrong are stated as the code
  behaves and listed there as findings.

  \<^bold>\<open>Not modelled\<close>: code that is mostly calls of something outside the repository or of the operating system
  (terminal user interfaces, MCP, web search, transcription, subagent processes, fleet, the extension runtime,
  the workflow engine's promises and sessions, durable stores on disk and in a database), vendored and generated
  code (the hashline edit engine, the scripts of the design skill, HTML templates), the tree view of sessions,
  and the text of log lines.  Within the modelled files, the contents of session files are lists of parsed
  lines, clocks and random ids are arguments, and \<open>JSON.parse\<close> and \<open>JSON.stringify\<close> (outside the todos),
  NFKC, HMAC, \<open>realpath\<close> and the provider calls are parameters.
\<close>

end

